(* ===== verification/Prelude.thy ===== *)
theory Prelude
  imports Complex_Main "HOL-Library.Word" "HOL-Library.Multiset"
begin

text \<open>
  Shared ground of the development: the machine types the sources use, the errors the
  sources raise, the XOR-sum over a finite set (the algebra behind every sketch) and the
  generic lemmas on lists, folds, symmetric differences and equivalence closures that the
  component theories use.

  Widths. \<^verbatim>\<open>node_id_t\<close> is a 32-bit and \<^verbatim>\<open>vec_t\<close>, \<^verbatim>\<open>edge_id_t\<close>, \<^verbatim>\<open>size_t\<close> and
  \<^verbatim>\<open>col_hash_t\<close> are 64-bit unsigned integers. Where the code does arithmetic or bit
  operations that can wrap, the model uses words of that width; where a value is only an
  index or a counter that stays below an array length, the model uses \<^typ>\<open>nat\<close>.
  The width of \<^verbatim>\<open>vec_hash_t\<close> is fixed by a header outside the repository, so it is a
  type variable \<open>'h\<close> throughout.
\<close>

unbundle bit_operations_syntax

type_synonym node_id_t = nat
type_synonym vec_t = "64 word"
type_synonym col_hash_t = "64 word"
type_synonym seed_t = "64 word"

text \<open>
  \<^verbatim>\<open>XXH3_64bits_withSeed\<close> (types.h) is third-party code. It is a parameter of every
  definition that hashes: the 64-bit value hashed, then the 64-bit seed.
\<close>

type_synonym xxh = "vec_t \<Rightarrow> seed_t \<Rightarrow> 64 word"

named_theorems sketch_simps \<open>rewrite rules for the bucket arrays of sketches\<close>
named_theorems dsu_simps \<open>rewrite rules for union-find forests\<close>

section \<open>Errors\<close>

text \<open>
  One constructor per exception class of the sources (\<open>RuntimeError\<close> for \<^verbatim>\<open>std::runtime_error\<close>);
  \<open>ExitFailure\<close> is \<^verbatim>\<open>exit(EXIT_FAILURE)\<close>. \<open>Undefined\<close> marks an access outside
  an array: the sources guard these with \<^verbatim>\<open>assert\<close>, which the default Release build compiles
  out, so such a call has undefined behaviour.
\<close>

datatype error =
    OutOfSamplesException seed_t nat nat
  | UpdateLockedException
  | RuntimeError
  | ExitFailure
  | Undefined

section \<open>XOR-sums over finite sets\<close>

interpretation xorw: comm_monoid_set "(XOR) :: 'a::len word \<Rightarrow> 'a word \<Rightarrow> 'a word" 0
  by unfold_locales (auto simp: ac_simps)

abbreviation xsum :: "('b \<Rightarrow> 'a::len word) \<Rightarrow> 'b set \<Rightarrow> 'a word" where
  "xsum f S \<equiv> xorw.F f S"

lemma xor_cancel_left [simp]: "(a::'a::len word) XOR (a XOR b) = b"
  by (simp add: xor.assoc [symmetric])

lemma xsum_disjoint_Un:
  assumes "finite S" "finite T" "S \<inter> T = {}"
  shows "xsum f (S \<union> T) = xsum f S XOR xsum f T"
  using assms by (rule xorw.union_disjoint)

lemma xsum_sym_diff:
  assumes "finite S" "finite T"
  shows "xsum f (sym_diff S T) = xsum f S XOR xsum f T"
proof -
  have S: "xsum f S = xsum f (S - T) XOR xsum f (S \<inter> T)"
    using xsum_disjoint_Un [of "S - T" "S \<inter> T" f] assms
    by (metis Int_Diff_Un Int_Diff_disjoint Int_commute Un_commute finite_Diff finite_Int)
  have T: "xsum f T = xsum f (T - S) XOR xsum f (S \<inter> T)"
    using xsum_disjoint_Un [of "T - S" "S \<inter> T" f] assms
    by (metis Int_Diff_Un Int_Diff_disjoint Int_commute Un_commute finite_Diff finite_Int)
  have "xsum f (sym_diff S T) = xsum f (S - T) XOR xsum f (T - S)"
    using assms by (intro xsum_disjoint_Un) auto
  then show ?thesis
    unfolding S T by (simp add: xor.assoc xor.left_commute xor.commute)
qed

lemma xsum_toggle:
  assumes "finite S"
  shows "xsum f (sym_diff S {x}) = xsum f S XOR f x"
  using xsum_sym_diff [OF assms, of "{x}" f] by simp

end
