(* ===== verification/Interleaving.thy ===== *)
theory Interleaving
  imports Prelude
begin

text \<open>
  Threads that share memory. A thread is the list of its atomic operations; a schedule names, step
  by step, the thread that moves. \<open>run_threads\<close> executes a schedule and then lets the threads finish
  one after the other, so that it ends for every schedule and every interleaving is the run of some
  schedule. The locale \<open>commuting_ops\<close> is the contract under which the schedule does not matter.
  \<open>strided\<close> is the loop \<^verbatim>\<open>for (i = start; i < bound; i += step)\<close> that divides work among the threads of
  a block.
\<close>

fun run_sched :: "('op \<Rightarrow> 's \<Rightarrow> 's) \<Rightarrow> nat list \<Rightarrow> 'op list list \<Rightarrow> 's \<Rightarrow> 'op list list \<times> 's" where
  "run_sched f [] ps s = (ps, s)"
| "run_sched f (t # ts) ps s =
     (if t < length ps
      then case ps ! t of [] \<Rightarrow> run_sched f ts ps s | a # as \<Rightarrow> run_sched f ts (ps[t := as]) (f a s)
      else run_sched f ts ps s)"

definition run_threads :: "('op \<Rightarrow> 's \<Rightarrow> 's) \<Rightarrow> nat list \<Rightarrow> 'op list list \<Rightarrow> 's \<Rightarrow> 's" where
  "run_threads f sched ps s = (let (ps, s) = run_sched f sched ps s in fold f (concat ps) s)"

text \<open>Operations from a set \<open>ops\<close> that commute pairwise on every state.\<close>

locale commuting_ops =
  fixes f :: "'op \<Rightarrow> 's \<Rightarrow> 's" and ops :: "'op set"
  assumes commute: "a \<in> ops \<Longrightarrow> b \<in> ops \<Longrightarrow> f a (f b s) = f b (f a s)"
begin

lemma fold_commute:
  "a \<in> ops \<Longrightarrow> set as \<subseteq> ops \<Longrightarrow> fold f as (f a s) = f a (fold f as s)"
proof (induction as arbitrary: s)
  case (Cons b as)
  then show ?case using commute [of a b s] by (metis fold_simps(2) insert_subset list.simps(15))
qed simp

lemma fold_mset:
  assumes "mset as = mset bs" "set bs \<subseteq> ops"
  shows "fold f as s = fold f bs s"
  using assms
proof (induction as arbitrary: bs s)
  case (Cons a as)
  then have "a \<in> set bs" by (metis list.set_intros(1) set_mset_mset)
  then obtain cs ds where bs: "bs = cs @ a # ds" by (meson split_list)
  have "mset as = mset (cs @ ds)" using Cons.prems(1) by (simp add: bs)
  then have "fold f as (f a s) = fold f (cs @ ds) (f a s)"
    using Cons.prems(2) by (intro Cons.IH) (auto simp: bs)
  then show ?case using Cons.prems(2) by (simp add: bs fold_commute)
qed simp

lemma run_sched_fold:
  assumes "run_sched f sched ps s = (ps', s')" "set (concat ps) \<subseteq> ops"
  shows "fold f (concat ps') s' = fold f (concat ps) s"
  using assms
proof (induction f\<equiv>f sched ps s rule: run_sched.induct)
  case (2 t ts ps s)
  show ?case
  proof (cases "t < length ps \<and> ps ! t \<noteq> []")
    case True
    then obtain a as where a: "ps ! t = a # as" and t: "t < length ps" by (cases "ps ! t") auto
    have ps: "ps = take t ps @ (a # as) # drop (Suc t) ps" using t a by (metis id_take_nth_drop)
    have ps': "ps[t := as] = take t ps @ as # drop (Suc t) ps" using t by (rule upd_conv_take_nth_drop)
    have m: "mset (concat ps) = mset (a # concat (ps[t := as]))" unfolding ps' by (subst ps) simp
    then have sub: "set (a # concat (ps[t := as])) \<subseteq> ops" using "2.prems"(2) by (metis set_mset_mset)
    have "fold f (concat ps') s' = fold f (concat (ps[t := as])) (f a s)"
      using "2.hyps"(2) [OF t a] "2.prems"(1) sub by (simp add: t a)
    also have "\<dots> = fold f (a # concat (ps[t := as])) s" by simp
    also have "\<dots> = fold f (concat ps) s" by (rule fold_mset [symmetric, OF m sub])
    finally show ?thesis .
  next
    case False
    then show ?thesis using 2 by (auto split: if_splits list.splits)
  qed
qed simp

lemma run_threads_fold: "set (concat ps) \<subseteq> ops \<Longrightarrow> run_threads f sched ps s = fold f (concat ps) s"
  by (cases "run_sched f sched ps s") (simp add: run_threads_def run_sched_fold)

lemma run_threads_order:
  assumes "mset (concat ps) = mset bs" "set bs \<subseteq> ops"
  shows "run_threads f sched ps s = fold f bs s"
proof -
  have "set (concat ps) \<subseteq> ops" using assms by (metis set_mset_mset)
  then have "run_threads f sched ps s = fold f (concat ps) s" by (rule run_threads_fold)
  also have "\<dots> = fold f bs s" by (rule fold_mset [OF assms])
  finally show ?thesis .
qed

end

section \<open>Work division\<close>

function strided :: "nat \<Rightarrow> nat \<Rightarrow> nat \<Rightarrow> nat list" where
  "strided i step bound = (if i < bound \<and> 0 < step then i # strided (i + step) step bound else [])"
  by pat_completeness auto
termination
  by (relation "measure (\<lambda>(i, step, bound). bound - i)") auto

declare strided.simps [simp del]

lemma set_strided: "0 < step \<Longrightarrow> set (strided i step bound) = {j. i \<le> j \<and> j < bound \<and> j mod step = i mod step}"
proof (induction i step bound rule: strided.induct)
  case (1 i step bound)
  show ?case
  proof (cases "i < bound")
    case True
    have "i \<le> j \<and> j mod step = i mod step \<longleftrightarrow> j = i \<or> i + step \<le> j \<and> j mod step = i mod step" for j
    proof
      assume "i \<le> j \<and> j mod step = i mod step"
      then show "j = i \<or> i + step \<le> j \<and> j mod step = i mod step"
        by (metis "1.prems" add_le_imp_le_diff dvd_imp_le le_add_diff_inverse less_le mod_eq_dvd_iff_nat nat_add_left_cancel_le zero_less_diff)
    qed auto
    then show ?thesis
      using True 1 by (subst strided.simps) (auto, blast?)
  next
    case False
    then show ?thesis by (subst strided.simps) auto
  qed
qed

lemma distinct_strided: "distinct (strided i step bound)"
proof (induction i step bound rule: strided.induct)
  case (1 i step bound)
  then show ?case by (subst strided.simps) (auto simp: set_strided)
qed

text \<open>The threads \<open>0, \<dots>, T - 1\<close> together do every index below the bound once.\<close>

lemma distinct_strides: "k \<le> T \<Longrightarrow> distinct (concat (map (\<lambda>t. strided t T n) [0..<k]))"
proof (induction k)
  case (Suc k)
  then have "set (strided k T n) \<inter> set (concat (map (\<lambda>t. strided t T n) [0..<k])) = {}"
    by (auto simp: set_strided)
  then show ?case using Suc by (auto simp: distinct_strided)
qed simp

lemma mset_strided:
  assumes "0 < T"
  shows "mset (concat (map (\<lambda>t. strided t T n) [0..<T])) = mset [0..<n]"
proof -
  have "set (concat (map (\<lambda>t. strided t T n) [0..<T])) = set [0..<n]" using assms by (auto simp: set_strided)
  then show ?thesis using distinct_strides [OF order_refl] set_eq_iff_mset_eq_distinct distinct_upt by blast
qed

lemma concat_map_concat: "concat (map f (concat xss)) = concat (map (\<lambda>xs. concat (map f xs)) xss)"
  by (induction xss) simp_all

lemma mset_concat_map: "mset xs = mset ys \<Longrightarrow> mset (concat (map f xs)) = mset (concat (map f ys))"
  by (metis mset_concat mset_map sum_mset_sum_list)

lemma mset_thread_progs:
  assumes "0 < T"
  shows "mset (concat (map (\<lambda>t. concat (map f (strided t T n))) [0..<T])) = mset (concat (map f [0..<n]))"
  using mset_concat_map [OF mset_strided [OF assms], of f n] by (simp add: concat_map_concat o_def)

end
