(* ===== verification/Util.thy ===== *)
theory Util
  imports Prelude
begin

text \<open>
  src/util.cpp: the two pairing functions that number the edges of a graph. Node ids are
  32-bit words here, because both functions depend on the width of \<^verbatim>\<open>node_id_t\<close>.

  \<open>edge_id\<close> is the call \<^verbatim>\<open>concat_pairing_fn(src, dst)\<close> as the algorithms make it, with node ids
  as indices: the \<open>of_nat\<close> is the implicit conversion to \<^verbatim>\<open>node_id_t\<close>.
\<close>

definition concat_pairing_fn :: "32 word \<Rightarrow> 32 word \<Rightarrow> 64 word" where
  "concat_pairing_fn i j =
     (let (i, j) = (if i > j then (j, i) else (i, j))
      in push_bit 32 (ucast i) OR ucast j)"

definition inv_concat_pairing_fn :: "64 word \<Rightarrow> 32 word \<times> 32 word" where
  "inv_concat_pairing_fn idx = (ucast (drop_bit 32 idx), ucast (idx AND 0xFFFFFFFF))"

text \<open>
  \<^verbatim>\<open>nondirectional_non_self_edge_pairing_fn\<close>: the parameters \<^verbatim>\<open>i\<close> and \<^verbatim>\<open>j\<close> have type
  \<^verbatim>\<open>node_id_t\<close>, so the compound assignment \<^verbatim>\<open>j *= jm\<close> multiplies in 64 bits and truncates the
  product to 32, and \<^verbatim>\<open>i + j\<close> is a 32-bit sum that the return widens.
\<close>

definition nondirectional_non_self_edge_pairing_fn :: "32 word \<Rightarrow> 32 word \<Rightarrow> 64 word" where
  "nondirectional_non_self_edge_pairing_fn i j =
     (let (i, j) = (if i > j then (j, i) else (i, j));
          jm = (ucast j :: 64 word) - 1;
          (j, jm) = (if (ucast j :: 64 word) AND 1 = 0
                     then (drop_bit 1 j, jm) else (j, drop_bit 1 jm));
          j = (ucast (ucast j * jm) :: 32 word)
      in ucast (i + j))"

definition edge_id :: "node_id_t \<Rightarrow> node_id_t \<Rightarrow> vec_t" where
  "edge_id src dst = concat_pairing_fn (of_nat src) (of_nat dst)"

definition edge_of :: "vec_t \<Rightarrow> node_id_t \<times> node_id_t" where
  "edge_of idx = (let (i, j) = inv_concat_pairing_fn idx in (unat i, unat j))"

section \<open>The concatenating pairing function\<close>

lemma concat_pairing_fn_commute: "concat_pairing_fn i j = concat_pairing_fn j i"
  by (auto simp: concat_pairing_fn_def)

lemma inv_concat_push_or:
  fixes i j :: "32 word"
  shows "inv_concat_pairing_fn (push_bit 32 (ucast i) OR ucast j) = (i, j)"
proof -
  have "ucast (drop_bit 32 (push_bit 32 (ucast i) OR ucast j :: 64 word)) = i"
    by (rule bit_word_eqI) (auto simp: bit_simps dest: bit_imp_le_length)
  moreover have "ucast ((push_bit 32 (ucast i) OR ucast j :: 64 word) AND 0xFFFFFFFF) = j"
  proof -
    have m: "(0xFFFFFFFF :: 64 word) = mask 32" by (simp add: mask_eq_exp_minus_1)
    show ?thesis
      unfolding m by (rule bit_word_eqI) (auto simp: bit_simps dest: bit_imp_le_length)
  qed
  ultimately show ?thesis by (simp add: inv_concat_pairing_fn_def)
qed

lemma inv_concat_concat: "inv_concat_pairing_fn (concat_pairing_fn i j) = (min i j, max i j)"
  by (cases "i \<le> j") (auto simp: concat_pairing_fn_def inv_concat_push_or min_def max_def)

text \<open>\<^verbatim>\<open>inv_concat_pairing_fn\<close> inverts \<^verbatim>\<open>concat_pairing_fn\<close>: for every pair of 32-bit
  node ids it returns the pair with the smaller id first.\<close>

theorem inv_concat_pairing_fn_concat:
  "inv_concat_pairing_fn (concat_pairing_fn i j) = (min i j, max i j)"
  by (rule inv_concat_concat)

lemma concat_inv_concat:
  assumes "inv_concat_pairing_fn idx = (i, j)" "i \<le> j"
  shows "concat_pairing_fn i j = idx"
proof -
  have m: "(0xFFFFFFFF :: 64 word) = mask 32" by (simp add: mask_eq_exp_minus_1)
  have "push_bit 32 (ucast (ucast (drop_bit 32 idx) :: 32 word)) OR
        ucast (ucast (idx AND mask 32) :: 32 word) = idx"
    by (rule bit_word_eqI) (auto simp: bit_simps)
  with assms show ?thesis
    by (auto simp: concat_pairing_fn_def inv_concat_pairing_fn_def m)
qed

section \<open>The triangular pairing function\<close>

lemma triangular_split:
  "(j::nat) * (j - 1) div 2 = (if even j then (j div 2) * (j - 1) else j * ((j - 1) div 2))"
  by (cases "even j") (auto elim!: evenE oddE)

lemma unat_ucast_up: "unat (ucast (w :: 32 word) :: 64 word) = unat w"
proof -
  have "unat w < 2 ^ 64" using unsigned_less [of w, where 'a = nat] by simp
  then show ?thesis by (simp add: unsigned_ucast_eq take_bit_nat_eq_self)
qed

lemma unat_ucast_down: "unat (ucast (w :: 64 word) :: 32 word) = unat w mod 2 ^ 32"
  by (simp add: unsigned_ucast_eq take_bit_eq_mod)

lemma unat_drop_bit_1: "unat (drop_bit 1 w) = unat w div 2"
  by (simp only: unat_drop_bit_eq drop_bit_eq_div [of 1 "unat w"] power_one_right)

lemma low_bit_even: "(ucast (j :: 32 word) :: 64 word) AND 1 = 0 \<longleftrightarrow> even (unat j)"
proof -
  have "(ucast j :: 64 word) AND 1 = 0 \<longleftrightarrow> unat ((ucast j :: 64 word) mod 2) = 0"
    by (simp add: and_one_eq unsigned_eq_0_iff)
  also have "\<dots> \<longleftrightarrow> even (unat j)"
    unfolding unat_mod unat_ucast_up by (simp add: even_iff_mod_2_eq_zero)
  finally show ?thesis .
qed

text \<open>The product before truncation: \<open>j * (j - 1) / 2\<close>, halved on the even factor.\<close>

definition triangle :: "32 word \<Rightarrow> 64 word" where
  "triangle j = (let jm = (ucast j :: 64 word) - 1
     in if (ucast j :: 64 word) AND 1 = 0 then ucast (drop_bit 1 j) * jm else ucast j * drop_bit 1 jm)"

lemma unat_triangle: "unat (triangle j) = unat j * (unat j - 1) div 2"
proof (cases "unat j = 0")
  case True
  then have "j = 0" by (simp add: unsigned_eq_0_iff)
  then show ?thesis by (simp add: triangle_def)
next
  case False
  have "unat j < 2 ^ 32" using unsigned_less [of j, where 'a = nat] by simp
  then have "unat j * unat j < 2 ^ 32 * 2 ^ 32" by (intro mult_strict_mono) auto
  then have lt: "unat j * unat j < 2 ^ 64" by simp
  have jm: "unat ((ucast j :: 64 word) - 1) = unat j - 1"
  proof -
    have "(ucast j :: 64 word) \<noteq> 0" using False unat_ucast_up [of j] by auto
    then show ?thesis by (simp add: unat_minus_one unat_ucast_up)
  qed
  have small: "unat (a * b) = unat a * unat b" if "unat a * unat b \<le> unat j * unat j" for a b :: "64 word"
    using that lt by (simp add: unat_word_ariths)
  show ?thesis
  proof (cases "even (unat j)")
    case True
    have "unat (ucast (drop_bit 1 j) * ((ucast j :: 64 word) - 1)) = unat j div 2 * (unat j - 1)"
      by (subst small; simp only: unat_ucast_up jm unat_drop_bit_1) (auto intro!: mult_le_mono)
    with True triangular_split [of "unat j"] show ?thesis by (simp add: triangle_def low_bit_even)
  next
    case odd: False
    have "unat (ucast j * drop_bit 1 ((ucast j :: 64 word) - 1)) = unat j * ((unat j - 1) div 2)"
      by (subst small; simp only: unat_ucast_up jm unat_drop_bit_1) (auto intro!: mult_le_mono)
    with odd triangular_split [of "unat j"] show ?thesis by (simp add: triangle_def low_bit_even)
  qed
qed

lemma nondirectional_triangle:
  "nondirectional_non_self_edge_pairing_fn i j = ucast (min i j + ucast (triangle (max i j)))"
  by (cases "i \<le> j")
     (auto simp: nondirectional_non_self_edge_pairing_fn_def triangle_def min_def max_def Let_def)

text \<open>\<^verbatim>\<open>nondirectional_non_self_edge_pairing_fn\<close> returns \<open>i + j * (j - 1) / 2\<close> for the
  ordered pair, as its comment says, as long as that number fits in 32 bits.\<close>

theorem nondirectional_pairing_value:
  assumes "unat (min i j) + unat (max i j) * (unat (max i j) - 1) div 2 < 2 ^ 32"
  shows "unat (nondirectional_non_self_edge_pairing_fn i j) =
    unat (min i j) + unat (max i j) * (unat (max i j) - 1) div 2"
proof -
  have "unat (ucast (triangle (max i j)) :: 32 word) = unat (max i j) * (unat (max i j) - 1) div 2"
    using assms by (simp add: unat_ucast_down unat_triangle)
  then have "unat (min i j + ucast (triangle (max i j))) =
      unat (min i j) + unat (max i j) * (unat (max i j) - 1) div 2"
    using assms by (simp add: unat_word_ariths)
  then show ?thesis by (simp only: nondirectional_triangle unat_ucast_up)
qed

theorem nondirectional_pairing_value_witness:
  "unat (nondirectional_non_self_edge_pairing_fn 7 3) = 3 + 7 * 6 div 2"
  using nondirectional_pairing_value [of 7 3] by simp

text \<open>Beyond 32 bits the product is truncated to \<^verbatim>\<open>node_id_t\<close>, so the function is not
  a pairing function: the edges (0, 92683) and (329, 333) get the same number.\<close>

theorem nondirectional_pairing_collision:
  "nondirectional_non_self_edge_pairing_fn 0 92683 = 55607 \<and>
   nondirectional_non_self_edge_pairing_fn 329 333 = 55607"
  by code_simp

section \<open>Edge numbers of vertex indices\<close>

lemma unat_of_nat_node: "v < 2 ^ 32 \<Longrightarrow> unat (of_nat v :: 32 word) = v"
  by (simp add: unat_of_nat)

lemma edge_id_commute: "edge_id u v = edge_id v u"
  by (simp add: edge_id_def concat_pairing_fn_commute)

lemma edge_of_edge_id:
  assumes "u < 2 ^ 32" "v < 2 ^ 32"
  shows "edge_of (edge_id u v) = (min u v, max u v)"
proof -
  have "(of_nat u :: 32 word) \<le> of_nat v \<longleftrightarrow> u \<le> v"
    using assms by (simp add: word_le_nat_alt unat_of_nat)
  then have "min (of_nat u) (of_nat v) = (of_nat (min u v) :: 32 word)"
    and "max (of_nat u) (of_nat v) = (of_nat (max u v) :: 32 word)"
    by (auto simp: min_def max_def)
  then have "edge_of (edge_id u v) = (unat (of_nat (min u v) :: 32 word), unat (of_nat (max u v) :: 32 word))"
    by (simp only: edge_of_def edge_id_def inv_concat_concat Let_def prod.case)
  moreover have "min u v < 2 ^ 32" "max u v < 2 ^ 32" using assms by auto
  ultimately show ?thesis by (simp only: unat_of_nat_node)
qed

lemma edge_of_ordered:
  assumes "u \<le> v" "v < 2 ^ 32"
  shows "edge_of (edge_id u v) = (u, v)"
proof -
  have "u < 2 ^ 32" using assms by (rule le_less_trans)
  from edge_of_edge_id [OF this assms(2)] show ?thesis
    by (simp only: min_absorb1 [OF assms(1)] max_absorb2 [OF assms(1)])
qed

lemma edge_id_inj:
  assumes "u \<le> v" "v < 2 ^ 32" "u' \<le> v'" "v' < 2 ^ 32" "edge_id u v = edge_id u' v'"
  shows "u = u' \<and> v = v'"
  using edge_of_ordered [OF assms(1,2)] edge_of_ordered [OF assms(3,4)] assms(5)
  by (metis prod.inject)

end
