(* ===== verification/Bucket.thy ===== *)
theory Bucket
  imports Prelude
begin

text \<open>
  include/bucket.h: a bucket holds the XOR of the indices it has received (\<open>alpha\<close>) and the
  XOR of their hashes (\<open>gamma\<close>). The hash function is the parameter \<open>xxh\<close>; its 64-bit value
  is converted to \<^verbatim>\<open>vec_hash_t\<close>, a word of unspecified width \<open>'h\<close>.
\<close>

record 'g Bucket =
  alpha :: vec_t
  gamma :: 'g

text \<open>\<^verbatim>\<open>__builtin_ctzll\<close>: the number of trailing zero bits of a 64-bit word.\<close>

definition ctzll :: "64 word \<Rightarrow> nat" where
  "ctzll w = length (takeWhile (\<lambda>k. \<not> bit w k) [0..<64])"

definition get_index_depth :: "xxh \<Rightarrow> vec_t \<Rightarrow> seed_t \<Rightarrow> nat \<Rightarrow> nat" where
  "get_index_depth xxh update_idx seed_and_col max_depth =
     (let depth_hash = xxh update_idx seed_and_col;
          depth_hash = depth_hash OR push_bit max_depth 1
      in ctzll depth_hash)"

definition get_index_hash :: "xxh \<Rightarrow> vec_t \<Rightarrow> seed_t \<Rightarrow> 'h::len word" where
  "get_index_hash xxh update_idx sketch_seed = ucast (xxh update_idx sketch_seed)"

definition is_good :: "xxh \<Rightarrow> 'h::len word Bucket \<Rightarrow> seed_t \<Rightarrow> bool" where
  "is_good xxh b sketch_seed \<longleftrightarrow> gamma b = get_index_hash xxh (alpha b) sketch_seed"

definition Bucket_update :: "'h::len word Bucket \<Rightarrow> vec_t \<Rightarrow> 'h word \<Rightarrow> 'h word Bucket" where
  "Bucket_update b update_idx update_hash =
     b\<lparr>alpha := alpha b XOR update_idx, gamma := gamma b XOR update_hash\<rparr>"

definition zero_bucket :: "'h::len word Bucket" where
  "zero_bucket = \<lparr>alpha = 0, gamma = 0\<rparr>"

text \<open>The bucket-wise XOR that every merge loop of src/sketch.cpp performs.\<close>

definition Bucket_xor :: "'h::len word Bucket \<Rightarrow> 'h word Bucket \<Rightarrow> 'h word Bucket" where
  "Bucket_xor b c = b\<lparr>alpha := alpha b XOR alpha c, gamma := gamma b XOR gamma c\<rparr>"

section \<open>Depths\<close>

lemma ctzll_bit:
  assumes "bit w k" "k < 64" "\<And>i. i < k \<Longrightarrow> \<not> bit w i"
  shows "ctzll w = k"
proof -
  have "[0..<64] = [0..<k] @ k # [Suc k..<64]"
    using assms(2) by (metis le_add_diff_inverse less_imp_le_nat upt_add_eq_append upt_conv_Cons zero_le)
  moreover have "takeWhile (\<lambda>k. \<not> bit w k) ([0..<k] @ k # [Suc k..<64]) = [0..<k]"
    using assms by (subst takeWhile_append2) auto
  ultimately show ?thesis by (simp add: ctzll_def)
qed

lemma get_index_depth_alt:
  assumes "m < 64"
  shows "get_index_depth xxh x s m = (LEAST k. k = m \<or> bit (xxh x s) k)"
proof -
  let ?P = "\<lambda>k. k = m \<or> bit (xxh x s) k"
  define d where "d = (LEAST k. ?P k)"
  have d: "?P d" and least: "\<And>k. ?P k \<Longrightarrow> d \<le> k"
    unfolding d_def by (rule LeastI [of ?P m], simp) (rule Least_le)
  have "d \<le> m" using least by blast
  have "bit (xxh x s OR push_bit m 1) d"
    using d \<open>d \<le> m\<close> assms by (auto simp: bit_simps)
  moreover have "\<not> bit (xxh x s OR push_bit m 1) k" if "k < d" for k
    using that least [of k] by (auto simp: bit_simps)
  ultimately show ?thesis
    using \<open>d \<le> m\<close> assms by (simp add: get_index_depth_def d_def [symmetric] ctzll_bit)
qed

text \<open>The depth of an index is the position of the lowest set bit of its hash, cut off at
  \<open>max_depth\<close>: it never exceeds \<open>max_depth\<close>, every lower bit of the hash is zero, and unless
  the cut-off applies the bit at the depth is set.\<close>

theorem get_index_depth_spec:
  assumes "m < 64"
  shows "get_index_depth xxh x s m \<le> m \<and>
    (\<forall>k < get_index_depth xxh x s m. \<not> bit (xxh x s) k) \<and>
    (get_index_depth xxh x s m < m \<longrightarrow> bit (xxh x s) (get_index_depth xxh x s m))"
proof -
  let ?P = "\<lambda>k. k = m \<or> bit (xxh x s) k"
  define d where "d = get_index_depth xxh x s m"
  have d: "d = (LEAST k. ?P k)" unfolding d_def by (rule get_index_depth_alt [OF assms])
  have "?P d" unfolding d by (rule LeastI [of ?P m]) simp
  moreover have "d \<le> m" unfolding d by (rule Least_le) simp
  moreover have "\<not> bit (xxh x s) k" if "k < d" for k
    using not_less_Least [OF that [unfolded d]] by simp
  ultimately show ?thesis unfolding d_def [symmetric] by blast
qed

theorem get_index_depth_spec_witness:
  "get_index_depth (\<lambda>x s. x + s) 8 4 5 \<le> 5 \<and> get_index_depth (\<lambda>x s. x + s) 8 4 5 = 2"
proof -
  have "\<not> bit (44 :: 64 word) i" if "i < 2" for i
    using that by (auto simp: less_Suc_eq numeral_2_eq_2)
  then have "ctzll 44 = 2"
    by (intro ctzll_bit) simp_all
  then have "get_index_depth (\<lambda>x s. x + s) 8 4 5 = 2"
    by (simp add: get_index_depth_def push_bit_eq_mult)
  with get_index_depth_spec [of 5 "\<lambda>x s. x + s" 8 4] show ?thesis by simp
qed

section \<open>Buckets form a group under XOR\<close>

lemma Bucket_update_xor:
  "Bucket_update b x h = Bucket_xor b \<lparr>alpha = x, gamma = h\<rparr>"
  by (simp add: Bucket_update_def Bucket_xor_def)

lemma Bucket_xor_zero [simp]: "Bucket_xor b zero_bucket = b" "Bucket_xor zero_bucket b = b"
  by (simp_all add: Bucket_xor_def zero_bucket_def)

lemma Bucket_xor_self [simp]: "Bucket_xor b b = zero_bucket"
  by (simp add: Bucket_xor_def zero_bucket_def)

lemma Bucket_xor_commute: "Bucket_xor b c = Bucket_xor c b"
  by (simp add: Bucket_xor_def xor.commute)

lemma Bucket_xor_assoc: "Bucket_xor (Bucket_xor b c) d = Bucket_xor b (Bucket_xor c d)"
  by (simp add: Bucket_xor_def xor.assoc)

lemma Bucket_eqI: "alpha b = alpha c \<Longrightarrow> gamma b = gamma c \<Longrightarrow> b = (c :: 'g Bucket)"
  by simp

text \<open>The bucket a finite set of indices adds up to.\<close>

definition bucket_sum :: "xxh \<Rightarrow> seed_t \<Rightarrow> vec_t set \<Rightarrow> 'h::len word Bucket" where
  "bucket_sum xxh s A = \<lparr>alpha = xsum id A, gamma = xsum (\<lambda>x. get_index_hash xxh x s) A\<rparr>"

lemma bucket_sum_empty [simp]: "bucket_sum xxh s {} = zero_bucket"
  by (simp add: bucket_sum_def zero_bucket_def)

lemma bucket_sum_sym_diff:
  assumes "finite A" "finite B"
  shows "bucket_sum xxh s (sym_diff A B) = Bucket_xor (bucket_sum xxh s A) (bucket_sum xxh s B)"
  using assms by (simp add: bucket_sum_def Bucket_xor_def xsum_sym_diff)

lemma bucket_sum_singleton: "bucket_sum xxh s {x} = \<lparr>alpha = x, gamma = get_index_hash xxh x s\<rparr>"
  by (simp add: bucket_sum_def)

text \<open>
  What a reader of a bucket relies on: the checksum of a set of indices agrees with the
  hash of their XOR only for singletons, and both XORs vanish only for the empty set. It is
  a property of the hash function on the sets at hand (it can fail: 64-bit values collide).
\<close>

definition bucket_sound :: "'h::len itself \<Rightarrow> xxh \<Rightarrow> seed_t \<Rightarrow> vec_t set \<Rightarrow> bool" where
  "bucket_sound TYPE('h) xxh s A \<longleftrightarrow>
     (is_good xxh (bucket_sum xxh s A :: 'h word Bucket) s \<longrightarrow> (\<exists>x. A = {x})) \<and>
     (bucket_sum xxh s A = (zero_bucket :: 'h word Bucket) \<longrightarrow> A = {})"

lemma is_good_singleton [simp]: "is_good xxh (bucket_sum xxh s {x}) s"
  by (simp add: is_good_def bucket_sum_singleton)

lemma bucket_sound_good:
  assumes "bucket_sound TYPE('h::len) xxh s A" "is_good xxh (bucket_sum xxh s A :: 'h word Bucket) s"
  shows "alpha (bucket_sum xxh s A :: 'h word Bucket) \<in> A"
  using assms by (auto simp: bucket_sound_def bucket_sum_singleton)

end
