(* ===== verification/Doubles.thy ===== *)
theory Doubles
  imports Prelude "HOL-Library.Log_Nat"
begin

text \<open>
  IEEE 754 double arithmetic, as far as the sources use it: conversion of an unsigned
  integer to \<^verbatim>\<open>double\<close>, division and multiplication, each rounded to nearest with ties to
  even on a 53-bit significand. A double is the rational number it denotes. The sources only
  compute with non-negative doubles between \<open>2 ^ -64\<close> and \<open>2 ^ 64\<close>, so exponents are
  unbounded here and there are no infinities.
\<close>

definition flog2 :: "rat \<Rightarrow> int" where
  "flog2 q = (let (a, b) = quotient_of q; k = bitlen a - bitlen b
              in if q < 2 powi k then k - 1 else k)"

definition round_even :: "rat \<Rightarrow> int" where
  "round_even x = (let f = \<lfloor>x\<rfloor>; d = x - of_int f
                   in if d < 1 / 2 then f else if 1 / 2 < d then f + 1
                      else if even f then f else f + 1)"

definition rnd :: "rat \<Rightarrow> rat" where
  "rnd q = (if q \<le> 0 then 0
            else let s = 2 powi (52 - flog2 q) in of_int (round_even (q * s)) / s)"

definition double_of :: "nat \<Rightarrow> rat" where
  "double_of n = rnd (of_nat n)"

definition double_div :: "rat \<Rightarrow> rat \<Rightarrow> rat" where
  "double_div a b = rnd (a / b)"

definition double_mul :: "rat \<Rightarrow> rat \<Rightarrow> rat" where
  "double_mul a b = rnd (a * b)"

section \<open>The exponent\<close>

lemma pow2_div: "(2::rat) ^ m / 2 ^ n = 2 powi (int m - int n)"
  by (simp add: power_int_diff)

lemma flog2_bounds:
  assumes "0 < q"
  shows "2 powi (flog2 q) \<le> q" and "q < 2 powi (flog2 q + 1)"
proof -
  obtain a b where ab: "quotient_of q = (a, b)" by (cases "quotient_of q")
  then have q: "q = of_int a / of_int b" and b: "0 < b"
    by (auto dest: quotient_of_div quotient_of_denom_pos)
  have a: "0 < a" using assms q b by (simp add: zero_less_divide_iff)
  define la lb where "la = nat (bitlen a)" and "lb = nat (bitlen b)"
  have la: "bitlen a = int la" "0 < la" and lb: "bitlen b = int lb" "0 < lb"
    using a b bitlen_nonneg [of a] bitlen_nonneg [of b] bitlen_eq_zero_iff [of a] bitlen_eq_zero_iff [of b]
    unfolding la_def lb_def by linarith+
  have A: "2 ^ (la - 1) \<le> a" "a < 2 ^ la" and B: "2 ^ (lb - 1) \<le> b" "b < 2 ^ lb"
    using bitlen_bounds [OF a] bitlen_bounds [OF b] la lb by (auto simp: nat_diff_distrib)
  have Ar: "(2::rat) ^ (la - 1) \<le> of_int a" "of_int a < (2::rat) ^ la"
    using A(1) A(2) by (metis of_int_le_iff of_int_numeral of_int_power, metis of_int_less_iff of_int_numeral of_int_power)
  have Br: "(2::rat) ^ (lb - 1) \<le> of_int b" "of_int b < (2::rat) ^ lb"
    using B(1) B(2) by (metis of_int_le_iff of_int_numeral of_int_power, metis of_int_less_iff of_int_numeral of_int_power)
  let ?k = "int la - int lb"
  have up: "q < 2 powi (?k + 1)"
  proof -
    have "q < 2 ^ la / 2 ^ (lb - 1)"
      unfolding q using Ar Br a b by (intro frac_less) auto
    also have "\<dots> = 2 powi (int la - int (lb - 1))" by (rule pow2_div)
    also have "int la - int (lb - 1) = ?k + 1" using lb by (simp add: of_nat_diff)
    finally show ?thesis .
  qed
  have low: "2 powi (?k - 1) \<le> q"
  proof -
    have "?k - 1 = int (la - 1) - int lb" using la by (simp add: of_nat_diff)
    then have "2 powi (?k - 1) = 2 ^ (la - 1) / (2::rat) ^ lb" by (simp only: pow2_div)
    also have "\<dots> \<le> q"
      unfolding q using Ar Br a b by (intro frac_le) auto
    finally show ?thesis .
  qed
  show "2 powi (flog2 q) \<le> q" and "q < 2 powi (flog2 q + 1)"
    using up low unfolding flog2_def ab by (auto simp: Let_def la lb not_less)
qed

lemma powi2_mono: "i \<le> j \<Longrightarrow> (2::rat) powi i \<le> 2 powi j"
  by (intro power_int_increasing) auto

lemma flog2_unique:
  assumes "2 powi e \<le> q" "q < 2 powi (e + 1)"
  shows "flog2 q = e"
proof -
  have "0 < (2::rat) powi e" by simp
  then have "0 < q" using assms(1) by (rule less_le_trans)
  note b = flog2_bounds [OF this]
  have "\<not> e + 1 \<le> flog2 q" using powi2_mono [of "e + 1" "flog2 q"] assms b by linarith
  moreover have "\<not> flog2 q + 1 \<le> e" using powi2_mono [of "flog2 q + 1" e] assms b by linarith
  ultimately show ?thesis by linarith
qed

section \<open>Rounding\<close>

lemma round_even_error: "\<bar>of_int (round_even x) - x\<bar> \<le> 1 / 2"
proof -
  have "of_int \<lfloor>x\<rfloor> \<le> x" "x < of_int \<lfloor>x\<rfloor> + 1" by linarith+
  then show ?thesis by (auto simp: round_even_def Let_def abs_le_iff)
qed

lemma round_even_of_int [simp]: "round_even (of_int m) = m"
  by (simp add: round_even_def)

lemma round_even_mono:
  assumes "x \<le> y"
  shows "round_even x \<le> round_even y"
proof (cases "\<lfloor>x\<rfloor> = \<lfloor>y\<rfloor>")
  case True
  with assms show ?thesis by (auto simp: round_even_def Let_def)
next
  case False
  with assms have "\<lfloor>x\<rfloor> + 1 \<le> \<lfloor>y\<rfloor>" using floor_mono [OF assms] by linarith
  then show ?thesis by (auto simp: round_even_def Let_def)
qed

lemma rnd_0 [simp]: "rnd 0 = 0"
  by (simp add: rnd_def)

lemma rnd_nonneg [simp]: "0 \<le> rnd q"
proof (cases "q \<le> 0")
  case False
  then have "0 \<le> q * 2 powi (52 - flog2 q)" by simp
  from round_even_mono [OF this] have "0 \<le> round_even (q * 2 powi (52 - flog2 q))"
    using round_even_of_int [of 0] by simp
  with False show ?thesis by (simp add: rnd_def Let_def)
qed (simp add: rnd_def)

text \<open>Rounding errs by at most one part in \<open>2 ^ 53\<close>.\<close>

lemma rnd_error:
  assumes "0 < q"
  shows "\<bar>rnd q - q\<bar> \<le> q / 2 ^ 53"
proof -
  define s :: rat where "s = 2 powi (52 - flog2 q)"
  have s: "0 < s" by (simp add: s_def)
  have "2 ^ 52 \<le> q * s"
  proof -
    have "(2::rat) ^ 52 = 2 powi (flog2 q) * s"
      by (simp add: s_def power_int_add [symmetric])
    also have "\<dots> \<le> q * s" using flog2_bounds(1) [OF assms] s by (intro mult_right_mono) auto
    finally show ?thesis .
  qed
  then have "1 / 2 \<le> q * s / 2 ^ 53" by simp
  with round_even_error [of "q * s"] have "\<bar>of_int (round_even (q * s)) - q * s\<bar> \<le> q * s / 2 ^ 53"
    by linarith
  moreover have "rnd q - q = (of_int (round_even (q * s)) - q * s) / s"
    using assms s by (simp add: rnd_def s_def [symmetric] field_simps)
  ultimately have "\<bar>rnd q - q\<bar> * s \<le> q * s / 2 ^ 53"
    using s by (simp add: abs_divide)
  then have "\<bar>rnd q - q\<bar> * s \<le> (q / 2 ^ 53) * s" by simp
  with s show ?thesis by (meson mult_le_cancel_right_pos)
qed

text \<open>A number with at most 53 significant bits is a double.\<close>

lemma rnd_dyadic:
  assumes "0 \<le> m" "m < 2 ^ 53"
  shows "rnd (of_int m * 2 powi x) = of_int m * 2 powi x"
proof (cases "m = 0")
  case False
  define q :: rat where "q = of_int m * 2 powi x"
  have q: "0 < q" using False assms by (simp add: q_def)
  define e where "e = flog2 q"
  have "2 powi e \<le> q" using flog2_bounds(1) [OF q] by (simp add: e_def)
  also have "q < 2 ^ 53 * 2 powi x"
    unfolding q_def using assms(2) by (intro mult_strict_right_mono) (auto simp flip: of_int_less_iff)
  also have "\<dots> = (2::rat) powi (53 + x)" by (simp add: power_int_add)
  finally have "e < 53 + x" using power_int_increasing [of "53 + x" e "2::rat"] by (cases "e < 53 + x") auto
  then have n: "0 \<le> x + 52 - e" by linarith
  have "q * 2 powi (52 - e) = of_int m * 2 powi (x + 52 - e)"
    by (simp add: q_def power_int_add [symmetric] algebra_simps flip: mult.assoc)
  also have "\<dots> = of_int (m * 2 ^ nat (x + 52 - e))"
    using n by (simp add: power_int_def)
  finally have "of_int (round_even (q * 2 powi (52 - e))) = q * 2 powi (52 - e)"
    by (simp only: round_even_of_int)
  then show ?thesis using q by (simp add: rnd_def e_def q_def)
qed simp

lemma rnd_of_nat:
  assumes "n < 2 ^ 53"
  shows "rnd (of_nat n) = of_nat n"
  using rnd_dyadic [of "int n" 0] assms by simp

lemma double_of_exact:
  assumes "n < 2 ^ 53"
  shows "double_of n = of_nat n"
  using assms by (simp add: double_of_def rnd_of_nat)

lemma rnd_pow2 [simp]: "rnd (2 powi e) = 2 powi e"
  using rnd_dyadic [of 1 e] by simp

text \<open>Rounding is monotone, so comparisons of unrounded quotients survive it.\<close>

lemma rnd_mono_same:
  assumes "0 < p" "p \<le> q" "flog2 p = flog2 q"
  shows "rnd p \<le> rnd q"
proof -
  have "round_even (p * 2 powi (52 - flog2 q)) \<le> round_even (q * 2 powi (52 - flog2 q))"
    using assms by (intro round_even_mono mult_right_mono) auto
  then show ?thesis using assms by (simp add: rnd_def Let_def divide_right_mono)
qed

lemma rnd_le_pow2:
  assumes "0 < p"
  shows "rnd p \<le> 2 powi (flog2 p + 1)"
proof -
  let ?s = "2 powi (52 - flog2 p) :: rat"
  have "p * ?s \<le> 2 powi (flog2 p + 1) * ?s"
    using flog2_bounds(2) [OF assms] by (intro mult_right_mono) auto
  also have "\<dots> = of_int (2 ^ 53)" by (simp add: power_int_add [symmetric])
  finally have "round_even (p * ?s) \<le> 2 ^ 53"
    using round_even_mono round_even_of_int by metis
  then have "of_int (round_even (p * ?s)) \<le> (2::rat) ^ 53" by (simp flip: of_int_le_iff)
  then have "of_int (round_even (p * ?s)) / ?s \<le> 2 ^ 53 / ?s" by (intro divide_right_mono) auto
  also have "\<dots> = 2 powi (flog2 p + 1)" by (simp add: power_int_diff field_simps power_int_add)
  finally show ?thesis using assms by (simp add: rnd_def Let_def)
qed

lemma pow2_le_rnd:
  assumes "0 < q"
  shows "2 powi (flog2 q) \<le> rnd q"
proof -
  let ?s = "2 powi (52 - flog2 q) :: rat"
  have "of_int (2 ^ 52) = 2 powi (flog2 q) * ?s" by (simp add: power_int_add [symmetric])
  also have "\<dots> \<le> q * ?s" using flog2_bounds(1) [OF assms] by (intro mult_right_mono) auto
  finally have "2 ^ 52 \<le> round_even (q * ?s)"
    using round_even_mono round_even_of_int by metis
  then have "(2::rat) ^ 52 \<le> of_int (round_even (q * ?s))" by (simp flip: of_int_le_iff)
  then have "2 ^ 52 / ?s \<le> of_int (round_even (q * ?s)) / ?s" by (intro divide_right_mono) auto
  moreover have "2 powi (flog2 q) = 2 ^ 52 / ?s" by (simp add: power_int_diff)
  ultimately show ?thesis using assms by (simp add: rnd_def Let_def)
qed

lemma rnd_mono:
  assumes "p \<le> q"
  shows "rnd p \<le> rnd q"
proof (cases "p \<le> 0")
  case True
  then show ?thesis using rnd_nonneg by (simp add: rnd_def [of p])
next
  case False
  then have pq: "0 < p" "0 < q" using assms by auto
  consider "flog2 p = flog2 q" | "flog2 p < flog2 q" | "flog2 q < flog2 p" by linarith
  then show ?thesis
  proof cases
    case 1
    with pq assms show ?thesis by (intro rnd_mono_same)
  next
    case 2
    then have "(2::rat) powi (flog2 p + 1) \<le> 2 powi (flog2 q)" by (intro powi2_mono) simp
    with rnd_le_pow2 [OF pq(1)] pow2_le_rnd [OF pq(2)] show ?thesis by linarith
  next
    case 3
    then have "(2::rat) powi (flog2 q + 1) \<le> 2 powi (flog2 p)" by (intro powi2_mono) simp
    with flog2_bounds(1) [OF pq(1)] flog2_bounds(2) [OF pq(2)] assms show ?thesis by linarith
  qed
qed

lemma rnd_le_nat_pow2:
  assumes "q \<le> 2 ^ k"
  shows "rnd q \<le> 2 ^ k"
  using rnd_mono [OF assms] rnd_pow2 [of "int k"] by simp

end
