(* ===== verification/Sketch.thy ===== *)
theory Sketch
  imports Bucket Doubles "HOL-Library.Log_Nat"
begin

text \<open>
  include/sketch.h and src/sketch.cpp: the linear sketch of a vector over GF(2). A sketch
  is a bucket array: \<open>num_columns\<close> columns of \<open>bkt_per_col\<close> buckets each, and one last
  \<^emph>\<open>deterministic\<close> bucket that receives every index.

  \<open>Sketch_update\<close> is the default build (CameoSketch: an index goes to the one bucket of its
  depth in each column), \<open>Sketch_update_L0\<close> the \<^verbatim>\<open>L0_SAMPLING\<close> build (CubeSketch: to every
  bucket up to its depth). The other operations are common to both builds.

  \<open>sketch_repr_on\<close> relates a sketch to the set of indices it stands for: each bucket is the
  XOR of the members that belong there. The locale \<open>linear_sketch\<close> states what the rest
  of the program relies on and both builds satisfy.
\<close>

datatype SampleResult = GOOD | ZERO | FAIL

record SketchSample =
  idx :: vec_t
  result :: SampleResult

record ExhaustiveSketchSample =
  idxs :: "vec_t set"
  exhaustive_result :: SampleResult

record 'g Sketch =
  sketch_seed :: seed_t
  num_samples :: nat
  cols_per_sample :: nat
  num_columns :: nat
  bkt_per_col :: nat
  num_buckets :: nat
  sample_idx :: nat
  buckets :: "'g Bucket list"
  is_cuda_bucket :: bool

section \<open>Dimensions\<close>

text \<open>
  \<^verbatim>\<open>calc_vector_length\<close> computes in doubles (\<^verbatim>\<open>num_vertices - 1\<close> wraps at 32 bits). The two
  functions that take a \<^verbatim>\<open>log2\<close> are given with the exact logarithm, without the rounding of
  the C library function: \<open>ceillog2 n\<close> is its ceiling for a positive integer.
\<close>

definition calc_vector_length :: "nat \<Rightarrow> nat" where
  "calc_vector_length num_vertices =
     nat \<lceil>double_div (double_mul (double_of num_vertices)
            (double_of ((num_vertices + 2 ^ 32 - 1) mod 2 ^ 32))) 2\<rceil>"

definition num_samples_div :: real where
  "num_samples_div = 1 - 0.263034406"

definition calc_cc_samples :: "nat \<Rightarrow> real \<Rightarrow> nat" where
  "calc_cc_samples num_vertices f =
     max 18 (nat \<lceil>f * log 2 (real num_vertices) / num_samples_div\<rceil>)"

definition calc_bkt_per_col :: "nat \<Rightarrow> nat" where
  "calc_bkt_per_col n =
     (let temp = ceillog2 n + 1
      in if temp mod 16 = 0 then temp + 1 else temp)"

definition default_cols_per_sample :: nat where
  "default_cols_per_sample = 1"

definition column_seed :: "'g Sketch \<Rightarrow> nat \<Rightarrow> seed_t" where
  "column_seed sk column_idx = sketch_seed sk + of_nat column_idx * 5"

definition checksum_seed :: "'g Sketch \<Rightarrow> seed_t" where
  "checksum_seed sk = sketch_seed sk"

section \<open>Construction and reset\<close>

text \<open>The buckets of the GPU constructor lie in an array of the caller (slot \<open>sketch_id\<close> of
  it), so that constructor only differs in the flag that keeps the destructor away.\<close>

definition Sketch_new :: "nat \<Rightarrow> seed_t \<Rightarrow> nat \<Rightarrow> nat \<Rightarrow> 'h::len word Sketch" where
  "Sketch_new vector_len seed samples cols =
     (let columns = samples * cols; bpc = calc_bkt_per_col vector_len; nb = columns * bpc + 1
      in \<lparr>sketch_seed = seed, num_samples = samples, cols_per_sample = cols,
          num_columns = columns, bkt_per_col = bpc, num_buckets = nb, sample_idx = 0,
          buckets = replicate nb zero_bucket, is_cuda_bucket = False\<rparr>)"

definition Sketch_new_cuda :: "nat \<Rightarrow> seed_t \<Rightarrow> nat \<Rightarrow> nat \<Rightarrow> 'h::len word Sketch" where
  "Sketch_new_cuda vector_len seed samples cols =
     (let columns = samples * cols; bpc = calc_bkt_per_col vector_len; nb = columns * bpc + 1
      in \<lparr>sketch_seed = seed, num_samples = samples, cols_per_sample = cols,
          num_columns = columns, bkt_per_col = bpc, num_buckets = nb, sample_idx = 0,
          buckets = replicate nb zero_bucket, is_cuda_bucket = True\<rparr>)"

definition Sketch_copy :: "'g Sketch \<Rightarrow> 'g Sketch" where
  "Sketch_copy s =
     \<lparr>sketch_seed = sketch_seed s, num_samples = num_samples s,
      cols_per_sample = cols_per_sample s, num_columns = num_columns s,
      bkt_per_col = bkt_per_col s, num_buckets = num_buckets s, sample_idx = 0,
      buckets = take (num_buckets s) (buckets s), is_cuda_bucket = False\<rparr>"

definition reset_sample_state :: "'g Sketch \<Rightarrow> 'g Sketch" where
  "reset_sample_state sk = sk\<lparr>sample_idx := 0\<rparr>"

definition zero_contents :: "'h::len word Sketch \<Rightarrow> 'h word Sketch" where
  "zero_contents sk =
     reset_sample_state (sk\<lparr>buckets := map (\<lambda>_. zero_bucket) (buckets sk)\<rparr>)"

section \<open>Updates\<close>

definition update_column :: "xxh \<Rightarrow> 'h::len word Sketch \<Rightarrow> vec_t \<Rightarrow> 'h word \<Rightarrow> nat \<Rightarrow>
    'h word Bucket list \<Rightarrow> 'h word Bucket list" where
  "update_column xxh sk update_idx checksum i bs =
     (let depth = get_index_depth xxh update_idx (column_seed sk i) (bkt_per_col sk);
          bucket_id = i * bkt_per_col sk + depth
      in if depth < bkt_per_col sk
         then bs[bucket_id := Bucket_update (bs ! bucket_id) update_idx checksum] else bs)"

definition Sketch_update :: "xxh \<Rightarrow> 'h::len word Sketch \<Rightarrow> vec_t \<Rightarrow> 'h word Sketch" where
  "Sketch_update xxh sk update_idx =
     (let checksum = get_index_hash xxh update_idx (checksum_seed sk);
          last = num_buckets sk - 1;
          bs = (buckets sk)[last := Bucket_update (buckets sk ! last) update_idx checksum]
      in sk\<lparr>buckets := fold (update_column xxh sk update_idx checksum) [0..<num_columns sk] bs\<rparr>)"

definition update_column_L0 :: "xxh \<Rightarrow> 'h::len word Sketch \<Rightarrow> vec_t \<Rightarrow> 'h word \<Rightarrow> nat \<Rightarrow>
    'h word Bucket list \<Rightarrow> 'h word Bucket list" where
  "update_column_L0 xxh sk update_idx checksum i bs =
     (let depth = get_index_depth xxh update_idx (column_seed sk i) (bkt_per_col sk)
      in if depth < bkt_per_col sk
         then fold (\<lambda>j bs. let bucket_id = i * bkt_per_col sk + j
                           in bs[bucket_id := Bucket_update (bs ! bucket_id) update_idx checksum])
                [0..<depth + 1] bs
         else bs)"

definition Sketch_update_L0 :: "xxh \<Rightarrow> 'h::len word Sketch \<Rightarrow> vec_t \<Rightarrow> 'h word Sketch" where
  "Sketch_update_L0 xxh sk update_idx =
     (let checksum = get_index_hash xxh update_idx (checksum_seed sk);
          last = num_buckets sk - 1;
          bs = (buckets sk)[last := Bucket_update (buckets sk ! last) update_idx checksum]
      in sk\<lparr>buckets := fold (update_column_L0 xxh sk update_idx checksum) [0..<num_columns sk] bs\<rparr>)"

section \<open>Sampling\<close>

text \<open>The buckets of the columns allotted to sample number \<open>k\<close>, in the order of the loops.\<close>

definition sample_bucket_ids :: "'g Sketch \<Rightarrow> nat \<Rightarrow> nat list" where
  "sample_bucket_ids sk k =
     (let first_column = k * cols_per_sample sk
      in concat (map (\<lambda>i. map (\<lambda>j. (i + first_column) * bkt_per_col sk + j) [0..<bkt_per_col sk])
                  [0..<cols_per_sample sk]))"

definition Sketch_sample :: "xxh \<Rightarrow> 'h::len word Sketch \<Rightarrow> error + SketchSample \<times> 'h word Sketch" where
  "Sketch_sample xxh sk =
     (if sample_idx sk \<ge> num_samples sk
      then Inl (OutOfSamplesException (sketch_seed sk) (num_samples sk) (sample_idx sk))
      else
        let k = sample_idx sk;
            sk' = sk\<lparr>sample_idx := k + 1\<rparr>;
            det = buckets sk ! (num_buckets sk - 1);
            good = (\<lambda>b. is_good xxh b (checksum_seed sk))
        in if alpha det = 0 \<and> gamma det = 0 then Inr (\<lparr>idx = 0, result = ZERO\<rparr>, sk')
           else if good det then Inr (\<lparr>idx = alpha det, result = GOOD\<rparr>, sk')
           else case List.find (\<lambda>i. good (buckets sk ! i)) (sample_bucket_ids sk k) of
                  Some i \<Rightarrow> Inr (\<lparr>idx = alpha (buckets sk ! i), result = GOOD\<rparr>, sk')
                | None \<Rightarrow> Inr (\<lparr>idx = 0, result = FAIL\<rparr>, sk'))"

definition Sketch_exhaustive_sample ::
    "xxh \<Rightarrow> 'h::len word Sketch \<Rightarrow> error + ExhaustiveSketchSample \<times> 'h word Sketch" where
  "Sketch_exhaustive_sample xxh sk =
     (if sample_idx sk \<ge> num_samples sk
      then Inl (OutOfSamplesException (sketch_seed sk) (num_samples sk) (sample_idx sk))
      else
        let k = sample_idx sk;
            sk' = sk\<lparr>sample_idx := k + 1\<rparr>;
            det = buckets sk ! (num_buckets sk - 1);
            good = (\<lambda>b. is_good xxh b (checksum_seed sk))
        in if alpha det = 0 \<and> gamma det = 0 then Inr (\<lparr>idxs = {}, exhaustive_result = ZERO\<rparr>, sk')
           else if good det then Inr (\<lparr>idxs = {alpha det}, exhaustive_result = GOOD\<rparr>, sk')
           else let ret = set (map (\<lambda>i. alpha (buckets sk ! i))
                            (filter (\<lambda>i. good (buckets sk ! i)) (sample_bucket_ids sk k)))
                in if ret = {} then Inr (\<lparr>idxs = ret, exhaustive_result = FAIL\<rparr>, sk')
                   else Inr (\<lparr>idxs = ret, exhaustive_result = GOOD\<rparr>, sk'))"

section \<open>Merging\<close>

definition merge_buckets :: "nat list \<Rightarrow> 'h::len word Bucket list \<Rightarrow> 'h word Bucket list \<Rightarrow>
    'h word Bucket list" where
  "merge_buckets is other bs = fold (\<lambda>i bs. bs[i := Bucket_xor (bs ! i) (other ! i)]) is bs"

definition Sketch_merge :: "'h::len word Sketch \<Rightarrow> 'h word Sketch \<Rightarrow> 'h word Sketch" where
  "Sketch_merge sk other =
     sk\<lparr>buckets := merge_buckets [0..<num_buckets sk] (buckets other) (buckets sk)\<rparr>"

definition Sketch_range_merge :: "'h::len word Sketch \<Rightarrow> 'h word Sketch \<Rightarrow> nat \<Rightarrow> nat \<Rightarrow>
    'h word Sketch" where
  "Sketch_range_merge sk other start_sample n_samples =
     (if start_sample + n_samples > num_samples sk then sk\<lparr>sample_idx := num_samples sk\<rparr>
      else
        let sk = sk\<lparr>sample_idx := max (sample_idx sk) start_sample\<rparr>;
            bs = merge_buckets [num_buckets sk - 1] (buckets other) (buckets sk);
            start_bucket_id = start_sample * cols_per_sample sk * bkt_per_col sk;
            n_buckets = n_samples * cols_per_sample sk * bkt_per_col sk
        in sk\<lparr>buckets := merge_buckets (map (\<lambda>i. start_bucket_id + i) [0..<n_buckets])
                           (buckets other) bs\<rparr>)"

definition merge_raw_bucket_buffer :: "'h::len word Sketch \<Rightarrow> 'h word Bucket list \<Rightarrow> 'h word Sketch" where
  "merge_raw_bucket_buffer sk raw_buckets =
     sk\<lparr>buckets := merge_buckets [0..<num_buckets sk] raw_buckets (buckets sk)\<rparr>"

definition Sketch_eq :: "'h::len word Sketch \<Rightarrow> 'h word Sketch \<Rightarrow> bool" where
  "Sketch_eq sketch1 sketch2 =
     (if num_buckets sketch1 \<noteq> num_buckets sketch2 \<or> sketch_seed sketch1 \<noteq> sketch_seed sketch2
      then False
      else list_all (\<lambda>i. \<not> (alpha (buckets sketch1 ! i) \<noteq> alpha (buckets sketch2 ! i) \<or>
                            gamma (buckets sketch1 ! i) \<noteq> gamma (buckets sketch2 ! i)))
             [0..<num_buckets sketch1])"

section \<open>Serialization\<close>

text \<open>
  The bucket array is written and read as raw memory: packed buckets, each field with its
  least significant byte first. A stream that is too short leaves the rest of the new array
  uninitialised.
\<close>

definition word_bytes :: "'a::len word \<Rightarrow> 8 word list" where
  "word_bytes w = map (\<lambda>i. ucast (drop_bit (8 * i) w)) [0..<LENGTH('a) div 8]"

definition bytes_word :: "8 word list \<Rightarrow> 'a::len word" where
  "bytes_word bs = foldr (\<lambda>b acc. ucast b OR push_bit 8 acc) bs 0"

definition Bucket_bytes :: "'h::len word Bucket \<Rightarrow> 8 word list" where
  "Bucket_bytes b = word_bytes (alpha b) @ word_bytes (gamma b)"

definition bucket_size :: "'h::len itself \<Rightarrow> nat" where
  "bucket_size TYPE('h) = 8 + LENGTH('h) div 8"

definition bytes_Bucket :: "8 word list \<Rightarrow> 'h::len word Bucket" where
  "bytes_Bucket bs = \<lparr>alpha = bytes_word (take 8 bs), gamma = bytes_word (drop 8 bs)\<rparr>"

definition Sketch_serialize :: "'h::len word Sketch \<Rightarrow> 8 word list" where
  "Sketch_serialize sk = concat (map Bucket_bytes (take (num_buckets sk) (buckets sk)))"

primrec read_buckets :: "nat \<Rightarrow> 8 word list \<Rightarrow> 'h::len word Bucket list" where
  "read_buckets 0 bs = []"
| "read_buckets (Suc k) bs =
     bytes_Bucket (take (bucket_size TYPE('h)) bs) # read_buckets k (drop (bucket_size TYPE('h)) bs)"

definition Sketch_new_stream :: "nat \<Rightarrow> seed_t \<Rightarrow> 8 word list \<Rightarrow> nat \<Rightarrow> nat \<Rightarrow>
    error + 'h::len word Sketch \<times> 8 word list" where
  "Sketch_new_stream vector_len seed binary_in samples cols =
     (let columns = samples * cols; bpc = calc_bkt_per_col vector_len; nb = columns * bpc + 1;
          bytes = nb * bucket_size TYPE('h)
      in if length binary_in < bytes then Inl Undefined
         else Inr (\<lparr>sketch_seed = seed, num_samples = samples, cols_per_sample = cols,
                    num_columns = columns, bkt_per_col = bpc, num_buckets = nb, sample_idx = 0,
                    buckets = read_buckets nb (take bytes binary_in), is_cuda_bucket = False\<rparr>,
                   drop bytes binary_in))"

section \<open>Shape and well-formedness\<close>

definition same_shape :: "'g Sketch \<Rightarrow> 'g Sketch \<Rightarrow> bool" where
  "same_shape sk sk' \<longleftrightarrow> sketch_seed sk = sketch_seed sk' \<and> num_samples sk = num_samples sk' \<and>
     cols_per_sample sk = cols_per_sample sk' \<and> num_columns sk = num_columns sk' \<and>
     bkt_per_col sk = bkt_per_col sk' \<and> num_buckets sk = num_buckets sk'"

definition sketch_wf :: "'g Sketch \<Rightarrow> bool" where
  "sketch_wf sk \<longleftrightarrow> num_columns sk = num_samples sk * cols_per_sample sk \<and>
     num_buckets sk = num_columns sk * bkt_per_col sk + 1 \<and>
     length (buckets sk) = num_buckets sk \<and> 0 < bkt_per_col sk \<and> bkt_per_col sk < 64"

lemma same_shape_refl [simp]: "same_shape sk sk"
  by (simp add: same_shape_def)

lemma same_shape_sym: "same_shape sk sk' \<Longrightarrow> same_shape sk' sk"
  by (simp add: same_shape_def)

lemma same_shape_trans: "same_shape a b \<Longrightarrow> same_shape b c \<Longrightarrow> same_shape a c"
  by (simp add: same_shape_def)

lemma same_shape_checksum: "same_shape sk sk' \<Longrightarrow> checksum_seed sk = checksum_seed sk'"
  by (simp add: same_shape_def checksum_seed_def)

text \<open>The buckets that sample number \<open>k\<close> reads.\<close>

definition sample_region :: "'g Sketch \<Rightarrow> nat \<Rightarrow> nat set" where
  "sample_region sk k = insert (num_buckets sk - 1)
     {k * cols_per_sample sk * bkt_per_col sk ..< Suc k * cols_per_sample sk * bkt_per_col sk}"

lemma sample_bucket_ids_upt:
  "sample_bucket_ids sk k =
     [k * cols_per_sample sk * bkt_per_col sk ..< Suc k * cols_per_sample sk * bkt_per_col sk]"
proof -
  define b f where "b = bkt_per_col sk" and "f = k * cols_per_sample sk"
  have "concat (map (\<lambda>i. map (\<lambda>j. (i + f) * b + j) [0..<b]) [0..<c]) = [f * b ..< (f + c) * b]" for c
  proof (induction c)
    case (Suc c)
    have "map (\<lambda>j. (c + f) * b + j) [0..<b] = [(f + c) * b ..< (f + c) * b + b]"
      by (rule nth_equalityI) (auto simp: algebra_simps)
    moreover have "[f * b ..< (f + c) * b] @ [(f + c) * b ..< (f + c) * b + b] =
        [f * b ..< (f + c) * b + b]"
      by (rule upt_add_eq_append [symmetric]) simp
    ultimately show ?case using Suc by (simp add: algebra_simps)
  qed simp
  from this [of "cols_per_sample sk"] show ?thesis
    by (simp add: sample_bucket_ids_def f_def b_def Let_def algebra_simps)
qed

lemma sample_region_ids: "sample_region sk k = insert (num_buckets sk - 1) (set (sample_bucket_ids sk k))"
  by (simp add: sample_region_def sample_bucket_ids_upt)

lemma sample_region_bound:
  assumes "sketch_wf sk" "k < num_samples sk" "i \<in> sample_region sk k"
  shows "i < num_buckets sk"
proof -
  have "Suc k * cols_per_sample sk * bkt_per_col sk \<le> num_columns sk * bkt_per_col sk"
    using assms by (simp add: sketch_wf_def del: mult_Suc)
  moreover have "num_buckets sk = num_columns sk * bkt_per_col sk + 1"
    using assms by (simp add: sketch_wf_def)
  moreover have "i = num_buckets sk - 1 \<or> i < Suc k * cols_per_sample sk * bkt_per_col sk"
    using assms(3) unfolding sample_region_def by auto
  ultimately show ?thesis by linarith
qed

section \<open>Merging buckets\<close>

lemma length_merge_buckets [simp, sketch_simps]: "length (merge_buckets is other bs) = length bs"
  by (induction "is" arbitrary: bs) (auto simp: merge_buckets_def)

lemma nth_merge_buckets [sketch_simps]:
  assumes "distinct is" "j < length bs"
  shows "merge_buckets is other bs ! j =
    (if j \<in> set is then Bucket_xor (bs ! j) (other ! j) else bs ! j)"
  using assms
proof (induction "is" arbitrary: bs)
  case (Cons i "is")
  then show ?case
    using Cons.IH [of "bs[i := Bucket_xor (bs ! i) (other ! i)]"]
    by (cases "i = j") (auto simp: merge_buckets_def nth_list_update)
qed (simp add: merge_buckets_def)

lemma Sketch_merge_shape [simp]: "same_shape (Sketch_merge sk other) sk"
  by (simp add: Sketch_merge_def same_shape_def)

lemma Sketch_merge_wf: "sketch_wf sk \<Longrightarrow> sketch_wf (Sketch_merge sk other)"
  by (simp add: Sketch_merge_def sketch_wf_def)

lemma Sketch_merge_bucket [sketch_simps]:
  assumes "sketch_wf sk" "j < num_buckets sk"
  shows "buckets (Sketch_merge sk other) ! j = Bucket_xor (buckets sk ! j) (buckets other ! j)"
  using assms by (auto simp: Sketch_merge_def sketch_wf_def nth_merge_buckets)

lemma Sketch_range_merge_shape [simp]: "same_shape (Sketch_range_merge sk other a n) sk"
  by (simp add: Sketch_range_merge_def same_shape_def Let_def)

lemma Sketch_range_merge_wf: "sketch_wf sk \<Longrightarrow> sketch_wf (Sketch_range_merge sk other a n)"
  by (simp add: Sketch_range_merge_def sketch_wf_def Let_def)

lemma Sketch_range_merge_sample_idx:
  "a + n \<le> num_samples sk \<Longrightarrow> sample_idx (Sketch_range_merge sk other a n) = max (sample_idx sk) a"
  by (simp add: Sketch_range_merge_def Let_def)

lemma Sketch_range_merge_bucket [sketch_simps]:
  assumes "sketch_wf sk" "a + n \<le> num_samples sk" "j < num_buckets sk"
  shows "buckets (Sketch_range_merge sk other a n) ! j =
    (if j = num_buckets sk - 1 \<or>
        a * cols_per_sample sk * bkt_per_col sk \<le> j \<and>
        j < (a + n) * cols_per_sample sk * bkt_per_col sk
     then Bucket_xor (buckets sk ! j) (buckets other ! j) else buckets sk ! j)"
proof -
  let ?c = "cols_per_sample sk * bkt_per_col sk"
  have "(a + n) * ?c \<le> num_samples sk * ?c" using assms(2) by (intro mult_right_mono) auto
  then have le: "(a + n) * ?c \<le> num_buckets sk - 1" using assms(1) by (simp add: sketch_wf_def mult.assoc)
  have ids: "map (\<lambda>i. a * ?c + i) [0..<n * ?c] = [a * ?c ..< (a + n) * ?c]"
    by (rule nth_equalityI) (auto simp: algebra_simps)
  show ?thesis
    using assms le
    by (auto simp: Sketch_range_merge_def Let_def sketch_wf_def nth_merge_buckets mult.assoc ids)
qed

section \<open>Updates\<close>

text \<open>Where an index belongs: the deterministic bucket, and in column \<open>i div bkt_per_col\<close> the
  bucket of its depth (Cameo) or every bucket up to its depth (L0).\<close>

definition in_bucket :: "xxh \<Rightarrow> 'g Sketch \<Rightarrow> nat \<Rightarrow> vec_t \<Rightarrow> bool" where
  "in_bucket xxh sk i x \<longleftrightarrow> i = num_buckets sk - 1 \<or> i div bkt_per_col sk < num_columns sk \<and>
     get_index_depth xxh x (column_seed sk (i div bkt_per_col sk)) (bkt_per_col sk) =
     i mod bkt_per_col sk"

definition in_bucket_L0 :: "xxh \<Rightarrow> 'g Sketch \<Rightarrow> nat \<Rightarrow> vec_t \<Rightarrow> bool" where
  "in_bucket_L0 xxh sk i x \<longleftrightarrow> i = num_buckets sk - 1 \<or> i div bkt_per_col sk < num_columns sk \<and>
     (let depth = get_index_depth xxh x (column_seed sk (i div bkt_per_col sk)) (bkt_per_col sk)
      in i mod bkt_per_col sk \<le> depth \<and> depth < bkt_per_col sk)"

lemma fold_columns:
  fixes g :: "nat \<Rightarrow> 'b list \<Rightarrow> 'b list"
  assumes len: "\<And>c bs. length (g c bs) = length bs"
    and g: "\<And>c bs i. c < n \<Longrightarrow> n * b \<le> length bs \<Longrightarrow> i < length bs \<Longrightarrow>
      g c bs ! i = (if i div b = c \<and> P c (i mod b) then h (bs ! i) else bs ! i)"
    and "n * b \<le> length bs" "i < length bs"
  shows "fold g [0..<n] bs ! i =
    (if i div b < n \<and> P (i div b) (i mod b) then h (bs ! i) else bs ! i)"
proof -
  have len': "length (fold g cs bs) = length bs" for cs bs
    by (induction cs arbitrary: bs) (auto simp: len)
  have "fold g [0..<m] bs ! i =
      (if i div b < m \<and> P (i div b) (i mod b) then h (bs ! i) else bs ! i)" if "m \<le> n" for m
    using that
  proof (induction m)
    case (Suc m)
    then have "fold g [0..<Suc m] bs ! i = g m (fold g [0..<m] bs) ! i" by simp
    also have "\<dots> = (if i div b = m \<and> P m (i mod b) then h (fold g [0..<m] bs ! i)
        else fold g [0..<m] bs ! i)"
      using Suc.prems assms(3,4) by (intro g) (auto simp: len')
    finally show ?case using Suc by (auto simp: less_Suc_eq)
  qed simp
  then show ?thesis by simp
qed

lemma length_fold_same:
  "(\<And>c bs. length (g c bs) = length bs) \<Longrightarrow> length (fold g cs bs) = length (bs :: 'b list)"
  by (induction cs arbitrary: bs) auto

lemma length_update_column [simp]: "length (update_column xxh sk x c i bs) = length bs"
  by (simp add: update_column_def Let_def)

lemma length_update_column_L0 [simp]: "length (update_column_L0 xxh sk x c i bs) = length bs"
  by (simp add: update_column_L0_def Let_def length_fold_same)

lemma div_mod_column:
  fixes b c d i :: nat
  assumes "d < b"
  shows "i = c * b + d \<longleftrightarrow> i div b = c \<and> i mod b = d"
  using assms by auto

lemma nth_update_column:
  assumes "0 < bkt_per_col sk" "c < n" "n * bkt_per_col sk \<le> length bs" "i < length bs"
  shows "update_column xxh sk x h c bs ! i =
    (if i div bkt_per_col sk = c \<and>
        get_index_depth xxh x (column_seed sk c) (bkt_per_col sk) = i mod bkt_per_col sk
     then Bucket_update (bs ! i) x h else bs ! i)"
proof -
  let ?b = "bkt_per_col sk" and ?d = "get_index_depth xxh x (column_seed sk c) (bkt_per_col sk)"
  show ?thesis
  proof (cases "?d < ?b")
    case True
    then show ?thesis
      using assms div_mod_column [OF True, of i c]
      by (auto simp: update_column_def Let_def nth_list_update)
  next
    case False
    then have "?d \<noteq> i mod ?b" using assms(1) by (metis mod_less_divisor)
    with False show ?thesis by (simp add: update_column_def Let_def)
  qed
qed

lemma nth_update_column_L0:
  assumes "0 < bkt_per_col sk" "c < n" "n * bkt_per_col sk \<le> length bs" "i < length bs"
  shows "update_column_L0 xxh sk x h c bs ! i =
    (if i div bkt_per_col sk = c \<and>
        (let d = get_index_depth xxh x (column_seed sk c) (bkt_per_col sk)
         in i mod bkt_per_col sk \<le> d \<and> d < bkt_per_col sk)
     then Bucket_update (bs ! i) x h else bs ! i)"
proof -
  let ?b = "bkt_per_col sk" and ?d = "get_index_depth xxh x (column_seed sk c) (bkt_per_col sk)"
  let ?g = "\<lambda>j bs. bs[c * ?b + j := Bucket_update (bs ! (c * ?b + j)) x h]"
  have step: "fold ?g [0..<m] bs ! i =
      (if i div ?b = c \<and> i mod ?b < m then Bucket_update (bs ! i) x h else bs ! i)"
    if "m \<le> ?b" for m
    using that
  proof (induction m)
    case (Suc m)
    have "length (fold ?g [0..<m] bs) = length bs" by (intro length_fold_same) simp
    with Suc show ?case
      using div_mod_column [of m ?b i c] assms(4) by (auto simp: nth_list_update less_Suc_eq)
  qed simp
  show ?thesis
    using step [of "?d + 1"] by (auto simp: update_column_L0_def Let_def less_Suc_eq_le)
qed


section \<open>What a sketch stands for\<close>

text \<open>
  \<open>sketch_repr xxh holds R sk S\<close>: the buckets of \<open>sk\<close> with an index in \<open>R\<close> are the XOR-sums of
  the members of the set \<open>S\<close> that belong there. \<open>R\<close> is the whole array for a sketch that
  was built by updates and merges, and the region of one sample after a \<open>range_merge\<close>.
\<close>

definition sketch_repr :: "xxh \<Rightarrow> ('h::len word Sketch \<Rightarrow> nat \<Rightarrow> vec_t \<Rightarrow> bool) \<Rightarrow> nat set \<Rightarrow>
    'h word Sketch \<Rightarrow> vec_t set \<Rightarrow> bool" where
  "sketch_repr xxh holds R sk S \<longleftrightarrow> finite S \<and>
     (\<forall>i\<in>R. buckets sk ! i = bucket_sum xxh (checksum_seed sk) {x \<in> S. holds sk i x})"

text \<open>The hash does not confuse any subset of \<open>S\<close> (\<open>hash_sound\<close>), or only those subsets that
  lie in the buckets which sample \<open>k\<close> of a sketch of \<open>S\<close> reads (\<open>sample_sound\<close>).\<close>

definition hash_sound :: "'h::len itself \<Rightarrow> xxh \<Rightarrow> seed_t \<Rightarrow> vec_t set \<Rightarrow> bool" where
  "hash_sound TYPE('h) xxh s S \<longleftrightarrow> (\<forall>A. A \<subseteq> S \<longrightarrow> bucket_sound TYPE('h) xxh s A)"

definition sample_sound :: "xxh \<Rightarrow> ('h::len word Sketch \<Rightarrow> nat \<Rightarrow> vec_t \<Rightarrow> bool) \<Rightarrow>
    'h word Sketch \<Rightarrow> nat \<Rightarrow> vec_t set \<Rightarrow> bool" where
  "sample_sound xxh holds sk k S \<longleftrightarrow>
     (\<forall>i\<in>sample_region sk k. bucket_sound TYPE('h) xxh (checksum_seed sk) {x \<in> S. holds sk i x})"

lemma hash_sound_sample:
  fixes sk :: "'h::len word Sketch"
  shows "hash_sound TYPE('h) xxh (checksum_seed sk) S \<Longrightarrow> sample_sound xxh holds sk k S"
  by (simp add: hash_sound_def sample_sound_def)

lemma sketch_repr_mono: "sketch_repr xxh holds R sk S \<Longrightarrow> R' \<subseteq> R \<Longrightarrow> sketch_repr xxh holds R' sk S"
  by (auto simp: sketch_repr_def)

lemma sketch_repr_finite: "sketch_repr xxh holds R sk S \<Longrightarrow> finite S"
  by (simp add: sketch_repr_def)

lemma bucket_sum_filter_sym_diff:
  assumes "finite A" "finite B"
  shows "(bucket_sum xxh s {x \<in> sym_diff A B. P x} :: 'h::len word Bucket) =
    Bucket_xor (bucket_sum xxh s {x \<in> A. P x}) (bucket_sum xxh s {x \<in> B. P x})"
proof -
  have "{x \<in> sym_diff A B. P x} = sym_diff {x \<in> A. P x} {x \<in> B. P x}" by blast
  then have "bucket_sum xxh s {x \<in> sym_diff A B. P x} =
      (bucket_sum xxh s (sym_diff {x \<in> A. P x} {x \<in> B. P x}) :: 'h word Bucket)"
    by (rule arg_cong)
  also have "\<dots> = Bucket_xor (bucket_sum xxh s {x \<in> A. P x}) (bucket_sum xxh s {x \<in> B. P x})"
    using assms by (intro bucket_sum_sym_diff) simp_all
  finally show ?thesis .
qed

text \<open>The indices that occur an odd number of times in a list of updates.\<close>

definition odd_set :: "'b list \<Rightarrow> 'b set" where
  "odd_set xs = {x. odd (count_list xs x)}"

lemma odd_set_Nil [simp]: "odd_set [] = {}"
  by (simp add: odd_set_def)

lemma odd_set_Cons: "odd_set (x # xs) = sym_diff {x} (odd_set xs)"
  by (auto simp: odd_set_def)

lemma odd_set_append: "odd_set (xs @ ys) = sym_diff (odd_set xs) (odd_set ys)"
  by (auto simp: odd_set_def)

lemma odd_set_mset: "mset xs = mset ys \<Longrightarrow> odd_set xs = odd_set ys"
  by (simp add: odd_set_def count_mset [symmetric])

lemma odd_set_subset: "odd_set xs \<subseteq> set xs"
  by (auto simp: odd_set_def) (metis count_list_0_iff even_zero)

lemma finite_odd_set [simp]: "finite (odd_set xs)"
  by (rule finite_subset [OF odd_set_subset]) simp

text \<open>
  The contract between the two update routines and everything that merges and samples:
  an update XORs the index into exactly the buckets it belongs to.
\<close>

locale linear_sketch =
  fixes xxh :: xxh
    and holds :: "'h::len word Sketch \<Rightarrow> nat \<Rightarrow> vec_t \<Rightarrow> bool"
    and upd :: "'h word Sketch \<Rightarrow> vec_t \<Rightarrow> 'h word Sketch"
  assumes holds_shape: "same_shape sk sk' \<Longrightarrow> holds sk i x = holds sk' i x"
    and holds_det: "holds sk (num_buckets sk - 1) x"
    and upd_frame: "upd sk x = sk\<lparr>buckets := buckets (upd sk x)\<rparr>"
    and upd_wf: "sketch_wf sk \<Longrightarrow> sketch_wf (upd sk x)"
    and upd_bucket: "sketch_wf sk \<Longrightarrow> i < num_buckets sk \<Longrightarrow>
      buckets (upd sk x) ! i = (if holds sk i x
        then Bucket_update (buckets sk ! i) x (get_index_hash xxh x (checksum_seed sk))
        else buckets sk ! i)"
begin

abbreviation repr :: "nat set \<Rightarrow> 'h word Sketch \<Rightarrow> vec_t set \<Rightarrow> bool" where
  "repr R sk S \<equiv> sketch_repr xxh holds R sk S"

abbreviation repr_all :: "'h word Sketch \<Rightarrow> vec_t set \<Rightarrow> bool" where
  "repr_all sk S \<equiv> sketch_repr xxh holds {..<num_buckets sk} sk S"

lemma upd_shape: "same_shape (upd sk x) sk"
  by (subst upd_frame) (simp add: same_shape_def)

lemma repr_upd:
  assumes "sketch_wf sk" "repr_all sk S"
  shows "repr_all (upd sk x) (sym_diff S {x})"
proof -
  have sh: "same_shape (upd sk x) sk" by (rule upd_shape)
  have "buckets (upd sk x) ! i =
      bucket_sum xxh (checksum_seed sk) {y \<in> sym_diff S {x}. holds sk i y}"
    if "i < num_buckets sk" for i
  proof -
    have "{y \<in> {x}. holds sk i y} = (if holds sk i x then {x} else {})" by auto
    moreover have "finite S" using assms by (simp add: sketch_repr_def)
    ultimately show ?thesis
      using assms that upd_bucket [OF assms(1) that, of x]
      unfolding bucket_sum_filter_sym_diff [OF \<open>finite S\<close> finite.insertI [OF finite.emptyI]]
      by (simp add: sketch_repr_def Bucket_update_xor bucket_sum_singleton)
  qed
  then show ?thesis
    using assms sh holds_shape [OF sh] same_shape_checksum [OF sh]
    by (auto simp: sketch_repr_def same_shape_def)
qed

lemma repr_xor:
  assumes "repr R sk S" "repr R sk' S'" "same_shape sk sk'" "same_shape sk'' sk"
    and "\<And>i. i \<in> R \<Longrightarrow> buckets sk'' ! i = Bucket_xor (buckets sk ! i) (buckets sk' ! i)"
  shows "repr R sk'' (sym_diff S S')"
proof -
  have "buckets sk'' ! i = bucket_sum xxh (checksum_seed sk'') {x \<in> sym_diff S S'. holds sk'' i x}"
    if "i \<in> R" for i
    using that assms holds_shape [OF assms(3)] holds_shape [OF assms(4)]
      same_shape_checksum [OF assms(3)] same_shape_checksum [OF assms(4)]
    unfolding bucket_sum_filter_sym_diff [OF sketch_repr_finite [OF assms(1)]
      sketch_repr_finite [OF assms(2)]]
    by (simp add: sketch_repr_def)
  then show ?thesis using assms by (auto simp: sketch_repr_def)
qed

lemma repr_merge:
  assumes "sketch_wf sk" "same_shape sk sk'" "R \<subseteq> {..<num_buckets sk}" "repr R sk S" "repr R sk' S'"
  shows "repr R (Sketch_merge sk sk') (sym_diff S S')"
  using assms by (intro repr_xor [where sk = sk and sk' = sk']) (auto simp: Sketch_merge_bucket)

lemma repr_range_merge:
  assumes "sketch_wf sk" "same_shape sk sk'" "k < num_samples sk"
    and "repr (sample_region sk k) sk S" "repr (sample_region sk k) sk' S'"
  shows "repr (sample_region sk k) (Sketch_range_merge sk sk' k 1) (sym_diff S S')"
proof (rule repr_xor [where sk = sk and sk' = sk'])
  fix i assume i: "i \<in> sample_region sk k"
  then have "i < num_buckets sk" using sample_region_bound assms by blast
  with i assms show "buckets (Sketch_range_merge sk sk' k 1) ! i =
      Bucket_xor (buckets sk ! i) (buckets sk' ! i)"
    by (simp add: Sketch_range_merge_bucket sample_region_def)
qed (use assms in auto)

lemma repr_zero:
  assumes "R \<subseteq> {..<length (buckets sk)}"
  shows "repr R (zero_contents sk) {}"
  using assms by (auto simp: sketch_repr_def zero_contents_def reset_sample_state_def)

lemma repr_region:
  assumes "sketch_wf sk" "k < num_samples sk" "repr_all sk S"
  shows "repr (sample_region sk k) sk S"
  by (rule sketch_repr_mono [OF assms(3)]) (use sample_region_bound [OF assms(1,2)] in auto)

lemma repr_cong:
  assumes "same_shape sk' sk" "buckets sk' = buckets sk" "repr R sk S"
  shows "repr R sk' S"
  using assms holds_shape [OF assms(1)] same_shape_checksum [OF assms(1)]
  by (simp add: sketch_repr_def)

lemma upds_shape: "same_shape (fold (\<lambda>x sk. upd sk x) xs sk) sk"
  by (induction xs arbitrary: sk) (auto intro: same_shape_trans upd_shape)

lemma upds_wf: "sketch_wf sk \<Longrightarrow> sketch_wf (fold (\<lambda>x sk. upd sk x) xs sk)"
  by (induction xs arbitrary: sk) (auto intro: upd_wf)

lemma upds_frame:
  "fold (\<lambda>x sk. upd sk x) xs sk = sk\<lparr>buckets := buckets (fold (\<lambda>x sk. upd sk x) xs sk)\<rparr>"
proof (induction xs arbitrary: sk)
  case (Cons x xs)
  show ?case using Cons [of "upd sk x"] by (simp add: upd_frame [of sk x, symmetric]) (subst (asm) upd_frame, simp)
qed simp

lemma upds_sample_idx: "sample_idx (fold (\<lambda>x sk. upd sk x) xs sk) = sample_idx sk"
  by (subst upds_frame) simp

lemma repr_upds:
  assumes "sketch_wf sk" "repr_all sk S"
  shows "repr_all (fold (\<lambda>x sk. upd sk x) xs sk) (sym_diff S (odd_set xs))"
  using assms
proof (induction xs arbitrary: sk S)
  case (Cons x xs)
  have "repr_all (fold (\<lambda>x sk. upd sk x) xs (upd sk x)) (sym_diff (sym_diff S {x}) (odd_set xs))"
    by (rule Cons.IH) (use Cons.prems in \<open>auto intro: upd_wf repr_upd\<close>)
  moreover have "sym_diff (sym_diff S {x}) (odd_set xs) = sym_diff S (odd_set (x # xs))"
    unfolding odd_set_Cons by blast
  ultimately show ?case by simp
qed simp

lemma repr_buckets_eq:
  assumes "sketch_wf sk" "sketch_wf sk'" "same_shape sk sk'" "repr_all sk S" "repr_all sk' S"
  shows "buckets sk = buckets sk'"
  using assms holds_shape [OF assms(3)] same_shape_checksum [OF assms(3)]
  by (intro nth_equalityI) (auto simp: sketch_repr_def sketch_wf_def same_shape_def)

lemma upds_buckets:
  assumes "sketch_wf sk" "sketch_wf sk'" "same_shape sk sk'" "repr_all sk S"
    and "repr_all sk' S'" "sym_diff S (odd_set xs) = sym_diff S' (odd_set ys)"
  shows "buckets (fold (\<lambda>x sk. upd sk x) xs sk) = buckets (fold (\<lambda>x sk. upd sk x) ys sk')"
  using assms repr_upds [OF assms(1,4), of xs] repr_upds [OF assms(2,5), of ys]
  by (intro repr_buckets_eq) (auto intro: upds_wf same_shape_trans [OF upds_shape]
    same_shape_trans [OF _ same_shape_sym [OF upds_shape]])

lemma upds_eq:
  assumes "sketch_wf sk" "repr_all sk {}" "odd_set xs = odd_set ys"
  shows "fold (\<lambda>x sk. upd sk x) xs sk = fold (\<lambda>x sk. upd sk x) ys sk"
  using upds_buckets [OF assms(1,1) same_shape_refl assms(2,2), of xs ys] assms(3)
    upds_frame [of xs sk] upds_frame [of ys sk] by simp

lemma merge_upds:
  assumes "sketch_wf sk" "repr_all sk {}"
  shows "Sketch_merge (fold (\<lambda>x sk. upd sk x) xs sk) (fold (\<lambda>x sk. upd sk x) ys sk) =
    fold (\<lambda>x sk. upd sk x) (xs @ ys) sk"
    (is "?m = ?f")
proof -
  let ?x = "fold (\<lambda>x sk. upd sk x) xs sk" and ?y = "fold (\<lambda>x sk. upd sk x) ys sk"
  have sh: "same_shape ?m sk" "same_shape ?f sk" "same_shape ?x ?y"
    by (auto intro: same_shape_trans [OF Sketch_merge_shape] upds_shape
      same_shape_trans [OF upds_shape] same_shape_sym)
  have nb: "num_buckets ?x = num_buckets sk" "num_buckets ?y = num_buckets sk"
    "num_buckets ?m = num_buckets sk"
    using upds_shape [of xs sk] upds_shape [of ys sk] sh(1) by (auto simp: same_shape_def)
  have "repr_all ?x (sym_diff {} (odd_set xs))" "repr_all ?y (sym_diff {} (odd_set ys))"
    using assms by (auto intro!: repr_upds [where S = "{}", simplified])
  then have "repr_all ?m (sym_diff (odd_set xs) (odd_set ys))"
    unfolding nb using assms sh by (intro repr_merge) (auto intro: upds_wf simp: nb)
  moreover have "repr_all ?f (sym_diff {} (odd_set (xs @ ys)))"
    using assms by (intro repr_upds)
  ultimately have "buckets ?m = buckets ?f"
    using assms sh by (intro repr_buckets_eq [where S = "sym_diff (odd_set xs) (odd_set ys)"])
      (auto intro: Sketch_merge_wf upds_wf same_shape_trans same_shape_sym simp: odd_set_append)
  moreover have "?m = sk\<lparr>buckets := buckets ?m\<rparr>"
    unfolding Sketch_merge_def by (subst (1 2) upds_frame) simp
  ultimately show ?thesis using upds_frame [of "xs @ ys" sk] by simp
qed

lemma repr_unique_empty:
  assumes "repr (sample_region sk k) sk S" "sample_sound xxh holds sk k S"
  shows "buckets sk ! (num_buckets sk - 1) = zero_bucket \<longleftrightarrow> S = {}"
proof -
  have S: "{x \<in> S. holds sk (num_buckets sk - 1) x} = S" using holds_det by simp
  have r: "num_buckets sk - 1 \<in> sample_region sk k" by (simp add: sample_region_def)
  have "buckets sk ! (num_buckets sk - 1) = bucket_sum xxh (checksum_seed sk) S"
    using assms(1) r S unfolding sketch_repr_def by metis
  moreover have "bucket_sound TYPE('h) xxh (checksum_seed sk) S"
    using assms(2) r S unfolding sample_sound_def by metis
  ultimately show ?thesis by (auto simp: bucket_sound_def)
qed

lemma repr_good_member:
  assumes "repr (sample_region sk k) sk S" "sample_sound xxh holds sk k S"
    and "i \<in> sample_region sk k" "is_good xxh (buckets sk ! i) (checksum_seed sk)"
  shows "alpha (buckets sk ! i) \<in> S \<and> {x \<in> S. holds sk i x} = {alpha (buckets sk ! i)}"
proof -
  have b: "buckets sk ! i = bucket_sum xxh (checksum_seed sk) {x \<in> S. holds sk i x}"
    using assms by (simp add: sketch_repr_def)
  have "bucket_sound TYPE('h) xxh (checksum_seed sk) {x \<in> S. holds sk i x}"
    using assms(2,3) unfolding sample_sound_def by blast
  with assms(4) b obtain y where y: "{x \<in> S. holds sk i x} = {y}"
    unfolding bucket_sound_def by metis
  then have "buckets sk ! i = \<lparr>alpha = y, gamma = get_index_hash xxh y (checksum_seed sk)\<rparr>"
    using b by (simp only: bucket_sum_singleton)
  with y show ?thesis by auto
qed

lemma sample_correct:
  assumes "sketch_wf sk" "sample_idx sk < num_samples sk"
    and "repr (sample_region sk (sample_idx sk)) sk S"
    and "sample_sound xxh holds sk (sample_idx sk) S"
  shows "\<exists>r. Sketch_sample xxh sk = Inr (r, sk\<lparr>sample_idx := sample_idx sk + 1\<rparr>) \<and>
    (result r = ZERO \<longleftrightarrow> S = {}) \<and> (result r = GOOD \<longrightarrow> idx r \<in> S) \<and>
    (result r = FAIL \<longleftrightarrow> S \<noteq> {} \<and>
      (\<forall>i\<in>sample_region sk (sample_idx sk). card {x \<in> S. holds sk i x} \<noteq> 1))"
proof -
  let ?R = "sample_region sk (sample_idx sk)" and ?det = "num_buckets sk - 1"
  let ?good = "\<lambda>i. is_good xxh (buckets sk ! i) (checksum_seed sk)"
  let ?find = "List.find ?good (sample_bucket_ids sk (sample_idx sk))"
  have zero: "buckets sk ! ?det = zero_bucket \<longleftrightarrow> S = {}"
    using assms by (intro repr_unique_empty)
  have zero': "alpha (buckets sk ! ?det) = 0 \<and> gamma (buckets sk ! ?det) = 0 \<longleftrightarrow> S = {}"
    unfolding zero [symmetric] by (auto simp: zero_bucket_def)
  have mem: "alpha (buckets sk ! i) \<in> S" if "i \<in> ?R" "?good i" for i
    using repr_good_member [OF assms(3,4) that] by blast
  have one: "?good i \<longleftrightarrow> card {x \<in> S. holds sk i x} = 1" if "i \<in> ?R" for i
  proof
    assume "?good i"
    from repr_good_member [OF assms(3,4) that this]
    show "card {x \<in> S. holds sk i x} = 1" by simp
  next
    assume "card {x \<in> S. holds sk i x} = 1"
    then obtain y where "{x \<in> S. holds sk i x} = {y}" by (meson card_1_singletonE)
    moreover have "buckets sk ! i = bucket_sum xxh (checksum_seed sk) {x \<in> S. holds sk i x}"
      using assms(3) that by (simp add: sketch_repr_def)
    ultimately show "?good i" by (simp only: is_good_singleton)
  qed
  have R: "?R = insert ?det (set (sample_bucket_ids sk (sample_idx sk)))"
    by (rule sample_region_ids)
  have fail: "?find = None \<and> \<not> ?good ?det \<longleftrightarrow> (\<forall>i\<in>?R. card {x \<in> S. holds sk i x} \<noteq> 1)"
    using one unfolding find_None_iff R by blast
  have found: "i \<in> ?R \<and> ?good i" if "?find = Some i" for i
    using that unfolding find_Some_iff R by (metis insertCI nth_mem)
  consider "S = {}" | "S \<noteq> {}" "?good ?det" | i where "S \<noteq> {}" "\<not> ?good ?det" "?find = Some i"
    | "S \<noteq> {}" "\<not> ?good ?det" "?find = None"
    by (cases ?find) auto
  then show ?thesis
  proof cases
    case 1
    then show ?thesis using assms(2) zero' by (simp add: Sketch_sample_def Let_def)
  next
    case 2
    then show ?thesis
      using assms(2) zero' mem [of ?det] fail by (auto simp: Sketch_sample_def Let_def R)
  next
    case (3 i)
    then show ?thesis
      using assms(2) zero' found [of i] mem [of i] fail by (auto simp: Sketch_sample_def Let_def)
  next
    case 4
    then show ?thesis using assms(2) zero' fail by (auto simp: Sketch_sample_def Let_def)
  qed
qed

lemma exhaustive_sample_correct:
  assumes "sketch_wf sk" "sample_idx sk < num_samples sk"
    and "repr (sample_region sk (sample_idx sk)) sk S"
    and "sample_sound xxh holds sk (sample_idx sk) S"
  shows "\<exists>r. Sketch_exhaustive_sample xxh sk = Inr (r, sk\<lparr>sample_idx := sample_idx sk + 1\<rparr>) \<and>
    idxs r \<subseteq> S \<and> (exhaustive_result r = ZERO \<longleftrightarrow> S = {}) \<and>
    (exhaustive_result r = GOOD \<longleftrightarrow> idxs r \<noteq> {})"
proof -
  let ?R = "sample_region sk (sample_idx sk)" and ?det = "num_buckets sk - 1"
  let ?good = "\<lambda>i. is_good xxh (buckets sk ! i) (checksum_seed sk)"
  have zero: "alpha (buckets sk ! ?det) = 0 \<and> gamma (buckets sk ! ?det) = 0 \<longleftrightarrow> S = {}"
    using repr_unique_empty [OF assms(3,4)] by (auto simp: zero_bucket_def)
  have mem: "alpha (buckets sk ! i) \<in> S" if "i \<in> ?R" "?good i" for i
    using repr_good_member [OF assms(3,4) that] by blast
  have R: "?R = insert ?det (set (sample_bucket_ids sk (sample_idx sk)))"
    by (rule sample_region_ids)
  consider "S = {}" | "S \<noteq> {}" "?good ?det" | "S \<noteq> {}" "\<not> ?good ?det" by blast
  then show ?thesis
  proof cases
    case 1
    then show ?thesis using assms(2) zero by (simp add: Sketch_exhaustive_sample_def Let_def)
  next
    case 2
    then show ?thesis
      using assms(2) zero mem [of ?det] by (auto simp: Sketch_exhaustive_sample_def Let_def R)
  next
    case 3
    let ?ret = "set (map (\<lambda>i. alpha (buckets sk ! i))
      (filter ?good (sample_bucket_ids sk (sample_idx sk))))"
    have "?ret \<subseteq> S" using mem unfolding R by auto
    moreover have "Sketch_exhaustive_sample xxh sk = Inr
        (\<lparr>idxs = ?ret, exhaustive_result = if ?ret = {} then FAIL else GOOD\<rparr>,
         sk\<lparr>sample_idx := sample_idx sk + 1\<rparr>)"
      using assms(2) zero 3 by (simp only: Sketch_exhaustive_sample_def Let_def if_False not_le) simp
    ultimately show ?thesis using 3 by simp
  qed
qed

end

section \<open>Both builds satisfy the contract\<close>

lemma buckets_update_det:
  assumes "sketch_wf sk" "i < num_buckets sk"
  shows "i div bkt_per_col sk < num_columns sk \<longleftrightarrow> i \<noteq> num_buckets sk - 1"
  using assms by (auto simp: sketch_wf_def div_less_iff_less_mult)

interpretation cameo: linear_sketch xxh "in_bucket xxh" "Sketch_update xxh" for xxh
proof
  fix sk :: "'a word Sketch" and i x
  assume wf: "sketch_wf sk" and i: "i < num_buckets sk"
  let ?h = "get_index_hash xxh x (checksum_seed sk)" and ?last = "num_buckets sk - 1"
  let ?bs = "(buckets sk)[?last := Bucket_update (buckets sk ! ?last) x ?h]"
  have "fold (update_column xxh sk x ?h) [0..<num_columns sk] ?bs ! i =
      (if i div bkt_per_col sk < num_columns sk \<and>
          get_index_depth xxh x (column_seed sk (i div bkt_per_col sk)) (bkt_per_col sk) =
          i mod bkt_per_col sk
       then Bucket_update (?bs ! i) x ?h else ?bs ! i)"
    using wf i by (intro fold_columns) (auto simp: nth_update_column sketch_wf_def)
  then show "buckets (Sketch_update xxh sk x) ! i =
      (if in_bucket xxh sk i x then Bucket_update (buckets sk ! i) x ?h else buckets sk ! i)"
    using wf i buckets_update_det [OF wf i]
    by (auto simp: Sketch_update_def Let_def in_bucket_def sketch_wf_def)
qed (auto simp: same_shape_def in_bucket_def Sketch_update_def Let_def sketch_wf_def
      length_fold_same column_seed_def)

interpretation l0: linear_sketch xxh "in_bucket_L0 xxh" "Sketch_update_L0 xxh" for xxh
proof
  fix sk :: "'a word Sketch" and i x
  assume wf: "sketch_wf sk" and i: "i < num_buckets sk"
  let ?h = "get_index_hash xxh x (checksum_seed sk)" and ?last = "num_buckets sk - 1"
  let ?bs = "(buckets sk)[?last := Bucket_update (buckets sk ! ?last) x ?h]"
  have "fold (update_column_L0 xxh sk x ?h) [0..<num_columns sk] ?bs ! i =
      (if i div bkt_per_col sk < num_columns sk \<and>
          (let d = get_index_depth xxh x (column_seed sk (i div bkt_per_col sk)) (bkt_per_col sk)
           in i mod bkt_per_col sk \<le> d \<and> d < bkt_per_col sk)
       then Bucket_update (?bs ! i) x ?h else ?bs ! i)"
    using wf i by (intro fold_columns) (auto simp: nth_update_column_L0 sketch_wf_def)
  then show "buckets (Sketch_update_L0 xxh sk x) ! i =
      (if in_bucket_L0 xxh sk i x then Bucket_update (buckets sk ! i) x ?h else buckets sk ! i)"
    using wf i buckets_update_det [OF wf i]
    by (auto simp: Sketch_update_L0_def Let_def in_bucket_L0_def sketch_wf_def)
qed (auto simp: same_shape_def in_bucket_L0_def Sketch_update_L0_def Let_def sketch_wf_def
      length_fold_same column_seed_def)


section \<open>Dimensions and fresh sketches\<close>

lemma calc_bkt_per_col_bounds:
  assumes "n \<le> 2 ^ 62"
  shows "0 < calc_bkt_per_col n" "calc_bkt_per_col n < 64"
proof -
  have "ceillog2 n \<le> 62"
    using assms ceillog2_le_iff [of n 62] by (cases "n = 0") auto
  then show "calc_bkt_per_col n < 64"
    unfolding calc_bkt_per_col_def Let_def by presburger
qed (auto simp: calc_bkt_per_col_def Let_def)

lemma Sketch_new_wf:
  assumes "n \<le> 2 ^ 62"
  shows "sketch_wf (Sketch_new n seed samples cols)"
  using calc_bkt_per_col_bounds [OF assms] by (simp add: Sketch_new_def Let_def sketch_wf_def)

lemma Sketch_new_repr:
  "sketch_repr xxh holds {..<num_buckets (Sketch_new n seed samples cols)}
     (Sketch_new n seed samples cols) {}"
  by (auto simp: sketch_repr_def Sketch_new_def Let_def simp del: replicate_add replicate_Suc)


lemma calc_bkt_per_col_large:
  assumes "2 ^ 62 < n" "n \<le> 2 ^ 63"
  shows "calc_bkt_per_col n = 65"
proof -
  have "ceillog2 n = 63"
    using assms ceillog2_le_iff [of n 63] ceillog2_ge_iff [of n 63] by auto
  then show ?thesis by (simp add: calc_bkt_per_col_def)
qed

text \<open>The bucket count of a column is a usable shift amount for every vector length up to
  \<open>2^62\<close>; just above it the padding against bank conflicts makes it 65, and the shift
  \<^verbatim>\<open>1ull << max_depth\<close> of \<^verbatim>\<open>get_index_depth\<close> is undefined.\<close>

theorem calc_bkt_per_col_range:
  "(\<forall>n. n \<le> 2 ^ 62 \<longrightarrow> calc_bkt_per_col n \<in> {1..63}) \<and> calc_bkt_per_col (2 ^ 62 + 1) = 65"
  using calc_bkt_per_col_bounds calc_bkt_per_col_large [of "2 ^ 62 + 1"] by force

theorem calc_bkt_per_col_range_witness: "calc_bkt_per_col (2 ^ 10) \<in> {1..63}"
  using conjunct1 [OF calc_bkt_per_col_range, THEN spec, of "2 ^ 10"] by simp

lemma calc_vector_length_le:
  assumes "num_vertices \<le> 2 ^ 31"
  shows "calc_vector_length num_vertices \<le> 2 ^ 62"
proof -
  let ?m = "(num_vertices + 2 ^ 32 - 1) mod 2 ^ 32"
  have a: "double_of num_vertices \<le> 2 ^ 31"
    unfolding double_of_def using assms by (intro rnd_le_nat_pow2) (metis of_nat_le_iff of_nat_numeral of_nat_power)
  have "?m < 2 ^ 32" by simp
  then have "?m \<le> 2 ^ 32" by (rule less_imp_le)
  then have b: "double_of ?m \<le> 2 ^ 32"
    unfolding double_of_def by (intro rnd_le_nat_pow2) (metis of_nat_le_iff of_nat_numeral of_nat_power)
  have "double_of num_vertices * double_of ?m \<le> 2 ^ 31 * 2 ^ 32"
    using a b by (intro mult_mono) (auto simp: double_of_def)
  then have "double_mul (double_of num_vertices) (double_of ?m) \<le> 2 ^ 63"
    unfolding double_mul_def by (intro rnd_le_nat_pow2) simp
  then have "double_div (double_mul (double_of num_vertices) (double_of ?m)) 2 \<le> 2 ^ 62"
    unfolding double_div_def by (intro rnd_le_nat_pow2) simp
  then have "\<lceil>double_div (double_mul (double_of num_vertices) (double_of ?m)) 2\<rceil> \<le> 2 ^ 62"
    by (simp add: ceiling_le_iff)
  then show ?thesis unfolding calc_vector_length_def by (simp only: nat_le_iff of_nat_power of_nat_numeral)
qed

text \<open>Up to \<open>2^26\<close> vertices the computation in doubles is exact: the sketched vector has one
  entry per unordered pair of vertices.\<close>

theorem calc_vector_length_exact:
  assumes "num_vertices \<in> {1..2 ^ 26}"
  shows "calc_vector_length num_vertices = num_vertices choose 2"
proof -
  let ?n = num_vertices
  have m: "(?n + 2 ^ 32 - 1) mod 2 ^ 32 = ?n - 1"
  proof -
    have "?n + 2 ^ 32 - 1 = (?n - 1) + 2 ^ 32" using assms by auto
    then have "(?n + 2 ^ 32 - 1) mod 2 ^ 32 = (?n - 1) mod 2 ^ 32" by (simp only: mod_add_self2)
    also have "\<dots> = ?n - 1" using assms by (intro mod_less) auto
    finally show ?thesis .
  qed
  have "?n * (?n - 1) \<le> 2 ^ 26 * 2 ^ 26" using assms by (intro mult_mono) auto
  then have lt: "?n * (?n - 1) < 2 ^ 53" by simp
  have "?n < 2 ^ 53" using assms by simp
  moreover from this have "?n - 1 < 2 ^ 53" by linarith
  ultimately have "double_of ?n = of_nat ?n" "double_of (?n - 1) = of_nat (?n - 1)"
    by (simp_all only: double_of_exact)
  then have "double_mul (double_of ?n) (double_of (?n - 1)) = rnd (of_nat (?n * (?n - 1)))"
    by (simp only: double_mul_def of_nat_mult)
  also have "\<dots> = of_nat (?n * (?n - 1))" using lt by (rule rnd_of_nat)
  finally have "double_mul (double_of ?n) (double_of (?n - 1)) = of_nat (?n * (?n - 1))" .
  moreover have "of_nat (?n * (?n - 1)) / 2 = (of_nat (?n choose 2) :: rat)"
  proof -
    have "even (?n * (?n - 1))" by (cases ?n) auto
    then have "?n * (?n - 1) = 2 * (?n choose 2)" unfolding choose_two by (simp only: dvd_mult_div_cancel)
    then have "(of_nat (?n * (?n - 1)) :: rat) = 2 * of_nat (?n choose 2)" by (metis of_nat_mult of_nat_numeral)
    then show ?thesis by simp
  qed
  moreover have "?n choose 2 < 2 ^ 53" using lt by (simp add: choose_two)
  ultimately show ?thesis
    unfolding calc_vector_length_def m double_div_def by (simp add: rnd_of_nat)
qed

theorem calc_vector_length_exact_witness: "calc_vector_length 1024 = 523776"
  using calc_vector_length_exact [of 1024] by (simp add: choose_two)
text \<open>C21. A sketch is a linear function of the update stream: the sketch of a stream, in either
  build, depends only on which indices occur an odd number of times, and merging the
  sketches of two streams gives the sketch of the concatenated stream.\<close>

theorem Sketch_linear:
  assumes "n \<le> 2 ^ 62" "sk = Sketch_new n seed samples cols" "odd_set xs = odd_set ys"
  shows "fold (\<lambda>x s. Sketch_update xxh s x) xs sk = fold (\<lambda>x s. Sketch_update xxh s x) ys sk \<and>
    fold (\<lambda>x s. Sketch_update_L0 xxh s x) xs sk = fold (\<lambda>x s. Sketch_update_L0 xxh s x) ys sk"
proof -
  have wf: "sketch_wf sk" using assms Sketch_new_wf by blast
  have repr: "sketch_repr xxh h {..<num_buckets sk} sk {}" for h
    unfolding assms(2) by (rule Sketch_new_repr)
  show ?thesis
    using cameo.upds_eq [OF wf repr assms(3)] l0.upds_eq [OF wf repr assms(3)] by blast
qed

theorem Sketch_linear_witness:
  "fold (\<lambda>x s. Sketch_update (\<lambda>x s. x + s) s x) [3, 5, 3] (Sketch_new 10 7 2 1) =
   fold (\<lambda>x s. Sketch_update (\<lambda>x s. x + s) s x) [5] (Sketch_new 10 7 2 1 :: 64 word Sketch)"
  using Sketch_linear [of 10 "Sketch_new 10 7 2 1 :: 64 word Sketch" 7 2 1 "[3, 5, 3]" "[5]" "\<lambda>x s. x + s"]
  by (auto simp: odd_set_def)

text \<open>C22. Merging the sketches of two streams gives exactly the sketch of the concatenated
  stream, in either build.\<close>

theorem Sketch_merge_concat:
  assumes "n \<le> 2 ^ 62" "sk = Sketch_new n seed samples cols"
  shows "Sketch_merge (fold (\<lambda>x s. Sketch_update xxh s x) xs sk)
      (fold (\<lambda>x s. Sketch_update xxh s x) ys sk) =
    fold (\<lambda>x s. Sketch_update xxh s x) (xs @ ys) sk \<and>
    Sketch_merge (fold (\<lambda>x s. Sketch_update_L0 xxh s x) xs sk)
      (fold (\<lambda>x s. Sketch_update_L0 xxh s x) ys sk) =
    fold (\<lambda>x s. Sketch_update_L0 xxh s x) (xs @ ys) sk"
proof -
  have wf: "sketch_wf sk" using assms Sketch_new_wf by blast
  have repr: "sketch_repr xxh h {..<num_buckets sk} sk {}" for h
    unfolding assms(2) by (rule Sketch_new_repr)
  show ?thesis using cameo.merge_upds [OF wf repr] l0.merge_upds [OF wf repr] by blast
qed

theorem Sketch_merge_concat_witness:
  "Sketch_merge (Sketch_update (\<lambda>x s. x + s) (Sketch_new 10 7 2 1) 3)
     (Sketch_update (\<lambda>x s. x + s) (Sketch_new 10 7 2 1) 5) =
   Sketch_update (\<lambda>x s. x + s)
     (Sketch_update (\<lambda>x s. x + s) (Sketch_new 10 7 2 1 :: 64 word Sketch) 3) 5"
  using Sketch_merge_concat [of 10 "Sketch_new 10 7 2 1 :: 64 word Sketch" 7 2 1 "\<lambda>x s. x + s" "[3]" "[5]"]
  by simp



lemma hash_sound_example: "hash_sound TYPE(64) (\<lambda>x s. x + 1) s {1, 2}"
proof -
  have "bucket_sound TYPE(64) (\<lambda>x s. x + 1) s A" if "A \<in> Pow {1, 2}" for A
    using that by (auto simp: Pow_insert bucket_sound_def bucket_sum_def is_good_def
      zero_bucket_def get_index_hash_def)
  then show ?thesis by (simp add: hash_sound_def)
qed


text \<open>An exhaustive sample of a sketch of \<open>S\<close> returns only members of \<open>S\<close>, reports \<open>ZERO\<close>
  exactly for the empty set and \<open>GOOD\<close> exactly when it found a member.\<close>

theorem Sketch_exhaustive_sample_correct:
  assumes "sketch_wf sk" "sample_idx sk < num_samples sk"
    and "sketch_repr xxh (in_bucket xxh) (sample_region sk (sample_idx sk)) sk S"
    and "sample_sound xxh (in_bucket xxh) sk (sample_idx sk) S"
  shows "\<exists>r. Sketch_exhaustive_sample xxh sk = Inr (r, sk\<lparr>sample_idx := sample_idx sk + 1\<rparr>) \<and>
    idxs r \<subseteq> S \<and> (exhaustive_result r = ZERO \<longleftrightarrow> S = {}) \<and>
    (exhaustive_result r = GOOD \<longleftrightarrow> idxs r \<noteq> {})"
  by (rule cameo.exhaustive_sample_correct [OF assms])

theorem Sketch_exhaustive_sample_correct_witness:
  "\<exists>r sk'. Sketch_exhaustive_sample (\<lambda>x s. x + 1) (Sketch_new 4 0 1 1 :: 64 word Sketch) =
     Inr (r, sk') \<and> exhaustive_result r = ZERO"
proof -
  let ?xxh = "\<lambda>x s :: 64 word. x + 1 :: 64 word" and ?new = "Sketch_new 4 0 1 1 :: 64 word Sketch"
  have wf: "sketch_wf ?new" by (simp add: Sketch_new_wf)
  have lt: "sample_idx ?new < num_samples ?new" by (simp add: Sketch_new_def Let_def)
  have "hash_sound TYPE(64) ?xxh (checksum_seed ?new) {}"
    using hash_sound_example by (simp add: hash_sound_def)
  from Sketch_exhaustive_sample_correct [OF wf lt cameo.repr_region [OF wf lt Sketch_new_repr]
      hash_sound_sample [OF this]]
  show ?thesis by auto
qed

section \<open>The byte format\<close>

lemma length_word_bytes [simp]: "length (word_bytes (w :: 'a::len word)) = LENGTH('a) div 8"
  by (simp add: word_bytes_def)

lemma bit_bytes_word:
  "bit (bytes_word bs :: 'a::len word) n \<longleftrightarrow>
     n < LENGTH('a) \<and> n < 8 * length bs \<and> bit (bs ! (n div 8)) (n mod 8)"
proof (induction bs arbitrary: n)
  case (Cons b bs)
  have "bit (bytes_word (b # bs) :: 'a word) n \<longleftrightarrow>
      n < LENGTH('a) \<and> (bit b n \<or> 8 \<le> n \<and> bit (bytes_word bs :: 'a word) (n - 8))"
    by (auto simp: bytes_word_def bit_simps dest: bit_imp_le_length)
  also have "\<dots> \<longleftrightarrow> n < LENGTH('a) \<and> n < 8 * length (b # bs) \<and> bit ((b # bs) ! (n div 8)) (n mod 8)"
  proof (cases "n < 8")
    case False
    then have "n div 8 = Suc ((n - 8) div 8)" "(n - 8) mod 8 = n mod 8" "\<not> bit b n"
      using bit_imp_le_length [of b n] by (auto simp: le_div_geq le_mod_geq)
    with False show ?thesis unfolding Cons by auto
  qed auto
  finally show ?case .
qed (simp add: bytes_word_def)

lemma bytes_word_bytes:
  assumes "8 dvd LENGTH('a::len)"
  shows "bytes_word (word_bytes (w :: 'a word)) = w"
proof (rule bit_word_eqI)
  fix n assume n: "n < LENGTH('a)"
  then have "n < 8 * (LENGTH('a) div 8)" using assms by auto
  then have "n div 8 < LENGTH('a) div 8" by (simp add: less_mult_imp_div_less mult.commute)
  with n \<open>n < 8 * (LENGTH('a) div 8)\<close> show "bit (bytes_word (word_bytes w) :: 'a word) n = bit w n"
    by (simp add: bit_bytes_word word_bytes_def bit_simps)
qed

lemma bytes_Bucket_bytes:
  assumes "8 dvd LENGTH('h::len)"
  shows "bytes_Bucket (Bucket_bytes (b :: 'h word Bucket)) = b"
  using assms bytes_word_bytes [of "alpha b"] bytes_word_bytes [of "gamma b"]
  by (simp add: bytes_Bucket_def Bucket_bytes_def)

lemma length_Bucket_bytes [simp]: "length (Bucket_bytes (b :: 'h::len word Bucket)) = bucket_size TYPE('h)"
  by (simp add: Bucket_bytes_def bucket_size_def)

lemma length_concat_Bucket_bytes:
  "length (concat (map Bucket_bytes (bs :: 'h::len word Bucket list))) =
     length bs * bucket_size TYPE('h)"
  by (induction bs) auto

lemma read_buckets_concat:
  assumes "8 dvd LENGTH('h::len)"
  shows "read_buckets (length bs) (concat (map Bucket_bytes bs)) = (bs :: 'h word Bucket list)"
  by (induction bs) (auto simp: bytes_Bucket_bytes [OF assms])

lemma Sketch_read_back:
  fixes sk :: "'h::len word Sketch"
  assumes "8 dvd LENGTH('h)" "sketch_wf sk"
    and "same_shape sk (Sketch_new vector_len seed samples cols)"
  shows "Sketch_new_stream vector_len seed (Sketch_serialize sk @ rest) samples cols =
    Inr (sk\<lparr>sample_idx := 0, is_cuda_bucket := False\<rparr>, rest)"
proof -
  have "length (Sketch_serialize sk) = num_buckets sk * bucket_size TYPE('h)"
    using assms(2) by (simp add: Sketch_serialize_def sketch_wf_def length_concat_Bucket_bytes)
  moreover have "read_buckets (num_buckets sk) (Sketch_serialize sk) = buckets sk"
    using assms(1,2) read_buckets_concat [of "buckets sk"]
    by (simp add: Sketch_serialize_def sketch_wf_def)
  ultimately show ?thesis
    using assms(3) unfolding Sketch_new_stream_def Let_def same_shape_def
    by (simp add: Sketch_new_def Let_def)
qed

text \<open>Writing a sketch and reading it back with the parameters it was built with gives the
  same sketch with a fresh sample state, and leaves the rest of the stream.\<close>

theorem Sketch_serialize_roundtrip:
  fixes sk :: "'h::len word Sketch"
  assumes "8 dvd LENGTH('h)" "sketch_wf sk"
    and "same_shape sk (Sketch_new vector_len seed samples cols)"
  shows "Sketch_new_stream vector_len seed (Sketch_serialize sk @ rest) samples cols =
    Inr (sk\<lparr>sample_idx := 0, is_cuda_bucket := False\<rparr>, rest)"
  using assms by (rule Sketch_read_back)

theorem Sketch_serialize_roundtrip_witness:
  "Sketch_new_stream 4 9 (Sketch_serialize (Sketch_new 4 9 2 1 :: 32 word Sketch) @ [7]) 2 1 =
     Inr (Sketch_new 4 9 2 1 :: 32 word Sketch, [7])"
proof -
  have "sketch_wf (Sketch_new 4 9 2 1 :: 32 word Sketch)" by (simp add: Sketch_new_wf)
  from Sketch_serialize_roundtrip [OF _ this same_shape_refl, of "[7]"] show ?thesis
    by (simp add: Sketch_new_def Let_def)
qed

end
