(* ===== verification/Partition.thy ===== *)
theory Partition
  imports Doubles
begin

text \<open>
  The division of an array among the threads of an OpenMP region:
  \<^verbatim>\<open>get_ith_partition\<close> and \<^verbatim>\<open>get_partition_idx\<close> of src/cc_sketch_alg.cpp and the second
  version of the former in src/mc_sketch_alg.cpp, which clamps the upper end. Both compute
  in doubles, so the model rounds every operation (theory Doubles).

  \<open>partition_ok\<close> is the contract the parallel code relies on: the segments are
  non-empty, adjacent, cover the array exactly, and \<^verbatim>\<open>get_partition_idx\<close> inverts them. It
  holds for every power-of-two number of threads and fails for others.
\<close>

definition get_ith_partition :: "nat \<Rightarrow> nat \<Rightarrow> nat \<Rightarrow> nat \<times> nat" where
  "get_ith_partition len i divisions =
     (let div_factor = double_div (double_of len) (double_of divisions)
      in (nat \<lceil>double_mul div_factor (double_of i)\<rceil>,
          nat \<lceil>double_mul div_factor (double_of (i + 1))\<rceil>))"

definition mc_get_ith_partition :: "nat \<Rightarrow> nat \<Rightarrow> nat \<Rightarrow> nat \<times> nat" where
  "mc_get_ith_partition len i divisions =
     (let div_factor = double_div (double_of len) (double_of divisions)
      in (nat \<lceil>double_mul div_factor (double_of i)\<rceil>,
          nat \<lceil>min (double_of len) (of_int \<lceil>double_mul div_factor (double_of (i + 1))\<rceil>)\<rceil>))"

definition get_partition_idx :: "nat \<Rightarrow> nat \<Rightarrow> nat \<Rightarrow> nat" where
  "get_partition_idx len idx divisions =
     (let div_factor = double_div (double_of len) (double_of divisions)
      in nat \<lfloor>double_div (double_of idx) div_factor\<rfloor>)"

type_synonym partition_fn = "nat \<Rightarrow> nat \<Rightarrow> nat \<Rightarrow> nat \<times> nat"

definition partition_ok :: "partition_fn \<Rightarrow> nat \<Rightarrow> nat \<Rightarrow> bool" where
  "partition_ok part n T \<longleftrightarrow>
     0 < T \<and> fst (part n 0 T) = 0 \<and> snd (part n (T - 1) T) = n \<and>
     (\<forall>i\<in>set [0..<T]. fst (part n i T) < snd (part n i T) \<and>
        (i + 1 < T \<longrightarrow> snd (part n i T) = fst (part n (i + 1) T)) \<and>
        (\<forall>j\<in>set [fst (part n i T)..<snd (part n i T)]. get_partition_idx n j T = i))"

section \<open>Adjacent segments\<close>

lemma get_ith_partition_adjacent:
  "fst (get_ith_partition n (i + 1) T) = snd (get_ith_partition n i T)"
  by (simp add: get_ith_partition_def Let_def)

lemma get_ith_partition_0: "fst (get_ith_partition n 0 T) = 0"
  by (simp add: get_ith_partition_def Let_def double_mul_def double_of_def)

lemma get_ith_partition_ordered:
  "fst (get_ith_partition n i T) \<le> snd (get_ith_partition n i T)"
proof -
  have "double_of i \<le> double_of (i + 1)"
    unfolding double_of_def by (intro rnd_mono) simp
  then have "double_mul d (double_of i) \<le> double_mul d (double_of (i + 1))" if "0 \<le> d" for d
    unfolding double_mul_def using that by (intro rnd_mono mult_left_mono)
  then show ?thesis
    by (simp add: get_ith_partition_def Let_def double_div_def nat_mono ceiling_mono)
qed

section \<open>Power-of-two thread counts\<close>

lemma div_factor_pow2:
  assumes "n < 2 ^ 32" "k \<le> 16"
  shows "double_div (double_of n) (double_of (2 ^ k)) = of_nat n / 2 ^ k"
proof -
  have k: "(2::nat) ^ k < 2 ^ 53" using assms(2) by (intro power_strict_increasing) auto
  have n: "n < 2 ^ 53" using assms(1) by simp
  have "of_nat n / 2 ^ k = of_int (int n) * (2::rat) powi (- int k)"
    by (simp add: power_int_minus divide_inverse)
  moreover have "rnd (of_int (int n) * 2 powi (- int k)) = of_int (int n) * 2 powi (- int k)"
    using n by (intro rnd_dyadic) auto
  ultimately show ?thesis
    using n k by (simp add: double_div_def double_of_exact)
qed

lemma mul_factor_pow2:
  assumes "n < 2 ^ 32" "k \<le> 16" "i \<le> 2 ^ k"
  shows "double_mul (of_nat n / 2 ^ k) (double_of i) = of_nat (n * i) / 2 ^ k"
proof -
  have k: "(2::nat) ^ k \<le> 2 ^ 16" using assms(2) by (intro power_increasing) auto
  have i: "i \<le> 2 ^ 16" using k assms(3) by (rule le_trans [rotated])
  have "n * i \<le> 2 ^ 32 * 2 ^ 16" using assms(1) i by (intro mult_le_mono) auto
  then have ni: "n * i < 2 ^ 53" by simp
  have "of_nat (n * i) / 2 ^ k = of_int (int (n * i)) * (2::rat) powi (- int k)"
    by (simp add: power_int_minus divide_inverse)
  moreover have "rnd (of_int (int (n * i)) * 2 powi (- int k)) = of_int (int (n * i)) * 2 powi (- int k)"
    using ni by (intro rnd_dyadic) (auto simp flip: of_nat_mult of_nat_less_iff)
  ultimately show ?thesis
    using i by (simp add: double_mul_def double_of_exact)
qed

lemma get_ith_partition_pow2:
  assumes "n < 2 ^ 32" "k \<le> 16" "i < 2 ^ k"
  shows "get_ith_partition n i (2 ^ k) =
    (nat \<lceil>of_nat (n * i) / 2 ^ k :: rat\<rceil>, nat \<lceil>of_nat (n * (i + 1)) / 2 ^ k :: rat\<rceil>)"
  using assms mul_factor_pow2 [of n k i] mul_factor_pow2 [of n k "i + 1"]
  by (simp add: get_ith_partition_def Let_def div_factor_pow2)

lemma partition_mem_pow2:
  assumes "n < 2 ^ 32" "k \<le> 16" "i < 2 ^ k"
    and "fst (get_ith_partition n i (2 ^ k)) \<le> j" "j < snd (get_ith_partition n i (2 ^ k))"
  shows "n * i \<le> j * 2 ^ k" "j * 2 ^ k < n * (i + 1)"
proof -
  have "of_nat (n * i) / 2 ^ k \<le> (of_nat j :: rat)"
    using assms(4) unfolding get_ith_partition_pow2 [OF assms(1-3)] by (simp add: nat_le_iff ceiling_le_iff)
  then have "(of_nat (n * i) :: rat) \<le> of_nat (j * 2 ^ k)" by (simp add: divide_le_eq)
  then show "n * i \<le> j * 2 ^ k" by (simp only: of_nat_le_iff)
  have "(of_nat j :: rat) < of_nat (n * (i + 1)) / 2 ^ k"
    using assms(5) unfolding get_ith_partition_pow2 [OF assms(1-3)] by (simp add: zless_nat_eq_int_zless less_ceiling_iff)
  then have "(of_nat (j * 2 ^ k) :: rat) < of_nat (n * (i + 1))" by (simp add: less_divide_eq)
  then show "j * 2 ^ k < n * (i + 1)" by (simp only: of_nat_less_iff)
qed

lemma partition_idx_pow2:
  assumes "0 < n" "n < 2 ^ 32" "k \<le> 16" "i < 2 ^ k" "n * i \<le> j * 2 ^ k" "j * 2 ^ k < n * (i + 1)"
  shows "get_partition_idx n j (2 ^ k) = i"
proof -
  have k: "(2::nat) ^ k \<le> 2 ^ 16" using assms(3) by (intro power_increasing) auto
  have "n * (i + 1) \<le> n * 2 ^ k" using assms(4) by (intro mult_le_mono2) simp
  with assms(6) have "j * 2 ^ k < n * 2 ^ k" by (rule less_le_trans)
  then have jn: "j < n" by simp
  then have j: "j < 2 ^ 53" using assms(2) by simp
  define q :: rat where "q = of_nat (j * 2 ^ k) / of_nat n"
  have lo: "of_nat i \<le> q"
    using assms(1,5) unfolding q_def by (simp add: le_divide_eq mult.commute flip: of_nat_mult)
  have hi: "q \<le> of_nat (i + 1) - 1 / of_nat n"
  proof -
    have "j * 2 ^ k + 1 \<le> n * (i + 1)" using assms(6) by simp
    then have "(of_nat (j * 2 ^ k) + 1 :: rat) \<le> of_nat n * of_nat (i + 1)"
      by (metis of_nat_1 of_nat_add of_nat_le_iff of_nat_mult)
    then show ?thesis using assms(1) unfolding q_def by (simp add: field_simps)
  qed
  have i16: "i < 2 ^ 16" using k assms(4) by simp
  then have i: "i < 2 ^ 53" by simp
  have rlo: "of_nat i \<le> rnd q" using rnd_mono [OF lo] rnd_of_nat [OF i] by simp
  have "rnd q < of_nat (i + 1)"
  proof (cases "0 < q")
    case True
    have "q \<le> 2 ^ 16"
    proof -
      have "0 \<le> 1 / (of_nat n :: rat)" by simp
      with hi have "q \<le> of_nat (i + 1)" by linarith
      also have "\<dots> \<le> of_nat (2 ^ 16)" using i16 by (simp only: of_nat_le_iff)
      finally show ?thesis by simp
    qed
    then have "q / 2 ^ 53 \<le> 2 ^ 16 / 2 ^ 53" by (intro divide_right_mono) auto
    then have "rnd q \<le> q + 2 ^ 16 / 2 ^ 53"
      using abs_le_D1 [OF rnd_error [OF True]] by linarith
    moreover have "(2::rat) ^ 16 / 2 ^ 53 < 1 / of_nat n"
    proof -
      have "(of_nat n :: rat) < of_nat (2 ^ 32)" using assms(2) by (simp only: of_nat_less_iff)
      then have "1 / (2::rat) ^ 32 < 1 / of_nat n" using assms(1) by (intro divide_strict_left_mono) auto
      then show ?thesis by simp
    qed
    ultimately show ?thesis using hi by linarith
  next
    case False
    then show ?thesis by (simp add: rnd_def)
  qed
  with rlo have "nat \<lfloor>rnd q\<rfloor> = i" by (simp add: nat_eq_iff floor_eq_iff)
  moreover have "get_partition_idx n j (2 ^ k) = nat \<lfloor>rnd q\<rfloor>"
    unfolding get_partition_idx_def Let_def div_factor_pow2 [OF assms(2,3)] double_of_exact [OF j]
    by (simp add: double_div_def q_def)
  ultimately show ?thesis by simp
qed

lemma partition_nonempty_pow2:
  assumes "n < 2 ^ 32" "k \<le> 16" "i < 2 ^ k" "2 ^ k \<le> n"
  shows "fst (get_ith_partition n i (2 ^ k)) < snd (get_ith_partition n i (2 ^ k))"
proof -
  have "(2::rat) ^ k \<le> of_nat n" using assms(4) by (metis of_nat_le_iff of_nat_numeral of_nat_power)
  then have "of_nat (n * i) / 2 ^ k + 1 \<le> (of_nat (n * (i + 1)) / 2 ^ k :: rat)"
    by (simp add: field_simps)
  then have "\<lceil>of_nat (n * i) / 2 ^ k :: rat\<rceil> < \<lceil>of_nat (n * (i + 1)) / 2 ^ k :: rat\<rceil>"
    by linarith
  moreover have "0 \<le> (of_nat (n * i) / 2 ^ k :: rat)" by simp
  then have "0 \<le> \<lceil>of_nat (n * i) / 2 ^ k :: rat\<rceil>" by linarith
  ultimately show ?thesis
    unfolding get_ith_partition_pow2 [OF assms(1-3)] fst_conv snd_conv by linarith
qed

lemma partition_last_pow2:
  assumes "n < 2 ^ 32" "k \<le> 16"
  shows "snd (get_ith_partition n (2 ^ k - 1) (2 ^ k)) = n"
  using assms get_ith_partition_pow2 [OF assms, of "2 ^ k - 1"] by simp

lemma partition_pow2:
  assumes "n < 2 ^ 32" "k \<le> 16" "2 ^ k \<le> n"
  shows "partition_ok get_ith_partition n (2 ^ k)"
proof -
  have "0 < n" using assms(3) by (meson less_le_trans zero_less_numeral zero_less_power)
  then show ?thesis
    using assms partition_last_pow2 [of n k] partition_nonempty_pow2 [of n k]
      partition_idx_pow2 [OF _ assms(1,2)] partition_mem_pow2 [OF assms(1,2)]
    unfolding partition_ok_def
    by (auto simp: get_ith_partition_0 simp del: Suc_eq_plus1 Suc_eq_plus1_left
        simp flip: get_ith_partition_adjacent)
qed

text \<open>With a power-of-two number of threads (at most 65536, and no more threads than
  elements) the double arithmetic of \<^verbatim>\<open>get_ith_partition\<close> divides the array into non-empty
  adjacent segments that cover it exactly, and \<^verbatim>\<open>get_partition_idx\<close> maps every index back to
  the thread that owns it.\<close>

theorem partition_ok_pow2:
  assumes "n < 2 ^ 32" "k \<le> 16" "2 ^ k \<le> n"
  shows "partition_ok get_ith_partition n (2 ^ k)"
  using assms by (rule partition_pow2)

theorem partition_ok_pow2_witness:
  "partition_ok get_ith_partition 5 (2 ^ 1)"
  by (rule partition_ok_pow2) auto

text \<open>Other thread counts break the contract. With 29 elements and 7 threads the rounded
  product exceeds 29, so the last segment of the connected-components version ends at 30, one
  past the array; the minimum-cut version clamps it. With 56 elements and 24 threads thread 15
  owns index 35 but \<^verbatim>\<open>get_partition_idx\<close> attributes it to thread 14.\<close>

theorem partition_rounding_defects:
  "get_ith_partition 29 6 7 = (25, 30) \<and> mc_get_ith_partition 29 6 7 = (25, 29) \<and>
   get_ith_partition 56 15 24 = (35, 38) \<and> get_partition_idx 56 35 24 = 14"
  by code_simp

section \<open>The clamped version\<close>

lemma mc_get_ith_partition_eq:
  assumes "n < 2 ^ 32"
  shows "mc_get_ith_partition n i T = (fst (get_ith_partition n i T), min n (snd (get_ith_partition n i T)))"
proof -
  define c where "c = \<lceil>double_mul (double_div (double_of n) (double_of T)) (double_of (i + 1))\<rceil>"
  have n: "double_of n = of_int (int n)" using assms by (simp add: double_of_exact)
  have "snd (mc_get_ith_partition n i T) = nat \<lceil>min (double_of n) (of_int c)\<rceil>"
    by (simp add: mc_get_ith_partition_def Let_def c_def)
  also have "\<dots> = nat (min (int n) c)" unfolding n by (simp only: ceiling_of_int flip: of_int_min)
  also have "\<dots> = min n (nat c)" by (auto simp: min_def)
  finally have "snd (mc_get_ith_partition n i T) = min n (snd (get_ith_partition n i T))"
    by (simp add: get_ith_partition_def Let_def c_def)
  moreover have "fst (mc_get_ith_partition n i T) = fst (get_ith_partition n i T)"
    by (simp add: get_ith_partition_def mc_get_ith_partition_def Let_def)
  ultimately show ?thesis by (simp add: prod_eq_iff)
qed

text \<open>The clamp of mc_sketch_alg.cpp keeps every segment inside the array for every
  number of threads, and changes nothing where the unclamped version is already inside.\<close>

theorem mc_get_ith_partition_inside:
  assumes "n < 2 ^ 32"
  shows "snd (mc_get_ith_partition n i T) \<le> n \<and>
    (snd (get_ith_partition n i T) \<le> n \<longrightarrow> mc_get_ith_partition n i T = get_ith_partition n i T)"
  using mc_get_ith_partition_eq [OF assms, of i T] by (auto simp: prod_eq_iff)

theorem mc_get_ith_partition_inside_witness:
  "snd (mc_get_ith_partition 29 6 7) \<le> 29"
  using mc_get_ith_partition_inside [of 29 6 7] by simp

lemma partition_le_pow2:
  assumes "n < 2 ^ 32" "k \<le> 16" "i < 2 ^ k"
  shows "snd (get_ith_partition n i (2 ^ k)) \<le> n"
proof -
  have "n * (i + 1) \<le> n * 2 ^ k" using assms(3) by (intro mult_le_mono2) simp
  then have "(of_nat (n * (i + 1)) :: rat) \<le> of_nat (n * 2 ^ k)" by (simp only: of_nat_le_iff)
  then show ?thesis
    unfolding get_ith_partition_pow2 [OF assms] by (simp add: nat_le_iff ceiling_le_iff divide_le_eq)
qed

lemma partition_ok_cong:
  assumes "\<And>i. i < T \<Longrightarrow> part' n i T = part n i T"
  shows "partition_ok part' n T = partition_ok part n T"
  using assms unfolding partition_ok_def by (auto simp: Ball_def)

lemma mc_partition_ok_pow2:
  assumes "n < 2 ^ 32" "k \<le> 16" "2 ^ k \<le> n"
  shows "partition_ok mc_get_ith_partition n (2 ^ k) = partition_ok get_ith_partition n (2 ^ k)"
  using partition_le_pow2 [OF assms(1,2)] mc_get_ith_partition_eq [OF assms(1)]
  by (intro partition_ok_cong) (simp add: prod_eq_iff)

end
