(* ===== verification/Round_Exec.thy ===== *)
theory Round_Exec
  imports Sketch Partition "HOL-Library.Disjoint_Sets"
begin

text \<open>
  The shared-memory part of a Boruvka round (\<^verbatim>\<open>perform_boruvka_round\<close> of src/cc_sketch_alg.cpp
  and src/mc_sketch_alg.cpp). What a thread does in a round after the first depends only on the
  merge instructions and on the vertex sketches, neither of which change during the round, so a
  thread is a list of actions on the shared state: query the sketch it has summed up
  locally, announce how many threads contribute to a component, or add its sketch to the
  shared one of a component (under that component's mutex) and, if it was the last
  contributor, query the shared sketch. A schedule says whose action comes next.

  The result is the sequence of sketches that are queried.
\<close>

record 'g GlobalMergeData =
  gsketch :: "'g Sketch"
  num_merge_needed :: nat
  num_merge_done :: nat

datatype 'g action =
    QueryLocal "'g Sketch"
  | SetNeeded nat nat
  | MergeGlobal nat "'g Sketch"
  | QueryGlobal nat

record 'g round_state =
  progs :: "'g action list list"
  gmerges :: "'g GlobalMergeData list"
  queries :: "'g Sketch list"

text \<open>\<^verbatim>\<open>size_t num_merge_needed = -1\<close>\<close>

definition size_max :: nat where
  "size_max = 2 ^ 64 - 1"

definition GlobalMergeData_new :: "nat \<Rightarrow> seed_t \<Rightarrow> nat \<Rightarrow> 'h::len word GlobalMergeData" where
  "GlobalMergeData_new vector_len seed samples =
     \<lparr>gsketch = Sketch_new vector_len seed samples default_cols_per_sample,
      num_merge_needed = size_max, num_merge_done = 0\<rparr>"

definition reset_global :: "'h::len word GlobalMergeData \<Rightarrow> 'h word GlobalMergeData" where
  "reset_global g =
     \<lparr>gsketch = zero_contents (gsketch g), num_merge_needed = size_max, num_merge_done = 0\<rparr>"

definition merge_global :: "nat \<Rightarrow> 'h::len word Sketch \<Rightarrow> 'h word GlobalMergeData \<Rightarrow>
    bool \<times> 'h word GlobalMergeData" where
  "merge_global cur_round local_sketch global =
     (let global = global\<lparr>gsketch := Sketch_range_merge (gsketch global) local_sketch cur_round 1\<rparr>;
          global = global\<lparr>num_merge_done := num_merge_done global + 1\<rparr>
      in (num_merge_done global \<ge> num_merge_needed global, global))"

definition exec_action :: "nat \<Rightarrow> nat \<Rightarrow> 'h::len word round_state \<Rightarrow> 'h word round_state" where
  "exec_action cur_round t s =
     (if t < length (progs s) then
        case progs s ! t of
          [] \<Rightarrow> s
        | QueryLocal sk # as \<Rightarrow> s\<lparr>progs := (progs s)[t := as], queries := queries s @ [sk]\<rparr>
        | SetNeeded g k # as \<Rightarrow>
            s\<lparr>progs := (progs s)[t := as],
              gmerges := (gmerges s)[g := (gmerges s ! g)\<lparr>num_merge_needed := k\<rparr>]\<rparr>
        | MergeGlobal g sk # as \<Rightarrow>
            (let (query_ready, global) = merge_global cur_round sk (gmerges s ! g)
             in s\<lparr>progs := (progs s)[t := if query_ready then QueryGlobal g # as else as],
                  gmerges := (gmerges s)[g := global]\<rparr>)
        | QueryGlobal g # as \<Rightarrow>
            s\<lparr>progs := (progs s)[t := as], queries := queries s @ [gsketch (gmerges s ! g)]\<rparr>
      else s)"

text \<open>The parallel region ends when every thread has: after the given schedule the threads that
  have actions left finish one after the other (an action causes at most one more).\<close>

definition drain_sched :: "'g action list list \<Rightarrow> nat list" where
  "drain_sched ps = concat (map (\<lambda>t. replicate (2 * length (ps ! t)) t) [0..<length ps])"

definition run_round :: "nat \<Rightarrow> nat list \<Rightarrow> 'h::len word round_state \<Rightarrow> 'h word round_state" where
  "run_round cur_round sched s = fold (exec_action cur_round) (sched @ drain_sched (progs s)) s"

section \<open>Every thread finishes\<close>

definition work :: "'g action list \<Rightarrow> nat" where
  "work as = sum_list (map (\<lambda>a. case a of MergeGlobal _ _ \<Rightarrow> 2 | _ \<Rightarrow> 1) as)"

lemma work_le: "work as \<le> 2 * length as"
  by (induction as) (auto simp: work_def split: action.splits)

lemma work_0: "work as = 0 \<longleftrightarrow> as = []"
  by (cases as) (auto simp: work_def split: action.splits)

lemma exec_action_progs:
  "length (progs (exec_action k t s)) = length (progs s)"
  "t' \<noteq> t \<Longrightarrow> progs (exec_action k t s) ! t' = progs s ! t'"
  "t < length (progs s) \<Longrightarrow> work (progs (exec_action k t s) ! t) \<le> work (progs s ! t) - 1"
  by (auto simp: exec_action_def work_def merge_global_def Let_def split: list.splits action.splits)

lemma exec_length [simp]: "length (progs (fold (exec_action k) ts s)) = length (progs s)"
  by (induction ts arbitrary: s) (auto simp: exec_action_progs)

lemma exec_work:
  "t < length (progs s) \<Longrightarrow>
     work (progs (fold (exec_action k) ts s) ! t) \<le> work (progs s ! t) - count_list ts t"
proof (induction ts arbitrary: s)
  case (Cons u ts)
  have "work (progs (fold (exec_action k) ts (exec_action k u s)) ! t) \<le>
      work (progs (exec_action k u s) ! t) - count_list ts t"
    using Cons by (simp add: exec_action_progs)
  then show ?case using exec_action_progs(2) [of t u k s] exec_action_progs(3) [of t s k] Cons.prems
    by (cases "t = u") auto
qed simp

lemma count_list_replicate: "count_list (replicate n a) t = (if a = t then n else 0)"
  by (induction n) auto

lemma count_drain_sched: "t < length ps \<Longrightarrow> 2 * length (ps ! t) \<le> count_list (drain_sched ps) t"
proof -
  have "count_list (concat (map (\<lambda>t. replicate (f t) t) ts)) t = (if t \<in> set ts then f t else 0)"
    if "distinct ts" for ts and f :: "nat \<Rightarrow> nat"
    using that by (induction ts) (auto simp: count_list_append count_list_replicate)
  then show "t < length ps \<Longrightarrow> 2 * length (ps ! t) \<le> count_list (drain_sched ps) t"
    by (simp add: drain_sched_def)
qed

lemma run_round_finishes:
  assumes "t < length (progs s)"
  shows "progs (run_round k sched s) ! t = []"
proof -
  have "work (progs (run_round k sched s) ! t) \<le>
      work (progs s ! t) - count_list (sched @ drain_sched (progs s)) t"
    unfolding run_round_def using assms by (rule exec_work)
  also have "\<dots> = 0" using work_le [of "progs s ! t"] count_drain_sched [OF assms] by simp
  finally show ?thesis by (simp add: work_0)
qed


section \<open>Sums of sets of indices\<close>

text \<open>The symmetric difference of the sets \<open>L t\<close> for \<open>t \<in> D\<close>.\<close>

definition xset :: "('t \<Rightarrow> 'b set) \<Rightarrow> 't set \<Rightarrow> 'b set" where
  "xset L D = {x. odd (card {t \<in> D. x \<in> L t})}"

lemma xset_empty [simp]: "xset L {} = {}"
  by (simp add: xset_def)

lemma xset_insert:
  assumes "finite D" "t \<notin> D"
  shows "xset L (insert t D) = sym_diff (xset L D) (L t)"
proof -
  have "card {u \<in> insert t D. x \<in> L u} = card {u \<in> D. x \<in> L u} + (if x \<in> L t then 1 else 0)" for x
  proof -
    have "{u \<in> insert t D. x \<in> L u} =
        (if x \<in> L t then insert t {u \<in> D. x \<in> L u} else {u \<in> D. x \<in> L u})" by auto
    then show ?thesis using assms by auto
  qed
  then show ?thesis by (auto simp: xset_def)
qed

lemma xset_singleton [simp]: "xset L {t} = L t"
  using xset_insert [of "{}" t L] by simp

lemma xset_union:
  assumes "finite A" "finite B" "A \<inter> B = {}"
  shows "xset L (A \<union> B) = sym_diff (xset L A) (xset L B)"
  using assms
proof (induction A rule: finite_induct)
  case (insert x A)
  then have "xset L (insert x (A \<union> B)) = sym_diff (xset L (A \<union> B)) (L x)"
    by (intro xset_insert) auto
  with insert show ?case by (auto simp: xset_insert)
qed auto

lemma xset_UNION:
  assumes "finite D" "\<And>t. t \<in> D \<Longrightarrow> finite (A t)" "disjoint_family_on A D"
  shows "xset L (\<Union>t\<in>D. A t) = xset (\<lambda>t. xset L (A t)) D"
  using assms
proof (induction D rule: finite_induct)
  case (insert t D)
  have "A t \<inter> (\<Union>u\<in>D. A u) = {}"
    using insert.prems(2) insert.hyps(2) by (fastforce simp: disjoint_family_on_def)
  then have "xset L (A t \<union> (\<Union>u\<in>D. A u)) = sym_diff (xset L (A t)) (xset L (\<Union>u\<in>D. A u))"
    using insert by (intro xset_union) auto
  moreover have "xset L (\<Union>u\<in>D. A u) = xset (\<lambda>t. xset L (A t)) D"
    using insert.prems by (intro insert.IH) (auto simp: disjoint_family_on_def)
  ultimately show ?case using insert.hyps by (auto simp: xset_insert)
qed simp


section \<open>Every component is queried exactly once, whatever the schedule\<close>

text \<open>
  A plan of a round: \<open>N\<close> are the components, \<open>K r\<close> the threads that hold a part of component
  \<open>r\<close>, \<open>gid r\<close> the shared slot where a component held by several threads is summed up. The items
  of thread \<open>t\<close> are the actions it takes: \<open>Loc\<close> queries a component it holds alone, \<open>Need\<close>
  announces the number of contributors (by the first of them, before its contribution),
  \<open>Mrg\<close> contributes.
\<close>

datatype kind = Loc | Need | Mrg

definition act :: "(nat \<Rightarrow> nat set) \<Rightarrow> (nat \<Rightarrow> nat) \<Rightarrow> (nat \<Rightarrow> nat \<Rightarrow> 'g Sketch) \<Rightarrow> nat \<Rightarrow> kind \<times> nat \<Rightarrow> 'g action" where
  "act K gid sk t x = (case fst x of
      Loc \<Rightarrow> QueryLocal (sk t (snd x)) | Need \<Rightarrow> SetNeeded (gid (snd x)) (card (K (snd x)))
    | Mrg \<Rightarrow> MergeGlobal (gid (snd x)) (sk t (snd x)))"

definition multi :: "nat set \<Rightarrow> (nat \<Rightarrow> nat set) \<Rightarrow> nat \<Rightarrow> bool" where
  "multi N K r \<longleftrightarrow> r \<in> N \<and> 2 \<le> card (K r)"

definition round_plan :: "nat \<Rightarrow> nat \<Rightarrow> nat set \<Rightarrow> (nat \<Rightarrow> nat set) \<Rightarrow> (nat \<Rightarrow> nat) \<Rightarrow>
    (nat \<Rightarrow> (kind \<times> nat) list) \<Rightarrow> bool" where
  "round_plan T ng N K gid items \<longleftrightarrow> T < size_max \<and>
     (\<forall>r\<in>N. K r \<noteq> {} \<and> K r \<subseteq> {..<T}) \<and> inj_on gid {r. multi N K r} \<and>
     (\<forall>r. multi N K r \<longrightarrow> gid r < ng) \<and>
     (\<forall>t<T. distinct (items t) \<and>
        (\<forall>r. ((Loc, r) \<in> set (items t) \<longleftrightarrow> r \<in> N \<and> K r = {t}) \<and>
             ((Mrg, r) \<in> set (items t) \<longleftrightarrow> multi N K r \<and> t \<in> K r) \<and>
             ((Need, r) \<in> set (items t) \<longleftrightarrow> multi N K r \<and> t = Min (K r)) \<and>
             (\<forall>p. (Mrg, r) \<in> set (take p (items t)) \<and> t = Min (K r) \<longrightarrow>
                  (Need, r) \<in> set (take p (items t)))))"

lemma round_planD:
  assumes "round_plan T ng N K gid items"
  shows "r \<in> N \<Longrightarrow> finite (K r)" "r \<in> N \<Longrightarrow> K r \<noteq> {}" "r \<in> N \<Longrightarrow> K r \<subseteq> {..<T}"
    "r \<in> N \<Longrightarrow> card (K r) < size_max"
    "multi N K r \<Longrightarrow> multi N K r' \<Longrightarrow> gid r = gid r' \<Longrightarrow> r = r'"
    "multi N K r \<Longrightarrow> gid r < ng"
    "t < T \<Longrightarrow> distinct (items t)"
    "t < T \<Longrightarrow> (Loc, r) \<in> set (items t) \<longleftrightarrow> r \<in> N \<and> K r = {t}"
    "t < T \<Longrightarrow> (Mrg, r) \<in> set (items t) \<longleftrightarrow> multi N K r \<and> t \<in> K r"
    "t < T \<Longrightarrow> (Need, r) \<in> set (items t) \<longleftrightarrow> multi N K r \<and> t = Min (K r)"
    "t < T \<Longrightarrow> (Mrg, r) \<in> set (take p (items t)) \<Longrightarrow> t = Min (K r) \<Longrightarrow>
      (Need, r) \<in> set (take p (items t))"
proof -
  show fin: "r \<in> N \<Longrightarrow> finite (K r)" and "r \<in> N \<Longrightarrow> K r \<noteq> {}" and sub: "r \<in> N \<Longrightarrow> K r \<subseteq> {..<T}"
    using assms finite_subset [of "K r" "{..<T}"] by (auto simp: round_plan_def)
  show "r \<in> N \<Longrightarrow> card (K r) < size_max"
    using card_mono [OF _ sub] assms by (auto simp: round_plan_def)
  show "multi N K r \<Longrightarrow> multi N K r' \<Longrightarrow> gid r = gid r' \<Longrightarrow> r = r'"
    using assms by (auto simp: round_plan_def inj_on_def)
qed (use assms in \<open>auto simp: round_plan_def\<close>)

text \<open>
  The invariant of a round. \<open>pos t\<close> is the number of items thread \<open>t\<close> has done, \<open>pend t\<close> the
  component it is about to query; \<open>Qg r D g\<close> says that the shared sketch \<open>g\<close> is the sum of the
  parts of component \<open>r\<close> that the threads \<open>D\<close> hold.
\<close>

definition did :: "(nat \<Rightarrow> (kind \<times> nat) list) \<Rightarrow> (nat \<Rightarrow> nat) \<Rightarrow> nat \<Rightarrow> (kind \<times> nat) set" where
  "did items pos t = set (take (pos t) (items t))"

definition merged_by :: "(nat \<Rightarrow> nat set) \<Rightarrow> (nat \<Rightarrow> (kind \<times> nat) set) \<Rightarrow> nat \<Rightarrow> nat set" where
  "merged_by K dn r = {t \<in> K r. (Mrg, r) \<in> dn t}"

definition inv_progs :: "nat \<Rightarrow> (nat \<Rightarrow> nat set) \<Rightarrow> (nat \<Rightarrow> nat) \<Rightarrow> (nat \<Rightarrow> (kind \<times> nat) list) \<Rightarrow>
    (nat \<Rightarrow> nat \<Rightarrow> 'g Sketch) \<Rightarrow> 'g round_state \<Rightarrow> (nat \<Rightarrow> nat) \<Rightarrow> (nat \<Rightarrow> nat option) \<Rightarrow> bool" where
  "inv_progs T K gid items sk s pos pend \<longleftrightarrow> length (progs s) = T \<and>
     (\<forall>t<T. progs s ! t = (case pend t of None \<Rightarrow> [] | Some r \<Rightarrow> [QueryGlobal (gid r)]) @
        map (act K gid sk t) (drop (pos t) (items t)))"

definition inv_glob :: "nat \<Rightarrow> nat set \<Rightarrow> (nat \<Rightarrow> nat set) \<Rightarrow> (nat \<Rightarrow> nat) \<Rightarrow>
    (nat \<Rightarrow> nat set \<Rightarrow> 'g Sketch \<Rightarrow> bool) \<Rightarrow> 'g round_state \<Rightarrow> (nat \<Rightarrow> (kind \<times> nat) set) \<Rightarrow> bool" where
  "inv_glob ng N K gid Qg s dn \<longleftrightarrow> length (gmerges s) = ng \<and>
     (\<forall>r. multi N K r \<longrightarrow>
        num_merge_done (gmerges s ! gid r) = card (merged_by K dn r) \<and>
        num_merge_needed (gmerges s ! gid r) =
          (if (Need, r) \<in> dn (Min (K r)) then card (K r) else size_max) \<and>
        Qg r (merged_by K dn r) (gsketch (gmerges s ! gid r)))"

definition inv_pend :: "nat \<Rightarrow> nat set \<Rightarrow> (nat \<Rightarrow> nat set) \<Rightarrow> (nat \<Rightarrow> (kind \<times> nat) set) \<Rightarrow>
    (nat \<Rightarrow> nat option) \<Rightarrow> bool" where
  "inv_pend T N K dn pend \<longleftrightarrow>
     (\<forall>t<T. \<forall>r. pend t = Some r \<longrightarrow> multi N K r \<and> merged_by K dn r = K r) \<and>
     (\<forall>t<T. \<forall>t'<T. \<forall>r. pend t = Some r \<longrightarrow> pend t' = Some r \<longrightarrow> t = t')"

definition inv_queries :: "nat \<Rightarrow> nat set \<Rightarrow> (nat \<Rightarrow> nat set) \<Rightarrow> (nat \<Rightarrow> nat \<Rightarrow> 'g Sketch) \<Rightarrow>
    (nat \<Rightarrow> nat set \<Rightarrow> 'g Sketch \<Rightarrow> bool) \<Rightarrow> 'g round_state \<Rightarrow> (nat \<Rightarrow> (kind \<times> nat) set) \<Rightarrow>
    (nat \<Rightarrow> nat option) \<Rightarrow> nat list \<Rightarrow> bool" where
  "inv_queries T N K sk Qg s dn pend qs \<longleftrightarrow> distinct qs \<and>
     (\<forall>r. r \<in> set qs \<longleftrightarrow> r \<in> N \<and> (\<exists>t<T. (Loc, r) \<in> dn t) \<or>
       multi N K r \<and> merged_by K dn r = K r \<and> (\<forall>t<T. pend t \<noteq> Some r)) \<and>
     list_all2 (\<lambda>r q. (\<exists>t. K r = {t} \<and> q = sk t r) \<or> multi N K r \<and> Qg r (K r) q) qs (queries s)"

definition exec_inv :: "nat \<Rightarrow> nat \<Rightarrow> nat set \<Rightarrow> (nat \<Rightarrow> nat set) \<Rightarrow> (nat \<Rightarrow> nat) \<Rightarrow>
    (nat \<Rightarrow> (kind \<times> nat) list) \<Rightarrow> (nat \<Rightarrow> nat \<Rightarrow> 'g Sketch) \<Rightarrow> (nat \<Rightarrow> nat set \<Rightarrow> 'g Sketch \<Rightarrow> bool) \<Rightarrow>
    'g round_state \<Rightarrow> bool" where
  "exec_inv T ng N K gid items sk Qg s \<longleftrightarrow> (\<exists>pos pend qs.
     inv_progs T K gid items sk s pos pend \<and> inv_glob ng N K gid Qg s (did items pos) \<and>
     inv_pend T N K (did items pos) pend \<and> inv_queries T N K sk Qg s (did items pos) pend qs)"

lemma did_step:
  assumes "distinct (items t)" "drop (pos t) (items t) = x # xs"
  shows "did items (pos(t := Suc (pos t))) = (did items pos)(t := insert x (did items pos t))"
    and "x \<notin> did items pos t" and "x \<in> set (items t)" and "drop (Suc (pos t)) (items t) = xs"
proof -
  have len: "pos t < length (items t)" and x: "x = items t ! pos t"
    using assms(2) by (metis drop_eq_Nil list.distinct(1) not_less, metis hd_drop_conv_nth
      drop_eq_Nil list.distinct(1) list.sel(1) not_less)
  have tk: "take (Suc (pos t)) (items t) = take (pos t) (items t) @ [x]"
    using len x by (simp add: take_Suc_conv_app_nth)
  show "did items (pos(t := Suc (pos t))) = (did items pos)(t := insert x (did items pos t))"
    by (auto simp: did_def tk fun_eq_iff)
  have "distinct (take (Suc (pos t)) (items t))" using assms(1) by (rule distinct_take)
  then show "x \<notin> did items pos t" by (simp add: did_def tk)
  show "x \<in> set (items t)" using len x by simp
  show "drop (Suc (pos t)) (items t) = xs" using assms(2) by (metis drop_Suc list.sel(3) tl_drop)
qed

lemma merged_by_insert:
  "merged_by K (dn(t := insert x (dn t))) r =
     (if x = (Mrg, r) \<and> t \<in> K r then insert t (merged_by K dn r) else merged_by K dn r)"
  by (auto simp: merged_by_def)


lemma did_subset: "did items pos t \<subseteq> set (items t)"
  by (auto simp: did_def dest: in_set_takeD)

lemma no_Loc_multi:
  assumes "round_plan T ng N K gid items" "multi N K r" "t < T"
  shows "(Loc, r) \<notin> did items pos t"
  using assms round_planD(8) [OF assms(1), of t r] did_subset [of items pos t] by (auto simp: multi_def)

lemma exec_query_global:
  assumes "round_plan T ng N K gid items" "t < T" "pend t = Some r"
    and "inv_progs T K gid items sk s pos pend" "inv_glob ng N K gid Qg s (did items pos)"
    and "inv_pend T N K (did items pos) pend" "inv_queries T N K sk Qg s (did items pos) pend qs"
  shows "exec_inv T ng N K gid items sk Qg (exec_action k t s)"
proof -
  let ?dn = "did items pos" and ?pend = "pend(t := None)"
  have p: "progs s ! t = QueryGlobal (gid r) # map (act K gid sk t) (drop (pos t) (items t))"
    and len: "length (progs s) = T" using assms(2,3,4) by (auto simp: inv_progs_def)
  have m: "multi N K r" "merged_by K ?dn r = K r" and uniq: "\<And>t'. t' < T \<Longrightarrow> pend t' = Some r \<Longrightarrow> t' = t"
    using assms(2,3,6) by (auto simp: inv_pend_def)
  have e: "exec_action k t s = s\<lparr>progs := (progs s)[t := map (act K gid sk t) (drop (pos t) (items t))],
      queries := queries s @ [gsketch (gmerges s ! gid r)]\<rparr>"
    using p len assms(2) by (simp add: exec_action_def)
  have "inv_progs T K gid items sk (exec_action k t s) pos ?pend"
    using assms(2,4) by (auto simp: e inv_progs_def nth_list_update)
  moreover have "inv_glob ng N K gid Qg (exec_action k t s) ?dn"
    using assms(5) by (simp add: e inv_glob_def)
  moreover have "inv_pend T N K ?dn ?pend" using assms(6) by (simp add: inv_pend_def)
  moreover have "inv_queries T N K sk Qg (exec_action k t s) ?dn ?pend (qs @ [r])"
  proof -
    have q: "r' \<in> set qs \<longleftrightarrow> r' \<in> N \<and> (\<exists>t<T. (Loc, r') \<in> ?dn t) \<or>
        multi N K r' \<and> merged_by K ?dn r' = K r' \<and> (\<forall>t<T. pend t \<noteq> Some r')" for r'
      using assms(7) by (simp add: inv_queries_def)
    have "r \<notin> set qs" using q [of r] assms(2,3) no_Loc_multi [OF assms(1) m(1)] by auto
    moreover have "r' \<in> set (qs @ [r]) \<longleftrightarrow> r' \<in> N \<and> (\<exists>t<T. (Loc, r') \<in> ?dn t) \<or>
        multi N K r' \<and> merged_by K ?dn r' = K r' \<and> (\<forall>t<T. ?pend t \<noteq> Some r')" for r'
    proof (cases "r' = r")
      case True
      then show ?thesis using m uniq by auto
    next
      case False
      then have "?pend u \<noteq> Some r' \<longleftrightarrow> pend u \<noteq> Some r'" for u using assms(3) by auto
      with False show ?thesis using q [of r'] by simp
    qed
    moreover have "Qg r (K r) (gsketch (gmerges s ! gid r))"
      using assms(5) m(1) m(2) [symmetric] unfolding inv_glob_def by metis
    ultimately show ?thesis
      using assms(7) m(1) by (simp add: inv_queries_def e list_all2_appendI)
  qed
  ultimately show ?thesis unfolding exec_inv_def by blast
qed

lemma exec_item_parts:
  assumes "round_plan T ng N K gid items" "t < T" "pend t = None"
    and "drop (pos t) (items t) = x # xs"
    and "inv_progs T K gid items sk s pos pend" "inv_pend T N K (did items pos) pend"
    and "progs s' = (progs s)[t := map (act K gid sk t) xs]"
  shows "inv_progs T K gid items sk s' (pos(t := Suc (pos t))) pend"
    and "inv_pend T N K (did items (pos(t := Suc (pos t)))) pend"
proof -
  note d = did_step [where items = items and pos = pos, OF round_planD(7) [OF assms(1,2)] assms(4)]
  show "inv_progs T K gid items sk s' (pos(t := Suc (pos t))) pend"
    using assms(2,3,5,7) d(4) by (auto simp: inv_progs_def nth_list_update)
  have "merged_by K (did items (pos(t := Suc (pos t)))) r = K r" if "merged_by K (did items pos) r = K r" for r
    using that unfolding d(1) merged_by_insert by auto
  then show "inv_pend T N K (did items (pos(t := Suc (pos t)))) pend"
    using assms(6) by (auto simp: inv_pend_def)
qed

lemma exec_loc:
  assumes "round_plan T ng N K gid items" "t < T" "pend t = None"
    and "drop (pos t) (items t) = (Loc, r) # xs"
    and "inv_progs T K gid items sk s pos pend" "inv_glob ng N K gid Qg s (did items pos)"
    and "inv_pend T N K (did items pos) pend" "inv_queries T N K sk Qg s (did items pos) pend qs"
  shows "exec_inv T ng N K gid items sk Qg (exec_action k t s)"
proof -
  let ?dn = "did items pos" and ?pos = "pos(t := Suc (pos t))"
  note d = did_step [where items = items and pos = pos, OF round_planD(7) [OF assms(1,2)] assms(4)]
  have r: "r \<in> N" "K r = {t}" using d(3) round_planD(8) [OF assms(1,2)] by auto
  have nm: "\<not> multi N K r" using r by (simp add: multi_def)
  have p: "progs s ! t = QueryLocal (sk t r) # map (act K gid sk t) xs" and len: "length (progs s) = T"
    using assms(2-5) by (auto simp: inv_progs_def act_def)
  have e: "exec_action k t s = s\<lparr>progs := (progs s)[t := map (act K gid sk t) xs],
      queries := queries s @ [sk t r]\<rparr>"
    using p len assms(2) by (simp add: exec_action_def)
  have mb: "merged_by K (did items ?pos) = merged_by K ?dn"
    unfolding d(1) by (rule ext) (simp add: merged_by_insert)
  note parts = exec_item_parts [OF assms(1-5,7), of "exec_action k t s"]
  have "inv_glob ng N K gid Qg (exec_action k t s) (did items ?pos)"
    using assms(6) unfolding inv_glob_def mb unfolding d(1) by (simp add: e)
  moreover have "inv_queries T N K sk Qg (exec_action k t s) (did items ?pos) pend (qs @ [r])"
  proof -
    have q: "r' \<in> set qs \<longleftrightarrow> r' \<in> N \<and> (\<exists>t<T. (Loc, r') \<in> ?dn t) \<or>
        multi N K r' \<and> merged_by K ?dn r' = K r' \<and> (\<forall>t<T. pend t \<noteq> Some r')" for r'
      using assms(8) by (simp add: inv_queries_def)
    have "(Loc, r) \<notin> ?dn u" if "u < T" for u
    proof (cases "u = t")
      case False
      then show ?thesis
        using r that round_planD(8) [OF assms(1) that, of r] did_subset [of items pos u] by auto
    qed (use d(2) in simp)
    then have "r \<notin> set qs" using q [of r] nm by blast
    moreover have "r' \<in> set (qs @ [r]) \<longleftrightarrow> r' \<in> N \<and> (\<exists>u<T. (Loc, r') \<in> did items ?pos u) \<or>
        multi N K r' \<and> merged_by K (did items ?pos) r' = K r' \<and> (\<forall>t<T. pend t \<noteq> Some r')" for r'
      unfolding mb unfolding d(1) using q [of r'] r assms(2) nm by (cases "r' = r") auto
    ultimately show ?thesis
      using assms(8) r by (simp add: inv_queries_def e list_all2_appendI)
  qed
  ultimately show ?thesis using parts e unfolding exec_inv_def by auto
qed

lemma exec_need:
  assumes "round_plan T ng N K gid items" "t < T" "pend t = None"
    and "drop (pos t) (items t) = (Need, r) # xs"
    and "inv_progs T K gid items sk s pos pend" "inv_glob ng N K gid Qg s (did items pos)"
    and "inv_pend T N K (did items pos) pend" "inv_queries T N K sk Qg s (did items pos) pend qs"
  shows "exec_inv T ng N K gid items sk Qg (exec_action k t s)"
proof -
  let ?dn = "did items pos" and ?pos = "pos(t := Suc (pos t))"
  note d = did_step [where items = items and pos = pos, OF round_planD(7) [OF assms(1,2)] assms(4)]
  have r: "multi N K r" "t = Min (K r)" using d(3) round_planD(10) [OF assms(1,2)] by auto
  have p: "progs s ! t = SetNeeded (gid r) (card (K r)) # map (act K gid sk t) xs"
    and len: "length (progs s) = T" using assms(2-5) by (auto simp: inv_progs_def act_def)
  let ?g = "(gmerges s ! gid r)\<lparr>num_merge_needed := card (K r)\<rparr>"
  have e: "exec_action k t s = s\<lparr>progs := (progs s)[t := map (act K gid sk t) xs],
      gmerges := (gmerges s)[gid r := ?g]\<rparr>"
    using p len assms(2) by (simp add: exec_action_def)
  have mb: "merged_by K (did items ?pos) = merged_by K ?dn"
    unfolding d(1) by (rule ext) (simp add: merged_by_insert)
  have loc: "(Loc, r') \<in> did items ?pos u \<longleftrightarrow> (Loc, r') \<in> ?dn u" for u r'
    unfolding d(1) by auto
  note parts = exec_item_parts [OF assms(1-5,7), of "exec_action k t s"]
  have ng: "length (gmerges s) = ng" "gid r < ng"
    using assms(6) r round_planD(6) [OF assms(1)] by (auto simp: inv_glob_def)
  have "inv_glob ng N K gid Qg (exec_action k t s) (did items ?pos)"
    unfolding inv_glob_def
  proof (intro conjI allI impI)
    fix r' assume m: "multi N K r'"
    have i: "num_merge_done (gmerges s ! gid r') = card (merged_by K ?dn r')"
      "num_merge_needed (gmerges s ! gid r') = (if (Need, r') \<in> ?dn (Min (K r')) then card (K r') else size_max)"
      "Qg r' (merged_by K ?dn r') (gsketch (gmerges s ! gid r'))"
      using assms(6) m by (auto simp: inv_glob_def)
    have ne: "r' \<noteq> r \<Longrightarrow> gid r' \<noteq> gid r" using round_planD(5) [OF assms(1) m r(1)] by blast
    have g: "gmerges (exec_action k t s) = (gmerges s)[gid r := ?g]" by (simp add: e)
    show "num_merge_done (gmerges (exec_action k t s) ! gid r') = card (merged_by K (did items ?pos) r')"
      "Qg r' (merged_by K (did items ?pos) r') (gsketch (gmerges (exec_action k t s) ! gid r'))"
      unfolding mb g using i(1,3) ng ne by (cases "r' = r"; simp)+
    show "num_merge_needed (gmerges (exec_action k t s) ! gid r') =
        (if (Need, r') \<in> did items ?pos (Min (K r')) then card (K r') else size_max)"
      unfolding d(1) g using i(2) ng ne r(2) by (cases "r' = r") auto
  qed (use ng e in simp)
  moreover have "inv_queries T N K sk Qg (exec_action k t s) (did items ?pos) pend qs"
    using assms(8) unfolding inv_queries_def mb loc by (simp add: e)
  ultimately show ?thesis using parts e unfolding exec_inv_def by auto
qed


lemma exec_mrg:
  assumes "round_plan T ng N K gid items" "t < T" "pend t = None"
    and "drop (pos t) (items t) = (Mrg, r) # xs"
    and "inv_progs T K gid items sk s pos pend" "inv_glob ng N K gid Qg s (did items pos)"
    and "inv_pend T N K (did items pos) pend" "inv_queries T N K sk Qg s (did items pos) pend qs"
    and Qg: "\<And>r D u g. multi N K r \<Longrightarrow> D \<subseteq> K r \<Longrightarrow> u \<in> K r - D \<Longrightarrow> Qg r D g \<Longrightarrow>
      Qg r (insert u D) (Sketch_range_merge g (sk u r) k 1)"
  shows "exec_inv T ng N K gid items sk Qg (exec_action k t s)"
proof -
  let ?dn = "did items pos" and ?pos = "pos(t := Suc (pos t))"
  note d = did_step [where items = items and pos = pos, OF round_planD(7) [OF assms(1,2)] assms(4)]
  have r: "multi N K r" "t \<in> K r" using d(3) round_planD(9) [OF assms(1,2)] by auto
  then have rN: "r \<in> N" and finK: "finite (K r)" using round_planD(1) [OF assms(1)] by (auto simp: multi_def)
  let ?D = "merged_by K ?dn r"
  have D: "?D \<subseteq> K r" "t \<in> K r - ?D" using d(2) r(2) by (auto simp: merged_by_def)
  have mb: "merged_by K (did items ?pos) r' = (if r' = r then insert t ?D else merged_by K ?dn r')" for r'
    unfolding d(1) using r(2) by (auto simp: merged_by_insert)
  have need: "(Need, r') \<in> did items ?pos u \<longleftrightarrow> (Need, r') \<in> ?dn u"
    and loc: "(Loc, r') \<in> did items ?pos u \<longleftrightarrow> (Loc, r') \<in> ?dn u" for u r'
    unfolding d(1) by auto
  have i: "num_merge_done (gmerges s ! gid r) = card ?D"
    "num_merge_needed (gmerges s ! gid r) = (if (Need, r) \<in> ?dn (Min (K r)) then card (K r) else size_max)"
    "Qg r ?D (gsketch (gmerges s ! gid r))"
    using assms(6) r by (auto simp: inv_glob_def)
  have cardD: "card (insert t ?D) = Suc (card ?D)" "card (insert t ?D) \<le> card (K r)"
    using D finite_subset [OF D(1) finK] card_mono [OF finK, of "insert t ?D"] by auto
  obtain ready g where g: "merge_global k (sk t r) (gmerges s ! gid r) = (ready, g)" by fastforce
  have g': "gsketch g = Sketch_range_merge (gsketch (gmerges s ! gid r)) (sk t r) k 1"
    "num_merge_needed g = num_merge_needed (gmerges s ! gid r)" "num_merge_done g = Suc (card ?D)"
    and ready: "ready \<longleftrightarrow> Suc (card ?D) \<ge> num_merge_needed (gmerges s ! gid r)"
    using g i(1) by (auto simp: merge_global_def Let_def)
  have ready': "ready \<longleftrightarrow> insert t ?D = K r"
  proof
    assume ready
    then have "card (K r) \<le> card (insert t ?D)"
      using ready i(2) cardD round_planD(4) [OF assms(1) rN] by (auto split: if_splits)
    then show "insert t ?D = K r" using D finK by (intro card_subset_eq) (auto intro: antisym cardD)
  next
    assume K: "insert t ?D = K r"
    have "K r \<noteq> {}" using r(2) by blast
    moreover from this have "Min (K r) < T"
      using round_planD(3) [OF assms(1) rN] Min_in [OF finK] by blast
    ultimately have "K r \<noteq> {}" "Min (K r) < T" by blast+
    then have "(Mrg, r) \<in> did items ?pos (Min (K r))"
      using K Min_in [OF finK] d(1) by (auto simp: merged_by_def fun_upd_def)
    then have "(Need, r) \<in> did items ?pos (Min (K r))"
      using round_planD(11) [OF assms(1) \<open>Min (K r) < T\<close>] by (auto simp: did_def)
    then have "num_merge_needed (gmerges s ! gid r) = card (K r)" using i(2) need by simp
    with ready K cardD show ready by simp
  qed
  have p: "progs s ! t = MergeGlobal (gid r) (sk t r) # map (act K gid sk t) xs"
    and len: "length (progs s) = T" using assms(2-5) by (auto simp: inv_progs_def act_def)
  let ?pend = "if ready then pend(t := Some r) else pend"
  have e: "exec_action k t s = s\<lparr>progs := (progs s)[t :=
        (if ready then QueryGlobal (gid r) # map (act K gid sk t) xs else map (act K gid sk t) xs)],
      gmerges := (gmerges s)[gid r := g]\<rparr>"
    using p len assms(2) g by (simp add: exec_action_def)
  have "inv_progs T K gid items sk (exec_action k t s) ?pos ?pend"
    using assms(2,3,5) d(4) by (auto simp: e inv_progs_def nth_list_update)
  moreover have ng: "length (gmerges s) = ng" "gid r < ng"
    using assms(6) r round_planD(6) [OF assms(1)] by (auto simp: inv_glob_def)
  have "inv_glob ng N K gid Qg (exec_action k t s) (did items ?pos)"
    unfolding inv_glob_def
  proof (intro conjI allI impI)
    fix r' assume m: "multi N K r'"
    have i': "num_merge_done (gmerges s ! gid r') = card (merged_by K ?dn r')"
      "num_merge_needed (gmerges s ! gid r') = (if (Need, r') \<in> ?dn (Min (K r')) then card (K r') else size_max)"
      "Qg r' (merged_by K ?dn r') (gsketch (gmerges s ! gid r'))"
      using assms(6) m by (auto simp: inv_glob_def)
    have ne: "r' \<noteq> r \<Longrightarrow> gid r' \<noteq> gid r" using round_planD(5) [OF assms(1) m r(1)] by blast
    have gm: "gmerges (exec_action k t s) = (gmerges s)[gid r := g]" by (simp add: e)
    show "num_merge_done (gmerges (exec_action k t s) ! gid r') = card (merged_by K (did items ?pos) r')"
      unfolding mb gm using i'(1) ng ne g'(3) cardD(1) by (cases "r' = r") auto
    show "Qg r' (merged_by K (did items ?pos) r') (gsketch (gmerges (exec_action k t s) ! gid r'))"
      unfolding mb gm using i'(3) ng ne g'(1) Qg [OF r(1) D i(3)] by (cases "r' = r") auto
    show "num_merge_needed (gmerges (exec_action k t s) ! gid r') =
        (if (Need, r') \<in> did items ?pos (Min (K r')) then card (K r') else size_max)"
      unfolding need gm using i'(2) ng ne g'(2) by (cases "r' = r") auto
  qed (use ng e in simp)
  moreover have notfull: "?D \<noteq> K r" using D by blast
  then have nopend: "pend u \<noteq> Some r" if "u < T" for u
    using assms(7) that by (auto simp: inv_pend_def)
  have "inv_pend T N K (did items ?pos) ?pend"
    using assms(7) nopend r(1) ready' unfolding inv_pend_def mb by auto
  moreover have "inv_queries T N K sk Qg (exec_action k t s) (did items ?pos) ?pend qs"
  proof -
    have "multi N K r' \<and> merged_by K (did items ?pos) r' = K r' \<and> (\<forall>u<T. ?pend u \<noteq> Some r') \<longleftrightarrow>
        multi N K r' \<and> merged_by K ?dn r' = K r' \<and> (\<forall>u<T. pend u \<noteq> Some r')" for r'
    proof (cases "r' = r")
      case True
      then show ?thesis unfolding mb using notfull ready' assms(2) by auto
    next
      case False
      then have "?pend u \<noteq> Some r' \<longleftrightarrow> pend u \<noteq> Some r'" for u using assms(3) by auto
      with False show ?thesis unfolding mb by simp
    qed
    then show ?thesis using assms(8) unfolding inv_queries_def loc by (simp add: e)
  qed
  ultimately show ?thesis unfolding exec_inv_def by blast
qed


lemma exec_action_inv:
  assumes "round_plan T ng N K gid items" "exec_inv T ng N K gid items sk Qg s"
    and "\<And>r D u g. multi N K r \<Longrightarrow> D \<subseteq> K r \<Longrightarrow> u \<in> K r - D \<Longrightarrow> Qg r D g \<Longrightarrow>
      Qg r (insert u D) (Sketch_range_merge g (sk u r) k 1)"
  shows "exec_inv T ng N K gid items sk Qg (exec_action k t s)"
proof -
  obtain pos pend qs where i: "inv_progs T K gid items sk s pos pend"
    "inv_glob ng N K gid Qg s (did items pos)" "inv_pend T N K (did items pos) pend"
    "inv_queries T N K sk Qg s (did items pos) pend qs"
    using assms(2) unfolding exec_inv_def by blast
  have len: "length (progs s) = T" using i(1) by (simp add: inv_progs_def)
  consider "\<not> t < T" | r where "t < T" "pend t = Some r"
    | "t < T" "pend t = None" "drop (pos t) (items t) = []"
    | kd r xs where "t < T" "pend t = None" "drop (pos t) (items t) = (kd, r) # xs"
    by (cases "pend t"; cases "drop (pos t) (items t)") auto
  then show ?thesis
  proof cases
    case 1
    then show ?thesis using assms(2) len by (simp add: exec_action_def)
  next
    case (2 r)
    then show ?thesis using exec_query_global [OF assms(1)] i by blast
  next
    case 3
    then have "progs s ! t = []" using i(1) by (simp add: inv_progs_def)
    then have "exec_action k t s = s" by (simp add: exec_action_def)
    then show ?thesis using assms(2) by simp
  next
    case (4 kd r xs)
    then show ?thesis
      using exec_loc [OF assms(1) _ _ _ i] exec_need [OF assms(1) _ _ _ i]
        exec_mrg [OF assms(1) _ _ _ i assms(3)]
      by (cases kd) auto
  qed
qed

lemma run_round_queries:
  assumes plan: "round_plan T ng N K gid items"
    and init: "progs s = map (\<lambda>t. map (act K gid sk t) (items t)) [0..<T]" "queries s = []"
      "length (gmerges s) = ng"
      "\<And>g. g \<in> set (gmerges s) \<Longrightarrow> num_merge_done g = 0 \<and> num_merge_needed g = size_max"
      "\<And>r. multi N K r \<Longrightarrow> Qg r {} (gsketch (gmerges s ! gid r))"
    and Qg: "\<And>r D u g. multi N K r \<Longrightarrow> D \<subseteq> K r \<Longrightarrow> u \<in> K r - D \<Longrightarrow> Qg r D g \<Longrightarrow>
      Qg r (insert u D) (Sketch_range_merge g (sk u r) k 1)"
  shows "\<exists>qs. distinct qs \<and> set qs = N \<and>
    list_all2 (\<lambda>r q. (\<exists>t. K r = {t} \<and> q = sk t r) \<or> multi N K r \<and> Qg r (K r) q) qs
      (queries (run_round k sched s))"
proof -
  have "exec_inv T ng N K gid items sk Qg s"
  proof -
    have dn: "did items (\<lambda>_. 0) = (\<lambda>_. {})" by (simp add: did_def fun_eq_iff)
    have mb: "merged_by K (\<lambda>_. {}) r = {}" for r by (simp add: merged_by_def)
    have "inv_progs T K gid items sk s (\<lambda>_. 0) (\<lambda>_. None)" using init by (simp add: inv_progs_def)
    moreover have "inv_glob ng N K gid Qg s (did items (\<lambda>_. 0))"
      using init round_planD(6) [OF plan] unfolding dn inv_glob_def mb by auto
    moreover have "inv_pend T N K (did items (\<lambda>_. 0)) (\<lambda>_. None)" by (simp add: inv_pend_def)
    moreover have "inv_queries T N K sk Qg s (did items (\<lambda>_. 0)) (\<lambda>_. None) []"
      using init round_planD(2) [OF plan] unfolding dn inv_queries_def mb by (auto simp: multi_def)
    ultimately show ?thesis unfolding exec_inv_def by blast
  qed
  then have "exec_inv T ng N K gid items sk Qg (fold (exec_action k) ts s)" for ts
    by (induction ts arbitrary: s) (auto intro!: exec_action_inv [OF plan] Qg)
  then have "exec_inv T ng N K gid items sk Qg (run_round k sched s)"
    unfolding run_round_def .
  then obtain pos pend qs where i: "inv_progs T K gid items sk (run_round k sched s) pos pend"
    "inv_queries T N K sk Qg (run_round k sched s) (did items pos) pend qs"
    unfolding exec_inv_def by blast
  have fin: "pend t = None" "did items pos t = set (items t)" if "t < T" for t
  proof -
    have "progs (run_round k sched s) ! t = []"
      using init(1) that by (intro run_round_finishes) simp
    then have "pend t = None" "drop (pos t) (items t) = []"
      using i(1) that by (auto simp: inv_progs_def split: option.splits)
    then show "pend t = None" "did items pos t = set (items t)" by (auto simp: did_def)
  qed
  have "r \<in> set qs \<longleftrightarrow> r \<in> N" for r
  proof -
    have q: "r \<in> set qs \<longleftrightarrow> r \<in> N \<and> (\<exists>t<T. (Loc, r) \<in> did items pos t) \<or>
        multi N K r \<and> merged_by K (did items pos) r = K r \<and> (\<forall>t<T. pend t \<noteq> Some r)"
      using i(2) by (simp add: inv_queries_def)
    show ?thesis
    proof (cases "multi N K r")
      case True
      then have rN: "r \<in> N" by (simp add: multi_def)
      have "merged_by K (did items pos) r = K r"
        using round_planD(3) [OF plan rN] round_planD(9) [OF plan] fin True
        by (auto simp: merged_by_def)
      with q True rN fin show ?thesis by auto
    next
      case False
      have "\<exists>t<T. K r = {t}" if "r \<in> N"
      proof -
        have "card (K r) = 1"
          using that False round_planD(1,2) [OF plan that] card_0_eq [of "K r"]
          by (auto simp: multi_def not_le less_2_cases_iff)
        then show ?thesis using round_planD(3) [OF plan that] by (auto simp: card_1_singleton_iff)
      qed
      with q False show ?thesis using round_planD(8) [OF plan] fin by auto
    qed
  qed
  then have "set qs = N" by blast
  with i(2) show ?thesis by (auto simp: inv_queries_def)
qed

end
