(* ===== verification/Connectivity.thy ===== *)
theory Connectivity
  imports Prelude
begin

text \<open>
  Connectivity of undirected graphs: \<open>econn E\<close> is the equivalence generated by a set of edges.
  The specification of union-find, of the component queries and of spanning forests.
\<close>

type_synonym edges = "(nat \<times> nat) set"

definition econn :: "edges \<Rightarrow> nat \<Rightarrow> nat \<Rightarrow> bool" where
  "econn E x y \<longleftrightarrow> (x, y) \<in> (E \<union> E\<inverse>)\<^sup>*"

lemma econn_refl [simp, intro]: "econn E x x"
  by (simp add: econn_def)

lemma econn_sym: "econn E x y \<Longrightarrow> econn E y x"
  unfolding econn_def by (metis converse_Un converse_converse rtrancl_converseI sup_commute)

lemma econn_commute: "econn E x y \<longleftrightarrow> econn E y x"
  using econn_sym by blast

lemma econn_trans [trans]: "econn E x y \<Longrightarrow> econn E y z \<Longrightarrow> econn E x z"
  unfolding econn_def by (rule rtrancl_trans)

lemma econn_edge: "(x, y) \<in> E \<Longrightarrow> econn E x y"
  by (auto simp: econn_def)

lemma econn_induct [consumes 1, case_names refl edge]:
  assumes "econn E x y"
    and "\<And>x. P x x"
    and "\<And>x y z. econn E x y \<Longrightarrow> P x y \<Longrightarrow> (y, z) \<in> E \<or> (z, y) \<in> E \<Longrightarrow> P x z"
  shows "P x y"
  using assms(1) unfolding econn_def
proof (induction rule: rtrancl_induct)
  case (step y z)
  then show ?case using assms(3) [of x y z] by (auto simp: econn_def)
qed (rule assms(2))

lemma econn_mono: "econn E x y \<Longrightarrow> E \<subseteq> F \<Longrightarrow> econn F x y"
  unfolding econn_def by (meson Un_mono converse_mono in_mono rtrancl_mono)

lemma econn_subset:
  assumes "econn E x y" "\<And>u v. (u, v) \<in> E \<Longrightarrow> econn F u v"
  shows "econn F x y"
  using assms(1)
proof (induction rule: econn_induct)
  case (edge x y z)
  then show ?case using assms(2) econn_sym econn_trans by blast
qed simp

lemma econn_eqI:
  assumes "\<And>u v. (u, v) \<in> E \<Longrightarrow> econn F u v" "\<And>u v. (u, v) \<in> F \<Longrightarrow> econn E u v"
  shows "econn E = econn F"
  using econn_subset [of E _ _ F] econn_subset [of F _ _ E] assms by (intro ext) blast

lemma econn_empty [simp]: "econn {} x y \<longleftrightarrow> x = y"
  by (auto simp: econn_def)

lemma econn_insert:
  "econn (insert (u, v) E) x y \<longleftrightarrow>
     econn E x y \<or> econn E x u \<and> econn E v y \<or> econn E x v \<and> econn E u y"
    (is "?l x y \<longleftrightarrow> ?r x y")
proof
  assume "?l x y" then show "?r x y"
  proof (induction rule: econn_induct)
    case (edge x y z)
    then have "?r x y" and "econn E y z \<or> y = u \<and> z = v \<or> y = v \<and> z = u"
      using econn_edge econn_sym by auto
    then show ?case using econn_trans econn_refl by metis
  qed simp
next
  have m: "econn E x y \<Longrightarrow> ?l x y" for x y by (rule econn_mono) auto
  have e: "?l u v" by (rule econn_edge) simp
  assume "?r x y"
  then show "?l x y" using m e econn_sym [OF e] econn_trans by metis
qed

lemma econn_closed:
  assumes "econn E x y" "x \<in> A" "\<And>u v. (u, v) \<in> E \<Longrightarrow> u \<in> A \<longleftrightarrow> v \<in> A"
  shows "y \<in> A"
proof -
  have "x \<in> A \<longrightarrow> y \<in> A" using assms(1)
    by (induction rule: econn_induct) (use assms(3) in blast)+
  then show ?thesis using assms(2) by blast
qed

lemma econn_bound:
  assumes "econn E x y" "E \<subseteq> {..<n} \<times> {..<n}" "x < n"
  shows "y < n"
  using econn_closed [OF assms(1), of "{..<n}"] assms(2,3) by auto

section \<open>Forests\<close>

text \<open>No edge closes a cycle: without it its ends are not connected.\<close>

definition acyclic_edges :: "edges \<Rightarrow> bool" where
  "acyclic_edges F \<longleftrightarrow> (\<forall>u v. (u, v) \<in> F \<longrightarrow> \<not> econn (F - {(u, v)}) u v)"

definition spanning_forest_of :: "edges \<Rightarrow> edges \<Rightarrow> bool" where
  "spanning_forest_of E F \<longleftrightarrow> F \<subseteq> E \<and> acyclic_edges F \<and> econn F = econn E"

lemma acyclic_empty [simp]: "acyclic_edges {}"
  by (simp add: acyclic_edges_def)

lemma acyclic_insert:
  assumes "acyclic_edges F" "\<not> econn F u v"
  shows "acyclic_edges (insert (u, v) F)"
  unfolding acyclic_edges_def
proof (intro allI impI)
  fix a b assume ab: "(a, b) \<in> insert (u, v) F"
  show "\<not> econn (insert (u, v) F - {(a, b)}) a b"
  proof (cases "(a, b) = (u, v)")
    case True
    then have "insert (u, v) F - {(a, b)} \<subseteq> F" by auto
    then show ?thesis using assms(2) True econn_mono by blast
  next
    case False
    let ?F = "F - {(a, b)}"
    have F: "(a, b) \<in> F" "insert (u, v) F - {(a, b)} = insert (u, v) ?F" using ab False by auto
    have no: "\<not> econn ?F a b" using assms(1) F by (simp add: acyclic_edges_def)
    have up: "econn ?F x y \<Longrightarrow> econn F x y" for x y by (rule econn_mono) auto
    have e: "econn F a b" using F econn_edge by blast
    show ?thesis
      unfolding F(2) econn_insert using no up e assms(2) econn_sym econn_trans by metis
  qed
qed


lemma econn_redundant:
  assumes "econn E u v"
  shows "econn (insert (u, v) E) = econn E"
proof (rule econn_eqI)
  fix x y assume "(x, y) \<in> insert (u, v) E"
  then show "econn E x y" using assms econn_edge by auto
qed (simp add: econn_edge)

lemma econn_insert_cong: "econn E = econn F \<Longrightarrow> econn (insert (u, v) E) = econn (insert (u, v) F)"
  by (intro ext) (simp add: econn_insert)

lemma spanning_forest_insert:
  assumes "spanning_forest_of E F"
  shows "\<not> econn E u v \<Longrightarrow> spanning_forest_of (insert (u, v) E) (insert (u, v) F)"
    and "econn E u v \<Longrightarrow> spanning_forest_of (insert (u, v) E) F"
proof -
  have F: "F \<subseteq> E" "acyclic_edges F" "econn F = econn E" using assms by (auto simp: spanning_forest_of_def)
  show "\<not> econn E u v \<Longrightarrow> spanning_forest_of (insert (u, v) E) (insert (u, v) F)"
    using F acyclic_insert [OF F(2), of u v] econn_insert_cong [OF F(3), of u v]
    by (simp add: spanning_forest_of_def subset_insertI2)
  show "econn E u v \<Longrightarrow> spanning_forest_of (insert (u, v) E) F"
    using F econn_redundant [of E u v] by (simp add: spanning_forest_of_def subset_insertI2)
qed

end
