(* ===== verification/Graph_Ids.thy ===== *)
theory Graph_Ids
  imports Util Round_Exec Connectivity
begin

text \<open>
  Graphs as sets of edge ids, the way the sketches see them: the ids incident to a vertex, the
  cut of a set of vertices, and the edges as pairs. The XOR-sum of the sketches of a set of
  vertices stands for the cut of that set.
\<close>

definition graph_ids :: "nat \<Rightarrow> vec_t set \<Rightarrow> bool" where
  "graph_ids n E \<longleftrightarrow> finite E \<and> (\<forall>x\<in>E. \<exists>u v. x = edge_id u v \<and> u < v \<and> v < n)"

definition incident :: "vec_t set \<Rightarrow> nat \<Rightarrow> vec_t set" where
  "incident E v = {x \<in> E. fst (edge_of x) = v \<or> snd (edge_of x) = v}"

definition edge_cut :: "vec_t set \<Rightarrow> nat set \<Rightarrow> vec_t set" where
  "edge_cut E A = {x \<in> E. fst (edge_of x) \<in> A \<longleftrightarrow> snd (edge_of x) \<notin> A}"

definition edges_of :: "vec_t set \<Rightarrow> edges" where
  "edges_of E = edge_of ` E"

lemma graph_ids_edge:
  assumes "graph_ids n E" "n \<le> 2 ^ 32" "x \<in> E"
  shows "fst (edge_of x) < snd (edge_of x)" "snd (edge_of x) < n" "fst (edge_of x) < n"
    "x = edge_id (fst (edge_of x)) (snd (edge_of x))"
proof -
  obtain u v where x: "x = edge_id u v" "u < v" "v < n" using assms by (auto simp: graph_ids_def)
  then have e: "edge_of x = (u, v)" using edge_of_edge_id [of u v] assms(2) by simp
  show "fst (edge_of x) < snd (edge_of x)" "snd (edge_of x) < n" "fst (edge_of x) < n"
    "x = edge_id (fst (edge_of x)) (snd (edge_of x))"
    using x e by auto
qed

lemma xset_incident:
  assumes "graph_ids n E" "n \<le> 2 ^ 32" "finite A"
  shows "xset (incident E) A = edge_cut E A"
proof -
  have "odd (card {v \<in> A. x \<in> incident E v}) \<longleftrightarrow> x \<in> edge_cut E A" for x
  proof (cases "x \<in> E")
    case True
    let ?u = "fst (edge_of x)" and ?v = "snd (edge_of x)"
    have ne: "?u \<noteq> ?v" using graph_ids_edge(1) [OF assms(1,2) True] by simp
    have "{v \<in> A. x \<in> incident E v} = {?u, ?v} \<inter> A" using True by (auto simp: incident_def)
    then have "card {v \<in> A. x \<in> incident E v} = (if ?u \<in> A then 1 else 0) + (if ?v \<in> A then 1 else 0)"
      using ne by simp
    then show ?thesis using True by (auto simp: edge_cut_def)
  qed (simp add: incident_def edge_cut_def)
  then show ?thesis by (auto simp: xset_def)
qed

lemma incident_sym_diff: "incident (sym_diff E D) v = sym_diff (incident E v) (incident D v)"
  by (auto simp: incident_def)

lemma incident_singleton:
  "incident {x} v = (if fst (edge_of x) = v \<or> snd (edge_of x) = v then {x} else {})"
  by (auto simp: incident_def)

lemma graph_ids_toggle:
  assumes "graph_ids n E" "u < n" "v < n" "u \<noteq> v"
  shows "graph_ids n (sym_diff E {edge_id u v})"
proof -
  have "\<exists>a b. edge_id u v = edge_id a b \<and> a < b \<and> b < n"
  proof (cases "u < v")
    case False
    then have "v < u" using assms(4) by simp
    then show ?thesis using assms(2) edge_id_commute [of u v] by blast
  qed (use assms(3) in blast)
  then show ?thesis using assms(1) by (auto simp: graph_ids_def)
qed

lemma edges_of_range:
  assumes "graph_ids n E" "n \<le> 2 ^ 32"
  shows "edges_of E \<subseteq> {..<n} \<times> {..<n}"
proof
  fix e assume "e \<in> edges_of E"
  then obtain x where "x \<in> E" "e = edge_of x" by (auto simp: edges_of_def)
  then show "e \<in> {..<n} \<times> {..<n}" using graph_ids_edge(2,3) [OF assms, of x] by (simp add: mem_Times_iff)
qed

text \<open>When no class of an equivalence has an edge leaving it, the edges stay inside the classes.\<close>

lemma no_cut_connected:
  assumes "graph_ids n E" "n \<le> 2 ^ 32"
    and "\<And>v. v < n \<Longrightarrow> edge_cut E {u. u < n \<and> f u = f v} = {}"
    and "(a, b) \<in> edges_of E"
  shows "f a = f b"
proof -
  obtain x where x: "x \<in> E" "edge_of x = (a, b)" using assms(4) by (auto simp: edges_of_def)
  then have ab: "a < n" "b < n" using graph_ids_edge [OF assms(1,2) x(1)] by auto
  have "x \<notin> edge_cut E {u. u < n \<and> f u = f a}" using assms(3) [OF ab(1)] by simp
  then show ?thesis using x ab by (auto simp: edge_cut_def)
qed

end
