(* ===== verification/Segments.thy ===== *)
theory Segments
  imports Round_Exec
begin

text \<open>
  The geometry behind a parallel round: an array sorted by component, cut into one segment per
  thread. \<open>rho i\<close> is the component of the element at position \<open>i\<close>; a component occupies an interval
  of positions, and the threads that hold a part of it are consecutive.
\<close>

definition seg_start :: "partition_fn \<Rightarrow> nat \<Rightarrow> nat \<Rightarrow> nat \<Rightarrow> nat" where
  "seg_start part n T t = fst (part n t T)"

definition seg_end :: "partition_fn \<Rightarrow> nat \<Rightarrow> nat \<Rightarrow> nat \<Rightarrow> nat" where
  "seg_end part n T t = snd (part n t T)"

definition holders :: "partition_fn \<Rightarrow> nat \<Rightarrow> nat \<Rightarrow> (nat \<Rightarrow> nat) \<Rightarrow> nat \<Rightarrow> nat set" where
  "holders part n T rho r =
     {t. t < T \<and> (\<exists>i. seg_start part n T t \<le> i \<and> i < seg_end part n T t \<and> rho i = r)}"

lemma seg_facts:
  assumes "partition_ok part n T"
  shows "0 < T" "seg_start part n T 0 = 0" "seg_end part n T (T - 1) = n"
    "t < T \<Longrightarrow> seg_start part n T t < seg_end part n T t"
    "Suc t < T \<Longrightarrow> seg_end part n T t = seg_start part n T (Suc t)"
    "t < T \<Longrightarrow> seg_start part n T t \<le> i \<Longrightarrow> i < seg_end part n T t \<Longrightarrow> get_partition_idx n i T = t"
  using assms by (auto simp: partition_ok_def seg_start_def seg_end_def)

lemma seg_mono:
  assumes "partition_ok part n T" "t < t'" "t' < T"
  shows "seg_end part n T t \<le> seg_start part n T t'"
  using assms(2,3)
proof (induction t')
  case (Suc t')
  show ?case
  proof (cases "t = t'")
    case False
    then have "seg_end part n T t \<le> seg_start part n T t'" using Suc by simp
    also have "\<dots> < seg_end part n T t'" using seg_facts(4) [OF assms(1)] Suc by simp
    also have "\<dots> = seg_start part n T (Suc t')" using seg_facts(5) [OF assms(1)] Suc by simp
    finally show ?thesis by simp
  qed (use seg_facts(5) [OF assms(1)] Suc in simp)
qed simp

lemma seg_end_le:
  assumes "partition_ok part n T" "t < T"
  shows "seg_end part n T t \<le> n"
proof (cases "t = T - 1")
  case False
  then have "seg_end part n T t \<le> seg_start part n T (T - 1)" using seg_mono [OF assms(1)] assms(2) by simp
  also have "\<dots> \<le> n" using seg_facts(3) [OF assms(1)] seg_facts(4) [OF assms(1), of "T - 1"] assms(2) by simp
  finally show ?thesis .
qed (use seg_facts(3) [OF assms(1)] in simp)

lemma seg_cover:
  assumes "partition_ok part n T" "i < n"
  shows "\<exists>t<T. seg_start part n T t \<le> i \<and> i < seg_end part n T t"
proof -
  have "\<exists>t<T. seg_start part n T t \<le> i \<and> i < seg_end part n T t"
    if "t < T" "i < seg_end part n T t" for t
    using that
  proof (induction t)
    case 0
    then show ?case using seg_facts(2) [OF assms(1)] by auto
  next
    case (Suc t)
    then show ?case using seg_facts(5) [OF assms(1), of t] by (cases "seg_start part n T (Suc t) \<le> i") auto
  qed
  from this [of "T - 1"] show ?thesis using assms(2) seg_facts(1,3) [OF assms(1)] by simp
qed

lemma holders_facts:
  assumes "partition_ok part n T"
  shows "finite (holders part n T rho r)" "holders part n T rho r \<subseteq> {..<T}"
    "i < n \<Longrightarrow> rho i = r \<Longrightarrow> get_partition_idx n i T \<in> holders part n T rho r"
proof -
  show sub: "holders part n T rho r \<subseteq> {..<T}" by (auto simp: holders_def)
  show "finite (holders part n T rho r)" by (rule finite_subset [OF sub]) simp
  assume "i < n" "rho i = r"
  then show "get_partition_idx n i T \<in> holders part n T rho r"
    using seg_cover [OF assms \<open>i < n\<close>] seg_facts(6) [OF assms] unfolding holders_def by blast
qed

text \<open>A thread that holds a part of a component is not its first holder exactly if the component
  enters its segment from the left.\<close>

definition from_left :: "partition_fn \<Rightarrow> nat \<Rightarrow> nat \<Rightarrow> (nat \<Rightarrow> nat) \<Rightarrow> nat \<Rightarrow> nat \<Rightarrow> bool" where
  "from_left part n T rho t r \<longleftrightarrow> rho (seg_start part n T t) = r \<and> 0 < seg_start part n T t \<and>
     rho (seg_start part n T t - 1) = rho (seg_start part n T t)"

definition exits_right :: "partition_fn \<Rightarrow> nat \<Rightarrow> nat \<Rightarrow> (nat \<Rightarrow> nat) \<Rightarrow> nat \<Rightarrow> nat \<Rightarrow> bool" where
  "exits_right part n T rho t r \<longleftrightarrow> rho (seg_end part n T t - 1) = r \<and> seg_end part n T t < n \<and>
     rho (seg_end part n T t - 1) = rho (seg_end part n T t)"

lemma from_left_iff:
  assumes ok: "partition_ok part n T" and mono: "\<And>i j. i \<le> j \<Longrightarrow> j < n \<Longrightarrow> rho i \<le> rho j"
    and t: "t \<in> holders part n T rho r"
  shows "from_left part n T rho t r \<longleftrightarrow> (\<exists>u < t. u \<in> holders part n T rho r)"
proof
  obtain i where i: "t < T" "seg_start part n T t \<le> i" "i < seg_end part n T t" "rho i = r"
    using t by (auto simp: holders_def)
  assume l: "from_left part n T rho t r"
  then have "t \<noteq> 0" using seg_facts(2) [OF ok] by (metis from_left_def less_irrefl)
  then obtain u where u: "t = Suc u" by (cases t) auto
  have "seg_end part n T u = seg_start part n T t" "seg_start part n T u < seg_end part n T u"
    using seg_facts(5) [OF ok, of u] seg_facts(4) [OF ok, of u] i(1) u by auto
  then have "u \<in> holders part n T rho r"
    using l i(1) u unfolding holders_def from_left_def
    by (auto intro!: exI [of _ "seg_start part n T t - 1"])
  then show "\<exists>u < t. u \<in> holders part n T rho r" using u by blast
next
  obtain i where i: "t < T" "seg_start part n T t \<le> i" "i < seg_end part n T t" "rho i = r"
    using t by (auto simp: holders_def)
  assume "\<exists>u < t. u \<in> holders part n T rho r"
  then obtain u j where u: "u < t" "seg_start part n T u \<le> j" "j < seg_end part n T u" "rho j = r"
    by (auto simp: holders_def)
  have s: "j < seg_start part n T t" using seg_mono [OF ok u(1) i(1)] u(3) by simp
  have n: "i < n" using seg_end_le [OF ok i(1)] i(3) by simp
  have "rho j \<le> rho (seg_start part n T t - 1)" "rho (seg_start part n T t - 1) \<le> rho (seg_start part n T t)"
    "rho (seg_start part n T t) \<le> rho i"
    using s i(2) n by (auto intro!: mono)
  then show "from_left part n T rho t r" using s i(4) u(4) by (auto simp: from_left_def)
qed

lemma exits_right_iff:
  assumes ok: "partition_ok part n T" and mono: "\<And>i j. i \<le> j \<Longrightarrow> j < n \<Longrightarrow> rho i \<le> rho j"
    and t: "t \<in> holders part n T rho r"
  shows "exits_right part n T rho t r \<longleftrightarrow> (\<exists>u > t. u \<in> holders part n T rho r)"
proof
  obtain i where i: "t < T" "seg_start part n T t \<le> i" "i < seg_end part n T t" "rho i = r"
    using t by (auto simp: holders_def)
  assume l: "exits_right part n T rho t r"
  then have "t \<noteq> T - 1" using seg_facts(3) [OF ok] by (auto simp: exits_right_def)
  then have u: "Suc t < T" using i(1) by simp
  have "seg_end part n T t = seg_start part n T (Suc t)"
    "seg_start part n T (Suc t) < seg_end part n T (Suc t)"
    using seg_facts(4,5) [OF ok] u by auto
  then have "Suc t \<in> holders part n T rho r"
    using l u unfolding holders_def exits_right_def
    by (auto intro!: exI [of _ "seg_end part n T t"])
  then show "\<exists>u > t. u \<in> holders part n T rho r" by blast
next
  obtain i where i: "t < T" "seg_start part n T t \<le> i" "i < seg_end part n T t" "rho i = r"
    using t by (auto simp: holders_def)
  assume "\<exists>u > t. u \<in> holders part n T rho r"
  then obtain u j where u: "t < u" "u < T" "seg_start part n T u \<le> j" "j < seg_end part n T u" "rho j = r"
    by (auto simp: holders_def)
  have s: "seg_end part n T t \<le> j" using seg_mono [OF ok u(1,2)] u(3) by simp
  have n: "j < n" using seg_end_le [OF ok u(2)] u(4) by simp
  have "rho i \<le> rho (seg_end part n T t - 1)" "rho (seg_end part n T t - 1) \<le> rho (seg_end part n T t)"
    "rho (seg_end part n T t) \<le> rho j"
    using s i(3) n by (auto intro!: mono)
  then show "exits_right part n T rho t r" using s n i(3,4) u(5) by (auto simp: exits_right_def)
qed

lemma holders_interval:
  assumes ok: "partition_ok part n T" and mono: "\<And>i j. i \<le> j \<Longrightarrow> j < n \<Longrightarrow> rho i \<le> rho j"
    and "t \<in> holders part n T rho r" "v \<in> holders part n T rho r" "t \<le> u" "u \<le> v"
  shows "u \<in> holders part n T rho r"
proof (cases "u = t \<or> u = v")
  case False
  then have tuv: "t < u" "u < v" using assms by auto
  obtain i where i: "t < T" "i < seg_end part n T t" "rho i = r" using assms(3) by (auto simp: holders_def)
  obtain j where j: "v < T" "seg_start part n T v \<le> j" "j < seg_end part n T v" "rho j = r"
    using assms(4) by (auto simp: holders_def)
  have "i < seg_start part n T u" using seg_mono [OF ok tuv(1)] i j tuv by simp
  moreover have "seg_start part n T u < seg_end part n T u" using seg_facts(4) [OF ok] tuv j by simp
  moreover have "seg_end part n T u \<le> j" using seg_mono [OF ok tuv(2) j(1)] j by simp
  moreover have "j < n" using seg_end_le [OF ok j(1)] j(3) by simp
  ultimately have "rho (seg_start part n T u) = r"
    using mono [of i "seg_start part n T u"] mono [of "seg_start part n T u" j] i j by simp
  then show ?thesis
    using \<open>seg_start part n T u < seg_end part n T u\<close> tuv j by (auto simp: holders_def)
qed (use assms in auto)

lemma card_holders:
  assumes ok: "partition_ok part n T" and mono: "\<And>i j. i \<le> j \<Longrightarrow> j < n \<Longrightarrow> rho i \<le> rho j"
    and ne: "holders part n T rho r \<noteq> {}"
  shows "card (holders part n T rho r) = Max (holders part n T rho r) - Min (holders part n T rho r) + 1"
proof -
  let ?K = "holders part n T rho r"
  have fin: "finite ?K" using holders_facts [OF ok] by blast
  have "?K = {Min ?K..Max ?K}"
  proof
    show "{Min ?K..Max ?K} \<subseteq> ?K"
      using holders_interval [OF ok mono Min_in [OF fin ne] Max_in [OF fin ne]] by auto
    show "?K \<subseteq> {Min ?K..Max ?K}" using Min_le [OF fin] Max_ge [OF fin] by fastforce
  qed
  moreover have "Min ?K \<le> Max ?K" using fin ne by (simp add: Min_le)
  ultimately show ?thesis by (metis Suc_diff_le Suc_eq_plus1 card_atLeastAtMost)
qed

text \<open>The last holder owns the last position of the component.\<close>

lemma Max_holders:
  assumes ok: "partition_ok part n T" and i: "i < n" "rho i = r"
    and last: "\<And>j. i < j \<Longrightarrow> j < n \<Longrightarrow> rho j \<noteq> r"
  shows "Max (holders part n T rho r) = get_partition_idx n i T"
proof (rule Max_eqI)
  show "finite (holders part n T rho r)" "get_partition_idx n i T \<in> holders part n T rho r"
    using holders_facts [OF ok] i by auto
  fix u assume "u \<in> holders part n T rho r"
  then obtain j where j: "u < T" "seg_start part n T u \<le> j" "j < seg_end part n T u" "rho j = r"
    by (auto simp: holders_def)
  have jn: "j < n" using seg_end_le [OF ok j(1)] j(3) by simp
  then have "j \<le> i" using last [of j] j(4) by (meson not_le)
  obtain t where t: "t < T" "seg_start part n T t \<le> i" "i < seg_end part n T t"
    using seg_cover [OF ok i(1)] by blast
  then have "get_partition_idx n i T = t" using seg_facts(6) [OF ok] by blast
  moreover have "u \<le> t"
  proof (rule ccontr)
    assume "\<not> u \<le> t"
    then have "seg_end part n T t \<le> seg_start part n T u" using seg_mono [OF ok, of t u] j(1) by simp
    then show False using t(3) j(2) \<open>j \<le> i\<close> by simp
  qed
  ultimately show "u \<le> get_partition_idx n i T" by simp
qed

end
