(* ===== verification/Boruvka_Round.thy ===== *)
theory Boruvka_Round
  imports Segments
begin

text \<open>
  A Boruvka round after the first (\<^verbatim>\<open>perform_boruvka_round\<close> of src/cc_sketch_alg.cpp; the
  minimum-cut version in src/mc_sketch_alg.cpp differs in the partition function and in
  where a vertex's sketch lies, both arguments here). \<open>round_thread\<close> is the body of the parallel
  region for one thread, as the list of actions it takes on the shared state.
\<close>

record MergeInstr =
  mi_root :: nat
  mi_child :: nat

definition instr_less :: "MergeInstr \<Rightarrow> MergeInstr \<Rightarrow> bool" where
  "instr_less a oth =
     (if mi_root a = mi_root oth then mi_child a < mi_child oth else mi_root a < mi_root oth)"

function last_search :: "MergeInstr list \<Rightarrow> MergeInstr \<Rightarrow> nat \<Rightarrow> nat \<Rightarrow> nat" where
  "last_search merge_instr target lo hi =
     (if lo < hi then
        let mid = lo + (hi - lo) div 2
        in if instr_less (merge_instr ! mid) target then last_search merge_instr target (mid + 1) hi
           else last_search merge_instr target lo mid
      else lo)"
  by pat_completeness auto
termination
  by (relation "measure (\<lambda>(_, _, lo, hi). hi - lo)") auto

declare last_search.simps [simp del]

text \<open>\<^verbatim>\<open>(node_id_t) -1\<close> is the largest 32-bit id.\<close>

definition find_last_partition_of_root :: "MergeInstr list \<Rightarrow> nat \<Rightarrow> nat \<Rightarrow> nat \<Rightarrow> nat" where
  "find_last_partition_of_root merge_instr rt min_hint num_threads =
     (let hi = length merge_instr - 1;
          target = \<lparr>mi_root = rt, mi_child = 2 ^ 32 - 1\<rparr>;
          lo = last_search merge_instr target min_hint hi;
          lo = (if mi_root (merge_instr ! lo) \<noteq> rt then lo - 1 else lo)
      in get_partition_idx (length merge_instr) lo num_threads)"

record 'g thread_state =
  cur_root :: nat
  root_from_left :: bool
  local_sketch :: "'g Sketch"
  emitted :: "'g action list"

text \<open>One iteration of a thread's loop: when the component changes, hand over the sum of the last
  one; then add the vertex's sketch to the local sum.\<close>

definition round_iter :: "nat \<Rightarrow> nat \<Rightarrow> (nat \<Rightarrow> 'h::len word Sketch) \<Rightarrow> MergeInstr \<Rightarrow>
    'h word thread_state \<Rightarrow> 'h word thread_state" where
  "round_iter cur_round thr_id sks instr st =
     (let st = (if mi_root instr \<noteq> cur_root st then
          st\<lparr>emitted := emitted st @ [if root_from_left st then MergeGlobal thr_id (local_sketch st)
                                       else QueryLocal (local_sketch st)],
             root_from_left := False, cur_root := mi_root instr,
             local_sketch := zero_contents (local_sketch st)\<rparr>
        else st)
      in st\<lparr>local_sketch := Sketch_range_merge (local_sketch st) (sks (mi_child instr)) cur_round 1\<rparr>)"

definition round_thread :: "partition_fn \<Rightarrow> nat \<Rightarrow> nat \<Rightarrow> nat \<Rightarrow> (nat \<Rightarrow> 'h::len word Sketch) \<Rightarrow>
    'h word Sketch \<Rightarrow> MergeInstr list \<Rightarrow> nat \<Rightarrow> 'h word action list" where
  "round_thread part n num_threads cur_round sks local0 merge_instr thr_id =
     (let (start, end) = part n thr_id num_threads;
          from_left = (start > 0 \<and> mi_root (merge_instr ! (start - 1)) = mi_root (merge_instr ! start));
          exits_right = (end < n \<and> mi_root (merge_instr ! (end - 1)) = mi_root (merge_instr ! end));
          st = fold (round_iter cur_round thr_id sks) (map (\<lambda>i. merge_instr ! i) [start..<end])
            \<lparr>cur_root = mi_root (merge_instr ! start), root_from_left = from_left,
             local_sketch = local0, emitted = []\<rparr>
      in emitted st @
         (if exits_right \<or> root_from_left st then
            let global_id = find_last_partition_of_root merge_instr (cur_root st) start num_threads
            in (if \<not> root_from_left st then [SetNeeded global_id (global_id - thr_id + 1)] else []) @
               [MergeGlobal global_id (local_sketch st)]
          else [QueryLocal (local_sketch st)]))"

text \<open>Reads outside the instruction array and outside the array of shared sketches.\<close>

definition reads_inside :: "partition_fn \<Rightarrow> nat \<Rightarrow> nat \<Rightarrow> bool" where
  "reads_inside part n T \<longleftrightarrow> list_all (\<lambda>t. let (start, end) = part n t T
     in start < n \<and> end \<le> n \<and> (end < n \<longrightarrow> 0 < end)) [0..<T]"

definition globals_inside :: "nat \<Rightarrow> 'g action list list \<Rightarrow> bool" where
  "globals_inside T ps \<longleftrightarrow> list_all (list_all (\<lambda>a. case a of
      SetNeeded g _ \<Rightarrow> g < T | MergeGlobal g _ \<Rightarrow> g < T | _ \<Rightarrow> True)) ps"

text \<open>The sketches that a round queries, in the order in which the queries happen.\<close>

definition round_queries :: "partition_fn \<Rightarrow> nat \<Rightarrow> nat \<Rightarrow> nat list \<Rightarrow> nat \<Rightarrow> (nat \<Rightarrow> 'h::len word Sketch) \<Rightarrow>
    'h word Sketch \<Rightarrow> MergeInstr list \<Rightarrow> 'h word GlobalMergeData list \<Rightarrow> error + 'h word Sketch list" where
  "round_queries part n num_threads sched cur_round sks local0 merge_instr global_merges =
     (if \<not> reads_inside part n num_threads then Inl Undefined
      else
        let ps = map (round_thread part n num_threads cur_round sks local0 merge_instr) [0..<num_threads]
        in if \<not> globals_inside num_threads ps then Inl Undefined
           else Inr (queries (run_round cur_round sched
                  \<lparr>progs = ps, gmerges = map reset_global global_merges, queries = []\<rparr>)))"

lemma reads_inside_ok:
  assumes "partition_ok part n T"
  shows "reads_inside part n T"
  using seg_facts(4) [OF assms] seg_end_le [OF assms]
  by (fastforce simp: reads_inside_def list_all_iff seg_start_def seg_end_def split: prod.splits)

section \<open>The binary search\<close>

lemma last_search_base [simp]: "last_search mi tg hi hi = hi"
  by (simp add: last_search.simps)

lemma last_search_bounds:
  "lo \<le> hi \<Longrightarrow> lo \<le> last_search mi tg lo hi \<and> last_search mi tg lo hi \<le> hi"
proof (induction mi tg lo hi rule: last_search.induct)
  case (1 mi tg lo hi)
  show ?case
  proof (cases "lo < hi")
    case True
    let ?mid = "lo + (hi - lo) div 2"
    have m: "lo \<le> ?mid" "?mid < hi" using True by auto
    show ?thesis
      using 1(1) [OF True refl] 1(2) [OF True refl] m True
      by (cases "instr_less (mi ! ?mid) tg") (auto simp: last_search.simps [of mi tg lo hi] Let_def)
  qed (use 1 in simp)
qed

lemma last_search_correct:
  assumes "lo \<le> hi" "\<And>i j. i \<le> j \<Longrightarrow> j \<le> hi \<Longrightarrow> below j \<Longrightarrow> below i"
    and "\<And>i. i \<le> hi \<Longrightarrow> below i \<longleftrightarrow> instr_less (mi ! i) tg"
  shows "(\<forall>i. lo \<le> i \<longrightarrow> i < last_search mi tg lo hi \<longrightarrow> below i) \<and>
    (last_search mi tg lo hi < hi \<longrightarrow> \<not> below (last_search mi tg lo hi))"
  using assms
proof (induction mi tg lo hi rule: last_search.induct)
  case (1 mi tg lo hi)
  show ?case
  proof (cases "lo < hi")
    case True
    let ?mid = "lo + (hi - lo) div 2"
    have m: "lo \<le> ?mid" "?mid < hi" using True by auto
    show ?thesis
    proof (cases "instr_less (mi ! ?mid) tg")
      case lt: True
      then have bel: "below i" if "i \<le> ?mid" for i
        using that m 1(4) [of i ?mid] 1(5) [of ?mid] by auto
      have "(\<forall>i. ?mid + 1 \<le> i \<longrightarrow> i < last_search mi tg (?mid + 1) hi \<longrightarrow> below i) \<and>
          (last_search mi tg (?mid + 1) hi < hi \<longrightarrow> \<not> below (last_search mi tg (?mid + 1) hi))"
        using 1(1) [OF True refl lt] 1(4,5) m by auto
      moreover have "last_search mi tg lo hi = last_search mi tg (?mid + 1) hi"
        using True lt by (subst last_search.simps) (simp add: Let_def)
      ultimately show ?thesis using bel by (metis Suc_eq_plus1 not_less_eq_eq)
    next
      case False
      have "(\<forall>i. lo \<le> i \<longrightarrow> i < last_search mi tg lo ?mid \<longrightarrow> below i) \<and>
          (last_search mi tg lo ?mid < ?mid \<longrightarrow> \<not> below (last_search mi tg lo ?mid))"
        using 1(2) [OF True refl False] 1(4,5) m by auto
      moreover have "\<not> below ?mid" using False 1(5) [of ?mid] m by simp
      moreover have "last_search mi tg lo ?mid \<le> ?mid" using last_search_bounds [OF m(1)] by blast
      ultimately have "(\<forall>i. lo \<le> i \<longrightarrow> i < last_search mi tg lo ?mid \<longrightarrow> below i) \<and>
          \<not> below (last_search mi tg lo ?mid)"
        by (metis le_neq_implies_less)
      moreover have "last_search mi tg lo hi = last_search mi tg lo ?mid"
        using True False by (subst last_search.simps) (simp add: Let_def)
      ultimately show ?thesis by simp
    qed
  qed (use 1 in simp)
qed


text \<open>What the rest of the round needs of the instructions: they are sorted by component and
  mention no vertex with the largest id.\<close>

definition instr_sorted :: "MergeInstr list \<Rightarrow> bool" where
  "instr_sorted mi \<longleftrightarrow> sorted (map mi_root mi) \<and> (\<forall>x\<in>set mi. mi_child x < 2 ^ 32 - 1)"

lemma instr_mono: "instr_sorted mi \<Longrightarrow> i \<le> j \<Longrightarrow> j < length mi \<Longrightarrow> mi_root (mi ! i) \<le> mi_root (mi ! j)"
  using sorted_nth_mono [of "map mi_root mi" i j] by (simp add: instr_sorted_def)

lemma find_last_partition_correct:
  assumes "partition_ok part n T" "instr_sorted mi" "length mi = n"
    and "hint < n" "mi_root (mi ! hint) \<le> r" "\<exists>i. hint \<le> i \<and> i < n \<and> mi_root (mi ! i) = r"
  shows "find_last_partition_of_root mi r hint T = Max (holders part n T (\<lambda>i. mi_root (mi ! i)) r)"
proof -
  let ?tg = "\<lparr>mi_root = r, mi_child = 2 ^ 32 - 1\<rparr>" and ?below = "\<lambda>i. mi_root (mi ! i) \<le> r"
  let ?m = "last_search mi ?tg hint (n - 1)"
  have less: "?below i \<longleftrightarrow> instr_less (mi ! i) ?tg" if "i \<le> n - 1" for i
    using that assms(2,3,4) by (auto simp: instr_less_def instr_sorted_def)
  have mono: "?below i" if "i \<le> j" "j \<le> n - 1" "?below j" for i j
  proof -
    have "j < n" using that(2) assms(4) by linarith
    then show ?thesis using instr_mono [OF assms(2) that(1)] that(3) assms(3) by simp
  qed
  have bd: "hint \<le> ?m" "?m \<le> n - 1" using last_search_bounds [of hint "n - 1" mi ?tg] assms(4) by auto
  have sr: "\<forall>i. hint \<le> i \<longrightarrow> i < ?m \<longrightarrow> ?below i" "?m < n - 1 \<longrightarrow> \<not> ?below ?m"
    using last_search_correct [of hint "n - 1" ?below mi ?tg] assms(4) mono less by auto
  obtain i where i: "hint \<le> i" "i < n" "mi_root (mi ! i) = r" using assms(6) by blast
  define l where "l = (if mi_root (mi ! ?m) \<noteq> r then ?m - 1 else ?m)"
  have l: "l < n" "mi_root (mi ! l) = r" "\<And>j. l < j \<Longrightarrow> j < n \<Longrightarrow> mi_root (mi ! j) \<noteq> r"
  proof -
    show "l < n" using bd assms(4) by (auto simp: l_def)
    have above: "r < mi_root (mi ! j)" if "?m < n - 1 \<or> r < mi_root (mi ! ?m)" "?m \<le> j" "j < n" for j
      using sr(2) that instr_mono [OF assms(2), of ?m j] assms(3) by (auto simp: not_le)
    show "mi_root (mi ! l) = r"
    proof (cases "mi_root (mi ! ?m) = r")
      case False
      have im: "i < ?m"
      proof (rule ccontr)
        assume "\<not> i < ?m"
        then have "mi_root (mi ! ?m) \<le> r" using instr_mono [OF assms(2), of ?m i] i assms(3) by simp
        moreover have "?m = n - 1" using sr(2) calculation bd(2) by linarith
        then have "i = ?m" using \<open>\<not> i < ?m\<close> i(2) by simp
        ultimately show False using False i(3) by simp
      qed
      have "r \<le> mi_root (mi ! (?m - 1))"
        using instr_mono [OF assms(2), of i "?m - 1"] im bd assms(3,4) i by simp
      moreover have "mi_root (mi ! (?m - 1)) \<le> r" using sr(1) im i(1) by simp
      ultimately show ?thesis using False by (simp add: l_def)
    qed (simp add: l_def)
    show "mi_root (mi ! j) \<noteq> r" if "l < j" "j < n" for j
    proof (cases "mi_root (mi ! ?m) = r")
      case True
      then have "?m = n - 1" using sr(2) bd(2) by auto
      then show ?thesis using that True by (simp add: l_def)
    next
      case False
      then have "r < mi_root (mi ! ?m)"
      proof (cases "?m < n - 1")
        case True then show ?thesis using sr(2) by simp
      next
        case False
        then have "mi_root (mi ! i) \<le> mi_root (mi ! ?m)"
          using instr_mono [OF assms(2), of i ?m] bd i assms(3) by simp
        then show ?thesis using i(3) \<open>mi_root (mi ! ?m) \<noteq> r\<close> by simp
      qed
      moreover have "l = ?m - 1" using False by (simp add: l_def)
      then have "?m \<le> j" using that(1) by linarith
      ultimately show ?thesis using above [of j] that(2) by simp
    qed
  qed
  have "find_last_partition_of_root mi r hint T = get_partition_idx n l T"
    by (simp add: find_last_partition_of_root_def Let_def assms(3) l_def)
  also have "\<dots> = Max (holders part n T (\<lambda>i. mi_root (mi ! i)) r)"
    using Max_holders [OF assms(1) l(1), of "\<lambda>i. mi_root (mi ! i)" r] l by simp
  finally show ?thesis .
qed


section \<open>What a thread emits\<close>

text \<open>The sum of the sketches of the part of component \<open>r\<close> in a list of instructions.\<close>

definition run_sum :: "nat \<Rightarrow> (nat \<Rightarrow> 'h::len word Sketch) \<Rightarrow> 'h word Sketch \<Rightarrow> MergeInstr list \<Rightarrow> nat \<Rightarrow>
    'h word Sketch" where
  "run_sum k sks local0 xs r = fold (\<lambda>x l. Sketch_range_merge l (sks (mi_child x)) k 1)
     (filter (\<lambda>x. mi_root x = r) xs) local0"

lemma zero_range_merge: "zero_contents (Sketch_range_merge l s k n) = zero_contents l"
  by (simp add: zero_contents_def reset_sample_state_def Sketch_range_merge_def Let_def map_replicate_const)

lemma zero_run_sum: "zero_contents (run_sum k sks local0 xs r) = zero_contents local0"
proof -
  have "zero_contents (fold (\<lambda>x l. Sketch_range_merge l (sks (mi_child x)) k 1) ys l) = zero_contents l" for ys l
    by (induction ys arbitrary: l) (auto simp: zero_range_merge)
  then show ?thesis by (simp add: run_sum_def)
qed

lemma run_sum_snoc:
  "run_sum k sks l0 (xs @ [x]) r = (if mi_root x = r
     then Sketch_range_merge (run_sum k sks l0 xs r) (sks (mi_child x)) k 1 else run_sum k sks l0 xs r)"
  by (simp add: run_sum_def)

lemma run_sum_absent: "r \<notin> mi_root ` set xs \<Longrightarrow> run_sum k sks l0 xs r = l0"
  unfolding run_sum_def by (subst filter_False) auto

lemma remdups_adj_sorted:
  assumes "sorted xs"
  shows "sorted_wrt (<) (remdups_adj xs)"
  using assms
proof (induction xs rule: remdups_adj.induct)
  case (3 x y xs)
  then show ?case by (auto simp: order.strict_iff_order)
qed auto

lemma remdups_adj_snoc:
  assumes "xs \<noteq> []"
  shows "remdups_adj (xs @ [x]) = remdups_adj xs @ (if last xs = x then [] else [x])"
proof -
  have e: "butlast xs @ [last xs, x] = xs @ [x]"
    using append_butlast_last_id [OF assms] by (metis append_Cons append_Nil append_assoc)
  show ?thesis
    using remdups_adj_append_two [of "butlast xs" "last xs" x]
    unfolding e append_butlast_last_id [OF assms] .
qed

lemma map_butlast_last: "xs \<noteq> [] \<Longrightarrow> map f xs = map f (butlast xs) @ [f (last xs)]"
  by (induction xs) auto

lemma round_fold:
  assumes "xs \<noteq> []" "sorted (map mi_root xs)" "zero_contents l0 = l0"
  defines "rs \<equiv> remdups_adj (map mi_root xs)"
  shows "fold (round_iter k thr sks) xs
      \<lparr>cur_root = mi_root (hd xs), root_from_left = fl, local_sketch = l0, emitted = []\<rparr> =
    \<lparr>cur_root = last rs, root_from_left = (fl \<and> length rs = 1),
     local_sketch = run_sum k sks l0 xs (last rs),
     emitted = map (\<lambda>r. if fl \<and> r = hd rs then MergeGlobal thr (run_sum k sks l0 xs r)
       else QueryLocal (run_sum k sks l0 xs r)) (butlast rs)\<rparr>"
  using assms(1,2) unfolding rs_def
proof (induction xs rule: rev_nonempty_induct)
  case (single x)
  then show ?case by (simp add: round_iter_def run_sum_def)
next
  case (snoc x ys)
  let ?rs = "remdups_adj (map mi_root ys)" and ?r = "mi_root x"
  have srt: "sorted (map mi_root ys)" and le: "\<And>y. y \<in> set ys \<Longrightarrow> mi_root y \<le> ?r"
    using snoc.prems by (auto simp: sorted_append)
  have ne: "?rs \<noteq> []" and last: "last ?rs = mi_root (last ys)"
    using snoc.hyps by (auto simp: last_remdups_adj last_map)
  have swrt: "sorted_wrt (<) ?rs" using srt by (rule remdups_adj_sorted)
  have split: "?rs = butlast ?rs @ [last ?rs]" using ne by (rule append_butlast_last_id [symmetric])
  have bl: "r < last ?rs" if "r \<in> set (butlast ?rs)" for r
    using swrt that split by (metis sorted_wrt_append list.set_intros(1))
  have last_le: "last ?rs \<le> ?r" using le last snoc.hyps by simp
  have keep: "run_sum k sks l0 (ys @ [x]) r = run_sum k sks l0 ys r" if "r \<in> set (butlast ?rs)" for r
    using bl [OF that] last_le by (simp add: run_sum_snoc)
  have hd: "hd (ys @ [x]) = hd ys" using snoc.hyps by simp
  show ?case
  proof (cases "last ?rs = ?r")
    case True
    have rs: "remdups_adj (map mi_root (ys @ [x])) = ?rs"
      using snoc.hyps last True remdups_adj_snoc [of "map mi_root ys" ?r] by (simp add: last_map)
    have em: "map (\<lambda>r. if fl \<and> r = hd ?rs then MergeGlobal thr (run_sum k sks l0 (ys @ [x]) r)
        else QueryLocal (run_sum k sks l0 (ys @ [x]) r)) (butlast ?rs) =
      map (\<lambda>r. if fl \<and> r = hd ?rs then MergeGlobal thr (run_sum k sks l0 ys r)
        else QueryLocal (run_sum k sks l0 ys r)) (butlast ?rs)"
      using keep by (intro map_cong) auto
    show ?thesis
      unfolding rs em hd fold_append comp_apply snoc.IH [OF srt]
      using True by (simp add: round_iter_def run_sum_snoc)
  next
    case False
    have rs: "remdups_adj (map mi_root (ys @ [x])) = ?rs @ [?r]"
      using snoc.hyps last False remdups_adj_snoc [of "map mi_root ys" ?r] by (simp add: last_map)
    have keep': "run_sum k sks l0 (ys @ [x]) r = run_sum k sks l0 ys r" if "r \<in> set ?rs" for r
    proof -
      have "r \<le> last ?rs" using that bl split by (metis Un_iff in_set_conv_decomp less_imp_le
            list.set(1) list.set(2) order_refl set_append singletonD)
      then show ?thesis using False last_le by (simp add: run_sum_snoc)
    qed
    have fresh: "run_sum k sks l0 ys ?r = l0"
    proof (rule run_sum_absent)
      have "\<forall>r \<in> set ?rs. r < ?r"
        using bl last_le False split by (metis Un_iff le_neq_implies_less less_le_trans
            list.set(1) list.set(2) set_append singletonD)
      then show "?r \<notin> mi_root ` set ys" by auto
    qed
    let ?F = "\<lambda>r. if fl \<and> r = hd ?rs then MergeGlobal thr (run_sum k sks l0 ys r)
      else QueryLocal (run_sum k sks l0 ys r)"
    have "map (\<lambda>r. if fl \<and> r = hd ?rs then MergeGlobal thr (run_sum k sks l0 (ys @ [x]) r)
        else QueryLocal (run_sum k sks l0 (ys @ [x]) r)) ?rs = map ?F ?rs"
      by (rule map_cong [OF refl]) (simp only: keep')
    then have em: "map (\<lambda>r. if fl \<and> r = hd ?rs then MergeGlobal thr (run_sum k sks l0 (ys @ [x]) r)
        else QueryLocal (run_sum k sks l0 (ys @ [x]) r)) ?rs = map ?F (butlast ?rs) @ [?F (last ?rs)]"
      using map_butlast_last [OF ne, of ?F] by (rule trans)
    have one: "last ?rs = hd ?rs \<longleftrightarrow> length ?rs = 1"
    proof
      assume "last ?rs = hd ?rs"
      then have "butlast ?rs = []" using bl [of "hd ?rs"] split
        by (metis hd_append2 less_irrefl list.set_sel(1))
      then show "length ?rs = 1" using ne by (metis One_nat_def append_self_conv2 length_Cons list.size(3) split)
    qed (cases ?rs; auto)
    have ne2: "hd (?rs @ [?r]) = hd ?rs" "butlast (?rs @ [?r]) = ?rs" "last (?rs @ [?r]) = ?r" using ne by auto
    show ?thesis
      unfolding rs ne2 em hd fold_append comp_apply snoc.IH [OF srt]
      using False one ne by (simp add: round_iter_def run_sum_snoc fresh zero_run_sum assms(3))
  qed
qed


section \<open>The plan of a round\<close>

definition seg :: "partition_fn \<Rightarrow> nat \<Rightarrow> nat \<Rightarrow> MergeInstr list \<Rightarrow> nat \<Rightarrow> MergeInstr list" where
  "seg part n T mi t = map (\<lambda>i. mi ! i) [seg_start part n T t..<seg_end part n T t]"

abbreviation rho :: "MergeInstr list \<Rightarrow> nat \<Rightarrow> nat" where
  "rho mi \<equiv> \<lambda>i. mi_root (mi ! i)"

definition runs :: "partition_fn \<Rightarrow> nat \<Rightarrow> nat \<Rightarrow> MergeInstr list \<Rightarrow> nat \<Rightarrow> nat list" where
  "runs part n T mi t = remdups_adj (map mi_root (seg part n T mi t))"

definition item_of :: "nat set \<Rightarrow> nat \<Rightarrow> nat \<Rightarrow> (kind \<times> nat) list" where
  "item_of Kr t r = (if Kr = {t} then [(Loc, r)] else if t = Min Kr then [(Need, r), (Mrg, r)] else [(Mrg, r)])"

definition items_of :: "partition_fn \<Rightarrow> nat \<Rightarrow> nat \<Rightarrow> MergeInstr list \<Rightarrow> nat \<Rightarrow> (kind \<times> nat) list" where
  "items_of part n T mi t =
     concat (map (\<lambda>r. item_of (holders part n T (rho mi) r) t r) (runs part n T mi t))"

lemma seg_props:
  assumes "partition_ok part n T" "instr_sorted mi" "length mi = n" "t < T"
  shows "seg part n T mi t \<noteq> []" "sorted (map mi_root (seg part n T mi t))"
    "mi_root (hd (seg part n T mi t)) = rho mi (seg_start part n T t)"
    "last (runs part n T mi t) = rho mi (seg_end part n T t - 1)"
    "hd (runs part n T mi t) = rho mi (seg_start part n T t)"
    "sorted_wrt (<) (runs part n T mi t)" "runs part n T mi t \<noteq> []"
    "r \<in> set (runs part n T mi t) \<longleftrightarrow> t \<in> holders part n T (rho mi) r"
proof -
  have lt: "seg_start part n T t < seg_end part n T t" "seg_end part n T t \<le> n"
    using seg_facts(4) [OF assms(1,4)] seg_end_le [OF assms(1,4)] by auto
  show ne: "seg part n T mi t \<noteq> []" using lt by (simp add: seg_def)
  show srt: "sorted (map mi_root (seg part n T mi t))"
    using lt instr_mono [OF assms(2)] assms(3) by (auto simp: seg_def sorted_iff_nth_mono)
  show "mi_root (hd (seg part n T mi t)) = rho mi (seg_start part n T t)"
    using lt by (simp add: seg_def hd_map)
  show "last (runs part n T mi t) = rho mi (seg_end part n T t - 1)"
    using lt by (simp add: runs_def last_remdups_adj seg_def last_map)
  show "hd (runs part n T mi t) = rho mi (seg_start part n T t)"
    using lt by (simp add: runs_def seg_def hd_map)
  show "sorted_wrt (<) (runs part n T mi t)" unfolding runs_def using srt by (rule remdups_adj_sorted)
  show "runs part n T mi t \<noteq> []" using ne by (simp add: runs_def)
  show "r \<in> set (runs part n T mi t) \<longleftrightarrow> t \<in> holders part n T (rho mi) r"
    using assms(4) by (auto simp: runs_def seg_def holders_def)
qed

lemma holders_first:
  assumes "finite K" "t \<in> K"
  shows "(\<exists>u < t. u \<in> K) \<longleftrightarrow> t \<noteq> Min K"
  using assms Min_le [OF assms(1)] Min_in [OF assms(1)]
  by (metis empty_iff leD le_neq_implies_less order_le_less)

lemma holders_last:
  assumes "finite K" "t \<in> (K :: nat set)"
  shows "(\<exists>u > t. u \<in> K) \<longleftrightarrow> t \<noteq> Max K"
  using assms Max_ge [OF assms(1)] Max_in [OF assms(1)]
  by (metis empty_iff leD le_neq_implies_less order_le_less)

lemma singleton_iff_no_neighbours:
  assumes "t \<in> K"
  shows "K = {t} \<longleftrightarrow> \<not> (\<exists>u < t. u \<in> K) \<and> \<not> (\<exists>u > t. (u :: nat) \<in> K)"
proof (intro iffI equalityI subsetI)
  fix x assume "\<not> (\<exists>u < t. u \<in> K) \<and> \<not> (\<exists>u > t. u \<in> K)" "x \<in> K"
  then show "x \<in> {t}" using linorder_neq_iff [of x t] by blast
qed (use assms in auto)

lemma last_eq_hd:
  assumes "sorted_wrt (<) (rs :: nat list)" "rs \<noteq> []"
  shows "length rs = 1 \<longleftrightarrow> last rs = hd rs"
proof (cases rs)
  case (Cons x xs)
  then show ?thesis using assms by (cases xs rule: rev_cases) auto
qed (use assms in simp)

lemma round_thread_items:
  assumes ok: "partition_ok part n T" and srt: "instr_sorted mi" and len: "length mi = n"
    and t: "t < T" and z: "zero_contents l0 = l0"
    and K_def: "K = holders part n T (rho mi)"
    and sk_def: "sk = (\<lambda>t r. run_sum k sks l0 (seg part n T mi t) r)"
  shows "round_thread part n T k sks l0 mi t =
    map (act K (\<lambda>r. Max (K r)) sk t) (items_of part n T mi t)"
proof -
  let ?A = "act K (\<lambda>r. Max (K r)) sk t" and ?rs = "runs part n T mi t"
  let ?s = "seg_start part n T t" and ?e = "seg_end part n T t"
  let ?fl = "?s > 0 \<and> rho mi (?s - 1) = rho mi ?s" and ?er = "?e < n \<and> rho mi (?e - 1) = rho mi ?e"
  note sp = seg_props [OF ok srt len t]
  have mono: "i \<le> j \<Longrightarrow> j < n \<Longrightarrow> rho mi i \<le> rho mi j" for i j
    using instr_mono [OF srt] len by simp
  have inK: "t \<in> K r" if "r \<in> set ?rs" for r using that sp(8) by (simp add: K_def)
  have finK: "finite (K r)" for r using holders_facts [OF ok] by (simp add: K_def)
  have left: "(\<exists>u < t. u \<in> K r) \<longleftrightarrow> ?fl \<and> r = hd ?rs" if "r \<in> set ?rs" for r
    using from_left_iff [where t = t and r = r and rho = "rho mi", OF ok mono] inK [OF that] sp(5)
    by (auto simp: K_def from_left_def)
  have right: "(\<exists>u > t. u \<in> K r) \<longleftrightarrow> ?er \<and> r = last ?rs" if "r \<in> set ?rs" for r
    using exits_right_iff [where t = t and r = r and rho = "rho mi", OF ok mono] inK [OF that] sp(4)
    by (auto simp: K_def exits_right_def)
  have split: "?rs = butlast ?rs @ [last ?rs]" using sp(7) by simp
  have bl: "r \<noteq> last ?rs" "r \<in> set ?rs" if "r \<in> set (butlast ?rs)" for r
    using sp(6) that split by (metis less_irrefl list.set_intros(1) sorted_wrt_append, metis in_set_butlastD)
  define st where "st = fold (round_iter k t sks) (seg part n T mi t)
      \<lparr>cur_root = mi_root (mi ! ?s), root_from_left = ?fl, local_sketch = l0, emitted = []\<rparr>"
  have st: "st = \<lparr>cur_root = last ?rs, root_from_left = (?fl \<and> length ?rs = 1),
     local_sketch = sk t (last ?rs),
     emitted = map (\<lambda>r. if ?fl \<and> r = hd ?rs then MergeGlobal t (sk t r) else QueryLocal (sk t r)) (butlast ?rs)\<rparr>"
    unfolding st_def sk_def runs_def sp(3) [symmetric] by (rule round_fold [OF sp(1,2) z])
  have butl: "concat (map (\<lambda>r. map ?A (item_of (K r) t r)) (butlast ?rs)) = emitted st"
  proof -
    have "map ?A (item_of (K r) t r) = [if ?fl \<and> r = hd ?rs then MergeGlobal t (sk t r) else QueryLocal (sk t r)]"
      if r: "r \<in> set (butlast ?rs)" for r
    proof (cases "?fl \<and> r = hd ?rs")
      case True
      then have "t \<noteq> Min (K r)" "K r \<noteq> {t}" "Max (K r) = t"
        using left [OF bl(2) [OF r]] right [OF bl(2) [OF r]] bl(1) [OF r] inK [OF bl(2) [OF r]]
          holders_first [OF finK] holders_last [OF finK] singleton_iff_no_neighbours by metis+
      then show ?thesis using True by (simp add: item_of_def act_def)
    next
      case False
      then have "K r = {t}"
        using left [OF bl(2) [OF r]] right [OF bl(2) [OF r]] bl(1) [OF r] inK [OF bl(2) [OF r]]
          singleton_iff_no_neighbours by metis
      then show ?thesis using False by (simp add: item_of_def act_def)
    qed
    then have "map (\<lambda>r. map ?A (item_of (K r) t r)) (butlast ?rs) =
      map (\<lambda>r. [if ?fl \<and> r = hd ?rs then MergeGlobal t (sk t r) else QueryLocal (sk t r)]) (butlast ?rs)"
      by (intro map_cong) auto
    then show ?thesis by (simp only: st thread_state.simps concat_map_singleton)
  qed
  let ?r = "last ?rs" and ?rfl = "?fl \<and> length ?rs = 1"
  let ?gid = "find_last_partition_of_root mi ?r ?s T"
  have r: "?r \<in> set ?rs" using sp(7) by simp
  have rfl: "?rfl \<longleftrightarrow> t \<noteq> Min (K ?r)"
    unfolding holders_first [OF finK inK [OF r], symmetric] left [OF r] last_eq_hd [OF sp(6,7)] by blast
  have er: "?er \<longleftrightarrow> t \<noteq> Max (K ?r)"
    unfolding holders_last [OF finK inK [OF r], symmetric] right [OF r] by blast
  have one: "K ?r = {t} \<longleftrightarrow> \<not> ?er \<and> \<not> ?rfl"
    using singleton_iff_no_neighbours [OF inK [OF r]] holders_first [OF finK inK [OF r]]
      holders_last [OF finK inK [OF r]] er rfl by metis
  have gid: "?gid = Max (K ?r)"
  proof -
    have "?s < ?e" "?e \<le> n" using seg_facts(4) [OF ok t] seg_end_le [OF ok t] by auto
    moreover have "rho mi ?s \<le> ?r" unfolding sp(4) using calculation by (intro mono) auto
    moreover have "\<exists>i. ?s \<le> i \<and> i < n \<and> rho mi i = ?r"
      using calculation(1,2) sp(4) by (intro exI [of _ "?e - 1"]) auto
    ultimately show ?thesis
      unfolding K_def by (intro find_last_partition_correct [OF ok srt len]) auto
  qed
  have lst: "map ?A (item_of (K ?r) t ?r) =
      (if ?er \<or> ?rfl then (if \<not> ?rfl then [SetNeeded ?gid (?gid - t + 1)] else []) @ [MergeGlobal ?gid (sk t ?r)]
       else [QueryLocal (sk t ?r)])"
  proof (cases "?rfl")
    case True
    then show ?thesis using one rfl gid by (simp add: item_of_def act_def)
  next
    case False
    then have "t = Min (K ?r)" using rfl by blast
    moreover have "card (K ?r) = Max (K ?r) - Min (K ?r) + 1"
      unfolding K_def using inK [OF r] by (intro card_holders [where rho = "rho mi", OF ok mono]) (auto simp: K_def)
    ultimately show ?thesis using False one gid by (auto simp: item_of_def act_def)
  qed
  have "map ?A (items_of part n T mi t) = concat (map (\<lambda>r. map ?A (item_of (K r) t r)) ?rs)"
    by (simp add: items_of_def map_concat K_def comp_def)
  also have "\<dots> = concat (map (\<lambda>r. map ?A (item_of (K r) t r)) (butlast ?rs)) @ map ?A (item_of (K ?r) t ?r)"
    unfolding map_butlast_last [OF sp(7)] by simp
  also have "\<dots> = round_thread part n T k sks l0 mi t"
  proof -
    have part: "part n t T = (?s, ?e)" by (simp add: seg_start_def seg_end_def)
    have "round_thread part n T k sks l0 mi t = emitted st @
       (if ?er \<or> root_from_left st then
          (if \<not> root_from_left st
           then [SetNeeded (find_last_partition_of_root mi (cur_root st) ?s T)
                  (find_last_partition_of_root mi (cur_root st) ?s T - t + 1)] else []) @
          [MergeGlobal (find_last_partition_of_root mi (cur_root st) ?s T) (local_sketch st)]
        else [QueryLocal (local_sketch st)])"
      unfolding round_thread_def part Let_def prod.case
      by (simp only: seg_def [symmetric] st_def [symmetric])
    also have "\<dots> = emitted st @ map ?A (item_of (K ?r) t ?r)"
      unfolding lst by (simp only: st thread_state.simps)
    finally show ?thesis by (simp only: butl)
  qed
  finally show ?thesis by simp
qed


lemma card_ge_2_iff:
  assumes "finite K" "t \<in> K"
  shows "2 \<le> card K \<longleftrightarrow> K \<noteq> {t}"
proof -
  have "K = {t} \<longleftrightarrow> card K = 1" using assms(2) by (auto simp: card_1_singleton_iff)
  moreover have "card K \<noteq> 0" using assms by auto
  ultimately show ?thesis by linarith
qed

lemma item_of_snd: "(kd, q) \<in> set (item_of Kr t r) \<Longrightarrow> q = r"
  by (auto simp: item_of_def split: if_splits)

lemma items_of_mem:
  assumes ok: "partition_ok part n T" "instr_sorted mi" "length mi = n" "t < T"
  defines "K \<equiv> holders part n T (rho mi)"
  shows "x \<in> set (items_of part n T mi t) \<longleftrightarrow> t \<in> K (snd x) \<and> x \<in> set (item_of (K (snd x)) t (snd x))"
  using seg_props(8) [OF ok] by (cases x) (auto simp: items_of_def K_def dest: item_of_snd)

lemma distinct_items_of:
  assumes "sorted_wrt (<) (rs :: nat list)"
  shows "distinct (concat (map (\<lambda>r. item_of (K r) t r) rs))"
  using assms
proof (induction rs)
  case (Cons r rs)
  have "distinct (item_of (K r) t r)" by (simp add: item_of_def)
  moreover have "set (item_of (K r) t r) \<inter> set (concat (map (\<lambda>r. item_of (K r) t r) rs)) = {}"
    using Cons.prems by (auto dest!: item_of_snd)
  ultimately show ?case using Cons by simp
qed simp

text \<open>The announcement of a component precedes the contribution in every prefix.\<close>

lemma need_before_mrg:
  assumes "sorted_wrt (<) (rs :: nat list)"
    and "(Mrg, r) \<in> set (take p (concat (map (\<lambda>r. item_of (K r) t r) rs)))" "t = Min (K r)"
  shows "(Need, r) \<in> set (take p (concat (map (\<lambda>r. item_of (K r) t r) rs)))"
  using assms(1,2)
proof (induction rs arbitrary: p)
  case (Cons s rs)
  show ?case
  proof (cases "(Mrg, r) \<in> set (take p (item_of (K s) t s))")
    case True
    then have "(Need, r) \<in> set (take p (item_of (K s) t s))"
      using assms(3) by (cases p) (auto simp: item_of_def take_Cons split: if_splits nat.splits)
    then show ?thesis by simp
  next
    case False
    then have "(Mrg, r) \<in> set (take (p - length (item_of (K s) t s)) (concat (map (\<lambda>r. item_of (K r) t r) rs)))"
      using Cons.prems(2) by auto
    then have "(Need, r) \<in> set (take (p - length (item_of (K s) t s)) (concat (map (\<lambda>r. item_of (K r) t r) rs)))"
      using Cons by auto
    then show ?thesis by simp
  qed
qed simp

lemma round_plan_holds:
  assumes ok: "partition_ok part n T" "instr_sorted mi" "length mi = n" and T: "T < size_max"
  shows "round_plan T T (mi_root ` set mi) (holders part n T (rho mi))
    (\<lambda>r. Max (holders part n T (rho mi) r)) (items_of part n T mi)"
proof -
  let ?N = "mi_root ` set mi" and ?K = "holders part n T (rho mi)"
  have mono: "i \<le> j \<Longrightarrow> j < n \<Longrightarrow> rho mi i \<le> rho mi j" for i j
    using instr_mono [OF ok(2)] ok(3) by simp
  have N: "r \<in> ?N \<longleftrightarrow> ?K r \<noteq> {}" for r
  proof
    assume "r \<in> ?N"
    then obtain i where "i < n" "rho mi i = r" using ok(3) by (auto simp: in_set_conv_nth)
    then show "?K r \<noteq> {}" using holders_facts(3) [where rho = "rho mi", OF ok(1)] by blast
  next
    assume "?K r \<noteq> {}"
    then obtain t i where "t < T" "i < seg_end part n T t" "rho mi i = r" by (auto simp: holders_def)
    then have "i < length mi" using seg_end_le [OF ok(1)] ok(3) by fastforce
    then show "r \<in> ?N" using \<open>rho mi i = r\<close> nth_mem by blast
  qed
  have K: "finite (?K r)" "?K r \<subseteq> {..<T}" for r using holders_facts [OF ok(1)] by auto
  have multi: "multi ?N ?K r \<and> t \<in> ?K r \<longleftrightarrow> t \<in> ?K r \<and> ?K r \<noteq> {t}" for t r
  proof -
    have "2 \<le> card (?K r) \<longleftrightarrow> ?K r \<noteq> {t}" if "t \<in> ?K r"
      using that K(1) by (rule card_ge_2_iff [rotated])
    then show ?thesis using N by (auto simp: multi_def)
  qed
  have Max_lt: "Max (?K r) \<in> ?K r" "Max (?K r) < T" if "multi ?N ?K r" for r
  proof -
    have "?K r \<noteq> {}" using that N by (simp add: multi_def)
    then show "Max (?K r) \<in> ?K r" "Max (?K r) < T" using Max_in [OF K(1)] K(2) [of r] by auto
  qed
  have inj: "r = r'" if "multi ?N ?K r" "multi ?N ?K r'" "Max (?K r) = Max (?K r')" for r r'
  proof -
    let ?t = "Max (?K r)"
    have m: "?t \<in> ?K r" "?t \<in> ?K r'" "?t < T" using Max_lt [OF that(1)] Max_lt [OF that(2)] that(3) by auto
    have "Min (?K x) < Max (?K x)" if "multi ?N ?K x" for x
    proof -
      have "Min (?K x) \<noteq> Max (?K x)"
        using that card_holders [where rho = "rho mi" and r = x, OF ok(1) mono] N by (auto simp: multi_def)
      then show ?thesis using that N K(1) [of x]
        by (metis Max_ge Min_in le_neq_implies_less multi_def)
    qed
    then have "\<exists>u < ?t. u \<in> ?K r" "\<exists>u < ?t. u \<in> ?K r'"
      using that N Min_in [OF K(1)] by (metis multi_def)+
    then have "from_left part n T (rho mi) ?t r" "from_left part n T (rho mi) ?t r'"
      using from_left_iff [where rho = "rho mi", OF ok(1) mono] m by blast+
    then show ?thesis by (simp add: from_left_def)
  qed
  have Min_mem: "Min (?K r) \<in> ?K r" if "multi ?N ?K r" for r
    using that N Min_in [OF K(1)] by (simp add: multi_def)
  show ?thesis
    unfolding round_plan_def
  proof (intro conjI ballI allI impI)
    fix t r assume t: "t < T"
    note mem = items_of_mem [OF ok t]
    show "((Loc, r) \<in> set (items_of part n T mi t)) = (r \<in> ?N \<and> ?K r = {t})"
      unfolding mem using N by (auto simp: item_of_def split: if_splits)
    show "((Mrg, r) \<in> set (items_of part n T mi t)) = (multi ?N ?K r \<and> t \<in> ?K r)"
      unfolding mem multi by (auto simp: item_of_def split: if_splits)
    show "((Need, r) \<in> set (items_of part n T mi t)) = (multi ?N ?K r \<and> t = Min (?K r))"
      unfolding mem using multi [of r t] Min_mem [of r] by (auto simp: item_of_def split: if_splits)
    show "distinct (items_of part n T mi t)"
      unfolding items_of_def by (rule distinct_items_of) (rule seg_props(6) [OF ok t])
    fix p assume "(Mrg, r) \<in> set (take p (items_of part n T mi t)) \<and> t = Min (?K r)"
    then show "(Need, r) \<in> set (take p (items_of part n T mi t))"
      unfolding items_of_def using need_before_mrg [OF seg_props(6) [OF ok t]] by blast
  qed (use N K Max_lt T inj in \<open>auto simp: inj_on_def\<close>)
qed


section \<open>What a round queries\<close>

definition component :: "MergeInstr list \<Rightarrow> nat \<Rightarrow> nat set" where
  "component mi r = mi_child ` {x \<in> set mi. mi_root x = r}"

lemma globals_inside_plan:
  assumes "round_plan T T N K gid items"
  shows "globals_inside T (map (\<lambda>t. map (act K gid sk t) (items t)) [0..<T])"
proof -
  have "case act K gid sk t x of SetNeeded g _ \<Rightarrow> g < T | MergeGlobal g _ \<Rightarrow> g < T | _ \<Rightarrow> True"
    if "t < T" "x \<in> set (items t)" for t x
    using that round_planD(6,9,10) [OF assms] by (cases x; cases "fst x") (auto simp: act_def)
  then show ?thesis by (simp add: globals_inside_def list_all_iff)
qed

text \<open>A sketch with the given shape, ready to serve sample \<open>k\<close> of the set \<open>S\<close>.\<close>

definition serves :: "xxh \<Rightarrow> ('h::len word Sketch \<Rightarrow> nat \<Rightarrow> vec_t \<Rightarrow> bool) \<Rightarrow> 'h word Sketch \<Rightarrow> nat \<Rightarrow>
    'h word Sketch \<Rightarrow> vec_t set \<Rightarrow> bool" where
  "serves xxh holds ref k sk S \<longleftrightarrow> sketch_wf sk \<and> same_shape sk ref \<and>
     sketch_repr xxh holds (sample_region ref k) sk S"

lemma seg_take_drop:
  assumes "partition_ok part n T" "length mi = n" "t < T"
  shows "seg part n T mi t = take (seg_end part n T t - seg_start part n T t) (drop (seg_start part n T t) mi)"
  using seg_end_le [OF assms(1,3)] assms(2) by (intro nth_equalityI) (auto simp: seg_def)

lemma distinct_seg:
  assumes "partition_ok part n T" "length mi = n" "t < T" "distinct (map mi_child mi)"
  shows "distinct (map mi_child (seg part n T mi t))"
  unfolding seg_take_drop [OF assms(1-3)] take_map [symmetric] drop_map [symmetric]
  using assms(4) by (intro distinct_take distinct_drop)

definition chunk :: "partition_fn \<Rightarrow> nat \<Rightarrow> nat \<Rightarrow> MergeInstr list \<Rightarrow> nat \<Rightarrow> nat \<Rightarrow> nat set" where
  "chunk part n T mi r t = mi_child ` {x \<in> set (seg part n T mi t). mi_root x = r}"

lemma component_chunks:
  assumes ok: "partition_ok part n T" and mi: "length mi = n" "distinct (map mi_child mi)"
  defines "K \<equiv> holders part n T (rho mi)"
  shows "component mi r = (\<Union>t\<in>K r. chunk part n T mi r t)"
    and "disjoint_family_on (chunk part n T mi r) (K r)"
proof -
  show "component mi r = (\<Union>t\<in>K r. chunk part n T mi r t)"
  proof (intro equalityI subsetI)
    fix c assume "c \<in> component mi r"
    then obtain i where i: "i < n" "rho mi i = r" "mi_child (mi ! i) = c"
      using mi(1) by (auto simp: component_def in_set_conv_nth)
    obtain t where "t < T" "seg_start part n T t \<le> i" "i < seg_end part n T t"
      using seg_cover [OF ok i(1)] by blast
    then show "c \<in> (\<Union>t\<in>K r. chunk part n T mi r t)"
      using i by (fastforce simp: K_def holders_def chunk_def seg_def)
  next
    fix c assume "c \<in> (\<Union>t\<in>K r. chunk part n T mi r t)"
    then obtain t x where t: "t < T" "x \<in> set (seg part n T mi t)" "mi_root x = r" "mi_child x = c"
      by (auto simp: K_def holders_def chunk_def)
    then have "x \<in> set mi" using seg_end_le [OF ok t(1)] mi(1) by (auto simp: seg_def)
    then show "c \<in> component mi r" using t by (auto simp: component_def)
  qed
  show "disjoint_family_on (chunk part n T mi r) (K r)"
  proof (unfold disjoint_family_on_def, intro ballI impI equals0I)
    fix t u c assume tu: "t \<in> K r" "u \<in> K r" "t \<noteq> u" and c: "c \<in> chunk part n T mi r t \<inter> chunk part n T mi r u"
    have lt: "t < T" "u < T" using tu by (auto simp: K_def holders_def)
    obtain i j where ij: "seg_start part n T t \<le> i" "i < seg_end part n T t" "mi_child (mi ! i) = c"
      "seg_start part n T u \<le> j" "j < seg_end part n T u" "mi_child (mi ! j) = c"
      using c by (auto simp: chunk_def seg_def)
    then have "i < n" "j < n" using seg_end_le [OF ok lt(1)] seg_end_le [OF ok lt(2)] by auto
    then have "i = j" using ij mi nth_eq_iff_index_eq [of "map mi_child mi" i j] by simp
    then show False using ij lt seg_facts(6) [OF ok, of t i] seg_facts(6) [OF ok, of u i] tu(3) by simp
  qed
qed

lemma round_queries_generic:
  assumes ok: "partition_ok part n T" and T: "T < size_max"
    and mi: "instr_sorted mi" "length mi = n"
    and l0: "zero_contents l0 = l0" and gm: "length gm = T"
    and K: "K = holders part n T (rho mi)" and sk: "sk = (\<lambda>t r. run_sum k sks l0 (seg part n T mi t) r)"
    and Qg0: "\<And>r g. g \<in> set gm \<Longrightarrow> Qg r {} (gsketch (reset_global g))"
    and Qg: "\<And>r D u g. D \<subseteq> K r \<Longrightarrow> u \<in> K r - D \<Longrightarrow> Qg r D g \<Longrightarrow>
      Qg r (insert u D) (Sketch_range_merge g (sk u r) k 1)"
  shows "\<exists>rs qs. round_queries part n T sched k sks l0 mi gm = Inr qs \<and> distinct rs \<and>
    set rs = mi_root ` set mi \<and>
    list_all2 (\<lambda>r q. (\<exists>t. K r = {t} \<and> q = sk t r) \<or> K r \<noteq> {} \<and> Qg r (K r) q) rs qs"
proof -
  let ?N = "mi_root ` set mi" and ?gid = "\<lambda>r. Max (K r)"
  let ?ps = "map (round_thread part n T k sks l0 mi) [0..<T]"
  let ?s = "\<lparr>progs = ?ps, gmerges = map reset_global gm, queries = []\<rparr>"
  have plan: "round_plan T T ?N K ?gid (items_of part n T mi)"
    unfolding K by (rule round_plan_holds [OF ok mi T])
  have ps: "?ps = map (\<lambda>t. map (act K ?gid sk t) (items_of part n T mi t)) [0..<T]"
    using round_thread_items [OF ok mi _ l0 K sk] by (intro map_cong) auto
  have "\<exists>rs. distinct rs \<and> set rs = ?N \<and>
    list_all2 (\<lambda>r q. (\<exists>t. K r = {t} \<and> q = sk t r) \<or> multi ?N K r \<and> Qg r (K r) q) rs
      (queries (run_round k sched ?s))"
  proof (rule run_round_queries [OF plan])
    fix r assume m: "multi ?N K r"
    have "?gid r < length gm" using round_planD(6) [OF plan m] gm(1) by simp
    then show "Qg r {} (gsketch (gmerges ?s ! ?gid r))" using Qg0 by simp
  qed (use ps gm Qg in \<open>auto simp: reset_global_def\<close>)
  then obtain rs where rs: "distinct rs" "set rs = ?N"
    "list_all2 (\<lambda>r q. (\<exists>t. K r = {t} \<and> q = sk t r) \<or> multi ?N K r \<and> Qg r (K r) q) rs
      (queries (run_round k sched ?s))" by blast
  have "list_all2 (\<lambda>r q. (\<exists>t. K r = {t} \<and> q = sk t r) \<or> K r \<noteq> {} \<and> Qg r (K r) q) rs
      (queries (run_round k sched ?s))"
    by (rule list_all2_mono [OF rs(3)]) (auto simp: multi_def)
  moreover have "reads_inside part n T" by (rule reads_inside_ok [OF ok])
  moreover have "globals_inside T ?ps" unfolding ps using plan by (rule globals_inside_plan)
  ultimately show ?thesis using rs(1,2) unfolding round_queries_def Let_def by (auto intro!: exI [of _ rs])
qed

lemma run_sum_exhausted:
  assumes "num_samples l0 \<le> k" "r \<in> mi_root ` set xs"
  shows "sample_idx (run_sum k sks l0 xs r) = num_samples l0 \<and> num_samples (run_sum k sks l0 xs r) = num_samples l0"
proof -
  have "filter (\<lambda>x. mi_root x = r) xs \<noteq> []" using assms(2) by (auto simp: filter_empty_conv)
  then show ?thesis unfolding run_sum_def
  proof (induction "filter (\<lambda>x. mi_root x = r) xs" arbitrary: xs rule: rev_nonempty_induct)
    case (single x)
    then show ?case using assms(1) by (simp flip: single add: Sketch_range_merge_def)
  next
    case (snoc x ys)
    have "num_samples (fold (\<lambda>x l. Sketch_range_merge l (sks (mi_child x)) k 1) ys l0) = num_samples l0"
      by (induction ys rule: rev_induct) (auto simp: Sketch_range_merge_def Let_def)
    then show ?case using assms(1) by (simp flip: snoc(3) add: Sketch_range_merge_def)
  qed
qed

text \<open>Once the samples are used up, every component is still queried, with a sketch that refuses.\<close>

lemma round_queries_exhausted:
  assumes ok: "partition_ok part n T" and T: "T < size_max"
    and mi: "instr_sorted mi" "length mi = n"
    and l0: "zero_contents l0 = l0" "num_samples l0 \<le> k" and gm: "length gm = T"
      "\<And>g. g \<in> set gm \<Longrightarrow> num_samples (gsketch g) = num_samples l0"
  shows "\<exists>rs qs. round_queries part n T sched k sks l0 mi gm = Inr qs \<and> set rs = mi_root ` set mi \<and>
    list_all2 (\<lambda>r q. num_samples q \<le> sample_idx q \<and> num_samples q = num_samples l0) rs qs"
proof -
  let ?K = "holders part n T (rho mi)" and ?sk = "\<lambda>t r. run_sum k sks l0 (seg part n T mi t) r"
  define Qg where "Qg r D g \<longleftrightarrow> num_samples g = num_samples l0 \<and> (D \<noteq> {} \<longrightarrow> num_samples g \<le> sample_idx g)"
    for r :: nat and D :: "nat set" and g :: "'a word Sketch"
  have "\<exists>rs qs. round_queries part n T sched k sks l0 mi gm = Inr qs \<and> distinct rs \<and>
    set rs = mi_root ` set mi \<and>
    list_all2 (\<lambda>r q. (\<exists>t. ?K r = {t} \<and> q = ?sk t r) \<or> ?K r \<noteq> {} \<and> Qg r (?K r) q) rs qs"
  proof (rule round_queries_generic [OF ok T mi l0(1) gm(1) refl refl])
    show "Qg r {} (gsketch (reset_global g))" if "g \<in> set gm" for r g
      using gm(2) [OF that] by (simp add: Qg_def reset_global_def zero_contents_def reset_sample_state_def)
    show "Qg r (insert u D) (Sketch_range_merge g (?sk u r) k 1)"
      if "D \<subseteq> ?K r" "u \<in> ?K r - D" "Qg r D g" for r D u g
      using that(3) l0(2) by (simp add: Qg_def Sketch_range_merge_def)
  qed
  then obtain rs qs where q: "round_queries part n T sched k sks l0 mi gm = Inr qs" "set rs = mi_root ` set mi"
    "list_all2 (\<lambda>r q. (\<exists>t. ?K r = {t} \<and> q = ?sk t r) \<or> ?K r \<noteq> {} \<and> Qg r (?K r) q) rs qs" by blast
  have "list_all2 (\<lambda>r q. num_samples q \<le> sample_idx q \<and> num_samples q = num_samples l0) rs qs"
  proof (rule list_all2_mono [OF q(3)])
    fix r q assume "(\<exists>t. ?K r = {t} \<and> q = ?sk t r) \<or> ?K r \<noteq> {} \<and> Qg r (?K r) q"
    then show "num_samples q \<le> sample_idx q \<and> num_samples q = num_samples l0"
    proof
      assume "\<exists>t. ?K r = {t} \<and> q = ?sk t r"
      then obtain t where t: "?K r = {t}" "q = ?sk t r" by blast
      have "t \<in> ?K r" using t(1) by simp
      then have "r \<in> mi_root ` set (seg part n T mi t)" by (auto simp: holders_def seg_def)
      from run_sum_exhausted [OF l0(2) this] t(2) show ?thesis by simp
    next
      assume "?K r \<noteq> {} \<and> Qg r (?K r) q"
      then show ?thesis by (auto simp: Qg_def)
    qed
  qed
  with q show ?thesis by blast
qed

lemma zero_contents_shape: "same_shape (zero_contents l) l"
  by (simp add: same_shape_def zero_contents_def reset_sample_state_def)

lemma zero_contents_wf: "sketch_wf (zero_contents l) \<longleftrightarrow> sketch_wf l"
  by (simp add: sketch_wf_def zero_contents_def reset_sample_state_def)

context linear_sketch
begin

lemma serves_zero:
  assumes "k < num_samples ref" "sketch_wf l \<and> same_shape l ref"
  shows "serves xxh holds ref k (zero_contents l) {}"
proof -
  have "sample_region ref k \<subseteq> {..<length (buckets l)}"
    using sample_region_bound [of l k] assms by (auto simp: same_shape_def sample_region_def sketch_wf_def)
  then have "repr (sample_region ref k) (zero_contents l) {}" by (rule repr_zero)
  with assms zero_contents_shape [of l] zero_contents_wf [of l] show ?thesis
    using same_shape_trans [of "zero_contents l" l ref] by (simp add: serves_def)
qed

lemma serves_range_merge:
  assumes "k < num_samples ref" "serves xxh holds ref k l S" "serves xxh holds ref k s S'"
  shows "serves xxh holds ref k (Sketch_range_merge l s k 1) (sym_diff S S')"
proof -
  have l: "sketch_wf l" "same_shape l ref" "repr (sample_region ref k) l S"
    and s: "sketch_wf s" "same_shape s ref" "repr (sample_region ref k) s S'"
    using assms by (auto simp: serves_def)
  have reg: "sample_region l k = sample_region ref k" "num_samples l = num_samples ref"
    using l(2) by (auto simp: same_shape_def sample_region_def)
  have "repr (sample_region ref k) (Sketch_range_merge l s k 1) (sym_diff S S')"
    using repr_range_merge [of l s k S S'] l s assms(1) reg same_shape_trans [OF l(2)]
      same_shape_sym [OF s(2)] by simp
  then show ?thesis
    using l Sketch_range_merge_wf same_shape_trans [OF Sketch_range_merge_shape l(2)]
    by (simp add: serves_def)
qed

lemma fold_range_merge:
  assumes "k < num_samples ref" "serves xxh holds ref k l S" "sample_idx l \<le> k" "distinct cs"
    and "\<And>c. c \<in> set cs \<Longrightarrow> serves xxh holds ref k (sks c) (V c)"
  shows "serves xxh holds ref k (fold (\<lambda>c l. Sketch_range_merge l (sks c) k 1) cs l)
      (sym_diff S (xset V (set cs))) \<and>
    sample_idx (fold (\<lambda>c l. Sketch_range_merge l (sks c) k 1) cs l) = (if cs = [] then sample_idx l else k)"
  using assms(2-5)
proof (induction cs arbitrary: l S)
  case (Cons c cs)
  let ?l = "Sketch_range_merge l (sks c) k 1"
  have c: "serves xxh holds ref k ?l (sym_diff S (V c))"
    using Cons.prems by (intro serves_range_merge [OF assms(1)]) auto
  have "num_samples l = num_samples ref" using Cons.prems(1) by (simp add: serves_def same_shape_def)
  then have i: "sample_idx ?l = k"
    using Cons.prems(2) assms(1) by (simp add: Sketch_range_merge_sample_idx)
  have "sym_diff (sym_diff S (V c)) (xset V (set cs)) = sym_diff S (xset V (set (c # cs)))"
    using Cons.prems(3) by (auto simp: xset_insert)
  moreover have "serves xxh holds ref k (fold (\<lambda>c l. Sketch_range_merge l (sks c) k 1) cs ?l)
      (sym_diff (sym_diff S (V c)) (xset V (set cs))) \<and>
    sample_idx (fold (\<lambda>c l. Sketch_range_merge l (sks c) k 1) cs ?l) = (if cs = [] then sample_idx ?l else k)"
    using Cons.prems i by (intro Cons.IH [OF c]) auto
  ultimately show ?case using i by simp
qed simp

lemma run_sum_serves:
  assumes ok: "partition_ok part n T" and mi: "length mi = n" "distinct (map mi_child mi)"
    and k: "k < num_samples ref" and l0: "zero_contents l0 = l0" "serves xxh holds ref k l0 {}"
    and sks: "\<And>c. c \<in> mi_child ` set mi \<Longrightarrow> serves xxh holds ref k (sks c) (V c)"
    and t: "t \<in> holders part n T (rho mi) r"
  defines "sk \<equiv> run_sum k sks l0 (seg part n T mi t) r"
  shows "serves xxh holds ref k sk (xset V (chunk part n T mi r t))" "sample_idx sk = k"
proof -
  let ?xs = "filter (\<lambda>x. mi_root x = r) (seg part n T mi t)"
  have tT: "t < T" using t by (simp add: holders_def)
  have ne: "map mi_child ?xs \<noteq> []" using t by (auto simp: holders_def seg_def filter_empty_conv)
  have "sample_idx (zero_contents l0) = 0" by (simp add: zero_contents_def reset_sample_state_def)
  then have i0: "sample_idx l0 \<le> k" using l0(1) by simp
  have d: "distinct (map mi_child ?xs)"
    using distinct_seg [OF ok mi(1) tT mi(2)] by (simp add: distinct_map_filter)
  have sub: "mi_child ` set ?xs \<subseteq> mi_child ` set mi"
    using seg_take_drop [OF ok mi(1) tT] by (auto dest: in_set_takeD in_set_dropD)
  have eq: "sk = fold (\<lambda>c l. Sketch_range_merge l (sks c) k 1) (map mi_child ?xs) l0"
    by (simp add: sk_def run_sum_def fold_map comp_def)
  have st: "set (map mi_child ?xs) = chunk part n T mi r t" by (auto simp: chunk_def)
  have "serves xxh holds ref k sk (sym_diff {} (xset V (set (map mi_child ?xs)))) \<and>
      sample_idx sk = (if map mi_child ?xs = [] then sample_idx l0 else k)"
    unfolding eq using sks sub by (intro fold_range_merge [OF k l0(2) i0 d]) auto
  then show "serves xxh holds ref k sk (xset V (chunk part n T mi r t))" "sample_idx sk = k"
    using ne unfolding st by auto
qed

lemma round_queries_correct:
  assumes ok: "partition_ok part n T" and T: "T < size_max"
    and mi: "instr_sorted mi" "length mi = n" "distinct (map mi_child mi)"
    and k: "k < num_samples ref"
    and l0: "zero_contents l0 = l0" "serves xxh holds ref k l0 {}"
    and sks: "\<And>c. c \<in> mi_child ` set mi \<Longrightarrow> serves xxh holds ref k (sks c) (V c)"
    and gm: "length gm = T" "\<And>g. g \<in> set gm \<Longrightarrow> sketch_wf (gsketch g) \<and> same_shape (gsketch g) ref"
  shows "\<exists>rs qs. round_queries part n T sched k sks l0 mi gm = Inr qs \<and> distinct rs \<and>
    set rs = mi_root ` set mi \<and>
    list_all2 (\<lambda>r q. serves xxh holds ref k q (xset V (component mi r)) \<and> sample_idx q = k) rs qs"
proof -
  let ?K = "holders part n T (rho mi)" and ?sk = "\<lambda>t r. run_sum k sks l0 (seg part n T mi t) r"
  define Qg where "Qg r D g \<longleftrightarrow> serves xxh holds ref k g (xset (\<lambda>t. xset V (chunk part n T mi r t)) D) \<and>
    sample_idx g = (if D = {} then 0 else k)" for r D g
  note sk = run_sum_serves [where V = V and sks = sks, OF ok mi(2,3) k l0 sks]
  have fin: "finite (?K r)" for r using holders_facts [OF ok] by blast
  have Qg_step: "Qg r (insert u D) (Sketch_range_merge g (?sk u r) k 1)"
    if "D \<subseteq> ?K r" "u \<in> ?K r - D" "Qg r D g" for r D u g
  proof -
    have u: "u \<in> ?K r" "u \<notin> D" and D: "finite D" using that finite_subset [OF that(1) fin] by auto
    have "sample_idx (Sketch_range_merge g (?sk u r) k 1) = k"
      using that(3) k by (auto simp: Qg_def serves_def same_shape_def Sketch_range_merge_sample_idx)
    then show ?thesis
      using serves_range_merge [OF k _ sk(1) [OF _ u(1)]] that(3)
      unfolding Qg_def xset_insert [OF D u(2)] by simp
  qed
  have comp: "xset (\<lambda>t. xset V (chunk part n T mi r t)) (?K r) = xset V (component mi r)" for r
    unfolding component_chunks(1) [OF ok mi(2,3)]
    by (intro xset_UNION [symmetric] fin component_chunks(2) [OF ok mi(2,3)]) (simp add: chunk_def)
  have g0: "Qg r {} (gsketch (reset_global g))" if "g \<in> set gm" for r g
    using serves_zero [OF k] gm(2) [OF that]
    by (simp add: Qg_def reset_global_def zero_contents_def reset_sample_state_def)
  have "\<exists>rs qs. round_queries part n T sched k sks l0 mi gm = Inr qs \<and> distinct rs \<and>
    set rs = mi_root ` set mi \<and>
    list_all2 (\<lambda>r q. (\<exists>t. ?K r = {t} \<and> q = ?sk t r) \<or> ?K r \<noteq> {} \<and> Qg r (?K r) q) rs qs"
    by (rule round_queries_generic [OF ok T mi(1,2) l0(1) gm(1) refl refl g0 Qg_step])
  then obtain rs qs where rs: "round_queries part n T sched k sks l0 mi gm = Inr qs" "distinct rs"
    "set rs = mi_root ` set mi"
    "list_all2 (\<lambda>r q. (\<exists>t. ?K r = {t} \<and> q = ?sk t r) \<or> ?K r \<noteq> {} \<and> Qg r (?K r) q) rs qs" by blast
  have "list_all2 (\<lambda>r q. serves xxh holds ref k q (xset V (component mi r)) \<and> sample_idx q = k) rs qs"
  proof (rule list_all2_mono [OF rs(4)])
    fix r q assume "(\<exists>t. ?K r = {t} \<and> q = ?sk t r) \<or> ?K r \<noteq> {} \<and> Qg r (?K r) q"
    then show "serves xxh holds ref k q (xset V (component mi r)) \<and> sample_idx q = k"
    proof
      assume "\<exists>t. ?K r = {t} \<and> q = ?sk t r"
      then obtain t where t: "?K r = {t}" "q = ?sk t r" by blast
      then show ?thesis using sk [of t r] comp [of r] by simp
    next
      assume "?K r \<noteq> {} \<and> Qg r (?K r) q"
      then show ?thesis using comp [of r] by (simp add: Qg_def)
    qed
  qed
  with rs show ?thesis by blast
qed

end

end
