(* ===== verification/DSU.thy ===== *)
theory DSU
  imports Connectivity
begin

text \<open>
  include/dsu.h: union-find with path halving and random priorities. \<open>DSU\<close> is the state of
  both classes (\<^verbatim>\<open>DisjointSetUnion\<close> and the atomic \<^verbatim>\<open>DisjointSetUnion_MT\<close>, whose parent array
  holds atomics). The priorities come from a clock-seeded \<^verbatim>\<open>mt19937_64\<close>: they are an argument
  of the constructor. Node ids index the arrays; reading outside them, or a loop that never
  ends, is the value \<open>None\<close>.
\<close>

record DSUMergeRet =
  merged :: bool
  ret_root :: nat
  ret_child :: nat

record DSU =
  dsu_n :: nat
  parent :: "nat list"
  priority :: "nat list"

section \<open>Operations\<close>

definition DSU_new :: "nat \<Rightarrow> nat list \<Rightarrow> DSU" where
  "DSU_new n prio = \<lparr>dsu_n = n, parent = [0..<n], priority = take n prio\<rparr>"

definition DSU_copy :: "DSU \<Rightarrow> DSU" where
  "DSU_copy oth = \<lparr>dsu_n = dsu_n oth, parent = map (\<lambda>i. parent oth ! i) [0..<dsu_n oth],
     priority = map (\<lambda>i. priority oth ! i) [0..<dsu_n oth]\<rparr>"

definition order_edge :: "nat list \<Rightarrow> nat \<Rightarrow> nat \<Rightarrow> nat \<times> nat" where
  "order_edge prio a b =
     (let (a, b) = (if prio ! a = prio ! b \<and> a > b then (b, a) else (a, b))
      in if prio ! a < prio ! b then (b, a) else (a, b))"

partial_function (option) find_loop :: "nat list \<Rightarrow> nat \<Rightarrow> (nat \<times> nat list) option" where
  "find_loop p u =
     (if u < length p \<and> p ! u < length p then
        if p ! (p ! u) \<noteq> p ! u then
          (let p' = p[u := p ! (p ! u)] in find_loop p' (p' ! u))
        else Some (p ! u, p)
      else None)"

definition DSU_find_root :: "DSU \<Rightarrow> nat \<Rightarrow> (nat \<times> DSU) option" where
  "DSU_find_root d u =
     (case find_loop (parent d) u of
        Some (r, p) \<Rightarrow> Some (r, d\<lparr>parent := p\<rparr>) | None \<Rightarrow> None)"

definition DSU_merge :: "DSU \<Rightarrow> nat \<Rightarrow> nat \<Rightarrow> (DSUMergeRet \<times> DSU) option" where
  "DSU_merge d u v =
     (case DSU_find_root d u of None \<Rightarrow> None | Some (a, d) \<Rightarrow>
      (case DSU_find_root d v of None \<Rightarrow> None | Some (b, d) \<Rightarrow>
       if a = b then Some (\<lparr>merged = False, ret_root = 0, ret_child = 0\<rparr>, d)
       else let (a, b) = order_edge (priority d) a b
            in Some (\<lparr>merged = True, ret_root = a, ret_child = b\<rparr>, d\<lparr>parent := (parent d)[b := a]\<rparr>)))"

text \<open>
  The atomic version retries while its compare-and-swap fails. \<^verbatim>\<open>compare_exchange_weak\<close> may
  fail spuriously: \<open>fails\<close> says for each attempt whether it does. A failed exchange loads the
  current parent into \<open>b\<close>.
\<close>

partial_function (option) DSU_MT_merge ::
    "bool list \<Rightarrow> DSU \<Rightarrow> nat \<Rightarrow> nat \<Rightarrow> (DSUMergeRet \<times> DSU) option" where
  "DSU_MT_merge fails d a b =
     (case DSU_find_root d a of None \<Rightarrow> None | Some (a, d) \<Rightarrow>
      (case DSU_find_root d b of None \<Rightarrow> None | Some (b, d) \<Rightarrow>
       if a = b then Some (\<lparr>merged = False, ret_root = 0, ret_child = 0\<rparr>, d)
       else let (a, b) = order_edge (priority d) a b
            in if parent d ! b = b \<and> (fails = [] \<or> \<not> hd fails)
               then Some (\<lparr>merged = True, ret_root = a, ret_child = b\<rparr>, d\<lparr>parent := (parent d)[b := a]\<rparr>)
               else DSU_MT_merge (tl fails) d a (parent d ! b)))"

definition DSU_reset :: "DSU \<Rightarrow> DSU" where
  "DSU_reset d = d\<lparr>parent := [0..<dsu_n d]\<rparr>"

section \<open>The order on nodes\<close>

text \<open>\<open>beaten prio a b\<close>: node \<open>b\<close> has priority over \<open>a\<close>.\<close>

definition beaten :: "nat list \<Rightarrow> nat \<Rightarrow> nat \<Rightarrow> bool" where
  "beaten prio a b \<longleftrightarrow> prio ! a < prio ! b \<or> prio ! a = prio ! b \<and> b < a"

lemma beaten_trans: "beaten prio a b \<Longrightarrow> beaten prio b c \<Longrightarrow> beaten prio a c"
  by (auto simp: beaten_def)

lemma beaten_irrefl [simp]: "\<not> beaten prio a a"
  by (simp add: beaten_def)

lemma beaten_total: "a \<noteq> b \<Longrightarrow> beaten prio a b \<or> beaten prio b a"
  by (auto simp: beaten_def)

lemma order_edge_cases:
  assumes "a \<noteq> b"
  shows "order_edge prio a b = (a, b) \<and> beaten prio b a \<or> order_edge prio a b = (b, a) \<and> beaten prio a b"
  using assms by (auto simp: order_edge_def beaten_def)

definition rank :: "nat list \<Rightarrow> nat \<Rightarrow> nat \<Rightarrow> nat" where
  "rank prio n a = card {j. j < n \<and> beaten prio j a}"

lemma rank_less:
  assumes "beaten prio a b" "a < n"
  shows "rank prio n a < rank prio n b"
proof -
  have "{j. j < n \<and> beaten prio j a} \<subseteq> {j. j < n \<and> beaten prio j b}"
    using beaten_trans [OF _ assms(1)] by blast
  moreover have "a \<in> {j. j < n \<and> beaten prio j b} - {j. j < n \<and> beaten prio j a}"
    using assms by simp
  ultimately have "{j. j < n \<and> beaten prio j a} \<subset> {j. j < n \<and> beaten prio j b}" by blast
  then show ?thesis unfolding rank_def by (intro psubset_card_mono) simp_all
qed

lemma rank_bound:
  assumes "a < n"
  shows "rank prio n a < n"
proof -
  have "a \<in> {..<n} - {j. j < n \<and> beaten prio j a}" using assms by simp
  then have "{j. j < n \<and> beaten prio j a} \<subset> {..<n}" by blast
  from psubset_card_mono [OF _ this] show ?thesis by (simp add: rank_def)
qed

section \<open>Parent forests\<close>

text \<open>Every non-root points to a node that beats it.\<close>

definition forest :: "nat list \<Rightarrow> nat list \<Rightarrow> bool" where
  "forest prio p \<longleftrightarrow> (\<forall>i < length p. p ! i < length p \<and> (p ! i \<noteq> i \<longrightarrow> beaten prio i (p ! i)))"

definition root_of :: "nat list \<Rightarrow> nat \<Rightarrow> nat" where
  "root_of p u = ((\<lambda>x. p ! x) ^^ length p) u"

lemma forest_lt [simp]: "forest prio p \<Longrightarrow> u < length p \<Longrightarrow> p ! u < length p"
  by (simp add: forest_def)

lemma forest_beaten: "forest prio p \<Longrightarrow> u < length p \<Longrightarrow> p ! u \<noteq> u \<Longrightarrow> beaten prio u (p ! u)"
  by (simp add: forest_def)

lemma iterate_lt: "forest prio p \<Longrightarrow> u < length p \<Longrightarrow> ((\<lambda>x. p ! x) ^^ k) u < length p"
  by (induction k) auto

lemma iterate_rank:
  assumes "forest prio p" "u < length p"
  shows "p ! (((\<lambda>x. p ! x) ^^ k) u) = ((\<lambda>x. p ! x) ^^ k) u \<or>
    k \<le> rank prio (length p) (((\<lambda>x. p ! x) ^^ k) u)"
proof (induction k)
  case (Suc k)
  let ?x = "((\<lambda>x. p ! x) ^^ k) u"
  have "?x < length p" using assms by (rule iterate_lt)
  then show ?case
    using Suc assms rank_less [of prio ?x "p ! ?x" "length p"] by (force simp: forest_def)
qed simp

lemma root_of_root [dsu_simps]:
  assumes "forest prio p" "u < length p"
  shows "p ! root_of p u = root_of p u"
  using iterate_rank [OF assms, of "length p"] rank_bound [OF iterate_lt [OF assms, of "length p"], of prio]
  by (auto simp: root_of_def)

lemma root_of_lt [dsu_simps]: "forest prio p \<Longrightarrow> u < length p \<Longrightarrow> root_of p u < length p"
  by (simp add: root_of_def iterate_lt)

lemma root_of_step:
  assumes "forest prio p" "u < length p"
  shows "root_of p (p ! u) = root_of p u"
  using root_of_root [OF assms] by (simp add: root_of_def funpow_swap1)

lemma root_of_self: "p ! u = u \<Longrightarrow> root_of p u = u"
proof -
  assume "p ! u = u"
  then have "((\<lambda>x. p ! x) ^^ k) u = u" for k by (induction k) auto
  then show ?thesis by (simp add: root_of_def)
qed

lemma root_of_idem [dsu_simps]:
  "forest prio p \<Longrightarrow> u < length p \<Longrightarrow> root_of p (root_of p u) = root_of p u"
  by (rule root_of_self) (rule root_of_root)

text \<open>Induction towards the root: every node follows from its parent.\<close>

lemma forest_induct [consumes 2, case_names root step]:
  assumes "forest prio p" "u < length p"
    and root: "\<And>u. u < length p \<Longrightarrow> p ! u = u \<Longrightarrow> P u"
    and step: "\<And>u. u < length p \<Longrightarrow> p ! u \<noteq> u \<Longrightarrow> P (p ! u) \<Longrightarrow> P u"
  shows "P u"
  using assms(2)
proof (induction "length p - rank prio (length p) u" arbitrary: u rule: less_induct)
  case less
  show ?case
  proof (cases "p ! u = u")
    case False
    then have "rank prio (length p) u < rank prio (length p) (p ! u)"
      using forest_beaten [OF assms(1) less.prems] less.prems by (intro rank_less)
    moreover have "rank prio (length p) (p ! u) < length p"
      using assms(1) less.prems by (intro rank_bound) simp
    ultimately have "P (p ! u)" using assms(1) less.prems by (intro less.hyps) auto
    with less.prems False show ?thesis by (rule step)
  qed (rule root [OF less.prems])
qed

lemma root_of_beats:
  assumes "forest prio p" "u < length p"
  shows "root_of p u = u \<or> beaten prio u (root_of p u)"
  using assms
proof (induction rule: forest_induct)
  case (step u)
  have "beaten prio u (p ! u)" using step forest_beaten [OF assms(1)] by blast
  with step show ?case
    using root_of_step [OF assms(1) step(1)] beaten_trans [of prio u "p ! u"] by auto
qed (simp add: root_of_self)

text \<open>Path halving: a non-root may be redirected to any node of its tree that beats it.\<close>

lemma compress:
  assumes "forest prio p" "u < length p" "p ! u \<noteq> u" "z < length p" "beaten prio u z"
    and "root_of p z = root_of p u"
  shows "forest prio (p[u := z])" and "x < length p \<Longrightarrow> root_of (p[u := z]) x = root_of p x"
proof -
  let ?p = "p[u := z]"
  show f: "forest prio ?p" using assms by (auto simp: forest_def nth_list_update)
  assume "x < length p"
  then have "x < length ?p" by simp
  with f show "root_of ?p x = root_of p x"
  proof (induction rule: forest_induct)
    case (root x)
    then have "x \<noteq> u" using assms by (metis beaten_irrefl length_list_update nth_list_update_eq)
    with root show ?case by (simp add: root_of_self)
  next
    case (step x)
    have "root_of ?p x = root_of p (?p ! x)" using step root_of_step [OF f step(1)] by simp
    also have "\<dots> = root_of p x"
      using step(1) assms by (cases "x = u") (auto simp: root_of_step [OF assms(1)])
    finally show ?case .
  qed
qed

text \<open>Linking a root under a node that beats it.\<close>

lemma link:
  assumes "forest prio p" "b < length p" "p ! b = b" "a < length p" "beaten prio b a"
  shows "forest prio (p[b := a])"
    and "root_of p a \<noteq> b"
    and "x < length p \<Longrightarrow> root_of (p[b := a]) x = (if root_of p x = b then root_of p a else root_of p x)"
proof -
  let ?p = "p[b := a]"
  show f: "forest prio ?p" using assms by (auto simp: forest_def nth_list_update)
  show ab: "root_of p a \<noteq> b"
    using root_of_beats [OF assms(1,4)] assms(5) beaten_trans beaten_irrefl by metis
  have a: "root_of ?p y = root_of p y" if "y < length p" "root_of p y \<noteq> b" for y
    using assms(1) that
  proof (induction rule: forest_induct)
    case (root x)
    then show ?case by (metis nth_list_update_neq root_of_self)
  next
    case (step x)
    then have "x \<noteq> b" using assms(3) by blast
    with step show ?case
      using root_of_step [OF assms(1)] root_of_step [OF f] by (metis length_list_update nth_list_update_neq)
  qed
  assume "x < length p"
  with assms(1) show "root_of ?p x = (if root_of p x = b then root_of p a else root_of p x)"
  proof (induction rule: forest_induct)
    case (root x)
    then show ?case
      using a [of x] a [OF assms(4) ab] root_of_step [OF f, of b] assms(2)
      by (auto simp: root_of_self)
  next
    case (step x)
    then have "x \<noteq> b" using assms(3) by blast
    with step show ?case
      using root_of_step [OF assms(1)] root_of_step [OF f] by (metis length_list_update nth_list_update_neq)
  qed
qed


section \<open>The operations\<close>

definition dsu_inv :: "DSU \<Rightarrow> bool" where
  "dsu_inv d \<longleftrightarrow> length (parent d) = dsu_n d \<and> length (priority d) = dsu_n d \<and>
     forest (priority d) (parent d)"

abbreviation dsu_root :: "DSU \<Rightarrow> nat \<Rightarrow> nat" where
  "dsu_root d u \<equiv> root_of (parent d) u"

lemma find_loop_correct:
  assumes "forest prio p" "u < length p"
  shows "\<exists>p'. find_loop p u = Some (root_of p u, p') \<and> length p' = length p \<and> forest prio p' \<and>
    (\<forall>x < length p. root_of p' x = root_of p x)"
  using assms
proof (induction "length p - rank prio (length p) u" arbitrary: p u rule: less_induct)
  case less
  note f = less.prems(1) and u = less.prems(2)
  show ?case
  proof (cases "p ! (p ! u) = p ! u")
    case True
    then have "root_of p u = p ! u" using root_of_step [OF f u] root_of_self by metis
    then show ?thesis using True f u by (subst find_loop.simps) simp
  next
    case False
    let ?z = "p ! (p ! u)"
    let ?p = "p[u := ?z]"
    have nr: "p ! u \<noteq> u" and v: "p ! u < length p" and z: "?z < length p"
      using False f u by (auto simp: forest_def)
    have b1: "beaten prio u (p ! u)" and b: "beaten prio u ?z"
      using forest_beaten [OF f u nr] forest_beaten [OF f v False] beaten_trans by blast+
    have rz: "root_of p ?z = root_of p u" using root_of_step [OF f v] root_of_step [OF f u] by simp
    note c = compress [OF f u nr z b rz]
    have "rank prio (length p) u < rank prio (length p) ?z" "rank prio (length p) ?z < length p"
      using rank_less [OF b u] rank_bound [OF z] by auto
    then have "\<exists>p'. find_loop ?p ?z = Some (root_of ?p ?z, p') \<and> length p' = length ?p \<and>
        forest prio p' \<and> (\<forall>x < length ?p. root_of p' x = root_of ?p x)"
      using c(1) z by (intro less.hyps) auto
    moreover have "find_loop p u = find_loop ?p ?z"
      using False u v by (subst find_loop.simps) (simp add: Let_def)
    ultimately show ?thesis using c(2) z rz by auto
  qed
qed

lemma DSU_find_root_correct:
  assumes "dsu_inv d" "u < dsu_n d"
  shows "\<exists>d'. DSU_find_root d u = Some (dsu_root d u, d') \<and> dsu_inv d' \<and> dsu_n d' = dsu_n d \<and>
    priority d' = priority d \<and> (\<forall>x < dsu_n d. dsu_root d' x = dsu_root d x)"
  using assms find_loop_correct [of "priority d" "parent d" u]
  by (auto simp: dsu_inv_def DSU_find_root_def)

lemma dsu_link:
  assumes "dsu_inv d" "dsu_root d u = u" "dsu_root d v = v" "u \<noteq> v" "u < dsu_n d" "v < dsu_n d"
    and "order_edge (priority d) u v = (a, b)" and "d' = d\<lparr>parent := (parent d)[b := a]\<rparr>"
  shows "{a, b} = {u, v}" "parent d ! b = b" "dsu_inv d'"
    "x < dsu_n d \<Longrightarrow> dsu_root d' x = (if dsu_root d x = b then a else dsu_root d x)"
proof -
  have f: "forest (priority d) (parent d)" "length (parent d) = dsu_n d"
    using assms by (auto simp: dsu_inv_def)
  show ab: "{a, b} = {u, v}"
    using order_edge_cases [OF assms(4), of "priority d"] assms(7) by auto
  have b: "beaten (priority d) b a"
    using order_edge_cases [OF assms(4), of "priority d"] assms(7) by auto
  have lt: "a < dsu_n d" "b < dsu_n d" using ab assms by (auto simp: doubleton_eq_iff)
  have ra: "dsu_root d a = a" "dsu_root d b = b" using ab assms by (auto simp: doubleton_eq_iff)
  show pb: "parent d ! b = b" using root_of_root [OF f(1), of b] ra lt f by simp
  note l = link [OF f(1) _ pb _ b, unfolded f(2), OF lt(2,1)]
  show "dsu_inv d'" using l(1) assms by (simp add: dsu_inv_def)
  show "x < dsu_n d \<Longrightarrow> dsu_root d' x = (if dsu_root d x = b then a else dsu_root d x)"
    using l(3) assms(8) ra by simp
qed

text \<open>What a merge of \<open>u\<close> and \<open>v\<close> does to the roots and what it reports.\<close>

definition merge_post :: "DSU \<Rightarrow> nat \<Rightarrow> nat \<Rightarrow> DSUMergeRet \<Rightarrow> DSU \<Rightarrow> bool" where
  "merge_post d u v r d' \<longleftrightarrow> dsu_inv d' \<and> dsu_n d' = dsu_n d \<and> priority d' = priority d \<and>
     (if dsu_root d u = dsu_root d v
      then r = \<lparr>merged = False, ret_root = 0, ret_child = 0\<rparr> \<and>
        (\<forall>x < dsu_n d. dsu_root d' x = dsu_root d x)
      else merged r \<and> {ret_root r, ret_child r} = {dsu_root d u, dsu_root d v} \<and>
        (\<forall>x < dsu_n d. dsu_root d' x =
          (if dsu_root d x = ret_child r then ret_root r else dsu_root d x)))"

lemma dsu_root_lt: "dsu_inv d \<Longrightarrow> u < dsu_n d \<Longrightarrow> dsu_root d u < dsu_n d"
  by (metis dsu_inv_def root_of_lt)

lemma dsu_root_idem: "dsu_inv d \<Longrightarrow> u < dsu_n d \<Longrightarrow> dsu_root d (dsu_root d u) = dsu_root d u"
  by (metis dsu_inv_def root_of_idem)

lemma two_finds:
  assumes "dsu_inv d" "u < dsu_n d" "v < dsu_n d"
  obtains d1 d2 where "DSU_find_root d u = Some (dsu_root d u, d1)"
    and "DSU_find_root d1 v = Some (dsu_root d v, d2)"
    and "dsu_inv d2" "dsu_n d2 = dsu_n d" "priority d2 = priority d"
    and "\<And>x. x < dsu_n d \<Longrightarrow> dsu_root d2 x = dsu_root d x"
proof -
  obtain d1 where d1: "DSU_find_root d u = Some (dsu_root d u, d1)" "dsu_inv d1" "dsu_n d1 = dsu_n d"
    "priority d1 = priority d" "\<forall>x < dsu_n d. dsu_root d1 x = dsu_root d x"
    using DSU_find_root_correct [OF assms(1,2)] by blast
  obtain d2 where "DSU_find_root d1 v = Some (dsu_root d1 v, d2)" "dsu_inv d2" "dsu_n d2 = dsu_n d1"
    "priority d2 = priority d1" "\<forall>x < dsu_n d1. dsu_root d2 x = dsu_root d1 x"
    using DSU_find_root_correct [of d1 v] d1 assms by auto
  with d1 assms show ?thesis by (intro that [of d1 d2]) auto
qed

lemma DSU_merge_correct:
  assumes "dsu_inv d" "u < dsu_n d" "v < dsu_n d"
  shows "\<exists>r d'. DSU_merge d u v = Some (r, d') \<and> merge_post d u v r d'"
proof -
  obtain d1 d2 where d: "DSU_find_root d u = Some (dsu_root d u, d1)"
    "DSU_find_root d1 v = Some (dsu_root d v, d2)" "dsu_inv d2" "dsu_n d2 = dsu_n d"
    "priority d2 = priority d" "\<And>x. x < dsu_n d \<Longrightarrow> dsu_root d2 x = dsu_root d x"
    by (rule two_finds [OF assms]) blast
  show ?thesis
  proof (cases "dsu_root d u = dsu_root d v")
    case True
    then show ?thesis using d by (simp add: DSU_merge_def merge_post_def)
  next
    case False
    obtain a b where ab: "order_edge (priority d2) (dsu_root d u) (dsu_root d v) = (a, b)"
      by fastforce
    have r: "dsu_root d2 (dsu_root d u) = dsu_root d u" "dsu_root d2 (dsu_root d v) = dsu_root d v"
      using d(6) dsu_root_lt dsu_root_idem assms by simp_all
    note l = dsu_link [OF d(3) r False _ _ ab refl]
    show ?thesis using d ab False l(1,3,4) dsu_root_lt assms
      by (simp add: DSU_merge_def merge_post_def)
  qed
qed

lemma merge_post_retry:
  assumes "merge_post d2 a b r d'" "{a, b} = {dsu_root d u, dsu_root d v}" "a < dsu_n d" "b < dsu_n d"
    and "dsu_n d2 = dsu_n d" "priority d2 = priority d" "dsu_root d u \<noteq> dsu_root d v"
    and "dsu_root d2 a = a" "dsu_root d2 b = b"
    and "\<And>x. x < dsu_n d \<Longrightarrow> dsu_root d2 x = dsu_root d x"
  shows "merge_post d u v r d'"
proof -
  have "a \<noteq> b" using assms(2,7) by (auto simp: doubleton_eq_iff)
  then show ?thesis using assms unfolding merge_post_def by simp
qed

lemma DSU_MT_merge_correct:
  assumes "dsu_inv d" "u < dsu_n d" "v < dsu_n d"
  shows "\<exists>r d'. DSU_MT_merge fails d u v = Some (r, d') \<and> merge_post d u v r d'"
  using assms
proof (induction fails arbitrary: d u v rule: length_induct)
  case (1 fails d u v)
  let ?u = "dsu_root d u" and ?v = "dsu_root d v"
  obtain d1 d2 where d: "DSU_find_root d u = Some (?u, d1)"
    "DSU_find_root d1 v = Some (?v, d2)" "dsu_inv d2" "dsu_n d2 = dsu_n d"
    "priority d2 = priority d" "\<And>x. x < dsu_n d \<Longrightarrow> dsu_root d2 x = dsu_root d x"
    by (rule two_finds [OF 1(2,3,4)]) blast
  show ?case
  proof (cases "?u = ?v")
    case True
    then show ?thesis using d by (subst DSU_MT_merge.simps) (simp add: merge_post_def)
  next
    case False
    obtain a b where ab: "order_edge (priority d2) ?u ?v = (a, b)" by fastforce
    have r: "dsu_root d2 ?u = ?u" "dsu_root d2 ?v = ?v"
      using d(6) dsu_root_lt dsu_root_idem 1(2,3,4) by simp_all
    have lt: "?u < dsu_n d2" "?v < dsu_n d2" using 1(2,3,4) dsu_root_lt d(4) by simp_all
    note l = dsu_link [OF d(3) r False lt ab refl]
    show ?thesis
    proof (cases "fails = [] \<or> \<not> hd fails")
      case True
      then show ?thesis using d ab False l
        by (subst DSU_MT_merge.simps) (simp add: merge_post_def)
    next
      case retry: False
      then have "length (tl fails) < length fails" by (cases fails) auto
      moreover have lt': "a < dsu_n d2" "b < dsu_n d2" and r': "dsu_root d2 a = a" "dsu_root d2 b = b"
        using l(1) lt r by (auto simp: doubleton_eq_iff)
      ultimately obtain r d' where
        m: "DSU_MT_merge (tl fails) d2 a b = Some (r, d')" "merge_post d2 a b r d'"
        using 1(1) d(3) by blast
      have "DSU_MT_merge fails d u v = DSU_MT_merge (tl fails) d2 a b"
        using d(1,2) ab False l(2) retry by (subst DSU_MT_merge.simps) simp
      with m merge_post_retry [OF m(2) l(1) _ _ d(4,5) False r' d(6)] lt' d(4) show ?thesis by simp
    qed
  qed
qed

lemma DSU_new_inv:
  assumes "n \<le> length prio"
  shows "dsu_inv (DSU_new n prio)" "dsu_n (DSU_new n prio) = n"
    "u < n \<Longrightarrow> dsu_root (DSU_new n prio) u = u"
  using assms by (auto simp: dsu_inv_def DSU_new_def forest_def intro: root_of_self)

lemma DSU_reset_inv:
  assumes "dsu_inv d"
  shows "dsu_inv (DSU_reset d)" "dsu_n (DSU_reset d) = dsu_n d"
    "u < dsu_n d \<Longrightarrow> dsu_root (DSU_reset d) u = u"
  using assms by (auto simp: dsu_inv_def DSU_reset_def forest_def intro: root_of_self)

lemma DSU_copy_id: "dsu_inv d \<Longrightarrow> DSU_copy d = d"
  by (auto simp: DSU_copy_def dsu_inv_def intro!: DSU.equality nth_equalityI)

lemma redirect_roots:
  fixes x y a b :: nat
  assumes "{r, c} = {a, b}" "a \<noteq> b"
  shows "((if x = c then r else x) = (if y = c then r else y)) \<longleftrightarrow>
    x = y \<or> x = a \<and> b = y \<or> x = b \<and> a = y"
  using assms by (auto simp: doubleton_eq_iff)

section \<open>The union-find contract\<close>

text \<open>The state represents the equivalence generated by the edges \<open>E\<close>.\<close>

definition uf_represents :: "('d \<Rightarrow> bool) \<Rightarrow> ('d \<Rightarrow> nat) \<Rightarrow> ('d \<Rightarrow> nat \<Rightarrow> nat) \<Rightarrow> 'd \<Rightarrow> edges \<Rightarrow> bool" where
  "uf_represents ok len rt d E \<longleftrightarrow>
     ok d \<and> (\<forall>x < len d. \<forall>y < len d. rt d x = rt d y \<longleftrightarrow> econn E x y)"

abbreviation dsu_repr :: "DSU \<Rightarrow> edges \<Rightarrow> bool" where
  "dsu_repr \<equiv> uf_represents dsu_inv dsu_n dsu_root"

text \<open>A run of merges, collecting the edges that joined two trees.\<close>

fun merges :: "('d \<Rightarrow> nat \<Rightarrow> nat \<Rightarrow> (DSUMergeRet \<times> 'd) option) \<Rightarrow> (nat \<times> nat) list \<Rightarrow> 'd \<times> edges \<Rightarrow>
    ('d \<times> edges) option" where
  "merges merge [] s = Some s"
| "merges merge ((u, v) # es) (d, F) =
     (case merge d u v of
        Some (r, d') \<Rightarrow> merges merge es (d', if merged r then insert (u, v) F else F)
      | None \<Rightarrow> None)"

text \<open>
  What the clients of either class rely on. \<open>root\<close> is the abstract state: the representative of
  each node. \<open>find\<close> returns it and leaves it alone; \<open>merge\<close> redirects one of the two
  representatives to the other and reports which.
\<close>

locale union_find =
  fixes inv :: "'d \<Rightarrow> bool"
    and size :: "'d \<Rightarrow> nat"
    and root :: "'d \<Rightarrow> nat \<Rightarrow> nat"
    and find :: "'d \<Rightarrow> nat \<Rightarrow> (nat \<times> 'd) option"
    and merge :: "'d \<Rightarrow> nat \<Rightarrow> nat \<Rightarrow> (DSUMergeRet \<times> 'd) option"
  assumes root_lt: "inv d \<Longrightarrow> u < size d \<Longrightarrow> root d u < size d"
    and find_ok: "inv d \<Longrightarrow> u < size d \<Longrightarrow>
      \<exists>d'. find d u = Some (root d u, d') \<and> inv d' \<and> size d' = size d \<and>
        (\<forall>x < size d. root d' x = root d x)"
    and merge_ok: "inv d \<Longrightarrow> u < size d \<Longrightarrow> v < size d \<Longrightarrow>
      \<exists>r d'. merge d u v = Some (r, d') \<and> inv d' \<and> size d' = size d \<and>
        (merged r \<longleftrightarrow> root d u \<noteq> root d v) \<and>
        (merged r \<longrightarrow> {ret_root r, ret_child r} = {root d u, root d v}) \<and>
        (\<forall>x < size d. root d' x =
          (if merged r \<and> root d x = ret_child r then ret_root r else root d x))"
begin

abbreviation represents :: "'d \<Rightarrow> edges \<Rightarrow> bool" where
  "represents d E \<equiv> uf_represents inv size root d E"

lemma find_represents:
  assumes "represents d E" "u < size d"
  shows "\<exists>r d'. find d u = Some (r, d') \<and> represents d' E \<and> size d' = size d \<and> r < size d \<and>
    r = root d u \<and> (\<forall>x < size d. root d' x = root d x)"
  using assms find_ok [of d u] root_lt [of d u] by (auto simp: uf_represents_def)

lemma merge_represents:
  assumes "represents d E" "u < size d" "v < size d"
  shows "\<exists>r d'. merge d u v = Some (r, d') \<and> represents d' (insert (u, v) E) \<and> size d' = size d \<and>
    (merged r \<longleftrightarrow> \<not> econn E u v)"
proof -
  obtain r d' where m: "merge d u v = Some (r, d')" "inv d'" "size d' = size d"
    "merged r \<longleftrightarrow> root d u \<noteq> root d v"
    "merged r \<longrightarrow> {ret_root r, ret_child r} = {root d u, root d v}"
    "\<forall>x < size d. root d' x = (if merged r \<and> root d x = ret_child r then ret_root r else root d x)"
    using merge_ok [of d u v] assms by (auto simp: uf_represents_def)
  have E: "root d x = root d y \<longleftrightarrow> econn E x y" if "x < size d" "y < size d" for x y
    using assms(1) that by (simp add: uf_represents_def)
  have "root d' x = root d' y \<longleftrightarrow> econn (insert (u, v) E) x y" if "x < size d" "y < size d" for x y
    unfolding econn_insert E [OF that, symmetric] E [OF that(1) assms(2), symmetric]
      E [OF assms(3) that(2), symmetric] E [OF that(1) assms(3), symmetric]
      E [OF assms(2) that(2), symmetric]
    using m(4,5) m(6) [rule_format, OF that(1)] m(6) [rule_format, OF that(2)]
    by (cases "merged r") (simp add: redirect_roots, auto)
  with m assms E show ?thesis by (auto simp: uf_represents_def)
qed

lemma merges_spanning_forest:
  assumes "represents d F" "acyclic_edges F" "set es \<subseteq> {..<size d} \<times> {..<size d}"
  shows "\<exists>d' F'. merges merge es (d, F) = Some (d', F') \<and> represents d' F' \<and> size d' = size d \<and>
    spanning_forest_of (F \<union> set es) F'"
  using assms
proof (induction es arbitrary: d F)
  case Nil
  then show ?case by (simp add: spanning_forest_of_def)
next
  case (Cons e es)
  obtain u v where e: "e = (u, v)" by fastforce
  obtain r d' where m: "merge d u v = Some (r, d')" "represents d' (insert (u, v) F)"
    "size d' = size d" "merged r \<longleftrightarrow> \<not> econn F u v"
    using merge_represents [OF Cons.prems(1), of u v] Cons.prems(3) e by auto
  let ?F = "if merged r then insert (u, v) F else F"
  have same: "econn ?F = econn (insert (u, v) F)"
    using m(4) by (auto intro!: econn_eqI intro: econn_edge)
  then have "represents d' ?F" using m(2) by (simp add: uf_represents_def)
  moreover have "acyclic_edges ?F" using Cons.prems(2) m(4) by (simp add: acyclic_insert)
  ultimately obtain d'' F' where IH: "merges merge es (d', ?F) = Some (d'', F')" "represents d'' F'"
    "size d'' = size d'" "spanning_forest_of (?F \<union> set es) F'"
    using Cons.IH [of d' ?F] Cons.prems(3) m(3) by auto
  have "econn (?F \<union> set es) = econn (F \<union> set (e # es))"
  proof (rule econn_eqI)
    fix x y assume "(x, y) \<in> F \<union> set (e # es)"
    then show "econn (?F \<union> set es) x y"
      using econn_edge [of x y "insert (u, v) F"] same econn_mono [of ?F x y "?F \<union> set es"]
        econn_edge [of x y "?F \<union> set es"] e by auto
  qed (auto simp: e intro: econn_edge split: if_splits)
  then have "spanning_forest_of (F \<union> set (e # es)) F'"
    using IH(4) e by (auto simp: spanning_forest_of_def split: if_splits)
  with IH m show ?case by (auto simp: e)
qed

end

interpretation dsu: union_find dsu_inv dsu_n dsu_root DSU_find_root DSU_merge
proof
  fix d u v assume "dsu_inv d" "u < dsu_n d" "v < dsu_n d"
  from DSU_merge_correct [OF this]
  show "\<exists>r d'. DSU_merge d u v = Some (r, d') \<and> dsu_inv d' \<and> dsu_n d' = dsu_n d \<and>
      merged r = (dsu_root d u \<noteq> dsu_root d v) \<and>
      (merged r \<longrightarrow> {ret_root r, ret_child r} = {dsu_root d u, dsu_root d v}) \<and>
      (\<forall>x < dsu_n d. dsu_root d' x =
        (if merged r \<and> dsu_root d x = ret_child r then ret_root r else dsu_root d x))"
    by (fastforce simp: merge_post_def split: if_splits)
qed (use dsu_root_lt DSU_find_root_correct in blast)+

interpretation dsu_mt: union_find dsu_inv dsu_n dsu_root DSU_find_root "DSU_MT_merge fails" for fails
proof
  fix d u v assume "dsu_inv d" "u < dsu_n d" "v < dsu_n d"
  from DSU_MT_merge_correct [OF this, of fails]
  show "\<exists>r d'. DSU_MT_merge fails d u v = Some (r, d') \<and> dsu_inv d' \<and> dsu_n d' = dsu_n d \<and>
      merged r = (dsu_root d u \<noteq> dsu_root d v) \<and>
      (merged r \<longrightarrow> {ret_root r, ret_child r} = {dsu_root d u, dsu_root d v}) \<and>
      (\<forall>x < dsu_n d. dsu_root d' x =
        (if merged r \<and> dsu_root d x = ret_child r then ret_root r else dsu_root d x))"
    by (fastforce simp: merge_post_def split: if_splits)
qed (use dsu_root_lt DSU_find_root_correct in blast)+


section \<open>Properties\<close>

text \<open>\<^verbatim>\<open>find_root\<close> terminates on every reachable forest, returns the representative of its
  argument, and path halving changes no representative.\<close>

theorem DSU_find_root_spec:
  assumes "dsu_inv d" "u < dsu_n d"
  shows "\<exists>d'. DSU_find_root d u = Some (dsu_root d u, d') \<and> dsu_inv d' \<and> dsu_n d' = dsu_n d \<and>
    parent d' ! dsu_root d u = dsu_root d u \<and> (\<forall>x < dsu_n d. dsu_root d' x = dsu_root d x)"
proof -
  obtain d' where d': "DSU_find_root d u = Some (dsu_root d u, d')" "dsu_inv d'" "dsu_n d' = dsu_n d"
    "\<forall>x < dsu_n d. dsu_root d' x = dsu_root d x"
    using DSU_find_root_correct [OF assms] by blast
  moreover have "parent d' ! dsu_root d' u = dsu_root d' u"
    using root_of_root [of "priority d'" "parent d'" u] d' assms(2) by (simp add: dsu_inv_def)
  ultimately show ?thesis using assms(2) by auto
qed

theorem DSU_find_root_spec_witness:
  "\<exists>d'. DSU_find_root \<lparr>dsu_n = 4, parent = [1, 2, 3, 3], priority = [5, 6, 7, 8]\<rparr> 0 = Some (3, d')"
proof -
  let ?d = "\<lparr>dsu_n = 4, parent = [1, 2, 3, 3], priority = [5, 6, 7, 8]\<rparr>"
  have "dsu_inv ?d"
    by (simp add: dsu_inv_def forest_def beaten_def less_Suc_eq numeral_eq_Suc all_conj_distrib)
  moreover have "dsu_root ?d 0 = 3" by (simp add: root_of_def numeral_eq_Suc)
  ultimately show ?thesis using DSU_find_root_spec [of ?d 0] by auto
qed

text \<open>C23. A sequence of merges on fresh sets, in either class and whatever the spurious failures
  of the atomic exchange, always returns; afterwards two nodes have the same representative
  exactly when the merged edges connect them, and the edges whose merge reported
  \<open>merged\<close> are a spanning forest of the merged edges.\<close>

theorem DSU_merges_spanning_forest:
  assumes "n \<le> length prio" "set es \<subseteq> {..<n} \<times> {..<n}"
  shows "(\<exists>d F. merges DSU_merge es (DSU_new n prio, {}) = Some (d, F) \<and> spanning_forest_of (set es) F \<and>
      (\<forall>x < n. \<forall>y < n. dsu_root d x = dsu_root d y \<longleftrightarrow> econn (set es) x y)) \<and>
    (\<exists>d F. merges (DSU_MT_merge fails) es (DSU_new n prio, {}) = Some (d, F) \<and> spanning_forest_of (set es) F \<and>
      (\<forall>x < n. \<forall>y < n. dsu_root d x = dsu_root d y \<longleftrightarrow> econn (set es) x y))"
proof -
  have "dsu_repr (DSU_new n prio) {}"
    using DSU_new_inv [OF assms(1)] by (simp add: uf_represents_def)
  then show ?thesis
    using dsu.merges_spanning_forest [of "DSU_new n prio" "{}" es]
      dsu_mt.merges_spanning_forest [of "DSU_new n prio" "{}" es fails]
      DSU_new_inv(2) [OF assms(1)] assms(2)
    by (auto simp: uf_represents_def spanning_forest_of_def)
qed

theorem DSU_merges_spanning_forest_witness:
  "\<exists>d F. merges DSU_merge [(0, 1), (1, 2), (0, 2)] (DSU_new 4 [3, 1, 4, 1], {}) = Some (d, F) \<and>
     spanning_forest_of {(0, 1), (1, 2), (0, 2)} F"
  using DSU_merges_spanning_forest [of 4 "[3, 1, 4, 1]" "[(0, 1), (1, 2), (0, 2)]" "[]"] by auto

end
