(* ===== verification/Merge_Instructions.thy ===== *)
theory Merge_Instructions
  imports Boruvka_Round DSU
begin

text \<open>
  \<^verbatim>\<open>create_merge_instructions\<close> (src/cc_sketch_alg.cpp, src/mc_sketch_alg.cpp): after a round the
  vertices are sorted by their new component with a parallel counting sort. Each thread groups
  the vertices of its segment by root (\<open>local_ccs\<close>), reserves room for each group with an atomic
  capture, takes part in a parallel prefix sum over the roots, and writes its groups.

  Between two barriers the threads touch disjoint data, except in the captures: there a
  schedule says whose capture comes next. \<open>ord\<close> is the iteration order of the
  \<^verbatim>\<open>std::unordered_map\<close> of each thread.
\<close>

type_synonym ccs = "(nat \<times> nat list) list"

definition cc_insert :: "nat \<Rightarrow> nat \<Rightarrow> ccs \<Rightarrow> ccs" where
  "cc_insert root_v child local_ccs =
     (if root_v \<notin> fst ` set local_ccs then local_ccs @ [(root_v, [child])]
      else map (\<lambda>(r, vs). if r = root_v then (r, vs @ [child]) else (r, vs)) local_ccs)"

fun collect_ccs :: "nat list \<Rightarrow> DSU \<times> ccs \<Rightarrow> (DSU \<times> ccs) option" where
  "collect_ccs [] s = Some s"
| "collect_ccs (child # cs) (d, local_ccs) =
     (case DSU_find_root d child of
        None \<Rightarrow> None
      | Some (root_v, d) \<Rightarrow> collect_ccs cs (d, cc_insert root_v child local_ccs))"

fun collect_all :: "nat list list \<Rightarrow> DSU \<Rightarrow> (DSU \<times> ccs list) option" where
  "collect_all [] d = Some (d, [])"
| "collect_all (cs # css) d =
     (case collect_ccs cs (d, []) of
        None \<Rightarrow> None
      | Some (d, ccs) \<Rightarrow> (case collect_all css d of None \<Rightarrow> None | Some (d, rest) \<Rightarrow> Some (d, ccs # rest)))"

text \<open>The captures: \<open>got\<close> pairs each group with the index reserved for it.\<close>

record cap_thread =
  todo :: ccs
  got :: "(nat \<times> nat \<times> nat list) list"

definition capture :: "nat \<Rightarrow> nat list \<times> cap_thread list \<Rightarrow> nat list \<times> cap_thread list" where
  "capture t s =
     (let (cc_prefix, ths) = s
      in if t < length ths then
           case todo (ths ! t) of
             [] \<Rightarrow> s
           | (root_v, vertices) # rest \<Rightarrow>
               (let idx = cc_prefix ! root_v
                in (cc_prefix[root_v := idx + length vertices],
                    ths[t := \<lparr>todo = rest, got = got (ths ! t) @ [(root_v, idx, vertices)]\<rparr>]))
         else s)"

definition run_captures :: "nat list \<Rightarrow> nat \<Rightarrow> ccs list \<Rightarrow> nat list \<times> cap_thread list" where
  "run_captures sched n ccss =
     fold capture (sched @ concat (map (\<lambda>t. replicate (length (ccss ! t)) t) [0..<length ccss]))
       (replicate n 0, map (\<lambda>c. \<lparr>todo = c, got = []\<rparr>) ccss)"

definition local_prefix :: "nat \<Rightarrow> nat \<Rightarrow> nat list \<Rightarrow> nat list" where
  "local_prefix start end cc_prefix =
     fold (\<lambda>i p. p[i := p ! i + p ! (i - 1)]) [start + 1..<end] cc_prefix"

definition calc_range_sums :: "partition_fn \<Rightarrow> nat \<Rightarrow> nat \<Rightarrow> nat list \<Rightarrow> nat list" where
  "calc_range_sums part n T cc_prefix =
     fold (\<lambda>t acc. let cur = snd (part n (t - 1) T) - 1 in acc @ [cc_prefix ! cur + acc ! (t - 1)])
       [1..<T] [0]"

definition add_range :: "nat \<Rightarrow> nat \<Rightarrow> nat \<Rightarrow> nat list \<Rightarrow> nat list" where
  "add_range start end v cc_prefix = fold (\<lambda>i p. p[i := p ! i + v]) [start..<end] cc_prefix"

definition prefix_sums :: "partition_fn \<Rightarrow> nat \<Rightarrow> nat \<Rightarrow> nat list \<Rightarrow> nat list" where
  "prefix_sums part n T cc_prefix =
     (let p1 = fold (\<lambda>t. local_prefix (fst (part n t T)) (snd (part n t T))) [0..<T] cc_prefix;
          range_sums = calc_range_sums part n T p1
      in fold (\<lambda>t. add_range (fst (part n t T)) (snd (part n t T)) (range_sums ! t)) [1..<T] p1)"

definition write_group :: "nat list \<Rightarrow> nat \<times> nat \<times> nat list \<Rightarrow> MergeInstr list \<Rightarrow> MergeInstr list" where
  "write_group cc_prefix g merge_instr =
     (let (root_v, thr_idx, vertices) = g;
          placement = thr_idx + (if root_v > 0 then cc_prefix ! (root_v - 1) else 0)
      in fold (\<lambda>j mi. mi[placement + j := \<lparr>mi_root = root_v, mi_child = vertices ! j\<rparr>])
           [0..<length vertices] merge_instr)"

definition create_merge_instructions :: "partition_fn \<Rightarrow> nat \<Rightarrow> nat \<Rightarrow> (nat \<Rightarrow> ccs \<Rightarrow> ccs) \<Rightarrow> nat list \<Rightarrow>
    DSU \<Rightarrow> MergeInstr list \<Rightarrow> (MergeInstr list \<times> DSU) option" where
  "create_merge_instructions part n T ord sched d merge_instr =
     (if \<not> reads_inside part n T then None
      else
        case collect_all (map (\<lambda>t. map (\<lambda>i. mi_child (merge_instr ! i))
            [fst (part n t T)..<snd (part n t T)]) [0..<T]) d of
          None \<Rightarrow> None
        | Some (d, ccss) \<Rightarrow>
            (let ccss = map (\<lambda>t. ord t (ccss ! t)) [0..<T];
                 (cc_prefix, ths) = run_captures sched n ccss;
                 cc_prefix = prefix_sums part n T cc_prefix
             in Some (fold (\<lambda>th mi. fold (write_group cc_prefix) (got th) mi) ths merge_instr, d)))"

section \<open>The parallel prefix sum\<close>

lemma length_local_prefix [simp]: "length (local_prefix s e p) = length p"
  unfolding local_prefix_def by (rule length_fold_same) simp

lemma length_add_range [simp]: "length (add_range s e v p) = length p"
  unfolding add_range_def by (rule length_fold_same) simp

lemma nth_local_prefix:
  assumes "e \<le> length p"
  shows "local_prefix s e p ! i = (if s \<le> i \<and> i < e then \<Sum>j = s..i. p ! j else p ! i)"
  using assms
proof (induction e arbitrary: i)
  case (Suc e)
  show ?case
  proof (cases "s + 1 \<le> e")
    case True
    let ?q = "local_prefix s e p"
    have "local_prefix s (Suc e) p = ?q[e := ?q ! e + ?q ! (e - 1)]"
      using True by (simp add: local_prefix_def)
    moreover have "?q ! e = p ! e" "?q ! (e - 1) = (\<Sum>j = s..e - 1. p ! j)"
      using Suc True by auto
    moreover have "(\<Sum>j = s..e. p ! j) = (\<Sum>j = s..e - 1. p ! j) + p ! e"
      using True by (cases e) auto
    ultimately show ?thesis using Suc by (auto simp: nth_list_update less_Suc_eq)
  next
    case False
    then have "local_prefix s (Suc e) p = p" by (simp add: local_prefix_def)
    then show ?thesis using False by (cases "s = e") (auto simp: less_Suc_eq not_less)
  qed
qed (simp add: local_prefix_def)

lemma nth_add_range:
  assumes "e \<le> length p"
  shows "add_range s e v p ! i = (if s \<le> i \<and> i < e then p ! i + v else p ! i)"
  using assms
proof (induction e arbitrary: i)
  case (Suc e)
  show ?case
  proof (cases "s \<le> e")
    case True
    let ?q = "add_range s e v p"
    have "add_range s (Suc e) v p = ?q[e := ?q ! e + v]" using True by (simp add: add_range_def)
    moreover have "?q ! e = p ! e" using Suc by simp
    ultimately show ?thesis using Suc True by (auto simp: nth_list_update less_Suc_eq)
  qed (simp add: add_range_def)
qed (simp add: add_range_def)

lemma prefix_sums_correct:
  assumes ok: "partition_ok part n T" and len: "length p = n" and i: "i < n"
  shows "prefix_sums part n T p ! i = (\<Sum>j \<le> i. p ! j)"
proof -
  let ?s = "seg_start part n T" and ?e = "seg_end part n T"
  let ?p1 = "\<lambda>m. fold (\<lambda>t. local_prefix (?s t) (?e t)) [0..<m] p"
  have len1: "length (?p1 m) = n" for m using len by (induction m) auto
  have p1: "?p1 m ! i = (if \<exists>t<m. ?s t \<le> i \<and> i < ?e t then \<Sum>j = ?s (get_partition_idx n i T)..i. p ! j else p ! i)"
    if "m \<le> T" for m i
    using that
  proof (induction m arbitrary: i)
    case (Suc m)
    have out: "\<not> (\<exists>t<m. ?s t \<le> j \<and> j < ?e t)" if "?s m \<le> j" for j
      using seg_mono [OF ok] Suc.prems that by fastforce
    have "?p1 (Suc m) ! i = (if ?s m \<le> i \<and> i < ?e m then \<Sum>j = ?s m..i. ?p1 m ! j else ?p1 m ! i)"
      using nth_local_prefix [of "?e m" "?p1 m"] seg_end_le [OF ok, of m] Suc.prems len1 by simp
    moreover have "?p1 m ! j = p ! j" if "?s m \<le> j" for j
    proof -
      have "m \<le> T" using Suc.prems by simp
      from Suc.IH [OF this, of j] out [OF that] show ?thesis by (simp only: if_False)
    qed
    ultimately have "?p1 (Suc m) ! i = (if ?s m \<le> i \<and> i < ?e m then \<Sum>j = ?s m..i. p ! j else ?p1 m ! i)"
      by simp
    then show ?case
      using Suc seg_facts(6) [OF ok, of m i] by (auto simp: less_Suc_eq)
  qed simp
  define p1' where "p1' = ?p1 T"
  have p1': "p1' ! i = (\<Sum>j = ?s (get_partition_idx n i T)..i. p ! j)" if "i < n" for i
    using p1 [of T i] seg_cover [OF ok that] by (auto simp: p1'_def)
  have rs: "fold (\<lambda>t acc. acc @ [p1' ! (?e (t - 1) - 1) + acc ! (t - 1)]) [1..<Suc m] [0] =
      map (\<lambda>t. \<Sum>j < ?s t. p ! j) [0..<Suc m]" if "m < T" for m
    using that
  proof (induction m)
    case 0
    then show ?case using seg_facts(2) [OF ok] by simp
  next
    case (Suc m)
    let ?F = "\<lambda>t acc. acc @ [p1' ! (?e (t - 1) - 1) + acc ! (t - 1)]"
    let ?l = "map (\<lambda>t. \<Sum>j < ?s t. p ! j) [0..<Suc m]"
    have "[1..<Suc (Suc m)] = [1..<Suc m] @ [Suc m]" by simp
    then have step: "fold ?F [1..<Suc (Suc m)] [0] = ?F (Suc m) (fold ?F [1..<Suc m] [0])"
      by (simp only: fold_append comp_apply fold.simps id_apply)
    have "fold ?F [1..<Suc m] [0] = ?l" using Suc by simp
    moreover have e: "?s m < ?e m" "?e m = ?s (Suc m)" "?e m \<le> n"
      using seg_facts(4,5) [OF ok, of m] seg_end_le [OF ok, of m] Suc.prems by auto
    moreover have "get_partition_idx n (?e m - 1) T = m"
      using seg_facts(6) [OF ok, of m "?e m - 1"] e Suc.prems by simp
    then have "p1' ! (?e m - 1) = (\<Sum>j = ?s m..?e m - 1. p ! j)" using p1' [of "?e m - 1"] e by simp
    moreover have "(\<Sum>j = ?s m..?e m - 1. p ! j) + (\<Sum>j < ?s m. p ! j) = (\<Sum>j < ?e m. p ! j)"
    proof -
      have "{..<?e m} = {..<?s m} \<union> {?s m..?e m - 1}" using e by auto
      then show ?thesis by (simp add: sum.union_disjoint ivl_disj_int add.commute)
    qed
    ultimately show ?case unfolding step by (simp add: nth_append)
  qed
  define R where "R = calc_range_sums part n T p1'"
  have R: "R ! t = (\<Sum>j < ?s t. p ! j)" if "t < T" for t
  proof -
    have "R = map (\<lambda>t. \<Sum>j < ?s t. p ! j) [0..<T]"
      using rs [of "T - 1"] seg_facts(1) [OF ok]
      by (simp add: R_def calc_range_sums_def Let_def seg_end_def [symmetric])
    then show ?thesis using that by simp
  qed
  let ?p2 = "\<lambda>m. fold (\<lambda>t. add_range (?s t) (?e t) (R ! t)) [1..<m] p1'"
  have len2: "length (?p2 m) = n" for m
    using len1 [of T] by (induction m) (auto simp: p1'_def)
  have p2: "?p2 m ! i = (if \<exists>t<m. 1 \<le> t \<and> ?s t \<le> i \<and> i < ?e t
      then p1' ! i + R ! get_partition_idx n i T else p1' ! i)" if "m \<le> T" for m i
    using that
  proof (induction m arbitrary: i)
    case (Suc m)
    show ?case
    proof (cases "1 \<le> m")
      case True
      have "\<not> (\<exists>t<m. ?s t \<le> i \<and> i < ?e t)" if "?s m \<le> i"
        using seg_mono [OF ok] Suc.prems that by fastforce
      moreover have "?p2 (Suc m) ! i = (if ?s m \<le> i \<and> i < ?e m then ?p2 m ! i + R ! m else ?p2 m ! i)"
        using nth_add_range [of "?e m" "?p2 m"] seg_end_le [OF ok, of m] Suc.prems len2 True by simp
      ultimately show ?thesis
        using Suc seg_facts(6) [OF ok, of m i] True by (auto simp: less_Suc_eq)
    qed (use Suc in auto)
  qed simp
  obtain t where t: "t < T" "?s t \<le> i" "i < ?e t" using seg_cover [OF ok i] by blast
  then have idx: "get_partition_idx n i T = t" using seg_facts(6) [OF ok] by blast
  have "prefix_sums part n T p ! i = ?p2 T ! i"
    by (simp add: prefix_sums_def Let_def seg_start_def [symmetric] seg_end_def [symmetric]
      p1'_def [symmetric] R_def [symmetric])
  also have "\<dots> = (\<Sum>j = ?s t..i. p ! j) + (\<Sum>j < ?s t. p ! j)"
  proof (cases "t = 0")
    case True
    have "\<not> (\<exists>u<T. 1 \<le> u \<and> ?s u \<le> i \<and> i < ?e u)"
      using seg_facts(6) [OF ok, of _ i] idx True by fastforce
    then have "?p2 T ! i = p1' ! i" using p2 [OF le_refl, of i] by (simp only: if_False)
    then show ?thesis using p1' [OF i] idx True seg_facts(2) [OF ok] by simp
  next
    case False
    then have "\<exists>u<T. 1 \<le> u \<and> ?s u \<le> i \<and> i < ?e u" using t by (intro exI [of _ t]) simp
    then have "?p2 T ! i = p1' ! i + R ! get_partition_idx n i T"
      using p2 [OF le_refl, of i] by (simp only: if_True)
    then show ?thesis using p1' [OF i] idx R [OF t(1)] by simp
  qed
  also have "\<dots> = (\<Sum>j \<le> i. p ! j)"
  proof -
    have "{..i} = {..<?s t} \<union> {?s t..i}" using t by auto
    then show ?thesis by (simp add: sum.union_disjoint ivl_disj_int add.commute)
  qed
  finally show ?thesis .
qed


section \<open>Grouping by root\<close>

text \<open>\<open>ccs\<close> groups the vertices \<open>cs\<close> by the root function \<open>f\<close>.\<close>

definition groups :: "(nat \<Rightarrow> nat) \<Rightarrow> nat list \<Rightarrow> ccs \<Rightarrow> bool" where
  "groups f cs ccs \<longleftrightarrow> distinct (map fst ccs) \<and> fst ` set ccs = f ` set cs \<and>
     (\<forall>(r, vs) \<in> set ccs. \<forall>c \<in> set vs. f c = r) \<and>
     (\<forall>c \<in> set cs. \<exists>vs. (f c, vs) \<in> set ccs \<and> c \<in> set vs) \<and>
     sum_list (map (length \<circ> snd) ccs) = length cs"

lemma groups_Nil: "groups f [] []"
  by (simp add: groups_def)

lemma sum_list_update_one:
  assumes "distinct (map fst ccs)" "r \<in> fst ` set ccs"
  shows "sum_list (map (length \<circ> snd) (map (\<lambda>(r', vs). if r' = r then (r', vs @ [c]) else (r', vs)) ccs)) =
    Suc (sum_list (map (length \<circ> snd) ccs))"
  using assms
proof (induction ccs)
  case (Cons x ccs)
  have "map (\<lambda>(r', vs). if r' = r then (r', vs @ [c]) else (r', vs)) ccs = ccs" if "r \<notin> fst ` set ccs"
    using that by (intro map_idI) (auto simp: image_iff)
  with Cons show ?case by (cases x; cases "fst x = r") auto
qed simp

lemma groups_insert:
  assumes "groups f cs ccs"
  shows "groups f (cs @ [c]) (cc_insert (f c) c ccs)"
proof (cases "f c \<in> fst ` set ccs")
  case False
  then show ?thesis using assms unfolding groups_def cc_insert_def
    by (auto simp: image_iff)
next
  case True
  let ?u = "\<lambda>(r, vs). if r = f c then (r, vs @ [c]) else (r, vs)"
  have fst: "fst (?u x) = fst x" for x by (cases x) auto
  then have fsts: "map fst (map ?u ccs) = map fst ccs" by simp
  have mem: "\<exists>vs'. (r, vs') \<in> set (map ?u ccs) \<and> set vs \<subseteq> set vs' \<and> (r = f c \<longrightarrow> c \<in> set vs')"
    if "(r, vs) \<in> set ccs" for r vs
    using that by (cases "r = f c") (force intro!: image_eqI)+
  have sum: "sum_list (map (length \<circ> snd) (map ?u ccs)) = Suc (sum_list (map (length \<circ> snd) ccs))"
    using assms True by (intro sum_list_update_one) (auto simp: groups_def)
  have "groups f (cs @ [c]) (map ?u ccs)"
    unfolding groups_def
  proof (intro conjI)
    show "distinct (map fst (map ?u ccs))" unfolding fsts using assms by (simp add: groups_def)
    have "fst ` set (map ?u ccs) = fst ` set ccs" using fsts by (metis set_map)
    then show "fst ` set (map ?u ccs) = f ` set (cs @ [c])" using assms True by (auto simp: groups_def)
    show "\<forall>(r, vs) \<in> set (map ?u ccs). \<forall>x \<in> set vs. f x = r"
      using assms by (fastforce simp: groups_def split: if_splits)
    show "\<forall>x \<in> set (cs @ [c]). \<exists>vs. (f x, vs) \<in> set (map ?u ccs) \<and> x \<in> set vs"
    proof
      fix x assume "x \<in> set (cs @ [c])"
      then consider "x \<in> set cs" | "x = c" by auto
      then show "\<exists>vs. (f x, vs) \<in> set (map ?u ccs) \<and> x \<in> set vs"
      proof cases
        case 1
        then obtain vs where "(f x, vs) \<in> set ccs" "x \<in> set vs" using assms by (auto simp: groups_def)
        then show ?thesis using mem by blast
      next
        case 2
        then obtain vs where "(f x, vs) \<in> set ccs" using True by auto
        then show ?thesis using mem 2 by blast
      qed
    qed
    show "sum_list (map (length \<circ> snd) (map ?u ccs)) = length (cs @ [c])"
      using sum assms by (simp add: groups_def)
  qed
  then show ?thesis using True by (simp add: cc_insert_def)
qed

lemma collect_ccs_correct:
  assumes "dsu_inv d" "set cs \<subseteq> {..<dsu_n d}" "\<And>x. x < dsu_n d \<Longrightarrow> dsu_root d x = f x" "groups f pre ccs"
  shows "\<exists>d' ccs'. collect_ccs cs (d, ccs) = Some (d', ccs') \<and> dsu_inv d' \<and> dsu_n d' = dsu_n d \<and>
    priority d' = priority d \<and> (\<forall>x < dsu_n d. dsu_root d' x = f x) \<and> groups f (pre @ cs) ccs'"
  using assms
proof (induction cs arbitrary: d ccs pre)
  case (Cons c cs)
  obtain d1 where d1: "DSU_find_root d c = Some (f c, d1)" "dsu_inv d1" "dsu_n d1 = dsu_n d"
    "priority d1 = priority d" "\<And>x. x < dsu_n d1 \<Longrightarrow> dsu_root d1 x = f x"
    using DSU_find_root_correct [of d c] Cons.prems by auto
  have "groups f (pre @ [c]) (cc_insert (f c) c ccs)" using Cons.prems(4) by (rule groups_insert)
  from Cons.IH [OF d1(2) _ d1(5) this] Cons.prems(2) d1 show ?case by auto
qed auto

lemma collect_all_correct:
  assumes "dsu_inv d" "\<And>cs. cs \<in> set css \<Longrightarrow> set cs \<subseteq> {..<dsu_n d}" "\<And>x. x < dsu_n d \<Longrightarrow> dsu_root d x = f x"
  shows "\<exists>d' ccss. collect_all css d = Some (d', ccss) \<and> dsu_inv d' \<and> dsu_n d' = dsu_n d \<and>
    priority d' = priority d \<and> (\<forall>x < dsu_n d. dsu_root d' x = f x) \<and> list_all2 (groups f) css ccss"
  using assms
proof (induction css arbitrary: d)
  case (Cons cs css)
  obtain d1 ccs where d1: "collect_ccs cs (d, []) = Some (d1, ccs)" "dsu_inv d1" "dsu_n d1 = dsu_n d"
    "priority d1 = priority d" "\<And>x. x < dsu_n d1 \<Longrightarrow> dsu_root d1 x = f x" "groups f cs ccs"
    using collect_ccs_correct [OF Cons.prems(1) _ Cons.prems(3) groups_Nil, of cs] Cons.prems(2) by auto
  from Cons.IH [OF d1(2) _ d1(5)] Cons.prems(2) d1 show ?case by auto
qed auto


section \<open>The captures\<close>

text \<open>The offsets that a list of captured groups reserves for root \<open>r\<close>.\<close>

definition reserved :: "nat \<Rightarrow> (nat \<times> nat \<times> nat list) multiset \<Rightarrow> nat multiset" where
  "reserved r M = (\<Sum>g\<in>#M. if fst g = r then mset [fst (snd g)..<fst (snd g) + length (snd (snd g))] else {#})"

definition cap_all :: "cap_thread list \<Rightarrow> (nat \<times> nat \<times> nat list) multiset" where
  "cap_all ths = mset (concat (map got ths))"

lemma cap_all_update:
  assumes "t < length ths" "got th = got (ths ! t) @ [g]"
  shows "cap_all (ths[t := th]) = add_mset g (cap_all ths)"
proof -
  have "ths = take t ths @ ths ! t # drop (Suc t) ths" using assms(1) by (rule id_take_nth_drop)
  then have "cap_all ths = mset (concat (map got (take t ths))) + mset (got (ths ! t)) +
      mset (concat (map got (drop (Suc t) ths)))"
    unfolding cap_all_def by (metis (no_types, lifting) add.assoc concat.simps(2) concat_append list.simps(9) map_append mset_append)
  then show ?thesis using assms by (simp add: cap_all_def upd_conv_take_nth_drop)
qed

definition cap_inv :: "nat \<Rightarrow> ccs list \<Rightarrow> nat list \<times> cap_thread list \<Rightarrow> bool" where
  "cap_inv n ccss s \<longleftrightarrow> length (fst s) = n \<and> length (snd s) = length ccss \<and>
     (\<forall>t < length ccss. map (\<lambda>(r, _, vs). (r, vs)) (got (snd s ! t)) @ todo (snd s ! t) = ccss ! t) \<and>
     (\<forall>r < n. reserved r (cap_all (snd s)) = mset [0..<fst s ! r])"

lemma capture_inv:
  assumes "cap_inv n ccss s" "\<And>t r vs. t < length ccss \<Longrightarrow> (r, vs) \<in> set (ccss ! t) \<Longrightarrow> r < n"
  shows "cap_inv n ccss (capture t s)"
proof -
  obtain p ths where s: "s = (p, ths)" by fastforce
  consider "\<not> t < length ths \<or> todo (ths ! t) = []"
    | r vs rest where "t < length ths" "todo (ths ! t) = (r, vs) # rest"
    by (cases "todo (ths ! t)") auto
  then show ?thesis
  proof cases
    case 1
    then have "capture t s = s" by (auto simp: capture_def s)
    then show ?thesis using assms(1) by simp
  next
    case (2 r vs rest)
    let ?th = "\<lparr>todo = rest, got = got (ths ! t) @ [(r, p ! r, vs)]\<rparr>"
    have c: "capture t s = (p[r := p ! r + length vs], ths[t := ?th])" using 2 by (simp add: capture_def s Let_def)
    have i: "length p = n" "length ths = length ccss"
      "map (\<lambda>(r, _, vs). (r, vs)) (got (ths ! t)) @ (r, vs) # rest = ccss ! t"
      "\<And>r. r < n \<Longrightarrow> reserved r (cap_all ths) = mset [0..<p ! r]"
      using assms(1) 2 by (auto simp: cap_inv_def s)
    have r: "r < n" using assms(2) [of t r vs] 2(1) i(2,3) by (metis in_set_conv_decomp)
    have all: "cap_all (ths[t := ?th]) = add_mset (r, p ! r, vs) (cap_all ths)"
      using 2(1) by (intro cap_all_update) simp_all
    have "reserved r' (cap_all (ths[t := ?th])) = mset [0..<p[r := p ! r + length vs] ! r']" if "r' < n" for r'
    proof (cases "r' = r")
      case True
      have "[0..<p ! r + length vs] = [0..<p ! r] @ [p ! r..<p ! r + length vs]"
        by (rule upt_add_eq_append) simp
      then show ?thesis using True r i(1,4) by (simp add: all reserved_def)
    next
      case False
      then show ?thesis using i(4) [OF that] by (simp add: all reserved_def)
    qed
    then show ?thesis
      using assms(1) i 2(1) unfolding c cap_inv_def
      by (auto simp: s nth_list_update)
  qed
qed

lemma capture_todo:
  "length (snd (capture t s)) = length (snd s)"
  "u \<noteq> t \<Longrightarrow> todo (snd (capture t s) ! u) = todo (snd s ! u)"
  "t < length (snd s) \<Longrightarrow> length (todo (snd (capture t s) ! t)) = length (todo (snd s ! t)) - 1"
  by (auto simp: capture_def Let_def split: prod.splits list.splits)

lemma fold_capture_todo:
  "t < length (snd s) \<Longrightarrow>
     length (todo (snd (fold capture ts s) ! t)) = length (todo (snd s ! t)) - count_list ts t"
proof (induction ts arbitrary: s)
  case (Cons u ts)
  then show ?case
    using capture_todo(2) [of t u s] capture_todo(3) [of t s] capture_todo(1) [of u s]
    by (cases "t = u") auto
qed simp

lemma run_captures_correct:
  assumes "\<And>t r vs. t < length ccss \<Longrightarrow> (r, vs) \<in> set (ccss ! t) \<Longrightarrow> r < n"
    and "run_captures sched n ccss = (p, ths)"
  shows "length p = n" "length ths = length ccss"
    "\<And>t. t < length ccss \<Longrightarrow> map (\<lambda>(r, _, vs). (r, vs)) (got (ths ! t)) = ccss ! t"
    "\<And>r. r < n \<Longrightarrow> reserved r (cap_all ths) = mset [0..<p ! r]"
proof -
  let ?init = "(replicate n 0, map (\<lambda>c. \<lparr>todo = c, got = []\<rparr>) ccss)"
  let ?drain = "concat (map (\<lambda>t. replicate (length (ccss ! t)) t) [0..<length ccss])"
  have "cap_inv n ccss ?init"
    by (auto simp: cap_inv_def cap_all_def reserved_def comp_def)
  then have all: "cap_inv n ccss (fold capture ts ?init)" for ts
  proof (induction ts rule: rev_induct)
    case (snoc t ts)
    then show ?case using capture_inv [OF _ assms(1)] by simp
  qed simp
  have inv: "cap_inv n ccss (p, ths)"
    using all [of "sched @ ?drain"] assms(2) unfolding run_captures_def by simp
  have "todo (ths ! t) = []" if "t < length ccss" for t
  proof -
    have "count_list (concat (map (\<lambda>t. replicate (length (ccss ! t)) t) ts)) t =
        (if t \<in> set ts then length (ccss ! t) else 0)" if "distinct ts" for ts
      using that by (induction ts) (auto simp: count_list_append count_list_replicate)
    then have "count_list ?drain t = length (ccss ! t)" using that by simp
    moreover have "length (todo (snd (fold capture (sched @ ?drain) ?init) ! t)) =
        length (ccss ! t) - count_list (sched @ ?drain) t"
      using fold_capture_todo [of t ?init "sched @ ?drain"] that by simp
    ultimately show ?thesis using assms(2) by (simp add: run_captures_def)
  qed
  with inv show "length p = n" "length ths = length ccss"
    "\<And>t. t < length ccss \<Longrightarrow> map (\<lambda>(r, _, vs). (r, vs)) (got (ths ! t)) = ccss ! t"
    "\<And>r. r < n \<Longrightarrow> reserved r (cap_all ths) = mset [0..<p ! r]"
    by (auto simp: cap_inv_def)
qed


section \<open>The placement\<close>

definition group_writes :: "(nat \<Rightarrow> nat) \<Rightarrow> nat \<times> nat \<times> nat list \<Rightarrow> (nat \<times> MergeInstr) list" where
  "group_writes b g = (case g of (r, i, vs) \<Rightarrow>
     map (\<lambda>j. (i + b r + j, \<lparr>mi_root = r, mi_child = vs ! j\<rparr>)) [0..<length vs])"

definition writes :: "(nat \<Rightarrow> nat) \<Rightarrow> (nat \<times> nat \<times> nat list) list \<Rightarrow> (nat \<times> MergeInstr) list" where
  "writes b gs = concat (map (group_writes b) gs)"

definition apply_writes :: "(nat \<times> 'b) list \<Rightarrow> 'b list \<Rightarrow> 'b list" where
  "apply_writes ws xs = fold (\<lambda>(p, v) xs. xs[p := v]) ws xs"

lemma write_groups_eq:
  "fold (write_group cp) gs mi =
     apply_writes (writes (\<lambda>r. if r > 0 then cp ! (r - 1) else 0) gs) mi"
proof (induction gs arbitrary: mi)
  case (Cons g gs)
  obtain r i vs where g: "g = (r, i, vs)" by (cases g)
  have "write_group cp g mi = apply_writes (group_writes (\<lambda>r. if r > 0 then cp ! (r - 1) else 0) g) mi"
    by (simp add: g write_group_def group_writes_def apply_writes_def fold_map comp_def)
  then show ?case using Cons by (simp add: writes_def apply_writes_def)
qed (simp add: writes_def apply_writes_def)

lemma fold_write_threads:
  "fold (\<lambda>th mi. fold (write_group cp) (got th) mi) ths mi = fold (write_group cp) (concat (map got ths)) mi"
  by (induction ths arbitrary: mi) auto

lemma length_apply_writes [simp]: "length (apply_writes ws xs) = length xs"
  unfolding apply_writes_def by (rule length_fold_same) (auto split: prod.splits)

lemma apply_writes_other: "p \<notin> fst ` set ws \<Longrightarrow> apply_writes ws xs ! p = xs ! p"
  by (induction ws arbitrary: xs) (auto simp: apply_writes_def)

lemma apply_writes_nth:
  "distinct (map fst ws) \<Longrightarrow> (p, v) \<in> set ws \<Longrightarrow> p < length xs \<Longrightarrow> apply_writes ws xs ! p = v"
proof (induction ws arbitrary: xs)
  case (Cons w ws)
  obtain q u where w: "w = (q, u)" by fastforce
  have step: "apply_writes (w # ws) xs = apply_writes ws (xs[q := u])" by (simp add: apply_writes_def w)
  show ?case
  proof (cases "(p, v) = (q, u)")
    case True
    then have "p \<notin> fst ` set ws" using Cons.prems(1) w by auto
    then show ?thesis unfolding step using apply_writes_other [of p ws] True Cons.prems(3) by simp
  next
    case False
    then show ?thesis unfolding step using Cons w by auto
  qed
qed simp

lemma writes_positions:
  assumes "\<And>g. g \<in> set gs \<Longrightarrow> fst g < n"
  shows "mset (map fst (writes b gs)) = (\<Sum>r<n. image_mset (\<lambda>o'. o' + b r) (reserved r (mset gs)))"
  using assms
proof (induction gs)
  case (Cons g gs)
  obtain r i vs where g: "g = (r, i, vs)" by (cases g)
  have "mset (map fst (group_writes b g)) = image_mset (\<lambda>o'. o' + b r) (mset [i..<i + length vs])"
  proof -
    have "map fst (group_writes b g) = map (\<lambda>o'. o' + b r) [i..<i + length vs]"
      by (rule nth_equalityI) (auto simp: g group_writes_def)
    then show ?thesis by (simp only: mset_map)
  qed
  also have "\<dots> = (\<Sum>r'<n. if r' = r then image_mset (\<lambda>o'. o' + b r) (mset [i..<i + length vs]) else {#})"
    using Cons.prems [of g] g by simp
  finally have 1: "mset (map fst (group_writes b g)) =
      (\<Sum>r'<n. if r' = r then image_mset (\<lambda>o'. o' + b r) (mset [i..<i + length vs]) else {#})" .
  have "reserved r' (mset (g # gs)) = (if r' = r then mset [i..<i + length vs] else {#}) + reserved r' (mset gs)" for r'
    by (simp add: reserved_def g)
  then have "(\<Sum>r'<n. image_mset (\<lambda>o'. o' + b r') (reserved r' (mset (g # gs)))) =
      (\<Sum>r'<n. if r' = r then image_mset (\<lambda>o'. o' + b r) (mset [i..<i + length vs]) else {#}) +
      (\<Sum>r'<n. image_mset (\<lambda>o'. o' + b r') (reserved r' (mset gs)))"
    unfolding sum.distrib [symmetric] by (intro sum.cong refl) simp
  with 1 Cons show ?case by (simp add: writes_def)
qed (simp add: writes_def reserved_def)

lemma tile_blocks:
  fixes c :: "nat \<Rightarrow> nat"
  shows "(\<Sum>r<n. image_mset (\<lambda>o'. o' + (\<Sum>j<r. c j)) (mset [0..<c r])) = mset [0..<(\<Sum>r<n. c r)]"
proof (induction n)
  case (Suc n)
  let ?S = "\<Sum>j<n. c j"
  have "map (\<lambda>o'. o' + ?S) [0..<c n] = [?S..<?S + c n]" by (rule nth_equalityI) auto
  then have "image_mset (\<lambda>o'. o' + ?S) (mset [0..<c n]) = mset [?S..<?S + c n]" by (metis mset_map)
  moreover have "[0..<?S + c n] = [0..<?S] @ [?S..<?S + c n]" by (rule upt_add_eq_append) simp
  ultimately show ?case using Suc by simp
qed simp

lemma write_in_block:
  assumes "(q, x) \<in> set (writes b gs)" "\<And>g. g \<in> set gs \<Longrightarrow> fst g < n"
    and "\<And>r. r < n \<Longrightarrow> reserved r (mset gs) = mset [0..<c r]"
  shows "mi_root x < n" "b (mi_root x) \<le> q" "q < b (mi_root x) + c (mi_root x)"
    "\<exists>i vs. (mi_root x, i, vs) \<in> set gs \<and> mi_child x \<in> set vs"
proof -
  obtain r i vs j where g: "(r, i, vs) \<in> set gs" "j < length vs" "q = i + b r + j"
    "x = \<lparr>mi_root = r, mi_child = vs ! j\<rparr>"
    using assms(1) by (auto simp: writes_def group_writes_def)
  show rn: "mi_root x < n" using assms(2) [OF g(1)] g(4) by simp
  have "mset [i..<i + length vs] \<subseteq># reserved r (mset gs)"
  proof -
    have "(r, i, vs) \<in># mset gs" using g(1) by simp
    then obtain M where "mset gs = add_mset (r, i, vs) M" by (meson mset_add)
    then show ?thesis by (simp add: reserved_def)
  qed
  then have "i + j \<in># mset [0..<c r]"
    using assms(3) [of r] rn g(2,4) mset_subset_eqD [of "mset [i..<i + length vs]" "mset [0..<c r]" "i + j"]
    by simp
  then show "b (mi_root x) \<le> q" "q < b (mi_root x) + c (mi_root x)" using g(3,4) by auto
  show "\<exists>i vs. (mi_root x, i, vs) \<in> set gs \<and> mi_child x \<in> set vs"
    using g nth_mem [OF g(2)] by (intro exI [of _ i] exI [of _ vs]) simp
qed


section \<open>The result\<close>

text \<open>The instructions list every vertex once, with its root, sorted by root.\<close>

definition instr_ok :: "nat \<Rightarrow> DSU \<Rightarrow> MergeInstr list \<Rightarrow> bool" where
  "instr_ok n d mi \<longleftrightarrow> length mi = n \<and> sorted (map mi_root mi) \<and> distinct (map mi_child mi) \<and>
     set (map mi_child mi) = {..<n} \<and> (\<forall>x\<in>set mi. mi_root x = dsu_root d (mi_child x))"

lemma placed_instr_ok:
  assumes gs: "\<And>g. g \<in> set gs \<Longrightarrow> fst g < n" "\<And>r. r < n \<Longrightarrow> reserved r (mset gs) = mset [0..<c r]"
    and total: "(\<Sum>r<n. c r) = n" and len: "length mi = n"
    and root: "\<And>r i vs v. (r, i, vs) \<in> set gs \<Longrightarrow> v \<in> set vs \<Longrightarrow> f v = r"
    and cover: "\<And>v. v < n \<Longrightarrow> \<exists>i vs. (f v, i, vs) \<in> set gs \<and> v \<in> set vs"
    and b: "b = (\<lambda>r. \<Sum>j<r. c j)"
  defines "mi' \<equiv> apply_writes (writes b gs) mi"
  shows "length mi' = n" "sorted (map mi_root mi')" "distinct (map mi_child mi')"
    "set (map mi_child mi') = {..<n}" "\<forall>x\<in>set mi'. mi_root x = f (mi_child x)"
proof -
  let ?W = "writes b gs"
  show len': "length mi' = n" by (simp add: mi'_def len)
  have pos: "mset (map fst ?W) = mset [0..<n]"
  proof -
    have "mset (map fst ?W) = (\<Sum>r<n. image_mset (\<lambda>o'. o' + b r) (mset [0..<c r]))"
      using writes_positions [where gs = gs and n = n and b = b, OF gs(1)] gs(2) by simp
    then show ?thesis using tile_blocks [of c n] total by (simp add: b)
  qed
  have dist: "distinct (map fst ?W)" and setW: "set (map fst ?W) = {..<n}"
    using pos by (metis distinct_upt mset_eq_imp_distinct_iff, metis atLeast0LessThan pos set_mset_mset set_upt)
  have W: "(p, mi' ! p) \<in> set ?W" if "p < n" for p
  proof -
    have "p \<in> fst ` set ?W" using setW that by simp
    then obtain v where "(p, v) \<in> set ?W" by auto
    then show ?thesis using apply_writes_nth [OF dist] that len by (simp add: mi'_def)
  qed
  have wr: "mi' ! p = v" "p < n" if "(p, v) \<in> set ?W" for p v
  proof -
    show "p < n" using that setW by force
    then show "mi' ! p = v" using apply_writes_nth [OF dist that] len by (simp add: mi'_def)
  qed
  have blk: "mi_root (mi' ! p) < n" "b (mi_root (mi' ! p)) \<le> p"
    "p < b (mi_root (mi' ! p)) + c (mi_root (mi' ! p))"
    "f (mi_child (mi' ! p)) = mi_root (mi' ! p)" if "p < n" for p
    using write_in_block [OF W [OF that] gs(1) gs(2)] root by blast+
  show "\<forall>x\<in>set mi'. mi_root x = f (mi_child x)"
    using blk(4) len' by (metis in_set_conv_nth)
  have bmono: "b r + c r \<le> b r'" if "r < r'" for r r'
  proof -
    have "b r + c r = (\<Sum>j<Suc r. c j)" by (simp add: b)
    also have "\<dots> \<le> b r'" unfolding b using that by (intro sum_mono2) auto
    finally show ?thesis .
  qed
  show "sorted (map mi_root mi')"
  proof (unfold sorted_iff_nth_mono, intro allI impI)
    fix p q assume "p \<le> q" "q < length (map mi_root mi')"
    then have pq: "p \<le> q" "q < n" "p < n" using len' by auto
    have "\<not> mi_root (mi' ! q) < mi_root (mi' ! p)"
      using bmono [of "mi_root (mi' ! q)" "mi_root (mi' ! p)"] blk(2) [OF pq(3)] blk(3) [OF pq(2)] pq(1) by linarith
    then show "map mi_root mi' ! p \<le> map mi_root mi' ! q" using pq len' by simp
  qed
  have "{..<n} \<subseteq> set (map mi_child mi')"
  proof
    fix v assume "v \<in> {..<n}"
    then obtain i vs where g: "(f v, i, vs) \<in> set gs" "v \<in> set vs" using cover [of v] by auto
    then obtain j where j: "j < length vs" "vs ! j = v" by (auto simp: in_set_conv_nth)
    then have "(i + b (f v) + j, \<lparr>mi_root = f v, mi_child = v\<rparr>) \<in> set (group_writes b (f v, i, vs))"
      by (auto simp: group_writes_def)
    then have "(i + b (f v) + j, \<lparr>mi_root = f v, mi_child = v\<rparr>) \<in> set ?W"
      using g(1) unfolding writes_def by auto
    from wr [OF this] have "\<lparr>mi_root = f v, mi_child = v\<rparr> \<in> set mi'" using len' nth_mem by metis
    then show "v \<in> set (map mi_child mi')" by force
  qed
  moreover have "card (set (map mi_child mi')) \<le> n" using card_length [of "map mi_child mi'"] len' by simp
  ultimately show set: "set (map mi_child mi') = {..<n}"
    by (metis card_lessThan card_seteq finite_set)
  show "distinct (map mi_child mi')" using set len' by (intro card_distinct) simp
qed


lemma length_writes: "length (writes b gs) = sum_list (map (\<lambda>(r, i, vs). length vs) gs)"
  by (induction gs) (auto simp: writes_def group_writes_def)

lemma size_sum_lessThan: "size (\<Sum>r<n. F r :: 'b multiset) = (\<Sum>r<(n::nat). size (F r))"
  by (induction n) auto

lemma sum_reserved:
  assumes "\<And>g. g \<in> set gs \<Longrightarrow> fst g < n" "\<And>r. r < n \<Longrightarrow> reserved r (mset gs) = mset [0..<c r]"
  shows "(\<Sum>r<n. c r) = sum_list (map (\<lambda>(r, i, vs). length vs) gs)"
proof -
  have "size (mset (map fst (writes (\<lambda>_. 0) gs))) = (\<Sum>r<n. size (reserved r (mset gs)))"
    using writes_positions [where gs = gs and n = n and b = "\<lambda>_. 0", OF assms(1)] by (simp add: size_sum_lessThan)
  then show ?thesis using assms(2) by (simp add: length_writes)
qed

lemma concat_segments:
  assumes "partition_ok part n T" "length xs = n"
  shows "concat (map (\<lambda>t. map (\<lambda>i. xs ! i) [seg_start part n T t..<seg_end part n T t]) [0..<T]) = xs"
proof -
  have "concat (map (\<lambda>t. map (\<lambda>i. xs ! i) [seg_start part n T t..<seg_end part n T t]) [0..<Suc m]) =
      take (seg_end part n T m) xs" if "m < T" for m
    using that
  proof (induction m)
    case 0
    then show ?case using seg_facts(2) [OF assms(1)] seg_end_le [OF assms(1), of 0] assms(2)
      by (intro nth_equalityI) auto
  next
    case (Suc m)
    have e: "seg_start part n T (Suc m) = seg_end part n T m" "seg_end part n T (Suc m) \<le> n"
      "seg_end part n T m \<le> seg_end part n T (Suc m)"
      using seg_facts(5) [OF assms(1), of m] seg_end_le [OF assms(1), of "Suc m"]
        seg_facts(4) [OF assms(1), of "Suc m"] Suc.prems by auto
    have "take (seg_end part n T (Suc m)) xs = take (seg_end part n T m) xs @
        map (\<lambda>i. xs ! i) [seg_end part n T m..<seg_end part n T (Suc m)]"
      using e assms(2) by (intro nth_equalityI) (auto simp: nth_append)
    then show ?case using Suc e(1) by simp
  qed
  from this [of "T - 1"] show ?thesis using seg_facts(1,3) [OF assms(1)] assms(2) by simp
qed

lemma create_merge_instructions_ok:
  assumes ok: "partition_ok part n T" and d: "dsu_inv d" "dsu_n d = n"
    and mi: "length mi = n" "set (map mi_child mi) = {..<n}"
    and ord: "\<And>t xs. mset (ord t xs) = mset xs"
  shows "\<exists>mi' d'. create_merge_instructions part n T ord sched d mi = Some (mi', d') \<and>
    dsu_inv d' \<and> dsu_n d' = n \<and> priority d' = priority d \<and>
    (\<forall>x<n. dsu_root d' x = dsu_root d x) \<and> instr_ok n d' mi'"
proof -
  let ?f = "dsu_root d"
  let ?css = "map (\<lambda>t. map (\<lambda>i. mi_child (mi ! i)) [fst (part n t T)..<snd (part n t T)]) [0..<T]"
  have css: "concat ?css = map mi_child mi"
  proof -
    have "?css = map (\<lambda>t. map (\<lambda>i. map mi_child mi ! i) [seg_start part n T t..<seg_end part n T t]) [0..<T]"
      using seg_end_le [OF ok] mi(1)
      by (auto simp: seg_start_def seg_end_def intro!: nth_map [symmetric] intro: less_le_trans)
    then have "concat ?css = concat (map (\<lambda>t. map (\<lambda>i. map mi_child mi ! i)
        [seg_start part n T t..<seg_end part n T t]) [0..<T])" by (rule arg_cong)
    then show ?thesis using concat_segments [OF ok, of "map mi_child mi"] mi(1) by (simp only: length_map)
  qed
  have sub: "set cs \<subseteq> {..<dsu_n d}" if "cs \<in> set ?css" for cs
  proof -
    have "set cs \<subseteq> set (concat ?css)" using that by auto
    then show ?thesis unfolding css using mi(2) d(2) by simp
  qed
  obtain d' ccss where c: "collect_all ?css d = Some (d', ccss)" "dsu_inv d'" "dsu_n d' = n"
    "priority d' = priority d" "\<forall>x<n. dsu_root d' x = ?f x" "list_all2 (groups ?f) ?css ccss"
    using collect_all_correct [where f = ?f and css = ?css, OF d(1) sub] d(2) by auto
  define cc where "cc = map (\<lambda>t. ord t (ccss ! t)) [0..<T]"
  have len: "length ccss = T" "length cc = T" using c(6) by (auto simp: cc_def dest: list_all2_lengthD)
  have grp: "groups ?f (?css ! t) (ccss ! t)" if "t < T" for t
    using c(6) that len by (auto simp: list_all2_conv_all_nth)
  have mem: "set (cc ! t) = set (ccss ! t)" if "t < T" for t
    using that ord [of t "ccss ! t"] by (simp add: cc_def) (metis set_mset_mset)
  have root_lt: "r < n" if "t < length cc" "(r, vs) \<in> set (cc ! t)" for t r vs
  proof -
    have t: "t < T" using that len by simp
    then have "(r, vs) \<in> set (ccss ! t)" using mem that(2) by blast
    then have "r \<in> fst ` set (ccss ! t)" by (rule image_eqI [rotated]) simp
    then have "r \<in> ?f ` set (?css ! t)" using grp [OF t] unfolding groups_def by blast
    moreover have "set (?css ! t) \<subseteq> {..<n}" using sub [of "?css ! t"] t d(2) by simp
    ultimately show ?thesis using dsu_root_lt [OF d(1)] d(2) by auto
  qed
  obtain p ths where rc: "run_captures sched n cc = (p, ths)" by fastforce
  have cap: "length p = n" "length ths = length cc"
    "\<And>t. t < length cc \<Longrightarrow> map (\<lambda>(r, _, vs). (r, vs)) (got (ths ! t)) = cc ! t"
    "\<And>r. r < n \<Longrightarrow> reserved r (cap_all ths) = mset [0..<p ! r]"
    by (rule run_captures_correct [OF _ rc], rule root_lt; assumption)+
  define gs where "gs = concat (map got ths)"
  have gs_mset: "cap_all ths = mset gs" by (simp add: cap_all_def gs_def)
  have gs_mem: "\<exists>t<T. (r, vs) \<in> set (ccss ! t)" if "(r, i, vs) \<in> set gs" for r i vs
  proof -
    have "\<exists>th\<in>set ths. (r, i, vs) \<in> set (got th)" using that by (auto simp: gs_def)
    then obtain t where t: "t < T" "(r, i, vs) \<in> set (got (ths ! t))"
      using cap(2) len(2) by (metis in_set_conv_nth)
    then have "(r, vs) \<in> set (map (\<lambda>(r, _, vs). (r, vs)) (got (ths ! t)))" by force
    then show ?thesis using cap(3) [of t] t len mem by auto
  qed
  have gs_cover: "\<exists>i. (r, i, vs) \<in> set gs" if "t < T" "(r, vs) \<in> set (ccss ! t)" for r vs t
  proof -
    have "(r, vs) \<in> set (map (\<lambda>(r, _, vs). (r, vs)) (got (ths ! t)))"
      using that mem cap(3) [of t] len by simp
    then show ?thesis using that(1) cap(2) len by (force simp: gs_def)
  qed
  have gs1: "fst g < n" if "g \<in> set gs" for g
    using that gs_mem [of "fst g" "fst (snd g)" "snd (snd g)"] root_lt mem len by auto
  have gs2: "reserved r (mset gs) = mset [0..<p ! r]" if "r < n" for r
    using cap(4) [OF that] gs_mset by simp
  have total: "(\<Sum>r<n. p ! r) = n"
  proof -
    have "(\<Sum>r<n. p ! r) = sum_list (map (\<lambda>(r, i, vs). length vs) gs)"
      by (rule sum_reserved [OF gs1 gs2])
    also have "\<dots> = sum_list (map (\<lambda>t. sum_list (map (length \<circ> snd) (cc ! t))) [0..<T])"
    proof -
      have "map (\<lambda>(r, i, vs). length vs) (got (ths ! t)) = map (length \<circ> snd) (cc ! t)" if "t < T" for t
        unfolding cap(3) [of t, symmetric, unfolded len(2), OF that] by (simp add: comp_def split_beta)
      then have "map (\<lambda>th. sum_list (map (\<lambda>(r, i, vs). length vs) (got th))) ths =
          map (\<lambda>t. sum_list (map (length \<circ> snd) (cc ! t))) [0..<T]"
        using cap(2) len by (intro nth_equalityI) auto
      moreover have "sum_list (map (\<lambda>(r, i, vs). length vs) gs) =
          sum_list (map (\<lambda>th. sum_list (map (\<lambda>(r, i, vs). length vs) (got th))) ths)"
        unfolding gs_def by (induction ths) auto
      ultimately show ?thesis by simp
    qed
    also have "\<dots> = sum_list (map length ?css)"
    proof -
      have "sum_list (map (length \<circ> snd) (cc ! t)) = length (?css ! t)" if "t < T" for t
      proof -
        have "mset (map (length \<circ> snd) (cc ! t)) = mset (map (length \<circ> snd) (ccss ! t))"
          using ord [of t "ccss ! t"] that by (simp add: cc_def)
        then have "sum_list (map (length \<circ> snd) (cc ! t)) = sum_list (map (length \<circ> snd) (ccss ! t))"
          by (metis sum_mset_sum_list)
        then show ?thesis using grp [OF that] by (simp add: groups_def)
      qed
      then show ?thesis by (intro arg_cong [where f = sum_list] nth_equalityI) auto
    qed
    also have "\<dots> = n" using css mi(1) by (metis length_concat length_map)
    finally show ?thesis .
  qed
  define cp where "cp = prefix_sums part n T p"
  have bE: "(\<lambda>r. if r > 0 then cp ! (r - 1) else 0) r = (\<Sum>j<r. p ! j)" if "r < n" for r
    using prefix_sums_correct [OF ok cap(1), of "r - 1"] that by (cases r) (auto simp: cp_def lessThan_Suc_atMost)
  have W: "writes (\<lambda>r. if r > 0 then cp ! (r - 1) else 0) gs = writes (\<lambda>r. \<Sum>j<r. p ! j) gs"
  proof -
    have "group_writes (\<lambda>r. if r > 0 then cp ! (r - 1) else 0) g = group_writes (\<lambda>r. \<Sum>j<r. p ! j) g"
      if "g \<in> set gs" for g
      using bE [OF gs1 [OF that]] by (auto simp: group_writes_def split: prod.splits)
    then show ?thesis unfolding writes_def by (intro arg_cong [where f = concat] map_cong) auto
  qed
  have groot: "?f v = r" if g: "(r, i, vs) \<in> set gs" "v \<in> set vs" for r i vs v
  proof -
    obtain t where "t < T" "(r, vs) \<in> set (ccss ! t)" using gs_mem [OF g(1)] by blast
    then show ?thesis using grp g(2) by (fastforce simp: groups_def)
  qed
  have gcover: "\<exists>i vs. (?f v, i, vs) \<in> set gs \<and> v \<in> set vs" if "v < n" for v
  proof -
    have "v \<in> set (concat ?css)" unfolding css using that mi(2) by simp
    then obtain t where t: "t < T" "v \<in> set (?css ! t)" by (auto simp: in_set_conv_nth)
    then obtain vs where "(?f v, vs) \<in> set (ccss ! t)" "v \<in> set vs" using grp [OF t(1)] by (auto simp: groups_def)
    then show ?thesis using gs_cover [OF t(1)] by blast
  qed
  let ?mi = "apply_writes (writes (\<lambda>r. \<Sum>j<r. p ! j) gs) mi"
  have res: "length ?mi = n" "sorted (map mi_root ?mi)" "distinct (map mi_child ?mi)"
    "set (map mi_child ?mi) = {..<n}" "\<forall>x\<in>set ?mi. mi_root x = ?f (mi_child x)"
    by (rule placed_instr_ok [where f = ?f and n = n and c = "\<lambda>r. p ! r", OF _ _ total mi(1) _ _ refl];
        use gs1 gs2 groot gcover in blast)+
  have "create_merge_instructions part n T ord sched d mi = Some (?mi, d')"
  proof -
    have ri: "reads_inside part n T" by (rule reads_inside_ok [OF ok])
    show ?thesis
      unfolding create_merge_instructions_def Let_def c(1) cc_def [symmetric] rc
      by (simp add: ri c(1) cc_def [symmetric] rc fold_write_threads gs_def [symmetric]
        write_groups_eq W [unfolded cp_def] del: One_nat_def)
  qed
  moreover have "instr_ok n d' ?mi"
  proof -
    have "mi_root x = dsu_root d' (mi_child x)" if "x \<in> set ?mi" for x
    proof -
      have "mi_child x \<in> set (map mi_child ?mi)" using that by simp
      then have "mi_child x < n" unfolding res(4) by simp
      then show ?thesis using res(5) that c(5) by simp
    qed
    then show ?thesis unfolding instr_ok_def using res(1-4) by blast
  qed
  ultimately show ?thesis using c by blast
qed

end
