(* ===== verification/Boruvka.thy ===== *)
theory Boruvka
  imports Graph_Ids Merge_Instructions
begin

text \<open>
  The loop of Boruvka rounds that both sketch algorithms run (\<^verbatim>\<open>sample_supernode\<close>,
  \<^verbatim>\<open>run_round_zero\<close>, \<^verbatim>\<open>perform_boruvka_round\<close> and the loop of \<^verbatim>\<open>boruvka_emulation\<close> in
  src/cc_sketch_alg.cpp, and their copies in src/mc_sketch_alg.cpp).

  The state of the loop is the sketches of the vertices, the union-find and the spanning forest
  (\<open>spanning_forest[src]\<close> is the set of the larger ends of the forest edges of \<open>src\<close>). A call of
  \<^verbatim>\<open>sample_supernode\<close> is atomic here: the sketches that are sampled are private or final, and the
  concurrent merges on the union-find are linearizable (theory DSU_Concurrent).

  What the threads may do in any order is fixed by \<open>omp_env\<close>: the number of threads, the order of
  the iterations of round zero, the interleaving of the later rounds and of the captures, and the
  iteration order of the unordered maps. The results hold for every such environment.
\<close>

record omp_env =
  max_threads :: nat
  zero_order :: "nat list"
  round_sched :: "nat \<Rightarrow> nat list"
  capture_sched :: "nat \<Rightarrow> nat list"
  map_order :: "nat \<Rightarrow> nat \<Rightarrow> ccs \<Rightarrow> ccs"

record boruvka_conf =
  bc_part :: partition_fn
  bc_n :: nat
  bc_seed :: seed_t
  bc_factor :: real
  bc_env :: omp_env

abbreviation bc_threads :: "boruvka_conf \<Rightarrow> nat" where
  "bc_threads bc \<equiv> max_threads (bc_env bc)"

text \<open>The sketch that every constructor of the algorithms builds for a graph with \<open>n\<close> vertices.\<close>

definition new_sketch :: "nat \<Rightarrow> seed_t \<Rightarrow> real \<Rightarrow> 'h::len word Sketch" where
  "new_sketch n seed factor =
     Sketch_new (calc_vector_length n) seed (calc_cc_samples n factor) default_cols_per_sample"

definition sample_supernode :: "xxh \<Rightarrow> 'h::len word Sketch \<Rightarrow> DSU \<times> nat set list \<Rightarrow>
    ((error + bool \<times> 'h word Sketch) \<times> DSU \<times> nat set list) option" where
  "sample_supernode xxh skt s =
     (let (d, sf) = s
      in case Sketch_sample xxh skt of
           Inl e \<Rightarrow> Some (Inl e, d, sf)
         | Inr (sample, skt) \<Rightarrow>
             (let (src, dst) = edge_of (idx sample)
              in if result sample = FAIL then Some (Inr (True, skt), d, sf)
                 else if result sample = GOOD then
                   if src < dsu_n d \<and> dst < dsu_n d then
                     (case DSU_MT_merge [] d src dst of
                        None \<Rightarrow> None
                      | Some (m_ret, d) \<Rightarrow>
                          if merged m_ret then
                            let (src, dst) = (min src dst, max src dst)
                            in Some (Inr (True, skt), d, sf[src := insert dst (sf ! src)])
                          else Some (Inr (False, skt), d, sf))
                   else Some (Inl Undefined, d, sf)
                 else Some (Inr (False, skt), d, sf)))"

text \<open>A sequence of calls of \<^verbatim>\<open>sample_supernode\<close>, each inside its own \<^verbatim>\<open>try\<close>: whether some call
  reported a modification, the exception that was caught last, and the sketches afterwards.\<close>

fun sample_all :: "xxh \<Rightarrow> 'h::len word Sketch list \<Rightarrow> DSU \<times> nat set list \<Rightarrow>
    (bool \<times> error option \<times> 'h word Sketch list \<times> DSU \<times> nat set list) option" where
  "sample_all xxh [] s = Some (False, None, [], s)"
| "sample_all xxh (skt # skts) s =
     (case sample_supernode xxh skt s of
        None \<Rightarrow> None
      | Some (r, s) \<Rightarrow>
          (case sample_all xxh skts s of
             None \<Rightarrow> None
           | Some (modified, err, skts, s) \<Rightarrow>
               Some (case r of
                   Inl e \<Rightarrow> (modified, Some (case err of None \<Rightarrow> e | Some e' \<Rightarrow> e'), skt # skts, s)
                 | Inr (m, skt) \<Rightarrow> (m \<or> modified, err, skt # skts, s))))"

definition round_result :: "bool \<Rightarrow> error option \<Rightarrow> error + bool" where
  "round_result modified err = (case err of Some e \<Rightarrow> Inl e | None \<Rightarrow> Inr modified)"

type_synonym 'g bstate = "'g Sketch list \<times> DSU \<times> nat set list"

definition run_round_zero :: "xxh \<Rightarrow> boruvka_conf \<Rightarrow> 'h::len word bstate \<Rightarrow>
    ((error + bool) \<times> 'h word bstate) option" where
  "run_round_zero xxh bc st =
     (let (sks, s) = st; order = zero_order (bc_env bc)
      in case sample_all xxh (map (\<lambda>i. sks ! i) order) s of
           None \<Rightarrow> None
         | Some (modified, err, skts, s) \<Rightarrow>
             Some (round_result modified err, fold (\<lambda>(i, sk) sks. sks[i := sk]) (zip order skts) sks, s))"

definition perform_boruvka_round :: "xxh \<Rightarrow> boruvka_conf \<Rightarrow> nat \<Rightarrow> MergeInstr list \<Rightarrow>
    'h::len word GlobalMergeData list \<Rightarrow> 'h word bstate \<Rightarrow> ((error + bool) \<times> 'h word bstate) option" where
  "perform_boruvka_round xxh bc cur_round merge_instr global_merges st =
     (if cur_round = 0 then run_round_zero xxh bc st
      else
        let (sks, s) = st
        in case round_queries (bc_part bc) (bc_n bc) (bc_threads bc) (round_sched (bc_env bc) cur_round)
             cur_round (\<lambda>c. sks ! c) (new_sketch (bc_n bc) (bc_seed bc) (bc_factor bc)) merge_instr global_merges of
             Inl e \<Rightarrow> Some (Inl e, st)
           | Inr qs \<Rightarrow>
               (case sample_all xxh qs s of
                  None \<Rightarrow> None
                | Some (modified, err, _, s) \<Rightarrow> Some (round_result modified err, sks, s)))"

text \<open>
  The loop. The shared sketches are zeroed at the start of every round, so the fresh ones are
  passed to each. \<open>hist\<close> is a ghost argument: the union-find at the start of each round.
\<close>

partial_function (option) boruvka_loop :: "xxh \<Rightarrow> boruvka_conf \<Rightarrow> 'h::len word GlobalMergeData list \<Rightarrow> nat \<Rightarrow>
    MergeInstr list \<Rightarrow> 'h word bstate \<Rightarrow> DSU list \<Rightarrow> ((error + nat) \<times> 'h word bstate \<times> DSU list) option" where
  "boruvka_loop xxh bc global_merges round_num merge_instr st hist =
     Option.bind (perform_boruvka_round xxh bc round_num merge_instr global_merges st) (\<lambda>(res, st').
       let hist = hist @ [fst (snd st)]
       in case res of
            Inl e \<Rightarrow> Some (Inl e, st', hist)
          | Inr modified \<Rightarrow>
              if \<not> modified then Some (Inr round_num, st', hist)
              else
                let (sks, d, sf) = st'
                in Option.bind (create_merge_instructions (bc_part bc) (bc_n bc) (bc_threads bc)
                     (map_order (bc_env bc) round_num) (capture_sched (bc_env bc) round_num) d merge_instr)
                   (\<lambda>(merge_instr, d).
                     boruvka_loop xxh bc global_merges (round_num + 1) merge_instr (sks, d, sf) hist))"

text \<open>The body of \<^verbatim>\<open>boruvka_emulation\<close> from the construction of the shared data to the end of the
  loop.\<close>

definition boruvka_run :: "xxh \<Rightarrow> boruvka_conf \<Rightarrow> 'h::len word Sketch list \<Rightarrow> DSU \<Rightarrow>
    ((error + nat) \<times> 'h word bstate \<times> DSU list) option" where
  "boruvka_run xxh bc sks d =
     (let n = bc_n bc;
          global_merges = replicate (bc_threads bc)
            (GlobalMergeData_new (calc_vector_length n) (bc_seed bc) (calc_cc_samples n (bc_factor bc)));
          merge_instr = map (\<lambda>i. \<lparr>mi_root = i, mi_child = i\<rparr>) [0..<n]
      in boruvka_loop xxh bc global_merges 0 merge_instr (sks, DSU_reset d, replicate n {}) [])"

section \<open>One sample\<close>

definition sf_edges :: "nat set list \<Rightarrow> edges" where
  "sf_edges sf = {(s, d). s < length sf \<and> d \<in> sf ! s}"

definition dsu_shape :: "nat \<Rightarrow> DSU \<times> nat set list \<Rightarrow> bool" where
  "dsu_shape n s \<longleftrightarrow> dsu_inv (fst s) \<and> dsu_n (fst s) = n \<and> length (snd s) = n"

lemma sf_edges_insert:
  "s < length sf \<Longrightarrow> sf_edges (sf[s := insert d (sf ! s)]) = insert (s, d) (sf_edges sf)"
  by (auto simp: sf_edges_def nth_list_update split: if_splits)

lemma sf_edges_empty [simp]: "sf_edges (replicate n {}) = {}"
  by (auto simp: sf_edges_def)

lemma Sketch_sample_frame:
  "Sketch_sample xxh sk = (if num_samples sk \<le> sample_idx sk
     then Inl (OutOfSamplesException (sketch_seed sk) (num_samples sk) (sample_idx sk))
     else Inr (fst (projr (Sketch_sample xxh sk)), sk\<lparr>sample_idx := sample_idx sk + 1\<rparr>))"
  by (auto simp: Sketch_sample_def Let_def split: option.splits)

lemma sample_supernode_shape:
  assumes "dsu_shape n s"
  shows "\<exists>r s'. sample_supernode xxh q s = Some (r, s') \<and> dsu_shape n s' \<and>
    (num_samples q \<le> sample_idx q \<longrightarrow>
      r = Inl (OutOfSamplesException (sketch_seed q) (num_samples q) (sample_idx q))) \<and>
    (\<forall>m q'. r = Inr (m, q') \<longrightarrow> q' = q\<lparr>sample_idx := sample_idx q + 1\<rparr>)"
proof (cases "num_samples q \<le> sample_idx q")
  case True
  then show ?thesis using assms
    by (simp add: sample_supernode_def Sketch_sample_frame [of xxh q] case_prod_unfold Let_def)
next
  case False
  let ?q = "q\<lparr>sample_idx := sample_idx q + 1\<rparr>"
  obtain d sf where s: "s = (d, sf)" by fastforce
  obtain a where smp: "Sketch_sample xxh q = Inr (a, ?q)"
    using Sketch_sample_frame [of xxh q] False by auto
  obtain u v where uv: "edge_of (idx a) = (u, v)" by fastforce
  have d: "dsu_inv d" "dsu_n d = n" "length sf = n" using assms s by (auto simp: dsu_shape_def)
  show ?thesis
  proof (cases "result a = GOOD \<and> u < n \<and> v < n")
    case True
    then obtain r d' where "DSU_MT_merge [] d u v = Some (r, d')" "dsu_inv d'" "dsu_n d' = n"
      using dsu_mt.merge_ok [of d u v "[]"] d by auto
    then show ?thesis using True d s smp uv False
      by (auto simp: sample_supernode_def dsu_shape_def Let_def)
  next
    case no: False
    then show ?thesis using d s smp uv False
      by (auto simp: sample_supernode_def dsu_shape_def Let_def)
  qed
qed

lemma sample_all_shape:
  assumes "dsu_shape n s"
  shows "\<exists>m err qs' s'. sample_all xxh qs s = Some (m, err, qs', s') \<and> dsu_shape n s' \<and>
    list_all2 (\<lambda>q q'. q' = q \<or> q' = q\<lparr>sample_idx := sample_idx q + 1\<rparr>) qs qs' \<and>
    ((\<forall>q\<in>set qs. sample_idx q < num_samples q) \<or> err \<noteq> None)"
  using assms
proof (induction qs arbitrary: s)
  case (Cons q qs)
  obtain r s' where r: "sample_supernode xxh q s = Some (r, s')" "dsu_shape n s'"
    "num_samples q \<le> sample_idx q \<longrightarrow> (\<exists>e. r = Inl e)"
    "\<forall>m q'. r = Inr (m, q') \<longrightarrow> q' = q\<lparr>sample_idx := sample_idx q + 1\<rparr>"
    using sample_supernode_shape [OF Cons.prems, of xxh q] by auto
  then show ?case using Cons.IH [OF r(2)]
    by (cases r) (auto simp: not_less split: option.splits)
qed auto

text \<open>What the union-find and the forest hold while the rounds of a graph \<open>E\<close> run.\<close>

definition forest_inv :: "nat \<Rightarrow> vec_t set \<Rightarrow> DSU \<times> nat set list \<Rightarrow> bool" where
  "forest_inv n E s \<longleftrightarrow> (case s of (d, sf) \<Rightarrow>
     dsu_repr d (sf_edges sf) \<and> dsu_n d = n \<and> length sf = n \<and>
     acyclic_edges (sf_edges sf) \<and> sf_edges sf \<subseteq> edges_of E)"

lemma forest_inv_shape: "forest_inv n E s \<Longrightarrow> dsu_shape n s"
  by (auto simp: forest_inv_def dsu_shape_def uf_represents_def)

text \<open>The classes of the union-find.\<close>

definition dsu_class :: "nat \<Rightarrow> DSU \<Rightarrow> nat \<Rightarrow> nat set" where
  "dsu_class n d v = {u. u < n \<and> dsu_root d u = dsu_root d v}"

text \<open>Merging an edge of the graph into the union-find and recording it in the forest.\<close>

lemma forest_inv_merge:
  assumes "forest_inv n E (d, sf)" "graph_ids n E" "n \<le> 2 ^ 32" "x \<in> E" "edge_of x = (u, v)"
  shows "\<exists>r d'. DSU_MT_merge fails d u v = Some (r, d') \<and> (merged r \<longleftrightarrow> \<not> econn (sf_edges sf) u v) \<and>
    forest_inv n E (d', if merged r then sf[u := insert v (sf ! u)] else sf)"
proof -
  have uv: "u < v" "v < n" "u < n" using graph_ids_edge [OF assms(2-4)] assms(5) by auto
  have d: "dsu_repr d (sf_edges sf)" "dsu_n d = n" "length sf = n" "acyclic_edges (sf_edges sf)"
    "sf_edges sf \<subseteq> edges_of E" using assms(1) by (auto simp: forest_inv_def)
  obtain r d' where m: "DSU_MT_merge fails d u v = Some (r, d')" "dsu_repr d' (insert (u, v) (sf_edges sf))"
    "dsu_n d' = n" "merged r \<longleftrightarrow> \<not> econn (sf_edges sf) u v"
    using dsu_mt.merge_represents [OF d(1), of u v fails] uv d(2) by auto
  let ?sf = "if merged r then sf[u := insert v (sf ! u)] else sf"
  have "(u, v) \<in> edges_of E" using assms(4,5) by (force simp: edges_of_def)
  moreover have "dsu_repr d' (sf_edges sf)" if "\<not> merged r"
    using m(2,4) that econn_redundant [of "sf_edges sf" u v] by (simp add: uf_represents_def)
  ultimately have "forest_inv n E (d', ?sf)"
    using m d uv(3) acyclic_insert [OF d(4), of u v] by (auto simp: forest_inv_def sf_edges_insert)
  then show ?thesis using m by blast
qed

context linear_sketch
begin

lemma sample_serves:
  assumes "serves xxh holds ref k q S" "sample_idx q = k" "k < num_samples ref" "sample_sound xxh holds ref k S"
  shows "\<exists>r. Sketch_sample xxh q = Inr (r, q\<lparr>sample_idx := k + 1\<rparr>) \<and>
    (result r = ZERO \<longleftrightarrow> S = {}) \<and> (result r = GOOD \<longrightarrow> idx r \<in> S)"
proof -
  have q: "sketch_wf q" "same_shape q ref" "repr (sample_region ref k) q S"
    using assms(1) by (auto simp: serves_def)
  have "sample_region q k = sample_region ref k" "num_samples q = num_samples ref"
    using q(2) by (auto simp: same_shape_def sample_region_def)
  moreover have "sample_sound xxh holds q k S"
    using assms(4) calculation(1) holds_shape [OF q(2)] same_shape_checksum [OF q(2)]
    by (simp add: sample_sound_def)
  ultimately show ?thesis using sample_correct [of q S] q assms(2,3) by auto
qed

lemma sample_supernode_correct:
  assumes "forest_inv n E (d, sf)" "graph_ids n E" "n \<le> 2 ^ 32"
    and "serves xxh holds ref k q (edge_cut E A)" "sample_idx q = k" "k < num_samples ref"
    and "sample_sound xxh holds ref k (edge_cut E A)"
  shows "\<exists>m d' sf'. sample_supernode xxh q (d, sf) = Some (Inr (m, q\<lparr>sample_idx := k + 1\<rparr>), d', sf') \<and>
    forest_inv n E (d', sf') \<and>
    (\<not> m \<longrightarrow> sf' = sf \<and> (edge_cut E A = {} \<or> (\<exists>x\<in>edge_cut E A. econn (sf_edges sf) (fst (edge_of x)) (snd (edge_of x)))))"
proof -
  let ?q = "q\<lparr>sample_idx := k + 1\<rparr>"
  obtain r where r: "Sketch_sample xxh q = Inr (r, ?q)" "result r = ZERO \<longleftrightarrow> edge_cut E A = {}"
    "result r = GOOD \<longrightarrow> idx r \<in> edge_cut E A"
    using sample_serves [OF assms(4-7)] by blast
  obtain u v where uv: "edge_of (idx r) = (u, v)" by fastforce
  show ?thesis
  proof (cases "result r")
    case GOOD
    then have x: "idx r \<in> edge_cut E A" "idx r \<in> E" using r(3) by (auto simp: edge_cut_def)
    have lt: "u < v" "v < n" "u < n" using graph_ids_edge [OF assms(2,3) x(2)] uv by auto
    obtain m d' where m: "DSU_MT_merge [] d u v = Some (m, d')" "merged m \<longleftrightarrow> \<not> econn (sf_edges sf) u v"
      "forest_inv n E (d', if merged m then sf[u := insert v (sf ! u)] else sf)"
      using forest_inv_merge [OF assms(1-3) x(2) uv, of "[]"] by blast
    have "dsu_n d = n" using assms(1) by (simp add: forest_inv_def)
    moreover have "\<exists>x\<in>edge_cut E A. econn (sf_edges sf) (fst (edge_of x)) (snd (edge_of x))"
      if "\<not> merged m" using that m(2) x(1) uv by force
    moreover have "sample_supernode xxh q (d, sf) = Some (Inr (merged m, ?q), d',
        if merged m then sf[u := insert v (sf ! u)] else sf)"
      using r(1) GOOD m(1) lt uv \<open>dsu_n d = n\<close>
      by (simp add: sample_supernode_def min_absorb1 max_absorb2 less_imp_le)
    ultimately show ?thesis using m(3) by auto
  qed (use assms(1) r uv in \<open>auto simp: sample_supernode_def\<close>)
qed

lemma sample_all_correct:
  assumes "graph_ids n E" "n \<le> 2 ^ 32" "k < num_samples ref" "forest_inv n E s"
    and "list_all2 (\<lambda>A q. serves xxh holds ref k q (edge_cut E A) \<and> sample_idx q = k \<and>
      sample_sound xxh holds ref k (edge_cut E A)) As qs"
  shows "\<exists>m s'. sample_all xxh qs s = Some (m, None, map (\<lambda>q. q\<lparr>sample_idx := k + 1\<rparr>) qs, s') \<and>
    forest_inv n E s' \<and>
    (\<not> m \<longrightarrow> snd s' = snd s \<and> (\<forall>A\<in>set As. edge_cut E A = {} \<or>
      (\<exists>x\<in>edge_cut E A. econn (sf_edges (snd s)) (fst (edge_of x)) (snd (edge_of x)))))"
  using assms(5,4)
proof (induction As qs arbitrary: s rule: list_all2_induct)
  case Nil
  then show ?case by auto
next
  case (Cons A As q qs)
  obtain d sf where s: "s = (d, sf)" by fastforce
  obtain m d' sf' where 1: "sample_supernode xxh q s = Some (Inr (m, q\<lparr>sample_idx := k + 1\<rparr>), d', sf')"
    "forest_inv n E (d', sf')"
    "\<not> m \<longrightarrow> sf' = sf \<and> (edge_cut E A = {} \<or> (\<exists>x\<in>edge_cut E A. econn (sf_edges sf) (fst (edge_of x)) (snd (edge_of x))))"
    using sample_supernode_correct [of n E d sf ref k q A] Cons s assms(1-3) by auto
  obtain m2 s'' where 2: "sample_all xxh qs (d', sf') = Some (m2, None, map (\<lambda>q. q\<lparr>sample_idx := k + 1\<rparr>) qs, s'')"
    "forest_inv n E s''"
    "\<not> m2 \<longrightarrow> snd s'' = sf' \<and> (\<forall>A\<in>set As. edge_cut E A = {} \<or>
      (\<exists>x\<in>edge_cut E A. econn (sf_edges sf') (fst (edge_of x)) (snd (edge_of x))))"
    using Cons.IH [OF 1(2)] by auto
  show ?case using 1 2 s by auto
qed

end

section \<open>One round\<close>

definition omp_ok :: "boruvka_conf \<Rightarrow> bool" where
  "omp_ok bc \<longleftrightarrow> partition_ok (bc_part bc) (bc_n bc) (bc_threads bc) \<and> bc_threads bc < size_max \<and>
     bc_n bc \<le> 2 ^ 31 \<and> mset (zero_order (bc_env bc)) = mset [0..<bc_n bc] \<and>
     (\<forall>k t xs. mset (map_order (bc_env bc) k t xs) = mset xs)"

abbreviation bc_ref :: "boruvka_conf \<Rightarrow> 'h::len word Sketch" where
  "bc_ref bc \<equiv> new_sketch (bc_n bc) (bc_seed bc) (bc_factor bc)"

definition sketches_shape :: "'h::len word Sketch \<Rightarrow> nat \<Rightarrow> 'h word Sketch list \<Rightarrow> bool" where
  "sketches_shape ref n sks \<longleftrightarrow> length sks = n \<and> (\<forall>v<n. sketch_wf (sks ! v) \<and> same_shape (sks ! v) ref)"

definition sketches_hold :: "xxh \<Rightarrow> ('h::len word Sketch \<Rightarrow> nat \<Rightarrow> vec_t \<Rightarrow> bool) \<Rightarrow> 'h word Sketch \<Rightarrow> nat \<Rightarrow>
    (nat \<Rightarrow> vec_t set) \<Rightarrow> 'h word Sketch list \<Rightarrow> bool" where
  "sketches_hold xxh holds ref n S sks \<longleftrightarrow> sketches_shape ref n sks \<and>
     (\<forall>v<n. sketch_repr xxh holds {..<num_buckets ref} (sks ! v) (S v))"

text \<open>The hash is sound on what round \<open>k\<close> asks: the cuts of the classes of the union-find.\<close>

definition cuts_sound :: "xxh \<Rightarrow> ('h::len word Sketch \<Rightarrow> nat \<Rightarrow> vec_t \<Rightarrow> bool) \<Rightarrow> 'h word Sketch \<Rightarrow> nat \<Rightarrow>
    nat \<Rightarrow> vec_t set \<Rightarrow> DSU \<Rightarrow> bool" where
  "cuts_sound xxh holds ref k n E d \<longleftrightarrow> (\<forall>v<n. sample_sound xxh holds ref k (edge_cut E (dsu_class n d v)))"

lemma new_sketch_wf: "n \<le> 2 ^ 31 \<Longrightarrow> sketch_wf (new_sketch n seed factor)"
  unfolding new_sketch_def using calc_vector_length_le Sketch_new_wf by blast

lemma new_sketch_fresh [simp]:
  "zero_contents (new_sketch n seed factor) = new_sketch n seed factor"
  "sample_idx (new_sketch n seed factor) = 0"
  "num_samples (new_sketch n seed factor) = calc_cc_samples n factor"
  "is_cuda_bucket (new_sketch n seed factor) = False"
  by (simp_all add: new_sketch_def Sketch_new_def zero_contents_def reset_sample_state_def Let_def
    map_replicate_const)

lemma calc_cc_samples_pos: "18 \<le> calc_cc_samples n factor"
  by (simp add: calc_cc_samples_def)

lemma write_back:
  assumes "set order = {..<n}" "length sks = n"
  shows "fold (\<lambda>(i, sk) sks. sks[i := sk]) (zip order (map g order)) sks = map g [0..<n]"
proof -
  have "length (fold (\<lambda>(i, sk) sks. sks[i := sk]) (zip is (map g is)) sks) = length sks \<and>
      (\<forall>j < length sks. fold (\<lambda>(i, sk) sks. sks[i := sk]) (zip is (map g is)) sks ! j =
        (if j \<in> set is then g j else sks ! j))" for "is" sks
    by (induction "is" arbitrary: sks) (auto simp: nth_list_update)
  from this [of order sks] show ?thesis using assms by (intro nth_equalityI) auto
qed

lemma distinct_map_fun:
  assumes "distinct is" "length ys = length is"
  shows "\<exists>g. ys = map g is"
proof -
  have "ys = map (\<lambda>i. the (map_of (zip is ys) i)) is"
    using assms by (intro nth_equalityI) (auto simp: map_of_zip_nth)
  then show ?thesis by blast
qed

lemma component_class:
  assumes "instr_ok n d mi" "v < n"
  shows "component mi (dsu_root d v) = dsu_class n d v"
proof -
  have mi: "set (map mi_child mi) = {..<n}" "\<And>x. x \<in> set mi \<Longrightarrow> mi_root x = dsu_root d (mi_child x)"
    using assms(1) by (auto simp: instr_ok_def)
  show ?thesis
  proof (intro equalityI subsetI)
    fix u assume "u \<in> component mi (dsu_root d v)"
    then obtain x where "x \<in> set mi" "mi_root x = dsu_root d v" "u = mi_child x" by (auto simp: component_def)
    then show "u \<in> dsu_class n d v" using mi by (force simp: dsu_class_def)
  next
    fix u assume "u \<in> dsu_class n d v"
    then have u: "u \<in> set (map mi_child mi)" "dsu_root d u = dsu_root d v" using mi(1) by (auto simp: dsu_class_def)
    then obtain x where "x \<in> set mi" "mi_child x = u" by auto
    then show "u \<in> component mi (dsu_root d v)" using mi(2) [of x] u(2) by (auto simp: component_def)
  qed
qed

lemma instr_roots: "instr_ok n d mi \<Longrightarrow> mi_root ` set mi = dsu_root d ` {..<n}"
proof -
  assume i: "instr_ok n d mi"
  then have "mi_root ` set mi = (\<lambda>x. dsu_root d (mi_child x)) ` set mi"
    by (intro image_cong) (auto simp: instr_ok_def)
  also have "\<dots> = dsu_root d ` set (map mi_child mi)" by auto
  also have "\<dots> = dsu_root d ` {..<n}" using i by (simp add: instr_ok_def)
  finally show ?thesis .
qed

lemma instr_ok_sorted: "instr_ok n d mi \<Longrightarrow> n \<le> 2 ^ 31 \<Longrightarrow> instr_sorted mi"
proof -
  assume i: "instr_ok n d mi" and n: "n \<le> 2 ^ 31"
  have "mi_child x < 2 ^ 32 - 1" if "x \<in> set mi" for x
  proof -
    have "mi_child x \<in> set (map mi_child mi)" using that by simp
    then show ?thesis using i n by (simp add: instr_ok_def)
  qed
  then show ?thesis using i by (simp add: instr_sorted_def instr_ok_def)
qed

text \<open>A round that modifies nothing has found no edge between classes.\<close>

lemma no_modification:
  assumes "forest_inv n E (d, sf)" "graph_ids n E" "n \<le> 2 ^ 32"
    and "\<And>v. v < n \<Longrightarrow> edge_cut E (dsu_class n d v) = {} \<or>
      (\<exists>x\<in>edge_cut E (dsu_class n d v). econn (sf_edges sf) (fst (edge_of x)) (snd (edge_of x)))"
  shows "spanning_forest_of (edges_of E) (sf_edges sf)"
proof -
  have d: "dsu_root d a = dsu_root d b \<longleftrightarrow> econn (sf_edges sf) a b" if "a < n" "b < n" for a b
    using assms(1) that by (simp add: forest_inv_def uf_represents_def)
  have "edge_cut E {u. u < n \<and> dsu_root d u = dsu_root d v} = {}" if v: "v < n" for v
  proof (rule ccontr)
    assume "\<not> ?thesis"
    then obtain x where x: "x \<in> edge_cut E (dsu_class n d v)" "econn (sf_edges sf) (fst (edge_of x)) (snd (edge_of x))"
      using assms(4) [OF v] by (auto simp: dsu_class_def)
    then have "x \<in> E" by (simp add: edge_cut_def)
    note e = graph_ids_edge(2,3) [OF assms(2,3) this]
    then have "dsu_root d (fst (edge_of x)) = dsu_root d (snd (edge_of x))" using d x(2) by simp
    then show False using x(1) e by (auto simp: edge_cut_def dsu_class_def)
  qed
  then have "dsu_root d a = dsu_root d b" if "(a, b) \<in> edges_of E" for a b
    using no_cut_connected [OF assms(2,3) _ that, of "dsu_root d"] by blast
  then have "econn (sf_edges sf) a b" if "(a, b) \<in> edges_of E" for a b
    using that d [of a b] edges_of_range [OF assms(2,3)] by blast
  moreover have "econn (edges_of E) a b" if "(a, b) \<in> sf_edges sf" for a b
    using that assms(1) econn_edge by (auto simp: forest_inv_def)
  ultimately have "econn (sf_edges sf) = econn (edges_of E)" by (intro econn_eqI)
  then show ?thesis using assms(1) by (simp add: forest_inv_def spanning_forest_of_def)
qed

lemma sample_all_exhausted:
  assumes "dsu_shape n s" "qs \<noteq> []" "\<And>q. q \<in> set qs \<Longrightarrow> num_samples q \<le> sample_idx q"
  shows "\<exists>m sd a i qs' s'. sample_all xxh qs s = Some (m, Some (OutOfSamplesException sd a i), qs', s') \<and>
    dsu_shape n s'"
  using assms
proof (induction qs arbitrary: s)
  case (Cons q qs)
  obtain s' where s': "sample_supernode xxh q s =
      Some (Inl (OutOfSamplesException (sketch_seed q) (num_samples q) (sample_idx q)), s')" "dsu_shape n s'"
    using sample_supernode_shape [OF Cons.prems(1), of xxh q] Cons.prems(3) by auto
  show ?case
  proof (cases "qs = []")
    case False
    then show ?thesis using Cons.IH [OF s'(2)] Cons.prems(3) s'(1) by fastforce
  qed (use s' in auto)
qed simp

lemma omp_okD:
  assumes "omp_ok bc"
  shows "partition_ok (bc_part bc) (bc_n bc) (bc_threads bc)" "bc_threads bc < size_max"
    "bc_n bc \<le> 2 ^ 31" "bc_n bc \<le> 2 ^ 32" "mset (zero_order (bc_env bc)) = mset [0..<bc_n bc]"
    "set (zero_order (bc_env bc)) = {..<bc_n bc}" "0 < bc_n bc"
    "\<And>k t xs. mset (map_order (bc_env bc) k t xs) = mset xs"
proof -
  show p: "partition_ok (bc_part bc) (bc_n bc) (bc_threads bc)" "bc_threads bc < size_max"
    "bc_n bc \<le> 2 ^ 31" "mset (zero_order (bc_env bc)) = mset [0..<bc_n bc]"
    "\<And>k t xs. mset (map_order (bc_env bc) k t xs) = mset xs"
    using assms by (auto simp: omp_ok_def)
  show "bc_n bc \<le> 2 ^ 32" using p(3) by simp
  show "set (zero_order (bc_env bc)) = {..<bc_n bc}" using p(4) by (metis atLeast_upt set_mset_mset)
  show "0 < bc_n bc" using seg_facts(1,4) [OF p(1)] seg_end_le [OF p(1), of 0]
    by (metis gr0I le_zero_eq not_less_zero)
qed

definition bc_globals :: "boruvka_conf \<Rightarrow> 'h::len word GlobalMergeData list" where
  "bc_globals bc = replicate (bc_threads bc)
     (GlobalMergeData_new (calc_vector_length (bc_n bc)) (bc_seed bc) (calc_cc_samples (bc_n bc) (bc_factor bc)))"

lemma bc_globals_sketch: "g \<in> set (bc_globals bc) \<Longrightarrow> gsketch g = bc_ref bc"
  by (simp add: bc_globals_def GlobalMergeData_new_def new_sketch_def)


text \<open>A round returns whatever the hash does, and fails once the samples are used up.\<close>

lemma sample_idx_shape:
  assumes "q' = q \<or> q' = q\<lparr>sample_idx := sample_idx q + 1\<rparr>"
  shows "sketch_wf q' \<longleftrightarrow> sketch_wf q" "same_shape q' q" "reset_sample_state q' = reset_sample_state q"
    "buckets q' = buckets q"
  using assms by (auto simp: sketch_wf_def same_shape_def reset_sample_state_def)

lemma round_zero_returns:
  assumes omp: "omp_ok bc" and n: "n = bc_n bc"
    and sks: "sketches_shape (bc_ref bc) n sks" and s: "dsu_shape n s"
  shows "\<exists>res sks' s'. run_round_zero xxh bc (sks, s) = Some (res, sks', s') \<and>
    sketches_shape (bc_ref bc) n sks' \<and> dsu_shape n s' \<and>
    map reset_sample_state sks' = map reset_sample_state sks"
proof -
  let ?o = "zero_order (bc_env bc)"
  note o = omp_okD(5,6) [OF omp, folded n]
  have d: "distinct ?o" using o(1) by (metis distinct_upt mset_eq_imp_distinct_iff)
  obtain m err qs s' where q: "sample_all xxh (map (\<lambda>i. sks ! i) ?o) s = Some (m, err, qs, s')" "dsu_shape n s'"
    "list_all2 (\<lambda>q q'. q' = q \<or> q' = q\<lparr>sample_idx := sample_idx q + 1\<rparr>) (map (\<lambda>i. sks ! i) ?o) qs"
    using sample_all_shape [OF s, of xxh "map (\<lambda>i. sks ! i) ?o"] by blast
  obtain g where g: "qs = map g ?o" using distinct_map_fun [OF d, of qs] list_all2_lengthD [OF q(3)] by auto
  have rel: "g i = sks ! i \<or> g i = (sks ! i)\<lparr>sample_idx := sample_idx (sks ! i) + 1\<rparr>" if "i < n" for i
  proof -
    have "i \<in> set ?o" using that o(2) by simp
    then show ?thesis using q(3) unfolding g by (fastforce simp: list_all2_conv_all_nth in_set_conv_nth)
  qed
  have len: "length sks = n" using sks by (simp add: sketches_shape_def)
  have wb: "fold (\<lambda>(i, sk) sks. sks[i := sk]) (zip ?o qs) sks = map g [0..<n]"
    unfolding g by (rule write_back [OF o(2) len])
  have "sketches_shape (bc_ref bc) n (map g [0..<n])"
    using sks sample_idx_shape(1) [OF rel] same_shape_trans [OF sample_idx_shape(2) [OF rel]]
    by (auto simp: sketches_shape_def)
  moreover have "map reset_sample_state (map g [0..<n]) = map reset_sample_state sks"
    using sample_idx_shape(3) [OF rel] len by (intro nth_equalityI) auto
  ultimately show ?thesis using q(1,2) wb by (simp add: run_round_zero_def)
qed

lemma round_queries_return:
  fixes sks :: "nat \<Rightarrow> 'h::len word Sketch"
  assumes omp: "omp_ok bc" and n: "n = bc_n bc" and mi: "instr_ok n d mi"
  shows "\<exists>qs. round_queries (bc_part bc) n (bc_threads bc) sched k sks (bc_ref bc) mi (bc_globals bc) = Inr qs \<and>
    (calc_cc_samples n (bc_factor bc) \<le> k \<longrightarrow> qs \<noteq> [] \<and> (\<forall>q\<in>set qs. num_samples q \<le> sample_idx q))"
proof -
  note o = omp_okD [OF omp, folded n]
  have mi': "instr_sorted mi" "length mi = n" using instr_ok_sorted [OF mi o(3)] mi by (auto simp: instr_ok_def)
  have gl: "length (bc_globals bc :: 'h word GlobalMergeData list) = bc_threads bc" by (simp add: bc_globals_def)
  have z: "zero_contents (bc_ref bc) = (bc_ref bc :: 'h word Sketch)" by simp
  show ?thesis
  proof (cases "calc_cc_samples n (bc_factor bc) \<le> k")
    case True
    then have le: "num_samples (bc_ref bc :: 'h word Sketch) \<le> k" using n by simp
    have gs: "num_samples (gsketch g) = num_samples (bc_ref bc :: 'h word Sketch)"
      if "g \<in> set (bc_globals bc :: 'h word GlobalMergeData list)" for g
      using bc_globals_sketch [OF that] by simp
    obtain rs qs where q: "round_queries (bc_part bc) n (bc_threads bc) sched k sks (bc_ref bc) mi (bc_globals bc) = Inr qs"
      "set rs = mi_root ` set mi"
      "list_all2 (\<lambda>r q. num_samples q \<le> sample_idx q \<and> num_samples q = num_samples (bc_ref bc :: 'h word Sketch)) rs qs"
      using round_queries_exhausted [OF o(1,2) mi' z le gl gs, of sched sks] by blast
    have "rs \<noteq> []" using q(2) mi'(2) o(7) by auto
    then have "qs \<noteq> []" using q(3) by auto
    moreover have "num_samples x \<le> sample_idx x" if "x \<in> set qs" for x
      using q(3) that by (auto simp: list_all2_conv_all_nth in_set_conv_nth)
    ultimately show ?thesis using q(1) by auto
  next
    case False
    then show ?thesis
      using round_queries_generic [where Qg = "\<lambda>_ _ _. True" and k = k and sks = sks and sched = sched,
        OF o(1,2) mi' z gl refl refl] by auto
  qed
qed

lemma round_returns:
  assumes omp: "omp_ok bc" and n: "n = bc_n bc"
    and sks: "sketches_shape (bc_ref bc) n sks" and s: "dsu_shape n s" and mi: "instr_ok n d mi"
  shows "\<exists>res sks' s'. perform_boruvka_round xxh bc k mi (bc_globals bc) (sks, s) = Some (res, sks', s') \<and>
    sketches_shape (bc_ref bc) n sks' \<and> dsu_shape n s' \<and>
    map reset_sample_state sks' = map reset_sample_state sks \<and>
    (k \<noteq> 0 \<and> calc_cc_samples n (bc_factor bc) \<le> k \<longrightarrow> (\<exists>sd a i. res = Inl (OutOfSamplesException sd a i)))"
proof (cases "k = 0")
  case True
  then show ?thesis using round_zero_returns [OF omp n sks s, of xxh] by (simp add: perform_boruvka_round_def)
next
  case False
  obtain qs where q: "round_queries (bc_part bc) n (bc_threads bc) (round_sched (bc_env bc) k) k (\<lambda>c. sks ! c)
      (bc_ref bc) mi (bc_globals bc) = Inr qs"
    "calc_cc_samples n (bc_factor bc) \<le> k \<longrightarrow> qs \<noteq> [] \<and> (\<forall>q\<in>set qs. num_samples q \<le> sample_idx q)"
    using round_queries_return [OF omp n mi] by blast
  show ?thesis
  proof (cases "calc_cc_samples n (bc_factor bc) \<le> k")
    case True
    then show ?thesis using sample_all_exhausted [OF s, of qs xxh] q sks False n
      by (fastforce simp: perform_boruvka_round_def round_result_def)
  next
    case le: False
    obtain m err qs' s' where "sample_all xxh qs s = Some (m, err, qs', s')" "dsu_shape n s'"
      using sample_all_shape [OF s, of xxh qs] by blast
    then show ?thesis using q(1) sks False le n by (simp add: perform_boruvka_round_def)
  qed
qed

lemma round_zero_exhausted:
  assumes omp: "omp_ok bc" and n: "n = bc_n bc" and sks: "sketches_shape (bc_ref bc) n sks"
    and s: "dsu_shape n s" and idx: "\<And>v. v < n \<Longrightarrow> calc_cc_samples n (bc_factor bc) \<le> sample_idx (sks ! v)"
  shows "\<exists>sd a i st'. run_round_zero xxh bc (sks, s) = Some (Inl (OutOfSamplesException sd a i), st')"
proof -
  let ?o = "zero_order (bc_env bc)"
  note o = omp_okD(6,7) [OF omp, folded n]
  have "num_samples q \<le> sample_idx q" if "q \<in> set (map (\<lambda>i. sks ! i) ?o)" for q
    using that idx o(1) sks n by (auto simp: sketches_shape_def same_shape_def)
  moreover have "map (\<lambda>i. sks ! i) ?o \<noteq> []" using o by force
  ultimately show ?thesis using sample_all_exhausted [OF s, of "map (\<lambda>i. sks ! i) ?o" xxh]
    by (fastforce simp: run_round_zero_def round_result_def)
qed

lemma buckets_reset: "buckets (reset_sample_state sk) = buckets sk"
  by (simp add: reset_sample_state_def)

lemma sketches_hold_sample_idx:
  assumes "sketches_hold xxh holds ref n S sks" "sketches_shape ref n sks'"
    and "map reset_sample_state sks' = map reset_sample_state sks"
    and "\<And>a b i x. same_shape a b \<Longrightarrow> holds a i x = holds b i x"
  shows "sketches_hold xxh holds ref n S sks'"
proof -
  have sh: "sketches_shape ref n sks" using assms(1) by (simp add: sketches_hold_def)
  have "sketch_repr xxh holds {..<num_buckets ref} (sks' ! v) (S v)" if "v < n" for v
  proof -
    have "reset_sample_state (sks' ! v) = reset_sample_state (sks ! v)"
      using arg_cong [OF assms(3), of "\<lambda>xs. xs ! v"] that sh assms(2) by (simp add: sketches_shape_def)
    then have b: "buckets (sks' ! v) = buckets (sks ! v)"
      using buckets_reset by metis
    have sm: "same_shape (sks' ! v) (sks ! v)"
      using that sh assms(2) by (simp add: sketches_shape_def same_shape_def)
    show ?thesis using assms(1) that b assms(4) [OF sm] same_shape_checksum [OF sm]
      by (simp add: sketches_hold_def sketch_repr_def)
  qed
  then show ?thesis using assms(2) by (simp add: sketches_hold_def)
qed

context linear_sketch
begin

lemma serves_vertex:
  assumes "sketches_hold xxh holds ref n S sks" "sketch_wf ref" "k < num_samples ref" "v < n"
  shows "serves xxh holds ref k (sks ! v) (S v)"
proof -
  have sub: "sample_region ref k \<subseteq> {..<num_buckets ref}" using sample_region_bound [OF assms(2,3)] by auto
  have "sketch_wf (sks ! v)" "same_shape (sks ! v) ref" "repr {..<num_buckets ref} (sks ! v) (S v)"
    using assms(1,4) by (auto simp: sketches_hold_def sketches_shape_def)
  then show ?thesis using sketch_repr_mono [OF _ sub] by (simp add: serves_def)
qed

lemma round_zero_correct:
  assumes omp: "omp_ok bc" and n: "n = bc_n bc" and E: "graph_ids n E"
    and sks: "sketches_hold xxh holds (bc_ref bc) n (incident E) sks" and s: "forest_inv n E (d, sf)"
    and fresh: "\<And>v. v < n \<Longrightarrow> dsu_root d v = v \<and> sample_idx (sks ! v) = z"
    and z: "z < calc_cc_samples n (bc_factor bc)" and sound: "cuts_sound xxh holds (bc_ref bc) z n E d"
  shows "\<exists>m st' s'. run_round_zero xxh bc (sks, d, sf) = Some (Inr m, st', s') \<and> forest_inv n E s' \<and>
    (\<not> m \<longrightarrow> spanning_forest_of (edges_of E) (sf_edges (snd s')))"
proof -
  let ?o = "zero_order (bc_env bc)" and ?ref = "bc_ref bc :: 'h word Sketch"
  note o = omp_okD [OF omp, folded n]
  have cls: "dsu_class n d v = {v}" if "v < n" for v using fresh that by (auto simp: dsu_class_def)
  have cut1: "edge_cut E {v} = incident E v" for v using xset_incident [OF E o(4), of "{v}"] by simp
  have zr: "z < num_samples ?ref" using z n by simp
  have wf: "sketch_wf ?ref" using new_sketch_wf o(3) n by blast
  have srv: "serves xxh holds ?ref z (sks ! v) (edge_cut E {v}) \<and> sample_idx (sks ! v) = z \<and>
      sample_sound xxh holds ?ref z (edge_cut E {v})" if v: "v < n" for v
  proof -
    have "serves xxh holds ?ref z (sks ! v) (edge_cut E {v})"
      unfolding cut1 by (rule serves_vertex [OF sks wf zr v])
    then show ?thesis using fresh [OF v] sound v cls [OF v] by (auto simp: cuts_sound_def)
  qed
  have "list_all2 (\<lambda>A q. serves xxh holds ?ref z q (edge_cut E A) \<and> sample_idx q = z \<and>
      sample_sound xxh holds ?ref z (edge_cut E A)) (map (\<lambda>i. {i}) ?o) (map (\<lambda>i. sks ! i) ?o)"
    unfolding list.rel_map by (rule list.rel_refl_strong, rule srv) (use o(6) in simp)
  from sample_all_correct [OF E o(4) zr s this]
  obtain m s' where m: "sample_all xxh (map (\<lambda>i. sks ! i) ?o) (d, sf) =
      Some (m, None, map (\<lambda>q. q\<lparr>sample_idx := z + 1\<rparr>) (map (\<lambda>i. sks ! i) ?o), s')" "forest_inv n E s'"
    "\<not> m \<longrightarrow> snd s' = sf \<and> (\<forall>A\<in>set (map (\<lambda>i. {i}) ?o). edge_cut E A = {} \<or>
      (\<exists>x\<in>edge_cut E A. econn (sf_edges sf) (fst (edge_of x)) (snd (edge_of x))))" by auto
  have "spanning_forest_of (edges_of E) (sf_edges (snd s'))" if "\<not> m"
  proof -
    have "spanning_forest_of (edges_of E) (sf_edges sf)"
      by (rule no_modification [OF s E o(4)]) (use m(3) that o(6) cls in auto)
    then show ?thesis using m(3) that by simp
  qed
  then show ?thesis using m(1,2) by (cases s') (auto simp: run_round_zero_def round_result_def Let_def)
qed

lemma later_round_correct:
  assumes omp: "omp_ok bc" and n: "n = bc_n bc" and E: "graph_ids n E"
    and sks: "sketches_hold xxh holds (bc_ref bc) n (incident E) sks" and s: "forest_inv n E (d, sf)"
    and mi: "instr_ok n d mi" and k: "k \<noteq> 0" "k < calc_cc_samples n (bc_factor bc)"
    and sound: "cuts_sound xxh holds (bc_ref bc) k n E d"
  shows "\<exists>m s'. perform_boruvka_round xxh bc k mi (bc_globals bc) (sks, d, sf) = Some (Inr m, sks, s') \<and>
    forest_inv n E s' \<and> (\<not> m \<longrightarrow> spanning_forest_of (edges_of E) (sf_edges (snd s')))"
proof -
  let ?ref = "bc_ref bc :: 'h word Sketch"
  note o = omp_okD [OF omp, folded n]
  have mi': "instr_sorted mi" "length mi = n" "distinct (map mi_child mi)" "set (map mi_child mi) = {..<n}"
    using instr_ok_sorted [OF mi o(3)] mi by (auto simp: instr_ok_def)
  have kr: "k < num_samples ?ref" using k n by simp
  have wf: "sketch_wf ?ref" using new_sketch_wf o(3) n by blast
  have l0: "serves xxh holds ?ref k ?ref {}" using serves_zero [OF kr, of ?ref] wf by simp
  have sv: "serves xxh holds ?ref k (sks ! c) (incident E c)" if "c \<in> mi_child ` set mi" for c
    using that mi'(4) by (intro serves_vertex [OF sks wf kr]) auto
  have gm: "length (bc_globals bc :: 'h word GlobalMergeData list) = bc_threads bc"
    "\<And>g. g \<in> set (bc_globals bc) \<Longrightarrow> sketch_wf (gsketch g) \<and> same_shape (gsketch g) ?ref"
    using bc_globals_sketch wf by (auto simp: bc_globals_def GlobalMergeData_new_def new_sketch_def)
  obtain rs qs where q: "round_queries (bc_part bc) n (bc_threads bc) (round_sched (bc_env bc) k) k
      (\<lambda>c. sks ! c) ?ref mi (bc_globals bc) = Inr qs" "set rs = mi_root ` set mi"
    "list_all2 (\<lambda>r q. serves xxh holds ?ref k q (xset (incident E) (component mi r)) \<and> sample_idx q = k) rs qs"
    using round_queries_correct [where V = "incident E" and sks = "\<lambda>c. sks ! c",
        OF o(1,2) mi'(1-3) kr _ l0 sv gm, of "round_sched (bc_env bc) k"] by auto
  have "list_all2 (\<lambda>A q. serves xxh holds ?ref k q (edge_cut E A) \<and> sample_idx q = k \<and>
      sample_sound xxh holds ?ref k (edge_cut E A)) (map (component mi) rs) qs"
  proof -
    have "xset (incident E) (component mi r) = edge_cut E (component mi r) \<and>
        sample_sound xxh holds ?ref k (edge_cut E (component mi r))" if r: "r \<in> set rs" for r
    proof -
      obtain v where v: "v < n" "r = dsu_root d v" using r q(2) instr_roots [OF mi] by auto
      have "finite (component mi r)" by (simp add: component_def)
      then show ?thesis using xset_incident [OF E o(4)] sound v component_class [OF mi v(1)]
        by (simp add: cuts_sound_def)
    qed
    then show ?thesis using q(3) by (auto simp: list_all2_conv_all_nth)
  qed
  from sample_all_correct [OF E o(4) kr s this]
  obtain m s' where m: "sample_all xxh qs (d, sf) = Some (m, None, map (\<lambda>q. q\<lparr>sample_idx := k + 1\<rparr>) qs, s')"
    "forest_inv n E s'"
    "\<not> m \<longrightarrow> snd s' = sf \<and> (\<forall>A\<in>set (map (component mi) rs). edge_cut E A = {} \<or>
      (\<exists>x\<in>edge_cut E A. econn (sf_edges sf) (fst (edge_of x)) (snd (edge_of x))))" by auto
  have "spanning_forest_of (edges_of E) (sf_edges (snd s'))" if "\<not> m"
  proof -
    have "dsu_class n d v \<in> set (map (component mi) rs)" if "v < n" for v
      using component_class [OF mi that] q(2) instr_roots [OF mi] that by (auto intro!: image_eqI)
    then have "spanning_forest_of (edges_of E) (sf_edges sf)"
      by (intro no_modification [OF s E o(4)]) (use m(3) that in blast)
    then show ?thesis using m(3) that by simp
  qed
  then show ?thesis using m(1,2) q(1) k(1) n by (auto simp: perform_boruvka_round_def round_result_def)
qed

end

section \<open>The loop\<close>

lemma create_instr:
  assumes omp: "omp_ok bc" and n: "n = bc_n bc" and s: "dsu_shape n (d, sf)"
    and mi: "instr_ok n d0 mi"
  shows "\<exists>mi' d'. create_merge_instructions (bc_part bc) n (bc_threads bc)
      (map_order (bc_env bc) k) (capture_sched (bc_env bc) k) d mi = Some (mi', d') \<and>
    dsu_shape n (d', sf) \<and> (\<forall>x<n. dsu_root d' x = dsu_root d x) \<and> instr_ok n d' mi'"
proof -
  have mi': "length mi = n" "set (map mi_child mi) = {..<n}" using mi by (auto simp: instr_ok_def)
  have s': "dsu_inv d" "dsu_n d = n" "length sf = n" using s by (auto simp: dsu_shape_def)
  show ?thesis
    using create_merge_instructions_ok [where ord = "map_order (bc_env bc) k" and sched = "capture_sched (bc_env bc) k",
        OF omp_okD(1) [OF omp, folded n] s'(1,2) mi' omp_okD(8) [OF omp]] s'(3)
    by (auto simp: dsu_shape_def)
qed

lemma loop_returns:
  assumes omp: "omp_ok bc" and n: "n = bc_n bc"
    and "sketches_shape (bc_ref bc) n sks" "dsu_shape n (d, sf)" "instr_ok n d mi"
  shows "\<exists>res sks' s' rest. boruvka_loop xxh bc (bc_globals bc) k mi (sks, d, sf) hist =
      Some (res, (sks', s'), hist @ d # rest) \<and> sketches_shape (bc_ref bc) n sks' \<and> dsu_shape n s' \<and>
    map reset_sample_state sks' = map reset_sample_state sks \<and>
    (\<forall>r. res = Inr r \<longrightarrow> r \<le> max k (calc_cc_samples n (bc_factor bc)))"
  using assms(3-5)
proof (induction "calc_cc_samples n (bc_factor bc) - k" arbitrary: k sks d sf mi hist rule: less_induct)
  case less
  let ?ns = "calc_cc_samples n (bc_factor bc)"
  obtain res sks' d' sf' where r: "perform_boruvka_round xxh bc k mi (bc_globals bc) (sks, d, sf) = Some (res, sks', d', sf')"
    "sketches_shape (bc_ref bc) n sks'" "dsu_shape n (d', sf')"
    "map reset_sample_state sks' = map reset_sample_state sks"
    "k \<noteq> 0 \<and> ?ns \<le> k \<longrightarrow> (\<exists>sd a i. res = Inl (OutOfSamplesException sd a i))"
    using round_returns [OF omp n less.prems, of xxh k] by fastforce
  show ?case
  proof (cases "res = Inr True")
    case False
    then consider e where "res = Inl e" | "res = Inr False" by (cases res) auto
    then show ?thesis
      by cases (use r in \<open>simp_all add: boruvka_loop.simps [of xxh bc _ k]\<close>)
  next
    case True
    then have k: "k < ?ns" using r(5) calc_cc_samples_pos [of n "bc_factor bc"] by (cases "k = 0") auto
    obtain mi' d2 where c: "create_merge_instructions (bc_part bc) n (bc_threads bc)
        (map_order (bc_env bc) k) (capture_sched (bc_env bc) k) d' mi = Some (mi', d2)"
      "dsu_shape n (d2, sf')" "instr_ok n d2 mi'"
      using create_instr [OF omp n r(3) less.prems(3), of k] by blast
    have "?ns - (k + 1) < ?ns - k" using k by simp
    from less.hyps [OF this r(2) c(2,3), of "hist @ [d]"]
    show ?thesis using r(1,4) True c(1) n k by (fastforce simp: boruvka_loop.simps [of xxh bc _ k])
  qed
qed

text \<open>The sample that round \<open>k\<close> takes: the vertex sketches are sampled directly in round zero, so
  there it is the next unused one.\<close>

definition round_sample :: "nat \<Rightarrow> nat \<Rightarrow> nat" where
  "round_sample z k = (if k = 0 then z else k)"

definition hist_sound :: "xxh \<Rightarrow> ('h::len word Sketch \<Rightarrow> nat \<Rightarrow> vec_t \<Rightarrow> bool) \<Rightarrow> 'h word Sketch \<Rightarrow> nat \<Rightarrow>
    vec_t set \<Rightarrow> nat \<Rightarrow> DSU list \<Rightarrow> bool" where
  "hist_sound xxh holds ref n E z hist \<longleftrightarrow> (\<forall>k < length hist. round_sample z k < num_samples ref \<longrightarrow>
     cuts_sound xxh holds ref (round_sample z k) n E (hist ! k))"

definition boruvka_post :: "nat \<Rightarrow> vec_t set \<Rightarrow> error + nat \<Rightarrow> DSU \<times> nat set list \<Rightarrow> bool" where
  "boruvka_post n E res s \<longleftrightarrow>
     (case res of Inl e \<Rightarrow> (\<exists>sd a i. e = OutOfSamplesException sd a i)
      | Inr _ \<Rightarrow> forest_inv n E s \<and> spanning_forest_of (edges_of E) (sf_edges (snd s)))"

context linear_sketch
begin

lemma round_step:
  assumes omp: "omp_ok bc" and n: "n = bc_n bc" and E: "graph_ids n E"
    and sks: "sketches_hold xxh holds (bc_ref bc) n (incident E) sks" and s: "forest_inv n E (d, sf)"
    and mi: "instr_ok n d mi"
    and fresh: "\<And>v. k = 0 \<Longrightarrow> v < n \<Longrightarrow> dsu_root d v = v \<and> sample_idx (sks ! v) = z"
    and sound: "round_sample z k < calc_cc_samples n (bc_factor bc) \<Longrightarrow>
      cuts_sound xxh holds (bc_ref bc) (round_sample z k) n E d"
    and run: "perform_boruvka_round xxh bc k mi (bc_globals bc) (sks, d, sf) = Some (res, sks', s')"
  shows "(\<exists>sd a i. res = Inl (OutOfSamplesException sd a i)) \<or>
    (\<exists>m. res = Inr m \<and> forest_inv n E s' \<and> (\<not> m \<longrightarrow> spanning_forest_of (edges_of E) (sf_edges (snd s'))))"
proof (cases "round_sample z k < calc_cc_samples n (bc_factor bc)")
  case True
  then show ?thesis
    using round_zero_correct [OF omp n E sks s fresh] later_round_correct [OF omp n E sks s mi, of k] sound run
    by (cases "k = 0") (auto simp: round_sample_def perform_boruvka_round_def)
next
  case False
  have sh: "sketches_shape (bc_ref bc) n sks" "dsu_shape n (d, sf)"
    using sks forest_inv_shape [OF s] by (auto simp: sketches_hold_def)
  show ?thesis
    using round_zero_exhausted [OF omp n sh, of xxh] round_returns [OF omp n sh mi, of xxh k] fresh run False
    by (cases "k = 0") (auto simp: round_sample_def perform_boruvka_round_def)
qed

lemma loop_correct:
  assumes omp: "omp_ok bc" and n: "n = bc_n bc" and E: "graph_ids n E"
    and "sketches_hold xxh holds (bc_ref bc) n (incident E) sks" "forest_inv n E (d, sf)" "instr_ok n d mi"
    and "\<And>v. k = 0 \<Longrightarrow> v < n \<Longrightarrow> dsu_root d v = v \<and> sample_idx (sks ! v) = z"
    and "length hist = k"
    and "boruvka_loop xxh bc (bc_globals bc) k mi (sks, d, sf) hist = Some (res, (sks', s'), hist')"
    and sound: "hist_sound xxh holds (bc_ref bc) n E z hist'"
  shows "boruvka_post n E res s'"
  using assms(4-9)
proof (induction "calc_cc_samples n (bc_factor bc) - k" arbitrary: k sks d sf mi hist rule: less_induct)
  case less
  let ?ns = "calc_cc_samples n (bc_factor bc)"
  have sh: "sketches_shape (bc_ref bc) n sks" "dsu_shape n (d, sf)"
    using less.prems(1) forest_inv_shape [OF less.prems(2)] by (auto simp: sketches_hold_def)
  obtain rest where hist': "hist' = hist @ d # rest"
    using loop_returns [OF omp n sh less.prems(3), of xxh k hist] less.prems(6) by auto
  then have cs: "round_sample z k < ?ns \<Longrightarrow> cuts_sound xxh holds (bc_ref bc) (round_sample z k) n E d"
    using sound [unfolded hist_sound_def, rule_format, of k] less.prems(5) n by (simp add: nth_append)
  obtain res1 sks1 d1 sf1 where r: "perform_boruvka_round xxh bc k mi (bc_globals bc) (sks, d, sf) = Some (res1, sks1, d1, sf1)"
    "sketches_shape (bc_ref bc) n sks1" "map reset_sample_state sks1 = map reset_sample_state sks"
    "k \<noteq> 0 \<and> ?ns \<le> k \<longrightarrow> (\<exists>sd a i. res1 = Inl (OutOfSamplesException sd a i))"
    using round_returns [OF omp n sh less.prems(3), of xxh k] by fastforce
  note step = round_step [OF omp n E less.prems(1-4) cs r(1)]
  show ?case
  proof (cases "res1 = Inr True")
    case False
    then consider e where "res1 = Inl e" | "res1 = Inr False" by (cases res1) auto
    then show ?thesis
      by cases (use step less.prems(6) r(1) in
        \<open>auto simp: boruvka_loop.simps [of xxh bc _ k] boruvka_post_def Let_def\<close>)
  next
    case True
    then have k: "k < ?ns" and f1: "forest_inv n E (d1, sf1)"
      using r(4) step calc_cc_samples_pos [of n "bc_factor bc"] by (cases "k = 0"; auto)+
    obtain mi2 d2 where c: "create_merge_instructions (bc_part bc) n (bc_threads bc)
        (map_order (bc_env bc) k) (capture_sched (bc_env bc) k) d1 mi = Some (mi2, d2)"
      "dsu_shape n (d2, sf1)" "\<forall>x<n. dsu_root d2 x = dsu_root d1 x" "instr_ok n d2 mi2"
      using create_instr [OF omp n forest_inv_shape [OF f1] less.prems(3), of k] by blast
    have f2: "forest_inv n E (d2, sf1)"
      using f1 c(2,3) by (auto simp: forest_inv_def uf_represents_def dsu_shape_def)
    have h: "sketches_hold xxh holds (bc_ref bc) n (incident E) sks1"
      by (rule sketches_hold_sample_idx [OF less.prems(1) r(2,3) holds_shape])
    have rec: "boruvka_loop xxh bc (bc_globals bc) (k + 1) mi2 (sks1, d2, sf1) (hist @ [d]) = Some (res, (sks', s'), hist')"
      using less.prems(6) r(1) True c(1) n by (simp add: boruvka_loop.simps [of xxh bc _ k])
    have lt: "?ns - (k + 1) < ?ns - k" using k by simp
    show ?thesis
      by (rule less.hyps [OF lt h f2 c(4) _ _ rec]) (use less.prems(5) in auto)
  qed
qed

end

lemma init_instr_ok:
  assumes "dsu_inv d" "dsu_n d = n"
  shows "instr_ok n (DSU_reset d) (map (\<lambda>i. \<lparr>mi_root = i, mi_child = i\<rparr>) [0..<n])"
    and "\<And>v. v < n \<Longrightarrow> dsu_root (DSU_reset d) v = v"
proof -
  show r: "dsu_root (DSU_reset d) v = v" if "v < n" for v
    using DSU_reset_inv [OF assms(1)] assms(2) that by auto
  then show "instr_ok n (DSU_reset d) (map (\<lambda>i. \<lparr>mi_root = i, mi_child = i\<rparr>) [0..<n])"
    by (auto simp: instr_ok_def comp_def)
qed

lemma boruvka_run_loop:
  "boruvka_run xxh bc sks d = boruvka_loop xxh bc (bc_globals bc) 0
     (map (\<lambda>i. \<lparr>mi_root = i, mi_child = i\<rparr>) [0..<bc_n bc]) (sks, DSU_reset d, replicate (bc_n bc) {}) []"
  by (simp add: boruvka_run_def bc_globals_def Let_def)

text \<open>The emulation always returns, with the sketches as they were but for the sample counters.\<close>

lemma boruvka_run_returns:
  assumes omp: "omp_ok bc" and n: "n = bc_n bc" and sks: "sketches_shape (bc_ref bc) n sks"
    and d: "dsu_inv d" "dsu_n d = n"
  shows "\<exists>res sks' s' hist. boruvka_run xxh bc sks d = Some (res, (sks', s'), hist) \<and> hist \<noteq> [] \<and>
    sketches_shape (bc_ref bc) n sks' \<and> dsu_shape n s' \<and>
    map reset_sample_state sks' = map reset_sample_state sks \<and>
    (\<forall>r. res = Inr r \<longrightarrow> r \<le> calc_cc_samples n (bc_factor bc))"
proof -
  have "dsu_shape n (DSU_reset d, replicate n {})"
    using DSU_reset_inv [OF d(1)] d(2) by (simp add: dsu_shape_def)
  from loop_returns [OF omp n sks this init_instr_ok(1) [OF d], of xxh 0 "[]"]
  show ?thesis unfolding boruvka_run_loop n by fastforce
qed

context linear_sketch
begin

lemma boruvka_run_correct:
  assumes omp: "omp_ok bc" and n: "n = bc_n bc" and E: "graph_ids n E"
    and sks: "sketches_hold xxh holds (bc_ref bc) n (incident E) sks" "\<And>v. v < n \<Longrightarrow> sample_idx (sks ! v) = z"
    and d: "dsu_inv d" "dsu_n d = n"
    and run: "boruvka_run xxh bc sks d = Some (res, (sks', s'), hist)"
    and sound: "hist_sound xxh holds (bc_ref bc) n E z hist"
  shows "boruvka_post n E res s'"
proof -
  have f: "forest_inv n E (DSU_reset d, replicate n {})"
    using DSU_reset_inv [OF d(1)] d(2) init_instr_ok(2) [OF d] by (simp add: forest_inv_def uf_represents_def)
  show ?thesis
    by (rule loop_correct [OF omp n E sks(1) f init_instr_ok(1) [OF d] _ _ run [unfolded boruvka_run_loop, folded n] sound])
      (use init_instr_ok(2) [OF d] sks(2) in auto)
qed

end

end
