(* ===== verification/Configurations.thy ===== *)
theory Configurations
  imports Prelude
begin

text \<open>
  The two configuration classes (src/cc_alg_configuration.cpp, src/driver_configuration.cpp). The
  setters return the object itself, so a chain of setters is a composition of functions. The
  factors are reals (a NaN, which passes the check of the setters, is outside the model). The
  guttering configuration belongs to another repository: its type is a parameter.
\<close>

record CCAlgConfiguration =
  cfg_disk_dir :: string
  cfg_sketches_factor :: real
  cfg_batch_factor :: real

definition CCAlgConfiguration_new :: CCAlgConfiguration where
  "CCAlgConfiguration_new = \<lparr>cfg_disk_dir = ''.'', cfg_sketches_factor = 1, cfg_batch_factor = 1\<rparr>"

definition set_disk_dir :: "string \<Rightarrow> CCAlgConfiguration \<Rightarrow> CCAlgConfiguration" where
  "set_disk_dir dir conf = conf\<lparr>cfg_disk_dir := dir\<rparr>"

definition set_sketches_factor :: "real \<Rightarrow> CCAlgConfiguration \<Rightarrow> CCAlgConfiguration" where
  "set_sketches_factor factor conf =
     (let conf = conf\<lparr>cfg_sketches_factor := factor\<rparr>
      in if cfg_sketches_factor conf \<le> 0 then conf\<lparr>cfg_sketches_factor := 1\<rparr> else conf)"

definition set_batch_factor :: "real \<Rightarrow> CCAlgConfiguration \<Rightarrow> CCAlgConfiguration" where
  "set_batch_factor factor conf =
     (let conf = conf\<lparr>cfg_batch_factor := factor\<rparr>
      in if cfg_batch_factor conf \<le> 0 then conf\<lparr>cfg_batch_factor := 1\<rparr> else conf)"

datatype GutterSystem = GUTTERTREE | STANDALONE | CACHETREE

record 'gc DriverConfiguration =
  drv_gutter_sys :: GutterSystem
  drv_disk_dir :: string
  drv_num_worker_threads :: nat
  drv_gutter_conf :: 'gc

definition DriverConfiguration_new :: "'gc \<Rightarrow> 'gc DriverConfiguration" where
  "DriverConfiguration_new gconf =
     \<lparr>drv_gutter_sys = STANDALONE, drv_disk_dir = ''.'', drv_num_worker_threads = 1, drv_gutter_conf = gconf\<rparr>"

definition set_gutter_sys :: "GutterSystem \<Rightarrow> 'gc DriverConfiguration \<Rightarrow> 'gc DriverConfiguration" where
  "set_gutter_sys gs conf = conf\<lparr>drv_gutter_sys := gs\<rparr>"

definition set_driver_disk_dir :: "string \<Rightarrow> 'gc DriverConfiguration \<Rightarrow> 'gc DriverConfiguration" where
  "set_driver_disk_dir dir conf = conf\<lparr>drv_disk_dir := dir\<rparr>"

definition set_worker_threads :: "nat \<Rightarrow> 'gc DriverConfiguration \<Rightarrow> 'gc DriverConfiguration" where
  "set_worker_threads num conf =
     (let conf = conf\<lparr>drv_num_worker_threads := num\<rparr>
      in if drv_num_worker_threads conf < 1 then conf\<lparr>drv_num_worker_threads := 1\<rparr> else conf)"

text \<open>Any chain of setters, as a list of calls.\<close>

datatype config_call = DiskDir string | SketchesFactor real | BatchFactor real

fun config_apply :: "config_call \<Rightarrow> CCAlgConfiguration \<Rightarrow> CCAlgConfiguration" where
  "config_apply (DiskDir d) = set_disk_dir d"
| "config_apply (SketchesFactor f) = set_sketches_factor f"
| "config_apply (BatchFactor f) = set_batch_factor f"

lemma config_chain_pos:
  assumes "0 < cfg_sketches_factor c \<and> 0 < cfg_batch_factor c"
  shows "0 < cfg_sketches_factor (fold config_apply calls c) \<and> 0 < cfg_batch_factor (fold config_apply calls c)"
  using assms
proof (induction calls arbitrary: c)
  case (Cons call calls)
  then show ?case
    by (cases call) (auto simp: set_disk_dir_def set_sketches_factor_def set_batch_factor_def Let_def)
qed simp

text \<open>Whatever chain of setters is called on a default configuration, both factors stay
  positive: a value out of bounds becomes 1.\<close>

theorem config_factors_positive:
  "0 < cfg_sketches_factor (fold config_apply calls CCAlgConfiguration_new) \<and>
   0 < cfg_batch_factor (fold config_apply calls CCAlgConfiguration_new)"
  by (rule config_chain_pos) (simp add: CCAlgConfiguration_new_def)

end
