(* ===== verification/Return_Types.thy ===== *)
theory Return_Types
  imports DSU "HOL-Library.Product_Lexorder"
begin

text \<open>
  The query results (src/return_types.cpp). \<open>ord\<close> is the iteration order of a
  \<^verbatim>\<open>std::unordered_set\<close>. The order of \<^verbatim>\<open>Edge\<close> is defined in another repository: it is the order
  of a key function here. The loops over the vertices are parallel in the source; their
  iterations touch different elements, and a path halving changes no representative, so they are
  given in index order.
\<close>

record ConnectedComponents =
  parent_arr :: "nat list"
  cc_num_vertices :: nat
  num_cc :: nat

fun find_roots :: "nat list \<Rightarrow> DSU \<Rightarrow> (nat list \<times> DSU) option" where
  "find_roots [] d = Some ([], d)"
| "find_roots (i # is) d =
     (case DSU_find_root d i of
        None \<Rightarrow> None
      | Some (r, d) \<Rightarrow> (case find_roots is d of None \<Rightarrow> None | Some (rs, d) \<Rightarrow> Some (r # rs, d)))"

definition ConnectedComponents_new :: "nat \<Rightarrow> DSU \<Rightarrow> (ConnectedComponents \<times> DSU) option" where
  "ConnectedComponents_new n d =
     (case find_roots [0..<n] d of
        None \<Rightarrow> None
      | Some (parents, d) \<Rightarrow>
          Some (\<lparr>parent_arr = parents, cc_num_vertices = n,
                 num_cc = length (filter (\<lambda>i. parents ! i = i) [0..<n])\<rparr>, d))"

definition is_connected :: "ConnectedComponents \<Rightarrow> nat \<Rightarrow> nat \<Rightarrow> bool" where
  "is_connected cc a b \<longleftrightarrow> parent_arr cc ! a = parent_arr cc ! b"

definition cc_size :: "ConnectedComponents \<Rightarrow> nat" where
  "cc_size cc = num_cc cc"

text \<open>\<^verbatim>\<open>temp[key].insert(i)\<close> on a \<^verbatim>\<open>std::map\<close> of sets, as a list sorted by key.\<close>

fun map_insert :: "nat \<Rightarrow> nat \<Rightarrow> (nat \<times> nat set) list \<Rightarrow> (nat \<times> nat set) list" where
  "map_insert key i [] = [(key, {i})]"
| "map_insert key i ((k, s) # m) =
     (if key = k then (k, insert i s) # m
      else if key < k then (key, {i}) # (k, s) # m
      else (k, s) # map_insert key i m)"

definition get_component_sets :: "ConnectedComponents \<Rightarrow> nat set list" where
  "get_component_sets cc =
     map snd (fold (\<lambda>i. map_insert (parent_arr cc ! i) i) [0..<cc_num_vertices cc] [])"

record SpanningForest =
  sf_num_vertices :: nat
  sf_edge_list :: "(nat \<times> nat) list"
  sorted_adjacency :: "(nat \<times> nat) list"
  has_adjacency :: bool

definition SpanningForest_new :: "(nat set \<Rightarrow> nat list) \<Rightarrow> nat \<Rightarrow> nat set list \<Rightarrow> SpanningForest" where
  "SpanningForest_new ord n sf =
     \<lparr>sf_num_vertices = n,
      sf_edge_list = concat (map (\<lambda>src. map (\<lambda>dst. (src, dst)) (ord (sf ! src))) [0..<n]),
      sorted_adjacency = [], has_adjacency = False\<rparr>"

definition get_edges :: "SpanningForest \<Rightarrow> (nat \<times> nat) list" where
  "get_edges sf = sf_edge_list sf"

definition get_sorted_adjacency :: "(nat \<times> nat \<Rightarrow> 'k::linorder) \<Rightarrow> SpanningForest \<Rightarrow>
    (nat \<times> nat) list \<times> SpanningForest" where
  "get_sorted_adjacency key sf =
     (if has_adjacency sf then (sorted_adjacency sf, sf)
      else
        let adj = sf_edge_list sf @ map (\<lambda>(src, dst). (dst, src)) (sf_edge_list sf);
            adj = sort_key key adj;
            sf = sf\<lparr>sorted_adjacency := adj, has_adjacency := True\<rparr>
        in (sorted_adjacency sf, sf))"

section \<open>Components\<close>

lemma find_roots_correct:
  assumes "dsu_repr d E" "set is \<subseteq> {..<dsu_n d}"
  shows "\<exists>d'. find_roots is d = Some (map (dsu_root d) is, d') \<and> dsu_repr d' E \<and> dsu_n d' = dsu_n d \<and>
    (\<forall>x < dsu_n d. dsu_root d' x = dsu_root d x)"
  using assms
proof (induction "is" arbitrary: d)
  case (Cons i "is")
  have i: "i < dsu_n d" "set is \<subseteq> {..<dsu_n d}" using Cons.prems(2) by auto
  obtain d1 where d1: "DSU_find_root d i = Some (dsu_root d i, d1)" "dsu_repr d1 E" "dsu_n d1 = dsu_n d"
    "\<forall>x < dsu_n d. dsu_root d1 x = dsu_root d x"
    using dsu.find_represents [OF Cons.prems(1) i(1)] by auto
  obtain d2 where d2: "find_roots is d1 = Some (map (dsu_root d1) is, d2)" "dsu_repr d2 E" "dsu_n d2 = dsu_n d"
    "\<forall>x < dsu_n d. dsu_root d2 x = dsu_root d1 x"
    using Cons.IH [OF d1(2)] i(2) d1(3) by auto
  have "map (dsu_root d1) is = map (dsu_root d) is" using d1(4) i(2) by auto
  then show ?case using d1 d2 by auto
qed simp

lemma roots_fixed:
  assumes "dsu_inv d" "dsu_n d = n"
  shows "dsu_root d ` {..<n} = {r \<in> {..<n}. dsu_root d r = r}"
  using dsu_root_lt [OF assms(1)] dsu_root_idem [OF assms(1)] assms(2) by (auto intro: rev_image_eqI)

lemma ConnectedComponents_new_correct:
  assumes "dsu_repr d E" "dsu_n d = n"
  shows "\<exists>cc d'. ConnectedComponents_new n d = Some (cc, d') \<and> dsu_repr d' E \<and> dsu_n d' = n \<and>
    (\<forall>x < n. dsu_root d' x = dsu_root d x) \<and> cc_num_vertices cc = n \<and>
    parent_arr cc = map (dsu_root d) [0..<n] \<and> num_cc cc = card (dsu_root d ` {..<n})"
proof -
  obtain d' where d': "find_roots [0..<n] d = Some (map (dsu_root d) [0..<n], d')" "dsu_repr d' E" "dsu_n d' = n"
    "\<forall>x < n. dsu_root d' x = dsu_root d x"
    using find_roots_correct [OF assms(1), of "[0..<n]"] assms(2) by (auto simp: atLeast0LessThan)
  let ?p = "map (dsu_root d) [0..<n]"
  have "length (filter (\<lambda>i. ?p ! i = i) [0..<n]) = card {r \<in> {..<n}. dsu_root d r = r}"
    by (subst distinct_card [symmetric]) (auto intro!: arg_cong [where f = card])
  also have "\<dots> = card (dsu_root d ` {..<n})"
    using roots_fixed [of d n] assms by (simp add: uf_represents_def)
  finally show ?thesis using d' by (simp add: ConnectedComponents_new_def)
qed

lemma map_insert_sorted:
  assumes "sorted_wrt (<) ks"
  shows "map_insert key i (map (\<lambda>k. (k, g k)) ks) =
    map (\<lambda>k. (k, if k = key then insert i (if key \<in> set ks then g k else {}) else g k))
      (if key \<in> set ks then ks else insort key ks)"
  using assms
proof (induction ks)
  case (Cons k ks)
  have "map (\<lambda>k. (k, if k = key then h k else g k)) ks = map (\<lambda>k. (k, g k)) ks" if "key \<notin> set ks" for h
    using that by auto
  then show ?case using Cons by (auto simp: not_less intro: less_asym)
qed simp

lemma component_map:
  "fold (\<lambda>i. map_insert (f i) i) [0..<n] [] =
     map (\<lambda>k. (k, {i. i < n \<and> f i = k})) (sorted_list_of_set (f ` {..<n}))"
proof (induction n)
  case (Suc n)
  let ?K = "f ` {..<n}" and ?g = "\<lambda>n k. {i. i < n \<and> f i = k}"
  have K: "finite ?K" by simp
  have "fold (\<lambda>i. map_insert (f i) i) [0..<Suc n] [] =
      map_insert (f n) n (map (\<lambda>k. (k, ?g n k)) (sorted_list_of_set ?K))"
    using Suc by simp
  also have "\<dots> = map (\<lambda>k. (k, if k = f n then insert n (if f n \<in> ?K then ?g n k else {}) else ?g n k))
      (if f n \<in> ?K then sorted_list_of_set ?K else insort (f n) (sorted_list_of_set ?K))"
    using map_insert_sorted [of "sorted_list_of_set ?K" "f n" n "?g n"] by (simp add: strict_sorted_iff)
  also have "(if f n \<in> ?K then sorted_list_of_set ?K else insort (f n) (sorted_list_of_set ?K)) =
      sorted_list_of_set (f ` {..<Suc n})"
  proof (cases "f n \<in> ?K")
    case True
    then have "f ` {..<Suc n} = ?K" by (auto simp: less_Suc_eq)
    then show ?thesis using True by simp
  next
    case False
    then have "sorted_list_of_set (insert (f n) ?K) = insort (f n) (sorted_list_of_set ?K)"
      by (intro sorted_list_of_set_insert_remove [OF K, THEN trans]) simp
    then show ?thesis using False by (simp add: lessThan_Suc)
  qed
  also have "(\<lambda>k. (k, if k = f n then insert n (if f n \<in> ?K then ?g n k else {}) else ?g n k)) =
      (\<lambda>k. (k, ?g (Suc n) k))"
    by (auto simp: fun_eq_iff less_Suc_eq intro: rev_image_eqI)
  finally show ?case .
qed simp

lemma get_component_sets_eq:
  assumes "length (parent_arr cc) = cc_num_vertices cc"
  shows "get_component_sets cc =
    map (\<lambda>r. {i. i < cc_num_vertices cc \<and> parent_arr cc ! i = r}) (sorted_list_of_set (set (parent_arr cc)))"
proof -
  have "(\<lambda>i. parent_arr cc ! i) ` {..<cc_num_vertices cc} = set (parent_arr cc)"
    using assms by (auto simp: in_set_conv_nth)
  then show ?thesis by (simp add: get_component_sets_def component_map comp_def)
qed

text \<open>The result lists the components of the graph \<open>E\<close> on \<open>n\<close> vertices.\<close>

definition components_of :: "edges \<Rightarrow> nat \<Rightarrow> ConnectedComponents \<Rightarrow> bool" where
  "components_of E n cc \<longleftrightarrow> cc_num_vertices cc = n \<and>
     (\<forall>a < n. \<forall>b < n. is_connected cc a b \<longleftrightarrow> econn E a b) \<and>
     length (get_component_sets cc) = cc_size cc \<and> distinct (get_component_sets cc) \<and>
     set (get_component_sets cc) = (\<lambda>a. {b. b < n \<and> econn E a b}) ` {..<n}"

lemma components_sound:
  assumes "dsu_repr d E" "dsu_n d = n"
  shows "\<exists>cc d'. ConnectedComponents_new n d = Some (cc, d') \<and> dsu_repr d' E \<and> dsu_n d' = n \<and>
    (\<forall>x < n. dsu_root d' x = dsu_root d x) \<and> components_of E n cc"
proof -
  obtain cc d' where c: "ConnectedComponents_new n d = Some (cc, d')" "dsu_repr d' E" "cc_num_vertices cc = n" "dsu_n d' = n" "\<forall>x < n. dsu_root d' x = dsu_root d x"
    "parent_arr cc = map (dsu_root d) [0..<n]" "num_cc cc = card (dsu_root d ` {..<n})"
    using ConnectedComponents_new_correct [OF assms] by blast
  have E: "dsu_root d a = dsu_root d b \<longleftrightarrow> econn E a b" if "a < n" "b < n" for a b
    using assms that by (simp add: uf_represents_def)
  have st: "set (parent_arr cc) = dsu_root d ` {..<n}" using c(6) by auto
  have cls: "{i. i < n \<and> parent_arr cc ! i = dsu_root d a} = {b. b < n \<and> econn E a b}" if "a < n" for a
  proof -
    have "parent_arr cc ! i = dsu_root d a \<longleftrightarrow> econn E a i" if "i < n" for i
      using that \<open>a < n\<close> E [of a i] c(6) by (simp add: eq_commute [of "dsu_root d i"])
    then show ?thesis by blast
  qed
  have sets: "get_component_sets cc = map (\<lambda>r. {i. i < n \<and> parent_arr cc ! i = r})
      (sorted_list_of_set (dsu_root d ` {..<n}))"
    using get_component_sets_eq [of cc] c(3,6) st by simp
  have "distinct (get_component_sets cc)"
    unfolding sets distinct_map
  proof
    show "inj_on (\<lambda>r. {i. i < n \<and> parent_arr cc ! i = r}) (set (sorted_list_of_set (dsu_root d ` {..<n})))"
    proof (rule inj_onI)
      fix r r' assume r: "r \<in> set (sorted_list_of_set (dsu_root d ` {..<n}))"
        and eq: "{i. i < n \<and> parent_arr cc ! i = r} = {i. i < n \<and> parent_arr cc ! i = r'}"
      obtain a where "a < n" "parent_arr cc ! a = r" using r c(6) by auto
      then show "r = r'" using eq by blast
    qed
  qed simp
  moreover have "set (get_component_sets cc) = (\<lambda>a. {b. b < n \<and> econn E a b}) ` {..<n}"
  proof -
    have "set (get_component_sets cc) = (\<lambda>a. {i. i < n \<and> parent_arr cc ! i = dsu_root d a}) ` {..<n}"
      unfolding sets by (simp add: image_image)
    also have "\<dots> = (\<lambda>a. {b. b < n \<and> econn E a b}) ` {..<n}" by (intro image_cong refl cls) simp
    finally show ?thesis .
  qed
  moreover have "is_connected cc a b \<longleftrightarrow> econn E a b" if "a < n" "b < n" for a b
    using that E c(6) by (simp add: is_connected_def)
  ultimately have "components_of E n cc" using c sets by (simp add: components_of_def cc_size_def)
  then show ?thesis using c by blast
qed

text \<open>C35. The constructor of \<^verbatim>\<open>ConnectedComponents\<close> returns for every union-find and answers from
  its representatives: two vertices are reported connected exactly when the represented edges
  connect them, \<^verbatim>\<open>size\<close> is the number of components, and \<^verbatim>\<open>get_component_sets\<close> lists each
  component once.\<close>

theorem ConnectedComponents_sound:
  assumes "dsu_repr d E" "dsu_n d = n"
  shows "\<exists>cc d'. ConnectedComponents_new n d = Some (cc, d') \<and> dsu_repr d' E \<and> components_of E n cc"
  using components_sound [OF assms] by blast

theorem ConnectedComponents_sound_witness:
  "\<exists>cc d'. ConnectedComponents_new 2 (DSU_new 2 [7, 9]) = Some (cc, d') \<and> cc_size cc = 2"
proof -
  have "dsu_repr (DSU_new 2 [7, 9]) {}" "dsu_n (DSU_new 2 [7, 9]) = 2"
    using DSU_new_inv [of 2 "[7, 9]"] by (auto simp: uf_represents_def)
  from ConnectedComponents_sound [OF this]
  obtain cc d' where "ConnectedComponents_new 2 (DSU_new 2 [7, 9]) = Some (cc, d')"
    "length (get_component_sets cc) = cc_size cc" "distinct (get_component_sets cc)"
    "set (get_component_sets cc) = (\<lambda>a. {b. b < 2 \<and> econn {} a b}) ` {..<2}"
    unfolding components_of_def by (elim exE conjE) (rule that)
  moreover have "card ((\<lambda>a. {b. b < 2 \<and> econn {} a b}) ` {..<2::nat}) = card {..<2::nat}"
  proof (rule card_image)
    have "{b. b < 2 \<and> econn {} a b} = {a}" if "a < 2" for a :: nat using that by auto
    then show "inj_on (\<lambda>a. {b. b < 2 \<and> econn {} a b}) {..<2}" by (intro inj_onI) simp
  qed
  ultimately show ?thesis using distinct_card [of "get_component_sets cc"] by auto
qed

section \<open>Spanning forests\<close>

text \<open>What the iteration of a \<^verbatim>\<open>std::unordered_set\<close> guarantees: every element once.\<close>

definition iter_order :: "(nat set \<Rightarrow> nat list) \<Rightarrow> bool" where
  "iter_order ord \<longleftrightarrow> (\<forall>S. finite S \<longrightarrow> set (ord S) = S \<and> distinct (ord S))"

lemma set_get_edges:
  assumes "iter_order ord" "length sf = n" "\<And>s. s \<in> set sf \<Longrightarrow> finite s"
  shows "set (get_edges (SpanningForest_new ord n sf)) = {(s, d). s < length sf \<and> d \<in> sf ! s}"
    "distinct (get_edges (SpanningForest_new ord n sf))"
proof -
  have o: "set (ord (sf ! i)) = sf ! i" "distinct (ord (sf ! i))" if "i < n" for i
    using assms that by (auto simp: iter_order_def)
  show "set (get_edges (SpanningForest_new ord n sf)) = {(s, d). s < length sf \<and> d \<in> sf ! s}"
    using o assms(2) by (auto simp: get_edges_def SpanningForest_new_def)
  have "distinct (concat (map (\<lambda>src. map (\<lambda>dst. (src, dst)) (ord (sf ! src))) [0..<m]))" if "m \<le> n" for m
    using that
  proof (induction m)
    case (Suc m)
    then show ?case using o(2) [of m] by (auto simp: distinct_map inj_on_def)
  qed simp
  then show "distinct (get_edges (SpanningForest_new ord n sf))"
    by (simp add: get_edges_def SpanningForest_new_def)
qed

text \<open>The sorted adjacency list of a forest is sorted, holds every edge once in each direction,
  and a second call returns the same list.\<close>

theorem get_sorted_adjacency_correct:
  assumes "\<not> has_adjacency sf" "get_sorted_adjacency key sf = (adj, sf')"
  shows "sorted (map key adj) \<and>
    mset adj = mset (get_edges sf) + image_mset (\<lambda>(u, v). (v, u)) (mset (get_edges sf)) \<and>
    get_edges sf' = get_edges sf \<and> get_sorted_adjacency key sf' = (adj, sf')"
  using assms by (auto simp: get_sorted_adjacency_def get_edges_def Let_def)

theorem get_sorted_adjacency_correct_witness:
  "sorted (map (\<lambda>e. e) (fst (get_sorted_adjacency (\<lambda>e. e) (SpanningForest_new sorted_list_of_set 3 [{1}, {2}, {}]))))"
  using get_sorted_adjacency_correct [of "SpanningForest_new sorted_list_of_set 3 [{1}, {2}, {}]" "\<lambda>e. e", OF _ prod.collapse [symmetric]]
  by (simp add: SpanningForest_new_def)

end
