(* ===== verification/CC_Sketch_Alg.thy ===== *)
theory CC_Sketch_Alg
  imports Boruvka Configurations Return_Types
begin

text \<open>
  The connected-components algorithm (src/cc_sketch_alg.cpp, include/cc_sketch_alg.h).

  The record holds the fields of the class; \<open>history\<close> is a ghost field that keeps, for every
  emulation, the union-find at the start of each of its rounds, so that the results can say on
  which cuts they need the hash to be sound. An operation that may throw returns
  \<open>(error + 'a) \<times> state\<close> inside an option whose \<open>None\<close> means that the call does not return.
  The priorities of the union-find come from a random generator: they are an argument of the
  constructors.
\<close>

record 'g CC =
  num_vertices :: nat
  cc_seed :: seed_t
  update_locked :: bool
  representatives :: "nat set"
  sketches :: "'g Sketch list"
  cc_dsu :: DSU
  dsu_valid :: bool
  shared_dsu_valid :: bool
  spanning_forest :: "nat set list"
  delta_sketches :: "'g Sketch list"
  cc_config :: CCAlgConfiguration
  last_query_rounds :: nat
  history :: "DSU list list"

datatype QueryCode = CONNECTIVITY | KSPANNINGFORESTS

text \<open>The type of an update (INSERT or DELETE) is never inspected: \<open>'u\<close>.\<close>

type_synonym 'u GraphUpdate = "(nat \<times> nat) \<times> 'u"

section \<open>Construction\<close>

definition CCSketchAlg_new :: "nat list \<Rightarrow> nat \<Rightarrow> seed_t \<Rightarrow> CCAlgConfiguration \<Rightarrow> 'h::len word CC" where
  "CCSketchAlg_new prio n seed conf =
     \<lparr>num_vertices = n, cc_seed = seed, update_locked = False, representatives = {..<n},
      sketches = map (\<lambda>_. new_sketch n seed (cfg_sketches_factor conf)) [0..<n],
      cc_dsu = DSU_new n prio, dsu_valid = True, shared_dsu_valid = True,
      spanning_forest = replicate n {}, delta_sketches = [], cc_config = conf,
      last_query_rounds = 0, history = []\<rparr>"

definition CCSketchAlg_new_uvm :: "nat list \<Rightarrow> nat \<Rightarrow> bool \<Rightarrow> seed_t \<Rightarrow> CCAlgConfiguration \<Rightarrow> 'h::len word CC" where
  "CCSketchAlg_new_uvm prio n cuda_uvm seed conf =
     (let len = calc_vector_length n; samples = calc_cc_samples n (cfg_sketches_factor conf)
      in \<lparr>num_vertices = n, cc_seed = seed, update_locked = False, representatives = {..<n},
          sketches =
            (if cuda_uvm then map (\<lambda>_. Sketch_new_cuda len seed samples default_cols_per_sample) [0..<n]
             else map (\<lambda>_. Sketch_new len seed samples default_cols_per_sample) [0..<n]),
          cc_dsu = DSU_new n prio, dsu_valid = True, shared_dsu_valid = True,
          spanning_forest = replicate n {}, delta_sketches = [], cc_config = conf,
          last_query_rounds = 0, history = []\<rparr>)"

fun read_sketches :: "nat \<Rightarrow> seed_t \<Rightarrow> real \<Rightarrow> nat \<Rightarrow> 8 word list \<Rightarrow> error + 'h::len word Sketch list" where
  "read_sketches n seed factor 0 bytes = Inr []"
| "read_sketches n seed factor (Suc m) bytes =
     (case Sketch_new_stream (calc_vector_length n) seed bytes (calc_cc_samples n factor) default_cols_per_sample of
        Inl e \<Rightarrow> Inl e
      | Inr (sk, bytes) \<Rightarrow>
          (case read_sketches n seed factor m bytes of Inl e \<Rightarrow> Inl e | Inr sks \<Rightarrow> Inr (sk # sks)))"

definition CCSketchAlg_new_stream :: "nat list \<Rightarrow> nat \<Rightarrow> seed_t \<Rightarrow> 8 word list \<Rightarrow> CCAlgConfiguration \<Rightarrow>
    error + 'h::len word CC" where
  "CCSketchAlg_new_stream prio n seed bytes conf =
     (case read_sketches n seed (cfg_sketches_factor conf) n bytes of
        Inl e \<Rightarrow> Inl e
      | Inr sks \<Rightarrow> Inr
          \<lparr>num_vertices = n, cc_seed = seed, update_locked = False, representatives = {..<n},
           sketches = sks, cc_dsu = DSU_new n prio, dsu_valid = False, shared_dsu_valid = False,
           spanning_forest = replicate n {}, delta_sketches = [], cc_config = conf,
           last_query_rounds = 0, history = []\<rparr>)"

text \<open>The file starts with the 8-byte seed, the 4-byte vertex count and the sketches factor as
  the 8 bytes of a double: \<open>dbl\<close> and \<open>undbl\<close> convert between doubles and their bytes.\<close>

definition construct_from_serialized_data :: "(8 word list \<Rightarrow> real) \<Rightarrow> nat list \<Rightarrow> 8 word list \<Rightarrow>
    CCAlgConfiguration \<Rightarrow> error + 'h::len word CC" where
  "construct_from_serialized_data undbl prio file conf =
     (if length file < 20 then Inl Undefined
      else
        let seed = bytes_word (take 8 file);
            n = unat (bytes_word (take 4 (drop 8 file)) :: 32 word);
            factor = undbl (take 8 (drop 12 file));
            conf = set_sketches_factor factor conf
        in CCSketchAlg_new_stream prio n seed (drop 20 file) conf)"

definition write_binary :: "(real \<Rightarrow> 8 word list) \<Rightarrow> 'h::len word CC \<Rightarrow> 8 word list" where
  "write_binary dbl cc =
     word_bytes (cc_seed cc) @ word_bytes (of_nat (num_vertices cc) :: 32 word) @
     dbl (cfg_sketches_factor (cc_config cc)) @
     concat (map (\<lambda>i. Sketch_serialize (sketches cc ! i)) [0..<num_vertices cc])"

definition allocate_worker_memory :: "nat \<Rightarrow> 'h::len word CC \<Rightarrow> 'h word CC" where
  "allocate_worker_memory num_workers cc =
     cc\<lparr>delta_sketches := map (\<lambda>_. new_sketch (num_vertices cc) (cc_seed cc)
          (cfg_sketches_factor (cc_config cc))) [0..<num_workers]\<rparr>"

text \<open>\<^verbatim>\<open>num *= _batch_factor\<close> multiplies in doubles and truncates.\<close>

definition get_desired_updates_per_batch :: "'h::len word CC \<Rightarrow> nat" where
  "get_desired_updates_per_batch cc =
     (let num = num_buckets (sketches cc ! 0) * bucket_size TYPE('h) div 4
      in nat \<lfloor>real num * cfg_batch_factor (cc_config cc)\<rfloor>)"

definition has_cached_query :: "QueryCode \<Rightarrow> 'g CC \<Rightarrow> bool" where
  "has_cached_query code cc = (if code = CONNECTIVITY then shared_dsu_valid cc else False)"

section \<open>Updates\<close>

text \<open>The eager union-find (default build), and the build with \<^verbatim>\<open>NO_EAGER_DSU\<close>.\<close>

definition pre_insert :: "'u GraphUpdate \<Rightarrow> 'g CC \<Rightarrow> 'g CC option" where
  "pre_insert upd cc =
     (if dsu_valid cc then
        let edge = fst upd; src = min (fst edge) (snd edge); dst = max (fst edge) (snd edge)
        in case DSU_MT_merge [] (cc_dsu cc) src dst of
             None \<Rightarrow> None
           | Some (m, d) \<Rightarrow>
               (let cc = cc\<lparr>cc_dsu := d\<rparr>
                in if merged m then
                     Some (cc\<lparr>spanning_forest := (spanning_forest cc)[src := insert dst (spanning_forest cc ! src)]\<rparr>)
                   else if dst \<in> spanning_forest cc ! src then
                     Some (cc\<lparr>dsu_valid := False, shared_dsu_valid := False\<rparr>)
                   else Some cc)
      else Some cc)"

definition pre_insert_no_eager :: "'u GraphUpdate \<Rightarrow> 'g CC \<Rightarrow> 'g CC" where
  "pre_insert_no_eager upd cc =
     (if dsu_valid cc then cc\<lparr>dsu_valid := False, shared_dsu_valid := False\<rparr> else cc)"

definition apply_update_batch :: "xxh \<Rightarrow> nat \<Rightarrow> nat \<Rightarrow> nat list \<Rightarrow> 'h::len word CC \<Rightarrow> error + 'h word CC" where
  "apply_update_batch xxh thr_id src_vertex dst_vertices cc =
     (if update_locked cc then Inl UpdateLockedException
      else if \<not> (thr_id < length (delta_sketches cc) \<and> src_vertex < length (sketches cc)) then Inl Undefined
      else
        let delta = zero_contents (delta_sketches cc ! thr_id);
            delta = fold (\<lambda>dst sk. Sketch_update xxh sk (edge_id src_vertex dst)) dst_vertices delta
        in Inr (cc\<lparr>delta_sketches := (delta_sketches cc)[thr_id := delta],
                   sketches := (sketches cc)[src_vertex := Sketch_merge (sketches cc ! src_vertex) delta]\<rparr>))"

definition apply_raw_buckets_update :: "nat \<Rightarrow> 'h::len word Bucket list \<Rightarrow> 'h word CC \<Rightarrow> 'h word CC" where
  "apply_raw_buckets_update src_vertex raw_buckets cc =
     cc\<lparr>sketches := (sketches cc)[src_vertex := merge_raw_bucket_buffer (sketches cc ! src_vertex) raw_buckets]\<rparr>"

definition cc_update :: "xxh \<Rightarrow> 'u GraphUpdate \<Rightarrow> 'h::len word CC \<Rightarrow> 'h word CC option" where
  "cc_update xxh upd cc =
     (case pre_insert upd cc of
        None \<Rightarrow> None
      | Some cc \<Rightarrow>
          (let (src, dst) = fst upd; sks = sketches cc;
               sks = sks[src := Sketch_update xxh (sks ! src) (edge_id src dst)];
               sks = sks[dst := Sketch_update xxh (sks ! dst) (edge_id src dst)]
           in Some (cc\<lparr>sketches := sks\<rparr>)))"

section \<open>Queries\<close>

definition cc_conf :: "omp_env \<Rightarrow> 'g CC \<Rightarrow> boruvka_conf" where
  "cc_conf env cc = \<lparr>bc_part = get_ith_partition, bc_n = num_vertices cc, bc_seed = cc_seed cc,
     bc_factor = cfg_sketches_factor (cc_config cc), bc_env = env\<rparr>"

definition boruvka_emulation :: "xxh \<Rightarrow> omp_env \<Rightarrow> 'h::len word CC \<Rightarrow> ((error + unit) \<times> 'h word CC) option" where
  "boruvka_emulation xxh env cc =
     (let cc = cc\<lparr>update_locked := True\<rparr>
      in case boruvka_run xxh (cc_conf env cc) (sketches cc) (cc_dsu cc) of
           None \<Rightarrow> None
         | Some (res, (sks, d, sf), hist) \<Rightarrow>
             (let cc = cc\<lparr>sketches := sks, cc_dsu := d, spanning_forest := sf, history := history cc @ [hist]\<rparr>
              in case res of
                   Inl e \<Rightarrow> Some (Inl e, cc)
                 | Inr round_num \<Rightarrow> Some (Inr (), cc\<lparr>last_query_rounds := round_num, dsu_valid := True,
                     shared_dsu_valid := True, update_locked := False\<rparr>)))"

definition reset_sketches :: "'h::len word CC \<Rightarrow> 'h word CC" where
  "reset_sketches cc = cc\<lparr>sketches := map reset_sample_state (sketches cc)\<rparr>"

text \<open>The part that \<^verbatim>\<open>connected_components\<close> and \<^verbatim>\<open>point_query\<close> share: emulate, catch the exception,
  reset the sample state of the sketches, rethrow.\<close>

definition refresh_dsu :: "xxh \<Rightarrow> omp_env \<Rightarrow> bool \<Rightarrow> 'h::len word CC \<Rightarrow> ((error + unit) \<times> 'h word CC) option" where
  "refresh_dsu xxh env valid cc =
     (if valid then Some (Inr (), cc)
      else
        case boruvka_emulation xxh env cc of
          None \<Rightarrow> None
        | Some (res, cc) \<Rightarrow> Some (res, reset_sketches cc))"

definition connected_components :: "xxh \<Rightarrow> omp_env \<Rightarrow> 'h::len word CC \<Rightarrow>
    ((error + ConnectedComponents) \<times> 'h word CC) option" where
  "connected_components xxh env cc =
     (case refresh_dsu xxh env (shared_dsu_valid cc) cc of
        None \<Rightarrow> None
      | Some (Inl e, cc) \<Rightarrow> Some (Inl e, cc)
      | Some (Inr _, cc) \<Rightarrow>
          (case ConnectedComponents_new (num_vertices cc) (cc_dsu cc) of
             None \<Rightarrow> None
           | Some (ret, d) \<Rightarrow> Some (Inr ret, cc\<lparr>cc_dsu := d\<rparr>)))"

definition point_query :: "xxh \<Rightarrow> omp_env \<Rightarrow> nat \<Rightarrow> nat \<Rightarrow> 'h::len word CC \<Rightarrow>
    ((error + bool) \<times> 'h word CC) option" where
  "point_query xxh env a b cc =
     (case refresh_dsu xxh env (dsu_valid cc) cc of
        None \<Rightarrow> None
      | Some (Inl e, cc) \<Rightarrow> Some (Inl e, cc)
      | Some (Inr _, cc) \<Rightarrow>
          (case find_roots [a, b] (cc_dsu cc) of
             None \<Rightarrow> None
           | Some (rs, d) \<Rightarrow> Some (Inr (rs ! 0 = rs ! 1), cc\<lparr>cc_dsu := d\<rparr>)))"

definition calc_spanning_forest :: "xxh \<Rightarrow> omp_env \<Rightarrow> (nat set \<Rightarrow> nat list) \<Rightarrow> 'h::len word CC \<Rightarrow>
    ((error + SpanningForest) \<times> 'h word CC) option" where
  "calc_spanning_forest xxh env ord cc =
     (case connected_components xxh env cc of
        None \<Rightarrow> None
      | Some (Inl e, cc) \<Rightarrow> Some (Inl e, cc)
      | Some (Inr _, cc) \<Rightarrow> Some (Inr (SpanningForest_new ord (num_vertices cc) (spanning_forest cc)), cc))"

fun update_edges :: "xxh \<Rightarrow> 'u \<Rightarrow> (nat \<times> nat) list \<Rightarrow> 'h::len word CC \<Rightarrow> 'h word CC option" where
  "update_edges xxh ty [] cc = Some cc"
| "update_edges xxh ty (e # es) cc =
     (case cc_update xxh (e, ty) cc of None \<Rightarrow> None | Some cc \<Rightarrow> update_edges xxh ty es cc)"

text \<open>The loop over the forests: \<open>i\<close> counts the emulations, each with its own environment.\<close>

fun forest_loop :: "xxh \<Rightarrow> (nat \<Rightarrow> omp_env) \<Rightarrow> (nat set \<Rightarrow> nat list) \<Rightarrow> 'u \<Rightarrow> nat \<Rightarrow> nat \<Rightarrow> nat \<Rightarrow>
    'h::len word CC \<Rightarrow> ((error + SpanningForest list) \<times> nat \<times> 'h word CC) option" where
  "forest_loop xxh env ord DELETE 0 i max_rounds cc = Some (Inr [], max_rounds, cc)"
| "forest_loop xxh env ord DELETE (Suc k) i max_rounds cc =
     (case calc_spanning_forest xxh (env i) ord cc of
        None \<Rightarrow> None
      | Some (Inl e, cc) \<Rightarrow> Some (Inl e, max_rounds, cc)
      | Some (Inr sf, cc) \<Rightarrow>
          (let max_rounds = max (last_query_rounds cc) max_rounds
           in case update_edges xxh DELETE (get_edges sf) cc of
                None \<Rightarrow> None
              | Some cc \<Rightarrow>
                  (case forest_loop xxh env ord DELETE k (Suc i) max_rounds cc of
                     None \<Rightarrow> None
                   | Some (Inl e, r) \<Rightarrow> Some (Inl e, r)
                   | Some (Inr sfs, r) \<Rightarrow> Some (Inr (sf # sfs), r))))"

definition calc_disjoint_spanning_forests :: "xxh \<Rightarrow> (nat \<Rightarrow> omp_env) \<Rightarrow> (nat set \<Rightarrow> nat list) \<Rightarrow> 'u \<times> 'u \<Rightarrow> nat \<Rightarrow>
    'h::len word CC \<Rightarrow> ((error + SpanningForest list) \<times> 'h word CC) option" where
  "calc_disjoint_spanning_forests xxh env ord types k cc =
     (let (INSERT, DELETE) = types
      in case forest_loop xxh env ord DELETE k 0 0 cc of
           None \<Rightarrow> None
         | Some (Inl e, _, cc) \<Rightarrow> Some (Inl e, cc)
         | Some (Inr sfs, max_rounds, cc) \<Rightarrow>
             (case update_edges xxh INSERT (concat (map get_edges sfs)) cc of
                None \<Rightarrow> None
              | Some cc \<Rightarrow> Some (Inr sfs, cc\<lparr>last_query_rounds := max_rounds\<rparr>)))"

section \<open>The eager union-find\<close>

text \<open>Toggling an edge of a graph, and what that does to a spanning forest that lacks the edge.\<close>

lemma edges_of_toggle:
  assumes "graph_ids n E" "n \<le> 2 ^ 32" "a < b" "b < n"
  shows "edges_of (sym_diff E {edge_id a b}) =
    (if edge_id a b \<in> E then edges_of E - {(a, b)} else insert (a, b) (edges_of E))"
proof -
  have e: "edge_of (edge_id a b) = (a, b)" using edge_of_ordered [of a b] assms(2-4) by simp
  have u: "edge_of x \<noteq> (a, b)" if "x \<in> E" "x \<noteq> edge_id a b" for x
    using graph_ids_edge(4) [OF assms(1,2) that(1)] that(2) by (metis fst_conv snd_conv)
  have del: "edge_of ` (E - {edge_id a b}) = edge_of ` E - {(a, b)}"
  proof (intro equalityI subsetI)
    fix y assume "y \<in> edge_of ` (E - {edge_id a b})"
    then obtain x where x: "x \<in> E" "x \<noteq> edge_id a b" "y = edge_of x" by auto
    then show "y \<in> edge_of ` E - {(a, b)}" using u [OF x(1,2)] by simp
  next
    fix y assume "y \<in> edge_of ` E - {(a, b)}"
    then obtain x where "x \<in> E" "y = edge_of x" "y \<noteq> (a, b)" by blast
    then show "y \<in> edge_of ` (E - {edge_id a b})" using e by (cases "x = edge_id a b") simp_all
  qed
  show ?thesis
  proof (cases "edge_id a b \<in> E")
    case True
    then have "sym_diff E {edge_id a b} = E - {edge_id a b}" by auto
    then show ?thesis using del True by (simp only: edges_of_def if_True)
  next
    case False
    then have "sym_diff E {edge_id a b} = insert (edge_id a b) E" by auto
    then show ?thesis using False e by (simp only: edges_of_def image_insert if_False)
  qed
qed

lemma spanning_forest_delete:
  assumes "spanning_forest_of G F" "e \<notin> F"
  shows "spanning_forest_of (G - {e}) F"
proof -
  have F: "F \<subseteq> G - {e}" "acyclic_edges F" "econn F = econn G" using assms by (auto simp: spanning_forest_of_def)
  have "econn F = econn (G - {e})"
  proof (rule econn_eqI)
    fix u v assume "(u, v) \<in> G - {e}"
    then have "econn G u v" by (auto intro: econn_edge)
    then show "econn F u v" using F(3) by simp
  qed (use F(1) econn_edge in blast)
  then show ?thesis using F by (simp add: spanning_forest_of_def)
qed

lemma spanning_forest_toggle:
  assumes "spanning_forest_of (edges_of E) F" "graph_ids n E" "n \<le> 2 ^ 32" "a < b" "b < n"
  shows "\<not> econn F a b \<Longrightarrow> spanning_forest_of (edges_of (sym_diff E {edge_id a b})) (insert (a, b) F)"
    and "econn F a b \<Longrightarrow> (a, b) \<notin> F \<Longrightarrow> spanning_forest_of (edges_of (sym_diff E {edge_id a b})) F"
proof -
  note t = edges_of_toggle [OF assms(2-5)]
  have c: "econn F = econn (edges_of E)" using assms(1) by (simp add: spanning_forest_of_def)
  have e: "edge_of (edge_id a b) = (a, b)" using edge_of_ordered [of a b] assms(3-5) by simp
  have "edge_id a b \<notin> E" if "\<not> econn F a b"
  proof
    assume "edge_id a b \<in> E"
    then have "(a, b) \<in> edges_of E" using e by (force simp: edges_of_def)
    then show False using that c econn_edge by simp
  qed
  then show "\<not> econn F a b \<Longrightarrow> spanning_forest_of (edges_of (sym_diff E {edge_id a b})) (insert (a, b) F)"
    using t spanning_forest_insert(1) [OF assms(1)] c by simp
  show "econn F a b \<Longrightarrow> (a, b) \<notin> F \<Longrightarrow> spanning_forest_of (edges_of (sym_diff E {edge_id a b})) F"
    using t spanning_forest_insert(2) [OF assms(1), of a b] spanning_forest_delete [OF assms(1), of "(a, b)"] c
    by simp
qed

abbreviation cc_ref :: "'h::len word CC \<Rightarrow> 'h word Sketch" where
  "cc_ref cc \<equiv> new_sketch (num_vertices cc) (cc_seed cc) (cfg_sketches_factor (cc_config cc))"

text \<open>The type invariant of the class.\<close>

definition cc_wf :: "'h::len word CC \<Rightarrow> bool" where
  "cc_wf cc \<longleftrightarrow> num_vertices cc \<le> 2 ^ 31 \<and> sketches_shape (cc_ref cc) (num_vertices cc) (sketches cc) \<and>
     dsu_shape (num_vertices cc) (cc_dsu cc, spanning_forest cc) \<and>
     (\<forall>sk\<in>set (delta_sketches cc). sketch_wf sk \<and> same_shape sk (cc_ref cc)) \<and>
     shared_dsu_valid cc = dsu_valid cc"

text \<open>While the union-find is valid it represents the graph \<open>E\<close> and the forest spans it.\<close>

definition cache_ok :: "vec_t set \<Rightarrow> 'g CC \<Rightarrow> bool" where
  "cache_ok E cc \<longleftrightarrow> (dsu_valid cc \<longrightarrow> dsu_repr (cc_dsu cc) (sf_edges (spanning_forest cc)) \<and>
     spanning_forest_of (edges_of E) (sf_edges (spanning_forest cc)))"

text \<open>The sketch of vertex \<open>v\<close> stands for the set \<open>S v\<close>, with all its samples unused.\<close>

definition cc_holds :: "xxh \<Rightarrow> (nat \<Rightarrow> vec_t set) \<Rightarrow> 'h::len word CC \<Rightarrow> bool" where
  "cc_holds xxh S cc \<longleftrightarrow> cc_wf cc \<and> \<not> update_locked cc \<and>
     sketches_hold xxh (in_bucket xxh) (cc_ref cc) (num_vertices cc) S (sketches cc) \<and>
     (\<forall>v < num_vertices cc. sample_idx (sketches cc ! v) = 0)"

text \<open>The state after the whole stream \<open>E\<close> has been applied.\<close>

definition cc_inv :: "xxh \<Rightarrow> vec_t set \<Rightarrow> 'h::len word CC \<Rightarrow> bool" where
  "cc_inv xxh E cc \<longleftrightarrow> graph_ids (num_vertices cc) E \<and> cc_holds xxh (incident E) cc \<and> cache_ok E cc"

text \<open>The fields that the union-find operations leave alone.\<close>

definition cc_frame :: "'g CC \<Rightarrow> 'g CC \<Rightarrow> bool" where
  "cc_frame cc' cc \<longleftrightarrow> num_vertices cc' = num_vertices cc \<and> cc_seed cc' = cc_seed cc \<and>
     cc_config cc' = cc_config cc \<and> delta_sketches cc' = delta_sketches cc \<and>
     update_locked cc' = update_locked cc \<and> sketches cc' = sketches cc \<and> history cc' = history cc \<and>
     last_query_rounds cc' = last_query_rounds cc"

lemma pre_insert_correct:
  assumes wf: "cc_wf cc" and E: "graph_ids (num_vertices cc) E" and ok: "cache_ok E cc"
    and uv: "u < num_vertices cc" "v < num_vertices cc" "u \<noteq> v"
  shows "\<exists>cc'. pre_insert ((u, v), ty) cc = Some cc' \<and> cc_wf cc' \<and> cc_frame cc' cc \<and>
    cache_ok (sym_diff E {edge_id u v}) cc'"
proof (cases "dsu_valid cc")
  case False
  then show ?thesis using wf by (simp add: pre_insert_def cache_ok_def cc_frame_def)
next
  case True
  define n a b where "n = num_vertices cc" and "a = min u v" and "b = max u v"
  let ?d = "cc_dsu cc" and ?sf = "spanning_forest cc"
  have ab: "a < b" "b < n" "a < n" using uv by (auto simp: a_def b_def n_def)
  have id: "edge_id u v = edge_id a b" using edge_id_commute by (simp add: a_def b_def min_def max_def)
  have n: "n \<le> 2 ^ 32" using wf by (simp add: cc_wf_def n_def)
  have d: "dsu_repr ?d (sf_edges ?sf)" "dsu_n ?d = n" "length ?sf = n"
    and span: "spanning_forest_of (edges_of E) (sf_edges ?sf)"
    using ok True wf by (auto simp: cache_ok_def cc_wf_def dsu_shape_def n_def)
  note tog = spanning_forest_toggle [OF span E [folded n_def] n ab(1,2)]
  obtain m d' where m: "DSU_MT_merge [] ?d a b = Some (m, d')" "dsu_repr d' (insert (a, b) (sf_edges ?sf))"
    "dsu_n d' = n" "merged m \<longleftrightarrow> \<not> econn (sf_edges ?sf) a b"
    using dsu_mt.merge_represents [OF d(1), of a b "[]"] ab d(2) by auto
  have d'inv: "dsu_inv d'" using m(2) by (simp add: uf_represents_def)
  have same: "dsu_repr d' (sf_edges ?sf)" if "\<not> merged m"
    using m(2,4) that econn_redundant [of "sf_edges ?sf" a b] by (simp add: uf_represents_def)
  have mem: "b \<in> ?sf ! a \<longleftrightarrow> (a, b) \<in> sf_edges ?sf" using ab d(3) by (simp add: sf_edges_def)
  have run: "pre_insert ((u, v), ty) cc = Some (let cc = cc\<lparr>cc_dsu := d'\<rparr> in
      if merged m then cc\<lparr>spanning_forest := ?sf[a := insert b (?sf ! a)]\<rparr>
      else if b \<in> ?sf ! a then cc\<lparr>dsu_valid := False, shared_dsu_valid := False\<rparr> else cc)"
    using True m(1) by (simp add: pre_insert_def a_def b_def Let_def)
  have wf': "cc_wf cc'" if "cc' = cc\<lparr>cc_dsu := d'\<rparr> \<or> cc' = cc\<lparr>cc_dsu := d', spanning_forest := ?sf[a := insert b (?sf ! a)]\<rparr> \<or>
      cc' = cc\<lparr>cc_dsu := d', dsu_valid := False, shared_dsu_valid := False\<rparr>" for cc'
    using that wf m(3) d'inv by (auto simp: cc_wf_def dsu_shape_def n_def)
  consider "merged m" | "\<not> merged m" "b \<in> ?sf ! a" | "\<not> merged m" "b \<notin> ?sf ! a" by blast
  then show ?thesis
  proof cases
    case 1
    then show ?thesis using run wf' m d(3) ab(3) tog(1) id
      by (auto simp: cache_ok_def cc_frame_def sf_edges_insert)
  next
    case 2
    then show ?thesis using run wf' by (auto simp: cache_ok_def cc_frame_def)
  next
    case 3
    then show ?thesis using run wf' same tog(2) m(4) mem id
      by (auto simp: cache_ok_def cc_frame_def)
  qed
qed

section \<open>Updates of the sketches\<close>

lemma sketches_hold_replace:
  assumes "sketches_hold xxh holds ref n S sks" "v < n"
    and "sketch_wf sk" "same_shape sk ref" "sketch_repr xxh holds {..<num_buckets ref} sk A"
  shows "sketches_hold xxh holds ref n (S(v := A)) (sks[v := sk])"
  using assms by (auto simp: sketches_hold_def sketches_shape_def nth_list_update)

lemma sketches_hold_vertex:
  assumes "sketches_hold xxh holds ref n S sks" "v < n"
  shows "v < length sks" "sketch_wf (sks ! v)" "same_shape (sks ! v) ref" "num_buckets (sks ! v) = num_buckets ref"
    "sketch_repr xxh holds {..<num_buckets (sks ! v)} (sks ! v) (S v)"
  using assms by (auto simp: sketches_hold_def sketches_shape_def same_shape_def)

lemma sketches_hold_upd:
  assumes "sketches_hold xxh (in_bucket xxh) ref n S sks" "v < n"
  shows "sketches_hold xxh (in_bucket xxh) ref n (S(v := sym_diff (S v) {x}))
      (sks[v := Sketch_update xxh (sks ! v) x])"
    and "sample_idx (Sketch_update xxh (sks ! v) x) = sample_idx (sks ! v)"
proof -
  note h = sketches_hold_vertex [OF assms]
  have sh: "same_shape (Sketch_update xxh (sks ! v) x) (sks ! v)" by (rule cameo.upd_shape)
  then have "num_buckets (Sketch_update xxh (sks ! v) x) = num_buckets ref" using h(4) by (simp add: same_shape_def)
  then show "sketches_hold xxh (in_bucket xxh) ref n (S(v := sym_diff (S v) {x}))
      (sks[v := Sketch_update xxh (sks ! v) x])"
    using sketches_hold_replace [OF assms cameo.upd_wf [OF h(2)] same_shape_trans [OF sh h(3)]]
      cameo.repr_upd [OF h(2,5), of x] by simp
  show "sample_idx (Sketch_update xxh (sks ! v) x) = sample_idx (sks ! v)"
    by (subst cameo.upd_frame) simp
qed

lemma sketches_hold_cong:
  assumes "sketches_hold xxh holds ref n S sks" "\<And>v. v < n \<Longrightarrow> S v = S' v"
  shows "sketches_hold xxh holds ref n S' sks"
  using assms by (simp add: sketches_hold_def)

lemma cc_wf_sketches:
  assumes "cc_wf cc" "sketches_shape (cc_ref cc) (num_vertices cc) sks"
  shows "cc_wf (cc\<lparr>sketches := sks\<rparr>)"
  using assms by (simp add: cc_wf_def)

lemma incident_toggle:
  assumes "u < 2 ^ 32" "v < 2 ^ 32" "u \<noteq> v" "S = incident E"
  shows "incident (sym_diff E {edge_id u v}) w =
    (S(u := sym_diff (S u) {edge_id u v}, v := sym_diff (S v) {edge_id u v})) w"
  unfolding incident_sym_diff incident_singleton edge_of_edge_id [OF assms(1,2)]
  using assms(3,4) by (auto simp: min_def max_def)

lemma cc_update_correct:
  assumes inv: "cc_inv xxh E cc" and uv: "u < num_vertices cc" "v < num_vertices cc" "u \<noteq> v"
  shows "\<exists>cc'. cc_update xxh ((u, v), ty) cc = Some cc' \<and> cc_inv xxh (sym_diff E {edge_id u v}) cc' \<and>
    num_vertices cc' = num_vertices cc \<and> cc_seed cc' = cc_seed cc \<and> cc_config cc' = cc_config cc \<and>
    history cc' = history cc \<and> last_query_rounds cc' = last_query_rounds cc \<and> delta_sketches cc' = delta_sketches cc"
proof -
  let ?n = "num_vertices cc" and ?x = "edge_id u v" and ?S = "incident E"
  have h: "graph_ids ?n E" "cc_wf cc" "cache_ok E cc" "\<not> update_locked cc"
    "sketches_hold xxh (in_bucket xxh) (cc_ref cc) ?n ?S (sketches cc)"
    "\<And>w. w < ?n \<Longrightarrow> sample_idx (sketches cc ! w) = 0"
    using inv by (auto simp: cc_inv_def cc_holds_def)
  obtain cc1 where c1: "pre_insert ((u, v), ty) cc = Some cc1" "cc_wf cc1" "cc_frame cc1 cc"
    "cache_ok (sym_diff E {?x}) cc1"
    using pre_insert_correct [OF h(2,1,3) uv, of ty] by blast
  have f: "num_vertices cc1 = ?n" "cc_ref cc1 = cc_ref cc" "sketches cc1 = sketches cc"
    "update_locked cc1 = update_locked cc"
    using c1(3) by (auto simp: cc_frame_def)
  define sks where "sks = (sketches cc)[u := Sketch_update xxh (sketches cc ! u) ?x]"
  define sks' where "sks' = sks[v := Sketch_update xxh (sks ! v) ?x]"
  note s1 = sketches_hold_upd [OF h(5) uv(1), of ?x, folded sks_def]
  note s2 = sketches_hold_upd [OF s1(1) uv(2), of ?x, folded sks'_def]
  have lt: "u < 2 ^ 32" "v < 2 ^ 32" using uv h(2) by (auto simp: cc_wf_def)
  have hold: "sketches_hold xxh (in_bucket xxh) (cc_ref cc) ?n (incident (sym_diff E {?x})) sks'"
    by (rule sketches_hold_cong [OF s2(1)]) (use incident_toggle [OF lt uv(3) refl] uv(3) in simp)
  have len: "length (sketches cc) = ?n" using h(2) by (simp add: cc_wf_def sketches_shape_def)
  have idx: "sample_idx (sks' ! w) = 0" if "w < ?n" for w
    using that h(6) s1(2) s2(2) uv len by (auto simp: sks'_def sks_def nth_list_update)
  have "cc_wf (cc1\<lparr>sketches := sks'\<rparr>)"
    using cc_wf_sketches [OF c1(2), of sks'] hold f(1,2) by (simp add: sketches_hold_def)
  moreover have "cache_ok (sym_diff E {?x}) (cc1\<lparr>sketches := sks'\<rparr>)" using c1(4) by (simp add: cache_ok_def)
  moreover have "cc_update xxh ((u, v), ty) cc = Some (cc1\<lparr>sketches := sks'\<rparr>)"
    using c1(1) f(3) by (simp add: cc_update_def sks_def sks'_def Let_def)
  ultimately show ?thesis
    using graph_ids_toggle [OF h(1) uv] hold idx f h(4) c1(3)
    by (auto simp: cc_inv_def cc_holds_def cc_frame_def)
qed

text \<open>A batch for one vertex adds exactly the edges that occur an odd number of times in it.\<close>

lemma apply_update_batch_correct:
  assumes h: "cc_holds xxh S cc" and src: "src < num_vertices cc" and thr: "thr < length (delta_sketches cc)"
  shows "\<exists>cc'. apply_update_batch xxh thr src dsts cc = Inr cc' \<and>
    cc_holds xxh (S(src := sym_diff (S src) (odd_set (map (edge_id src) dsts)))) cc' \<and>
    cc' = cc\<lparr>delta_sketches := delta_sketches cc', sketches := sketches cc'\<rparr> \<and>
    length (delta_sketches cc') = length (delta_sketches cc)"
proof -
  let ?n = "num_vertices cc" and ?ref = "cc_ref cc" and ?sk = "sketches cc ! src" and ?B = "odd_set (map (edge_id src) dsts)"
  have wf: "cc_wf cc" and hold: "sketches_hold xxh (in_bucket xxh) ?ref ?n S (sketches cc)"
    and nl: "\<not> update_locked cc" and idx: "\<And>v. v < ?n \<Longrightarrow> sample_idx (sketches cc ! v) = 0"
    using h by (auto simp: cc_holds_def)
  note v = sketches_hold_vertex [OF hold src]
  define z where "z = zero_contents (delta_sketches cc ! thr)"
  define d where "d = fold (\<lambda>x sk. Sketch_update xxh sk x) (map (edge_id src) dsts) z"
  have dl: "sketch_wf (delta_sketches cc ! thr)" "same_shape (delta_sketches cc ! thr) ?ref"
    using wf thr by (auto simp: cc_wf_def)
  have z: "sketch_wf z" "same_shape z ?ref" "sketch_repr xxh (in_bucket xxh) {..<num_buckets z} z {}"
    using dl cameo.repr_zero [of "{..<num_buckets z}" "delta_sketches cc ! thr" xxh]
      same_shape_trans [OF zero_contents_shape dl(2)]
    by (auto simp: z_def zero_contents_wf) (auto simp: zero_contents_def reset_sample_state_def sketch_wf_def)
  have d: "sketch_wf d" "same_shape d ?ref" "sketch_repr xxh (in_bucket xxh) {..<num_buckets d} d ?B"
    using cameo.upds_wf [OF z(1)] same_shape_trans [OF cameo.upds_shape z(2)] cameo.repr_upds [OF z(1,3)]
    by (auto simp: d_def)
  have nb: "num_buckets d = num_buckets ?sk" "same_shape ?sk d"
    using d(2) v(3) by (auto simp: same_shape_def)
  have m: "sketch_repr xxh (in_bucket xxh) {..<num_buckets ?ref} (Sketch_merge ?sk d) (sym_diff (S src) ?B)"
    using cameo.repr_merge [OF v(2) nb(2) order_refl v(5)] d(3) nb(1) v(4) by simp
  define cc' where "cc' = cc\<lparr>delta_sketches := (delta_sketches cc)[thr := d], sketches := (sketches cc)[src := Sketch_merge ?sk d]\<rparr>"
  have hold': "sketches_hold xxh (in_bucket xxh) ?ref ?n (S(src := sym_diff (S src) ?B)) (sketches cc')"
    unfolding cc'_def
    using sketches_hold_replace [OF hold src Sketch_merge_wf [OF v(2)] same_shape_trans [OF Sketch_merge_shape v(3)] m] by simp
  have "cc_wf cc'" using wf hold' d(1,2) unfolding cc_wf_def
    by (auto simp: cc'_def sketches_hold_def dest!: set_update_subset_insert [THEN subsetD])
  moreover have "sample_idx (sketches cc' ! w) = 0" if "w < ?n" for w
    using idx that v(1) by (auto simp: cc'_def nth_list_update Sketch_merge_def)
  ultimately have "cc_holds xxh (S(src := sym_diff (S src) ?B)) cc'"
    using hold' nl by (simp add: cc_holds_def cc'_def)
  moreover have "apply_update_batch xxh thr src dsts cc = Inr cc'"
    using nl thr v(1) by (simp add: apply_update_batch_def cc'_def d_def z_def fold_map comp_def Let_def)
  ultimately show ?thesis by (auto simp: cc'_def)
qed

section \<open>Queries\<close>

lemma reset_fresh:
  assumes "\<And>v. v < length sks \<Longrightarrow> sample_idx (sks ! v) = 0"
  shows "map reset_sample_state sks = sks"
  using assms by (intro nth_equalityI) (auto simp: reset_sample_state_def)

lemma cc_conf_sel [simp]:
  "bc_n (cc_conf env cc) = num_vertices cc" "bc_seed (cc_conf env cc) = cc_seed cc"
  "bc_factor (cc_conf env cc) = cfg_sketches_factor (cc_config cc)" "bc_env (cc_conf env cc) = env"
  "bc_part (cc_conf env cc) = get_ith_partition" "cc_conf env (cc\<lparr>update_locked := l\<rparr>) = cc_conf env cc"
  by (simp_all add: cc_conf_def)

definition same_params :: "'g CC \<Rightarrow> 'g CC \<Rightarrow> bool" where
  "same_params cc' cc \<longleftrightarrow> num_vertices cc' = num_vertices cc \<and> cc_seed cc' = cc_seed cc \<and>
     cc_config cc' = cc_config cc \<and> delta_sketches cc' = delta_sketches cc"

lemma refresh_dsu_returns:
  assumes wf: "cc_wf cc" and omp: "omp_ok (cc_conf env cc)" and nv: "\<not> valid"
  shows "\<exists>res cc' hist sks'. refresh_dsu xxh env valid cc = Some (res, cc') \<and> cc_wf cc' \<and> same_params cc' cc \<and>
    history cc' = history cc @ [hist] \<and> sketches cc' = map reset_sample_state (sketches cc) \<and>
    boruvka_run xxh (cc_conf env cc) (sketches cc) (cc_dsu cc) =
      Some (case res of Inl e \<Rightarrow> Inl e | Inr _ \<Rightarrow> Inr (last_query_rounds cc'),
        (sks', cc_dsu cc', spanning_forest cc'), hist) \<and>
    (case res of Inl e \<Rightarrow> update_locked cc' \<and> dsu_valid cc' = dsu_valid cc
     | Inr _ \<Rightarrow> \<not> update_locked cc' \<and> dsu_valid cc' \<and> last_query_rounds cc' \<le> calc_cc_samples (num_vertices cc) (cfg_sketches_factor (cc_config cc)))"
proof -
  let ?n = "num_vertices cc"
  have sh: "sketches_shape (bc_ref (cc_conf env cc)) ?n (sketches cc)" "dsu_inv (cc_dsu cc)" "dsu_n (cc_dsu cc) = ?n"
    using wf by (auto simp: cc_wf_def dsu_shape_def)
  obtain res sks' d' sf' hist where r: "boruvka_run xxh (cc_conf env cc) (sketches cc) (cc_dsu cc) = Some (res, (sks', d', sf'), hist)"
    "sketches_shape (cc_ref cc) ?n sks'" "dsu_shape ?n (d', sf')"
    "map reset_sample_state sks' = map reset_sample_state (sketches cc)"
    "\<forall>r. res = Inr r \<longrightarrow> r \<le> calc_cc_samples ?n (cfg_sketches_factor (cc_config cc))"
    using boruvka_run_returns [OF omp _ sh, of xxh] by fastforce
  have "sketches_shape (cc_ref cc) ?n (map reset_sample_state sks')"
    using r(2) by (auto simp: sketches_shape_def reset_sample_state_def sketch_wf_def same_shape_def)
  then show ?thesis
    using r wf nv by (cases res)
      (auto simp: refresh_dsu_def boruvka_emulation_def reset_sketches_def cc_wf_def same_params_def Let_def)
qed

lemma refresh_dsu_correct:
  assumes inv: "cc_inv xxh E cc" and omp: "omp_ok (cc_conf env cc)"
    and run: "refresh_dsu xxh env (dsu_valid cc) cc = Some (res, cc')"
    and sound: "dsu_valid cc \<or> hist_sound xxh (in_bucket xxh) (cc_ref cc) (num_vertices cc) E 0 (last (history cc'))"
  shows "same_params cc' cc \<and> cc_inv xxh E (cc'\<lparr>update_locked := False\<rparr>) \<and>
    (case res of Inl e \<Rightarrow> (\<exists>sd a i. e = OutOfSamplesException sd a i) \<and> update_locked cc' \<and> \<not> dsu_valid cc'
     | Inr _ \<Rightarrow> \<not> update_locked cc' \<and> dsu_valid cc')"
proof (cases "dsu_valid cc")
  case True
  then show ?thesis using run inv by (auto simp: refresh_dsu_def same_params_def cc_inv_def cc_holds_def cc_wf_def cache_ok_def)
next
  case False
  let ?n = "num_vertices cc"
  have h: "graph_ids ?n E" "cc_wf cc" "sketches_hold xxh (in_bucket xxh) (cc_ref cc) ?n (incident E) (sketches cc)"
    "\<And>v. v < ?n \<Longrightarrow> sample_idx (sketches cc ! v) = 0"
    using inv by (auto simp: cc_inv_def cc_holds_def)
  have len: "length (sketches cc) = ?n" and d: "dsu_inv (cc_dsu cc)" "dsu_n (cc_dsu cc) = ?n"
    using h(2) by (auto simp: cc_wf_def dsu_shape_def sketches_shape_def)
  obtain hist sks' where r: "cc_wf cc'" "same_params cc' cc" "history cc' = history cc @ [hist]"
    "sketches cc' = sketches cc"
    "boruvka_run xxh (cc_conf env cc) (sketches cc) (cc_dsu cc) =
      Some (case res of Inl e \<Rightarrow> Inl e | Inr _ \<Rightarrow> Inr (last_query_rounds cc'),
        (sks', cc_dsu cc', spanning_forest cc'), hist)"
    "case res of Inl e \<Rightarrow> update_locked cc' \<and> dsu_valid cc' = dsu_valid cc | Inr _ \<Rightarrow> \<not> update_locked cc' \<and> dsu_valid cc'"
    using refresh_dsu_returns [OF h(2) omp False, of xxh] run False reset_fresh [of "sketches cc"] h(4) len
    by (fastforce split: sum.splits)
  have post: "boruvka_post ?n E (case res of Inl e \<Rightarrow> Inl e | Inr _ \<Rightarrow> Inr (last_query_rounds cc'))
      (cc_dsu cc', spanning_forest cc')"
    by (rule cameo.boruvka_run_correct [OF omp _ h(1) _ h(4) d r(5)]) (use h(3) sound False r(3) in auto)
  have "cache_ok E cc'"
    using post r(6) False by (cases res) (auto simp: cache_ok_def boruvka_post_def forest_inv_def)
  moreover have "cc_ref cc' = cc_ref cc" "num_vertices cc' = ?n" using r(2) by (auto simp: same_params_def)
  ultimately have "cc_inv xxh E (cc'\<lparr>update_locked := False\<rparr>)"
    using h(1,3,4) r(1,4) by (auto simp: cc_inv_def cc_holds_def cc_wf_def cache_ok_def)
  then show ?thesis using r(2,6) post False by (cases res) (auto simp: boruvka_post_def)
qed

text \<open>The outcome of a query on a graph \<open>E\<close>: the answer satisfies \<open>P\<close> and the state still holds
  the graph, or the samples ran out; then the sketches are intact but the updates stay locked.\<close>

definition query_post :: "xxh \<Rightarrow> vec_t set \<Rightarrow> ('b \<Rightarrow> 'h::len word CC \<Rightarrow> bool) \<Rightarrow> error + 'b \<Rightarrow> 'h word CC \<Rightarrow> bool" where
  "query_post xxh E P res cc' \<longleftrightarrow>
     (case res of
        Inr ret \<Rightarrow> cc_inv xxh E cc' \<and> P ret cc'
      | Inl e \<Rightarrow> (\<exists>sd a i. e = OutOfSamplesException sd a i) \<and> update_locked cc' \<and>
          cc_inv xxh E (cc'\<lparr>update_locked := False\<rparr>))"

text \<open>The hash is sound on the cuts that the emulation of a query asked for, if it ran one.\<close>

definition asked_sound :: "xxh \<Rightarrow> vec_t set \<Rightarrow> 'h::len word CC \<Rightarrow> 'h word CC \<Rightarrow> bool" where
  "asked_sound xxh E cc cc' \<longleftrightarrow> dsu_valid cc \<or>
     hist_sound xxh (in_bucket xxh) (cc_ref cc) (num_vertices cc) E 0 (last (history cc'))"

lemma cc_inv_unlocked: "cc_inv xxh E (cc\<lparr>update_locked := False\<rparr>) \<Longrightarrow> \<not> update_locked cc \<Longrightarrow> cc_inv xxh E cc"
  by (auto simp: cc_inv_def cc_holds_def cc_wf_def cache_ok_def)

lemma refresh_dsu_total:
  assumes "cc_wf cc" "omp_ok (cc_conf env cc)"
  shows "\<exists>res cc'. refresh_dsu xxh env valid cc = Some (res, cc') \<and> cc_wf cc' \<and> same_params cc' cc"
  using refresh_dsu_returns [OF assms, of valid xxh] assms(1)
  by (cases valid) (auto simp: refresh_dsu_def same_params_def)

lemma cc_inv_dsu:
  assumes "cc_inv xxh E cc" "dsu_valid cc"
  shows "dsu_repr (cc_dsu cc) (sf_edges (spanning_forest cc))" "dsu_repr (cc_dsu cc) (edges_of E)"
    "dsu_n (cc_dsu cc) = num_vertices cc" "spanning_forest_of (edges_of E) (sf_edges (spanning_forest cc))"
    "length (spanning_forest cc) = num_vertices cc" "cc_wf cc"
proof -
  show wf: "cc_wf cc" using assms(1) by (simp add: cc_inv_def cc_holds_def)
  then show "dsu_n (cc_dsu cc) = num_vertices cc" "length (spanning_forest cc) = num_vertices cc"
    by (simp_all add: cc_wf_def dsu_shape_def)
  show r: "dsu_repr (cc_dsu cc) (sf_edges (spanning_forest cc))"
    and s: "spanning_forest_of (edges_of E) (sf_edges (spanning_forest cc))"
    using assms by (simp_all add: cc_inv_def cache_ok_def)
  have "econn (sf_edges (spanning_forest cc)) = econn (edges_of E)" using s by (simp add: spanning_forest_of_def)
  then show "dsu_repr (cc_dsu cc) (edges_of E)" using r by (simp add: uf_represents_def)
qed

lemma cc_inv_find:
  assumes "cc_inv xxh E cc" "dsu_valid cc" "dsu_repr d (sf_edges (spanning_forest cc))" "dsu_n d = num_vertices cc"
  shows "cc_inv xxh E (cc\<lparr>cc_dsu := d\<rparr>)"
  using assms by (auto simp: cc_inv_def cc_holds_def cc_wf_def cache_ok_def dsu_shape_def uf_represents_def)

lemma dsu_repr_exists:
  assumes "dsu_inv d"
  shows "dsu_repr d {(a, dsu_root d a) | a. a < dsu_n d}"
proof -
  let ?E = "{(a, dsu_root d a) | a. a < dsu_n d}"
  have "econn ?E x y \<longleftrightarrow> dsu_root d x = dsu_root d y" if "x < dsu_n d" "y < dsu_n d" for x y
  proof
    have e: "econn ?E a (dsu_root d a)" if "a < dsu_n d" for a using that by (intro econn_edge) blast
    assume "dsu_root d x = dsu_root d y"
    then have "econn ?E x (dsu_root d y)" using e [OF that(1)] by simp
    then show "econn ?E x y" by (rule econn_trans [OF _ econn_sym [OF e [OF that(2)]]])
  next
    assume "econn ?E x y"
    then have "y \<in> {z. dsu_root d z = dsu_root d x}"
      by (rule econn_closed) (use dsu_root_idem [OF assms] in auto)
    then show "dsu_root d x = dsu_root d y" by simp
  qed
  then show ?thesis using assms by (simp add: uf_represents_def)
qed

lemma connected_components_spec:
  assumes inv: "cc_inv xxh E cc" and omp: "omp_ok (cc_conf env cc)"
  shows "\<exists>res cc'. connected_components xxh env cc = Some (res, cc') \<and> same_params cc' cc \<and> cc_wf cc' \<and>
    (asked_sound xxh E cc cc' \<longrightarrow> query_post xxh E
      (\<lambda>ret cc'. dsu_valid cc' \<and> components_of (edges_of E) (num_vertices cc) ret) res cc')"
proof -
  have wf: "cc_wf cc" and v: "shared_dsu_valid cc = dsu_valid cc" using inv by (auto simp: cc_inv_def cc_holds_def cc_wf_def)
  obtain r cc1 where r: "refresh_dsu xxh env (dsu_valid cc) cc = Some (r, cc1)" "cc_wf cc1" "same_params cc1 cc"
    using refresh_dsu_total [OF wf omp, of xxh "dsu_valid cc"] by blast
  have n: "num_vertices cc1 = num_vertices cc" using r(3) by (simp add: same_params_def)
  note ok = refresh_dsu_correct [OF inv omp r(1)]
  show ?thesis
  proof (cases r)
    case (Inl e)
    then have "connected_components xxh env cc = Some (Inl e, cc1)" using r(1) v by (simp add: connected_components_def)
    moreover have "query_post xxh E (\<lambda>ret cc'. dsu_valid cc' \<and> components_of (edges_of E) (num_vertices cc) ret) (Inl e) cc1"
      if "asked_sound xxh E cc cc1"
      using ok that Inl by (auto simp: asked_sound_def query_post_def)
    ultimately show ?thesis using r(2,3) by blast
  next
    case (Inr u)
    have d: "dsu_inv (cc_dsu cc1)" "dsu_n (cc_dsu cc1) = num_vertices cc" using r(2) n by (auto simp: cc_wf_def dsu_shape_def)
    obtain ret d' where q: "ConnectedComponents_new (num_vertices cc) (cc_dsu cc1) = Some (ret, d')" "dsu_inv d'"
      "dsu_n d' = num_vertices cc" "\<forall>x < num_vertices cc. dsu_root d' x = dsu_root (cc_dsu cc1) x"
      using components_sound [OF dsu_repr_exists [OF d(1)] d(2)] by (auto simp: uf_represents_def)
    have run: "connected_components xxh env cc = Some (Inr ret, cc1\<lparr>cc_dsu := d'\<rparr>)"
      using r(1) v n q(1) Inr by (simp add: connected_components_def)
    have wf': "cc_wf (cc1\<lparr>cc_dsu := d'\<rparr>)" "same_params (cc1\<lparr>cc_dsu := d'\<rparr>) cc"
      using r(2,3) q(2,3) n by (auto simp: cc_wf_def dsu_shape_def same_params_def)
    have "query_post xxh E (\<lambda>ret cc'. dsu_valid cc' \<and> components_of (edges_of E) (num_vertices cc) ret)
        (Inr ret) (cc1\<lparr>cc_dsu := d'\<rparr>)" if "asked_sound xxh E cc (cc1\<lparr>cc_dsu := d'\<rparr>)"
    proof -
      have i: "cc_inv xxh E cc1" "dsu_valid cc1"
        using ok that Inr cc_inv_unlocked [of xxh E cc1] by (auto simp: asked_sound_def)
      note e = cc_inv_dsu [OF i]
      have "dsu_repr d' (sf_edges (spanning_forest cc1))"
        using e(1) q(2-4) d(2) by (simp add: uf_represents_def)
      moreover have "components_of (edges_of E) (num_vertices cc) ret"
        using components_sound [OF e(2) d(2)] q(1) by auto
      ultimately show ?thesis using cc_inv_find [OF i] i(2) q(3) n by (auto simp: query_post_def)
    qed
    then show ?thesis using run wf' by blast
  qed
qed

lemma point_query_spec:
  assumes inv: "cc_inv xxh E cc" and omp: "omp_ok (cc_conf env cc)" and ab: "a < num_vertices cc" "b < num_vertices cc"
  shows "\<exists>res cc'. point_query xxh env a b cc = Some (res, cc') \<and> same_params cc' cc \<and> cc_wf cc' \<and>
    (asked_sound xxh E cc cc' \<longrightarrow> query_post xxh E (\<lambda>ret cc'. dsu_valid cc' \<and> (ret \<longleftrightarrow> econn (edges_of E) a b)) res cc')"
proof -
  have wf: "cc_wf cc" using inv by (auto simp: cc_inv_def cc_holds_def)
  obtain r cc1 where r: "refresh_dsu xxh env (dsu_valid cc) cc = Some (r, cc1)" "cc_wf cc1" "same_params cc1 cc"
    using refresh_dsu_total [OF wf omp, of xxh "dsu_valid cc"] by blast
  have n: "num_vertices cc1 = num_vertices cc" using r(3) by (simp add: same_params_def)
  note ok = refresh_dsu_correct [OF inv omp r(1)]
  show ?thesis
  proof (cases r)
    case (Inl e)
    then have "point_query xxh env a b cc = Some (Inl e, cc1)" using r(1) by (simp add: point_query_def)
    moreover have "query_post xxh E (\<lambda>ret cc'. dsu_valid cc' \<and> (ret \<longleftrightarrow> econn (edges_of E) a b)) (Inl e) cc1"
      if "asked_sound xxh E cc cc1"
      using ok that Inl by (auto simp: asked_sound_def query_post_def)
    ultimately show ?thesis using r(2,3) by blast
  next
    case (Inr u)
    have d: "dsu_inv (cc_dsu cc1)" "dsu_n (cc_dsu cc1) = num_vertices cc" using r(2) n by (auto simp: cc_wf_def dsu_shape_def)
    obtain d' where q: "find_roots [a, b] (cc_dsu cc1) = Some (map (dsu_root (cc_dsu cc1)) [a, b], d')" "dsu_inv d'"
      "dsu_n d' = num_vertices cc" "\<forall>x < num_vertices cc. dsu_root d' x = dsu_root (cc_dsu cc1) x"
      using find_roots_correct [OF dsu_repr_exists [OF d(1)], of "[a, b]"] ab d(2)
      by (auto simp: uf_represents_def simp del: find_roots.simps)
    define ret where "ret \<longleftrightarrow> dsu_root (cc_dsu cc1) a = dsu_root (cc_dsu cc1) b"
    have run: "point_query xxh env a b cc = Some (Inr ret, cc1\<lparr>cc_dsu := d'\<rparr>)"
      using r(1) q(1) Inr by (simp add: point_query_def ret_def del: find_roots.simps)
    have wf': "cc_wf (cc1\<lparr>cc_dsu := d'\<rparr>)" "same_params (cc1\<lparr>cc_dsu := d'\<rparr>) cc"
      using r(2,3) q(2,3) n by (auto simp: cc_wf_def dsu_shape_def same_params_def)
    have "query_post xxh E (\<lambda>ret cc'. dsu_valid cc' \<and> (ret \<longleftrightarrow> econn (edges_of E) a b)) (Inr ret) (cc1\<lparr>cc_dsu := d'\<rparr>)"
      if "asked_sound xxh E cc (cc1\<lparr>cc_dsu := d'\<rparr>)"
    proof -
      have i: "cc_inv xxh E cc1" "dsu_valid cc1"
        using ok that Inr cc_inv_unlocked [of xxh E cc1] by (auto simp: asked_sound_def)
      note e = cc_inv_dsu [OF i]
      have "dsu_repr d' (sf_edges (spanning_forest cc1))"
        using e(1) q(2-4) d(2) by (simp add: uf_represents_def)
      moreover have "ret \<longleftrightarrow> econn (edges_of E) a b" using e(2) ab d(2) by (simp add: uf_represents_def ret_def)
      ultimately show ?thesis using cc_inv_find [OF i] i(2) q(3) n by (auto simp: query_post_def)
    qed
    then show ?thesis using run wf' by blast
  qed
qed

lemma finite_forest_sets:
  assumes "spanning_forest_of (edges_of E) (sf_edges sf)" "graph_ids n E" "s \<in> set sf"
  shows "finite s"
proof -
  have "finite (sf_edges sf)"
    using assms(1,2) finite_subset [of "sf_edges sf" "edges_of E"]
    by (auto simp: spanning_forest_of_def graph_ids_def edges_of_def)
  moreover obtain i where "i < length sf" "s = sf ! i" using assms(3) by (auto simp: in_set_conv_nth)
  then have "s \<subseteq> snd ` sf_edges sf" by (force simp: sf_edges_def)
  ultimately show ?thesis by (meson finite_imageI finite_subset)
qed

lemma calc_spanning_forest_spec:
  assumes inv: "cc_inv xxh E cc" and omp: "omp_ok (cc_conf env cc)" and ord: "iter_order ord"
  shows "\<exists>res cc'. calc_spanning_forest xxh env ord cc = Some (res, cc') \<and> same_params cc' cc \<and> cc_wf cc' \<and>
    (asked_sound xxh E cc cc' \<longrightarrow> query_post xxh E
      (\<lambda>sf cc'. spanning_forest_of (edges_of E) (set (get_edges sf)) \<and> distinct (get_edges sf)) res cc')"
proof -
  obtain res cc' where c: "connected_components xxh env cc = Some (res, cc')" "same_params cc' cc" "cc_wf cc'"
    "asked_sound xxh E cc cc' \<longrightarrow> query_post xxh E
      (\<lambda>ret cc'. dsu_valid cc' \<and> components_of (edges_of E) (num_vertices cc) ret) res cc'"
    using connected_components_spec [OF inv omp] by blast
  show ?thesis
  proof (cases res)
    case (Inl e)
    then have "calc_spanning_forest xxh env ord cc = Some (Inl e, cc')" using c(1) by (simp add: calc_spanning_forest_def)
    then show ?thesis using c(2-4) Inl by (auto simp: query_post_def)
  next
    case (Inr ret)
    let ?sf = "SpanningForest_new ord (num_vertices cc') (spanning_forest cc')"
    have "calc_spanning_forest xxh env ord cc = Some (Inr ?sf, cc')" using c(1) Inr by (simp add: calc_spanning_forest_def)
    moreover have "spanning_forest_of (edges_of E) (set (get_edges ?sf)) \<and> distinct (get_edges ?sf)"
      if i: "cc_inv xxh E cc'" "dsu_valid cc'"
    proof -
      have E: "graph_ids (num_vertices cc') E" using i(1) by (simp add: cc_inv_def)
      have "finite s" if "s \<in> set (spanning_forest cc')" for s
        by (rule finite_forest_sets [OF cc_inv_dsu(4) [OF i] E that])
      note g = set_get_edges [OF ord cc_inv_dsu(5) [OF i] this]
      then show ?thesis using cc_inv_dsu(4) [OF i] by (simp add: sf_edges_def)
    qed
    ultimately show ?thesis using c(2-4) Inr by (auto simp: query_post_def)
  qed
qed

section \<open>Disjoint forests\<close>

definition edge_ids :: "(nat \<times> nat) list \<Rightarrow> vec_t set" where
  "edge_ids es = (\<lambda>(u, v). edge_id u v) ` set es"

lemma edge_ids_forest:
  assumes "graph_ids n E" "n \<le> 2 ^ 32" "set es \<subseteq> edges_of E"
  shows "edge_ids es \<subseteq> E" "\<And>u v. (u, v) \<in> set es \<Longrightarrow> u < v \<and> v < n"
proof -
  have e: "edge_id u v \<in> E \<and> u < v \<and> v < n" if "(u, v) \<in> set es" for u v
  proof -
    have "(u, v) \<in> edge_of ` E" using assms(3) that by (auto simp: edges_of_def)
    then obtain x where "x \<in> E" "edge_of x = (u, v)" by force
    then show ?thesis using graph_ids_edge [OF assms(1,2), of x] by auto
  qed
  then show "edge_ids es \<subseteq> E" "\<And>u v. (u, v) \<in> set es \<Longrightarrow> u < v \<and> v < n" by (auto simp: edge_ids_def)
qed

text \<open>Toggling a list of different edges.\<close>

lemma update_edges_correct:
  assumes "cc_inv xxh E cc" "distinct es" "\<And>u v. (u, v) \<in> set es \<Longrightarrow> u < v \<and> v < num_vertices cc"
  shows "\<exists>cc'. update_edges xxh ty es cc = Some cc' \<and> cc_inv xxh (sym_diff E (edge_ids es)) cc' \<and> same_params cc' cc"
  using assms
proof (induction es arbitrary: E cc)
  case Nil
  then show ?case by (simp add: edge_ids_def same_params_def)
next
  case (Cons e es)
  obtain u v where e: "e = (u, v)" by fastforce
  have uv: "u < v" "v < num_vertices cc" using Cons.prems(3) e by auto
  obtain cc1 where c: "cc_update xxh (e, ty) cc = Some cc1" "cc_inv xxh (sym_diff E {edge_id u v}) cc1" "same_params cc1 cc"
    using cc_update_correct [OF Cons.prems(1), of u v ty] uv e by (auto simp: same_params_def)
  have n: "num_vertices cc1 = num_vertices cc" "num_vertices cc \<le> 2 ^ 31"
    using c(3) Cons.prems(1) by (auto simp: same_params_def cc_inv_def cc_holds_def cc_wf_def)
  have "edge_id u v \<notin> edge_ids es"
  proof
    assume "edge_id u v \<in> edge_ids es"
    then obtain u' v' where x: "(u', v') \<in> set es" "edge_id u v = edge_id u' v'" by (auto simp: edge_ids_def)
    have "u' < v' \<and> v' < num_vertices cc" using Cons.prems(3) [of u' v'] x(1) by simp
    then have "u = u' \<and> v = v'" using edge_id_inj [of u v u' v'] uv n(2) x(2) by simp
    then show False using x(1) e Cons.prems(2) by simp
  qed
  moreover have "edge_ids (e # es) = insert (edge_id u v) (edge_ids es)" by (simp add: edge_ids_def e)
  ultimately have "sym_diff (sym_diff E {edge_id u v}) (edge_ids es) = sym_diff E (edge_ids (e # es))" by auto
  moreover obtain cc2 where "update_edges xxh ty es cc1 = Some cc2"
    "cc_inv xxh (sym_diff (sym_diff E {edge_id u v}) (edge_ids es)) cc2" "same_params cc2 cc1"
    using Cons.IH [OF c(2)] Cons.prems(2,3) n(1) by auto
  ultimately show ?case using c by (auto simp: same_params_def)
qed

text \<open>Each forest spans what the forests before it left over.\<close>

fun disjoint_forests :: "vec_t set \<Rightarrow> SpanningForest list \<Rightarrow> bool" where
  "disjoint_forests E [] \<longleftrightarrow> True"
| "disjoint_forests E (sf # sfs) \<longleftrightarrow> spanning_forest_of (edges_of E) (set (get_edges sf)) \<and>
     distinct (get_edges sf) \<and> disjoint_forests (E - edge_ids (get_edges sf)) sfs"

text \<open>The hash is sound on the cuts that the emulations of the loop ask for.\<close>

fun forests_sound :: "xxh \<Rightarrow> (nat \<Rightarrow> omp_env) \<Rightarrow> (nat set \<Rightarrow> nat list) \<Rightarrow> 'u \<Rightarrow> nat \<Rightarrow> nat \<Rightarrow>
    vec_t set \<Rightarrow> 'h::len word CC \<Rightarrow> bool" where
  "forests_sound xxh env ord ty 0 i E cc \<longleftrightarrow> True"
| "forests_sound xxh env ord ty (Suc k) i E cc \<longleftrightarrow>
     (case calc_spanning_forest xxh (env i) ord cc of
        None \<Rightarrow> True
      | Some (res, cc') \<Rightarrow> asked_sound xxh E cc cc' \<and>
          (case res of
             Inl e \<Rightarrow> True
           | Inr sf \<Rightarrow>
               (case update_edges xxh ty (get_edges sf) cc' of
                  None \<Rightarrow> True
                | Some cc'' \<Rightarrow> forests_sound xxh env ord ty k (Suc i) (E - edge_ids (get_edges sf)) cc'')))"

lemma disjoint_forests_ids:
  assumes "disjoint_forests E sfs" "graph_ids n E" "n \<le> 2 ^ 32"
  shows "edge_ids (concat (map get_edges sfs)) \<subseteq> E \<and> distinct (concat (map get_edges sfs)) \<and>
    (\<forall>(u, v)\<in>set (concat (map get_edges sfs)). u < v \<and> v < n)"
  using assms
proof (induction sfs arbitrary: E)
  case (Cons sf sfs)
  have sub: "set (get_edges sf) \<subseteq> edges_of E" "distinct (get_edges sf)"
    using Cons.prems(1) by (auto simp: spanning_forest_of_def)
  note i = edge_ids_forest [OF Cons.prems(2,3) sub(1)]
  have g: "graph_ids n (E - edge_ids (get_edges sf))" using Cons.prems(2) by (auto simp: graph_ids_def)
  have IH: "edge_ids (concat (map get_edges sfs)) \<subseteq> E - edge_ids (get_edges sf)"
    "distinct (concat (map get_edges sfs))" "\<forall>(u, v)\<in>set (concat (map get_edges sfs)). u < v \<and> v < n"
    using Cons.IH [OF _ g Cons.prems(3)] Cons.prems(1) by auto
  have "set (get_edges sf) \<inter> set (concat (map get_edges sfs)) = {}"
    using IH(1) by (fastforce simp: edge_ids_def)
  then show ?case using IH i sub(2) by (auto simp: edge_ids_def)
qed (simp add: edge_ids_def)

lemma forest_loop_spec:
  assumes "cc_inv xxh E cc" "\<And>i cc'. same_params cc' cc \<Longrightarrow> omp_ok (cc_conf (env i) cc')" "iter_order ord"
    and "forests_sound xxh env ord ty k i E cc"
  shows "\<exists>res r cc'. forest_loop xxh env ord ty k i mr cc = Some (res, r, cc') \<and> same_params cc' cc \<and>
    (case res of
       Inr sfs \<Rightarrow> length sfs = k \<and> disjoint_forests E sfs \<and>
         cc_inv xxh (E - edge_ids (concat (map get_edges sfs))) cc'
     | Inl e \<Rightarrow> (\<exists>sd a i. e = OutOfSamplesException sd a i) \<and> update_locked cc')"
  using assms(1,2,4)
proof (induction k arbitrary: i E mr cc)
  case 0
  then show ?case by (simp add: edge_ids_def same_params_def)
next
  case (Suc k)
  obtain res cc1 where c: "calc_spanning_forest xxh (env i) ord cc = Some (res, cc1)" "same_params cc1 cc"
    "asked_sound xxh E cc cc1 \<longrightarrow> query_post xxh E
      (\<lambda>sf cc'. spanning_forest_of (edges_of E) (set (get_edges sf)) \<and> distinct (get_edges sf)) res cc1"
    using calc_spanning_forest_spec [OF Suc.prems(1) Suc.prems(2) assms(3), of i] by (auto simp: same_params_def)
  have "asked_sound xxh E cc cc1" using Suc.prems(3) c(1) by simp
  then have post: "query_post xxh E
      (\<lambda>sf cc'. spanning_forest_of (edges_of E) (set (get_edges sf)) \<and> distinct (get_edges sf)) res cc1"
    using c(3) by blast
  show ?case
  proof (cases res)
    case (Inl e)
    then show ?thesis using c post by (auto simp: query_post_def)
  next
    case (Inr sf)
    let ?ids = "edge_ids (get_edges sf)"
    have sf: "spanning_forest_of (edges_of E) (set (get_edges sf))" "distinct (get_edges sf)" "cc_inv xxh E cc1"
      using post Inr by (auto simp: query_post_def)
    have E: "graph_ids (num_vertices cc1) E" "num_vertices cc1 \<le> 2 ^ 32"
      using sf(3) by (auto simp: cc_inv_def cc_holds_def cc_wf_def)
    note i = edge_ids_forest [OF E, of "get_edges sf"]
    have "set (get_edges sf) \<subseteq> edges_of E" using sf(1) by (simp add: spanning_forest_of_def)
    note i = i [OF this]
    obtain cc2 where u: "update_edges xxh ty (get_edges sf) cc1 = Some cc2" "same_params cc2 cc1"
      "cc_inv xxh (sym_diff E ?ids) cc2"
      using update_edges_correct [OF sf(3,2) i(2), of ty] by blast
    have "sym_diff E ?ids = E - ?ids" using i(1) by auto
    then have inv2: "cc_inv xxh (E - ?ids) cc2" using u(3) by simp
    have fs: "forests_sound xxh env ord ty k (Suc i) (E - ?ids) cc2" using Suc.prems(3) c(1) Inr u(1) by simp
    obtain res2 r cc3 where l: "forest_loop xxh env ord ty k (Suc i) (max (last_query_rounds cc1) mr) cc2 = Some (res2, r, cc3)"
      "same_params cc3 cc2"
      "case res2 of Inr sfs \<Rightarrow> length sfs = k \<and> disjoint_forests (E - ?ids) sfs \<and>
         cc_inv xxh (E - ?ids - edge_ids (concat (map get_edges sfs))) cc3
       | Inl e \<Rightarrow> (\<exists>sd a i. e = OutOfSamplesException sd a i) \<and> update_locked cc3"
      using Suc.IH [OF inv2 _ fs, of "max (last_query_rounds cc1) mr"] Suc.prems(2) c(2) u(2)
      by (auto simp: same_params_def)
    have diff: "E - ?ids - edge_ids (concat (map get_edges sfs)) = E - edge_ids (concat (map get_edges (sf # sfs)))" for sfs
      by (auto simp: edge_ids_def)
    show ?thesis using c(1,2) Inr u(1,2) l sf(1,2) diff
      by (cases res2) (auto simp: same_params_def)
  qed
qed

end
