(* ===== verification/MC_Sketch_Alg.thy ===== *)
theory MC_Sketch_Alg
  imports CC_Sketch_Alg
begin

text \<open>
  The minimum-cut algorithm (src/mc_sketch_alg.cpp, include/mc_sketch_alg.h): an array of sketch
  graphs over the same vertices. Sketch \<open>v\<close> of graph \<open>g\<close> is element \<^verbatim>\<open>g * num_vertices + v\<close> of one
  array of pointers, computed in 32-bit arithmetic; an element that was not created yet is \<open>None\<close>,
  and an access to it is undefined. The rounds of Boruvka are those of theory Boruvka, run on the
  sketches of one graph and on the segments of this file's partition function.
\<close>

record 'g MC =
  max_sketch_graphs :: nat
  num_sketch_graphs :: nat
  mc_num_vertices :: nat
  mc_seed :: seed_t
  mc_update_locked :: bool
  mc_representatives :: "nat set"
  mc_sketches :: "'g Sketch option list"
  mc_dsu :: DSU
  mc_dsu_valid :: bool
  mc_shared_dsu_valid :: bool
  mc_spanning_forest :: "nat set list"
  mc_delta_sketches :: "'g Sketch list"
  mc_config :: CCAlgConfiguration
  mc_last_query_rounds :: nat
  mc_history :: "DSU list list"

datatype mc_QueryCode = MC_CONNECTIVITY | MC_KSPANNINGFORESTS | MC_MINIMUMCUT

record MinCut =
  left_vertices :: "nat set"
  right_vertices :: "nat set"
  cut_value :: nat

record SketchParams =
  skp_num_samples :: nat
  skp_num_buckets :: nat
  skp_num_columns :: nat
  skp_bkt_per_col :: nat
  skp_seed :: seed_t
  cudaUVM_enabled :: bool

text \<open>The array index of a sketch, with the wrap-around of 32-bit arithmetic.\<close>

definition mc_slot :: "nat \<Rightarrow> nat \<Rightarrow> nat \<Rightarrow> nat" where
  "mc_slot n graph_id v = (graph_id * n + v) mod 2 ^ 32"

section \<open>Construction\<close>

definition MCSketchAlg_new :: "nat list \<Rightarrow> nat \<Rightarrow> seed_t \<Rightarrow> nat \<Rightarrow> CCAlgConfiguration \<Rightarrow> 'h::len word MC" where
  "MCSketchAlg_new prio n seed max_graphs conf =
     \<lparr>max_sketch_graphs = max_graphs, num_sketch_graphs = 0, mc_num_vertices = n, mc_seed = seed,
      mc_update_locked = False, mc_representatives = {..<n},
      mc_sketches = (replicate (n * max_graphs mod 2 ^ 32) None)[0 := Some (new_sketch n seed (cfg_sketches_factor conf))],
      mc_dsu = DSU_new n prio, mc_dsu_valid = False, mc_shared_dsu_valid = False,
      mc_spanning_forest = replicate n {}, mc_delta_sketches = [], mc_config = conf,
      mc_last_query_rounds = 0, mc_history = []\<rparr>"

text \<open>The constructor from a stream leaves \<^verbatim>\<open>max_sketch_graphs\<close> uninitialised: \<open>junk\<close>.\<close>

definition MCSketchAlg_new_stream :: "nat \<Rightarrow> nat list \<Rightarrow> nat \<Rightarrow> seed_t \<Rightarrow> 8 word list \<Rightarrow> CCAlgConfiguration \<Rightarrow>
    error + 'h::len word MC" where
  "MCSketchAlg_new_stream junk prio n seed bytes conf =
     (case read_sketches n seed (cfg_sketches_factor conf) n bytes of
        Inl e \<Rightarrow> Inl e
      | Inr sks \<Rightarrow> Inr
          \<lparr>max_sketch_graphs = junk, num_sketch_graphs = 0, mc_num_vertices = n, mc_seed = seed,
           mc_update_locked = False, mc_representatives = {..<n}, mc_sketches = map Some sks,
           mc_dsu = DSU_new n prio, mc_dsu_valid = False, mc_shared_dsu_valid = False,
           mc_spanning_forest = replicate n {}, mc_delta_sketches = [], mc_config = conf,
           mc_last_query_rounds = 0, mc_history = []\<rparr>)"

definition mc_construct_from_serialized_data :: "nat \<Rightarrow> (8 word list \<Rightarrow> real) \<Rightarrow> nat list \<Rightarrow> 8 word list \<Rightarrow>
    CCAlgConfiguration \<Rightarrow> error + 'h::len word MC" where
  "mc_construct_from_serialized_data junk undbl prio file conf =
     (if length file < 20 then Inl Undefined
      else
        let seed = bytes_word (take 8 file);
            n = unat (bytes_word (take 4 (drop 8 file)) :: 32 word);
            factor = undbl (take 8 (drop 12 file));
            conf = set_sketches_factor factor conf
        in MCSketchAlg_new_stream junk prio n seed (drop 20 file) conf)"

definition create_sketch_graph :: "nat \<Rightarrow> SketchParams \<Rightarrow> 'h::len word MC \<Rightarrow> 'h word MC" where
  "create_sketch_graph graph_id sketchParams mc =
     (if graph_id \<ge> max_sketch_graphs mc \<or> graph_id \<noteq> num_sketch_graphs mc then mc
      else
        let n = mc_num_vertices mc; len = calc_vector_length n;
            samples = calc_cc_samples n (cfg_sketches_factor (mc_config mc));
            sk = (if cudaUVM_enabled sketchParams then Sketch_new_cuda len (mc_seed mc) samples default_cols_per_sample
                  else Sketch_new len (mc_seed mc) samples default_cols_per_sample)
        in mc\<lparr>mc_sketches := fold (\<lambda>i sks. sks[mc_slot n graph_id i := Some sk]) [0..<n] (mc_sketches mc),
              num_sketch_graphs := num_sketch_graphs mc + 1\<rparr>)"

definition mc_allocate_worker_memory :: "nat \<Rightarrow> 'h::len word MC \<Rightarrow> 'h word MC" where
  "mc_allocate_worker_memory num_workers mc =
     mc\<lparr>mc_delta_sketches := map (\<lambda>_. new_sketch (mc_num_vertices mc) (mc_seed mc)
          (cfg_sketches_factor (mc_config mc))) [0..<num_workers]\<rparr>"

definition mc_get_desired_updates_per_batch :: "'h::len word MC \<Rightarrow> nat" where
  "mc_get_desired_updates_per_batch mc =
     (let num = num_buckets (the (mc_sketches mc ! 0)) * bucket_size TYPE('h) div 4
      in nat \<lfloor>real num * cfg_batch_factor (mc_config mc)\<rfloor>)"

definition mc_has_cached_query :: "mc_QueryCode \<Rightarrow> 'g MC \<Rightarrow> bool" where
  "mc_has_cached_query code mc = (if code = MC_CONNECTIVITY then mc_shared_dsu_valid mc else False)"

definition mc_write_binary :: "(real \<Rightarrow> 8 word list) \<Rightarrow> 'h::len word MC \<Rightarrow> 8 word list" where
  "mc_write_binary dbl mc =
     word_bytes (mc_seed mc) @ word_bytes (of_nat (mc_num_vertices mc) :: 32 word) @
     dbl (cfg_sketches_factor (mc_config mc)) @
     concat (map (\<lambda>i. Sketch_serialize (the (mc_sketches mc ! i))) [0..<mc_num_vertices mc])"

section \<open>Updates\<close>

text \<open>An operation on one sketch of the array, undefined when there is none.\<close>

definition on_sketch :: "nat \<Rightarrow> ('g Sketch \<Rightarrow> 'g Sketch) \<Rightarrow> 'g Sketch option list \<Rightarrow> error + 'g Sketch option list" where
  "on_sketch i f sks =
     (if i < length sks then
        case sks ! i of None \<Rightarrow> Inl Undefined | Some sk \<Rightarrow> Inr (sks[i := Some (f sk)])
      else Inl Undefined)"

definition mc_pre_insert :: "'u GraphUpdate \<Rightarrow> 'g MC \<Rightarrow> 'g MC option" where
  "mc_pre_insert upd mc =
     (if mc_dsu_valid mc then
        let edge = fst upd; src = min (fst edge) (snd edge); dst = max (fst edge) (snd edge)
        in case DSU_MT_merge [] (mc_dsu mc) src dst of
             None \<Rightarrow> None
           | Some (m, d) \<Rightarrow>
               (let mc = mc\<lparr>mc_dsu := d\<rparr>
                in if merged m then
                     Some (mc\<lparr>mc_spanning_forest := (mc_spanning_forest mc)[src := insert dst (mc_spanning_forest mc ! src)]\<rparr>)
                   else if dst \<in> mc_spanning_forest mc ! src then
                     Some (mc\<lparr>mc_dsu_valid := False, mc_shared_dsu_valid := False\<rparr>)
                   else Some mc)
      else Some mc)"

definition apply_update_batch_single_graph :: "xxh \<Rightarrow> nat \<Rightarrow> nat \<Rightarrow> nat \<Rightarrow> nat list \<Rightarrow> 'h::len word MC \<Rightarrow>
    error + 'h word MC" where
  "apply_update_batch_single_graph xxh thr_id graph_id src_vertex dst_vertices mc =
     (if mc_update_locked mc then Inl UpdateLockedException
      else if \<not> thr_id < length (mc_delta_sketches mc) then Inl Undefined
      else
        let delta = zero_contents (mc_delta_sketches mc ! thr_id);
            delta = fold (\<lambda>dst sk. Sketch_update xxh sk (edge_id src_vertex dst)) dst_vertices delta
        in case on_sketch (mc_slot (mc_num_vertices mc) graph_id src_vertex) (\<lambda>sk. Sketch_merge sk delta) (mc_sketches mc) of
             Inl e \<Rightarrow> Inl e
           | Inr sks \<Rightarrow> Inr (mc\<lparr>mc_delta_sketches := (mc_delta_sketches mc)[thr_id := delta], mc_sketches := sks\<rparr>))"

definition mc_apply_update_batch :: "xxh \<Rightarrow> nat \<Rightarrow> nat \<Rightarrow> nat list \<Rightarrow> 'h::len word MC \<Rightarrow> error + 'h word MC" where
  "mc_apply_update_batch xxh thr_id src_vertex dst_vertices mc =
     (if mc_update_locked mc then Inl UpdateLockedException
      else if \<not> thr_id < length (mc_delta_sketches mc) then Inl Undefined
      else
        let delta = zero_contents (mc_delta_sketches mc ! thr_id);
            delta = fold (\<lambda>dst sk. Sketch_update xxh sk (edge_id src_vertex dst)) dst_vertices delta
        in case on_sketch src_vertex (\<lambda>sk. Sketch_merge sk delta) (mc_sketches mc) of
             Inl e \<Rightarrow> Inl e
           | Inr sks \<Rightarrow> Inr (mc\<lparr>mc_delta_sketches := (mc_delta_sketches mc)[thr_id := delta], mc_sketches := sks\<rparr>))"

definition mc_apply_raw_buckets_update :: "nat \<Rightarrow> 'h::len word Bucket list \<Rightarrow> 'h word MC \<Rightarrow> error + 'h word MC" where
  "mc_apply_raw_buckets_update src_vertex raw_buckets mc =
     (case on_sketch src_vertex (\<lambda>sk. merge_raw_bucket_buffer sk raw_buckets) (mc_sketches mc) of
        Inl e \<Rightarrow> Inl e
      | Inr sks \<Rightarrow> Inr (mc\<lparr>mc_sketches := sks\<rparr>))"

definition update_subgraph :: "xxh \<Rightarrow> nat \<Rightarrow> 'u GraphUpdate \<Rightarrow> 'h::len word MC \<Rightarrow> (error + 'h word MC) option" where
  "update_subgraph xxh graph_id upd mc =
     (case mc_pre_insert upd mc of
        None \<Rightarrow> None
      | Some mc \<Rightarrow>
          (let (src, dst) = fst upd; n = mc_num_vertices mc;
               f = (\<lambda>sk. Sketch_update xxh sk (edge_id src dst))
           in Some (case on_sketch (mc_slot n graph_id src) f (mc_sketches mc) of
                 Inl e \<Rightarrow> Inl e
               | Inr sks \<Rightarrow>
                   (case on_sketch (mc_slot n graph_id dst) f sks of
                      Inl e \<Rightarrow> Inl e
                    | Inr sks \<Rightarrow> Inr (mc\<lparr>mc_sketches := sks\<rparr>)))))"

section \<open>The emulation on one graph\<close>

definition graph_sketches :: "nat \<Rightarrow> nat \<Rightarrow> 'g Sketch option list \<Rightarrow> 'g Sketch list option" where
  "graph_sketches n graph_id sks =
     (let is = map (mc_slot n graph_id) [0..<n]
      in if list_all (\<lambda>i. i < length sks \<and> sks ! i \<noteq> None) is then Some (map (\<lambda>i. the (sks ! i)) is) else None)"

definition put_graph :: "nat \<Rightarrow> nat \<Rightarrow> 'g Sketch list \<Rightarrow> 'g Sketch option list \<Rightarrow> 'g Sketch option list" where
  "put_graph n graph_id sl sks = fold (\<lambda>i sks. sks[mc_slot n graph_id i := Some (sl ! i)]) [0..<n] sks"

type_synonym 'g mstate = "'g Sketch option list \<times> DSU \<times> nat set list"

text \<open>A step of the rounds of theory Boruvka, on the sketches of one graph.\<close>

definition on_graph :: "nat \<Rightarrow> nat \<Rightarrow> ('g bstate \<Rightarrow> ((error + bool) \<times> 'g bstate) option) \<Rightarrow> 'g mstate \<Rightarrow>
    ((error + bool) \<times> 'g mstate) option" where
  "on_graph n graph_id f st =
     (let (sks, s) = st
      in case graph_sketches n graph_id sks of
           None \<Rightarrow> Some (Inl Undefined, st)
         | Some sl \<Rightarrow>
             (case f (sl, s) of
                None \<Rightarrow> None
              | Some (res, sl, s) \<Rightarrow> Some (res, put_graph n graph_id sl sks, s)))"

definition mc_run_round_zero :: "xxh \<Rightarrow> boruvka_conf \<Rightarrow> 'h::len word mstate \<Rightarrow> ((error + bool) \<times> 'h word mstate) option" where
  "mc_run_round_zero xxh bc st = on_graph (bc_n bc) 0 (run_round_zero xxh bc) st"

definition run_k_round_zero :: "xxh \<Rightarrow> boruvka_conf \<Rightarrow> nat \<Rightarrow> 'h::len word mstate \<Rightarrow>
    ((error + bool) \<times> 'h word mstate) option" where
  "run_k_round_zero xxh bc graph_id st = on_graph (bc_n bc) graph_id (run_round_zero xxh bc) st"

definition mc_perform_boruvka_round :: "xxh \<Rightarrow> boruvka_conf \<Rightarrow> nat \<Rightarrow> MergeInstr list \<Rightarrow>
    'h::len word GlobalMergeData list \<Rightarrow> 'h word mstate \<Rightarrow> ((error + bool) \<times> 'h word mstate) option" where
  "mc_perform_boruvka_round xxh bc cur_round merge_instr global_merges st =
     (if cur_round = 0 then mc_run_round_zero xxh bc st
      else on_graph (bc_n bc) 0 (perform_boruvka_round xxh bc cur_round merge_instr global_merges) st)"

definition perform_k_boruvka_round :: "xxh \<Rightarrow> boruvka_conf \<Rightarrow> nat \<Rightarrow> nat \<Rightarrow> MergeInstr list \<Rightarrow>
    'h::len word GlobalMergeData list \<Rightarrow> 'h word mstate \<Rightarrow> ((error + bool) \<times> 'h word mstate) option" where
  "perform_k_boruvka_round xxh bc graph_id cur_round merge_instr global_merges st =
     (if cur_round = 0 then run_k_round_zero xxh bc graph_id st
      else on_graph (bc_n bc) graph_id (perform_boruvka_round xxh bc cur_round merge_instr global_merges) st)"

definition mc_create_merge_instructions :: "boruvka_conf \<Rightarrow> nat \<Rightarrow> DSU \<Rightarrow> MergeInstr list \<Rightarrow>
    (MergeInstr list \<times> DSU) option" where
  "mc_create_merge_instructions bc round_num d merge_instr =
     create_merge_instructions (bc_part bc) (bc_n bc) (bc_threads bc)
       (map_order (bc_env bc) round_num) (capture_sched (bc_env bc) round_num) d merge_instr"

text \<open>The loop of \<^verbatim>\<open>boruvka_emulation\<close> and of \<^verbatim>\<open>k_boruvka_emulation\<close>: \<open>perform\<close> is the round.\<close>

partial_function (option) mc_boruvka_loop :: "boruvka_conf \<Rightarrow> (nat \<Rightarrow> MergeInstr list \<Rightarrow> 'g mstate \<Rightarrow>
    ((error + bool) \<times> 'g mstate) option) \<Rightarrow> nat \<Rightarrow> MergeInstr list \<Rightarrow> 'g mstate \<Rightarrow> DSU list \<Rightarrow>
    ((error + nat) \<times> 'g mstate \<times> DSU list) option" where
  "mc_boruvka_loop bc perform round_num merge_instr st hist =
     Option.bind (perform round_num merge_instr st) (\<lambda>(res, st').
       let hist = hist @ [fst (snd st)]
       in case res of
            Inl e \<Rightarrow> Some (Inl e, st', hist)
          | Inr modified \<Rightarrow>
              if \<not> modified then Some (Inr round_num, st', hist)
              else
                let (sks, d, sf) = st'
                in Option.bind (mc_create_merge_instructions bc round_num d merge_instr)
                   (\<lambda>(merge_instr, d). mc_boruvka_loop bc perform (round_num + 1) merge_instr (sks, d, sf) hist))"

definition mc_conf :: "omp_env \<Rightarrow> 'g MC \<Rightarrow> boruvka_conf" where
  "mc_conf env mc = \<lparr>bc_part = mc_get_ith_partition, bc_n = mc_num_vertices mc, bc_seed = mc_seed mc,
     bc_factor = cfg_sketches_factor (mc_config mc), bc_env = env\<rparr>"

definition mc_boruvka_emulation :: "xxh \<Rightarrow> omp_env \<Rightarrow> 'h::len word MC \<Rightarrow> ((error + unit) \<times> 'h word MC) option" where
  "mc_boruvka_emulation xxh env mc =
     (let mc = mc\<lparr>mc_update_locked := True\<rparr>; bc = mc_conf env mc; n = mc_num_vertices mc;
          merge_instr = map (\<lambda>i. \<lparr>mi_root = i, mi_child = i\<rparr>) [0..<n]
      in case mc_boruvka_loop bc (\<lambda>k mi. mc_perform_boruvka_round xxh bc k mi (bc_globals bc)) 0 merge_instr
             (mc_sketches mc, DSU_reset (mc_dsu mc), replicate n {}) [] of
           None \<Rightarrow> None
         | Some (res, (sks, d, sf), hist) \<Rightarrow>
             (let mc = mc\<lparr>mc_sketches := sks, mc_dsu := d, mc_spanning_forest := sf, mc_history := mc_history mc @ [hist]\<rparr>
              in case res of
                   Inl e \<Rightarrow> Some (Inl e, mc)
                 | Inr round_num \<Rightarrow> Some (Inr (), mc\<lparr>mc_last_query_rounds := round_num, mc_dsu_valid := True,
                     mc_shared_dsu_valid := True, mc_update_locked := False\<rparr>)))"

definition k_boruvka_emulation :: "xxh \<Rightarrow> omp_env \<Rightarrow> nat \<Rightarrow> 'h::len word MC \<Rightarrow> ((error + unit) \<times> 'h word MC) option" where
  "k_boruvka_emulation xxh env graph_id mc =
     (let mc = mc\<lparr>mc_update_locked := True\<rparr>; bc = mc_conf env mc; n = mc_num_vertices mc;
          merge_instr = map (\<lambda>i. \<lparr>mi_root = i, mi_child = i\<rparr>) [0..<n]
      in case mc_boruvka_loop bc (\<lambda>k mi. perform_k_boruvka_round xxh bc graph_id k mi (bc_globals bc)) 0 merge_instr
             (mc_sketches mc, DSU_reset (mc_dsu mc), replicate n {}) [] of
           None \<Rightarrow> None
         | Some (res, (sks, d, sf), hist) \<Rightarrow>
             (let mc = mc\<lparr>mc_sketches := sks, mc_dsu := d, mc_spanning_forest := sf, mc_history := mc_history mc @ [hist]\<rparr>
              in case res of
                   Inl e \<Rightarrow> Some (Inl e, mc)
                 | Inr round_num \<Rightarrow> Some (Inr (), mc\<lparr>mc_last_query_rounds := round_num, mc_update_locked := False\<rparr>)))"

section \<open>Queries\<close>

definition mc_reset_sketches :: "'h::len word MC \<Rightarrow> 'h word MC" where
  "mc_reset_sketches mc =
     mc\<lparr>mc_sketches := fold (\<lambda>i sks. sks[i := map_option reset_sample_state (sks ! i)]) [0..<mc_num_vertices mc] (mc_sketches mc)\<rparr>"

text \<open>The part that \<^verbatim>\<open>connected_components\<close> and \<^verbatim>\<open>point_query\<close> share.\<close>

definition mc_refresh_dsu :: "xxh \<Rightarrow> omp_env \<Rightarrow> bool \<Rightarrow> 'h::len word MC \<Rightarrow> ((error + unit) \<times> 'h word MC) option" where
  "mc_refresh_dsu xxh env valid mc =
     (if valid then Some (Inr (), mc)
      else
        case mc_boruvka_emulation xxh env mc of
          None \<Rightarrow> None
        | Some (res, mc) \<Rightarrow> Some (res, mc_reset_sketches mc))"

definition mc_connected_components :: "xxh \<Rightarrow> omp_env \<Rightarrow> 'h::len word MC \<Rightarrow>
    ((error + ConnectedComponents) \<times> 'h word MC) option" where
  "mc_connected_components xxh env mc =
     (case mc_refresh_dsu xxh env (mc_shared_dsu_valid mc) mc of
        None \<Rightarrow> None
      | Some (Inl e, mc) \<Rightarrow> Some (Inl e, mc)
      | Some (Inr _, mc) \<Rightarrow>
          (case ConnectedComponents_new (mc_num_vertices mc) (mc_dsu mc) of
             None \<Rightarrow> None
           | Some (ret, d) \<Rightarrow> Some (Inr ret, mc\<lparr>mc_dsu := d\<rparr>)))"

definition mc_point_query :: "xxh \<Rightarrow> omp_env \<Rightarrow> nat \<Rightarrow> nat \<Rightarrow> 'h::len word MC \<Rightarrow>
    ((error + bool) \<times> 'h word MC) option" where
  "mc_point_query xxh env a b mc =
     (case mc_refresh_dsu xxh env (mc_dsu_valid mc) mc of
        None \<Rightarrow> None
      | Some (Inl e, mc) \<Rightarrow> Some (Inl e, mc)
      | Some (Inr _, mc) \<Rightarrow>
          (case find_roots [a, b] (mc_dsu mc) of
             None \<Rightarrow> None
           | Some (rs, d) \<Rightarrow> Some (Inr (rs ! 0 = rs ! 1), mc\<lparr>mc_dsu := d\<rparr>)))"

text \<open>An exception of the emulation is caught and dropped; only undefined behaviour stays an error.\<close>

definition mc_calc_spanning_forest :: "xxh \<Rightarrow> omp_env \<Rightarrow> (nat set \<Rightarrow> nat list) \<Rightarrow> nat \<Rightarrow> 'h::len word MC \<Rightarrow>
    ((error + SpanningForest) \<times> 'h word MC) option" where
  "mc_calc_spanning_forest xxh env ord graph_id mc =
     (case k_boruvka_emulation xxh env graph_id mc of
        None \<Rightarrow> None
      | Some (res, mc) \<Rightarrow>
          if res = Inl Undefined then Some (Inl Undefined, mc)
          else Some (Inr (SpanningForest_new ord (mc_num_vertices mc) (mc_spanning_forest mc)), mc))"

text \<open>
  \<^verbatim>\<open>filter_sf_edges\<close>: each thread takes a segment of the sorted adjacency; a run of equal sources
  that crosses the border of two segments is applied under a lock. The two loops look for the end
  of the run without a bound, so they may leave the array: \<open>Undefined\<close>.
\<close>

function run_right :: "(nat \<times> nat) list \<Rightarrow> nat \<Rightarrow> nat \<Rightarrow> error + (nat \<times> nat) list \<times> nat" where
  "run_right edges src i =
     (if i \<ge> length edges then Inl Undefined
      else if fst (edges ! i) = src then
        (case run_right edges src (i + 1) of Inl e \<Rightarrow> Inl e | Inr (es, i') \<Rightarrow> Inr (edges ! i # es, i'))
      else Inr ([], i))"
  by pat_completeness auto
termination by (relation "measure (\<lambda>(edges, src, i). length edges - i)") auto

declare run_right.simps [simp del]

fun run_left :: "(nat \<times> nat) list \<Rightarrow> nat \<Rightarrow> nat \<Rightarrow> error + (nat \<times> nat) list \<times> nat" where
  "run_left edges src 0 = Inl Undefined"
| "run_left edges src (Suc i) =
     (if i \<ge> length edges then Inl Undefined
      else if fst (edges ! i) = src then
        (case run_left edges src i of Inl e \<Rightarrow> Inl e | Inr (es, i') \<Rightarrow> Inr (edges ! i # es, i'))
      else Inr ([], Suc i))"

definition filter_left :: "(nat \<times> nat) list \<Rightarrow> nat \<Rightarrow> error + (nat \<times> nat) list \<times> nat" where
  "filter_left edges start =
     (if start > 0 then
        if start \<ge> length edges then Inl Undefined
        else if fst (edges ! start) = fst (edges ! (start - 1)) then run_right edges (fst (edges ! start)) start
        else Inr ([], start)
      else Inr ([], start))"

definition filter_right :: "(nat \<times> nat) list \<Rightarrow> nat \<Rightarrow> error + (nat \<times> nat) list \<times> nat" where
  "filter_right edges stop =
     (if stop < length edges then
        if stop = 0 then Inl Undefined
        else if fst (edges ! (stop - 1)) = fst (edges ! stop) then run_left edges (fst (edges ! (stop - 1))) stop
        else Inr ([], stop)
      else Inr ([], stop))"

text \<open>The edges that one thread applies, in its order.\<close>

definition filter_thread :: "(nat \<times> nat) list \<Rightarrow> nat \<times> nat \<Rightarrow> error + (nat \<times> nat) list" where
  "filter_thread edges segment =
     (case filter_left edges (fst segment) of
        Inl e \<Rightarrow> Inl e
      | Inr (ls, start) \<Rightarrow>
          (case filter_right edges (snd segment) of
             Inl e \<Rightarrow> Inl e
           | Inr (rs, stop) \<Rightarrow> Inr (ls @ rs @ map (\<lambda>i. edges ! i) [start..<stop])))"

fun filter_threads :: "(nat \<times> nat) list \<Rightarrow> nat \<Rightarrow> nat list \<Rightarrow> error + (nat \<times> nat) list" where
  "filter_threads edges num_threads [] = Inr []"
| "filter_threads edges num_threads (thr_id # ts) =
     (case filter_thread edges (mc_get_ith_partition (length edges) thr_id num_threads) of
        Inl e \<Rightarrow> Inl e
      | Inr es \<Rightarrow> (case filter_threads edges num_threads ts of Inl e \<Rightarrow> Inl e | Inr es' \<Rightarrow> Inr (es @ es')))"

fun apply_edges :: "xxh \<Rightarrow> nat \<Rightarrow> nat \<Rightarrow> (nat \<times> nat) list \<Rightarrow> 'h::len word Sketch option list \<Rightarrow>
    error + 'h word Sketch option list" where
  "apply_edges xxh n graph_id [] sks = Inr sks"
| "apply_edges xxh n graph_id ((src, dst) # es) sks =
     (case on_sketch (graph_id * n + src) (\<lambda>sk. Sketch_update xxh sk (edge_id src dst)) sks of
        Inl e \<Rightarrow> Inl e
      | Inr sks \<Rightarrow> apply_edges xxh n graph_id es sks)"

text \<open>Updates of a sketch commute, so the threads are run one after the other, in the order
  \<open>thr_order\<close>. \<open>key\<close> is the order of \<^verbatim>\<open>Edge\<close>.\<close>

definition filter_sf_edges :: "xxh \<Rightarrow> (nat \<times> nat \<Rightarrow> 'k::linorder) \<Rightarrow> nat list \<Rightarrow> SpanningForest \<Rightarrow> nat \<Rightarrow>
    'h::len word MC \<Rightarrow> error + SpanningForest \<times> 'h word MC" where
  "filter_sf_edges xxh key thr_order sf graph_id mc =
     (let mc = mc\<lparr>mc_dsu_valid := False, mc_shared_dsu_valid := False\<rparr>;
          (edges, sf) = get_sorted_adjacency key sf
      in case filter_threads edges (length thr_order) thr_order of
           Inl e \<Rightarrow> Inl e
         | Inr es \<Rightarrow>
             (case apply_edges xxh (mc_num_vertices mc) graph_id es (mc_sketches mc) of
                Inl e \<Rightarrow> Inl e
              | Inr sks \<Rightarrow> Inr (sf, mc\<lparr>mc_sketches := sks\<rparr>)))"

text \<open>The environment of the disjoint forest query: the one of each emulation, the iteration order
  of the sets, the order of the edges and the order of the threads in the deletions.\<close>

record 'k sf_env =
  sf_omp :: "nat \<Rightarrow> omp_env"
  sf_ord :: "nat set \<Rightarrow> nat list"
  sf_key :: "nat \<times> nat \<Rightarrow> 'k"
  sf_thr_order :: "nat list"

fun mc_forest_loop :: "xxh \<Rightarrow> 'k::linorder sf_env \<Rightarrow> nat \<Rightarrow> nat \<Rightarrow> nat \<Rightarrow> nat \<Rightarrow>
    'h::len word MC \<Rightarrow> ((error + SpanningForest list) \<times> nat \<times> 'h word MC) option" where
  "mc_forest_loop xxh env graph_id 0 i max_rounds mc = Some (Inr [], max_rounds, mc)"
| "mc_forest_loop xxh env graph_id (Suc k) i max_rounds mc =
     (case mc_calc_spanning_forest xxh (sf_omp env i) (sf_ord env) graph_id mc of
        None \<Rightarrow> None
      | Some (Inl e, mc) \<Rightarrow> Some (Inl e, max_rounds, mc)
      | Some (Inr sf, mc) \<Rightarrow>
          (let max_rounds = max (mc_last_query_rounds mc) max_rounds
           in case filter_sf_edges xxh (sf_key env) (sf_thr_order env) sf graph_id mc of
                Inl e \<Rightarrow> Some (Inl e, max_rounds, mc)
              | Inr (sf, mc) \<Rightarrow>
                  (case mc_forest_loop xxh env graph_id k (Suc i) max_rounds mc of
                     None \<Rightarrow> None
                   | Some (Inl e, r) \<Rightarrow> Some (Inl e, r)
                   | Some (Inr sfs, r) \<Rightarrow> Some (Inr (sf # sfs), r))))"

fun revert_loop :: "xxh \<Rightarrow> 'k::linorder sf_env \<Rightarrow> nat \<Rightarrow> SpanningForest list \<Rightarrow> 'h::len word MC \<Rightarrow>
    error + 'h word MC" where
  "revert_loop xxh env graph_id [] mc = Inr mc"
| "revert_loop xxh env graph_id (sf # sfs) mc =
     (case filter_sf_edges xxh (sf_key env) (sf_thr_order env) sf graph_id mc of
        Inl e \<Rightarrow> Inl e
      | Inr (_, mc) \<Rightarrow> revert_loop xxh env graph_id sfs mc)"

definition mc_calc_disjoint_spanning_forests :: "xxh \<Rightarrow> 'k::linorder sf_env \<Rightarrow> nat \<Rightarrow> nat \<Rightarrow>
    'h::len word MC \<Rightarrow> ((error + SpanningForest list) \<times> 'h word MC) option" where
  "mc_calc_disjoint_spanning_forests xxh env graph_id k mc =
     (case mc_forest_loop xxh env graph_id k 0 0 mc of
        None \<Rightarrow> None
      | Some (Inl e, _, mc) \<Rightarrow> Some (Inl e, mc)
      | Some (Inr sfs, max_rounds, mc) \<Rightarrow>
          (case revert_loop xxh env graph_id sfs mc of
             Inl e \<Rightarrow> Some (Inl e, mc)
           | Inr mc \<Rightarrow> Some (Inr sfs, mc\<lparr>mc_last_query_rounds := max_rounds\<rparr>)))"

text \<open>VieCut is third-party code: \<open>viecut n edges\<close> is the value of the cut that it finds on the
  graph and which nodes it puts in the cut.\<close>

definition calc_minimum_cut :: "(nat \<Rightarrow> (nat \<times> nat) list \<Rightarrow> nat \<times> (nat \<Rightarrow> bool)) \<Rightarrow> (nat \<times> nat) list \<Rightarrow> 'g MC \<Rightarrow> MinCut" where
  "calc_minimum_cut viecut edges mc =
     (let n = mc_num_vertices mc; (cut, getNodeInCut) = viecut n edges
      in \<lparr>left_vertices = {i. i < n \<and> getNodeInCut i}, right_vertices = {i. i < n \<and> \<not> getNodeInCut i}, cut_value = cut\<rparr>)"

section \<open>The sketches of one graph\<close>

lemma mod_32_cancel: "(a + v) mod 2 ^ 32 = (a + w) mod 2 ^ 32 \<Longrightarrow> v mod 2 ^ 32 = (w :: nat) mod 2 ^ 32"
proof -
  have e: "(of_nat x :: 32 word) = of_nat y \<longleftrightarrow> x mod 2 ^ 32 = y mod 2 ^ 32" for x y
    by (simp add: word_of_nat_eq_iff take_bit_eq_mod)
  assume "(a + v) mod 2 ^ 32 = (a + w) mod 2 ^ 32"
  then have "(of_nat (a + v) :: 32 word) = of_nat (a + w)" by (simp only: e)
  then have "(of_nat v :: 32 word) = of_nat w" by simp
  then show ?thesis by (simp only: e)
qed

lemma mc_slot_inj:
  assumes "mc_slot n g v = mc_slot n g w" "v < n" "w < n" "n \<le> 2 ^ 32"
  shows "v = w"
proof -
  have "v mod 2 ^ 32 = w mod 2 ^ 32" using mod_32_cancel assms(1) unfolding mc_slot_def by blast
  then show ?thesis using assms(2-4) by simp
qed

lemma fold_upd_length [simp]: "length (fold (\<lambda>i xs. xs[f i := h i]) is xs) = length xs"
  by (induction "is" arbitrary: xs) auto

lemma fold_upd_other: "j \<notin> f ` set is \<Longrightarrow> fold (\<lambda>i xs. xs[f i := h i]) is xs ! j = xs ! j"
  by (induction "is" arbitrary: xs) auto

lemma fold_upd_nth:
  "distinct (map f is) \<Longrightarrow> i \<in> set is \<Longrightarrow> f i < length xs \<Longrightarrow> fold (\<lambda>i xs. xs[f i := h i]) is xs ! f i = h i"
  by (induction "is" arbitrary: xs) (auto simp: fold_upd_other)

lemma put_graph_nth:
  "length (put_graph n g sl sks) = length sks"
  "j \<notin> mc_slot n g ` {..<n} \<Longrightarrow> put_graph n g sl sks ! j = sks ! j"
  "n \<le> 2 ^ 32 \<Longrightarrow> v < n \<Longrightarrow> mc_slot n g v < length sks \<Longrightarrow> put_graph n g sl sks ! mc_slot n g v = Some (sl ! v)"
proof -
  show "length (put_graph n g sl sks) = length sks" by (simp add: put_graph_def)
  show "j \<notin> mc_slot n g ` {..<n} \<Longrightarrow> put_graph n g sl sks ! j = sks ! j"
    unfolding put_graph_def by (intro fold_upd_other) (auto simp: atLeast0LessThan)
  assume a: "n \<le> 2 ^ 32" "v < n" "mc_slot n g v < length sks"
  have "distinct (map (mc_slot n g) [0..<n])" using mc_slot_inj [of n g] a(1) by (auto simp: distinct_map inj_on_def)
  then show "put_graph n g sl sks ! mc_slot n g v = Some (sl ! v)"
    unfolding put_graph_def using a by (intro fold_upd_nth) auto
qed

definition graph_created :: "nat \<Rightarrow> nat \<Rightarrow> 'g Sketch option list \<Rightarrow> bool" where
  "graph_created n g sks \<longleftrightarrow> (\<forall>v<n. mc_slot n g v < length sks \<and> sks ! mc_slot n g v \<noteq> None)"

lemma graph_sketches_iff:
  "graph_sketches n g sks = Some sl \<longleftrightarrow> length sl = n \<and>
     (\<forall>v<n. mc_slot n g v < length sks \<and> sks ! mc_slot n g v = Some (sl ! v))"
  by (auto simp: graph_sketches_def list_all_iff Let_def atLeast0LessThan intro!: nth_equalityI)

lemma graph_sketches_put:
  assumes "n \<le> 2 ^ 32" "graph_sketches n g sks = Some sl" "length sl' = n"
  shows "graph_sketches n g (put_graph n g sl' sks) = Some sl'"
    and "put_graph n g sl'' (put_graph n g sl' sks) = put_graph n g sl'' sks"
proof -
  have s: "\<And>v. v < n \<Longrightarrow> mc_slot n g v < length sks" using assms(2) by (auto simp: graph_sketches_iff)
  then show "graph_sketches n g (put_graph n g sl' sks) = Some sl'"
    unfolding graph_sketches_iff using assms(1,3) by (simp add: put_graph_nth)
  have "put_graph n g sl'' (put_graph n g sl' sks) ! j = put_graph n g sl'' sks ! j" for j
    using s assms(1) by (cases "j \<in> mc_slot n g ` {..<n}") (auto simp: put_graph_nth)
  then show "put_graph n g sl'' (put_graph n g sl' sks) = put_graph n g sl'' sks"
    by (intro nth_equalityI) (simp_all add: put_graph_nth)
qed

lemma put_graph_self:
  assumes "n \<le> 2 ^ 32" "graph_sketches n g sks = Some sl"
  shows "put_graph n g sl sks = sks"
proof (rule nth_equalityI)
  show "put_graph n g sl sks ! j = sks ! j" for j
    using assms by (cases "j \<in> mc_slot n g ` {..<n}") (auto simp: put_graph_nth graph_sketches_iff)
qed (simp add: put_graph_nth)

text \<open>Different graphs have different slots while the array index does not wrap around.\<close>

lemma graph_sketches_put_other:
  assumes "g \<noteq> g'" "(g + 1) * n \<le> 2 ^ 32" "(g' + 1) * n \<le> 2 ^ 32"
  shows "graph_sketches n g' (put_graph n g sl sks) = graph_sketches n g' sks"
proof -
  have "mc_slot n g' v \<notin> mc_slot n g ` {..<n}" if "v < n" for v
  proof
    assume "mc_slot n g' v \<in> mc_slot n g ` {..<n}"
    then obtain w where w: "w < n" "mc_slot n g' v = mc_slot n g w" by blast
    have "g' * n + v < 2 ^ 32" "g * n + w < 2 ^ 32" using assms(2,3) that w(1) by auto
    then have "g' * n + v = g * n + w" using w(2) by (simp add: mc_slot_def)
    then have "(g' * n + v) div n = (g * n + w) div n" by simp
    then show False using assms(1) that w(1) by simp
  qed
  then show ?thesis by (simp add: graph_sketches_def put_graph_nth Let_def list_all_iff cong: if_cong map_cong)
qed

section \<open>The emulation on one graph is the emulation of theory Boruvka\<close>

lemma perform_k_on_graph:
  "perform_k_boruvka_round xxh bc g k mi gm st = on_graph (bc_n bc) g (perform_boruvka_round xxh bc k mi gm) st"
  "mc_perform_boruvka_round xxh bc k mi gm st = on_graph (bc_n bc) 0 (perform_boruvka_round xxh bc k mi gm) st"
  by (simp_all add: perform_k_boruvka_round_def mc_perform_boruvka_round_def run_k_round_zero_def mc_run_round_zero_def
      perform_boruvka_round_def on_graph_def split: option.splits prod.splits)

lemma perform_boruvka_round_length:
  assumes "perform_boruvka_round xxh bc k mi gm (sks, s) = Some (res, sks', s')"
  shows "length sks' = length sks"
proof -
  have "length (fold (\<lambda>(i, sk) sks. sks[i := sk]) us sks) = length sks" for us :: "(nat \<times> 'a word Sketch) list"
    by (induction us arbitrary: sks) auto
  then show ?thesis using assms
    by (auto simp: perform_boruvka_round_def run_round_zero_def Let_def split: if_splits option.splits sum.splits prod.splits)
qed

lemma on_graph_Some:
  assumes "graph_sketches n g sks = Some sl" "f (sl, s) = Some (res, sl', s')"
  shows "on_graph n g f (sks, s) = Some (res, put_graph n g sl' sks, s')"
  using assms by (simp add: on_graph_def)

lemma mc_boruvka_loop_graph:
  fixes st :: "'h::len word bstate"
  assumes "boruvka_loop xxh bc gm k mi st hist = Some y" "bc_n bc \<le> 2 ^ 32" "graph_sketches (bc_n bc) g sks = Some (fst st)"
  shows "mc_boruvka_loop bc (\<lambda>k mi. on_graph (bc_n bc) g (perform_boruvka_round xxh bc k mi gm)) k mi (sks, snd st) hist =
    Some (fst y, (put_graph (bc_n bc) g (fst (fst (snd y))) sks, snd (fst (snd y))), snd (snd y))"
proof -
  define P where "P = (\<lambda>xxh bc gm k mi (st :: 'h word bstate) hist y. \<forall>sks. bc_n bc \<le> 2 ^ 32 \<longrightarrow> graph_sketches (bc_n bc) g sks = Some (fst st) \<longrightarrow>
    mc_boruvka_loop bc (\<lambda>k mi. on_graph (bc_n bc) g (perform_boruvka_round xxh bc k mi gm)) k mi (sks, snd st) hist =
      Some (fst y, (put_graph (bc_n bc) g (fst (fst (snd y))) sks, snd (fst (snd y))), snd (snd y)))"
  have "P xxh bc gm k mi st hist y"
  proof (rule boruvka_loop.raw_induct [where P = P, OF _ assms(1)])
    fix loop xxh bc gm k mi and st :: "'h word bstate" and hist y
    assume IH: "\<And>xxh bc gm k mi st hist y. loop xxh bc gm k mi st hist = Some y \<Longrightarrow> P xxh bc gm k mi st hist y"
      and run: "Option.bind (perform_boruvka_round xxh bc k mi gm st) (\<lambda>(res, st').
         let hist = hist @ [fst (snd st)] in case res of Inl e \<Rightarrow> Some (Inl e, st', hist)
          | Inr modified \<Rightarrow> if \<not> modified then Some (Inr k, st', hist)
              else let (sks, d, sf) = st' in Option.bind (create_merge_instructions (bc_part bc) (bc_n bc) (bc_threads bc)
                     (map_order (bc_env bc) k) (capture_sched (bc_env bc) k) d mi)
                   (\<lambda>(mi, d). loop xxh bc gm (k + 1) mi (sks, d, sf) hist)) = Some y"
    show "P xxh bc gm k mi st hist y"
      unfolding P_def
    proof (intro allI impI)
      fix sks assume n: "bc_n bc \<le> 2 ^ 32" and g: "graph_sketches (bc_n bc) g sks = Some (fst st)"
      obtain sl s where st: "st = (sl, s)" by (cases st) blast
      obtain res sl1 d1 sf1 where p: "perform_boruvka_round xxh bc k mi gm (sl, s) = Some (res, sl1, d1, sf1)"
        using run st by (auto simp: bind_eq_Some_conv)
      note og = on_graph_Some [OF g [unfolded st fst_conv], where f = "perform_boruvka_round xxh bc k mi gm", OF p]
      have len: "length sl1 = bc_n bc" using perform_boruvka_round_length [OF p] g st by (simp add: graph_sketches_iff)
      note put = graph_sketches_put [OF n g len]
      show "mc_boruvka_loop bc (\<lambda>k mi. on_graph (bc_n bc) g (perform_boruvka_round xxh bc k mi gm)) k mi (sks, snd st) hist =
        Some (fst y, (put_graph (bc_n bc) g (fst (fst (snd y))) sks, snd (fst (snd y))), snd (snd y))"
      proof (cases "\<exists>e. res = Inl e \<or> res = Inr False")
        case True
        then show ?thesis using run p og st by (auto simp: mc_boruvka_loop.simps)
      next
        case False
        then have res: "res = Inr True" by (cases res) auto
        obtain mi' d' where c: "create_merge_instructions (bc_part bc) (bc_n bc) (bc_threads bc)
            (map_order (bc_env bc) k) (capture_sched (bc_env bc) k) d1 mi = Some (mi', d')"
          "loop xxh bc gm (k + 1) mi' (sl1, d', sf1) (hist @ [fst s]) = Some y"
          using run p st res by (auto simp: bind_eq_Some_conv)
        have "mc_boruvka_loop bc (\<lambda>k mi. on_graph (bc_n bc) g (perform_boruvka_round xxh bc k mi gm)) (k + 1) mi'
            (put_graph (bc_n bc) g sl1 sks, d', sf1) (hist @ [fst s]) =
          Some (fst y, (put_graph (bc_n bc) g (fst (fst (snd y))) sks, snd (fst (snd y))), snd (snd y))"
          using IH [OF c(2)] n put unfolding P_def by simp
        then show ?thesis using og c(1) st res
          by (simp add: mc_boruvka_loop.simps [of _ _ k] mc_create_merge_instructions_def)
      qed
    qed
  qed
  then show ?thesis using assms(2,3) by (simp add: P_def)
qed

lemma k_boruvka_emulation_run:
  assumes "mc_num_vertices mc \<le> 2 ^ 32" "graph_sketches (mc_num_vertices mc) g (mc_sketches mc) = Some sl"
    and "boruvka_run xxh (mc_conf env mc) sl (mc_dsu mc) = Some (res, (sl', d, sf), hist)"
  shows "k_boruvka_emulation xxh env g mc =
    (let mc = mc\<lparr>mc_update_locked := True, mc_sketches := put_graph (mc_num_vertices mc) g sl' (mc_sketches mc),
       mc_dsu := d, mc_spanning_forest := sf, mc_history := mc_history mc @ [hist]\<rparr>
     in case res of Inl e \<Rightarrow> Some (Inl e, mc)
        | Inr r \<Rightarrow> Some (Inr (), mc\<lparr>mc_last_query_rounds := r, mc_update_locked := False\<rparr>))"
    and "g = 0 \<Longrightarrow> mc_boruvka_emulation xxh env mc =
    (let mc = mc\<lparr>mc_update_locked := True, mc_sketches := put_graph (mc_num_vertices mc) 0 sl' (mc_sketches mc),
       mc_dsu := d, mc_spanning_forest := sf, mc_history := mc_history mc @ [hist]\<rparr>
     in case res of Inl e \<Rightarrow> Some (Inl e, mc)
        | Inr r \<Rightarrow> Some (Inr (), mc\<lparr>mc_last_query_rounds := r, mc_dsu_valid := True, mc_shared_dsu_valid := True,
            mc_update_locked := False\<rparr>))"
proof -
  have c: "bc_n (mc_conf env mc) = mc_num_vertices mc" "mc_conf env (mc\<lparr>mc_update_locked := l\<rparr>) = mc_conf env mc" for l
    by (simp_all add: mc_conf_def)
  note l = mc_boruvka_loop_graph [OF assms(3) [unfolded boruvka_run_loop], unfolded c fst_conv snd_conv, OF assms(1,2)]
  show "k_boruvka_emulation xxh env g mc =
    (let mc = mc\<lparr>mc_update_locked := True, mc_sketches := put_graph (mc_num_vertices mc) g sl' (mc_sketches mc),
       mc_dsu := d, mc_spanning_forest := sf, mc_history := mc_history mc @ [hist]\<rparr>
     in case res of Inl e \<Rightarrow> Some (Inl e, mc)
        | Inr r \<Rightarrow> Some (Inr (), mc\<lparr>mc_last_query_rounds := r, mc_update_locked := False\<rparr>))"
    unfolding k_boruvka_emulation_def perform_k_on_graph Let_def c using l by (simp add: c split: sum.splits)
  show "mc_boruvka_emulation xxh env mc =
    (let mc = mc\<lparr>mc_update_locked := True, mc_sketches := put_graph (mc_num_vertices mc) 0 sl' (mc_sketches mc),
       mc_dsu := d, mc_spanning_forest := sf, mc_history := mc_history mc @ [hist]\<rparr>
     in case res of Inl e \<Rightarrow> Some (Inl e, mc)
        | Inr r \<Rightarrow> Some (Inr (), mc\<lparr>mc_last_query_rounds := r, mc_dsu_valid := True, mc_shared_dsu_valid := True,
            mc_update_locked := False\<rparr>))" if "g = 0"
    unfolding mc_boruvka_emulation_def perform_k_on_graph Let_def c using l that by (simp add: c split: sum.splits)
qed

section \<open>The sample state\<close>

text \<open>A successful emulation takes one sample from every sketch, in round zero.\<close>

lemma sample_supernode_incr:
  assumes "sample_supernode xxh q s = Some (Inr (m, q'), s')"
  shows "q' = q\<lparr>sample_idx := sample_idx q + 1\<rparr>"
  using assms Sketch_sample_frame [of xxh q]
  by (auto simp: sample_supernode_def Let_def split: sum.splits if_splits prod.splits option.splits)

lemma sample_all_incr:
  assumes "sample_all xxh qs s = Some (m, None, qs', s')"
  shows "qs' = map (\<lambda>q. q\<lparr>sample_idx := sample_idx q + 1\<rparr>) qs"
  using assms
proof (induction qs arbitrary: s m qs' s')
  case (Cons q qs)
  then show ?case by (fastforce split: option.splits sum.splits prod.splits dest: sample_supernode_incr)
qed simp

lemma fold_zip_map:
  "fold (\<lambda>(i, x) xs. xs[i := x]) (zip is (map h is)) xs = fold (\<lambda>i xs. xs[i := h i]) is xs"
  by (induction "is" arbitrary: xs) auto

lemma run_round_zero_incr:
  assumes "run_round_zero xxh bc (sks, s) = Some (Inr m, sks', s')" "omp_ok bc" "length sks = bc_n bc" "v < bc_n bc"
  shows "sks' ! v = (sks ! v)\<lparr>sample_idx := sample_idx (sks ! v) + 1\<rparr>"
proof -
  let ?o = "zero_order (bc_env bc)"
  obtain qs' where a: "sample_all xxh (map (\<lambda>i. sks ! i) ?o) s = Some (m, None, qs', s')"
    "sks' = fold (\<lambda>(i, sk) sks. sks[i := sk]) (zip ?o qs') sks"
    using assms(1) by (auto simp: run_round_zero_def round_result_def Let_def split: option.splits prod.splits)
  let ?h = "\<lambda>i. (sks ! i)\<lparr>sample_idx := sample_idx (sks ! i) + 1\<rparr>"
  have "qs' = map ?h ?o" using sample_all_incr [OF a(1)] by simp
  then have "sks' = fold (\<lambda>i sks. sks[i := ?h i]) ?o sks" using a(2) fold_zip_map [of ?o ?h sks] by simp
  moreover have o: "mset ?o = mset [0..<bc_n bc]" using assms(2) by (simp add: omp_ok_def)
  moreover have "distinct ?o" "v \<in> set ?o"
    using mset_eq_imp_distinct_iff [OF o] mset_eq_setD [OF o] assms(4) by auto
  ultimately show ?thesis using fold_upd_nth [where f = "\<lambda>i. i" and h = ?h] assms(3,4) by simp
qed

lemma later_rounds_sketches:
  assumes "boruvka_loop xxh bc gm k mi st hist = Some y" "0 < k"
  shows "fst (fst (snd y)) = fst st"
proof -
  have "0 < k \<longrightarrow> fst (fst (snd y)) = fst st"
  proof (rule boruvka_loop.raw_induct [where P = "\<lambda>xxh bc gm k mi st hist y. 0 < k \<longrightarrow> fst (fst (snd y)) = fst st", OF _ assms(1)],
      goal_cases)
    case (1 loop xxh bc gm k mi st hist y)
    obtain sl s where st: "st = (sl, s)" by (cases st) blast
    show ?case
    proof
      assume k: "0 < k"
      obtain res sl1 s1 where p: "perform_boruvka_round xxh bc k mi gm (sl, s) = Some (res, sl1, s1)"
        using 1(2) st by (auto simp: bind_eq_Some_conv)
      have "sl1 = sl" using p k by (auto simp: perform_boruvka_round_def split: sum.splits option.splits prod.splits)
      then show "fst (fst (snd y)) = fst st"
        using 1(2) 1(1) [where y = y] p st by (fastforce simp: bind_eq_Some_conv Let_def split: sum.splits if_splits prod.splits)
    qed
  qed
  then show ?thesis using assms(2) by simp
qed

lemma boruvka_run_incr:
  assumes "boruvka_run xxh bc sks d = Some (Inr r, (sks', s'), hist)" "omp_ok bc" "length sks = bc_n bc" "v < bc_n bc"
  shows "sks' ! v = (sks ! v)\<lparr>sample_idx := sample_idx (sks ! v) + 1\<rparr>"
proof -
  let ?mi = "map (\<lambda>i. \<lparr>mi_root = i, mi_child = i\<rparr>) [0..<bc_n bc]" and ?s = "(DSU_reset d, replicate (bc_n bc) {})"
  have l: "boruvka_loop xxh bc (bc_globals bc) 0 ?mi (sks, ?s) [] = Some (Inr r, (sks', s'), hist)"
    using assms(1) by (simp add: boruvka_run_loop)
  then obtain res sks1 d1 sf1 where z0: "run_round_zero xxh bc (sks, ?s) = Some (res, sks1, d1, sf1)"
    by (subst (asm) boruvka_loop.simps) (auto simp: bind_eq_Some_conv perform_boruvka_round_def)
  then obtain m where z: "run_round_zero xxh bc (sks, ?s) = Some (Inr m, sks1, d1, sf1)"
    using l by (cases res) (auto simp: boruvka_loop.simps perform_boruvka_round_def)
  have "sks' = sks1"
  proof (cases m)
    case False
    then show ?thesis using l z by (simp add: boruvka_loop.simps perform_boruvka_round_def)
  next
    case True
    then obtain mi' d' where "boruvka_loop xxh bc (bc_globals bc) 1 mi' (sks1, d', sf1) [DSU_reset d] = Some (Inr r, (sks', s'), hist)"
      using l z by (subst (asm) boruvka_loop.simps) (auto simp: bind_eq_Some_conv perform_boruvka_round_def)
    from later_rounds_sketches [OF this] show ?thesis by simp
  qed
  then show ?thesis using run_round_zero_incr [OF z assms(2-4)] by simp
qed

end
