(* ===== verification/Xxhash64.thy ===== *)
theory Xxhash64
  imports Bucket
begin

text \<open>
  The hash function of the GPU code (include/cuda_xxhash64.cuh), a port of XXH3 with 64-bit results.
  A pointer to bytes is the list of bytes from there on. \<open>cuda_xxh\<close> is the function that the kernels
  call, on the eight bytes of an edge id: an instance of the hash parameter of the other theories.
\<close>

type_synonym bytes = "8 word list"

definition CUDA_XXH3_kSecret :: bytes where
  "CUDA_XXH3_kSecret = [
    0xb8, 0xfe, 0x6c, 0x39, 0x23, 0xa4, 0x4b, 0xbe, 0x7c, 0x01, 0x81, 0x2c, 0xf7, 0x21, 0xad, 0x1c,
    0xde, 0xd4, 0x6d, 0xe9, 0x83, 0x90, 0x97, 0xdb, 0x72, 0x40, 0xa4, 0xa4, 0xb7, 0xb3, 0x67, 0x1f,
    0xcb, 0x79, 0xe6, 0x4e, 0xcc, 0xc0, 0xe5, 0x78, 0x82, 0x5a, 0xd0, 0x7d, 0xcc, 0xff, 0x72, 0x21,
    0xb8, 0x08, 0x46, 0x74, 0xf7, 0x43, 0x24, 0x8e, 0xe0, 0x35, 0x90, 0xe6, 0x81, 0x3a, 0x26, 0x4c,
    0x3c, 0x28, 0x52, 0xbb, 0x91, 0xc3, 0x00, 0xcb, 0x88, 0xd0, 0x65, 0x8b, 0x1b, 0x53, 0x2e, 0xa3,
    0x71, 0x64, 0x48, 0x97, 0xa2, 0x0d, 0xf9, 0x4e, 0x38, 0x19, 0xef, 0x46, 0xa9, 0xde, 0xac, 0xd8,
    0xa8, 0xfa, 0x76, 0x3f, 0xe3, 0x9c, 0x34, 0x3f, 0xf9, 0xdc, 0xbb, 0xc7, 0xc7, 0x0b, 0x4f, 0x1d,
    0x8a, 0x51, 0xe0, 0x4b, 0xcd, 0xb4, 0x59, 0x31, 0xc8, 0x9f, 0x7e, 0xc9, 0xd9, 0x78, 0x73, 0x64,
    0xea, 0xc5, 0xac, 0x83, 0x34, 0xd3, 0xeb, 0xc3, 0xc5, 0x81, 0xa0, 0xff, 0xfa, 0x13, 0x63, 0xeb,
    0x17, 0x0d, 0xdd, 0x51, 0xb7, 0xf0, 0xda, 0x49, 0xd3, 0x16, 0x55, 0x26, 0x29, 0xd4, 0x68, 0x9e,
    0x2b, 0x16, 0xbe, 0x58, 0x7d, 0x47, 0xa1, 0xfc, 0x8f, 0xf8, 0xb8, 0xd1, 0x7a, 0xd0, 0x31, 0xce,
    0x45, 0xcb, 0x3a, 0x8f, 0x95, 0x16, 0x04, 0x28, 0xaf, 0xd7, 0xfb, 0xca, 0xbb, 0x4b, 0x40, 0x7e]"

definition CUDA_XXH_rotl64 :: "64 word \<Rightarrow> nat \<Rightarrow> 64 word" where
  "CUDA_XXH_rotl64 x r = push_bit r x OR drop_bit (64 - r) x"

definition CUDA_XXH_PRIME32_1 :: "32 word" where "CUDA_XXH_PRIME32_1 = 0x9E3779B1"
definition CUDA_XXH_PRIME32_2 :: "32 word" where "CUDA_XXH_PRIME32_2 = 0x85EBCA77"
definition CUDA_XXH_PRIME32_3 :: "32 word" where "CUDA_XXH_PRIME32_3 = 0xC2B2AE3D"
definition CUDA_XXH_PRIME64_1 :: "64 word" where "CUDA_XXH_PRIME64_1 = 0x9E3779B185EBCA87"
definition CUDA_XXH_PRIME64_2 :: "64 word" where "CUDA_XXH_PRIME64_2 = 0xC2B2AE3D27D4EB4F"
definition CUDA_XXH_PRIME64_3 :: "64 word" where "CUDA_XXH_PRIME64_3 = 0x165667B19E3779F9"
definition CUDA_XXH_PRIME64_4 :: "64 word" where "CUDA_XXH_PRIME64_4 = 0x85EBCA77C2B2AE63"
definition CUDA_XXH_PRIME64_5 :: "64 word" where "CUDA_XXH_PRIME64_5 = 0x27D4EB2F165667C5"

section \<open>Multiplication\<close>

definition CUDA_XXH_mult32to64 :: "64 word \<Rightarrow> 64 word \<Rightarrow> 64 word" where
  "CUDA_XXH_mult32to64 x y = ucast (ucast x :: 32 word) * ucast (ucast y :: 32 word)"

record CUDA_XXH128_hash_cu_t =
  low64 :: "64 word"
  high64 :: "64 word"

definition CUDA_XXH_mult64to128 :: "64 word \<Rightarrow> 64 word \<Rightarrow> CUDA_XXH128_hash_cu_t" where
  "CUDA_XXH_mult64to128 lhs rhs =
     (let lo_lo = CUDA_XXH_mult32to64 (lhs AND 0xFFFFFFFF) (rhs AND 0xFFFFFFFF);
          hi_lo = CUDA_XXH_mult32to64 (drop_bit 32 lhs) (rhs AND 0xFFFFFFFF);
          lo_hi = CUDA_XXH_mult32to64 (lhs AND 0xFFFFFFFF) (drop_bit 32 rhs);
          hi_hi = CUDA_XXH_mult32to64 (drop_bit 32 lhs) (drop_bit 32 rhs);
          cross = drop_bit 32 lo_lo + (hi_lo AND 0xFFFFFFFF) + lo_hi;
          upper = drop_bit 32 hi_lo + drop_bit 32 cross + hi_hi;
          lower = push_bit 32 cross OR (lo_lo AND 0xFFFFFFFF)
      in \<lparr>low64 = lower, high64 = upper\<rparr>)"

definition CUDA_XXH3_mul128_fold64 :: "64 word \<Rightarrow> 64 word \<Rightarrow> 64 word" where
  "CUDA_XXH3_mul128_fold64 lhs rhs =
     (let product = CUDA_XXH_mult64to128 lhs rhs in low64 product XOR high64 product)"

section \<open>Bytes\<close>

definition CUDA_XXH_CPU_LITTLE_ENDIAN :: bool where
  "CUDA_XXH_CPU_LITTLE_ENDIAN = True"

text \<open>\<^verbatim>\<open>memcpy\<close> into an integer and back on a little-endian machine.\<close>

definition CUDA_XXH_read32 :: "bytes \<Rightarrow> 32 word" where
  "CUDA_XXH_read32 p = ucast (p ! 0) OR push_bit 8 (ucast (p ! 1)) OR push_bit 16 (ucast (p ! 2)) OR push_bit 24 (ucast (p ! 3))"

definition CUDA_XXH_swap32 :: "32 word \<Rightarrow> 32 word" where
  "CUDA_XXH_swap32 x =
     (push_bit 24 x AND 0xff000000) OR (push_bit 8 x AND 0x00ff0000) OR
     (drop_bit 8 x AND 0x0000ff00) OR (drop_bit 24 x AND 0x000000ff)"

definition CUDA_XXH_readLE32 :: "bytes \<Rightarrow> 32 word" where
  "CUDA_XXH_readLE32 p = (if CUDA_XXH_CPU_LITTLE_ENDIAN then CUDA_XXH_read32 p else CUDA_XXH_swap32 (CUDA_XXH_read32 p))"

definition CUDA_XXH_read64 :: "bytes \<Rightarrow> 64 word" where
  "CUDA_XXH_read64 p =
     ucast (p ! 0) OR push_bit 8 (ucast (p ! 1)) OR push_bit 16 (ucast (p ! 2)) OR push_bit 24 (ucast (p ! 3)) OR
     push_bit 32 (ucast (p ! 4)) OR push_bit 40 (ucast (p ! 5)) OR push_bit 48 (ucast (p ! 6)) OR push_bit 56 (ucast (p ! 7))"

definition CUDA_XXH_swap64 :: "64 word \<Rightarrow> 64 word" where
  "CUDA_XXH_swap64 x =
     (push_bit 56 x AND 0xff00000000000000) OR (push_bit 40 x AND 0x00ff000000000000) OR
     (push_bit 24 x AND 0x0000ff0000000000) OR (push_bit 8 x AND 0x000000ff00000000) OR
     (drop_bit 8 x AND 0x00000000ff000000) OR (drop_bit 24 x AND 0x0000000000ff0000) OR
     (drop_bit 40 x AND 0x000000000000ff00) OR (drop_bit 56 x AND 0x00000000000000ff)"

definition CUDA_XXH_readLE64 :: "bytes \<Rightarrow> 64 word" where
  "CUDA_XXH_readLE64 p = (if CUDA_XXH_CPU_LITTLE_ENDIAN then CUDA_XXH_read64 p else CUDA_XXH_swap64 (CUDA_XXH_read64 p))"

definition bytes_of :: "64 word \<Rightarrow> bytes" where
  "bytes_of x = map (\<lambda>i. ucast (drop_bit (8 * i) x)) [0..<8]"

definition CUDA_XXH_writeLE64 :: "64 word \<Rightarrow> bytes" where
  "CUDA_XXH_writeLE64 v64 = (let v64 = (if \<not> CUDA_XXH_CPU_LITTLE_ENDIAN then CUDA_XXH_swap64 v64 else v64) in bytes_of v64)"

section \<open>Mixing\<close>

definition CUDA_XXH3_mix2Accs :: "64 word list \<Rightarrow> bytes \<Rightarrow> 64 word" where
  "CUDA_XXH3_mix2Accs acc secret =
     CUDA_XXH3_mul128_fold64 (acc ! 0 XOR CUDA_XXH_readLE64 secret) (acc ! 1 XOR CUDA_XXH_readLE64 (drop 8 secret))"

definition CUDA_XXH_xorshift64 :: "64 word \<Rightarrow> nat \<Rightarrow> 64 word" where
  "CUDA_XXH_xorshift64 v64 shift = v64 XOR drop_bit shift v64"

definition CUDA_XXH3_avalanche :: "64 word \<Rightarrow> 64 word" where
  "CUDA_XXH3_avalanche h64 =
     (let h64 = CUDA_XXH_xorshift64 h64 37; h64 = h64 * 0x165667919E3779F9 in CUDA_XXH_xorshift64 h64 32)"

definition CUDA_XXH64_avalanche :: "64 word \<Rightarrow> 64 word" where
  "CUDA_XXH64_avalanche h64 =
     (let h64 = h64 XOR drop_bit 33 h64; h64 = h64 * CUDA_XXH_PRIME64_2; h64 = h64 XOR drop_bit 29 h64;
          h64 = h64 * CUDA_XXH_PRIME64_3
      in h64 XOR drop_bit 32 h64)"

definition CUDA_XXH3_mergeAccs :: "64 word list \<Rightarrow> bytes \<Rightarrow> 64 word \<Rightarrow> 64 word" where
  "CUDA_XXH3_mergeAccs acc secret start =
     CUDA_XXH3_avalanche
       (fold (\<lambda>i result64. result64 + CUDA_XXH3_mix2Accs (drop (2 * i) acc) (drop (16 * i) secret)) [0..<4] start)"

section \<open>Long keys\<close>

definition CUDA_XXH_STRIPE_LEN :: nat where "CUDA_XXH_STRIPE_LEN = 64"
definition CUDA_XXH_SECRET_CONSUME_RATE :: nat where "CUDA_XXH_SECRET_CONSUME_RATE = 8"
definition CUDA_XXH_ACC_NB :: nat where "CUDA_XXH_ACC_NB = CUDA_XXH_STRIPE_LEN div 8"

type_synonym accumulate_512 = "64 word list \<Rightarrow> bytes \<Rightarrow> bytes \<Rightarrow> 64 word list"
type_synonym scrambleAcc = "64 word list \<Rightarrow> bytes \<Rightarrow> 64 word list"

definition CUDA_XXH3_accumulate :: "64 word list \<Rightarrow> bytes \<Rightarrow> bytes \<Rightarrow> nat \<Rightarrow> accumulate_512 \<Rightarrow> 64 word list" where
  "CUDA_XXH3_accumulate acc input secret nbStripes f_acc512 =
     fold (\<lambda>n acc. f_acc512 acc (drop (n * CUDA_XXH_STRIPE_LEN) input) (drop (n * CUDA_XXH_SECRET_CONSUME_RATE) secret))
       [0..<nbStripes] acc"

definition CUDA_XXH3_hashLong_internal_loop :: "64 word list \<Rightarrow> bytes \<Rightarrow> nat \<Rightarrow> bytes \<Rightarrow> nat \<Rightarrow> accumulate_512 \<Rightarrow> scrambleAcc \<Rightarrow> 64 word list" where
  "CUDA_XXH3_hashLong_internal_loop acc input len secret secretSize f_acc512 f_scramble =
     (let nbStripesPerBlock = (secretSize - CUDA_XXH_STRIPE_LEN) div CUDA_XXH_SECRET_CONSUME_RATE;
          block_len = CUDA_XXH_STRIPE_LEN * nbStripesPerBlock;
          nb_blocks = (len - 1) div block_len;
          acc = fold (\<lambda>n acc. f_scramble (CUDA_XXH3_accumulate acc (drop (n * block_len) input) secret nbStripesPerBlock f_acc512)
                  (drop (secretSize - CUDA_XXH_STRIPE_LEN) secret)) [0..<nb_blocks] acc;
          nbStripes = ((len - 1) - block_len * nb_blocks) div CUDA_XXH_STRIPE_LEN;
          acc = CUDA_XXH3_accumulate acc (drop (nb_blocks * block_len) input) secret nbStripes f_acc512;
          p = drop (len - CUDA_XXH_STRIPE_LEN) input
      in f_acc512 acc p (drop (secretSize - CUDA_XXH_STRIPE_LEN - 7) secret))"

definition CUDA_XXH3_INIT_ACC :: "64 word list" where
  "CUDA_XXH3_INIT_ACC =
     [ucast CUDA_XXH_PRIME32_3, CUDA_XXH_PRIME64_1, CUDA_XXH_PRIME64_2, CUDA_XXH_PRIME64_3,
      CUDA_XXH_PRIME64_4, ucast CUDA_XXH_PRIME32_2, CUDA_XXH_PRIME64_5, ucast CUDA_XXH_PRIME32_1]"

definition CUDA_XXH3_hashLong_64b_internal :: "bytes \<Rightarrow> nat \<Rightarrow> bytes \<Rightarrow> nat \<Rightarrow> accumulate_512 \<Rightarrow> scrambleAcc \<Rightarrow> 64 word" where
  "CUDA_XXH3_hashLong_64b_internal input len secret secretSize f_acc512 f_scramble =
     (let acc = CUDA_XXH3_hashLong_internal_loop CUDA_XXH3_INIT_ACC input len secret secretSize f_acc512 f_scramble
      in CUDA_XXH3_mergeAccs acc (drop 11 secret) (of_nat len * CUDA_XXH_PRIME64_1))"

definition CUDA_XXH3_hashLong_64b_withSeed_internal :: "bytes \<Rightarrow> nat \<Rightarrow> 64 word \<Rightarrow> accumulate_512 \<Rightarrow> scrambleAcc \<Rightarrow> (64 word \<Rightarrow> bytes) \<Rightarrow> 64 word" where
  "CUDA_XXH3_hashLong_64b_withSeed_internal input len seed f_acc512 f_scramble f_initSec =
     (if seed = 0 then CUDA_XXH3_hashLong_64b_internal input len CUDA_XXH3_kSecret (length CUDA_XXH3_kSecret) f_acc512 f_scramble
      else let secret = f_initSec seed in CUDA_XXH3_hashLong_64b_internal input len secret (length secret) f_acc512 f_scramble)"

definition CUDA_XXH3_accumulate_512_scalar :: accumulate_512 where
  "CUDA_XXH3_accumulate_512_scalar acc input secret =
     fold (\<lambda>i acc.
         let data_val = CUDA_XXH_readLE64 (drop (8 * i) input);
             data_key = data_val XOR CUDA_XXH_readLE64 (drop (i * 8) secret);
             acc = acc[i XOR 1 := acc ! (i XOR 1) + data_val]
         in acc[i := acc ! i + CUDA_XXH_mult32to64 (data_key AND 0xFFFFFFFF) (drop_bit 32 data_key)])
       [0..<CUDA_XXH_ACC_NB] acc"

definition CUDA_XXH3_scrambleAcc_scalar :: scrambleAcc where
  "CUDA_XXH3_scrambleAcc_scalar acc secret =
     fold (\<lambda>i acc.
         let key64 = CUDA_XXH_readLE64 (drop (8 * i) secret);
             acc64 = CUDA_XXH_xorshift64 (acc ! i) 47;
             acc64 = acc64 XOR key64;
             acc64 = acc64 * ucast CUDA_XXH_PRIME32_1
         in acc[i := acc64])
       [0..<CUDA_XXH_ACC_NB] acc"

definition CUDA_XXH3_initCustomSecret_scalar :: "64 word \<Rightarrow> bytes" where
  "CUDA_XXH3_initCustomSecret_scalar seed64 =
     concat (map (\<lambda>i.
         let lo = CUDA_XXH_readLE64 (drop (16 * i) CUDA_XXH3_kSecret) + seed64;
             hi = CUDA_XXH_readLE64 (drop (16 * i + 8) CUDA_XXH3_kSecret) - seed64
         in CUDA_XXH_writeLE64 lo @ CUDA_XXH_writeLE64 hi)
       [0..<length CUDA_XXH3_kSecret div 16])"

definition CUDA_XXH3_hashLong_64b_withSeed :: "bytes \<Rightarrow> nat \<Rightarrow> 64 word \<Rightarrow> bytes \<Rightarrow> nat \<Rightarrow> 64 word" where
  "CUDA_XXH3_hashLong_64b_withSeed input len seed secret secretLen =
     CUDA_XXH3_hashLong_64b_withSeed_internal input len seed
       CUDA_XXH3_accumulate_512_scalar CUDA_XXH3_scrambleAcc_scalar CUDA_XXH3_initCustomSecret_scalar"

section \<open>Short keys\<close>

definition CUDA_XXH3_rrmxmx :: "64 word \<Rightarrow> 64 word \<Rightarrow> 64 word" where
  "CUDA_XXH3_rrmxmx h64 len =
     (let h64 = h64 XOR (CUDA_XXH_rotl64 h64 49 XOR CUDA_XXH_rotl64 h64 24);
          h64 = h64 * 0x9FB21C651E98DF25;
          h64 = h64 XOR (drop_bit 35 h64 + len);
          h64 = h64 * 0x9FB21C651E98DF25
      in CUDA_XXH_xorshift64 h64 28)"

definition CUDA_XXH3_len_1to3_64b :: "bytes \<Rightarrow> nat \<Rightarrow> bytes \<Rightarrow> 64 word \<Rightarrow> 64 word" where
  "CUDA_XXH3_len_1to3_64b input len secret seed =
     (let c1 = input ! 0; c2 = input ! (len div 2); c3 = input ! (len - 1);
          combined = push_bit 16 (ucast c1 :: 32 word) OR push_bit 24 (ucast c2) OR push_bit 0 (ucast c3) OR push_bit 8 (of_nat len);
          bitflip = ucast (CUDA_XXH_readLE32 secret XOR CUDA_XXH_readLE32 (drop 4 secret)) + seed;
          keyed = ucast combined XOR bitflip
      in CUDA_XXH64_avalanche keyed)"

definition CUDA_XXH3_len_4to8_64b :: "bytes \<Rightarrow> nat \<Rightarrow> bytes \<Rightarrow> 64 word \<Rightarrow> 64 word" where
  "CUDA_XXH3_len_4to8_64b input len secret seed =
     (let seed = seed XOR push_bit 32 (ucast (CUDA_XXH_swap32 (ucast seed)));
          input1 = CUDA_XXH_readLE32 input;
          input2 = CUDA_XXH_readLE32 (drop (len - 4) input);
          bitflip = (CUDA_XXH_readLE64 (drop 8 secret) XOR CUDA_XXH_readLE64 (drop 16 secret)) - seed;
          input64 = ucast input2 + push_bit 32 (ucast input1);
          keyed = input64 XOR bitflip
      in CUDA_XXH3_rrmxmx keyed (of_nat len))"

definition CUDA_XXH3_len_9to16_64b :: "bytes \<Rightarrow> nat \<Rightarrow> bytes \<Rightarrow> 64 word \<Rightarrow> 64 word" where
  "CUDA_XXH3_len_9to16_64b input len secret seed =
     (let bitflip1 = (CUDA_XXH_readLE64 (drop 24 secret) XOR CUDA_XXH_readLE64 (drop 32 secret)) + seed;
          bitflip2 = (CUDA_XXH_readLE64 (drop 40 secret) XOR CUDA_XXH_readLE64 (drop 48 secret)) - seed;
          input_lo = CUDA_XXH_readLE64 input XOR bitflip1;
          input_hi = CUDA_XXH_readLE64 (drop (len - 8) input) XOR bitflip2;
          acc = of_nat len + CUDA_XXH_swap64 input_lo + input_hi + CUDA_XXH3_mul128_fold64 input_lo input_hi
      in CUDA_XXH3_avalanche acc)"

definition CUDA_XXH3_len_0to16_64b :: "bytes \<Rightarrow> nat \<Rightarrow> bytes \<Rightarrow> 64 word \<Rightarrow> 64 word" where
  "CUDA_XXH3_len_0to16_64b input len secret seed =
     (if len > 8 then CUDA_XXH3_len_9to16_64b input len secret seed
      else if len \<ge> 4 then CUDA_XXH3_len_4to8_64b input len secret seed
      else if len \<noteq> 0 then CUDA_XXH3_len_1to3_64b input len secret seed
      else CUDA_XXH64_avalanche (seed XOR (CUDA_XXH_readLE64 (drop 56 secret) XOR CUDA_XXH_readLE64 (drop 64 secret))))"

definition CUDA_XXH3_mix16B :: "bytes \<Rightarrow> bytes \<Rightarrow> 64 word \<Rightarrow> 64 word" where
  "CUDA_XXH3_mix16B input secret seed64 =
     (let input_lo = CUDA_XXH_readLE64 input; input_hi = CUDA_XXH_readLE64 (drop 8 input)
      in CUDA_XXH3_mul128_fold64 (input_lo XOR (CUDA_XXH_readLE64 secret + seed64))
           (input_hi XOR (CUDA_XXH_readLE64 (drop 8 secret) - seed64)))"

definition CUDA_XXH3_len_17to128_64b :: "bytes \<Rightarrow> nat \<Rightarrow> bytes \<Rightarrow> nat \<Rightarrow> 64 word \<Rightarrow> 64 word" where
  "CUDA_XXH3_len_17to128_64b input len secret secretSize seed =
     (let mix = (\<lambda>i s acc. acc + CUDA_XXH3_mix16B (drop i input) (drop s secret) seed);
          acc = of_nat len * CUDA_XXH_PRIME64_1;
          acc = (if len > 32 then
                   let acc = (if len > 64 then
                                let acc = (if len > 96 then mix (len - 64) 112 (mix 48 96 acc) else acc)
                                in mix (len - 48) 80 (mix 32 64 acc)
                              else acc)
                   in mix (len - 32) 48 (mix 16 32 acc)
                 else acc)
      in CUDA_XXH3_avalanche (mix (len - 16) 16 (mix 0 0 acc)))"

definition CUDA_XXH3_MIDSIZE_MAX :: nat where "CUDA_XXH3_MIDSIZE_MAX = 240"

definition CUDA_XXH3_len_129to240_64b :: "bytes \<Rightarrow> nat \<Rightarrow> bytes \<Rightarrow> nat \<Rightarrow> 64 word \<Rightarrow> 64 word" where
  "CUDA_XXH3_len_129to240_64b input len secret secretSize seed =
     (let mix = (\<lambda>i s acc. acc + CUDA_XXH3_mix16B (drop i input) (drop s secret) seed);
          acc = of_nat len * CUDA_XXH_PRIME64_1;
          nbRounds = len div 16;
          acc = fold (\<lambda>i. mix (16 * i) (16 * i)) [0..<8] acc;
          acc = CUDA_XXH3_avalanche acc;
          acc = fold (\<lambda>i. mix (16 * i) (16 * (i - 8) + 3)) [8..<nbRounds] acc;
          acc = mix (len - 16) (136 - 17) acc
      in CUDA_XXH3_avalanche acc)"

definition CUDA_XXH3_64bits_internal :: "bytes \<Rightarrow> nat \<Rightarrow> 64 word \<Rightarrow> bytes \<Rightarrow> nat \<Rightarrow>
    (bytes \<Rightarrow> nat \<Rightarrow> 64 word \<Rightarrow> bytes \<Rightarrow> nat \<Rightarrow> 64 word) \<Rightarrow> 64 word" where
  "CUDA_XXH3_64bits_internal input len seed64 secret secretLen f_hashLong =
     (if len \<le> 16 then CUDA_XXH3_len_0to16_64b input len secret seed64
      else if len \<le> 128 then CUDA_XXH3_len_17to128_64b input len secret secretLen seed64
      else if len \<le> CUDA_XXH3_MIDSIZE_MAX then CUDA_XXH3_len_129to240_64b input len secret secretLen seed64
      else f_hashLong input len seed64 secret secretLen)"

definition CUDA_XXH64 :: "bytes \<Rightarrow> nat \<Rightarrow> 64 word \<Rightarrow> 64 word" where
  "CUDA_XXH64 input len seed =
     CUDA_XXH3_64bits_internal input len seed CUDA_XXH3_kSecret (length CUDA_XXH3_kSecret) CUDA_XXH3_hashLong_64b_withSeed"

text \<open>The call of the kernels: \<^verbatim>\<open>CUDA_XXH64(&update_idx, sizeof(vec_t), seed)\<close>.\<close>

definition cuda_xxh :: xxh where
  "cuda_xxh update_idx seed = CUDA_XXH64 (bytes_of update_idx) 8 seed"

end
