(* ===== verification/Cuda_Kernel.thy ===== *)
theory Cuda_Kernel
  imports Interleaving MC_Sketch_Alg Xxhash64
begin

text \<open>
  The GPU kernels (src/cuda_kernel.cu). A launch runs \<open>num_blocks\<close> blocks of \<open>num_threads\<close> threads; the
  block with index \<open>b\<close> sketches the batch number \<open>b\<close> in the memory that its threads share, and then moves
  the sketch to global memory: the default kernel into slot \<open>b\<close> of \<^verbatim>\<open>d_buckets\<close>, the UVM kernel by atomic
  XORs into the sketch of the vertex. Between two \<^verbatim>\<open>__syncthreads\<close> the threads of a block interleave
  arbitrarily, and so do the final stores of all blocks of a launch; the shared memory of a block is
  not visible to other blocks.

  The kernels XOR into \<^verbatim>\<open>gamma\<close> through a pointer to a 64-bit integer, so \<^verbatim>\<open>vec_hash_t\<close> has 64 bits here.
  The loop counters are \<^verbatim>\<open>int\<close>: a launch whose counters would exceed \<open>2^31 - 1\<close>, or that would touch an
  element outside an array, is \<open>Undefined\<close>.
\<close>

section \<open>Device functions\<close>

text \<open>The loop of the device function \<^verbatim>\<open>ctzll\<close>, and its whole.\<close>

function shift_count :: "64 word \<Rightarrow> nat \<Rightarrow> nat" where
  "shift_count v c = (if v = 0 then c else shift_count (drop_bit 1 v) (c + 1))"
  by pat_completeness auto
termination
proof (relation "measure (\<lambda>(v, c). unat v)", goal_cases)
  case (2 v c)
  then have "0 < unat v" by (simp add: unat_gt_0)
  then show ?case by (simp add: drop_bit_eq_div unat_div)
qed simp

declare shift_count.simps [simp del]

definition device_ctzll :: "col_hash_t \<Rightarrow> nat" where
  "device_ctzll v = (if v \<noteq> 0 then shift_count (drop_bit 1 (v XOR (v - 1))) 0 else 64)"

text \<open>The intrinsic \<^verbatim>\<open>__ffsll\<close>: one more than the position of the lowest set bit, and zero for zero.\<close>

definition ffsll :: "64 word \<Rightarrow> nat" where
  "ffsll v = (if v = 0 then 0 else ctzll v + 1)"

definition bucket_get_index_depth :: "vec_t \<Rightarrow> seed_t \<Rightarrow> nat \<Rightarrow> col_hash_t" where
  "bucket_get_index_depth update_idx seed_and_col max_depth =
     (let depth_hash = cuda_xxh update_idx seed_and_col;
          depth_hash = depth_hash OR push_bit max_depth 1
      in of_nat (ffsll depth_hash) - 1)"

definition bucket_get_index_hash :: "vec_t \<Rightarrow> seed_t \<Rightarrow> 64 word" where
  "bucket_get_index_hash update_idx seed = cuda_xxh update_idx seed"

definition bucket_is_good :: "vec_t \<Rightarrow> 64 word \<Rightarrow> seed_t \<Rightarrow> bool" where
  "bucket_is_good a c seed \<longleftrightarrow> c = bucket_get_index_hash a seed"

definition device_concat_pairing_fn :: "32 word \<Rightarrow> 32 word \<Rightarrow> vec_t" where
  "device_concat_pairing_fn i j =
     (if i > j then push_bit 32 (ucast j) OR ucast i else push_bit 32 (ucast i) OR ucast j)"

section \<open>A block\<close>

record block_mem =
  bucket_a :: "64 word list"
  bucket_c :: "64 word list"

datatype smem_op = StoreA nat "64 word" | StoreC nat "64 word" | XorA nat "64 word" | XorC nat "64 word"

fun smem_step :: "smem_op \<Rightarrow> block_mem \<Rightarrow> block_mem" where
  "smem_step (StoreA i v) m = m\<lparr>bucket_a := (bucket_a m)[i := v]\<rparr>"
| "smem_step (StoreC i v) m = m\<lparr>bucket_c := (bucket_c m)[i := v]\<rparr>"
| "smem_step (XorA i v) m = m\<lparr>bucket_a := (bucket_a m)[i := bucket_a m ! i XOR v]\<rparr>"
| "smem_step (XorC i v) m = m\<lparr>bucket_c := (bucket_c m)[i := bucket_c m ! i XOR v]\<rparr>"

fun smem_idx :: "smem_op \<Rightarrow> nat" where
  "smem_idx (StoreA i v) = i" | "smem_idx (StoreC i v) = i" | "smem_idx (XorA i v) = i" | "smem_idx (XorC i v) = i"

definition bucket_update :: "nat \<Rightarrow> vec_t \<Rightarrow> 64 word \<Rightarrow> smem_op list" where
  "bucket_update i update_idx update_hash = [XorA i update_idx, XorC i update_hash]"

definition init_prog :: "nat \<Rightarrow> nat \<Rightarrow> nat \<Rightarrow> smem_op list" where
  "init_prog nb blockDim threadIdx = concat (map (\<lambda>i. [StoreA i 0, StoreC i 0]) (strided threadIdx blockDim nb))"

text \<open>One iteration of the update loop: update \<^verbatim>\<open>id / num_columns\<close> in column \<^verbatim>\<open>id % num_columns\<close>.\<close>

definition update_item :: "SketchParams \<Rightarrow> nat \<Rightarrow> nat \<Rightarrow> nat list \<Rightarrow> nat \<Rightarrow> smem_op list" where
  "update_item sp src start edgeUpdates i =
     (let column_id = i mod skp_num_columns sp;
          update_id = i div skp_num_columns sp;
          edge = device_concat_pairing_fn (of_nat src) (of_nat (edgeUpdates ! (start + update_id)));
          checksum = bucket_get_index_hash edge (skp_seed sp);
          depth = bucket_get_index_depth edge (skp_seed sp + of_nat (column_id * 5)) (skp_bkt_per_col sp);
          bucket_id = column_id * skp_bkt_per_col sp + unat depth
      in (if column_id = 0 then bucket_update (skp_num_buckets sp - 1) edge checksum else []) @
         (if unat depth < skp_bkt_per_col sp then bucket_update bucket_id edge checksum else []))"

definition update_prog :: "SketchParams \<Rightarrow> nat \<Rightarrow> nat \<Rightarrow> nat \<Rightarrow> nat list \<Rightarrow> nat \<Rightarrow> nat \<Rightarrow> smem_op list" where
  "update_prog sp src update_size start edgeUpdates blockDim threadIdx =
     concat (map (update_item sp src start edgeUpdates) (strided threadIdx blockDim (update_size * skp_num_columns sp)))"

text \<open>What the hardware decides for a block: the two schedules and the first contents of its shared memory.\<close>

record block_env =
  init_sched :: "nat list"
  update_sched :: "nat list"
  init_a :: "nat \<Rightarrow> 64 word"
  init_c :: "nat \<Rightarrow> 64 word"

definition int_loop_ok :: "nat \<Rightarrow> nat \<Rightarrow> bool" where
  "int_loop_ok bound blockDim \<longleftrightarrow> bound + blockDim \<le> 2 ^ 31"

definition block_sketch :: "block_env \<Rightarrow> SketchParams \<Rightarrow> nat \<Rightarrow> nat \<Rightarrow> nat \<Rightarrow> nat \<Rightarrow> nat list \<Rightarrow> error + block_mem" where
  "block_sketch env sp blockDim src update_size start edgeUpdates =
     (let nb = skp_num_buckets sp;
          mem = \<lparr>bucket_a = map (init_a env) [0..<nb], bucket_c = map (init_c env) [0..<nb]\<rparr>;
          init = map (init_prog nb blockDim) [0..<blockDim];
          upd = map (update_prog sp src update_size start edgeUpdates blockDim) [0..<blockDim]
      in if \<not> int_loop_ok nb blockDim \<or> \<not> int_loop_ok (update_size * skp_num_columns sp) blockDim \<or>
            0 < update_size * skp_num_columns sp \<and> (\<not> skp_bkt_per_col sp < 64 \<or> start + update_size > length edgeUpdates) \<or>
            (\<exists>p\<in>set upd. \<exists>a\<in>set p. \<not> smem_idx a < nb)
         then Inl Undefined
         else Inr (run_threads smem_step (update_sched env) upd (run_threads smem_step (init_sched env) init mem)))"

section \<open>Global memory\<close>

datatype gmem_op = SetAlpha nat "64 word" | SetGamma nat "64 word" | XorAlpha nat "64 word" | XorGamma nat "64 word"

fun gmem_step :: "gmem_op \<Rightarrow> 64 word Bucket list \<Rightarrow> 64 word Bucket list" where
  "gmem_step (SetAlpha i v) bs = bs[i := (bs ! i)\<lparr>alpha := v\<rparr>]"
| "gmem_step (SetGamma i v) bs = bs[i := (bs ! i)\<lparr>gamma := v\<rparr>]"
| "gmem_step (XorAlpha i v) bs = bs[i := (bs ! i)\<lparr>alpha := alpha (bs ! i) XOR v\<rparr>]"
| "gmem_step (XorGamma i v) bs = bs[i := (bs ! i)\<lparr>gamma := gamma (bs ! i) XOR v\<rparr>]"

definition store_prog :: "nat \<Rightarrow> nat \<Rightarrow> block_mem \<Rightarrow> nat \<Rightarrow> nat \<Rightarrow> gmem_op list" where
  "store_prog nb slot m blockDim threadIdx =
     concat (map (\<lambda>i. [SetAlpha (slot * nb + i) (bucket_a m ! i), SetGamma (slot * nb + i) (bucket_c m ! i)])
       (strided threadIdx blockDim nb))"

definition xor_prog :: "nat \<Rightarrow> nat \<Rightarrow> block_mem \<Rightarrow> nat \<Rightarrow> nat \<Rightarrow> gmem_op list" where
  "xor_prog nb src m blockDim threadIdx =
     concat (map (\<lambda>i. [XorAlpha (src * nb + i) (bucket_a m ! i), XorGamma (src * nb + i) (bucket_c m ! i)])
       (strided threadIdx blockDim nb))"

section \<open>Launches\<close>

text \<open>The arrays of a launch: per batch its source vertex, size and first position in \<^verbatim>\<open>edgeUpdates\<close>.\<close>

record launch_args =
  update_src :: "nat list"
  update_sizes :: "nat list"
  update_start_index :: "nat list"
  edge_updates :: "nat list"

record launch_env =
  block_envs :: "nat \<Rightarrow> block_env"
  gmem_sched :: "nat list"

fun sum_map :: "('a \<Rightarrow> 'e + 'b) \<Rightarrow> 'a list \<Rightarrow> 'e + 'b list" where
  "sum_map f [] = Inr []"
| "sum_map f (x # xs) = (case f x of Inl e \<Rightarrow> Inl e | Inr y \<Rightarrow> (case sum_map f xs of Inl e \<Rightarrow> Inl e | Inr ys \<Rightarrow> Inr (y # ys)))"

definition batch_sketch :: "launch_env \<Rightarrow> SketchParams \<Rightarrow> nat \<Rightarrow> launch_args \<Rightarrow> nat \<Rightarrow> error + block_mem" where
  "batch_sketch env sp blockDim args b =
     (if b < length (update_src args) \<and> b < length (update_sizes args) \<and> b < length (update_start_index args)
      then block_sketch (block_envs env b) sp blockDim (update_src args ! b) (update_sizes args ! b)
             (update_start_index args ! b) (edge_updates args)
      else Inl Undefined)"

definition sketchUpdate_UVM_kernel :: "launch_env \<Rightarrow> nat \<Rightarrow> nat \<Rightarrow> launch_args \<Rightarrow> SketchParams \<Rightarrow>
    64 word Bucket list \<Rightarrow> error + 64 word Bucket list" where
  "sketchUpdate_UVM_kernel env num_blocks num_threads args sp bs =
     (let nb = skp_num_buckets sp
      in case sum_map (batch_sketch env sp num_threads args) [0..<num_blocks] of
           Inl e \<Rightarrow> Inl e
         | Inr mems \<Rightarrow>
             if \<exists>b<num_blocks. (update_src args ! b + 1) * nb > length bs then Inl Undefined
             else Inr (run_threads gmem_step (gmem_sched env)
               (concat (map (\<lambda>b. map (xor_prog nb (update_src args ! b) (mems ! b) num_threads) [0..<num_threads]) [0..<num_blocks])) bs))"

definition sketchUpdate_default_kernel :: "launch_env \<Rightarrow> nat \<Rightarrow> nat \<Rightarrow> launch_args \<Rightarrow> SketchParams \<Rightarrow>
    64 word Bucket list \<Rightarrow> error + 64 word Bucket list" where
  "sketchUpdate_default_kernel env num_blocks num_threads args sp bs =
     (let nb = skp_num_buckets sp
      in case sum_map (batch_sketch env sp num_threads args) [0..<num_blocks] of
           Inl e \<Rightarrow> Inl e
         | Inr mems \<Rightarrow>
             if num_blocks * nb > length bs then Inl Undefined
             else Inr (run_threads gmem_step (gmem_sched env)
               (concat (map (\<lambda>b. map (store_prog nb b (mems ! b) num_threads) [0..<num_threads]) [0..<num_blocks])) bs))"

text \<open>\<^verbatim>\<open>CudaKernel::sketchUpdate\<close>: the bucket array is \<^verbatim>\<open>cudaUVM_buckets\<close> or \<^verbatim>\<open>d_buckets\<close>. A launch without
  blocks or threads is an invalid configuration: it does not run, and its error is not looked at.\<close>

definition sketchUpdate :: "launch_env \<Rightarrow> nat \<Rightarrow> nat \<Rightarrow> launch_args \<Rightarrow> SketchParams \<Rightarrow>
    64 word Bucket list \<Rightarrow> error + 64 word Bucket list" where
  "sketchUpdate env num_threads num_blocks args sp bs =
     (if num_threads = 0 \<or> num_blocks = 0 then Inr bs
      else if cudaUVM_enabled sp then sketchUpdate_UVM_kernel env num_blocks num_threads args sp bs
      else sketchUpdate_default_kernel env num_blocks num_threads args sp bs)"

text \<open>The kernels for a whole stream in one launch: the UVM kernel has a block per batch, in the default
  kernel the blocks divide the batches (the thread ids of the \<^verbatim>\<open>for\<close> loop over \<^verbatim>\<open>batch_id\<close>).\<close>

definition single_sketchUpdate_UVM_kernel :: "launch_env \<Rightarrow> nat \<Rightarrow> nat \<Rightarrow> launch_args \<Rightarrow> SketchParams \<Rightarrow>
    64 word Bucket list \<Rightarrow> error + 64 word Bucket list" where
  "single_sketchUpdate_UVM_kernel env num_blocks num_threads args sp bs =
     (let nb = skp_num_buckets sp
      in case sum_map (batch_sketch env sp num_threads args) [0..<num_blocks] of
           Inl e \<Rightarrow> Inl e
         | Inr mems \<Rightarrow>
             if \<exists>b<num_blocks. (update_src args ! b + 1) * nb > length bs then Inl Undefined
             else Inr (run_threads gmem_step (gmem_sched env)
               (concat (map (\<lambda>b. map (xor_prog nb (update_src args ! b) (mems ! b) num_threads) [0..<num_threads]) [0..<num_blocks])) bs))"

definition single_sketchUpdate_default_kernel :: "launch_env \<Rightarrow> nat \<Rightarrow> nat \<Rightarrow> nat \<Rightarrow> launch_args \<Rightarrow> SketchParams \<Rightarrow>
    64 word Bucket list \<Rightarrow> error + 64 word Bucket list" where
  "single_sketchUpdate_default_kernel env num_blocks num_batches num_threads args sp bs =
     (let nb = skp_num_buckets sp
      in case sum_map (batch_sketch env sp num_threads args) [0..<num_batches] of
           Inl e \<Rightarrow> Inl e
         | Inr mems \<Rightarrow>
             if num_batches * nb > length bs then Inl Undefined
             else Inr (run_threads gmem_step (gmem_sched env)
               (concat (map (\<lambda>b. map (\<lambda>t. concat (map (\<lambda>batch_id. store_prog nb batch_id (mems ! batch_id) num_threads t)
                    (strided b num_blocks num_batches))) [0..<num_threads]) [0..<num_blocks])) bs))"

definition single_sketchUpdate :: "launch_env \<Rightarrow> nat \<Rightarrow> nat \<Rightarrow> nat \<Rightarrow> launch_args \<Rightarrow> SketchParams \<Rightarrow>
    64 word Bucket list \<Rightarrow> error + 64 word Bucket list" where
  "single_sketchUpdate env num_threads num_blocks num_batches args sp bs =
     (if num_threads = 0 \<or> num_blocks = 0 then Inr bs
      else if cudaUVM_enabled sp then single_sketchUpdate_UVM_kernel env num_blocks num_threads args sp bs
      else single_sketchUpdate_default_kernel env num_blocks num_batches num_threads args sp bs)"

end
