(* ===== verification/Cuda_Kernel_Correctness.thy ===== *)
theory Cuda_Kernel_Correctness
  imports Cuda_Kernel
begin

text \<open>
  The kernels compute the sketches of the host code. The operations of the threads between two barriers
  commute, so the schedule does not matter (interpretations of \<open>commuting_ops\<close>); in the order of the
  loop counter they are the updates of \<open>Sketch_update\<close>, one update after the other.
\<close>

section \<open>Device functions\<close>

lemma device_concat_pairing: "device_concat_pairing_fn i j = concat_pairing_fn i j"
  by (auto simp: device_concat_pairing_fn_def concat_pairing_fn_def)

lemma device_edge_id: "device_concat_pairing_fn (of_nat src) (of_nat dst) = edge_id src dst"
  by (simp add: device_concat_pairing edge_id_def)

lemma get_index_depth_le: "m < 64 \<Longrightarrow> get_index_depth xxh x s m \<le> m"
  by (simp add: get_index_depth_alt Least_le)

lemma bucket_get_index_depth_host:
  assumes "m < 64"
  shows "unat (bucket_get_index_depth x s m) = get_index_depth cuda_xxh x s m"
proof -
  let ?h = "cuda_xxh x s OR push_bit m 1"
  have "bit ?h m" using assms by (simp add: bit_simps)
  then have "?h \<noteq> 0" by (metis bit_0_eq bot_apply bot_bool_def)
  then have "bucket_get_index_depth x s m = of_nat (get_index_depth cuda_xxh x s m)"
    by (simp add: bucket_get_index_depth_def get_index_depth_def Let_def ffsll_def)
  moreover have "get_index_depth cuda_xxh x s m < 2 ^ 64" using get_index_depth_le [OF assms, of cuda_xxh x s] assms by simp
  ultimately show ?thesis by (simp add: unat_of_nat)
qed

lemma shift_count_mask: "k \<le> 64 \<Longrightarrow> shift_count (mask k) c = c + k"
proof (induction k arbitrary: c)
  case (Suc k)
  have "drop_bit 1 (mask (Suc k)) = (mask k :: 64 word)"
    using Suc.prems by (intro bit_word_eqI) (auto simp: bit_drop_bit_eq bit_mask_iff)
  moreover have "(mask (Suc k) :: 64 word) \<noteq> 0"
    by (rule notI) (drule arg_cong [of _ _ "\<lambda>w. bit w 0"], simp add: bit_mask_iff)
  ultimately show ?case using Suc by (subst shift_count.simps) simp
qed (subst shift_count.simps, simp)

lemma xor_pred_mask:
  fixes v :: "64 word"
  assumes "bit v k" "k < 64" "\<And>i. i < k \<Longrightarrow> \<not> bit v i"
  shows "drop_bit 1 (v XOR (v - 1)) = mask k"
proof -
  define q where "q = push_bit (Suc k) (drop_bit (Suc k) v)"
  have v: "v = q OR push_bit k 1"
  proof (rule bit_word_eqI)
    fix n assume "n < LENGTH(64)"
    then show "bit v n \<longleftrightarrow> bit (q OR push_bit k 1) n"
      using assms(1) assms(3) [of n] by (cases n k rule: linorder_cases) (auto simp: q_def bit_simps not_le simp del: push_bit_Suc)
  qed
  have "q OR push_bit k 1 = q + push_bit k 1"
    by (rule disjunctive_add [symmetric]) (auto simp: q_def bit_simps simp del: push_bit_Suc)
  moreover have "push_bit k 1 = (mask k + 1 :: 64 word)" by (simp add: mask_eq_exp_minus_1 push_bit_eq_mult)
  moreover have "q + mask k = q OR mask k"
    by (rule disjunctive_add) (auto simp: q_def bit_simps simp del: push_bit_Suc)
  ultimately have p: "v - 1 = q OR mask k" using v by (simp add: algebra_simps)
  show ?thesis
  proof (rule bit_word_eqI)
    fix n assume n: "n < LENGTH(64)"
    have b: "bit (v XOR (v - 1)) m \<longleftrightarrow> m \<le> k \<and> m < 64" for m
      unfolding p by (subst v) (auto simp: q_def bit_simps simp del: push_bit_Suc)
    show "bit (drop_bit 1 (v XOR (v - 1))) n \<longleftrightarrow> bit (mask k :: 64 word) n"
      using n assms(2) unfolding bit_drop_bit_eq o_def b by (auto simp: bit_mask_iff)
  qed
qed


text \<open>The loop of the device function \<^verbatim>\<open>ctzll\<close> ends and counts the trailing zeros as
  \<^verbatim>\<open>__builtin_ctzll\<close> does on the host, 64 for zero.\<close>

theorem device_ctzll_correct: "device_ctzll v = ctzll v"
proof (cases "v = 0")
  case True
  then show ?thesis by (simp add: device_ctzll_def ctzll_def takeWhile_eq_all_conv [THEN iffD2])
next
  case False
  define k where "k = (LEAST k. bit v k)"
  have ex: "\<exists>k. bit v k" using False by (metis bit_eqI bit_0_eq bot_apply bot_bool_def)
  then have k: "bit v k" unfolding k_def by (rule LeastI_ex)
  have k64: "k < 64" using bit_imp_le_length [OF k] by simp
  have l: "\<And>i. i < k \<Longrightarrow> \<not> bit v i" unfolding k_def by (rule not_less_Least)
  have "device_ctzll v = shift_count (mask k) 0" using False xor_pred_mask [OF k k64 l] by (simp add: device_ctzll_def)
  then show ?thesis using k64 ctzll_bit [OF k k64 l] by (simp add: shift_count_mask)
qed

section \<open>Operations that commute\<close>

definition smem_xors :: "smem_op set" where
  "smem_xors = {XorA i v |i v. True} \<union> {XorC i v |i v. True}"

definition smem_zeros :: "smem_op set" where
  "smem_zeros = {StoreA i 0 |i. True} \<union> {StoreC i 0 |i. True}"

definition gmem_xors :: "gmem_op set" where
  "gmem_xors = {XorAlpha i v |i v. True} \<union> {XorGamma i v |i v. True}"

definition gmem_sets :: "(nat \<Rightarrow> 64 word) \<Rightarrow> (nat \<Rightarrow> 64 word) \<Rightarrow> gmem_op set" where
  "gmem_sets a c = {SetAlpha i (a i) |i. True} \<union> {SetGamma i (c i) |i. True}"

lemma upd_nth_commute:
  assumes "i = j \<Longrightarrow> f (g (xs ! i)) = g (f (xs ! i))"
  shows "xs[j := g (xs ! j), i := f (xs[j := g (xs ! j)] ! i)] = xs[i := f (xs ! i), j := g (xs[i := f (xs ! i)] ! j)]"
  using assms by (cases "i = j"; cases "i < length xs") (simp_all add: list_update_swap list_update_beyond not_less)

lemma xor_right_commute: "(x XOR w) XOR v = (x XOR v) XOR w" for x v w :: "64 word"
  by (simp add: xor.assoc xor.commute [of v w])

lemmas xor_nth_commute = upd_nth_commute [where f = "\<lambda>x. x XOR v" and g = "\<lambda>x. x XOR w" for v w :: "64 word", OF xor_right_commute]

interpretation smem_xor: commuting_ops smem_step smem_xors
  by unfold_locales (auto simp: smem_xors_def xor_nth_commute)

lemma zero_nth_commute: "xs[i := v, j := v] = xs[j := v, i := v]"
  by (cases "i = j") (simp_all add: list_update_swap)

interpretation smem_zero: commuting_ops smem_step smem_zeros
  by unfold_locales (auto simp: smem_zeros_def zero_nth_commute)

text \<open>A step on global memory changes one bucket.\<close>

fun gmem_idx :: "gmem_op \<Rightarrow> nat" where
  "gmem_idx (SetAlpha i v) = i" | "gmem_idx (SetGamma i v) = i" | "gmem_idx (XorAlpha i v) = i" | "gmem_idx (XorGamma i v) = i"

fun gmem_upd :: "gmem_op \<Rightarrow> 64 word Bucket \<Rightarrow> 64 word Bucket" where
  "gmem_upd (SetAlpha i v) b = b\<lparr>alpha := v\<rparr>"
| "gmem_upd (SetGamma i v) b = b\<lparr>gamma := v\<rparr>"
| "gmem_upd (XorAlpha i v) b = b\<lparr>alpha := alpha b XOR v\<rparr>"
| "gmem_upd (XorGamma i v) b = b\<lparr>gamma := gamma b XOR v\<rparr>"

lemma gmem_step_upd: "gmem_step a bs = bs[gmem_idx a := gmem_upd a (bs ! gmem_idx a)]"
  by (cases a) simp_all

lemma gmem_step_commute:
  assumes "gmem_idx a = gmem_idx b \<Longrightarrow> \<forall>x. gmem_upd a (gmem_upd b x) = gmem_upd b (gmem_upd a x)"
  shows "gmem_step a (gmem_step b bs) = gmem_step b (gmem_step a bs)"
  unfolding gmem_step_upd using assms by (intro upd_nth_commute) blast

interpretation gmem_xor: commuting_ops gmem_step gmem_xors
  by unfold_locales (rule gmem_step_commute, auto simp: gmem_xors_def xor_right_commute)

interpretation gmem_set: commuting_ops gmem_step "gmem_sets a c" for a c
  by unfold_locales (rule gmem_step_commute, auto simp: gmem_sets_def)

section \<open>A block\<close>

definition to_buckets :: "block_mem \<Rightarrow> 64 word Bucket list" where
  "to_buckets m = map2 (\<lambda>a c. \<lparr>alpha = a, gamma = c\<rparr>) (bucket_a m) (bucket_c m)"

definition mem_ok :: "nat \<Rightarrow> block_mem \<Rightarrow> bool" where
  "mem_ok nb m \<longleftrightarrow> length (bucket_a m) = nb \<and> length (bucket_c m) = nb"

lemma length_to_buckets [simp]: "mem_ok nb m \<Longrightarrow> length (to_buckets m) = nb"
  by (simp add: to_buckets_def mem_ok_def)

lemma nth_to_buckets: "mem_ok nb m \<Longrightarrow> i < nb \<Longrightarrow> to_buckets m ! i = \<lparr>alpha = bucket_a m ! i, gamma = bucket_c m ! i\<rparr>"
  by (simp add: to_buckets_def mem_ok_def)

lemma smem_step_ok [simp]: "mem_ok nb (smem_step a m) = mem_ok nb m"
  by (cases a) (simp_all add: mem_ok_def)

lemma smem_steps_ok [simp]: "mem_ok nb (fold smem_step as m) = mem_ok nb m"
  by (induction as arbitrary: m) simp_all

lemma zero_mem:
  assumes "mem_ok nb m" "0 < T"
  shows "run_threads smem_step sched (map (init_prog nb T) [0..<T]) m = \<lparr>bucket_a = replicate nb 0, bucket_c = replicate nb 0\<rparr>"
proof -
  let ?f = "\<lambda>i. [StoreA i 0, StoreC i 0]"
  have "fold smem_step (concat (map ?f [0..<k])) m =
      m\<lparr>bucket_a := replicate k 0 @ drop k (bucket_a m), bucket_c := replicate k 0 @ drop k (bucket_c m)\<rparr>" if "k \<le> nb" for k
    using that assms(1)
    by (induction k) (simp_all add: mem_ok_def list_update_append upd_conv_take_nth_drop replicate_app_Cons_same)
  from this [of nb] show ?thesis
    using assms mset_thread_progs [of T ?f nb]
    by (subst smem_zero.run_threads_order [where bs = "concat (map ?f [0..<nb])"])
      (auto simp: init_prog_def [abs_def] mem_ok_def smem_zeros_def)
qed

definition params_match :: "SketchParams \<Rightarrow> 64 word Sketch \<Rightarrow> bool" where
  "params_match sp sk \<longleftrightarrow> sketch_wf sk \<and> 0 < num_columns sk \<and> skp_num_columns sp = num_columns sk \<and>
     skp_num_buckets sp = num_buckets sk \<and> skp_bkt_per_col sp = bkt_per_col sk \<and> skp_seed sp = sketch_seed sk"

lemma bucket_update_mem:
  assumes "mem_ok nb m" "i < nb"
  shows "to_buckets (fold smem_step (bucket_update i x h) m) = (to_buckets m)[i := Bucket_update (to_buckets m ! i) x h]"
proof (rule nth_equalityI)
  have ok: "mem_ok nb (fold smem_step (bucket_update i x h) m)" using assms by simp
  show "length (to_buckets (fold smem_step (bucket_update i x h) m)) = length ((to_buckets m)[i := Bucket_update (to_buckets m ! i) x h])"
    using length_to_buckets [OF ok] assms by simp
  fix j assume "j < length (to_buckets (fold smem_step (bucket_update i x h) m))"
  then have "j < nb" using length_to_buckets [OF ok] by simp
  then show "to_buckets (fold smem_step (bucket_update i x h) m) ! j = (to_buckets m)[i := Bucket_update (to_buckets m ! i) x h] ! j"
    using assms unfolding nth_to_buckets [OF ok \<open>j < nb\<close>]
    by (cases "i = j") (simp_all add: bucket_update_def Bucket_update_def nth_to_buckets [OF assms(1)], simp_all add: mem_ok_def)
qed

lemma update_item_mem:
  assumes p: "params_match sp sk" and m: "mem_ok (num_buckets sk) m" and c: "c < num_columns sk"
    and x: "x = edge_id src (edges ! (start + u))"
  shows "to_buckets (fold smem_step (update_item sp src start edges (u * num_columns sk + c)) m) =
    update_column cuda_xxh sk x (get_index_hash cuda_xxh x (checksum_seed sk)) c
      (if c = 0 then (to_buckets m)[num_buckets sk - 1 := Bucket_update (to_buckets m ! (num_buckets sk - 1)) x
         (get_index_hash cuda_xxh x (checksum_seed sk))] else to_buckets m)"
proof -
  let ?h = "get_index_hash cuda_xxh x (checksum_seed sk)" and ?nb = "num_buckets sk"
  let ?d = "get_index_depth cuda_xxh x (column_seed sk c) (bkt_per_col sk)"
  have sp: "skp_num_columns sp = num_columns sk" "skp_num_buckets sp = ?nb" "skp_bkt_per_col sp = bkt_per_col sk"
    "skp_seed sp = sketch_seed sk" and b: "bkt_per_col sk < 64" and nb: "?nb = num_columns sk * bkt_per_col sk + 1"
    using p by (auto simp: params_match_def sketch_wf_def)
  have i: "update_item sp src start edges (u * num_columns sk + c) =
      (if c = 0 then bucket_update (?nb - 1) x ?h else []) @
      (if ?d < bkt_per_col sk then bucket_update (c * bkt_per_col sk + ?d) x ?h else [])"
    using c by (simp add: update_item_def Let_def sp device_edge_id x [symmetric] bucket_get_index_depth_host [OF b]
      bucket_get_index_hash_def get_index_hash_def column_seed_def checksum_seed_def del: bucket_update_def)
  have d: "c * bkt_per_col sk + ?d < ?nb" if "?d < bkt_per_col sk"
  proof -
    have "c * bkt_per_col sk + ?d < (c + 1) * bkt_per_col sk" using that by simp
    also have "\<dots> \<le> num_columns sk * bkt_per_col sk" using c by (intro mult_le_mono1) simp
    finally show ?thesis by (simp add: nb)
  qed
  have m': "mem_ok ?nb (fold smem_step (bucket_update (?nb - 1) x ?h) m)" using m by simp
  have "?nb - 1 < ?nb" by (simp add: nb)
  then show ?thesis
    unfolding i update_column_def Let_def using d bucket_update_mem [OF m] bucket_update_mem [OF m'] by auto
qed

lemma update_row_mem:
  assumes p: "params_match sp sk" and m: "mem_ok (num_buckets sk) m" and x: "x = edge_id src (edges ! (start + u))"
    and k: "k \<le> num_columns sk" "0 < k"
  shows "to_buckets (fold smem_step (concat (map (\<lambda>c. update_item sp src start edges (u * num_columns sk + c)) [0..<k])) m) =
    fold (update_column cuda_xxh sk x (get_index_hash cuda_xxh x (checksum_seed sk))) [0..<k]
      ((to_buckets m)[num_buckets sk - 1 := Bucket_update (to_buckets m ! (num_buckets sk - 1)) x
         (get_index_hash cuda_xxh x (checksum_seed sk))])"
  using k
proof (induction k)
  case (Suc k)
  let ?m = "fold smem_step (concat (map (\<lambda>c. update_item sp src start edges (u * num_columns sk + c)) [0..<k])) m"
  have "mem_ok (num_buckets sk) ?m" using m by simp
  note item = update_item_mem [OF p this _ x, of k]
  show ?case
    using Suc item by (cases "k = 0") simp_all
qed simp

lemma update_column_frame: "update_column xxh (sk\<lparr>buckets := bs\<rparr>) = update_column xxh sk"
  by (intro ext) (simp add: update_column_def column_seed_def Let_def cong: if_cong)

lemma upt_mult: "[0..<n * k] = concat (map (\<lambda>u. map (\<lambda>c. u * k + c) [0..<k]) [0..<n])"
proof (induction n)
  case (Suc n)
  have "[0..<Suc n * k] = [0..<n * k] @ [n * k..<n * k + k]"
    using upt_add_eq_append [of 0 "n * k" k] by (simp add: add.commute)
  moreover have "[n * k..<n * k + k] = map (\<lambda>c. n * k + c) [0..<k]" by (rule nth_equalityI) simp_all
  ultimately show ?case using Suc by (simp add: o_def)
qed simp

lemma update_prog_mem:
  assumes p: "params_match sp sk" and m: "mem_ok (num_buckets sk) m"
  shows "sk\<lparr>buckets := to_buckets (fold smem_step (concat (map (update_item sp src start edges) [0..<n * num_columns sk])) m)\<rparr> =
    fold (\<lambda>x sk. Sketch_update cuda_xxh sk x) (map (\<lambda>u. edge_id src (edges ! (start + u))) [0..<n]) (sk\<lparr>buckets := to_buckets m\<rparr>)"
proof (induction n)
  case (Suc n)
  let ?ops = "\<lambda>n. concat (map (update_item sp src start edges) [0..<n * num_columns sk])"
  let ?m = "fold smem_step (?ops n) m" and ?x = "edge_id src (edges ! (start + n))"
  let ?row = "concat (map (\<lambda>c. update_item sp src start edges (n * num_columns sk + c)) [0..<num_columns sk])"
  have nc: "0 < num_columns sk" using p by (simp add: params_match_def)
  have ok: "mem_ok (num_buckets sk) ?m" using m by simp
  have ops: "?ops (Suc n) = ?ops n @ ?row"
    unfolding upt_mult [of "Suc n"] upt_mult [of n] by (simp add: o_def)
  have "sk\<lparr>buckets := to_buckets (fold smem_step (?ops (Suc n)) m)\<rparr> = Sketch_update cuda_xxh (sk\<lparr>buckets := to_buckets ?m\<rparr>) ?x"
    unfolding ops using update_row_mem [OF p ok refl order_refl nc, where edges = edges and start = start and u = n and src = src]
    by (simp add: Sketch_update_def Let_def update_column_frame checksum_seed_def)
  then show ?case using Suc by simp
qed simp

text \<open>The sketch of a batch: the updates of the host code from an empty sketch.\<close>

definition delta_buckets :: "64 word Sketch \<Rightarrow> nat \<Rightarrow> nat list \<Rightarrow> 64 word Bucket list" where
  "delta_buckets sk src dsts = buckets (fold (\<lambda>x sk. Sketch_update cuda_xxh sk x) (map (edge_id src) dsts) (zero_contents sk))"

lemma params_match_zero: "params_match sp sk \<Longrightarrow> params_match sp (zero_contents sk)"
  by (auto simp: params_match_def zero_contents_def reset_sample_state_def sketch_wf_def)

lemma update_item_idx:
  assumes "params_match sp sk" "a \<in> set (update_item sp src start edges i)"
  shows "smem_idx a < num_buckets sk"
proof -
  let ?c = "i mod num_columns sk"
  have sp: "skp_num_columns sp = num_columns sk" "skp_num_buckets sp = num_buckets sk" "skp_bkt_per_col sp = bkt_per_col sk"
    and nb: "num_buckets sk = num_columns sk * bkt_per_col sk + 1" and c: "?c < num_columns sk"
    using assms(1) by (auto simp: params_match_def sketch_wf_def)
  have "?c * bkt_per_col sk + d < num_buckets sk" if "d < bkt_per_col sk" for d
  proof -
    have "?c * bkt_per_col sk + d < (?c + 1) * bkt_per_col sk" using that by simp
    also have "\<dots> \<le> num_columns sk * bkt_per_col sk" using c by (intro mult_le_mono1) simp
    finally show ?thesis by (simp add: nb)
  qed
  then show ?thesis
    using assms(2) nb by (auto simp: update_item_def Let_def sp bucket_update_def split: if_splits)
qed

lemma update_item_xors: "set (update_item sp src start edges i) \<subseteq> smem_xors"
  by (auto simp: update_item_def Let_def bucket_update_def smem_xors_def split: if_splits)

lemma block_sketch_correct:
  assumes p: "params_match sp sk" and T: "0 < T" "int_loop_ok (num_buckets sk) T" "int_loop_ok (n * num_columns sk) T"
    and e: "start + n \<le> length edges"
  shows "\<exists>m. block_sketch env sp T src n start edges = Inr m \<and> mem_ok (num_buckets sk) m \<and>
    to_buckets m = delta_buckets sk src (take n (drop start edges))"
proof -
  let ?nb = "num_buckets sk" and ?z = "\<lparr>bucket_a = replicate (num_buckets sk) 0, bucket_c = replicate (num_buckets sk) 0\<rparr>"
  have sp: "skp_num_columns sp = num_columns sk" "skp_num_buckets sp = ?nb" "skp_bkt_per_col sp = bkt_per_col sk"
    and b: "bkt_per_col sk < 64"
    using p by (auto simp: params_match_def sketch_wf_def)
  define mem where "mem = \<lparr>bucket_a = map (init_a env) [0..<?nb], bucket_c = map (init_c env) [0..<?nb]\<rparr>"
  define ops where "ops = concat (map (update_item sp src start edges) [0..<n * num_columns sk])"
  define m where "m = fold smem_step ops ?z"
  have "mem_ok ?nb mem" by (simp add: mem_def mem_ok_def)
  then have init: "run_threads smem_step (init_sched env) (map (init_prog ?nb T) [0..<T]) mem = ?z"
    using T by (intro zero_mem)
  have "mset (concat (map (update_prog sp src n start edges T) [0..<T])) = mset ops"
    unfolding ops_def using mset_thread_progs [OF T(1), of "update_item sp src start edges" "n * num_columns sk"]
    by (simp add: update_prog_def [abs_def] sp)
  then have upd: "run_threads smem_step (update_sched env) (map (update_prog sp src n start edges T) [0..<T]) ?z = m"
    unfolding m_def using update_item_xors by (intro smem_xor.run_threads_order) (simp, unfold ops_def set_concat set_map, blast)
  have idx: "\<not> (\<exists>q\<in>set (map (update_prog sp src n start edges T) [0..<T]). \<exists>a\<in>set q. \<not> smem_idx a < ?nb)"
    using update_item_idx [OF p] by (auto simp: update_prog_def)
  have "block_sketch env sp T src n start edges = Inr m"
    using T e b idx init upd unfolding block_sketch_def Let_def sp mem_def by simp
  moreover have ok: "mem_ok ?nb ?z" by (simp add: mem_ok_def)
  have z: "zero_contents sk\<lparr>buckets := to_buckets ?z\<rparr> = zero_contents sk"
    using p by (simp add: to_buckets_def zero_contents_def reset_sample_state_def params_match_def sketch_wf_def zero_bucket_def
      map_replicate_const zip_replicate)
  have es: "map (\<lambda>u. edge_id src (edges ! (start + u))) [0..<n] = map (edge_id src) (take n (drop start edges))"
    using e by (intro nth_equalityI) simp_all
  have shape: "num_columns (zero_contents sk) = num_columns sk" "num_buckets (zero_contents sk) = ?nb"
    by (simp_all add: zero_contents_def reset_sample_state_def)
  have "zero_contents sk\<lparr>buckets := to_buckets m\<rparr> =
      fold (\<lambda>x sk. Sketch_update cuda_xxh sk x) (map (edge_id src) (take n (drop start edges))) (zero_contents sk)"
    using update_prog_mem [OF params_match_zero [OF p], of ?z src start edges n, unfolded shape, OF ok]
    unfolding m_def ops_def z es .
  from arg_cong [OF this, of buckets] have "to_buckets m = delta_buckets sk src (take n (drop start edges))"
    by (simp add: delta_buckets_def)
  moreover have "mem_ok ?nb m" unfolding m_def using ok by simp
  ultimately show ?thesis by blast
qed

section \<open>Launches\<close>

definition launch_ok :: "SketchParams \<Rightarrow> nat \<Rightarrow> nat \<Rightarrow> launch_args \<Rightarrow> bool" where
  "launch_ok sp T n args \<longleftrightarrow> 0 < T \<and> int_loop_ok (skp_num_buckets sp) T \<and>
     n \<le> length (update_src args) \<and> n \<le> length (update_sizes args) \<and> n \<le> length (update_start_index args) \<and>
     list_all (\<lambda>b. int_loop_ok (update_sizes args ! b * skp_num_columns sp) T \<and>
       update_start_index args ! b + update_sizes args ! b \<le> length (edge_updates args)) [0..<n]"

definition launch_batches :: "launch_args \<Rightarrow> nat \<Rightarrow> (nat \<times> nat list) list" where
  "launch_batches args n =
     map (\<lambda>b. (update_src args ! b, take (update_sizes args ! b) (drop (update_start_index args ! b) (edge_updates args)))) [0..<n]"

lemma sum_map_ok:
  assumes "\<And>x. x \<in> set xs \<Longrightarrow> \<exists>y. f x = Inr y \<and> P x y"
  shows "\<exists>ys. sum_map f xs = Inr ys \<and> length ys = length xs \<and> (\<forall>i<length xs. P (xs ! i) (ys ! i))"
  using assms
proof (induction xs)
  case (Cons x xs)
  then obtain y ys where "f x = Inr y" "P x y" "sum_map f xs = Inr ys" "length ys = length xs" "\<forall>i<length xs. P (xs ! i) (ys ! i)"
    by (metis list.set_intros)
  then show ?case by (auto simp: less_Suc_eq_0_disj intro!: exI [of _ "y # ys"])
qed simp

lemma launch_mems:
  assumes p: "params_match sp sk" and ok: "launch_ok sp T n args"
  shows "\<exists>mems. sum_map (batch_sketch env sp T args) [0..<n] = Inr mems \<and> length mems = n \<and>
    (\<forall>m\<in>set mems. mem_ok (num_buckets sk) m) \<and>
    map to_buckets mems = map (\<lambda>(src, dsts). delta_buckets sk src dsts) (launch_batches args n)"
proof -
  let ?P = "\<lambda>b m. mem_ok (num_buckets sk) m \<and> to_buckets m = delta_buckets sk (update_src args ! b)
    (take (update_sizes args ! b) (drop (update_start_index args ! b) (edge_updates args)))"
  have sp: "skp_num_columns sp = num_columns sk" "skp_num_buckets sp = num_buckets sk"
    using p by (auto simp: params_match_def)
  have "\<exists>m. batch_sketch env sp T args b = Inr m \<and> ?P b m" if "b \<in> set [0..<n]" for b
  proof -
    have b: "b < n" using that by simp
    then have l: "b < length (update_src args)" "b < length (update_sizes args)" "b < length (update_start_index args)"
      and T: "0 < T" "int_loop_ok (num_buckets sk) T" "int_loop_ok (update_sizes args ! b * num_columns sk) T"
      and e: "update_start_index args ! b + update_sizes args ! b \<le> length (edge_updates args)"
      using ok by (auto simp: launch_ok_def list_all_iff sp)
    show ?thesis using block_sketch_correct [OF p T e] l by (simp add: batch_sketch_def)
  qed
  from sum_map_ok [of "[0..<n]" "batch_sketch env sp T args" ?P, OF this]
  obtain mems where m: "sum_map (batch_sketch env sp T args) [0..<n] = Inr mems" "length mems = n"
    "\<forall>b<n. ?P b (mems ! b)"
    by auto
  moreover have "map to_buckets mems = map (\<lambda>(src, dsts). delta_buckets sk src dsts) (launch_batches args n)"
    using m by (intro nth_equalityI) (simp_all add: launch_batches_def)
  ultimately show ?thesis by (auto simp: in_set_conv_nth)
qed

text \<open>The final stores of the default kernels, in whatever order.\<close>

lemma concat_map_cong_mset:
  "(\<And>x. x \<in> set xs \<Longrightarrow> mset (f x) = mset (g x)) \<Longrightarrow> mset (concat (map f xs)) = mset (concat (map g xs))"
  by (induction xs) simp_all

lemma nth_concat_same:
  assumes "\<And>xs. xs \<in> set xss \<Longrightarrow> length xs = k" "j < length xss * k"
  shows "concat xss ! j = xss ! (j div k) ! (j mod k)"
  using assms
proof (induction xss arbitrary: j)
  case (Cons xs xss)
  have k: "length xs = k" using Cons.prems by simp
  show ?case
  proof (cases "j < k")
    case False
    then have "0 < k" using Cons.prems(2) by (cases k) auto
    then have "j div k = Suc ((j - k) div k)" "j mod k = (j - k) mod k"
      using False by (simp_all add: le_div_geq le_mod_geq)
    then show ?thesis using Cons False k by (simp add: nth_append)
  qed (use k in \<open>simp add: nth_append\<close>)
qed simp

lemma length_concat_same: "(\<And>xs. xs \<in> set xss \<Longrightarrow> length xs = k) \<Longrightarrow> length (concat xss) = length xss * k"
  by (induction xss) simp_all

lemma gmem_sets_fold:
  assumes "k \<le> length bs"
  shows "fold gmem_step (concat (map (\<lambda>j. [SetAlpha j (a j), SetGamma j (c j)]) [0..<k])) bs =
    map (\<lambda>j. \<lparr>alpha = a j, gamma = c j\<rparr>) [0..<k] @ drop k bs"
  using assms
  by (induction k) (simp_all add: list_update_append nth_append upd_conv_take_nth_drop)

lemma store_order:
  assumes m: "mset (concat ps) = mset (concat (map (\<lambda>b. concat (map (store_prog nb b (mems ! b) T) [0..<T])) [0..<n]))"
    and T: "0 < T" and mems: "length mems = n" "\<forall>m\<in>set mems. mem_ok nb m" and bs: "n * nb \<le> length bs"
  shows "run_threads gmem_step sched ps bs = concat (map to_buckets mems) @ drop (n * nb) bs"
proof -
  define a where "a j = bucket_a (mems ! (j div nb)) ! (j mod nb)" for j
  define c where "c j = bucket_c (mems ! (j div nb)) ! (j mod nb)" for j
  let ?f = "\<lambda>j. [SetAlpha j (a j), SetGamma j (c j)]"
  have div_mod: "(b * nb + i) div nb = b" "(b * nb + i) mod nb = i" if "i < nb" for b i using that by simp_all
  have "mset (concat (map (store_prog nb b (mems ! b) T) [0..<T])) = mset (concat (map ?f (map (\<lambda>i. b * nb + i) [0..<nb])))" for b
  proof -
    have "concat (map ?f (map (\<lambda>i. b * nb + i) [0..<nb])) = concat (map (\<lambda>i. [SetAlpha (b * nb + i) (bucket_a (mems ! b) ! i),
        SetGamma (b * nb + i) (bucket_c (mems ! b) ! i)]) [0..<nb])"
      unfolding map_map by (intro arg_cong [of _ _ concat] map_cong refl) (simp add: a_def c_def div_mod)
    then show ?thesis using mset_thread_progs [OF T] by (simp add: store_prog_def [abs_def])
  qed
  then have "mset (concat ps) = mset (concat (map (\<lambda>b. concat (map ?f (map (\<lambda>i. b * nb + i) [0..<nb]))) [0..<n]))"
    unfolding m by (intro concat_map_cong_mset)
  also have "\<dots> = mset (concat (map ?f [0..<n * nb]))" unfolding upt_mult concat_map_concat by (simp add: o_def)
  finally have "run_threads gmem_step sched ps bs = fold gmem_step (concat (map ?f [0..<n * nb])) bs"
    by (rule gmem_set.run_threads_order [where a = a and c = c]) (auto simp: gmem_sets_def)
  also have "\<dots> = map (\<lambda>j. \<lparr>alpha = a j, gamma = c j\<rparr>) [0..<n * nb] @ drop (n * nb) bs" by (rule gmem_sets_fold [OF bs])
  also have "map (\<lambda>j. \<lparr>alpha = a j, gamma = c j\<rparr>) [0..<n * nb] = concat (map to_buckets mems)"
  proof (rule nth_equalityI)
    have len: "length xs = nb" if "xs \<in> set (map to_buckets mems)" for xs using that mems by auto
    show "length (map (\<lambda>j. \<lparr>alpha = a j, gamma = c j\<rparr>) [0..<n * nb]) = length (concat (map to_buckets mems))"
      using length_concat_same [of "map to_buckets mems", OF len] mems by simp
    fix j assume "j < length (map (\<lambda>j. \<lparr>alpha = a j, gamma = c j\<rparr>) [0..<n * nb])"
    then have j: "j < n * nb" by simp
    then have nb: "0 < nb" by (cases nb) auto
    have d: "j div nb < n" using j nb by (simp add: div_less_iff_less_mult)
    have "concat (map to_buckets mems) ! j = map to_buckets mems ! (j div nb) ! (j mod nb)"
      using nth_concat_same [of "map to_buckets mems", OF len] j mems by simp
    also have "\<dots> = \<lparr>alpha = a j, gamma = c j\<rparr>"
      using d mems nb nth_to_buckets [of nb "mems ! (j div nb)" "j mod nb"] by (simp add: a_def c_def)
    finally show "map (\<lambda>j. \<lparr>alpha = a j, gamma = c j\<rparr>) [0..<n * nb] ! j = concat (map to_buckets mems) ! j" using j by simp
  qed
  finally show ?thesis .
qed

lemma default_kernel_result:
  assumes p: "params_match sp sk" and ok: "launch_ok sp T n args" and bs: "n * num_buckets sk \<le> length bs"
  shows "sketchUpdate_default_kernel env n T args sp bs =
    Inr (concat (map (\<lambda>(src, dsts). delta_buckets sk src dsts) (launch_batches args n)) @ drop (n * num_buckets sk) bs)"
proof -
  have sp: "skp_num_buckets sp = num_buckets sk" using p by (simp add: params_match_def)
  have T: "0 < T" using ok by (simp add: launch_ok_def)
  obtain mems where m: "sum_map (batch_sketch env sp T args) [0..<n] = Inr mems" "length mems = n"
    "\<forall>m\<in>set mems. mem_ok (num_buckets sk) m"
    "map to_buckets mems = map (\<lambda>(src, dsts). delta_buckets sk src dsts) (launch_batches args n)"
    using launch_mems [OF p ok] by blast
  show ?thesis
    using store_order [OF _ T m(2,3) bs] bs
    by (simp add: sketchUpdate_default_kernel_def sp m(1) m(4) [symmetric] concat_map_concat [of id, simplified] o_def)
qed

lemma mset_concat_swap:
  "mset (concat (map (\<lambda>t. concat (map (\<lambda>k. F k t) ks)) ts)) = mset (concat (map (\<lambda>k. concat (map (F k) ts)) ks))"
proof (induction ts)
  case (Cons t ts)
  have "mset (concat (map (\<lambda>k. F k t @ concat (map (F k) ts)) ks)) =
      mset (concat (map (\<lambda>k. F k t) ks)) + mset (concat (map (\<lambda>k. concat (map (F k) ts)) ks))"
    by (induction ks) simp_all
  then show ?case using Cons by simp
qed (simp add: map_replicate_const)

lemma single_default_kernel_result:
  assumes p: "params_match sp sk" and ok: "launch_ok sp T n args" and bs: "n * num_buckets sk \<le> length bs" and B: "0 < B"
  shows "single_sketchUpdate_default_kernel env B n T args sp bs =
    Inr (concat (map (\<lambda>(src, dsts). delta_buckets sk src dsts) (launch_batches args n)) @ drop (n * num_buckets sk) bs)"
proof -
  have sp: "skp_num_buckets sp = num_buckets sk" using p by (simp add: params_match_def)
  have T: "0 < T" using ok by (simp add: launch_ok_def)
  obtain mems where m: "sum_map (batch_sketch env sp T args) [0..<n] = Inr mems" "length mems = n"
    "\<forall>m\<in>set mems. mem_ok (num_buckets sk) m"
    "map to_buckets mems = map (\<lambda>(src, dsts). delta_buckets sk src dsts) (launch_batches args n)"
    using launch_mems [OF p ok] by blast
  let ?F = "\<lambda>k t. store_prog (num_buckets sk) k (mems ! k) T t"
  let ?ps = "concat (map (\<lambda>b. map (\<lambda>t. concat (map (\<lambda>k. ?F k t) (strided b B n))) [0..<T]) [0..<B])"
  have "mset (concat ?ps) = mset (concat (map (\<lambda>b. concat (map (\<lambda>t. concat (map (\<lambda>k. ?F k t) (strided b B n))) [0..<T])) [0..<B]))"
    by (simp add: concat_map_concat [of id, simplified] o_def)
  also have "\<dots> = mset (concat (map (\<lambda>b. concat (map (\<lambda>k. concat (map (?F k) [0..<T])) (strided b B n))) [0..<B]))"
    by (intro concat_map_cong_mset mset_concat_swap)
  also have "\<dots> = mset (concat (map (\<lambda>k. concat (map (?F k) [0..<T])) [0..<n]))"
    by (rule mset_thread_progs [OF B])
  finally show ?thesis
    using store_order [OF _ T m(2,3) bs] bs by (simp add: single_sketchUpdate_default_kernel_def sp m(1) m(4) [symmetric])
qed

section \<open>The sketches in managed memory\<close>

definition slot :: "nat \<Rightarrow> nat \<Rightarrow> 'a list \<Rightarrow> 'a list" where
  "slot nb v bs = take nb (drop (v * nb) bs)"

lemma upds_from_zero:
  fixes sk z :: "'a::len word Sketch"
  assumes "sketch_wf sk" "sketch_wf z" "same_shape sk z" "buckets z = replicate (num_buckets sk) zero_bucket" "i < num_buckets sk"
  shows "buckets (fold (\<lambda>x sk. Sketch_update xxh sk x) xs sk) ! i =
    Bucket_xor (buckets sk ! i) (buckets (fold (\<lambda>x sk. Sketch_update xxh sk x) xs z) ! i)"
  using assms
proof (induction xs arbitrary: sk rule: rev_induct)
  case (snoc x xs)
  let ?s = "fold (\<lambda>x sk. Sketch_update xxh sk x) xs sk" and ?z = "fold (\<lambda>x sk. Sketch_update xxh sk x) xs z"
  have wf: "sketch_wf ?s" "sketch_wf ?z" using snoc.prems by (auto intro: cameo.upds_wf)
  have sh: "same_shape ?s ?z"
    by (rule same_shape_trans [OF cameo.upds_shape same_shape_trans [OF snoc.prems(3) same_shape_sym [OF cameo.upds_shape]]])
  have i: "i < num_buckets ?s" "i < num_buckets ?z"
    using snoc.prems cameo.upds_shape [of xxh xs sk] cameo.upds_shape [of xxh xs z] by (auto simp: same_shape_def)
  define H where "H = in_bucket xxh ?z i x"
  define h :: "'a word" where "h = get_index_hash xxh x (checksum_seed ?z)"
  have "buckets (Sketch_update xxh ?s x) ! i = (if H then Bucket_update (buckets ?s ! i) x h else buckets ?s ! i)"
    unfolding cameo.upd_bucket [OF wf(1) i(1)] cameo.holds_shape [OF sh] same_shape_checksum [OF sh] H_def h_def ..
  moreover have "buckets (Sketch_update xxh ?z x) ! i = (if H then Bucket_update (buckets ?z ! i) x h else buckets ?z ! i)"
    unfolding cameo.upd_bucket [OF wf(2) i(2)] H_def h_def ..
  ultimately show ?case
    unfolding fold_append o_def fold_simps snoc.IH [OF snoc.prems] Bucket_update_xor by (simp only: Bucket_xor_assoc split: if_split) blast
qed simp

lemma xor_prog_slot:
  assumes m: "mem_ok nb m" and bs: "(v + 1) * nb \<le> length bs"
  shows "fold gmem_step (concat (map (\<lambda>i. [XorAlpha (v * nb + i) (bucket_a m ! i), XorGamma (v * nb + i) (bucket_c m ! i)]) [0..<nb])) bs =
    take (v * nb) bs @ map2 Bucket_xor (slot nb v bs) (to_buckets m) @ drop ((v + 1) * nb) bs"
proof -
  let ?f = "\<lambda>i. [XorAlpha (v * nb + i) (bucket_a m ! i), XorGamma (v * nb + i) (bucket_c m ! i)]"
  let ?g = "\<lambda>k bs. fold gmem_step (concat (map ?f [0..<k])) bs"
  have len: "length (?g k bs) = length bs" for k by (induction k) simp_all
  have nth: "?g k bs ! j = (if v * nb \<le> j \<and> j < v * nb + k then Bucket_xor (bs ! j) (to_buckets m ! (j - v * nb)) else bs ! j)"
    if "k \<le> nb" "j < length bs" for k j
    using that
  proof (induction k)
    case (Suc k)
    have "v * nb + k < length bs" using Suc.prems bs by simp
    then show ?case
      using Suc m len [of k] by (cases "j = v * nb + k") (auto simp: nth_to_buckets Bucket_xor_def)
  qed auto
  show ?thesis
  proof (rule nth_equalityI)
    fix j assume "j < length (?g nb bs)"
    then have "j < length bs" by (simp only: len)
    then show "?g nb bs ! j = (take (v * nb) bs @ map2 Bucket_xor (slot nb v bs) (to_buckets m) @ drop ((v + 1) * nb) bs) ! j"
      using nth [of nb j] bs m by (auto simp: nth_append slot_def not_less)
  qed (use len bs m in \<open>simp add: slot_def\<close>)
qed

lemma slot_update:
  assumes "length xs = nb" "(v + 1) * nb \<le> length bs" "(w + 1) * nb \<le> length bs"
  shows "slot nb w (take (v * nb) bs @ xs @ drop ((v + 1) * nb) bs) = (if w = v then xs else slot nb w bs)"
proof (cases w v rule: linorder_cases)
  case less
  then have "(w + 1) * nb \<le> v * nb" by (intro mult_le_mono1) simp
  then show ?thesis using less assms by (simp add: slot_def take_drop)
next
  case equal
  then show ?thesis using assms by (simp add: slot_def)
next
  case greater
  then obtain d where d: "w = v + 1 + d" using less_imp_Suc_add by auto
  have "w * nb = (v + 1) * nb + d * nb" by (simp add: d add_mult_distrib)
  then show ?thesis using greater assms by (simp add: slot_def drop_append add.commute)
qed

text \<open>The updates that the batches of a launch hold for a vertex.\<close>

definition vertex_ids :: "(nat \<times> nat list) list \<Rightarrow> nat \<Rightarrow> vec_t list" where
  "vertex_ids batches v = concat (map (\<lambda>(src, dsts). if src = v then map (edge_id src) dsts else []) batches)"

lemma vertex_ids_simps [simp]: "vertex_ids [] v = []"
  "vertex_ids ((src, dsts) # bt) v = (if src = v then map (edge_id src) dsts else []) @ vertex_ids bt v"
  by (simp_all add: vertex_ids_def)

lemma delta_xor:
  assumes "params_match sp sk0" "sketch_wf sk" "same_shape sk sk0"
  shows "map2 Bucket_xor (buckets sk) (delta_buckets sk0 src dsts) =
    buckets (fold (\<lambda>x sk. Sketch_update cuda_xxh sk x) (map (edge_id src) dsts) sk)"
proof -
  let ?u = "fold (\<lambda>x sk. Sketch_update cuda_xxh sk x) (map (edge_id src) dsts)" and ?z = "zero_contents sk0"
  have wf0: "sketch_wf sk0" using assms by (simp add: params_match_def)
  have z: "sketch_wf ?z" "same_shape sk ?z" "buckets ?z = replicate (num_buckets sk) zero_bucket"
    using wf0 assms by (auto simp: zero_contents_def reset_sample_state_def sketch_wf_def same_shape_def map_replicate_const)
  have wf: "sketch_wf (?u sk)" "sketch_wf (?u ?z)" using assms z by (auto intro: cameo.upds_wf)
  have "num_buckets (?u sk) = num_buckets sk" "num_buckets (?u ?z) = num_buckets sk"
    using cameo.upds_shape [of cuda_xxh _ sk] cameo.upds_shape [of cuda_xxh _ ?z] z(2) by (auto simp: same_shape_def)
  then show ?thesis
    using wf assms(2) upds_from_zero [OF assms(2) z, of _ cuda_xxh "map (edge_id src) dsts"]
    by (intro nth_equalityI) (auto simp: delta_buckets_def sketch_wf_def)
qed

lemma xor_batches:
  assumes p: "params_match sp sk0" and nb: "nb = num_buckets sk0"
    and bs: "length bs = n * nb" and sks: "length sks = n" "\<forall>v<n. sketch_wf (sks ! v) \<and> same_shape (sks ! v) sk0 \<and> slot nb v bs = buckets (sks ! v)"
    and mems: "\<forall>m\<in>set mems. mem_ok nb m" "map to_buckets mems = map (\<lambda>(src, dsts). delta_buckets sk0 src dsts) batches"
    and srcs: "\<forall>(src, dsts)\<in>set batches. src < n"
  shows "\<forall>v<n. slot nb v (fold gmem_step (concat (map (\<lambda>((src, dsts), m).
      concat (map (\<lambda>i. [XorAlpha (src * nb + i) (bucket_a m ! i), XorGamma (src * nb + i) (bucket_c m ! i)]) [0..<nb])) (zip batches mems))) bs) =
    buckets (fold (\<lambda>x sk. Sketch_update cuda_xxh sk x) (vertex_ids batches v) (sks ! v))"
  using bs sks mems srcs
proof (induction batches arbitrary: bs sks mems)
  case (Cons b batches)
  obtain src dsts where b: "b = (src, dsts)" by (cases b)
  obtain m ms where ms: "mems = m # ms" using Cons.prems(5) by (cases mems) auto
  have src: "src < n" and m: "mem_ok nb m" "to_buckets m = delta_buckets sk0 src dsts" using Cons.prems by (auto simp: b ms)
  let ?sk = "fold (\<lambda>x sk. Sketch_update cuda_xxh sk x) (map (edge_id src) dsts) (sks ! src)"
  let ?bs = "take (src * nb) bs @ map2 Bucket_xor (slot nb src bs) (to_buckets m) @ drop ((src + 1) * nb) bs"
  have sl: "(v + 1) * nb \<le> length bs" if "v < n" for v
    unfolding Cons.prems(1) using that by (intro mult_le_mono1) simp
  have step: "fold gmem_step (concat (map (\<lambda>i. [XorAlpha (src * nb + i) (bucket_a m ! i), XorGamma (src * nb + i) (bucket_c m ! i)]) [0..<nb])) bs = ?bs"
    by (rule xor_prog_slot [OF m(1) sl [OF src]])
  have x: "map2 Bucket_xor (slot nb src bs) (to_buckets m) = buckets ?sk"
    using delta_xor [OF p, of "sks ! src" src dsts] Cons.prems(3) src m(2) by simp
  have len: "length (buckets ?sk) = nb"
    unfolding x [symmetric] using m(1) sl [OF src] by (simp add: slot_def)
  have slots: "slot nb v ?bs = (if v = src then buckets ?sk else slot nb v bs)" if "v < n" for v
    unfolding x by (rule slot_update [OF len sl [OF src] sl [OF that]])
  have "\<forall>v<n. slot nb v (fold gmem_step (concat (map (\<lambda>((src, dsts), m).
      concat (map (\<lambda>i. [XorAlpha (src * nb + i) (bucket_a m ! i), XorGamma (src * nb + i) (bucket_c m ! i)]) [0..<nb])) (zip batches ms))) ?bs) =
    buckets (fold (\<lambda>x sk. Sketch_update cuda_xxh sk x) (vertex_ids batches v) (sks[src := ?sk] ! v))"
  proof (rule Cons.IH)
    show "length ?bs = n * nb" unfolding x using len sl [OF src] Cons.prems(1) by simp
    show "\<forall>v<n. sketch_wf (sks[src := ?sk] ! v) \<and> same_shape (sks[src := ?sk] ! v) sk0 \<and> slot nb v ?bs = buckets (sks[src := ?sk] ! v)"
    proof (intro allI impI)
      fix v assume v: "v < n"
      have sk: "sketch_wf (sks ! v)" "same_shape (sks ! v) sk0" "slot nb v bs = buckets (sks ! v)" using Cons.prems(3) v by auto
      show "sketch_wf (sks[src := ?sk] ! v) \<and> same_shape (sks[src := ?sk] ! v) sk0 \<and> slot nb v ?bs = buckets (sks[src := ?sk] ! v)"
        unfolding slots [OF v] using Cons.prems(2) src sk
        by (cases "v = src") (auto intro: cameo.upds_wf same_shape_trans [OF cameo.upds_shape])
    qed
  qed (use Cons.prems in \<open>auto simp: b ms\<close>)
  then show ?case
    using src Cons.prems(2) unfolding b ms by (auto simp: step nth_list_update)
qed simp

lemma UVM_kernel_result:
  assumes p: "params_match sp sk0" and ok: "launch_ok sp T k args" and bs: "length bs = n * num_buckets sk0"
    and sks: "length sks = n" "\<forall>v<n. sketch_wf (sks ! v) \<and> same_shape (sks ! v) sk0 \<and> slot (num_buckets sk0) v bs = buckets (sks ! v)"
    and src: "\<forall>b<k. update_src args ! b < n"
  shows "\<exists>bs'. sketchUpdate_UVM_kernel env k T args sp bs = Inr bs' \<and>
    (\<forall>v<n. slot (num_buckets sk0) v bs' =
      buckets (fold (\<lambda>x sk. Sketch_update cuda_xxh sk x) (vertex_ids (launch_batches args k) v) (sks ! v)))"
proof -
  let ?nb = "num_buckets sk0" and ?bt = "launch_batches args k"
  let ?f = "\<lambda>src m i. [XorAlpha (src * ?nb + i) (bucket_a m ! i), XorGamma (src * ?nb + i) (bucket_c m ! i)]"
  have sp: "skp_num_buckets sp = ?nb" using p by (simp add: params_match_def)
  have T: "0 < T" using ok by (simp add: launch_ok_def)
  obtain mems where m: "sum_map (batch_sketch env sp T args) [0..<k] = Inr mems" "length mems = k"
    "\<forall>m\<in>set mems. mem_ok ?nb m" "map to_buckets mems = map (\<lambda>(src, dsts). delta_buckets sk0 src dsts) ?bt"
    using launch_mems [OF p ok] by blast
  define ps where "ps = concat (map (\<lambda>b. map (xor_prog ?nb (update_src args ! b) (mems ! b) T) [0..<T]) [0..<k])"
  define ops where "ops = concat (map (\<lambda>((src, dsts), m). concat (map (?f src m) [0..<?nb])) (zip ?bt mems))"
  have "mset (concat ps) = mset (concat (map (\<lambda>b. concat (map (xor_prog ?nb (update_src args ! b) (mems ! b) T) [0..<T])) [0..<k]))"
    by (simp add: ps_def concat_map_concat [of id, simplified] o_def)
  also have "\<dots> = mset (concat (map (\<lambda>b. concat (map (?f (update_src args ! b) (mems ! b)) [0..<?nb])) [0..<k]))"
    using mset_thread_progs [OF T] by (intro concat_map_cong_mset) (simp add: xor_prog_def [abs_def])
  also have "map (\<lambda>b. concat (map (?f (update_src args ! b) (mems ! b)) [0..<?nb])) [0..<k] =
      map (\<lambda>((src, dsts), m). concat (map (?f src m) [0..<?nb])) (zip ?bt mems)"
    by (intro nth_equalityI) (simp_all add: launch_batches_def m(2))
  finally have "run_threads gmem_step (gmem_sched env) ps bs = fold gmem_step ops bs"
    unfolding ops_def by (rule gmem_xor.run_threads_order) (auto simp: gmem_xors_def)
  moreover have "\<not> (\<exists>b<k. (update_src args ! b + 1) * ?nb > length bs)"
    using src unfolding bs by (metis Suc_eq_plus1 Suc_leI mult_le_mono1 not_le)
  ultimately have "sketchUpdate_UVM_kernel env k T args sp bs = Inr (fold gmem_step ops bs)"
    by (simp add: sketchUpdate_UVM_kernel_def Let_def sp m(1) ps_def)
  moreover have "\<forall>(src, dsts)\<in>set ?bt. src < n" using src by (auto simp: launch_batches_def)
  note xor_batches [OF p refl bs sks m(3,4) this, folded ops_def]
  ultimately show ?thesis by blast
qed

text \<open>C10. The default kernels compute the delta sketches of the host code. Whatever the schedule of the
  threads and whatever the shared memory held before, a launch on \<open>k\<close> batches whose counters fit the
  type \<^verbatim>\<open>int\<close> writes into slot \<open>b\<close> of the result the buckets that updating an empty sketch with the edge
  ids of batch \<open>b\<close> gives, and leaves the rest alone; the single-launch kernel gives the same with any
  number of blocks.\<close>

theorem default_kernels_correct:
  assumes "params_match sp sk" "\<not> cudaUVM_enabled sp" "launch_ok sp T k args" "0 < k" "0 < num_blocks"
    and "k * num_buckets sk \<le> length bs"
  shows "sketchUpdate env T k args sp bs =
      Inr (concat (map (\<lambda>(src, dsts). delta_buckets sk src dsts) (launch_batches args k)) @ drop (k * num_buckets sk) bs) \<and>
    single_sketchUpdate env T num_blocks k args sp bs = sketchUpdate env T k args sp bs"
proof -
  have "0 < T" using assms(3) by (simp add: launch_ok_def)
  then show ?thesis
    using assms default_kernel_result [OF assms(1,3,6)] single_default_kernel_result [OF assms(1,3,6,5)]
    by (simp add: sketchUpdate_def single_sketchUpdate_def)
qed

definition example_sketch :: "64 word Sketch" where
  "example_sketch = \<lparr>sketch_seed = 7, num_samples = 2, cols_per_sample = 1, num_columns = 2, bkt_per_col = 3, num_buckets = 7,
     sample_idx = 0, buckets = replicate 7 zero_bucket, is_cuda_bucket = False\<rparr>"

definition example_skp :: "bool \<Rightarrow> SketchParams" where
  "example_skp uvm = \<lparr>skp_num_samples = 2, skp_num_buckets = 7, skp_num_columns = 2, skp_bkt_per_col = 3, skp_seed = 7,
     cudaUVM_enabled = uvm\<rparr>"

definition example_launch :: launch_args where
  "example_launch = \<lparr>update_src = [1, 0], update_sizes = [2, 1], update_start_index = [0, 2], edge_updates = [0, 2, 2]\<rparr>"

definition example_env :: launch_env where
  "example_env = \<lparr>block_envs = (\<lambda>b. \<lparr>init_sched = [1, 0, 1], update_sched = [2, 0, 1, 1], init_a = (\<lambda>i. 3), init_c = (\<lambda>i. 5)\<rparr>),
     gmem_sched = [3, 1, 0, 2]\<rparr>"

lemmas example_launch_defs = example_sketch_def example_skp_def example_launch_def params_match_def sketch_wf_def
  launch_ok_def int_loop_ok_def launch_batches_def

theorem default_kernels_correct_witness:
  "sketchUpdate example_env 4 2 example_launch (example_skp False) (replicate 14 zero_bucket) =
    Inr (delta_buckets example_sketch 1 [0, 2] @ delta_buckets example_sketch 0 [2])"
  using default_kernels_correct [of "example_skp False" example_sketch 4 2 example_launch 1 "replicate 14 zero_bucket" example_env]
  by (simp add: example_launch_defs upt_rec)

text \<open>C11. The UVM kernels update the sketches in place: when the slots of the managed array are the
  buckets of the sketches of the vertices, then after a launch, in every interleaving of the atomic
  operations of all blocks, the slot of each vertex holds its sketch updated with the edge ids of all
  batches of that vertex, also when several blocks work on the same vertex.\<close>

theorem UVM_kernels_correct:
  assumes "params_match sp sk0" "cudaUVM_enabled sp" "launch_ok sp T k args" "0 < k" "length bs = n * num_buckets sk0"
    and "length sks = n" "\<forall>v<n. sketch_wf (sks ! v) \<and> same_shape (sks ! v) sk0 \<and> slot (num_buckets sk0) v bs = buckets (sks ! v)"
    and "\<forall>b<k. update_src args ! b < n"
  shows "\<exists>bs'. sketchUpdate env T k args sp bs = Inr bs' \<and> single_sketchUpdate env T k batches args sp bs = Inr bs' \<and>
    (\<forall>v<n. slot (num_buckets sk0) v bs' =
      buckets (fold (\<lambda>x sk. Sketch_update cuda_xxh sk x) (vertex_ids (launch_batches args k) v) (sks ! v)))"
proof -
  have "0 < T" using assms(3) by (simp add: launch_ok_def)
  moreover have "single_sketchUpdate_UVM_kernel env k T args sp bs = sketchUpdate_UVM_kernel env k T args sp bs"
    unfolding single_sketchUpdate_UVM_kernel_def sketchUpdate_UVM_kernel_def ..
  ultimately show ?thesis
    using assms(2,4) UVM_kernel_result [OF assms(1,3,5-8), of env] by (simp add: sketchUpdate_def single_sketchUpdate_def)
qed

theorem UVM_kernels_correct_witness:
  "\<exists>bs'. sketchUpdate example_env 4 2 example_launch (example_skp True) (replicate 21 zero_bucket) = Inr bs' \<and>
    slot 7 2 bs' = replicate 7 zero_bucket \<and>
    slot 7 1 bs' = buckets (Sketch_update cuda_xxh (Sketch_update cuda_xxh example_sketch (edge_id 1 0)) (edge_id 1 2))"
proof -
  have p: "params_match (example_skp True) example_sketch" "launch_ok (example_skp True) 4 2 example_launch"
    "cudaUVM_enabled (example_skp True)" "num_buckets example_sketch = 7"
    by (simp_all add: example_launch_defs upt_rec)
  have sks: "\<forall>v<3. sketch_wf (replicate 3 example_sketch ! v) \<and> same_shape (replicate 3 example_sketch ! v) example_sketch \<and>
      slot (num_buckets example_sketch) v (replicate 21 zero_bucket) = buckets (replicate 3 example_sketch ! v)"
    by (auto simp: slot_def p(4)) (auto simp: example_sketch_def sketch_wf_def)
  have src: "\<forall>b<2. update_src example_launch ! b < 3" by (auto simp: example_launch_def less_2_cases_iff)
  have bt: "launch_batches example_launch 2 = [(1, [0, 2]), (0, [2])]" by (simp add: launch_batches_def example_launch_def upt_rec)
  obtain bs' where bs': "sketchUpdate example_env 4 2 example_launch (example_skp True) (replicate 21 zero_bucket) = Inr bs'"
    "\<forall>v<3. slot (num_buckets example_sketch) v bs' = buckets (fold (\<lambda>x sk. Sketch_update cuda_xxh sk x)
       (vertex_ids (launch_batches example_launch 2) v) (replicate 3 example_sketch ! v))"
    using UVM_kernels_correct [OF p(1,3,2) _ _ _ sks src, of example_env 2] by (auto simp: p(4))
  from bs'(2) [rule_format, of 1] bs'(2) [rule_format, of 2] bs'(1) show ?thesis
    by (simp add: bt p(4)) (simp add: example_sketch_def)
qed

end
