(* ===== verification/Cuda_Stream.thy ===== *)
theory Cuda_Stream
  imports Cuda_Kernel_Correctness
begin

text \<open>
  A stream of batches to the GPU (include/cuda_stream.h). The host collects the batches of one half of
  its pinned buffers; when the half holds \<open>num_batch_per_buffer\<close> batches it waits for the device, enqueues
  the copies of the half and a launch, and goes on with the other half. In the default mode the
  sketches come back in \<^verbatim>\<open>h_buckets\<close> and are applied to the algorithm when the next half is full, or by
  \<^verbatim>\<open>flush_buffers\<close>; in UVM mode the kernel updates them in managed memory.

  The operations that the host enqueues (\<open>stream_op\<close>) are executed by the device in their order, at any
  time before the next synchronisation: \<open>stream_advance\<close> executes some of them, \<open>stream_sync\<close> all. The
  algorithm is a template parameter of the class; here its state and its \<^verbatim>\<open>apply_raw_buckets_update\<close> are
  parameters. Memory that the CUDA allocators return is not initialised (\<open>stream_junk\<close>). Timers are left
  out.
\<close>

datatype stream_op =
    CopyEdges nat nat
  | CopySizes nat nat
  | CopySrc nat nat
  | CopyStart nat nat
  | Launch launch_env nat
  | CopyBuckets nat

record cuda_stream =
  graph_id :: nat
  cs_num_nodes :: nat
  sketchParams :: SketchParams
  uvm_buckets :: "64 word Bucket list"
  h_edgeUpdates :: "nat list"
  d_edgeUpdates :: "nat list"
  h_update_sizes :: "nat list"
  d_update_sizes :: "nat list"
  h_update_src :: "nat list"
  d_update_src :: "nat list"
  h_update_start_index :: "nat list"
  d_update_start_index :: "nat list"
  h_buckets :: "64 word Bucket list"
  d_buckets :: "64 word Bucket list"
  num_batch_per_buffer :: nat
  buffer_id :: nat
  batch_offset :: nat
  cs_batch_size :: nat
  batch_limit :: nat
  batch_count :: nat
  num_device_threads :: nat
  first_buffer :: bool
  cs_min_subgraph :: nat
  cs_max_subgraph :: nat
  pending :: "stream_op list"

record stream_junk =
  junk_nat :: "nat \<Rightarrow> nat"
  junk_bucket :: "nat \<Rightarrow> 64 word Bucket"

definition CudaStream_new :: "stream_junk \<Rightarrow> nat \<Rightarrow> nat \<Rightarrow> nat \<Rightarrow> nat \<Rightarrow> nat \<Rightarrow> SketchParams \<Rightarrow> 64 word Bucket list \<Rightarrow> cuda_stream" where
  "CudaStream_new junk desired gid num_nodes threads nbatch sp managed =
     (let nb = (if cudaUVM_enabled sp then 0 else skp_num_buckets sp * nbatch)
      in \<lparr>graph_id = gid, cs_num_nodes = num_nodes, sketchParams = sp, uvm_buckets = managed,
          h_edgeUpdates = replicate (2 * nbatch * desired) 0, d_edgeUpdates = map (junk_nat junk) [0..<nbatch * desired],
          h_update_sizes = replicate (2 * nbatch) 0, d_update_sizes = map (junk_nat junk) [0..<nbatch],
          h_update_src = replicate (2 * nbatch) 0, d_update_src = map (junk_nat junk) [0..<nbatch],
          h_update_start_index = replicate (2 * nbatch) 0, d_update_start_index = map (junk_nat junk) [0..<nbatch],
          h_buckets = map (junk_bucket junk) [0..<nb], d_buckets = map (junk_bucket junk) [0..<nb],
          num_batch_per_buffer = nbatch, buffer_id = 0, batch_offset = 0, cs_batch_size = desired,
          batch_limit = nbatch, batch_count = 0, num_device_threads = threads, first_buffer = True,
          cs_min_subgraph = junk_nat junk 0, cs_max_subgraph = junk_nat junk 1, pending = []\<rparr>)"

section \<open>The device\<close>

text \<open>\<^verbatim>\<open>cudaMemcpyAsync\<close> of \<open>len\<close> elements from position \<open>start\<close> to the beginning of the destination; \<open>None\<close> when
  a range exceeds its array.\<close>

definition copy_range :: "'a list \<Rightarrow> nat \<Rightarrow> nat \<Rightarrow> 'a list \<Rightarrow> 'a list option" where
  "copy_range source start len dest =
     (if start + len \<le> length source \<and> len \<le> length dest then Some (take len (drop start source) @ drop len dest) else None)"

definition device_args :: "cuda_stream \<Rightarrow> launch_args" where
  "device_args s = \<lparr>update_src = d_update_src s, update_sizes = d_update_sizes s, update_start_index = d_update_start_index s,
     edge_updates = d_edgeUpdates s\<rparr>"

fun stream_exec :: "stream_op \<Rightarrow> cuda_stream \<Rightarrow> error + cuda_stream" where
  "stream_exec (CopyEdges i n) s = (case copy_range (h_edgeUpdates s) i n (d_edgeUpdates s) of
     None \<Rightarrow> Inl Undefined | Some d \<Rightarrow> Inr (s\<lparr>d_edgeUpdates := d\<rparr>))"
| "stream_exec (CopySizes i n) s = (case copy_range (h_update_sizes s) i n (d_update_sizes s) of
     None \<Rightarrow> Inl Undefined | Some d \<Rightarrow> Inr (s\<lparr>d_update_sizes := d\<rparr>))"
| "stream_exec (CopySrc i n) s = (case copy_range (h_update_src s) i n (d_update_src s) of
     None \<Rightarrow> Inl Undefined | Some d \<Rightarrow> Inr (s\<lparr>d_update_src := d\<rparr>))"
| "stream_exec (CopyStart i n) s = (case copy_range (h_update_start_index s) i n (d_update_start_index s) of
     None \<Rightarrow> Inl Undefined | Some d \<Rightarrow> Inr (s\<lparr>d_update_start_index := d\<rparr>))"
| "stream_exec (Launch env k) s =
     (case sketchUpdate env (num_device_threads s) k (device_args s) (sketchParams s)
             (if cudaUVM_enabled (sketchParams s) then uvm_buckets s else d_buckets s) of
        Inl e \<Rightarrow> Inl e
      | Inr bs \<Rightarrow> Inr (if cudaUVM_enabled (sketchParams s) then s\<lparr>uvm_buckets := bs\<rparr> else s\<lparr>d_buckets := bs\<rparr>))"
| "stream_exec (CopyBuckets n) s = (case copy_range (d_buckets s) 0 n (h_buckets s) of
     None \<Rightarrow> Inl Undefined | Some h \<Rightarrow> Inr (s\<lparr>h_buckets := h\<rparr>))"

fun exec_ops :: "stream_op list \<Rightarrow> cuda_stream \<Rightarrow> error + cuda_stream" where
  "exec_ops [] s = Inr s"
| "exec_ops (a # as) s = (case stream_exec a s of Inl e \<Rightarrow> Inl e | Inr s' \<Rightarrow> exec_ops as s')"

text \<open>The device executes the first \<open>k\<close> operations that are pending.\<close>

definition stream_advance :: "nat \<Rightarrow> cuda_stream \<Rightarrow> error + cuda_stream" where
  "stream_advance k s = exec_ops (take k (pending s)) (s\<lparr>pending := drop k (pending s)\<rparr>)"

definition stream_sync :: "cuda_stream \<Rightarrow> error + cuda_stream" where
  "stream_sync s = exec_ops (pending s) (s\<lparr>pending := []\<rparr>)"

section \<open>The host\<close>

definition start_index :: "cuda_stream \<Rightarrow> nat" where
  "start_index s = buffer_id s * num_batch_per_buffer s * cs_batch_size s"

definition start_batch_id :: "cuda_stream \<Rightarrow> nat" where
  "start_batch_id s = buffer_id s * num_batch_per_buffer s"

definition overwrite :: "'a list \<Rightarrow> nat \<Rightarrow> 'a list \<Rightarrow> 'a list" where
  "overwrite xs i ys = take i xs @ ys @ drop (i + length ys) xs"

text \<open>The part of \<^verbatim>\<open>process_batch\<close> that both modes share: the batch is stored in the current half.\<close>

definition fill_batch :: "nat \<Rightarrow> nat list \<Rightarrow> cuda_stream \<Rightarrow> error + cuda_stream" where
  "fill_batch src dsts s =
     (let b = start_batch_id s + batch_count s
      in if batch_offset s + length dsts > length (h_edgeUpdates s) \<or> \<not> b < length (h_update_sizes s) then Inl Undefined
         else Inr (s\<lparr>h_edgeUpdates := overwrite (h_edgeUpdates s) (batch_offset s) dsts,
                     h_update_sizes := (h_update_sizes s)[b := length dsts],
                     h_update_src := (h_update_src s)[b := src],
                     h_update_start_index := (h_update_start_index s)[b := batch_offset s - start_index s],
                     batch_offset := batch_offset s + length dsts,
                     batch_count := batch_count s + 1\<rparr>))"

definition transfer_ops :: "launch_env \<Rightarrow> nat \<Rightarrow> cuda_stream \<Rightarrow> stream_op list" where
  "transfer_ops env k s =
     [CopyEdges (start_index s) (batch_offset s - start_index s), CopySizes (start_batch_id s) k,
      CopySrc (start_batch_id s) k, CopyStart (start_batch_id s) k, Launch env k]"

definition switch_buffer :: "cuda_stream \<Rightarrow> cuda_stream" where
  "switch_buffer s =
     (let other = 1 - buffer_id s
      in s\<lparr>batch_count := 0, buffer_id := other, batch_offset := other * num_batch_per_buffer s * cs_batch_size s\<rparr>)"

definition process_batch_UVM :: "launch_env \<Rightarrow> nat \<Rightarrow> nat list \<Rightarrow> cuda_stream \<Rightarrow> error + cuda_stream" where
  "process_batch_UVM env src dsts s =
     (case fill_batch src dsts s of
        Inl e \<Rightarrow> Inl e
      | Inr s \<Rightarrow>
          if batch_count s = batch_limit s then
            case stream_sync s of
              Inl e \<Rightarrow> Inl e
            | Inr s \<Rightarrow> Inr (switch_buffer (s\<lparr>pending := transfer_ops env (batch_count s) s\<rparr>))
          else Inr s)"

text \<open>The loop that applies the sketches of \<^verbatim>\<open>h_buckets\<close> to the vertices of \<open>k\<close> batches from \<open>first\<close> on.\<close>

definition apply_delta :: "(nat \<Rightarrow> 64 word Bucket list \<Rightarrow> 'a \<Rightarrow> error + 'a) \<Rightarrow> cuda_stream \<Rightarrow> nat \<Rightarrow> nat \<Rightarrow> 'a \<Rightarrow> error + 'a" where
  "apply_delta apply_raw s first batch_id alg =
     (if first + batch_id < length (h_update_src s) \<and> (batch_id + 1) * skp_num_buckets (sketchParams s) \<le> length (h_buckets s)
      then apply_raw ((graph_id s * cs_num_nodes s + h_update_src s ! (first + batch_id)) mod 2 ^ 32)
             (slot (skp_num_buckets (sketchParams s)) batch_id (h_buckets s)) alg
      else Inl Undefined)"

fun apply_deltas :: "(nat \<Rightarrow> 64 word Bucket list \<Rightarrow> 'a \<Rightarrow> error + 'a) \<Rightarrow> cuda_stream \<Rightarrow> nat \<Rightarrow> nat list \<Rightarrow> 'a \<Rightarrow> error + 'a" where
  "apply_deltas apply_raw s first [] alg = Inr alg"
| "apply_deltas apply_raw s first (b # bs) alg =
     (case apply_delta apply_raw s first b alg of Inl e \<Rightarrow> Inl e | Inr alg \<Rightarrow> apply_deltas apply_raw s first bs alg)"

definition prev_batch_id :: "cuda_stream \<Rightarrow> nat" where
  "prev_batch_id s = (1 - buffer_id s) * num_batch_per_buffer s"

definition process_batch_default :: "(nat \<Rightarrow> 64 word Bucket list \<Rightarrow> 'a \<Rightarrow> error + 'a) \<Rightarrow> launch_env \<Rightarrow> nat \<Rightarrow> nat list \<Rightarrow>
    'a \<times> cuda_stream \<Rightarrow> error + 'a \<times> cuda_stream" where
  "process_batch_default apply_raw env src dsts st =
     (case fill_batch src dsts (snd st) of
        Inl e \<Rightarrow> Inl e
      | Inr s \<Rightarrow>
          if batch_count s = batch_limit s then
            case stream_sync s of
              Inl e \<Rightarrow> Inl e
            | Inr s \<Rightarrow>
                (case (if first_buffer s then Inr (fst st) else apply_deltas apply_raw s (prev_batch_id s) [0..<batch_limit s] (fst st)) of
                   Inl e \<Rightarrow> Inl e
                 | Inr alg \<Rightarrow>
                     Inr (alg, (switch_buffer (s\<lparr>pending := transfer_ops env (batch_count s) s @
                            [CopyBuckets (skp_num_buckets (sketchParams s) * num_batch_per_buffer s)]\<rparr>))\<lparr>first_buffer := False\<rparr>))
          else Inr (fst st, s))"

definition process_batch :: "(nat \<Rightarrow> 64 word Bucket list \<Rightarrow> 'a \<Rightarrow> error + 'a) \<Rightarrow> launch_env \<Rightarrow> nat \<Rightarrow> nat list \<Rightarrow>
    'a \<times> cuda_stream \<Rightarrow> error + 'a \<times> cuda_stream" where
  "process_batch apply_raw env src dsts st =
     (if cudaUVM_enabled (sketchParams (snd st))
      then case process_batch_UVM env src dsts (snd st) of Inl e \<Rightarrow> Inl e | Inr s \<Rightarrow> Inr (fst st, s)
      else process_batch_default apply_raw env src dsts st)"

text \<open>Flushing: \<^verbatim>\<open>start_index\<close> is an \<^verbatim>\<open>int\<close> there.\<close>

definition flush_buffers_UVM :: "launch_env \<Rightarrow> cuda_stream \<Rightarrow> error + cuda_stream" where
  "flush_buffers_UVM env s =
     (if batch_count s = 0 then Inr s
      else if start_index s \<ge> 2 ^ 31 then Inl Undefined
      else Inr (s\<lparr>pending := pending s @ transfer_ops env (batch_count s) s\<rparr>))"

definition flush_buffers_default :: "(nat \<Rightarrow> 64 word Bucket list \<Rightarrow> 'a \<Rightarrow> error + 'a) \<Rightarrow> launch_env \<Rightarrow>
    'a \<times> cuda_stream \<Rightarrow> error + 'a \<times> cuda_stream" where
  "flush_buffers_default apply_raw env st =
     (case stream_sync (snd st) of
        Inl e \<Rightarrow> Inl e
      | Inr s \<Rightarrow>
          (case apply_deltas apply_raw s (prev_batch_id s) [0..<batch_limit s] (fst st) of
             Inl e \<Rightarrow> Inl e
           | Inr alg \<Rightarrow>
               if batch_count s = 0 then Inr (alg, s)
               else if start_index s \<ge> 2 ^ 31 then Inl Undefined
               else
                 case stream_sync (s\<lparr>pending := transfer_ops env (batch_count s) s @
                        [CopyBuckets (skp_num_buckets (sketchParams s) * batch_count s)]\<rparr>) of
                   Inl e \<Rightarrow> Inl e
                 | Inr s \<Rightarrow>
                     (case apply_deltas apply_raw s (start_batch_id s) [0..<batch_count s] alg of
                        Inl e \<Rightarrow> Inl e
                      | Inr alg \<Rightarrow> Inr (alg, s))))"

definition flush_buffers :: "(nat \<Rightarrow> 64 word Bucket list \<Rightarrow> 'a \<Rightarrow> error + 'a) \<Rightarrow> launch_env \<Rightarrow>
    'a \<times> cuda_stream \<Rightarrow> error + 'a \<times> cuda_stream" where
  "flush_buffers apply_raw env st =
     (if cudaUVM_enabled (sketchParams (snd st))
      then case flush_buffers_UVM env (snd st) of Inl e \<Rightarrow> Inl e | Inr s \<Rightarrow> Inr (fst st, s)
      else flush_buffers_default apply_raw env st)"

text \<open>The range of subgraphs; no operation of the class reads it.\<close>

definition set_range :: "nat \<Rightarrow> nat \<Rightarrow> cuda_stream \<Rightarrow> cuda_stream" where
  "set_range lo hi s = s\<lparr>cs_min_subgraph := lo, cs_max_subgraph := hi\<rparr>"

end
