(* ===== verification/Cuda_Stream_Correctness.thy ===== *)
theory Cuda_Stream_Correctness
  imports Cuda_Stream
begin

text \<open>
  The stream of batches as a pipeline: batches that have been applied, the batches of the last launch,
  and the batches of the current half. The invariant is stated for the state with all enqueued
  operations executed, which does not depend on how far the device has come (\<open>sync_advance\<close>), and the
  host may fill its half meanwhile because the device reads the other one (\<open>sync_fill\<close>).
\<close>


section \<open>Pending operations\<close>

abbreviation on_inr :: "('a \<Rightarrow> 'b) \<Rightarrow> 'e + 'a \<Rightarrow> 'e + 'b" where
  "on_inr f x \<equiv> case x of Inl e \<Rightarrow> Inl e | Inr y \<Rightarrow> Inr (f y)"

lemma copy_range_ok:
  "start + len \<le> length source \<Longrightarrow> len \<le> length dest \<Longrightarrow> copy_range source start len dest = Some (take len (drop start source) @ drop len dest)"
  by (simp add: copy_range_def)

lemma stream_exec_pending: "stream_exec a (s\<lparr>pending := p\<rparr>) = on_inr (\<lambda>d. d\<lparr>pending := p\<rparr>) (stream_exec a s)"
  by (cases a) (simp_all add: device_args_def split: option.split sum.split)

lemma exec_ops_pending: "exec_ops as (s\<lparr>pending := p\<rparr>) = on_inr (\<lambda>d. d\<lparr>pending := p\<rparr>) (exec_ops as s)"
proof (induction as arbitrary: s)
  case (Cons a as)
  then show ?case by (cases "stream_exec a s") (simp_all add: stream_exec_pending)
qed simp

lemma exec_ops_append:
  "exec_ops (as @ bs) s = (case exec_ops as s of Inl e \<Rightarrow> Inl e | Inr s' \<Rightarrow> exec_ops bs s')"
  by (induction as arbitrary: s) (simp_all split: sum.split)

lemma exec_ops_keeps_pending: "exec_ops as s = Inr d \<Longrightarrow> pending d = pending s"
proof (induction as arbitrary: s)
  case (Cons a as)
  obtain s' where s': "stream_exec a s = Inr s'" "exec_ops as s' = Inr d"
    using Cons.prems by (auto split: sum.splits)
  have "pending s' = pending s"
    using s'(1) by (cases a) (auto split: option.splits sum.splits if_splits)
  then show ?case using Cons.IH [OF s'(2)] by simp
qed simp

text \<open>It does not matter when the device executes what is pending.\<close>

lemma sync_advance:
  assumes "stream_sync s = Inr d"
  shows "\<exists>s'. stream_advance k s = Inr s' \<and> stream_sync s' = Inr d"
proof -
  have "exec_ops (take k (pending s) @ drop k (pending s)) (s\<lparr>pending := []\<rparr>) = Inr d"
    using assms by (simp add: stream_sync_def)
  then obtain d1 where d1: "exec_ops (take k (pending s)) (s\<lparr>pending := []\<rparr>) = Inr d1" "exec_ops (drop k (pending s)) d1 = Inr d"
    unfolding exec_ops_append by (auto split: sum.splits)
  have p: "pending d1 = []" using exec_ops_keeps_pending [OF d1(1)] by simp
  let ?s' = "d1\<lparr>pending := drop k (pending s)\<rparr>"
  have "stream_advance k s = Inr ?s'"
    using exec_ops_pending [of "take k (pending s)" "drop k (pending s)" "s\<lparr>pending := []\<rparr>"] d1(1)
    by (simp add: stream_advance_def)
  moreover have "d1\<lparr>pending := []\<rparr> = d1" using p by simp
  then have "stream_sync ?s' = Inr d" using d1(2) by (simp add: stream_sync_def)
  ultimately show ?thesis by blast
qed

section \<open>The host fills one half while the device reads the other\<close>

definition fill_fun :: "nat \<Rightarrow> nat list \<Rightarrow> cuda_stream \<Rightarrow> cuda_stream" where
  "fill_fun src dsts s =
     (let b = start_batch_id s + batch_count s
      in s\<lparr>h_edgeUpdates := overwrite (h_edgeUpdates s) (batch_offset s) dsts,
                     h_update_sizes := (h_update_sizes s)[b := length dsts],
                     h_update_src := (h_update_src s)[b := src],
                     h_update_start_index := (h_update_start_index s)[b := batch_offset s - start_index s],
                     batch_offset := batch_offset s + length dsts,
                     batch_count := batch_count s + 1\<rparr>)"

lemma fill_batch_fun:
  "fill_batch src dsts s = (if batch_offset s + length dsts > length (h_edgeUpdates s) \<or>
     \<not> start_batch_id s + batch_count s < length (h_update_sizes s) then Inl Undefined else Inr (fill_fun src dsts s))"
  by (simp add: fill_batch_def fill_fun_def Let_def)

text \<open>The operation does not read the positions \<open>[i, j)\<close> of the edge buffer and \<open>b\<close> of the other buffers.\<close>

fun reads_apart :: "nat \<Rightarrow> nat \<Rightarrow> nat \<Rightarrow> stream_op \<Rightarrow> bool" where
  "reads_apart i j b (CopyEdges a n) \<longleftrightarrow> a + n \<le> i \<or> j \<le> a"
| "reads_apart i j b (CopySizes a n) \<longleftrightarrow> \<not> (a \<le> b \<and> b < a + n)"
| "reads_apart i j b (CopySrc a n) \<longleftrightarrow> \<not> (a \<le> b \<and> b < a + n)"
| "reads_apart i j b (CopyStart a n) \<longleftrightarrow> \<not> (a \<le> b \<and> b < a + n)"
| "reads_apart i j b (Launch env k) \<longleftrightarrow> True"
| "reads_apart i j b (CopyBuckets n) \<longleftrightarrow> True"

lemma length_overwrite [simp]: "i + length ys \<le> length xs \<Longrightarrow> length (overwrite xs i ys) = length xs"
  by (simp add: overwrite_def)

lemma nth_overwrite:
  "i + length ys \<le> length xs \<Longrightarrow> k < length xs \<Longrightarrow> overwrite xs i ys ! k = (if i \<le> k \<and> k < i + length ys then ys ! (k - i) else xs ! k)"
  by (auto simp: overwrite_def nth_append min_def not_less)

lemma copy_range_overwrite:
  assumes "i + length ys \<le> length xs" "a + n \<le> i \<or> i + length ys \<le> a"
  shows "copy_range (overwrite xs i ys) a n dest = copy_range xs a n dest"
proof -
  have "take n (drop a (overwrite xs i ys)) = take n (drop a xs)" if "a + n \<le> length xs"
    using that assms by (intro nth_equalityI) (auto simp: nth_overwrite)
  then show ?thesis using assms by (simp add: copy_range_def)
qed

lemma copy_range_update:
  assumes "\<not> (a \<le> b \<and> b < a + n)"
  shows "copy_range (xs[b := v]) a n dest = copy_range xs a n dest"
proof -
  have "take n (drop a (xs[b := v])) = take n (drop a xs)"
    using assms by (auto simp: drop_update_swap not_le not_less)
  then show ?thesis by (simp add: copy_range_def)
qed

lemma stream_exec_fill:
  assumes "batch_offset s + length dsts \<le> length (h_edgeUpdates s)"
    and "reads_apart (batch_offset s) (batch_offset s + length dsts) (start_batch_id s + batch_count s) a"
  shows "stream_exec a (fill_fun src dsts s) = on_inr (fill_fun src dsts) (stream_exec a s)"
  using assms
  by (cases a) (simp_all add: fill_fun_def Let_def device_args_def copy_range_overwrite copy_range_update
      start_batch_id_def start_index_def split: option.split sum.split)

text \<open>What the device leaves alone.\<close>

definition host_part :: "cuda_stream \<Rightarrow> ((nat list \<times> nat list) \<times> (nat list \<times> nat list)) \<times> (nat \<times> nat \<times> nat) \<times>
    (nat \<times> nat \<times> nat) \<times> (SketchParams \<times> bool) \<times> (nat \<times> nat \<times> nat)" where
  "host_part s = (((h_edgeUpdates s, h_update_sizes s), (h_update_src s, h_update_start_index s)),
     (batch_offset s, batch_count s, buffer_id s), (num_batch_per_buffer s, cs_batch_size s, batch_limit s),
     (sketchParams s, first_buffer s), (graph_id s, cs_num_nodes s, num_device_threads s))"

lemma stream_exec_host: "stream_exec a s = Inr d \<Longrightarrow> host_part d = host_part s"
  by (cases a) (auto simp: host_part_def split: option.splits sum.splits if_splits)

lemma exec_ops_host: "exec_ops as s = Inr d \<Longrightarrow> host_part d = host_part s"
proof (induction as arbitrary: s)
  case (Cons a as)
  then show ?case using stream_exec_host [of a s] by (auto split: sum.splits)
qed simp

lemma host_part_fields:
  assumes "host_part d = host_part s"
  shows "h_edgeUpdates d = h_edgeUpdates s" "h_update_sizes d = h_update_sizes s" "h_update_src d = h_update_src s"
    "h_update_start_index d = h_update_start_index s" "batch_offset d = batch_offset s" "batch_count d = batch_count s"
    "buffer_id d = buffer_id s" "num_batch_per_buffer d = num_batch_per_buffer s" "cs_batch_size d = cs_batch_size s"
    "batch_limit d = batch_limit s" "sketchParams d = sketchParams s" "first_buffer d = first_buffer s"
    "graph_id d = graph_id s" "cs_num_nodes d = cs_num_nodes s" "num_device_threads d = num_device_threads s"
    "start_batch_id d = start_batch_id s" "start_index d = start_index s" "prev_batch_id d = prev_batch_id s"
  using assms by (simp_all add: host_part_def start_batch_id_def start_index_def prev_batch_id_def)

lemma exec_ops_fill:
  assumes "batch_offset s + length dsts \<le> length (h_edgeUpdates s)"
    and "\<forall>a\<in>set as. reads_apart (batch_offset s) (batch_offset s + length dsts) (start_batch_id s + batch_count s) a"
  shows "exec_ops as (fill_fun src dsts s) = on_inr (fill_fun src dsts) (exec_ops as s)"
  using assms
proof (induction as arbitrary: s)
  case (Cons a as)
  show ?case
  proof (cases "stream_exec a s")
    case (Inr s')
    note f = host_part_fields [OF stream_exec_host [OF Inr]]
    have "exec_ops as (fill_fun src dsts s') = on_inr (fill_fun src dsts) (exec_ops as s')"
      using Cons.prems by (intro Cons.IH) (simp_all add: f)
    then show ?thesis using Cons.prems Inr by (simp add: stream_exec_fill)
  qed (use Cons.prems in \<open>simp add: stream_exec_fill\<close>)
qed simp

lemma sync_fill:
  assumes "stream_sync s = Inr d" "batch_offset s + length dsts \<le> length (h_edgeUpdates s)"
    and "\<forall>a\<in>set (pending s). reads_apart (batch_offset s) (batch_offset s + length dsts) (start_batch_id s + batch_count s) a"
  shows "stream_sync (fill_fun src dsts s) = Inr (fill_fun src dsts d)"
proof -
  have "exec_ops (pending s) (fill_fun src dsts (s\<lparr>pending := []\<rparr>)) = Inr (fill_fun src dsts d)"
    using assms exec_ops_fill [of "s\<lparr>pending := []\<rparr>" dsts "pending s" src]
    by (simp add: stream_sync_def start_batch_id_def)
  moreover have "fill_fun src dsts (s\<lparr>pending := []\<rparr>) = (fill_fun src dsts s)\<lparr>pending := []\<rparr>" "pending (fill_fun src dsts s) = pending s"
    by (simp_all add: fill_fun_def Let_def start_batch_id_def start_index_def)
  ultimately show ?thesis by (simp add: stream_sync_def)
qed

section \<open>The batches of a half\<close>

definition half_batches :: "cuda_stream \<Rightarrow> nat \<Rightarrow> (nat \<times> nat list) list" where
  "half_batches s k = map (\<lambda>b. (h_update_src s ! (start_batch_id s + b),
     take (h_update_sizes s ! (start_batch_id s + b)) (drop (start_index s + h_update_start_index s ! (start_batch_id s + b)) (h_edgeUpdates s)))) [0..<k]"

definition stream_shape :: "64 word Sketch \<Rightarrow> cuda_stream \<Rightarrow> bool" where
  "stream_shape sk s \<longleftrightarrow> params_match (sketchParams s) sk \<and> \<not> cudaUVM_enabled (sketchParams s) \<and>
     (0 < num_batch_per_buffer s \<and> batch_limit s = num_batch_per_buffer s \<and> buffer_id s < 2) \<and>
     (length (h_edgeUpdates s) = 2 * num_batch_per_buffer s * cs_batch_size s \<and> length (h_update_sizes s) = 2 * num_batch_per_buffer s \<and>
      length (h_update_src s) = 2 * num_batch_per_buffer s \<and> length (h_update_start_index s) = 2 * num_batch_per_buffer s) \<and>
     (length (d_edgeUpdates s) = num_batch_per_buffer s * cs_batch_size s \<and> length (d_update_sizes s) = num_batch_per_buffer s \<and>
      length (d_update_src s) = num_batch_per_buffer s \<and> length (d_update_start_index s) = num_batch_per_buffer s) \<and>
     (length (h_buckets s) = num_batch_per_buffer s * num_buckets sk \<and> length (d_buckets s) = num_batch_per_buffer s * num_buckets sk) \<and>
     (0 < num_device_threads s \<and> int_loop_ok (num_buckets sk) (num_device_threads s) \<and>
      int_loop_ok (cs_batch_size s * num_columns sk) (num_device_threads s) \<and> num_batch_per_buffer s * cs_batch_size s < 2 ^ 31)"

definition half_ok :: "cuda_stream \<Rightarrow> (nat \<times> nat list) list \<Rightarrow> bool" where
  "half_ok s buf \<longleftrightarrow> batch_count s = length buf \<and> length buf \<le> num_batch_per_buffer s \<and> half_batches s (length buf) = buf \<and>
     (\<exists>L. batch_offset s = start_index s + L \<and> L \<le> length buf * cs_batch_size s \<and>
       (\<forall>b<length buf. h_update_sizes s ! (start_batch_id s + b) \<le> cs_batch_size s \<and>
         h_update_start_index s ! (start_batch_id s + b) + h_update_sizes s ! (start_batch_id s + b) \<le> L))"

lemma length_delta_buckets: "params_match sp sk \<Longrightarrow> length (delta_buckets sk src dsts) = num_buckets sk"
  using cameo.upds_wf [of "zero_contents sk" cuda_xxh "map (edge_id src) dsts"] cameo.upds_shape [of cuda_xxh "map (edge_id src) dsts" "zero_contents sk"]
  by (auto simp: delta_buckets_def params_match_def zero_contents_def reset_sample_state_def sketch_wf_def same_shape_def)

lemma length_deltas:
  "params_match sp sk \<Longrightarrow> length (concat (map (\<lambda>(src, dsts). delta_buckets sk src dsts) bt)) = length bt * num_buckets sk"
  by (induction bt) (auto simp: length_delta_buckets)

text \<open>A half lies within the buffers.\<close>

lemma half_bounds:
  assumes "stream_shape sk s"
  shows "start_batch_id s + num_batch_per_buffer s \<le> 2 * num_batch_per_buffer s"
    "start_index s + num_batch_per_buffer s * cs_batch_size s \<le> length (h_edgeUpdates s)"
proof -
  have "buffer_id s \<le> 1" using assms by (simp add: stream_shape_def)
  then have "buffer_id s * num_batch_per_buffer s \<le> num_batch_per_buffer s"
    and "buffer_id s * (num_batch_per_buffer s * cs_batch_size s) \<le> num_batch_per_buffer s * cs_batch_size s"
    by (metis mult_le_mono1 nat_mult_1)+
  then show "start_batch_id s + num_batch_per_buffer s \<le> 2 * num_batch_per_buffer s"
    "start_index s + num_batch_per_buffer s * cs_batch_size s \<le> length (h_edgeUpdates s)"
    using assms by (simp_all add: stream_shape_def start_batch_id_def start_index_def mult.assoc)
qed

lemma transfer:
  assumes sh: "stream_shape sk s" and ok: "half_ok s buf" and k: "k = length buf" "0 < k"
  shows "\<exists>s'. exec_ops (transfer_ops env k s) s = Inr s' \<and> stream_shape sk s' \<and> host_part s' = host_part s \<and>
    h_buckets s' = h_buckets s \<and> pending s' = pending s \<and>
    d_buckets s' = concat (map (\<lambda>(src, dsts). delta_buckets sk src dsts) buf) @ drop (k * num_buckets sk) (d_buckets s)"
proof -
  let ?N = "num_batch_per_buffer s" and ?sb = "start_batch_id s" and ?si = "start_index s"
  obtain L where L: "batch_offset s = ?si + L" "L \<le> k * cs_batch_size s"
    "\<forall>b<k. h_update_sizes s ! (?sb + b) \<le> cs_batch_size s \<and> h_update_start_index s ! (?sb + b) + h_update_sizes s ! (?sb + b) \<le> L"
    using ok k by (auto simp: half_ok_def)
  have kN: "k \<le> ?N" and buf: "half_batches s k = buf" using ok k by (auto simp: half_ok_def)
  have "L \<le> ?N * cs_batch_size s" using L(2) kN by (meson le_trans mult_le_mono1)
  then have len: "?si + L \<le> length (h_edgeUpdates s)" "L \<le> length (d_edgeUpdates s)" "?sb + k \<le> 2 * ?N"
    using half_bounds [OF sh] kN sh by (linarith, simp add: stream_shape_def, linarith)
  define args where "args = \<lparr>update_src = take k (drop ?sb (h_update_src s)) @ drop k (d_update_src s),
    update_sizes = take k (drop ?sb (h_update_sizes s)) @ drop k (d_update_sizes s),
    update_start_index = take k (drop ?sb (h_update_start_index s)) @ drop k (d_update_start_index s),
    edge_updates = take L (drop ?si (h_edgeUpdates s)) @ drop L (d_edgeUpdates s)\<rparr>"
  define s4 where "s4 = s\<lparr>d_edgeUpdates := edge_updates args, d_update_sizes := update_sizes args,
    d_update_src := update_src args, d_update_start_index := update_start_index args\<rparr>"
  have lens: "length (h_update_src s) = 2 * ?N" "length (h_update_sizes s) = 2 * ?N" "length (h_update_start_index s) = 2 * ?N"
    "length (d_update_src s) = ?N" "length (d_update_sizes s) = ?N" "length (d_update_start_index s) = ?N"
    "length (d_edgeUpdates s) = ?N * cs_batch_size s"
    using sh by (simp_all add: stream_shape_def)
  have nth: "update_src args ! b = h_update_src s ! (?sb + b)" "update_sizes args ! b = h_update_sizes s ! (?sb + b)"
    "update_start_index args ! b = h_update_start_index s ! (?sb + b)" if "b < k" for b
    using that len(3) lens by (simp_all add: args_def nth_append)
  have edges: "take n (drop i (edge_updates args)) = take n (drop (?si + i) (h_edgeUpdates s))" if "i + n \<le> L" for i n
    using that len(1,2) by (intro nth_equalityI) (simp_all add: args_def nth_append add.assoc)
  have batches: "launch_batches args k = buf"
    unfolding buf [symmetric] using L(3) by (intro nth_equalityI) (simp_all add: launch_batches_def half_batches_def nth edges)
  have p: "params_match (sketchParams s) sk" and nouvm: "\<not> cudaUVM_enabled (sketchParams s)"
    and sp: "skp_num_buckets (sketchParams s) = num_buckets sk" "skp_num_columns (sketchParams s) = num_columns sk"
    and T: "0 < num_device_threads s" "int_loop_ok (num_buckets sk) (num_device_threads s)"
      "int_loop_ok (cs_batch_size s * num_columns sk) (num_device_threads s)"
    using sh by (auto simp: stream_shape_def params_match_def)
  have "launch_ok (sketchParams s) (num_device_threads s) k args"
  proof -
    have "int_loop_ok (update_sizes args ! b * num_columns sk) (num_device_threads s)" if "b < k" for b
    proof -
      have "update_sizes args ! b * num_columns sk \<le> cs_batch_size s * num_columns sk"
        using L(3) that nth(2) [OF that] by (simp add: mult_le_mono1)
      then show ?thesis using T(3) unfolding int_loop_ok_def by linarith
    qed
    moreover have "L \<le> length (edge_updates args)" using len by (simp add: args_def)
    ultimately show ?thesis
      using T kN len(3) lens L(3) unfolding launch_ok_def list_all_iff sp
      by (auto simp: nth intro: le_trans) (simp_all add: args_def)
  qed
  then have launch: "sketchUpdate env (num_device_threads s) k args (sketchParams s) (d_buckets s) =
      Inr (concat (map (\<lambda>(src, dsts). delta_buckets sk src dsts) buf) @ drop (k * num_buckets sk) (d_buckets s))"
    using default_kernels_correct [OF p nouvm _ k(2), of "num_device_threads s" args 1 "d_buckets s" env] batches kN sh
    by (simp add: stream_shape_def mult_le_mono1)
  let ?s' = "s4\<lparr>d_buckets := concat (map (\<lambda>(src, dsts). delta_buckets sk src dsts) buf) @ drop (k * num_buckets sk) (d_buckets s)\<rparr>"
  have "exec_ops (transfer_ops env k s) s = exec_ops [Launch env k] s4"
    using len lens kN L(1) by (simp add: transfer_ops_def copy_range_ok s4_def args_def)
  also have "\<dots> = Inr ?s'"
    using launch nouvm by (simp add: s4_def device_args_def args_def)
  finally have "exec_ops (transfer_ops env k s) s = Inr ?s'" .
  moreover have "length (concat (map (\<lambda>(src, dsts). delta_buckets sk src dsts) buf)) = k * num_buckets sk"
    unfolding k(1) by (rule length_deltas [OF p])
  then have "stream_shape sk ?s'"
    using sh len lens kN by (simp add: stream_shape_def s4_def args_def mult_le_mono1)
  ultimately show ?thesis by (auto simp: s4_def host_part_def)
qed

text \<open>Storing a batch.\<close>

lemma fill_half:
  assumes sh: "stream_shape sk s" and ok: "half_ok s buf" and n: "length buf < num_batch_per_buffer s" and d: "length dsts \<le> cs_batch_size s"
  shows "fill_batch src dsts s = Inr (fill_fun src dsts s)" "stream_shape sk (fill_fun src dsts s)"
    "half_ok (fill_fun src dsts s) (buf @ [(src, dsts)])"
    "batch_offset s + length dsts \<le> start_index s + num_batch_per_buffer s * cs_batch_size s"
    "start_index s \<le> batch_offset s"
proof -
  let ?N = "num_batch_per_buffer s" and ?sb = "start_batch_id s" and ?si = "start_index s" and ?k = "length buf" and ?s = "fill_fun src dsts s"
  obtain L where L: "batch_offset s = ?si + L" "L \<le> ?k * cs_batch_size s"
    "\<forall>b<?k. h_update_sizes s ! (?sb + b) \<le> cs_batch_size s \<and> h_update_start_index s ! (?sb + b) + h_update_sizes s ! (?sb + b) \<le> L"
    and count: "batch_count s = ?k" and buf: "half_batches s ?k = buf"
    using ok by (auto simp: half_ok_def)
  have "L + length dsts \<le> (?k + 1) * cs_batch_size s" using L(2) d by simp
  also have "\<dots> \<le> ?N * cs_batch_size s" using n by (intro mult_le_mono1) simp
  finally have Ld: "L + length dsts \<le> ?N * cs_batch_size s" .
  then show "batch_offset s + length dsts \<le> ?si + ?N * cs_batch_size s" "?si \<le> batch_offset s" using L(1) by simp_all
  have len: "?si + L + length dsts \<le> length (h_edgeUpdates s)" "?sb + ?k < 2 * ?N"
    using half_bounds [OF sh] Ld n by linarith+
  have lens: "length (h_update_src s) = 2 * ?N" "length (h_update_sizes s) = 2 * ?N" "length (h_update_start_index s) = 2 * ?N"
    using sh by (simp_all add: stream_shape_def)
  show "fill_batch src dsts s = Inr ?s" using len lens by (simp add: fill_batch_fun L(1) count)
  show "stream_shape sk ?s" using sh len by (simp add: stream_shape_def fill_fun_def Let_def L(1))
  have f: "start_batch_id ?s = ?sb" "start_index ?s = ?si" "num_batch_per_buffer ?s = ?N" "cs_batch_size ?s = cs_batch_size s"
    "batch_offset ?s = ?si + (L + length dsts)" "batch_count ?s = ?k + 1"
    "h_update_sizes ?s = (h_update_sizes s)[?sb + ?k := length dsts]" "h_update_src ?s = (h_update_src s)[?sb + ?k := src]"
    "h_update_start_index ?s = (h_update_start_index s)[?sb + ?k := L]" "h_edgeUpdates ?s = overwrite (h_edgeUpdates s) (?si + L) dsts"
    by (simp_all add: fill_fun_def Let_def start_batch_id_def start_index_def L(1) [unfolded start_index_def] count)
  have old: "take n (drop (?si + i) (overwrite (h_edgeUpdates s) (?si + L) dsts)) = take n (drop (?si + i) (h_edgeUpdates s))"
    if "i + n \<le> L" for i n
    using that len by (intro nth_equalityI) (simp_all add: nth_overwrite)
  have new: "take (length dsts) (drop (?si + L) (overwrite (h_edgeUpdates s) (?si + L) dsts)) = dsts"
    using len by (simp add: overwrite_def)
  have "half_batches ?s (?k + 1) = half_batches s ?k @ [(src, dsts)]"
    using len lens L(3) by (simp add: half_batches_def f new old cong: map_cong)
  moreover have "h_update_sizes ?s ! (?sb + b) \<le> cs_batch_size s \<and> h_update_start_index ?s ! (?sb + b) + h_update_sizes ?s ! (?sb + b) \<le> L + length dsts"
    if "b < ?k + 1" for b
    using that L(3) len lens d by (cases "b = ?k") (auto simp: f less_Suc_eq intro: le_trans trans_le_add1)
  moreover have "L + length dsts \<le> (?k + 1) * cs_batch_size s" using L(2) d by simp
  ultimately show "half_ok ?s (buf @ [(src, dsts)])"
    using n unfolding half_ok_def f by (auto simp: buf intro!: exI [of _ "L + length dsts"])
qed

section \<open>The stream as a pipeline\<close>

text \<open>With all operations executed: \<open>infl\<close> are the batches of the last launch, whose sketches wait in
  \<open>h_buckets\<close> (none before the first launch), \<open>buf\<close> those of the current half.\<close>

definition infl_ok :: "64 word Sketch \<Rightarrow> cuda_stream \<Rightarrow> (nat \<times> nat list) list \<Rightarrow> bool" where
  "infl_ok sk d infl \<longleftrightarrow> first_buffer d = (infl = []) \<and>
     (infl \<noteq> [] \<longrightarrow> length infl = num_batch_per_buffer d \<and>
        (\<forall>b<num_batch_per_buffer d. h_update_src d ! (prev_batch_id d + b) = fst (infl ! b)) \<and>
        h_buckets d = concat (map (\<lambda>(src, dsts). delta_buckets sk src dsts) infl))"

definition drained :: "64 word Sketch \<Rightarrow> cuda_stream \<Rightarrow> (nat \<times> nat list) list \<Rightarrow> (nat \<times> nat list) list \<Rightarrow> bool" where
  "drained sk d infl buf \<longleftrightarrow> stream_shape sk d \<and> half_ok d buf \<and> length buf < num_batch_per_buffer d \<and> pending d = [] \<and> infl_ok sk d infl"

text \<open>The operations that are pending read the half that the host does not write.\<close>

definition other_half :: "cuda_stream \<Rightarrow> stream_op \<Rightarrow> bool" where
  "other_half s a \<longleftrightarrow> (\<forall>i j b. start_index s \<le> i \<longrightarrow> j \<le> start_index s + num_batch_per_buffer s * cs_batch_size s \<longrightarrow> i \<le> j \<longrightarrow>
     start_batch_id s \<le> b \<longrightarrow> b < start_batch_id s + num_batch_per_buffer s \<longrightarrow> reads_apart i j b a)"

definition stream_inv :: "64 word Sketch \<Rightarrow> cuda_stream \<Rightarrow> (nat \<times> nat list) list \<Rightarrow> (nat \<times> nat list) list \<Rightarrow> bool" where
  "stream_inv sk s infl buf \<longleftrightarrow> (\<exists>d. stream_sync s = Inr d \<and> drained sk d infl buf) \<and> (\<forall>a\<in>set (pending s). other_half s a)"

lemma sync_host: "stream_sync s = Inr d \<Longrightarrow> host_part d = host_part s"
  unfolding stream_sync_def by (drule exec_ops_host) (simp add: host_part_def)

lemma other_half_cong:
  assumes "host_part d = host_part s"
  shows "other_half d = other_half s"
  by (intro ext) (simp only: other_half_def host_part_fields [OF assms])

lemma stream_inv_advance:
  assumes "stream_inv sk s infl buf"
  shows "\<exists>s'. stream_advance k s = Inr s' \<and> stream_inv sk s' infl buf"
proof -
  obtain d where d: "stream_sync s = Inr d" "drained sk d infl buf" and p: "\<forall>a\<in>set (pending s). other_half s a"
    using assms by (auto simp: stream_inv_def)
  obtain s' where s': "stream_advance k s = Inr s'" "stream_sync s' = Inr d" using sync_advance [OF d(1)] by blast
  have "host_part s' = host_part s" "pending s' = drop k (pending s)"
    using s'(1) exec_ops_host exec_ops_keeps_pending by (force simp: stream_advance_def host_part_def)+
  then have "\<forall>a\<in>set (pending s'). other_half s' a"
    using p other_half_cong [of s' s] set_drop_subset [of k "pending s"] by auto
  then show ?thesis using s' d(2) by (auto simp: stream_inv_def)
qed

text \<open>Storing a batch while operations are pending.\<close>

lemma stream_inv_fill:
  assumes inv: "stream_inv sk s infl buf" and l: "length dsts \<le> cs_batch_size s"
  shows "\<exists>d. fill_batch src dsts s = Inr (fill_fun src dsts s) \<and> stream_sync (fill_fun src dsts s) = Inr d \<and>
    stream_shape sk d \<and> half_ok d (buf @ [(src, dsts)]) \<and> pending d = [] \<and> infl_ok sk d infl \<and>
    (\<forall>a\<in>set (pending (fill_fun src dsts s)). other_half (fill_fun src dsts s) a)"
proof -
  obtain d where d: "stream_sync s = Inr d" "drained sk d infl buf" and p: "\<forall>a\<in>set (pending s). other_half s a"
    using inv by (auto simp: stream_inv_def)
  note f = host_part_fields [OF sync_host [OF d(1)]]
  have dr: "stream_shape sk d" "half_ok d buf" "length buf < num_batch_per_buffer d" "pending d = []" "infl_ok sk d infl"
    using d(2) by (auto simp: drained_def)
  note fill = fill_half(1-3) [OF dr(1,2,3) l [folded f(9)], where src = src] fill_half(4,5) [OF dr(1,2,3) l [folded f(9)]]
  have off: "batch_offset s + length dsts \<le> length (h_edgeUpdates s)"
    using fill(4) half_bounds(2) [OF dr(1)] unfolding f by linarith
  have count: "batch_count s = length buf" using dr(2) f by (simp add: half_ok_def)
  have apart: "\<forall>a\<in>set (pending s). reads_apart (batch_offset s) (batch_offset s + length dsts) (start_batch_id s + batch_count s) a"
    using p fill(4,5) dr(3) unfolding f other_half_def count by auto
  have sync: "stream_sync (fill_fun src dsts s) = Inr (fill_fun src dsts d)" by (rule sync_fill [OF d(1) off apart])
  have "fill_batch src dsts s = Inr (fill_fun src dsts s)"
    using fill(1) by (simp add: fill_batch_fun f split: if_splits)
  moreover have "pending (fill_fun src dsts d) = []" using dr(4) by (simp add: fill_fun_def Let_def)
  moreover have "infl_ok sk (fill_fun src dsts d) infl"
  proof -
    have "start_batch_id d + batch_count d \<noteq> prev_batch_id d + b" if "b < num_batch_per_buffer d" for b
    proof -
      have "buffer_id d = 0 \<or> buffer_id d = 1" using dr(1) by (auto simp: stream_shape_def)
      then show ?thesis using that dr(2,3) by (auto simp: prev_batch_id_def start_batch_id_def half_ok_def)
    qed
    then show ?thesis using dr(5) by (auto simp: infl_ok_def fill_fun_def Let_def prev_batch_id_def)
  qed
  moreover have "pending (fill_fun src dsts s) = pending s" "other_half (fill_fun src dsts s) = other_half s"
    by (simp_all add: fill_fun_def Let_def other_half_def [abs_def] start_index_def start_batch_id_def)
  ultimately show ?thesis using sync fill(2,3) p by (intro exI [of _ "fill_fun src dsts d"]) simp
qed

section \<open>What reaches the algorithm\<close>

text \<open>Batches applied one after the other.\<close>

fun apply_all :: "(nat \<Rightarrow> 64 word Bucket list \<Rightarrow> 'a \<Rightarrow> error + 'a) \<Rightarrow> 64 word Sketch \<Rightarrow> nat \<Rightarrow> (nat \<times> nat list) list \<Rightarrow> 'a \<Rightarrow> error + 'a" where
  "apply_all apply_raw sk first [] alg = Inr alg"
| "apply_all apply_raw sk first ((src, dsts) # bt) alg =
     (case apply_raw ((first + src) mod 2 ^ 32) (delta_buckets sk src dsts) alg of
        Inl e \<Rightarrow> Inl e | Inr alg \<Rightarrow> apply_all apply_raw sk first bt alg)"

lemma apply_all_append:
  "apply_all apply_raw sk first (bt @ bt') alg =
    (case apply_all apply_raw sk first bt alg of Inl e \<Rightarrow> Inl e | Inr alg \<Rightarrow> apply_all apply_raw sk first bt' alg)"
  by (induction apply_raw sk first bt alg rule: apply_all.induct) (simp_all split: sum.split)

lemma slot_deltas:
  assumes "params_match sp sk" "b < length bt"
  shows "slot (num_buckets sk) b (concat (map (\<lambda>(src, dsts). delta_buckets sk src dsts) bt) @ rest) = delta_buckets sk (fst (bt ! b)) (snd (bt ! b))"
  using assms(2)
proof (induction bt arbitrary: b)
  case (Cons x bt)
  have l: "length (delta_buckets sk (fst x) (snd x)) = num_buckets sk" by (rule length_delta_buckets [OF assms(1)])
  show ?case
  proof (cases b)
    case (Suc c)
    then show ?thesis using Cons l by (simp add: slot_def split_beta)
  qed (use l in \<open>simp add: slot_def split_beta\<close>)
qed simp

lemma apply_deltas_all:
  assumes p: "params_match (sketchParams s) sk" and h: "h_buckets s = concat (map (\<lambda>(src, dsts). delta_buckets sk src dsts) bt) @ rest"
    and src: "\<forall>b<length bt. h_update_src s ! (first + b) = fst (bt ! b)" and len: "first + length bt \<le> length (h_update_src s)"
  shows "apply_deltas apply_raw s first [0..<length bt] alg = apply_all apply_raw sk (graph_id s * cs_num_nodes s) bt alg"
proof -
  have nb: "skp_num_buckets (sketchParams s) = num_buckets sk" using p by (simp add: params_match_def)
  have "apply_deltas apply_raw s first [k..<length bt] alg = apply_all apply_raw sk (graph_id s * cs_num_nodes s) (drop k bt) alg"
    if "k \<le> length bt" for k
    using that
  proof (induction "length bt - k" arbitrary: k alg)
    case (Suc m)
    then have k: "k < length bt" by simp
    have "(k + 1) * num_buckets sk \<le> length bt * num_buckets sk" using k by (intro mult_le_mono1) simp
    then have hb: "(k + 1) * num_buckets sk \<le> length (h_buckets s)" by (simp add: h length_deltas [OF p])
    have "apply_delta apply_raw s first k alg = apply_raw ((graph_id s * cs_num_nodes s + fst (bt ! k)) mod 2 ^ 32)
        (delta_buckets sk (fst (bt ! k)) (snd (bt ! k))) alg"
      using k len hb src slot_deltas [OF p k, of rest] by (simp add: apply_delta_def nb h [symmetric])
    moreover have "[k..<length bt] = k # [Suc k..<length bt]" "drop k bt = (fst (bt ! k), snd (bt ! k)) # drop (Suc k) bt"
      using k by (simp_all add: upt_conv_Cons Cons_nth_drop_Suc)
    moreover have "apply_deltas apply_raw s first [Suc k..<length bt] alg' = apply_all apply_raw sk (graph_id s * cs_num_nodes s) (drop (Suc k) bt) alg'" for alg'
      using Suc.hyps(2) k by (intro Suc.hyps(1)) simp_all
    ultimately show ?case by (simp del: prod.collapse split: sum.split)
  qed simp
  from this [of 0] show ?thesis by simp
qed

text \<open>The device does not look at the counters of the host.\<close>

definition set_host :: "nat \<Rightarrow> nat \<Rightarrow> nat \<Rightarrow> bool \<Rightarrow> cuda_stream \<Rightarrow> cuda_stream" where
  "set_host c i off f s = s\<lparr>batch_count := c, buffer_id := i, batch_offset := off, first_buffer := f\<rparr>"

lemma exec_ops_set_host: "exec_ops as (set_host c i off f s) = on_inr (set_host c i off f) (exec_ops as s)"
proof (induction as arbitrary: s)
  case (Cons a as)
  have "stream_exec a (set_host c i off f s) = on_inr (set_host c i off f) (stream_exec a s)"
    by (cases a) (simp_all add: set_host_def device_args_def split: option.split sum.split)
  then show ?case using Cons by (cases "stream_exec a s") simp_all
qed simp

lemma launch_full:
  assumes sh: "stream_shape sk d" and ok: "half_ok d buf" and n: "length buf = num_batch_per_buffer d"
    and s': "s' = set_host 0 (1 - buffer_id d) ((1 - buffer_id d) * num_batch_per_buffer d * cs_batch_size d) False
      (d\<lparr>pending := transfer_ops env (length buf) d @ [CopyBuckets (num_buckets sk * num_batch_per_buffer d)]\<rparr>)"
  shows "stream_inv sk s' buf []"
proof -
  let ?N = "num_batch_per_buffer d" and ?nb = "num_buckets sk" and ?b = "1 - buffer_id d"
  let ?G = "set_host 0 ?b (?b * ?N * cs_batch_size d) False"
  have N: "0 < length buf" using sh n by (simp add: stream_shape_def)
  have p: "params_match (sketchParams d) sk" using sh by (simp add: stream_shape_def)
  have b: "buffer_id d = 0 \<or> buffer_id d = 1" using sh by (auto simp: stream_shape_def)
  have sh0: "stream_shape sk (d\<lparr>pending := []\<rparr>)" using sh by (simp add: stream_shape_def)
  have ok0: "half_ok (d\<lparr>pending := []\<rparr>) buf" using ok by (simp add: half_ok_def half_batches_def start_batch_id_def start_index_def)
  have ops: "transfer_ops env (length buf) (d\<lparr>pending := []\<rparr>) = transfer_ops env (length buf) d"
    by (simp add: transfer_ops_def start_batch_id_def start_index_def)
  have hp: "host_part (d\<lparr>pending := []\<rparr>) = host_part d" by (simp add: host_part_def)
  have "drop (length buf * ?nb) (d_buckets d) = []" using sh n by (simp add: stream_shape_def)
  then obtain d' where d': "exec_ops (transfer_ops env (length buf) d) (d\<lparr>pending := []\<rparr>) = Inr d'" "stream_shape sk d'" "host_part d' = host_part d"
    "pending d' = []" "d_buckets d' = concat (map (\<lambda>(src, dsts). delta_buckets sk src dsts) buf)"
    using transfer [OF sh0 ok0 refl N, of env] unfolding ops hp by auto
  note f = host_part_fields [OF d'(3)]
  define d2 where "d2 = d'\<lparr>h_buckets := d_buckets d'\<rparr>"
  have l: "length (d_buckets d') = ?nb * ?N" "length (h_buckets d') = ?nb * ?N" using d'(2) by (simp_all add: stream_shape_def f)
  have "exec_ops (pending s') (d\<lparr>pending := []\<rparr>) = Inr d2"
    using d'(1) l by (simp add: s' set_host_def exec_ops_append copy_range_def d2_def)
  moreover have "s'\<lparr>pending := []\<rparr> = ?G (d\<lparr>pending := []\<rparr>)" by (simp add: s' set_host_def)
  ultimately have "stream_sync s' = Inr (?G d2)" by (simp add: stream_sync_def exec_ops_set_host)
  moreover have "drained sk (?G d2) buf []"
  proof -
    have "stream_shape sk (?G d2)" using d'(2) l by (simp add: stream_shape_def set_host_def d2_def)
    moreover have "half_ok (?G d2) []" by (simp add: half_ok_def half_batches_def set_host_def d2_def start_index_def f)
    moreover have "infl_ok sk (?G d2) buf"
    proof -
      have "prev_batch_id (?G d2) = start_batch_id d" using b by (auto simp: prev_batch_id_def start_batch_id_def set_host_def d2_def f)
      moreover have "h_update_src d ! (start_batch_id d + i) = fst (buf ! i)" if "i < length buf" for i
        using that ok arg_cong [of _ _ "\<lambda>xs. fst (xs ! i)"] unfolding half_ok_def by (metis (no_types, lifting) add_0 diff_zero fst_conv half_batches_def length_upt nth_map nth_upt)
      ultimately show ?thesis using n N d'(5) by (auto simp: infl_ok_def set_host_def d2_def f)
    qed
    ultimately show ?thesis using d'(4) n N by (simp add: drained_def set_host_def d2_def f)
  qed
  moreover have "other_half s' a" if "a \<in> set (pending s')" for a
  proof -
    obtain L where L: "batch_offset d = start_index d + L" "L \<le> ?N * cs_batch_size d" using ok n by (auto simp: half_ok_def)
    have "a \<in> set (transfer_ops env ?N d) \<or> a = CopyBuckets (?nb * ?N)" using that n by (auto simp: s' set_host_def)
    then show ?thesis
      using b L by (auto simp: transfer_ops_def other_half_def s' set_host_def start_index_def start_batch_id_def)
  qed
  ultimately show ?thesis by (auto simp: stream_inv_def)
qed

definition statics :: "cuda_stream \<Rightarrow> nat \<times> nat \<times> nat \<times> nat \<times> SketchParams" where
  "statics s = (graph_id s, cs_num_nodes s, cs_batch_size s, num_batch_per_buffer s, sketchParams s)"

lemma statics_fields:
  assumes "statics d = statics s"
  shows "graph_id d = graph_id s" "cs_num_nodes d = cs_num_nodes s" "cs_batch_size d = cs_batch_size s"
    "num_batch_per_buffer d = num_batch_per_buffer s" "sketchParams d = sketchParams s"
  using assms by (simp_all add: statics_def)

text \<open>One batch: it joins the current half; a full half is launched, after the sketches of the previous
  launch have been applied.\<close>

lemma process_batch_default_inv:
  assumes inv: "stream_inv sk s infl buf" and l: "length dsts \<le> cs_batch_size s"
    and alg: "apply_all apply_raw sk (graph_id s * cs_num_nodes s) infl alg = Inr alg'"
    and full: "full \<longleftrightarrow> length buf + 1 = num_batch_per_buffer s"
  shows "\<exists>s'. process_batch_default apply_raw env src dsts (alg, s) = Inr (if full then alg' else alg, s') \<and> statics s' = statics s \<and>
    (if full then stream_inv sk s' (buf @ [(src, dsts)]) [] else stream_inv sk s' infl (buf @ [(src, dsts)]))"
proof -
  let ?s = "fill_fun src dsts s" and ?buf = "buf @ [(src, dsts)]"
  obtain d where fb: "fill_batch src dsts s = Inr ?s" and d: "stream_sync ?s = Inr d" "stream_shape sk d" "half_ok d ?buf" "pending d = []" "infl_ok sk d infl"
    and p: "\<forall>a\<in>set (pending ?s). other_half ?s a"
    using stream_inv_fill [OF inv l, of src] by blast
  note f = host_part_fields [OF sync_host [OF d(1)]]
  have st: "statics ?s = statics s" by (simp add: statics_def fill_fun_def Let_def)
  note g = statics_fields [OF st]
  have count: "batch_count ?s = length ?buf" and limit: "batch_limit ?s = num_batch_per_buffer s"
    using d(2,3) by (simp_all add: half_ok_def stream_shape_def f g)
  have lt: "length buf < num_batch_per_buffer s" using d(3) by (simp add: half_ok_def f g)
  show ?thesis
  proof (cases full)
    case True
    then have n: "length ?buf = num_batch_per_buffer d" using full by (simp add: f g)
    have applied: "(if first_buffer d then Inr alg else apply_deltas apply_raw d (prev_batch_id d) [0..<batch_limit d] alg) = Inr alg'"
    proof (cases "infl = []")
      case False
      then have i: "length infl = num_batch_per_buffer d" "\<forall>b<length infl. h_update_src d ! (prev_batch_id d + b) = fst (infl ! b)"
        "h_buckets d = concat (map (\<lambda>(src, dsts). delta_buckets sk src dsts) infl) @ []" "\<not> first_buffer d"
        using d(5) by (auto simp: infl_ok_def)
      have "prev_batch_id d + length infl \<le> length (h_update_src d)"
        using d(2) i(1) by (cases "buffer_id d") (auto simp: stream_shape_def prev_batch_id_def)
      moreover have "params_match (sketchParams d) sk" "batch_limit d = length infl" using d(2) i(1) by (auto simp: stream_shape_def)
      ultimately show ?thesis using apply_deltas_all [OF _ i(3,2), where apply_raw = apply_raw and alg = alg] alg i(4) by (simp add: f g)
    qed (use d(5) alg in \<open>simp add: infl_ok_def\<close>)
    define s' where "s' = set_host 0 (1 - buffer_id d) ((1 - buffer_id d) * num_batch_per_buffer d * cs_batch_size d) False
      (d\<lparr>pending := transfer_ops env (length ?buf) d @ [CopyBuckets (num_buckets sk * num_batch_per_buffer d)]\<rparr>)"
    have nb: "skp_num_buckets (sketchParams d) = num_buckets sk" using d(2) by (simp add: stream_shape_def params_match_def)
    have s': "(switch_buffer (d\<lparr>pending := transfer_ops env (batch_count d) d @
        [CopyBuckets (skp_num_buckets (sketchParams d) * num_batch_per_buffer d)]\<rparr>))\<lparr>first_buffer := False\<rparr> = s'"
      using d(3) by (simp add: s'_def set_host_def switch_buffer_def Let_def nb half_ok_def)
    have "process_batch_default apply_raw env src dsts (alg, s) = Inr (alg', s')"
      using applied count limit full True unfolding process_batch_default_def snd_conv fst_conv fb
      by (simp add: d(1) s')
    moreover have "stream_inv sk s' ?buf []" by (rule launch_full [OF d(2,3) n s'_def])
    moreover have "statics s' = statics s" by (simp add: s'_def set_host_def statics_def f g)
    ultimately show ?thesis using True by auto
  next
    case False
    then have "process_batch_default apply_raw env src dsts (alg, s) = Inr (alg, ?s)"
      using count limit full by (simp add: process_batch_default_def fb)
    moreover have "stream_inv sk ?s infl ?buf"
      using d p False full lt by (auto simp: stream_inv_def drained_def f g)
    ultimately show ?thesis using False st by auto
  qed
qed

text \<open>A flush applies what is in flight and then what is buffered, and changes no counter of the host.\<close>

lemma flush_default_inv:
  assumes inv: "stream_inv sk s infl buf" and infl: "infl \<noteq> []"
    and alg: "apply_all apply_raw sk (graph_id s * cs_num_nodes s) (infl @ buf) alg = Inr alg'"
  shows "\<exists>s'. flush_buffers_default apply_raw env (alg, s) = Inr (alg', s') \<and> host_part s' = host_part s \<and> pending s' = [] \<and>
    (buf = [] \<longrightarrow> stream_inv sk s' infl buf)"
proof -
  obtain d where d: "stream_sync s = Inr d" "stream_shape sk d" "half_ok d buf" "length buf < num_batch_per_buffer d" "pending d = []" "infl_ok sk d infl"
    using inv by (auto simp: stream_inv_def drained_def)
  note hp = sync_host [OF d(1)]
  note f = host_part_fields [OF hp]
  have p: "params_match (sketchParams d) sk" and limit: "batch_limit d = num_batch_per_buffer d" and N: "num_batch_per_buffer d * cs_batch_size d < 2 ^ 31"
    using d(2) by (simp_all add: stream_shape_def)
  have i: "length infl = num_batch_per_buffer d" "\<forall>b<length infl. h_update_src d ! (prev_batch_id d + b) = fst (infl ! b)"
    "h_buckets d = concat (map (\<lambda>(src, dsts). delta_buckets sk src dsts) infl) @ []"
    using d(6) infl by (auto simp: infl_ok_def)
  have "prev_batch_id d + length infl \<le> length (h_update_src d)"
    using d(2) i(1) by (cases "buffer_id d") (auto simp: stream_shape_def prev_batch_id_def)
  note ap = apply_deltas_all [OF p i(3,2) this, where apply_raw = apply_raw and alg = alg, unfolded i(1)]
  obtain alg1 where a1: "apply_all apply_raw sk (graph_id s * cs_num_nodes s) infl alg = Inr alg1"
    "apply_all apply_raw sk (graph_id s * cs_num_nodes s) buf alg1 = Inr alg'"
    using alg by (auto simp: apply_all_append split: sum.splits)
  have ad: "apply_deltas apply_raw d (prev_batch_id d) [0..<batch_limit d] alg = Inr alg1"
    using ap a1(1) by (simp add: limit f)
  show ?thesis
  proof (cases "buf = []")
    case True
    then have "flush_buffers_default apply_raw env (alg, s) = Inr (alg', d)"
      using ad a1(2) d(1,3) by (simp add: flush_buffers_default_def half_ok_def)
    moreover have "stream_sync d = Inr d" using d(5) by (simp add: stream_sync_def)
    then have "stream_inv sk d infl buf" using d(2-6) by (simp add: stream_inv_def drained_def)
    ultimately show ?thesis using hp d(5) by blast
  next
    case False
    then have k: "0 < length buf" by simp
    have count: "batch_count d = length buf" using d(3) by (simp add: half_ok_def)
    have "start_index d \<le> num_batch_per_buffer d * cs_batch_size d"
      using d(2) by (cases "buffer_id d") (auto simp: stream_shape_def start_index_def)
    then have si: "start_index d < 2 ^ 31" using N by linarith
    obtain d' where d': "exec_ops (transfer_ops env (length buf) d) d = Inr d'" "stream_shape sk d'" "host_part d' = host_part d" "pending d' = []"
      "d_buckets d' = concat (map (\<lambda>(src, dsts). delta_buckets sk src dsts) buf) @ drop (length buf * num_buckets sk) (d_buckets d)"
      using transfer [OF d(2,3) refl k, of env] d(5) by auto
    note f' = host_part_fields [OF d'(3)]
    have nb: "skp_num_buckets (sketchParams d) = num_buckets sk" using p by (simp add: params_match_def)
    have kn: "num_buckets sk * length buf \<le> num_buckets sk * num_batch_per_buffer d" using d(4) by (intro mult_le_mono2) simp
    define d2 where "d2 = d'\<lparr>h_buckets := concat (map (\<lambda>(src, dsts). delta_buckets sk src dsts) buf) @ drop (num_buckets sk * length buf) (h_buckets d')\<rparr>"
    have ld: "length (concat (map (\<lambda>(src, dsts). delta_buckets sk src dsts) buf)) = num_buckets sk * length buf"
      using length_deltas [OF p, of buf] by simp
    have "length (d_buckets d') = num_buckets sk * num_batch_per_buffer d" "length (h_buckets d') = num_buckets sk * num_batch_per_buffer d"
      using d'(2) by (simp_all add: stream_shape_def f')
    then have "copy_range (d_buckets d') 0 (num_buckets sk * length buf) (h_buckets d') = Some (h_buckets d2)"
      using kn ld by (simp add: copy_range_ok d'(5) d2_def)
    moreover have "d\<lparr>pending := []\<rparr> = d" using d(5) by simp
    ultimately have sync: "stream_sync (d\<lparr>pending := transfer_ops env (batch_count d) d @ [CopyBuckets (skp_num_buckets (sketchParams d) * batch_count d)]\<rparr>) = Inr d2"
      using d'(1) by (simp add: stream_sync_def exec_ops_append count nb d2_def)
    have hp2: "host_part d2 = host_part d" using d'(3) by (simp add: d2_def host_part_def)
    note f2 = host_part_fields [OF hp2]
    have "half_batches d (length buf) = buf" using d(3) by (simp add: half_ok_def)
    then have src: "\<forall>b<length buf. h_update_src d2 ! (start_batch_id d + b) = fst (buf ! b)"
      unfolding f2 by (metis (no_types, lifting) add_0 diff_zero fst_conv half_batches_def length_upt nth_map nth_upt)
    have "start_batch_id d + length buf \<le> length (h_update_src d2)"
      using half_bounds(1) [OF d(2)] d(2,4) by (simp add: f2 stream_shape_def)
    moreover have "h_buckets d2 = concat (map (\<lambda>(src, dsts). delta_buckets sk src dsts) buf) @ drop (num_buckets sk * length buf) (h_buckets d')"
      by (simp add: d2_def)
    ultimately have ad2: "apply_deltas apply_raw d2 (start_batch_id d) [0..<length buf] alg1 = Inr alg'"
      using apply_deltas_all [of d2 sk buf _ "start_batch_id d" apply_raw alg1] src p a1(2) by (simp add: f2 f)
    have "flush_buffers_default apply_raw env (alg, s) = Inr (alg', d2)"
      using ad ad2 d(1) sync si False count unfolding flush_buffers_default_def by (simp add: f2)
    moreover have "pending d2 = []" using d'(4) by (simp add: d2_def)
    ultimately show ?thesis using hp hp2 False by auto
  qed
qed

section \<open>Runs\<close>

text \<open>The host hands over batches, and the device makes progress in between.\<close>

datatype stream_event = Batch launch_env nat "nat list" | Progress nat

fun stream_run :: "(nat \<Rightarrow> 64 word Bucket list \<Rightarrow> 'a \<Rightarrow> error + 'a) \<Rightarrow> stream_event list \<Rightarrow> 'a \<times> cuda_stream \<Rightarrow> error + 'a \<times> cuda_stream" where
  "stream_run apply_raw [] st = Inr st"
| "stream_run apply_raw (Batch env src dsts # es) st =
     (case process_batch apply_raw env src dsts st of Inl e \<Rightarrow> Inl e | Inr st \<Rightarrow> stream_run apply_raw es st)"
| "stream_run apply_raw (Progress k # es) st =
     (case stream_advance k (snd st) of Inl e \<Rightarrow> Inl e | Inr s \<Rightarrow> stream_run apply_raw es (fst st, s))"

definition event_batches :: "stream_event list \<Rightarrow> (nat \<times> nat list) list" where
  "event_batches es = concat (map (\<lambda>e. case e of Batch env src dsts \<Rightarrow> [(src, dsts)] | Progress k \<Rightarrow> []) es)"

lemma event_batches_simps [simp]: "event_batches [] = []" "event_batches (Batch env src dsts # es) = (src, dsts) # event_batches es"
  "event_batches (Progress k # es) = event_batches es"
  by (simp_all add: event_batches_def)

lemma apply_all_prefix:
  assumes "apply_all apply_raw sk first (bt @ bt') alg = Inr alg'"
  shows "\<exists>alg1. apply_all apply_raw sk first bt alg = Inr alg1 \<and> apply_all apply_raw sk first bt' alg1 = Inr alg'"
  using assms by (auto simp: apply_all_append split: sum.splits)

lemma stream_advance_statics: "stream_advance k s = Inr s' \<Longrightarrow> statics s' = statics s"
  unfolding stream_advance_def by (drule exec_ops_host) (simp add: host_part_def statics_def)

lemma stream_inv_params:
  assumes "stream_inv sk s infl buf"
  shows "\<not> cudaUVM_enabled (sketchParams s)" "0 < num_batch_per_buffer s"
proof -
  obtain d where d: "stream_sync s = Inr d" "stream_shape sk d" using assms by (auto simp: stream_inv_def drained_def)
  then show "\<not> cudaUVM_enabled (sketchParams s)" "0 < num_batch_per_buffer s"
    using host_part_fields [OF sync_host [OF d(1)]] by (auto simp: stream_shape_def)
qed

lemma stream_run_inv:
  assumes "stream_inv sk s infl buf" "\<forall>(src, dsts)\<in>set (event_batches es). length dsts \<le> cs_batch_size s"
    and "apply_all apply_raw sk (graph_id s * cs_num_nodes s) (infl @ buf @ event_batches es) alg = Inr alg'"
  shows "\<exists>alg1 s' infl' buf' done'. stream_run apply_raw es (alg, s) = Inr (alg1, s') \<and> stream_inv sk s' infl' buf' \<and> statics s' = statics s \<and>
    infl @ buf @ event_batches es = done' @ infl' @ buf' \<and> apply_all apply_raw sk (graph_id s * cs_num_nodes s) done' alg = Inr alg1 \<and>
    (infl \<noteq> [] \<or> num_batch_per_buffer s \<le> length buf + length (event_batches es) \<longrightarrow> infl' \<noteq> [])"
  using assms
proof (induction es arbitrary: s infl buf alg)
  case Nil
  have "length buf < num_batch_per_buffer s"
  proof -
    obtain d where d: "stream_sync s = Inr d" "drained sk d infl buf" using Nil.prems(1) by (auto simp: stream_inv_def)
    then show ?thesis using host_part_fields(8) [OF sync_host [OF d(1)]] by (auto simp: drained_def)
  qed
  then show ?case using Nil.prems(1) by (intro exI [of _ alg] exI [of _ s] exI [of _ infl] exI [of _ buf] exI [of _ "[]"]) auto
next
  case (Cons e es)
  show ?case
  proof (cases e)
    case (Progress k)
    obtain s1 where s1: "stream_advance k s = Inr s1" "stream_inv sk s1 infl buf" using stream_inv_advance [OF Cons.prems(1)] by blast
    note g = statics_fields [OF stream_advance_statics [OF s1(1)]]
    show ?thesis
      using Cons.IH [OF s1(2), of alg] Cons.prems(2,3) stream_advance_statics [OF s1(1)] unfolding Progress
      by (simp add: s1(1) g)
  next
    case (Batch env src dsts)
    let ?first = "graph_id s * cs_num_nodes s" and ?rest = "event_batches es"
    define full where "full \<longleftrightarrow> length buf + 1 = num_batch_per_buffer s"
    have l: "length dsts \<le> cs_batch_size s" using Cons.prems(2) by (simp add: Batch)
    obtain alg1 where a1: "apply_all apply_raw sk ?first infl alg = Inr alg1"
      "apply_all apply_raw sk ?first (buf @ (src, dsts) # ?rest) alg1 = Inr alg'"
      using apply_all_prefix [OF Cons.prems(3)] by (auto simp: Batch)
    obtain s1 where s1: "process_batch_default apply_raw env src dsts (alg, s) = Inr (if full then alg1 else alg, s1)" "statics s1 = statics s"
      "if full then stream_inv sk s1 (buf @ [(src, dsts)]) [] else stream_inv sk s1 infl (buf @ [(src, dsts)])"
      using process_batch_default_inv [OF Cons.prems(1) l a1(1) full_def, of env src] by blast
    note g = statics_fields [OF s1(2)]
    have pb: "process_batch apply_raw env src dsts (alg, s) = Inr (if full then alg1 else alg, s1)"
      using s1(1) stream_inv_params [OF Cons.prems(1)] by (simp add: process_batch_def)
    show ?thesis
    proof (cases full)
      case True
      obtain alg2 s' infl' buf' done' where r: "stream_run apply_raw es (alg1, s1) = Inr (alg2, s')" "stream_inv sk s' infl' buf'" "statics s' = statics s1"
        "(buf @ [(src, dsts)]) @ [] @ ?rest = done' @ infl' @ buf'" "apply_all apply_raw sk ?first done' alg1 = Inr alg2" "infl' \<noteq> []"
        using Cons.IH [of s1 "buf @ [(src, dsts)]" "[]" alg1] s1(3) True a1(2) Cons.prems(2) by (auto simp: Batch g)
      show ?thesis
        using r s1(2) True pb a1(1) by (intro exI [of _ alg2] exI [of _ s'] exI [of _ infl'] exI [of _ buf'] exI [of _ "infl @ done'"])
          (simp add: Batch apply_all_append)
    next
      case False
      obtain alg2 s' infl' buf' done' where r: "stream_run apply_raw es (alg, s1) = Inr (alg2, s')" "stream_inv sk s' infl' buf'" "statics s' = statics s1"
        "infl @ (buf @ [(src, dsts)]) @ ?rest = done' @ infl' @ buf'" "apply_all apply_raw sk ?first done' alg = Inr alg2"
        "infl \<noteq> [] \<or> num_batch_per_buffer s \<le> length (buf @ [(src, dsts)]) + length ?rest \<longrightarrow> infl' \<noteq> []"
      proof -
        have i1: "stream_inv sk s1 infl (buf @ [(src, dsts)])" using s1(3) False by simp
        have l1: "\<forall>(src, dsts)\<in>set ?rest. length dsts \<le> cs_batch_size s1" using Cons.prems(2) by (simp add: Batch g)
        have al: "apply_all apply_raw sk (graph_id s1 * cs_num_nodes s1) (infl @ (buf @ [(src, dsts)]) @ ?rest) alg = Inr alg'"
          using Cons.prems(3) by (simp add: Batch g)
        show thesis using Cons.IH [OF i1 l1 al] that unfolding g by blast
      qed
      show ?thesis
        using r s1(2) False pb by (intro exI [of _ alg2] exI [of _ s'] exI [of _ infl'] exI [of _ buf'] exI [of _ done']) (auto simp: Batch)
    qed
  qed
qed

lemma CudaStream_new_inv:
  assumes "params_match sp sk" "\<not> cudaUVM_enabled sp" "0 < N" "0 < T" "int_loop_ok (num_buckets sk) T"
    and "int_loop_ok (bs * num_columns sk) T" "N * bs < 2 ^ 31"
  shows "stream_inv sk (CudaStream_new junk bs gid n T N sp managed) [] []"
proof -
  let ?s = "CudaStream_new junk bs gid n T N sp managed"
  have nb: "skp_num_buckets sp = num_buckets sk" using assms(1) by (simp add: params_match_def)
  have "stream_shape sk ?s" using assms by (simp add: stream_shape_def CudaStream_new_def Let_def nb)
  moreover have "half_ok ?s []" by (simp add: half_ok_def half_batches_def CudaStream_new_def Let_def start_index_def)
  moreover have "stream_sync ?s = Inr ?s" by (simp add: stream_sync_def CudaStream_new_def Let_def)
  ultimately show ?thesis using assms(3)
    by (simp add: stream_inv_def drained_def infl_ok_def) (simp add: CudaStream_new_def Let_def)
qed


definition log_raw :: "nat \<Rightarrow> 64 word Bucket list \<Rightarrow> (nat \<times> 64 word Bucket list) list \<Rightarrow> error + (nat \<times> 64 word Bucket list) list" where
  "log_raw v bs calls = Inr (calls @ [(v, bs)])"

definition example_junk :: stream_junk where
  "example_junk = \<lparr>junk_nat = (\<lambda>i. 99), junk_bucket = (\<lambda>i. \<lparr>alpha = 1, gamma = 1\<rparr>)\<rparr>"

definition example_events :: "stream_event list" where
  "example_events = [Batch example_env 1 [0, 2], Progress 3, Batch example_env 0 [2], Progress 2, Batch example_env 1 [2]]"

lemma example_params_match: "params_match (example_skp False) example_sketch" "\<not> cudaUVM_enabled (example_skp False)"
    "int_loop_ok (num_buckets example_sketch) 4" "int_loop_ok (2 * num_columns example_sketch) 4"
  by (simp_all add: example_launch_defs)


section \<open>Where the code falls short\<close>

text \<open>A flush does not mark the delivered sketches as applied. After a run that has filled exactly one
  buffer the first flush applies its batches and every further flush applies them again; over sketches
  that are XORed, the second one deletes what the first has added.\<close>

theorem repeated_flush_reapplies:
  assumes "params_match sp sk" "\<not> cudaUVM_enabled sp" "0 < N" "0 < T" "int_loop_ok (num_buckets sk) T"
    and "int_loop_ok (bs * num_columns sk) T" "N * bs < 2 ^ 31"
    and "list_all (\<lambda>(src, dsts). length dsts \<le> bs) (event_batches es)" "length (event_batches es) = N"
    and "apply_all apply_raw sk (gid * n) (event_batches es @ event_batches es) alg = Inr alg''"
  shows "\<exists>st st1 s2. stream_run apply_raw es (alg, CudaStream_new junk bs gid n T N sp managed) = Inr st \<and>
    flush_buffers apply_raw env st = Inr st1 \<and> flush_buffers apply_raw env' st1 = Inr (alg'', s2)"
proof -
  let ?s = "CudaStream_new junk bs gid n T N sp managed" and ?bt = "event_batches es"
  have f: "graph_id ?s = gid" "cs_num_nodes ?s = n" "cs_batch_size ?s = bs" "num_batch_per_buffer ?s = N"
    by (simp_all add: CudaStream_new_def Let_def)
  note inv = CudaStream_new_inv [OF assms(1-7), of junk gid n managed]
  obtain alg' where a': "apply_all apply_raw sk (gid * n) ?bt alg = Inr alg'" "apply_all apply_raw sk (gid * n) ?bt alg' = Inr alg''"
    using apply_all_prefix [OF assms(10)] by blast
  obtain alg1 s' infl buf done' where r: "stream_run apply_raw es (alg, ?s) = Inr (alg1, s')" "stream_inv sk s' infl buf" "statics s' = statics ?s"
    "?bt = done' @ infl @ buf" "apply_all apply_raw sk (gid * n) done' alg = Inr alg1" "infl \<noteq> []"
    using stream_run_inv [OF inv, of es apply_raw alg alg'] assms(8,9) a'(1) unfolding f list_all_iff by auto
  note g = statics_fields [OF r(3), unfolded f]
  obtain d where d: "stream_sync s' = Inr d" "infl_ok sk d infl" using r(2) by (auto simp: stream_inv_def drained_def)
  have "length infl = N" using d(2) r(6) host_part_fields(8) [OF sync_host [OF d(1)]] g(4) by (simp add: infl_ok_def)
  then have e: "done' = []" "buf = []" "infl = ?bt" using r(4) assms(9) by auto
  then have r': "stream_run apply_raw es (alg, ?s) = Inr (alg, s')" "stream_inv sk s' ?bt []" using r(1,2,5) by simp_all
  have "?bt \<noteq> []" using assms(3,9) by auto
  then obtain s1 where s1: "flush_buffers_default apply_raw env (alg, s') = Inr (alg', s1)" "host_part s1 = host_part s'" "stream_inv sk s1 ?bt []"
    using flush_default_inv [OF r'(2), of apply_raw alg alg' env] a'(1) g by auto
  note h = host_part_fields [OF s1(2)]
  obtain s2 where "flush_buffers_default apply_raw env' (alg', s1) = Inr (alg'', s2)"
    using flush_default_inv [OF s1(3) \<open>?bt \<noteq> []\<close>, of apply_raw alg' alg'' env'] a'(2) g h by auto
  then show ?thesis
    using r'(1) s1(1) stream_inv_params(1) [OF r'(2)] stream_inv_params(1) [OF s1(3)] by (auto simp: flush_buffers_def)
qed

theorem repeated_flush_reapplies_witness:
  "\<exists>st st1 s2. stream_run log_raw [Batch example_env 1 [0, 2]] ([], CudaStream_new example_junk 2 0 3 4 1 (example_skp False) []) = Inr st \<and>
    flush_buffers log_raw example_env st = Inr st1 \<and>
    flush_buffers log_raw example_env st1 = Inr ([(1, delta_buckets example_sketch 1 [0, 2]), (1, delta_buckets example_sketch 1 [0, 2])], s2)"
  using repeated_flush_reapplies [OF example_params_match(1,2) _ _ example_params_match(3,4), of 1 "[Batch example_env 1 [0, 2]]" log_raw 0 3 "[]"]
  by (simp add: log_raw_def)

text \<open>A flush before the first buffer is full applies the uninitialised memory of \<^verbatim>\<open>h_buckets\<close> to the
  sketch of vertex 0.\<close>

theorem flush_before_launch:
  "\<exists>s'. flush_buffers log_raw example_env ([], CudaStream_new example_junk 2 0 3 4 2 (example_skp False) []) =
    Inr ([(0, replicate 7 \<lparr>alpha = 1, gamma = 1\<rparr>), (0, replicate 7 \<lparr>alpha = 1, gamma = 1\<rparr>)], s')"
proof -
  let ?s = "CudaStream_new example_junk 2 0 3 4 2 (example_skp False) []" and ?b = "\<lparr>alpha = 1, gamma = 1\<rparr> :: 64 word Bucket"
  have sync: "stream_sync ?s = Inr ?s" by (simp add: stream_sync_def CudaStream_new_def Let_def)
  have f: "h_buckets ?s = replicate 14 ?b" "h_update_src ?s = replicate 4 0" "graph_id ?s = 0" "cs_num_nodes ?s = 3" "batch_limit ?s = 2"
    "batch_count ?s = 0" "prev_batch_id ?s = 2" "skp_num_buckets (sketchParams ?s) = 7" "\<not> cudaUVM_enabled (sketchParams ?s)"
    by (simp_all add: CudaStream_new_def Let_def example_skp_def example_junk_def prev_batch_id_def map_replicate_const)
  have two: "[0..<2] = [0, 1 :: nat]" by (simp add: upt_rec)
  have "apply_deltas log_raw ?s 2 [0..<2] [] = Inr [(0, replicate 7 ?b), (0, replicate 7 ?b)]"
    unfolding two by (simp add: apply_delta_def f slot_def log_raw_def)
  then show ?thesis by (simp add: flush_buffers_def flush_buffers_default_def sync f)
qed

end
