(* ===== verification/Stream_Bank.thy ===== *)
theory Stream_Bank
  imports Cuda_Stream_Correctness
begin

text \<open>
  Several streams that feed the sketches of one algorithm. What a stream needs of the algorithm is the
  interface \<open>raw_target\<close>: applying the sketch of a batch to slot \<open>i\<close> adds the edge ids of the batch to that
  slot, and the order in which batches are added does not matter. Inside it the invariant of a bank of
  streams in the default mode is kept by every operation of a stream, in whatever order the streams
  are used.
\<close>

section \<open>Batches as edge ids of slots\<close>

definition batch_ids :: "nat \<Rightarrow> nat \<times> nat list \<Rightarrow> nat \<times> vec_t list" where
  "batch_ids first b = (first + fst b, map (edge_id (fst b)) (snd b))"

definition slot_ids :: "(nat \<times> vec_t list) list \<Rightarrow> nat \<Rightarrow> vec_t list" where
  "slot_ids bt i = concat (map (\<lambda>(j, ids). if j = i then ids else []) bt)"

lemma slot_ids_simps [simp]: "slot_ids [] i = []" "slot_ids ((j, ids) # bt) i = (if j = i then ids else []) @ slot_ids bt i"
  "slot_ids (bt @ bt') i = slot_ids bt i @ slot_ids bt' i"
  by (simp_all add: slot_ids_def)

lemma mset_slot_ids: "mset bt = mset bt' \<Longrightarrow> mset (slot_ids bt i) = mset (slot_ids bt' i)"
  unfolding slot_ids_def by (rule mset_concat_map)

abbreviation add_ids :: "vec_t list \<Rightarrow> 64 word Sketch \<Rightarrow> 64 word Sketch" where
  "add_ids \<equiv> fold (\<lambda>x sk. Sketch_update cuda_xxh sk x)"

lemma add_ids_mset:
  assumes "sketch_wf sk" "mset xs = mset ys"
  shows "add_ids xs sk = add_ids ys sk"
proof -
  define z where "z = sk\<lparr>buckets := replicate (num_buckets sk) zero_bucket\<rparr>"
  have z: "sketch_wf z" "same_shape sk z" "buckets z = replicate (num_buckets sk) zero_bucket"
    using assms(1) by (auto simp: z_def sketch_wf_def same_shape_def)
  have "sketch_repr cuda_xxh (in_bucket cuda_xxh) {..<num_buckets z} z {}" using z by (auto simp: sketch_repr_def z_def)
  then have e: "add_ids xs z = add_ids ys z" using cameo.upds_eq [OF z(1), of cuda_xxh xs ys] odd_set_mset [OF assms(2)] by simp
  have "buckets (add_ids xs sk) = buckets (add_ids ys sk)"
  proof (rule nth_equalityI)
    have l: "length (buckets (add_ids zs sk)) = num_buckets sk" for zs
    proof -
      have "length (buckets (add_ids zs sk)) = num_buckets (add_ids zs sk)" using cameo.upds_wf [OF assms(1), of cuda_xxh zs] by (simp add: sketch_wf_def)
      also have "\<dots> = num_buckets sk" using cameo.upds_shape [of cuda_xxh zs sk] by (simp add: same_shape_def)
      finally show ?thesis .
    qed
    show "length (buckets (add_ids xs sk)) = length (buckets (add_ids ys sk))" by (simp add: l)
    fix i assume "i < length (buckets (add_ids xs sk))"
    then have i: "i < num_buckets sk" by (simp add: l)
    show "buckets (add_ids xs sk) ! i = buckets (add_ids ys sk) ! i"
      unfolding upds_from_zero [OF assms(1) z i] e ..
  qed
  then show ?thesis using cameo.upds_frame [of cuda_xxh xs sk] cameo.upds_frame [of cuda_xxh ys sk] by simp
qed

lemma merge_raw_delta:
  assumes "params_match sp sk" "sketch_wf sk'" "same_shape sk' sk"
  shows "merge_raw_bucket_buffer sk' (delta_buckets sk src dsts) = add_ids (map (edge_id src) dsts) sk'"
proof -
  have "num_buckets sk' = num_buckets sk" using assms(3) by (simp add: same_shape_def)
  then have "merge_buckets [0..<num_buckets sk'] (delta_buckets sk src dsts) (buckets sk') = map2 Bucket_xor (buckets sk') (delta_buckets sk src dsts)"
    using assms length_delta_buckets [OF assms(1), of src dsts]
    by (intro nth_equalityI) (auto simp: nth_merge_buckets sketch_wf_def)
  then show ?thesis
    unfolding merge_raw_bucket_buffer_def using delta_xor [OF assms] by (subst cameo.upds_frame) simp
qed

section \<open>Managed memory in the default mode\<close>

lemma exec_ops_uvm:
  assumes "\<not> cudaUVM_enabled (sketchParams s)"
  shows "exec_ops as (s\<lparr>uvm_buckets := m\<rparr>) = on_inr (\<lambda>d. d\<lparr>uvm_buckets := m\<rparr>) (exec_ops as s)"
  using assms
proof (induction as arbitrary: s)
  case (Cons a as)
  have e: "stream_exec a (s\<lparr>uvm_buckets := m\<rparr>) = on_inr (\<lambda>d. d\<lparr>uvm_buckets := m\<rparr>) (stream_exec a s)"
    using Cons.prems by (cases a) (simp_all add: device_args_def split: option.split sum.split)
  show ?case
  proof (cases "stream_exec a s")
    case (Inr s')
    have "sketchParams s' = sketchParams s" by (rule host_part_fields(11) [OF stream_exec_host [OF Inr]])
    then show ?thesis using Cons Inr e by simp
  qed (simp add: e)
qed simp

lemma stream_inv_uvm:
  assumes "stream_inv sk s infl buf"
  shows "stream_inv sk (s\<lparr>uvm_buckets := m\<rparr>) infl buf"
proof -
  obtain d where d: "stream_sync s = Inr d" "drained sk d infl buf" and p: "\<forall>a\<in>set (pending s). other_half s a"
    using assms by (auto simp: stream_inv_def)
  have u: "s\<lparr>uvm_buckets := m, pending := []\<rparr> = s\<lparr>pending := [], uvm_buckets := m\<rparr>" by (cases s) simp
  have "exec_ops (pending s) (s\<lparr>pending := [], uvm_buckets := m\<rparr>) = Inr (d\<lparr>uvm_buckets := m\<rparr>)"
    using d(1) stream_inv_params(1) [OF assms] exec_ops_uvm [of "s\<lparr>pending := []\<rparr>" "pending s" m] by (simp add: stream_sync_def)
  then have "stream_sync (s\<lparr>uvm_buckets := m\<rparr>) = Inr (d\<lparr>uvm_buckets := m\<rparr>)"
    unfolding stream_sync_def u [symmetric] by simp
  moreover have "drained sk (d\<lparr>uvm_buckets := m\<rparr>) infl buf"
    using d(2) by (simp add: drained_def stream_shape_def half_ok_def half_batches_def infl_ok_def start_batch_id_def start_index_def prev_batch_id_def)
  moreover have "other_half (s\<lparr>uvm_buckets := m\<rparr>) = other_half s" by (simp add: other_half_def [abs_def] start_index_def start_batch_id_def)
  ultimately show ?thesis using p by (auto simp: stream_inv_def)
qed

lemma statics_uvm [simp]: "statics (s\<lparr>uvm_buckets := m\<rparr>) = statics s"
  by (simp add: statics_def)

lemma stream_inv_first:
  assumes "stream_inv sk s infl buf"
  shows "first_buffer s = (infl = [])" "length buf < num_batch_per_buffer s"
proof -
  obtain d where d: "stream_sync s = Inr d" "drained sk d infl buf" using assms by (auto simp: stream_inv_def)
  have h: "host_part d = host_part s" by (rule sync_host [OF d(1)])
  have "first_buffer d = first_buffer s" using h by (simp add: host_part_def)
  moreover have "first_buffer d = (infl = [])" "length buf < num_batch_per_buffer d"
    using d(2) unfolding drained_def infl_ok_def by blast+
  ultimately show "first_buffer s = (infl = [])" "length buf < num_batch_per_buffer s"
    unfolding host_part_fields(8) [OF h] by blast+
qed

section \<open>The bank\<close>

definition stream_first :: "cuda_stream \<Rightarrow> nat" where
  "stream_first s = graph_id s * cs_num_nodes s"

lemma stream_first_cong: "statics s' = statics s \<Longrightarrow> stream_first s' = stream_first s"
  by (simp add: stream_first_def statics_def)

lemma sum_upd_mset:
  assumes "finite J" "j \<in> J" "f j + y = x + f' j" "\<And>u. u \<noteq> j \<Longrightarrow> f' u = f u"
  shows "(\<Sum>u\<in>J. f u) + y = x + (\<Sum>u\<in>J. f' u :: 'b multiset)"
proof -
  have "(\<Sum>u\<in>J - {j}. f' u) = (\<Sum>u\<in>J - {j}. f u)" using assms(4) by (intro sum.cong) auto
  moreover have "(\<Sum>u\<in>J. f u) = f j + (\<Sum>u\<in>J - {j}. f u)" "(\<Sum>u\<in>J. f' u) = f' j + (\<Sum>u\<in>J - {j}. f' u)"
    using assms(1,2) by (auto intro: sum.remove)
  ultimately show ?thesis using assms(3) by (simp add: ac_simps)
qed

locale raw_target =
  fixes raw :: "nat \<Rightarrow> 64 word Bucket list \<Rightarrow> 'a \<Rightarrow> error + 'a"
    and sk :: "64 word Sketch"
    and good :: "'a \<Rightarrow> bool"
    and has :: "'a \<Rightarrow> nat \<Rightarrow> bool"
    and add :: "(nat \<times> vec_t list) list \<Rightarrow> 'a \<Rightarrow> 'a"
  assumes raw_add: "good a \<Longrightarrow> has a i \<Longrightarrow> raw i (delta_buckets sk src dsts) a = Inr (add [(i, map (edge_id src) dsts)] a)"
    and good_add: "good a \<Longrightarrow> good (add bt a)"
    and has_add: "good a \<Longrightarrow> has (add bt a) i = has a i"
    and add_Nil: "good a \<Longrightarrow> add [] a = a"
    and add_append: "good a \<Longrightarrow> add (bt @ bt') a = add bt' (add bt a)"
    and add_mset: "good a \<Longrightarrow> mset bt = mset bt' \<Longrightarrow> add bt a = add bt' a"
begin

definition reach :: "'a \<Rightarrow> nat \<Rightarrow> (nat \<times> nat list) set \<Rightarrow> bool" where
  "reach a first bts \<longleftrightarrow> (\<forall>b\<in>bts. first + fst b < 2 ^ 32 \<and> has a (first + fst b))"

lemma apply_all_add:
  assumes "good a" "reach a first (set bt)"
  shows "apply_all raw sk first bt a = Inr (add (map (batch_ids first) bt) a)"
  using assms
proof (induction bt arbitrary: a)
  case (Cons b bt)
  obtain src dsts where b: "b = (src, dsts)" by (cases b)
  let ?b = "(first + src, map (edge_id src) dsts)"
  have r: "reach (add [?b] a) first (set bt)" using Cons.prems by (simp add: reach_def has_add)
  have "raw ((first + src) mod 2 ^ 32) (delta_buckets sk src dsts) a = Inr (add [?b] a)"
    using Cons.prems by (simp add: reach_def b raw_add)
  then show ?case
    using Cons.IH [OF good_add [OF Cons.prems(1)] r] add_append [OF Cons.prems(1), of "[?b]" "map (batch_ids first) bt"]
    by (simp add: b) (simp add: batch_ids_def)
qed (simp add: add_Nil)

text \<open>The state of a bank: the algorithm is \<open>a0\<close> with the ids \<open>D\<close> added, except for those that the streams \<open>J\<close>
  still hold; \<open>H\<close> lists what each stream has been given.\<close>

definition bank_stream :: "'a \<Rightarrow> cuda_stream \<Rightarrow> (nat \<times> nat list) list \<Rightarrow> (nat \<times> nat list) list \<Rightarrow> (nat \<times> nat list) list \<Rightarrow> bool" where
  "bank_stream a0 s infl buf h \<longleftrightarrow> stream_inv sk s infl buf \<and> reach a0 (stream_first s) (set infl \<union> set buf) \<and> (infl = [] \<longrightarrow> buf = h)"

definition held :: "cuda_stream \<Rightarrow> (nat \<times> nat list) list \<Rightarrow> (nat \<times> nat list) list \<Rightarrow> (nat \<times> vec_t list) multiset" where
  "held s infl buf = image_mset (batch_ids (stream_first s)) (mset infl + mset buf)"

definition bank_inv :: "'a \<Rightarrow> 'j set \<Rightarrow> ('j \<Rightarrow> cuda_stream) \<Rightarrow> 'a \<Rightarrow> ('j \<Rightarrow> (nat \<times> nat list) list) \<Rightarrow> (nat \<times> vec_t list) multiset \<Rightarrow> bool" where
  "bank_inv a0 J ss a H D \<longleftrightarrow> good a0 \<and> finite J \<and>
     (\<exists>applied I B. a = add applied a0 \<and> (\<forall>j\<in>J. bank_stream a0 (ss j) (I j) (B j) (H j)) \<and>
        mset applied + (\<Sum>j\<in>J. held (ss j) (I j) (B j)) = D)"

lemma bank_inv_cong:
  assumes "bank_inv a0 J ss a H D" "\<And>j. j \<in> J \<Longrightarrow> ss' j = ss j" "\<And>j. j \<in> J \<Longrightarrow> H' j = H j"
  shows "bank_inv a0 J ss' a H' D"
proof -
  have "(\<Sum>j\<in>J. held (ss' j) (I j) (B j)) = (\<Sum>j\<in>J. held (ss j) (I j) (B j))" for I B
    using assms(2) by (intro sum.cong) auto
  then show ?thesis using assms by (auto simp: bank_inv_def)
qed

lemma bank_uvm:
  assumes "bank_stream a0 s infl buf h"
  shows "bank_stream a0 (s\<lparr>uvm_buckets := m\<rparr>) infl buf h"
  using assms stream_inv_uvm by (simp add: bank_stream_def stream_first_def)

lemma bank_progress:
  assumes inv: "bank_inv a0 J ss a H D" and j: "j \<in> J"
  shows "\<exists>s'. stream_advance k ((ss j)\<lparr>uvm_buckets := m\<rparr>) = Inr s' \<and> statics s' = statics (ss j) \<and> bank_inv a0 J (ss(j := s')) a H D"
proof -
  obtain applied I B where I: "a = add applied a0" "\<forall>j\<in>J. bank_stream a0 (ss j) (I j) (B j) (H j)"
      "mset applied + (\<Sum>j\<in>J. held (ss j) (I j) (B j)) = D" and g: "good a0" "finite J"
    using inv by (auto simp: bank_inv_def)
  have b: "bank_stream a0 ((ss j)\<lparr>uvm_buckets := m\<rparr>) (I j) (B j) (H j)" using I(2) j bank_uvm by blast
  obtain s' where s': "stream_advance k ((ss j)\<lparr>uvm_buckets := m\<rparr>) = Inr s'" "stream_inv sk s' (I j) (B j)"
    using stream_inv_advance b unfolding bank_stream_def by blast
  have st: "statics s' = statics (ss j)" using stream_advance_statics [OF s'(1)] by simp
  have "bank_stream a0 s' (I j) (B j) (H j)"
    using b s'(2) stream_first_cong [OF st] by (simp add: bank_stream_def stream_first_def)
  moreover have "(\<Sum>u\<in>J. held ((ss(j := s')) u) (I u) (B u)) = (\<Sum>u\<in>J. held (ss u) (I u) (B u))"
    by (intro sum.cong) (auto simp: held_def stream_first_cong [OF st])
  moreover have "\<forall>u\<in>J. bank_stream a0 ((ss(j := s')) u) (I u) (B u) (H u)" using I(2) calculation(1) by simp
  ultimately have "bank_inv a0 J (ss(j := s')) a H D" 
    unfolding bank_inv_def by (intro conjI exI [of _ applied] exI [of _ I] exI [of _ B]) (use I g in simp_all)
  then show ?thesis using s'(1) st by blast
qed

lemma bank_process:
  assumes inv: "bank_inv a0 J ss a H D" and j: "j \<in> J" and l: "length dsts \<le> cs_batch_size (ss j)"
    and src: "reach a0 (stream_first (ss j)) {(src, dsts)}"
  shows "\<exists>a' s'. process_batch raw env src dsts (a, (ss j)\<lparr>uvm_buckets := m\<rparr>) = Inr (a', s') \<and> statics s' = statics (ss j) \<and>
    (first_buffer s' \<longrightarrow> first_buffer (ss j)) \<and>
    bank_inv a0 J (ss(j := s')) a' (H(j := H j @ [(src, dsts)])) (D + {#batch_ids (stream_first (ss j)) (src, dsts)#})"
proof -
  let ?s = "(ss j)\<lparr>uvm_buckets := m\<rparr>" and ?b = "(src, dsts)" and ?id = "batch_ids (stream_first (ss j)) (src, dsts)"
  obtain applied I B where I: "a = add applied a0" "\<forall>j\<in>J. bank_stream a0 (ss j) (I j) (B j) (H j)"
      "mset applied + (\<Sum>j\<in>J. held (ss j) (I j) (B j)) = D" and g: "good a0" "finite J"
    using inv by (auto simp: bank_inv_def)
  have bj: "bank_stream a0 (ss j) (I j) (B j) (H j)" using I(2) j by blast
  note b = bank_uvm [OF bj, of m]
  have def_mode: "\<not> cudaUVM_enabled (sketchParams (ss j))" using bj stream_inv_params(1) unfolding bank_stream_def by blast
  let ?A = "applied @ map (batch_ids (stream_first (ss j))) (I j)"
  have f: "graph_id ?s * cs_num_nodes ?s = stream_first (ss j)" by (simp add: stream_first_def)
  have "reach a (stream_first (ss j)) (set (I j))" using b g by (simp add: bank_stream_def reach_def I(1) has_add stream_first_def)
  then have al: "apply_all raw sk (graph_id ?s * cs_num_nodes ?s) (I j) a = Inr (add ?A a0)"
    using apply_all_add [of a] good_add [OF g(1), of applied] unfolding f by (simp add: I(1) add_append [OF g(1)])
  define full where "full \<longleftrightarrow> length (B j) + 1 = num_batch_per_buffer ?s"
  obtain s' where s': "process_batch_default raw env src dsts (a, ?s) = Inr (if full then add ?A a0 else a, s')"
      "statics s' = statics ?s" "if full then stream_inv sk s' (B j @ [?b]) [] else stream_inv sk s' (I j) (B j @ [?b])"
    using process_batch_default_inv [of sk ?s "I j" "B j" dsts raw a _ full env src, OF _ _ al full_def] b l
    by (auto simp: bank_stream_def)
  have st: "statics s' = statics (ss j)" using s'(2) by simp
  note sf = stream_first_cong [OF st]
  have step: "process_batch raw env src dsts (a, ?s) = Inr (if full then add ?A a0 else a, s')"
    using s'(1) by (simp add: process_batch_def def_mode)
  define I' where "I' = (if full then I(j := B j @ [?b]) else I)"
  define B' where "B' = (if full then B(j := []) else B(j := B j @ [?b]))"
  define A' where "A' = (if full then ?A else applied)"
  have "bank_stream a0 s' (I' j) (B' j) (H j @ [?b])"
    using s'(3) bj src by (auto simp: bank_stream_def I'_def B'_def sf reach_def)
  then have "\<forall>u\<in>J. bank_stream a0 ((ss(j := s')) u) (I' u) (B' u) ((H(j := H j @ [?b])) u)"
    using I(2) by (auto simp: I'_def B'_def)
  moreover have "(\<Sum>u\<in>J. held (ss u) (I u) (B u)) + {#?id#} =
      (if full then image_mset (batch_ids (stream_first (ss j))) (mset (I j)) else {#}) + (\<Sum>u\<in>J. held ((ss(j := s')) u) (I' u) (B' u))"
    by (rule sum_upd_mset [OF g(2) j]) (auto simp: held_def I'_def B'_def sf)
  then have "mset A' + (\<Sum>u\<in>J. held ((ss(j := s')) u) (I' u) (B' u)) = D + {#?id#}"
    unfolding I(3) [symmetric] add.assoc by (cases full) (simp_all add: A'_def)
  moreover have "(if full then add ?A a0 else a) = add A' a0" using I(1) by (simp add: A'_def)
  ultimately have "bank_inv a0 J (ss(j := s')) (if full then add ?A a0 else a) (H(j := H j @ [?b])) (D + {#?id#})"
    using g unfolding bank_inv_def by blast
  moreover have "first_buffer s' \<longrightarrow> first_buffer (ss j)"
    using s'(3) bj stream_inv_first(1) unfolding bank_stream_def by (cases full) auto
  ultimately show ?thesis using step st by blast
qed

lemma bank_flush:
  assumes inv: "bank_inv a0 J ss a H D" and j: "j \<in> J" and launched: "\<not> first_buffer (ss j)"
  shows "\<exists>a' s'. flush_buffers raw env (a, (ss j)\<lparr>uvm_buckets := m\<rparr>) = Inr (a', s') \<and> pending s' = [] \<and>
    bank_inv a0 (J - {j}) ss a' H D"
proof -
  let ?s = "(ss j)\<lparr>uvm_buckets := m\<rparr>"
  obtain applied I B where I: "a = add applied a0" "\<forall>j\<in>J. bank_stream a0 (ss j) (I j) (B j) (H j)"
      "mset applied + (\<Sum>j\<in>J. held (ss j) (I j) (B j)) = D" and g: "good a0" "finite J"
    using inv by (auto simp: bank_inv_def)
  have bj: "bank_stream a0 (ss j) (I j) (B j) (H j)" using I(2) j by blast
  then have ne: "I j \<noteq> []" using launched stream_inv_first(1) by (auto simp: bank_stream_def)
  note b = bank_uvm [OF bj, of m]
  have def_mode: "\<not> cudaUVM_enabled (sketchParams (ss j))" using bj stream_inv_params(1) unfolding bank_stream_def by blast
  let ?A = "applied @ map (batch_ids (stream_first (ss j))) (I j @ B j)"
  have f: "graph_id ?s * cs_num_nodes ?s = stream_first (ss j)" by (simp add: stream_first_def)
  have "reach a (stream_first (ss j)) (set (I j @ B j))" using b g by (simp add: bank_stream_def reach_def I(1) has_add stream_first_def)
  then have al: "apply_all raw sk (graph_id ?s * cs_num_nodes ?s) (I j @ B j) a = Inr (add ?A a0)"
    using apply_all_add [of a] good_add [OF g(1), of applied] unfolding f by (simp add: I(1) add_append [OF g(1)])
  obtain s' where s': "flush_buffers_default raw env (a, ?s) = Inr (add ?A a0, s')" "pending s' = []"
    using flush_default_inv [OF _ ne al, of env] b by (auto simp: bank_stream_def)
  have "flush_buffers raw env (a, ?s) = Inr (add ?A a0, s')"
    using s'(1) by (simp add: flush_buffers_def def_mode)
  moreover have "(\<Sum>u\<in>J. held (ss u) (I u) (B u)) = held (ss j) (I j) (B j) + (\<Sum>u\<in>J - {j}. held (ss u) (I u) (B u))"
    using g(2) j by (rule sum.remove)
  then have "mset ?A + (\<Sum>u\<in>J - {j}. held (ss u) (I u) (B u)) = D"
    unfolding I(3) [symmetric] by (simp add: held_def ac_simps)
  then have "bank_inv a0 (J - {j}) ss (add ?A a0) H D" using I(2) g unfolding bank_inv_def by blast
  ultimately show ?thesis using s'(2) by blast
qed

lemma bank_launched:
  assumes "bank_inv a0 J ss a H D" "j \<in> J" "num_batch_per_buffer (ss j) \<le> length (H j)"
  shows "\<not> first_buffer (ss j)"
proof -
  obtain I B where "bank_stream a0 (ss j) (I j) (B j) (H j)" using assms(1,2) by (auto simp: bank_inv_def)
  then show ?thesis using stream_inv_first assms(3) by (fastforce simp: bank_stream_def)
qed

lemma bank_done:
  assumes "bank_inv a0 {} ss a H D" "mset bt = D"
  shows "a = add bt a0"
  using assms add_mset by (auto simp: bank_inv_def)

text \<open>New streams join the bank, and slots are added to the algorithm.\<close>

lemma bank_extend:
  assumes inv: "bank_inv a0 J ss a H D" and K: "finite K" "J \<inter> K = {}" "\<And>j. j \<in> K \<Longrightarrow> stream_inv sk (ss j) [] [] \<and> H j = []"
    and a0': "good a0'" "\<And>i. has a0 i \<Longrightarrow> has a0' i" "\<And>bt. mset bt \<subseteq># D \<Longrightarrow> a = add bt a0 \<Longrightarrow> a' = add bt a0'"
  shows "bank_inv a0' (J \<union> K) ss a' H D"
proof -
  obtain applied I B where I: "a = add applied a0" "\<forall>j\<in>J. bank_stream a0 (ss j) (I j) (B j) (H j)"
      "mset applied + (\<Sum>j\<in>J. held (ss j) (I j) (B j)) = D" and g: "good a0" "finite J"
    using inv by (auto simp: bank_inv_def)
  define I' where "I' = (\<lambda>j. if j \<in> J then I j else [])"
  define B' where "B' = (\<lambda>j. if j \<in> J then B j else [])"
  have "bank_stream a0' (ss j) (I' j) (B' j) (H j)" if "j \<in> J \<union> K" for j
    using that I(2) K a0'(2) by (auto simp: bank_stream_def reach_def I'_def B'_def)
  moreover have "(\<Sum>j\<in>J \<union> K. held (ss j) (I' j) (B' j)) = (\<Sum>j\<in>J. held (ss j) (I j) (B j)) + (\<Sum>j\<in>K. {#})"
    unfolding sum.union_disjoint [OF g(2) K(1,2)] using K(2) by (intro arg_cong2 [of _ _ _ _ "(+)"] sum.cong) (auto simp: I'_def B'_def held_def)
  then have "mset applied + (\<Sum>j\<in>J \<union> K. held (ss j) (I' j) (B' j)) = D" using I(3) by simp
  moreover have "a' = add applied a0'" using a0'(3) [OF _ I(1)] I(3) by (metis mset_subset_eq_add_left)
  ultimately show ?thesis using a0'(1) g(2) K(1) unfolding bank_inv_def by blast
qed

lemma bank_new:
  assumes "good a0" "finite J" "\<And>j. j \<in> J \<Longrightarrow> stream_inv sk (ss j) [] []"
  shows "bank_inv a0 J ss a0 (\<lambda>_. []) {#}"
  unfolding bank_inv_def bank_stream_def
  by (intro conjI exI [of _ "[]"] exI [of _ "\<lambda>_. []"]) (use assms in \<open>simp_all add: add_Nil reach_def held_def\<close>)

end

end
