(* ===== verification/Edge_Store.thy ===== *)
theory Edge_Store
  imports Sketch Util
begin

text \<open>
  The lossless edge store of the minimum-cut algorithm (include/edge_store.h, src/edge_store.cpp):
  per vertex a buffer of updates, each tagged with the deepest subgraph that the edge belongs to.
  When the store holds more edges than a sketch graph costs, it contracts: the first subgraph that it
  is responsible for (\<open>cur_subgraph\<close>) grows by one, and the buffers are handed out, one vertex at a
  time, to be applied to the sketches of the subgraph that the store gives up.

  Every critical section of the class is one definition: the section of \<open>insert_adj_edges\<close> under the
  lock of the vertex, one iteration of the search of \<open>vertex_advance_subgraph\<close>, \<open>vertex_contract\<close>,
  \<open>check_if_too_big\<close>; the member functions compose them. The buffers are arrays that the loops
  overwrite in place. \<^verbatim>\<open>num_edges\<close> is a 64-bit counter and \<^verbatim>\<open>needs_contraction\<close> a 32-bit one, both wrap.
\<close>

datatype SubgraphTaggedUpdate = STU (subgraph: nat) (stu_dst: nat)

definition stu_less :: "SubgraphTaggedUpdate \<Rightarrow> SubgraphTaggedUpdate \<Rightarrow> bool" where
  "stu_less a oth = (if subgraph a = subgraph oth then stu_dst a < stu_dst oth else subgraph a < subgraph oth)"

definition stu_greater :: "SubgraphTaggedUpdate \<Rightarrow> SubgraphTaggedUpdate \<Rightarrow> bool" where
  "stu_greater a oth = (if subgraph a = subgraph oth then stu_dst a > stu_dst oth else subgraph a > subgraph oth)"

text \<open>The order that \<^verbatim>\<open>std::sort\<close> uses.\<close>

instantiation SubgraphTaggedUpdate :: linorder
begin

definition less_SubgraphTaggedUpdate :: "SubgraphTaggedUpdate \<Rightarrow> SubgraphTaggedUpdate \<Rightarrow> bool" where
  "a < b \<longleftrightarrow> stu_less a b"

definition less_eq_SubgraphTaggedUpdate :: "SubgraphTaggedUpdate \<Rightarrow> SubgraphTaggedUpdate \<Rightarrow> bool" where
  "a \<le> b \<longleftrightarrow> a = b \<or> stu_less a b"

instance
  by standard
    (auto simp: less_SubgraphTaggedUpdate_def less_eq_SubgraphTaggedUpdate_def stu_less_def
      SubgraphTaggedUpdate.expand split: if_splits)

end

lemma stu_greater_less: "stu_greater a b = (b < a)"
  by (auto simp: stu_greater_def less_SubgraphTaggedUpdate_def stu_less_def)

lemma stu_less_less: "stu_less a b = (a < b)"
  by (simp add: less_SubgraphTaggedUpdate_def)

record TaggedUpdateBatch =
  tub_src :: nat
  min_subgraph :: nat
  first_es_subgraph :: nat
  dsts_data :: "SubgraphTaggedUpdate list"

record EdgeStore =
  es_seed :: seed_t
  es_num_vertices :: "32 word"
  es_num_subgraphs :: nat
  cur_subgraph :: nat
  true_min_subgraph :: nat
  es_num_edges :: "64 word"
  needs_contraction :: "32 word"
  adjlist :: "SubgraphTaggedUpdate list list"
  vertex_contracted :: "bool list"
  es_max_edges :: nat

abbreviation es_n :: "EdgeStore \<Rightarrow> nat" where
  "es_n s \<equiv> unat (es_num_vertices s)"

text \<open>\<^verbatim>\<open>needs_contraction\<close> is not initialised (\<open>junk\<close>); the division by \<^verbatim>\<open>num_vertices\<close> is undefined for
  an empty graph.\<close>

definition store_edge_bytes :: nat where
  "store_edge_bytes = 8"

definition EdgeStore_new :: "32 word \<Rightarrow> seed_t \<Rightarrow> 32 word \<Rightarrow> nat \<Rightarrow> nat \<Rightarrow> nat \<Rightarrow> error + EdgeStore" where
  "EdgeStore_new junk seed num_vertices sketch_bytes num_subgraphs start_subgraph =
     (if num_vertices = 0 then Inl Undefined
      else Inr \<lparr>es_seed = seed, es_num_vertices = num_vertices, es_num_subgraphs = num_subgraphs,
        cur_subgraph = start_subgraph, true_min_subgraph = start_subgraph, es_num_edges = 0,
        needs_contraction = junk, adjlist = replicate (unat num_vertices) [],
        vertex_contracted = replicate (unat num_vertices) True,
        es_max_edges = sketch_bytes div store_edge_bytes\<rparr>)"

text \<open>The \<^verbatim>\<open>node_id_t\<close> value of \<^verbatim>\<open>cur_subgraph - 1\<close>.\<close>

definition pred32 :: "nat \<Rightarrow> nat" where
  "pred32 n = (n + (2 ^ 32 - 1)) mod 2 ^ 32"

section \<open>Contraction\<close>

lemma unat_plus1:
  fixes x y :: "'a::len word"
  assumes "x < y"
  shows "unat (x + 1) = Suc (unat x)"
proof -
  have "unat y < 2 ^ LENGTH('a)" by (rule unsigned_less)
  moreover have "Suc (unat x) \<le> unat y" using assms by (simp add: word_less_nat_alt Suc_le_eq)
  ultimately have "Suc (unat x) < 2 ^ LENGTH('a)" by (rule le_less_trans [rotated])
  then show ?thesis by (simp add: unat_word_ariths)
qed

function keep_loop :: "nat \<Rightarrow> SubgraphTaggedUpdate list \<Rightarrow> nat \<Rightarrow> nat \<Rightarrow> SubgraphTaggedUpdate list \<times> nat" where
  "keep_loop cur data_buffer keep_idx i =
     (if i < length data_buffer then
        if subgraph (data_buffer ! i) \<ge> cur
        then keep_loop cur (data_buffer[keep_idx := data_buffer ! i]) (keep_idx + 1) (i + 1)
        else keep_loop cur data_buffer keep_idx (i + 1)
      else (data_buffer, keep_idx))"
  by pat_completeness auto
termination
  by (relation "measure (\<lambda>(cur, b, keep, i). length b - i)") auto

declare keep_loop.simps [simp del]

definition vertex_contract :: "nat \<Rightarrow> EdgeStore \<Rightarrow> SubgraphTaggedUpdate list \<times> EdgeStore" where
  "vertex_contract src s =
     (if vertex_contracted s ! src then ([], s)
      else
        let s = s\<lparr>vertex_contracted := (vertex_contracted s)[src := True]\<rparr>;
            data_buffer = adjlist s ! src; orig_size = length data_buffer
        in if orig_size = 0 then ([], s)
           else
             let ret = data_buffer; (data_buffer, keep_idx) = keep_loop (cur_subgraph s) data_buffer 0 0;
                 data_buffer = take keep_idx data_buffer
             in (ret, s\<lparr>adjlist := (adjlist s)[src := data_buffer],
                        es_num_edges := es_num_edges s + (of_nat (length data_buffer) - of_nat orig_size)\<rparr>))"

text \<open>One iteration of the search: the claimed vertex when it has to be contracted, \<open>Inl True\<close> when
  the search continues, \<open>Inl False\<close> when every vertex has been claimed.\<close>

definition advance_claim :: "EdgeStore \<Rightarrow> (bool + nat) \<times> EdgeStore" where
  "advance_claim s =
     (let src = needs_contraction s; s = s\<lparr>needs_contraction := src + 1\<rparr>
      in if src \<ge> es_num_vertices s then
           (Inl False, if src = es_num_vertices s then s\<lparr>true_min_subgraph := true_min_subgraph s + 1\<rparr> else s)
         else if length (adjlist s ! unat src) > 0 \<and> \<not> vertex_contracted s ! unat src then (Inr (unat src), s)
         else (Inl True, s\<lparr>vertex_contracted := (vertex_contracted s)[unat src := True]\<rparr>))"

function advance_search :: "EdgeStore \<Rightarrow> nat option \<times> EdgeStore" where
  "advance_search s =
     (case advance_claim s of
        (Inr src, s') \<Rightarrow> (Some src, s')
      | (Inl True, s') \<Rightarrow> advance_search s'
      | (Inl False, s') \<Rightarrow> (None, s'))"
  by pat_completeness auto
termination
proof (relation "measure (\<lambda>s. es_n s - unat (needs_contraction s))", goal_cases)
  case (2 s c s' b)
  then have lt: "needs_contraction s < es_num_vertices s" and n: "es_num_vertices s' = es_num_vertices s"
    and nc: "needs_contraction s' = needs_contraction s + 1"
    by (auto simp: advance_claim_def Let_def split: if_splits)
  from lt show ?case
    by (auto simp: n nc unat_plus1 [OF lt] word_less_nat_alt)
qed auto

declare advance_search.simps [simp del]

definition vertex_advance_subgraph :: "nat \<Rightarrow> EdgeStore \<Rightarrow> TaggedUpdateBatch \<times> EdgeStore" where
  "vertex_advance_subgraph cur_first_es_subgraph s =
     (case advance_search s of
        (None, s) \<Rightarrow> (\<lparr>tub_src = 0, min_subgraph = pred32 cur_first_es_subgraph,
                        first_es_subgraph = cur_first_es_subgraph, dsts_data = []\<rparr>, s)
      | (Some src, s) \<Rightarrow>
          (let (ret, s) = vertex_contract src s
           in (\<lparr>tub_src = src, min_subgraph = pred32 cur_first_es_subgraph,
                first_es_subgraph = cur_first_es_subgraph, dsts_data = ret\<rparr>, s)))"

definition check_if_too_big :: "EdgeStore \<Rightarrow> EdgeStore" where
  "check_if_too_big s =
     (if unat (es_num_edges s) < es_max_edges s then s
      else if true_min_subgraph s < cur_subgraph s then s
      else s\<lparr>vertex_contracted := replicate (es_n s) False, needs_contraction := 0,
             cur_subgraph := cur_subgraph s + 1\<rparr>)"

definition contract_in_progress :: "EdgeStore \<Rightarrow> bool" where
  "contract_in_progress s \<longleftrightarrow> true_min_subgraph s < cur_subgraph s"

section \<open>Insertion\<close>

text \<open>The loop that skips the updates of lower subgraphs has no bound: past the last update it reads
  outside the array.\<close>

function skip_lower :: "SubgraphTaggedUpdate list \<Rightarrow> nat \<Rightarrow> nat \<Rightarrow> error + nat" where
  "skip_lower dst_data cur update_ptr =
     (if update_ptr < length dst_data then
        if subgraph (dst_data ! update_ptr) < cur then skip_lower dst_data cur (update_ptr + 1) else Inr update_ptr
      else Inl Undefined)"
  by pat_completeness auto
termination
  by (relation "measure (\<lambda>(d, cur, u). length d - u)") auto

function merge_loop :: "SubgraphTaggedUpdate list \<Rightarrow> SubgraphTaggedUpdate list \<Rightarrow> nat \<Rightarrow> nat \<Rightarrow> nat \<Rightarrow>
    SubgraphTaggedUpdate list \<times> SubgraphTaggedUpdate list \<times> nat \<times> nat \<times> nat" where
  "merge_loop data_buffer dst_data out_ptr buffer_ptr update_ptr =
     (if buffer_ptr < length data_buffer then
        if stu_greater (data_buffer ! buffer_ptr) (dst_data ! update_ptr) then
          let temp = data_buffer ! buffer_ptr
          in merge_loop (data_buffer[out_ptr := dst_data ! update_ptr]) (dst_data[update_ptr := temp])
               (out_ptr + 1) (buffer_ptr + 1) update_ptr
        else if stu_less (data_buffer ! buffer_ptr) (dst_data ! update_ptr) then
          merge_loop (data_buffer[out_ptr := data_buffer ! buffer_ptr]) dst_data (out_ptr + 1) (buffer_ptr + 1) update_ptr
        else if update_ptr + 1 \<ge> length dst_data then (data_buffer, dst_data, out_ptr, buffer_ptr + 1, update_ptr + 1)
        else merge_loop data_buffer dst_data out_ptr (buffer_ptr + 1) (update_ptr + 1)
      else (data_buffer, dst_data, out_ptr, buffer_ptr, update_ptr))"
  by pat_completeness auto
termination
  by (relation "measure (\<lambda>(b, d, out, bp, up). length b - bp)") auto

function copy_updates :: "SubgraphTaggedUpdate list \<Rightarrow> SubgraphTaggedUpdate list \<Rightarrow> nat \<Rightarrow> nat \<Rightarrow> SubgraphTaggedUpdate list \<times> nat" where
  "copy_updates data_buffer dst_data out_ptr update_ptr =
     (if update_ptr < length dst_data
      then copy_updates (data_buffer[out_ptr := dst_data ! update_ptr]) dst_data (out_ptr + 1) (update_ptr + 1)
      else (data_buffer, out_ptr))"
  by pat_completeness auto
termination
  by (relation "measure (\<lambda>(b, d, out, up). length d - up)") auto

function shift_buffer :: "nat \<Rightarrow> SubgraphTaggedUpdate list \<Rightarrow> nat \<Rightarrow> nat \<Rightarrow> SubgraphTaggedUpdate list \<times> nat" where
  "shift_buffer orig_size data_buffer out_ptr buffer_ptr =
     (if buffer_ptr < orig_size
      then shift_buffer orig_size (data_buffer[out_ptr := data_buffer ! buffer_ptr]) (out_ptr + 1) (buffer_ptr + 1)
      else (data_buffer, out_ptr))"
  by pat_completeness auto
termination
  by (relation "measure (\<lambda>(n, b, out, bp). n - bp)") auto

declare skip_lower.simps [simp del] merge_loop.simps [simp del] copy_updates.simps [simp del] shift_buffer.simps [simp del]

definition resize :: "nat \<Rightarrow> SubgraphTaggedUpdate list \<Rightarrow> SubgraphTaggedUpdate list" where
  "resize n xs = take n xs @ replicate (n - length xs) (STU 0 0)"

text \<open>The merge of the sorted updates into a buffer, from \<open>update_ptr\<close> on, and the final \<^verbatim>\<open>out_ptr\<close>.\<close>

definition merge_updates :: "SubgraphTaggedUpdate list \<Rightarrow> SubgraphTaggedUpdate list \<Rightarrow> nat \<Rightarrow> SubgraphTaggedUpdate list \<times> nat" where
  "merge_updates data_buffer dst_data update_ptr =
     (let orig_size = length data_buffer;
          (data_buffer, dst_data, out_ptr, buffer_ptr, update_ptr) = merge_loop data_buffer dst_data 0 0 update_ptr;
          new_size = out_ptr + (length dst_data - update_ptr) + (orig_size - buffer_ptr);
          data_buffer = resize (max new_size orig_size) data_buffer;
          (data_buffer, out_ptr) = copy_updates data_buffer dst_data out_ptr update_ptr;
          (data_buffer, out_ptr) = shift_buffer orig_size data_buffer out_ptr buffer_ptr
      in (resize new_size data_buffer, out_ptr))"

text \<open>The section under the lock of the vertex: what it returns, the level it read, the new state.\<close>

definition insert_locked :: "nat \<Rightarrow> nat \<Rightarrow> SubgraphTaggedUpdate list \<Rightarrow> EdgeStore \<Rightarrow>
    error + SubgraphTaggedUpdate list \<times> nat \<times> EdgeStore" where
  "insert_locked src caller_first_es_subgraph dst_data s =
     (let cur_first_es_subgraph = cur_subgraph s;
          (ret, s) = (if true_min_subgraph s < cur_first_es_subgraph \<and> \<not> vertex_contracted s ! src
                      then vertex_contract src s else ([], s));
          ret = (if caller_first_es_subgraph < cur_first_es_subgraph then ret @ dst_data else ret)
      in case skip_lower dst_data cur_first_es_subgraph 0 of
           Inl e \<Rightarrow> Inl e
         | Inr update_ptr \<Rightarrow>
             (let orig_size = length (adjlist s ! src);
                  (data_buffer, out_ptr) = merge_updates (adjlist s ! src) dst_data update_ptr
              in Inr (ret, cur_first_es_subgraph,
                   s\<lparr>adjlist := (adjlist s)[src := data_buffer],
                     es_num_edges := es_num_edges s + (of_nat out_ptr - of_nat orig_size)\<rparr>)))"

definition insert_adj_edges :: "nat \<Rightarrow> nat \<Rightarrow> SubgraphTaggedUpdate list \<Rightarrow> EdgeStore \<Rightarrow> error + TaggedUpdateBatch \<times> EdgeStore" where
  "insert_adj_edges src caller_first_es_subgraph dst_data s =
     (if dst_data = [] then
        Inr (\<lparr>tub_src = src, min_subgraph = pred32 (cur_subgraph s), first_es_subgraph = cur_subgraph s, dsts_data = []\<rparr>, s)
      else if \<not> src < es_n s then Inl Undefined
      else
        case insert_locked src caller_first_es_subgraph (sort dst_data) s of
          Inl e \<Rightarrow> Inl e
        | Inr (ret, cur_first_es_subgraph, s) \<Rightarrow>
            if ret = [] \<and> true_min_subgraph s < cur_first_es_subgraph
            then Inr (vertex_advance_subgraph cur_first_es_subgraph s)
            else Inr (\<lparr>tub_src = src, min_subgraph = pred32 cur_first_es_subgraph,
                       first_es_subgraph = cur_first_es_subgraph, dsts_data = ret\<rparr>, check_if_too_big s))"

definition tag_update :: "xxh \<Rightarrow> seed_t \<Rightarrow> nat \<Rightarrow> nat \<Rightarrow> nat \<Rightarrow> SubgraphTaggedUpdate" where
  "tag_update xxh seed max_depth src dst = STU (get_index_depth xxh (edge_id src dst) seed max_depth) dst"

definition insert_adj_vertices :: "xxh \<Rightarrow> nat \<Rightarrow> nat list \<Rightarrow> EdgeStore \<Rightarrow> error + TaggedUpdateBatch \<times> EdgeStore" where
  "insert_adj_vertices xxh src dst_vertices s =
     (let tagged_updates = map (tag_update xxh (es_seed s) (es_num_subgraphs s) src) dst_vertices
      in insert_adj_edges src 0 tagged_updates s)"

definition es_get_edges :: "EdgeStore \<Rightarrow> (nat \<times> nat) list" where
  "es_get_edges s = concat (map (\<lambda>src. map (\<lambda>d. (src, stu_dst d)) (adjlist s ! src)) [0..<es_n s])"

definition get_num_edges :: "EdgeStore \<Rightarrow> nat" where
  "get_num_edges s = unat (es_num_edges s)"

definition get_footprint :: "EdgeStore \<Rightarrow> 64 word" where
  "get_footprint s = es_num_edges s * of_nat store_edge_bytes"

definition get_first_store_subgraph :: "EdgeStore \<Rightarrow> nat" where
  "get_first_store_subgraph s = cur_subgraph s"

section \<open>The loops over arrays\<close>

lemma odd_set_pair: "odd_set (xs @ y # y # zs) = odd_set (xs @ zs)"
  by (auto simp: odd_set_append odd_set_Cons)

lemma odd_set_filter: "odd_set (filter P xs) = {x \<in> odd_set xs. P x}"
  by (induction xs) (auto simp: odd_set_Cons)

lemma keep_loop_filter:
  assumes "keep_idx \<le> i" "i \<le> length b"
  shows "\<exists>b' k. keep_loop cur b keep_idx i = (b', k) \<and> length b' = length b \<and>
    take k b' = take keep_idx b @ filter (\<lambda>u. cur \<le> subgraph u) (drop i b)"
  using assms
proof (induction cur b keep_idx i rule: keep_loop.induct)
  case (1 cur b keep_idx i)
  show ?case
  proof (cases "i < length b")
    case True
    have d: "drop i b = b ! i # drop (Suc i) b" using True by (simp add: Cons_nth_drop_Suc)
    show ?thesis
    proof (cases "cur \<le> subgraph (b ! i)")
      case keep: True
      have "take (keep_idx + 1) (b[keep_idx := b ! i]) = take keep_idx b @ [b ! i]"
        using 1 True by (simp add: take_Suc_conv_app_nth)
      with 1(1) [OF True keep] 1(3,4) True keep d show ?thesis
        by (subst keep_loop.simps) (auto simp: drop_update_cancel)
    next
      case False
      with 1(2) [OF True] 1(3,4) True d show ?thesis
        by (subst keep_loop.simps) auto
    qed
  next
    case False
    then show ?thesis using 1 by (subst keep_loop.simps) auto
  qed
qed

lemma vertex_contract_alt:
  assumes "\<not> vertex_contracted s ! src" "src < length (adjlist s)"
  shows "vertex_contract src s =
    (adjlist s ! src,
     s\<lparr>vertex_contracted := (vertex_contracted s)[src := True],
       adjlist := (adjlist s)[src := filter (\<lambda>u. cur_subgraph s \<le> subgraph u) (adjlist s ! src)],
       es_num_edges := es_num_edges s +
         (of_nat (length (filter (\<lambda>u. cur_subgraph s \<le> subgraph u) (adjlist s ! src))) - of_nat (length (adjlist s ! src)))\<rparr>)"
proof -
  obtain b k where "keep_loop (cur_subgraph s) (adjlist s ! src) 0 0 = (b, k)"
    "take k b = filter (\<lambda>u. cur_subgraph s \<le> subgraph u) (adjlist s ! src)"
    using keep_loop_filter [of 0 0 "adjlist s ! src" "cur_subgraph s"] by auto
  moreover have "adjlist s = (adjlist s)[src := []]" if "adjlist s ! src = []"
    using that by (metis list_update_id)
  ultimately show ?thesis
    using assms by (cases "adjlist s ! src = []") (simp_all add: vertex_contract_def Let_def del: length_take)
qed

lemma merge_loop_spec:
  assumes "out_ptr \<le> bp" "bp \<le> length b" "up < length d"
  shows "\<exists>b' d' out' bp' up'. merge_loop b d out_ptr bp up = (b', d', out', bp', up') \<and>
    length b' = length b \<and> length d' = length d \<and> out' \<le> bp' \<and> bp' \<le> length b \<and> up' \<le> length d \<and>
    (bp' = length b \<or> up' = length d) \<and>
    odd_set (take out' b' @ drop up' d' @ drop bp' b') = odd_set (take out_ptr b @ drop up d @ drop bp b) \<and>
    set (take out' b' @ drop up' d' @ drop bp' b') \<subseteq> set (take out_ptr b @ drop up d @ drop bp b)"
  (is "\<exists>b' d' out' bp' up'. ?P b d out_ptr bp up b' d' out' bp' up'")
  using assms
proof (induction b d out_ptr bp up rule: merge_loop.induct)
  case (1 b d out_ptr bp up)
  show ?case
  proof (cases "bp < length b")
    case True
    have db: "drop bp b = b ! bp # drop (Suc bp) b" using True by (simp add: Cons_nth_drop_Suc)
    have dd: "drop up d = d ! up # drop (Suc up) d" using 1 by (simp add: Cons_nth_drop_Suc)
    have t: "take (Suc out_ptr) (b[out_ptr := x]) = take out_ptr b @ [x]" for x
      using 1 True by (simp add: take_Suc_conv_app_nth)
    consider (gt) "b ! bp > d ! up" | (lt) "b ! bp < d ! up" | (eq) "b ! bp = d ! up" by (rule linorder_cases)
    then show ?thesis
    proof cases
      case gt
      let ?b = "b[out_ptr := d ! up]" and ?d = "d[up := b ! bp]"
      have m: "mset (take (out_ptr + 1) ?b @ drop up ?d @ drop (bp + 1) ?b) = mset (take out_ptr b @ drop up d @ drop bp b)"
        using 1(4-6) True by (simp add: t drop_update_cancel db dd drop_update_swap)
      have e: "merge_loop b d out_ptr bp up = merge_loop ?b ?d (out_ptr + 1) (bp + 1) up"
        using True gt by (subst merge_loop.simps) (simp add: stu_greater_less)
      show ?thesis
        using 1(1) [OF True _ refl] gt 1(4-6) True odd_set_mset [OF m] mset_eq_setD [OF m]
        unfolding e by (fastforce simp: stu_greater_less)
    next
      case lt
      let ?b = "b[out_ptr := b ! bp]"
      have m: "mset (take (out_ptr + 1) ?b @ drop up d @ drop (bp + 1) ?b) = mset (take out_ptr b @ drop up d @ drop bp b)"
        using 1(4-6) True by (simp add: t drop_update_cancel db)
      have e: "merge_loop b d out_ptr bp up = merge_loop ?b d (out_ptr + 1) (bp + 1) up"
        using True lt by (subst merge_loop.simps) (auto simp: stu_greater_less stu_less_less)
      show ?thesis
        using 1(2) [OF True] lt 1(4-6) True odd_set_mset [OF m] mset_eq_setD [OF m]
        unfolding e by (fastforce simp: stu_greater_less stu_less_less)
    next
      case eq
      have m: "mset (take out_ptr b @ drop up d @ drop bp b) =
          mset (take out_ptr b @ d ! up # d ! up # drop (Suc up) d @ drop (Suc bp) b)"
        by (simp add: db dd eq)
      have o: "odd_set (take out_ptr b @ drop (Suc up) d @ drop (Suc bp) b) = odd_set (take out_ptr b @ drop up d @ drop bp b)"
        using odd_set_mset [OF m] odd_set_pair by metis
      have st: "set (take out_ptr b @ drop (Suc up) d @ drop (Suc bp) b) \<subseteq> set (take out_ptr b @ drop up d @ drop bp b)"
        by (auto simp: db dd)
      show ?thesis
      proof (cases "up + 1 \<ge> length d")
        case last: True
        have e: "merge_loop b d out_ptr bp up = (b, d, out_ptr, bp + 1, up + 1)"
          using True eq last by (subst merge_loop.simps) (simp add: stu_greater_less stu_less_less)
        show ?thesis unfolding e using 1(4-6) True last o st by auto
      next
        case False
        have e: "merge_loop b d out_ptr bp up = merge_loop b d out_ptr (bp + 1) (up + 1)"
          using True eq False by (subst merge_loop.simps) (simp add: stu_greater_less stu_less_less)
        show ?thesis
          using 1(3) [OF True] eq False 1(4-6) True o st
          unfolding e by (fastforce simp: stu_greater_less stu_less_less)
      qed
    qed
  next
    case False
    then show ?thesis using 1 by (subst merge_loop.simps) auto
  qed
qed

lemma copy_updates_eq:
  assumes "up \<le> length d" "out_ptr + (length d - up) \<le> length b"
  shows "copy_updates b d out_ptr up =
    (take out_ptr b @ drop up d @ drop (out_ptr + (length d - up)) b, out_ptr + (length d - up))"
  using assms
proof (induction b d out_ptr up rule: copy_updates.induct)
  case (1 b d out_ptr up)
  show ?case
  proof (cases "up < length d")
    case True
    have "drop up d = d ! up # drop (Suc up) d" using True by (simp add: Cons_nth_drop_Suc)
    moreover have "take (out_ptr + 1) (b[out_ptr := d ! up]) = take out_ptr b @ [d ! up]"
      using 1 True by (simp add: take_Suc_conv_app_nth)
    ultimately show ?thesis
      using 1 True by (subst copy_updates.simps) (simp add: drop_update_cancel Suc_diff_Suc [symmetric])
  next
    case False
    then show ?thesis using 1 by (subst copy_updates.simps) simp
  qed
qed

lemma shift_buffer_eq:
  assumes "out_ptr \<le> bp" "bp \<le> n" "n \<le> length b"
  shows "\<exists>b'. shift_buffer n b out_ptr bp = (b', out_ptr + (n - bp)) \<and> length b' = length b \<and>
    take (out_ptr + (n - bp)) b' = take out_ptr b @ take (n - bp) (drop bp b)"
  using assms
proof (induction n b out_ptr bp rule: shift_buffer.induct)
  case (1 n b out_ptr bp)
  show ?case
  proof (cases "bp < n")
    case True
    have "take (n - bp) (drop bp b) = b ! bp # take (n - Suc bp) (drop (Suc bp) b)"
      using True 1 by (simp add: Cons_nth_drop_Suc [symmetric] Suc_diff_Suc [symmetric])
    moreover have "take (out_ptr + 1) (b[out_ptr := b ! bp]) = take out_ptr b @ [b ! bp]"
      using 1 True by (simp add: take_Suc_conv_app_nth)
    ultimately show ?thesis
      using 1 True by (subst shift_buffer.simps) (simp add: drop_update_cancel Suc_diff_Suc [symmetric])
  next
    case False
    then show ?thesis using 1 by (subst shift_buffer.simps) simp
  qed
qed

lemma merge_updates_result:
  assumes m: "merge_loop b d 0 0 up = (b1, d1, out1, bp1, up1)"
    and l: "length b1 = length b" "length d1 = length d" "out1 \<le> bp1" "bp1 \<le> length b" "up1 \<le> length d"
      "bp1 = length b \<or> up1 = length d"
  shows "merge_updates b d up =
    (take out1 b1 @ drop up1 d1 @ drop bp1 b1, length (take out1 b1 @ drop up1 d1 @ drop bp1 b1))"
proof (cases "bp1 = length b")
  case True
  then show ?thesis
    using l unfolding merge_updates_def m
    by (simp add: resize_def copy_updates_eq Let_def max_def) (subst shift_buffer.simps, auto)
next
  case False
  with l(6) have u: "up1 = length d" by simp
  obtain b2 where s: "shift_buffer (length b) b1 out1 bp1 = (b2, out1 + (length b - bp1))" "length b2 = length b1"
    "take (out1 + (length b - bp1)) b2 = take out1 b1 @ take (length b - bp1) (drop bp1 b1)"
    using shift_buffer_eq [of out1 bp1 "length b" b1] l by auto
  have "max (out1 + (length d - up1) + (length b - bp1)) (length b) = length b" using l(3,4) u by (auto simp: max_def)
  then show ?thesis
    using l u s unfolding merge_updates_def m
    by (simp add: resize_def copy_updates_eq Let_def)
qed

lemma merge_updates_spec:
  assumes "up < length d"
  shows "\<exists>b'. merge_updates b d up = (b', length b') \<and> odd_set b' = sym_diff (odd_set b) (odd_set (drop up d)) \<and>
    set b' \<subseteq> set b \<union> set (drop up d)"
proof -
  obtain b1 d1 out1 bp1 up1 where m: "merge_loop b d 0 0 up = (b1, d1, out1, bp1, up1)"
    and l: "length b1 = length b" "length d1 = length d" "out1 \<le> bp1" "bp1 \<le> length b" "up1 \<le> length d"
      "bp1 = length b \<or> up1 = length d"
    and o: "odd_set (take out1 b1 @ drop up1 d1 @ drop bp1 b1) = odd_set (drop up d @ b)"
    and st: "set (take out1 b1 @ drop up1 d1 @ drop bp1 b1) \<subseteq> set (drop up d @ b)"
    using merge_loop_spec [of 0 0 b up d] assms by auto
  have "odd_set (drop up d @ b) = sym_diff (odd_set b) (odd_set (drop up d))" by (auto simp: odd_set_append)
  then show ?thesis using merge_updates_result [OF m l] o st by auto
qed

section \<open>The contract of a store\<close>

text \<open>
  What a client can rely on, for a store that is responsible for the subgraphs from \<open>level s\<close> on.
  \<open>content s v\<close> is the set of the updates that occur an odd number of times in the buffer of \<open>v\<close>;
  \<open>pending s v\<close> says that the buffer of \<open>v\<close> still has to be handed out for subgraph \<open>level s - 1\<close>.
  An operation that inserts \<open>us\<close> at \<open>src\<close> and returns the batch \<open>b\<close> moves the store from \<open>s\<close> to \<open>s'\<close>.
\<close>

definition store_moves :: "('s \<Rightarrow> nat) \<Rightarrow> ('s \<Rightarrow> nat) \<Rightarrow> ('s \<Rightarrow> nat \<Rightarrow> bool) \<Rightarrow> ('s \<Rightarrow> nat \<Rightarrow> SubgraphTaggedUpdate set) \<Rightarrow>
    nat \<Rightarrow> SubgraphTaggedUpdate list \<Rightarrow> TaggedUpdateBatch \<Rightarrow> 's \<Rightarrow> 's \<Rightarrow> bool" where
  "store_moves verts level pending content src us b s s' \<longleftrightarrow>
     verts s' = verts s \<and>
     (\<forall>v < verts s. {u \<in> content s' v. level s \<le> subgraph u} =
        {u \<in> sym_diff (content s v) (if v = src then odd_set us else {}). level s \<le> subgraph u}) \<and>
     (if level s' = level s then \<forall>v < verts s. pending s' v \<longrightarrow> pending s v \<and> content s' v = content s v
      else level s' = Suc (level s) \<and> (\<forall>v < verts s. pending s' v \<and> \<not> pending s v)) \<and>
     (\<forall>v < verts s. pending s v \<and> \<not> (level s' = level s \<and> pending s' v) \<longrightarrow>
        content s v = (if dsts_data b \<noteq> [] \<and> tub_src b = v then odd_set (dsts_data b) else {})) \<and>
     (dsts_data b \<noteq> [] \<longrightarrow> tub_src b < verts s \<and> pending s (tub_src b) \<and> \<not> pending s' (tub_src b) \<and>
        level s' = level s \<and> min_subgraph b = pred32 (level s) \<and> first_es_subgraph b = level s)"

text \<open>The updates of a batch that go to subgraph \<open>g\<close>, and what each subgraph has received.\<close>

definition routed :: "nat \<Rightarrow> TaggedUpdateBatch \<Rightarrow> SubgraphTaggedUpdate list" where
  "routed g b = filter (\<lambda>u. min_subgraph b \<le> g \<and> g < first_es_subgraph b \<and> g \<le> subgraph u) (dsts_data b)"

type_synonym receipts = "nat \<Rightarrow> nat \<Rightarrow> SubgraphTaggedUpdate list"

definition deliver :: "TaggedUpdateBatch \<Rightarrow> receipts \<Rightarrow> receipts" where
  "deliver b rcv = (\<lambda>g v. if v = tub_src b then rcv g v @ routed g b else rcv g v)"

lemma odd_set_deliver:
  "odd_set (deliver b rcv g v) = sym_diff (odd_set (rcv g v))
     (if v = tub_src b then {u \<in> odd_set (dsts_data b). min_subgraph b \<le> g \<and> g < first_es_subgraph b \<and> g \<le> subgraph u} else {})"
  by (auto simp: deliver_def routed_def odd_set_append odd_set_filter)

lemma pred32_eq: "0 < n \<Longrightarrow> n \<le> 2 ^ 32 \<Longrightarrow> pred32 n = n - 1"
  by (cases n) (auto simp: pred32_def mod_Suc_eq_mod_add3)

lemma sym_diff_rearrange:
  assumes "sym_diff L (sym_diff R P) = {u \<in> H. Q u}"
  shows "sym_diff (sym_diff (sym_diff L {u \<in> U. Q u}) R) P = {u \<in> sym_diff H U. Q u}"
  using assms by (simp add: set_eq_iff) blast

locale level_store =
  fixes inv :: "'s \<Rightarrow> bool"
    and verts :: "'s \<Rightarrow> nat"
    and level :: "'s \<Rightarrow> nat"
    and pending :: "'s \<Rightarrow> nat \<Rightarrow> bool"
    and content :: "'s \<Rightarrow> nat \<Rightarrow> SubgraphTaggedUpdate set"
    and ins :: "nat \<Rightarrow> nat \<Rightarrow> SubgraphTaggedUpdate list \<Rightarrow> 's \<Rightarrow> error + TaggedUpdateBatch \<times> 's"
    and adv :: "nat \<Rightarrow> 's \<Rightarrow> TaggedUpdateBatch \<times> 's"
  assumes content_level: "inv s \<Longrightarrow> v < verts s \<Longrightarrow> u \<in> content s v \<Longrightarrow>
      (if pending s v then level s - 1 else level s) \<le> subgraph u"
    and pending_level: "inv s \<Longrightarrow> v < verts s \<Longrightarrow> pending s v \<Longrightarrow> 0 < level s"
    and ins_step: "inv s \<Longrightarrow> src < verts s \<Longrightarrow> (\<And>u. u \<in> set us \<Longrightarrow> level s \<le> subgraph u) \<Longrightarrow>
      \<exists>b s'. ins src (level s) us s = Inr (b, s') \<and> inv s' \<and> store_moves verts level pending content src us b s s'"
    and adv_step: "inv s \<Longrightarrow> v < verts s \<Longrightarrow> pending s v \<Longrightarrow> adv (level s) s = (b, s') \<Longrightarrow>
      inv s' \<and> store_moves verts level pending content 0 [] b s s'"
begin

definition accounts :: "'s \<Rightarrow> receipts \<Rightarrow> (nat \<Rightarrow> SubgraphTaggedUpdate list) \<Rightarrow> bool" where
  "accounts s rcv hist \<longleftrightarrow>
     (\<forall>v < verts s.
        (\<forall>g < level s. sym_diff (odd_set (rcv g v)) (if Suc g = level s \<and> pending s v then content s v else {}) =
           {u \<in> odd_set (hist v). g \<le> subgraph u}) \<and>
        (\<forall>g \<ge> level s. rcv g v = []) \<and>
        {u \<in> content s v. level s \<le> subgraph u} = {u \<in> odd_set (hist v). level s \<le> subgraph u})"

text \<open>An operation of the store keeps the accounts, when the client delivers the inserted updates to
  the subgraphs below the level and the returned batch.\<close>

lemma accounts_moves:
  assumes inv: "inv s" "inv s'" and a: "accounts s rcv hist" and src: "src < verts s"
    and m: "store_moves verts level pending content src (filter (\<lambda>u. level s \<le> subgraph u) us) b s s'"
    and small: "level s \<le> 2 ^ 32"
  defines "b0 \<equiv> \<lparr>tub_src = src, min_subgraph = 0, first_es_subgraph = level s, dsts_data = us\<rparr>"
  shows "accounts s' (deliver b (deliver b0 rcv)) (hist(src := hist src @ us))"
  unfolding accounts_def
proof (intro allI impI, goal_cases)
  case (1 v)
  let ?rcv = "deliver b (deliver b0 rcv)" and ?hist = "hist(src := hist src @ us)"
  let ?U = "if v = src then odd_set us else {}"
  have v: "v < verts s" using 1 m by (simp add: store_moves_def)
  have H: "odd_set (?hist v) = sym_diff (odd_set (hist v)) ?U" by (simp add: odd_set_append)
  have C: "{u \<in> content s' v. level s \<le> subgraph u} = {u \<in> odd_set (?hist v). level s \<le> subgraph u}"
    using m a v unfolding H store_moves_def accounts_def by (auto simp: odd_set_filter)
  have bsrc: "pending s v \<and> level s' = level s \<and> \<not> pending s' v \<and> min_subgraph b = level s - 1 \<and> first_es_subgraph b = level s"
    if "dsts_data b \<noteq> []" "tub_src b = v"
    using that m small pending_level [OF inv(1) v] pred32_eq [of "level s"] by (auto simp: store_moves_def)
  define R where "R = (if dsts_data b \<noteq> [] \<and> tub_src b = v then content s v else {})"
  have R: "odd_set (?rcv g v) = sym_diff (sym_diff (odd_set (rcv g v)) {u \<in> ?U. g \<le> subgraph u}) (if Suc g = level s then R else {})"
    if "g < level s" for g
  proof -
    have "odd_set (deliver b0 rcv g v) = sym_diff (odd_set (rcv g v)) {u \<in> ?U. g \<le> subgraph u}"
      using that unfolding odd_set_deliver by (auto simp: b0_def)
    moreover have "(if v = tub_src b then {u \<in> odd_set (dsts_data b). min_subgraph b \<le> g \<and> g < first_es_subgraph b \<and> g \<le> subgraph u} else {}) =
        (if Suc g = level s then R else {})"
    proof (cases "dsts_data b \<noteq> [] \<and> tub_src b = v")
      case True
      then have p: "pending s v" and b: "min_subgraph b = level s - 1" "first_es_subgraph b = level s" using bsrc by auto
      have "content s v = odd_set (dsts_data b)" using True bsrc m v by (auto simp: store_moves_def)
      moreover have "g \<le> subgraph u" if "Suc g = level s" "u \<in> content s v" for u
        using content_level [OF inv(1) v that(2)] p that(1) by simp
      ultimately show ?thesis using True that b by (auto simp: R_def)
    qed (auto simp: R_def)
    ultimately show ?thesis unfolding odd_set_deliver [of b] by simp
  qed
  have A: "sym_diff (odd_set (rcv g v)) (if Suc g = level s \<and> pending s v then content s v else {}) =
      {u \<in> odd_set (hist v). g \<le> subgraph u}" if "g < level s" for g
    using a v that by (simp add: accounts_def)
  have kept: "level s' = level s \<and> pending s' v \<Longrightarrow> pending s v \<and> content s' v = content s v"
    using m v by (simp add: store_moves_def)
  have "pending s v \<and> \<not> (level s' = level s \<and> pending s' v) \<longrightarrow>
      content s v = (if dsts_data b \<noteq> [] \<and> tub_src b = v then odd_set (dsts_data b) else {})"
    using m v unfolding store_moves_def by blast
  then have settled: "pending s v \<and> \<not> (level s' = level s \<and> pending s' v) \<Longrightarrow> R = content s v"
    by (auto simp: R_def)
  have unsettled: "\<not> pending s v \<or> level s' = level s \<and> pending s' v \<Longrightarrow> R = {}"
    using bsrc by (auto simp: R_def)
  have same: "sym_diff (odd_set (?rcv g v)) (if Suc g = level s \<and> level s' = level s \<and> pending s' v then content s' v else {}) =
      {u \<in> odd_set (?hist v). g \<le> subgraph u}" if g: "g < level s" for g
  proof -
    have "(if Suc g = level s \<and> pending s v then content s v else {}) =
        sym_diff (if Suc g = level s then R else {}) (if Suc g = level s \<and> level s' = level s \<and> pending s' v then content s' v else {})"
    proof (cases "pending s v \<and> \<not> (level s' = level s \<and> pending s' v)")
      case True
      then show ?thesis using settled by auto
    next
      case False
      then have "R = {}" using unsettled by blast
      moreover have "pending s v = (level s' = level s \<and> pending s' v)" using False kept by blast
      ultimately show ?thesis using kept by simp
    qed
    with A [OF g] show ?thesis unfolding R [OF g] H by (intro sym_diff_rearrange) simp
  qed
  have empty: "?rcv g v = []" if "g \<ge> level s" for g
    using a v that bsrc
    by (cases "dsts_data b = []") (auto simp: accounts_def deliver_def routed_def b0_def filter_empty_conv)
  have lv: "level s' = level s \<or> level s' = Suc (level s) \<and> pending s' v"
    using m v by (auto simp: store_moves_def split: if_splits)
  show ?case
  proof (cases "level s' = level s")
    case True
    then show ?thesis using same empty C by simp
  next
    case False
    with lv have l: "level s' = Suc (level s)" and p: "pending s' v" by auto
    have "content s' v = {u \<in> content s' v. level s \<le> subgraph u}"
      using content_level [OF inv(2) 1] p l by auto
    then have n: "content s' v = {u \<in> odd_set (?hist v). level s \<le> subgraph u}" using C by simp
    have "sym_diff (odd_set (?rcv g v)) (if Suc g = level s' \<and> pending s' v then content s' v else {}) =
        {u \<in> odd_set (?hist v). g \<le> subgraph u}" if "g < level s'" for g
    proof (cases "g = level s")
      case True
      then show ?thesis using p l n empty [of g] by simp
    next
      case False
      then have g: "g < level s" using that l by simp
      show ?thesis using same [OF g] False l by auto
    qed
    moreover have "{u \<in> content s' v. level s' \<le> subgraph u} = {u \<in> odd_set (?hist v). level s' \<le> subgraph u}"
      unfolding n using l by (auto simp del: fun_upd_apply)
    moreover have "?rcv g v = []" if "g \<ge> level s'" for g using empty [of g] that l by simp
    ultimately show ?thesis by blast
  qed
qed

lemma accounts_settled:
  assumes "inv s" "accounts s rcv hist" "v < verts s" "\<not> pending s v"
  shows "content s v = {u \<in> odd_set (hist v). level s \<le> subgraph u}"
    "g < level s \<Longrightarrow> odd_set (rcv g v) = {u \<in> odd_set (hist v). g \<le> subgraph u}"
proof -
  have "content s v = {u \<in> content s v. level s \<le> subgraph u}"
    using content_level [OF assms(1,3)] assms(4) by auto
  then show "content s v = {u \<in> odd_set (hist v). level s \<le> subgraph u}"
    using assms(2,3) by (simp add: accounts_def)
  show "odd_set (rcv g v) = {u \<in> odd_set (hist v). g \<le> subgraph u}" if "g < level s"
    using assms(2-4) that by (auto simp: accounts_def)
qed

end

section \<open>The edge store keeps the contract\<close>

definition es_pending :: "EdgeStore \<Rightarrow> nat \<Rightarrow> bool" where
  "es_pending s v \<longleftrightarrow> contract_in_progress s \<and> \<not> vertex_contracted s ! v"

definition es_content :: "EdgeStore \<Rightarrow> nat \<Rightarrow> SubgraphTaggedUpdate set" where
  "es_content s v = odd_set (adjlist s ! v)"

definition es_shape :: "EdgeStore \<Rightarrow> bool" where
  "es_shape s \<longleftrightarrow>
     length (adjlist s) = es_n s \<and> length (vertex_contracted s) = es_n s \<and>
     true_min_subgraph s \<le> cur_subgraph s \<and> cur_subgraph s \<le> Suc (true_min_subgraph s) \<and>
     es_num_edges s = of_nat (sum_list (map length (adjlist s))) \<and>
     (\<forall>v < es_n s. \<forall>u \<in> set (adjlist s ! v).
        cur_subgraph s \<le> Suc (subgraph u) \<and> (\<not> es_pending s v \<longrightarrow> cur_subgraph s \<le> subgraph u))"

definition es_inv :: "EdgeStore \<Rightarrow> bool" where
  "es_inv s \<longleftrightarrow> es_shape s \<and>
     (contract_in_progress s \<longrightarrow> needs_contraction s \<le> es_num_vertices s \<and>
        (\<forall>v < unat (needs_contraction s). vertex_contracted s ! v))"

lemmas es_defs = es_pending_def es_content_def contract_in_progress_def

lemma sum_length_update:
  assumes "i < length xs"
  shows "(of_nat (sum_list (map length (xs[i := y]))) :: 'a::len word) =
    of_nat (sum_list (map length xs)) + (of_nat (length y) - of_nat (length (xs ! i)))"
proof -
  have "sum_list (map length (xs[i := y])) + length (xs ! i) = sum_list (map length xs) + length y"
    using assms
  proof (induction xs arbitrary: i)
    case (Cons x xs)
    then show ?case by (cases i) auto
  qed simp
  then have "(of_nat (sum_list (map length (xs[i := y])) + length (xs ! i)) :: 'a word) = of_nat (sum_list (map length xs) + length y)"
    by (rule arg_cong)
  then show ?thesis by (simp add: algebra_simps)
qed

lemma es_tags:
  assumes "es_shape s" "w < es_n s" "u \<in> set (adjlist s ! w)"
  shows "cur_subgraph s \<le> Suc (subgraph u)" "\<not> es_pending s w \<Longrightarrow> cur_subgraph s \<le> subgraph u"
  using assms by (simp_all add: es_shape_def)

lemma es_shape_update:
  assumes "es_shape s" "v < es_n s"
    and "es_num_vertices s' = es_num_vertices s" "cur_subgraph s' = cur_subgraph s" "true_min_subgraph s' = true_min_subgraph s"
    and "adjlist s' = (adjlist s)[v := b]" "es_num_edges s' = es_num_edges s + (of_nat (length b) - of_nat (length (adjlist s ! v)))"
    and "length (vertex_contracted s') = es_n s"
    and "\<And>w. w < es_n s \<Longrightarrow> w \<noteq> v \<Longrightarrow> vertex_contracted s' ! w = vertex_contracted s ! w"
    and tags: "\<And>u. u \<in> set b \<Longrightarrow> cur_subgraph s \<le> subgraph u"
  shows "es_shape s'"
proof -
  have l: "v < length (adjlist s)" using assms(1,2) by (simp add: es_shape_def)
  have "cur_subgraph s \<le> Suc (subgraph u) \<and> (\<not> es_pending s' w \<longrightarrow> cur_subgraph s \<le> subgraph u)"
    if w: "w < es_n s" "u \<in> set (adjlist s' ! w)" for w u
  proof (cases "w = v")
    case True
    then have "cur_subgraph s \<le> subgraph u" using w(2) tags l assms(6) by simp
    then show ?thesis by simp
  next
    case False
    then have u: "u \<in> set (adjlist s ! w)" and p: "es_pending s' w = es_pending s w"
      using w assms(4-6,9) by (simp_all add: es_defs)
    show ?thesis unfolding p using es_tags [OF assms(1) w(1) u] by blast
  qed
  then show ?thesis
    using assms(1-8) by (simp add: es_shape_def sum_length_update [OF l])
qed

lemma es_contract_props:
  assumes "es_shape s" "v < es_n s" "es_pending s v" "vertex_contract v s = (ret, s')"
  shows "ret = adjlist s ! v" "es_num_vertices s' = es_num_vertices s" "cur_subgraph s' = cur_subgraph s"
    "true_min_subgraph s' = true_min_subgraph s"
    "adjlist s' = (adjlist s)[v := filter (\<lambda>u. cur_subgraph s \<le> subgraph u) (adjlist s ! v)]"
    "vertex_contracted s' = (vertex_contracted s)[v := True]" "needs_contraction s' = needs_contraction s" "es_shape s'"
proof -
  have l: "v < length (adjlist s)" "\<not> vertex_contracted s ! v" using assms(1-3) by (auto simp: es_shape_def es_pending_def)
  note e = vertex_contract_alt [OF l(2,1)]
  show p: "ret = adjlist s ! v" "es_num_vertices s' = es_num_vertices s" "cur_subgraph s' = cur_subgraph s"
    "true_min_subgraph s' = true_min_subgraph s"
    "adjlist s' = (adjlist s)[v := filter (\<lambda>u. cur_subgraph s \<le> subgraph u) (adjlist s ! v)]"
    "vertex_contracted s' = (vertex_contracted s)[v := True]" "needs_contraction s' = needs_contraction s"
    using assms(4) unfolding e by auto
  have ne: "es_num_edges s' = es_num_edges s +
      (of_nat (length (filter (\<lambda>u. cur_subgraph s \<le> subgraph u) (adjlist s ! v))) - of_nat (length (adjlist s ! v)))"
    using assms(4) unfolding e by auto
  show "es_shape s'"
    by (rule es_shape_update [OF assms(1,2) p(2-5) ne]) (use assms(1) p(6) in \<open>auto simp: es_shape_def\<close>)
qed

text \<open>The search changes only the marks: it marks vertices with an empty buffer.\<close>

definition searched :: "EdgeStore \<Rightarrow> EdgeStore \<Rightarrow> bool" where
  "searched s s' \<longleftrightarrow>
     adjlist s' = adjlist s \<and> es_num_edges s' = es_num_edges s \<and> cur_subgraph s' = cur_subgraph s \<and>
     es_num_vertices s' = es_num_vertices s \<and> length (vertex_contracted s') = length (vertex_contracted s) \<and>
     (\<forall>w < es_n s. (vertex_contracted s ! w \<longrightarrow> vertex_contracted s' ! w) \<and>
        (vertex_contracted s' ! w \<longrightarrow> vertex_contracted s ! w \<or> adjlist s ! w = []))"

lemma searched_refl: "searched s s"
  by (simp add: searched_def)

lemma searched_trans: "searched s s' \<Longrightarrow> searched s' s'' \<Longrightarrow> searched s s''"
  by (auto simp: searched_def)

definition search_inv :: "EdgeStore \<Rightarrow> bool" where
  "search_inv s \<longleftrightarrow> true_min_subgraph s < cur_subgraph s \<and> needs_contraction s \<le> es_num_vertices s \<and>
     length (vertex_contracted s) = es_n s \<and> (\<forall>v < unat (needs_contraction s). vertex_contracted s ! v)"

definition search_post :: "EdgeStore \<Rightarrow> nat option \<times> EdgeStore \<Rightarrow> bool" where
  "search_post s r \<longleftrightarrow> searched s (snd r) \<and>
     (case fst r of
        Some v \<Rightarrow> v < es_n s \<and> adjlist s ! v \<noteq> [] \<and> \<not> vertex_contracted (snd r) ! v \<and>
          true_min_subgraph (snd r) = true_min_subgraph s \<and> needs_contraction (snd r) \<le> es_num_vertices s \<and>
          unat (needs_contraction s) < unat (needs_contraction (snd r)) \<and>
          (\<forall>w < unat (needs_contraction (snd r)). w \<noteq> v \<longrightarrow> vertex_contracted (snd r) ! w)
      | None \<Rightarrow> true_min_subgraph (snd r) = Suc (true_min_subgraph s) \<and> (\<forall>w < es_n s. vertex_contracted (snd r) ! w))"

lemma advance_claim_done:
  assumes "search_inv s" "needs_contraction s = es_num_vertices s"
  shows "\<exists>s'. advance_claim s = (Inl False, s') \<and> search_post s (None, s')"
  using assms by (auto simp: advance_claim_def Let_def search_inv_def search_post_def searched_def)

lemma advance_claim_found:
  assumes "search_inv s" "needs_contraction s < es_num_vertices s"
    "adjlist s ! unat (needs_contraction s) \<noteq> []" "\<not> vertex_contracted s ! unat (needs_contraction s)"
  shows "\<exists>s'. advance_claim s = (Inr (unat (needs_contraction s)), s') \<and> search_post s (Some (unat (needs_contraction s)), s')"
  using assms by (auto simp: advance_claim_def Let_def search_inv_def search_post_def searched_def unat_plus1 word_le_nat_alt
      word_less_nat_alt less_Suc_eq)

lemma advance_claim_next:
  assumes "search_inv s" "needs_contraction s < es_num_vertices s"
    "adjlist s ! unat (needs_contraction s) = [] \<or> vertex_contracted s ! unat (needs_contraction s)"
  shows "\<exists>s'. advance_claim s = (Inl True, s') \<and> searched s s' \<and> search_inv s' \<and> true_min_subgraph s' = true_min_subgraph s \<and>
    unat (needs_contraction s') = Suc (unat (needs_contraction s))"
  using assms by (auto simp: advance_claim_def Let_def search_inv_def searched_def unat_plus1 word_le_nat_alt
      word_less_nat_alt less_Suc_eq nth_list_update)

lemma search_post_step:
  assumes "searched s s'" "true_min_subgraph s' = true_min_subgraph s"
    "unat (needs_contraction s) < unat (needs_contraction s')" "search_post s' r"
  shows "search_post s r"
  using assms searched_trans [OF assms(1)] by (auto simp: search_post_def searched_def split: option.splits)

lemma advance_search_post: "search_inv s \<Longrightarrow> search_post s (advance_search s)"
proof (induction s rule: advance_search.induct)
  case (1 s)
  consider (fin) "needs_contraction s = es_num_vertices s"
    | (found) "needs_contraction s < es_num_vertices s" "adjlist s ! unat (needs_contraction s) \<noteq> []"
        "\<not> vertex_contracted s ! unat (needs_contraction s)"
    | (more) "needs_contraction s < es_num_vertices s"
        "adjlist s ! unat (needs_contraction s) = [] \<or> vertex_contracted s ! unat (needs_contraction s)"
    using 1(2) by (fastforce simp: search_inv_def)
  then show ?case
  proof cases
    case fin
    then show ?thesis using advance_claim_done [OF 1(2)] by (subst advance_search.simps) auto
  next
    case found
    then show ?thesis using advance_claim_found [OF 1(2)] by (subst advance_search.simps) auto
  next
    case more
    then obtain s' where s': "advance_claim s = (Inl True, s')" "searched s s'" "search_inv s'"
      "true_min_subgraph s' = true_min_subgraph s" "unat (needs_contraction s') = Suc (unat (needs_contraction s))"
      using advance_claim_next [OF 1(2)] by blast
    have "search_post s' (advance_search s')" using 1(1) s' by auto
    from search_post_step [OF s'(2,4) _ this] s'(1,5) show ?thesis
      by (subst advance_search.simps) simp
  qed
qed

lemma searched_shape:
  assumes "searched s s'" "es_shape s" "true_min_subgraph s \<le> true_min_subgraph s'" "true_min_subgraph s' \<le> cur_subgraph s"
    "true_min_subgraph s' = true_min_subgraph s \<or> (\<forall>w < es_n s. vertex_contracted s' ! w)"
  shows "es_shape s'"
proof -
  have sd: "adjlist s' = adjlist s" "es_num_edges s' = es_num_edges s" "cur_subgraph s' = cur_subgraph s"
    "es_num_vertices s' = es_num_vertices s" "length (vertex_contracted s') = length (vertex_contracted s)"
    using assms(1) by (simp_all add: searched_def)
  have "cur_subgraph s \<le> Suc (subgraph u) \<and> (\<not> es_pending s' w \<longrightarrow> cur_subgraph s \<le> subgraph u)"
    if w: "w < es_n s" "u \<in> set (adjlist s ! w)" for w u
  proof -
    have "es_pending s w \<longrightarrow> es_pending s' w"
      using assms(1,5) w by (auto simp: searched_def es_defs)
    then show ?thesis using es_tags [OF assms(2) w] by blast
  qed
  then show ?thesis using assms(2-4) sd by (simp add: es_shape_def)
qed

abbreviation es_moves :: "nat \<Rightarrow> SubgraphTaggedUpdate list \<Rightarrow> TaggedUpdateBatch \<Rightarrow> EdgeStore \<Rightarrow> EdgeStore \<Rightarrow> bool" where
  "es_moves \<equiv> store_moves es_n cur_subgraph es_pending es_content"

lemma es_inv_search: "es_inv s \<Longrightarrow> contract_in_progress s \<Longrightarrow> search_inv s"
  by (simp add: es_inv_def es_shape_def search_inv_def contract_in_progress_def)

lemma advance_none:
  assumes "es_inv s" "contract_in_progress s" "advance_search s = (None, s')"
  shows "es_inv s' \<and> es_moves 0 [] \<lparr>tub_src = 0, min_subgraph = m, first_es_subgraph = f, dsts_data = []\<rparr> s s' \<and>
    \<not> contract_in_progress s'"
proof -
  have p: "search_post s (None, s')" using advance_search_post [OF es_inv_search [OF assms(1,2)]] assms(3) by simp
  then have sd: "searched s s'" and t: "true_min_subgraph s' = Suc (true_min_subgraph s)"
    and c: "\<And>w. w < es_n s \<Longrightarrow> vertex_contracted s' ! w" by (auto simp: search_post_def)
  have cur: "cur_subgraph s = Suc (true_min_subgraph s)" "cur_subgraph s' = cur_subgraph s"
    using assms(1,2) sd by (auto simp: es_inv_def es_shape_def contract_in_progress_def searched_def)
  have "es_shape s'" using searched_shape [OF sd] assms(1) t cur c by (simp add: es_inv_def)
  moreover have "\<not> contract_in_progress s'" using t cur by (simp add: contract_in_progress_def)
  ultimately show ?thesis
    using sd c cur by (auto simp: es_inv_def store_moves_def es_defs searched_def)
qed

lemma advance_some:
  assumes "es_inv s" "contract_in_progress s" "advance_search s = (Some v, s1)" "vertex_contract v s1 = (ret, s')"
  shows "es_inv s' \<and> es_moves 0 [] \<lparr>tub_src = v, min_subgraph = pred32 (cur_subgraph s), first_es_subgraph = cur_subgraph s,
      dsts_data = ret\<rparr> s s' \<and> contract_in_progress s' \<and> unat (needs_contraction s) < unat (needs_contraction s') \<and>
    cur_subgraph s' = cur_subgraph s \<and> es_num_vertices s' = es_num_vertices s"
proof -
  have p: "search_post s (Some v, s1)" using advance_search_post [OF es_inv_search [OF assms(1,2)]] assms(3) by simp
  then have sd: "searched s s1" and v: "v < es_n s" "adjlist s ! v \<noteq> []" "\<not> vertex_contracted s1 ! v"
    and t: "true_min_subgraph s1 = true_min_subgraph s"
    and nc: "needs_contraction s1 \<le> es_num_vertices s" "unat (needs_contraction s) < unat (needs_contraction s1)"
      "\<And>w. w < unat (needs_contraction s1) \<Longrightarrow> w \<noteq> v \<Longrightarrow> vertex_contracted s1 ! w" by (auto simp: search_post_def)
  have sh: "es_shape s" "true_min_subgraph s < cur_subgraph s" using assms(1,2) by (auto simp: es_inv_def contract_in_progress_def)
  have sh1: "es_shape s1" using searched_shape [OF sd sh(1)] t sh(2) by simp
  have p1: "es_pending s1 v" "v < es_n s1" using sh(2) t sd v by (auto simp: es_defs searched_def)
  note c = es_contract_props [OF sh1 p1(2,1) assms(4)]
  have len: "length (vertex_contracted s1) = es_n s" "length (adjlist s) = es_n s" "length (vertex_contracted s) = es_n s"
    using sh(1) sd by (auto simp: es_shape_def searched_def)
  have "vertex_contracted s' ! w" if "w < unat (needs_contraction s')" for w
    using nc(3) [of w] that v(1) c(6,7) len by (cases "w = v") auto
  then have "es_inv s'" using c nc sd by (simp add: es_inv_def searched_def)
  moreover have "es_moves 0 [] \<lparr>tub_src = v, min_subgraph = pred32 (cur_subgraph s), first_es_subgraph = cur_subgraph s,
      dsts_data = ret\<rparr> s s'"
    unfolding store_moves_def
    using sd t c v sh(2) len
    by (auto simp: es_defs searched_def nth_list_update odd_set_filter)
  ultimately show ?thesis using c nc t sd sh(2) by (auto simp: contract_in_progress_def searched_def)
qed

lemma es_advance:
  assumes "es_inv s" "contract_in_progress s" "vertex_advance_subgraph (cur_subgraph s) s = (b, s')"
  shows "es_inv s' \<and> es_moves 0 [] b s s' \<and> cur_subgraph s' = cur_subgraph s \<and>
    (contract_in_progress s' \<longrightarrow> unat (needs_contraction s) < unat (needs_contraction s') \<and> unat (needs_contraction s') \<le> es_n s)"
proof (cases "fst (advance_search s)")
  case None
  then obtain s1 where a: "advance_search s = (None, s1)" by (metis prod.collapse)
  then have b: "b = \<lparr>tub_src = 0, min_subgraph = pred32 (cur_subgraph s), first_es_subgraph = cur_subgraph s, dsts_data = []\<rparr>" "s' = s1"
    using assms(3) by (auto simp: vertex_advance_subgraph_def)
  have "cur_subgraph s1 = cur_subgraph s"
    using advance_search_post [OF es_inv_search [OF assms(1,2)]] a by (simp add: search_post_def searched_def)
  then show ?thesis using advance_none [OF assms(1,2) a] unfolding b by blast
next
  case (Some v)
  then obtain s1 where a: "advance_search s = (Some v, s1)" by (metis prod.collapse)
  obtain ret s2 where c: "vertex_contract v s1 = (ret, s2)" by fastforce
  have b: "b = \<lparr>tub_src = v, min_subgraph = pred32 (cur_subgraph s), first_es_subgraph = cur_subgraph s, dsts_data = ret\<rparr>" "s' = s2"
    using assms(3) a c by (auto simp: vertex_advance_subgraph_def)
  note s = advance_some [OF assms(1,2) a c]
  show ?thesis using s unfolding b by (auto simp: es_inv_def word_le_nat_alt)
qed

lemma store_moves_trans:
  assumes "store_moves verts level pending content src us b0 s s1" "dsts_data b0 = []" "level s1 = level s"
    and "store_moves verts level pending content 0 [] b s1 s'" "level s' = level s"
  shows "store_moves verts level pending content src us b s s'"
proof -
  have a: "verts s1 = verts s" "verts s' = verts s"
    "\<And>v. v < verts s \<Longrightarrow> pending s1 v \<Longrightarrow> pending s v \<and> content s1 v = content s v"
    "\<And>v. v < verts s \<Longrightarrow> pending s' v \<Longrightarrow> pending s1 v \<and> content s' v = content s1 v"
    "\<And>v. v < verts s \<Longrightarrow> pending s v \<Longrightarrow> \<not> pending s1 v \<Longrightarrow> content s v = {}"
    "\<And>v. v < verts s \<Longrightarrow> pending s1 v \<Longrightarrow> \<not> pending s' v \<Longrightarrow>
       content s1 v = (if dsts_data b \<noteq> [] \<and> tub_src b = v then odd_set (dsts_data b) else {})"
    using assms by (simp_all add: store_moves_def)
  have c: "{u \<in> content s1 v. level s \<le> subgraph u} = {u \<in> sym_diff (content s v) (if v = src then odd_set us else {}). level s \<le> subgraph u}"
    "{u \<in> content s' v. level s \<le> subgraph u} = {u \<in> content s1 v. level s \<le> subgraph u}" if "v < verts s" for v
    using assms(1,3,4) that by (simp_all add: store_moves_def)
  have d: "dsts_data b \<noteq> [] \<Longrightarrow> tub_src b < verts s \<and> pending s1 (tub_src b) \<and> \<not> pending s' (tub_src b) \<and>
      min_subgraph b = pred32 (level s) \<and> first_es_subgraph b = level s"
    using assms(3,4) a(1) by (simp add: store_moves_def)
  have "content s v = (if dsts_data b \<noteq> [] \<and> tub_src b = v then odd_set (dsts_data b) else {})"
    if "v < verts s" "pending s v" "\<not> pending s' v" for v
  proof (cases "pending s1 v")
    case True
    then show ?thesis using a(3,6) that by simp
  next
    case False
    then show ?thesis using a(5) d that by auto
  qed
  moreover have "pending s' v \<longrightarrow> pending s v \<and> content s' v = content s v" if "v < verts s" for v
    using a(3,4) that by simp
  ultimately show ?thesis
    unfolding store_moves_def using a(2) c d assms(5) a(3) by simp
qed

lemma store_moves_up:
  assumes "store_moves verts level pending content src us b s s1" "level s1 = level s" "dsts_data b = []"
    and "verts s' = verts s" "level s' = Suc (level s)" "\<And>v. v < verts s \<Longrightarrow> content s' v = content s1 v \<and> pending s' v \<and> \<not> pending s v"
  shows "store_moves verts level pending content src us b s s'"
  using assms by (simp add: store_moves_def)

lemma es_check:
  assumes "es_inv s"
  shows "check_if_too_big s = s \<or>
    \<not> contract_in_progress s \<and> cur_subgraph (check_if_too_big s) = Suc (cur_subgraph s) \<and>
    es_num_vertices (check_if_too_big s) = es_num_vertices s \<and> adjlist (check_if_too_big s) = adjlist s \<and>
    (\<forall>v < es_n s. es_pending (check_if_too_big s) v)"
    "es_inv (check_if_too_big s)"
proof -
  show "check_if_too_big s = s \<or>
    \<not> contract_in_progress s \<and> cur_subgraph (check_if_too_big s) = Suc (cur_subgraph s) \<and>
    es_num_vertices (check_if_too_big s) = es_num_vertices s \<and> adjlist (check_if_too_big s) = adjlist s \<and>
    (\<forall>v < es_n s. es_pending (check_if_too_big s) v)"
    using assms by (simp add: check_if_too_big_def es_defs es_inv_def es_shape_def)
  show "es_inv (check_if_too_big s)"
    using assms es_tags(2) [of s] by (auto simp: check_if_too_big_def es_inv_def es_shape_def es_defs)
qed

lemma skip_lower_0: "us \<noteq> [] \<Longrightarrow> (\<And>u. u \<in> set us \<Longrightarrow> cur \<le> subgraph u) \<Longrightarrow> skip_lower us cur 0 = Inr 0"
  by (subst skip_lower.simps) (auto simp: not_less [symmetric] dest: nth_mem [of 0])

lemma es_insert_locked:
  assumes "es_inv s" "src < es_n s" "us \<noteq> []" "\<And>u. u \<in> set us \<Longrightarrow> cur_subgraph s \<le> subgraph u"
  shows "\<exists>ret s1. insert_locked src (cur_subgraph s) us s = Inr (ret, cur_subgraph s, s1) \<and> es_inv s1 \<and>
    cur_subgraph s1 = cur_subgraph s \<and> contract_in_progress s1 = contract_in_progress s \<and> (ret \<noteq> [] \<longrightarrow> contract_in_progress s) \<and>
    es_moves src us \<lparr>tub_src = src, min_subgraph = pred32 (cur_subgraph s), first_es_subgraph = cur_subgraph s, dsts_data = ret\<rparr> s s1"
proof -
  have sh: "es_shape s" and nc: "contract_in_progress s \<Longrightarrow> needs_contraction s \<le> es_num_vertices s \<and>
        (\<forall>v < unat (needs_contraction s). vertex_contracted s ! v)" using assms(1) by (auto simp: es_inv_def)
  define c where "c = (if es_pending s src then vertex_contract src s else ([], s))"
  obtain ret s0 where c0: "c = (ret, s0)" by fastforce
  have l: "src < length (vertex_contracted s)" "src < length (adjlist s)" using sh assms(2) by (auto simp: es_shape_def)
  have f: "adjlist s ! src = filter (\<lambda>u. cur_subgraph s \<le> subgraph u) (adjlist s ! src)" if "\<not> es_pending s src"
    using es_tags(2) [OF sh assms(2) _ that] by (simp add: filter_id_conv)
  have "es_num_vertices s0 = es_num_vertices s \<and> cur_subgraph s0 = cur_subgraph s \<and> true_min_subgraph s0 = true_min_subgraph s \<and>
    needs_contraction s0 = needs_contraction s \<and> es_shape s0 \<and> \<not> es_pending s0 src \<and>
    (\<forall>w. w \<noteq> src \<longrightarrow> adjlist s0 ! w = adjlist s ! w \<and> vertex_contracted s0 ! w = vertex_contracted s ! w) \<and>
    (vertex_contracted s ! src \<longrightarrow> vertex_contracted s0 ! src) \<and>
    adjlist s0 ! src = filter (\<lambda>u. cur_subgraph s \<le> subgraph u) (adjlist s ! src) \<and>
    ret = (if es_pending s src then adjlist s ! src else [])"
  proof (cases "es_pending s src")
    case True
    then have "vertex_contract src s = (ret, s0)" using c0 by (simp add: c_def)
    from es_contract_props [OF sh assms(2) True this] True l show ?thesis by (simp add: es_pending_def)
  next
    case False
    then have "ret = [] \<and> s0 = s" using c0 by (simp add: c_def)
    with False sh f show ?thesis by auto
  qed
  then have s0: "es_num_vertices s0 = es_num_vertices s" "cur_subgraph s0 = cur_subgraph s" "true_min_subgraph s0 = true_min_subgraph s"
    "needs_contraction s0 = needs_contraction s" "es_shape s0" "\<not> es_pending s0 src"
    "\<And>w. w \<noteq> src \<Longrightarrow> adjlist s0 ! w = adjlist s ! w \<and> vertex_contracted s0 ! w = vertex_contracted s ! w"
    "vertex_contracted s ! src \<longrightarrow> vertex_contracted s0 ! src"
    "adjlist s0 ! src = filter (\<lambda>u. cur_subgraph s \<le> subgraph u) (adjlist s ! src)"
    "ret = (if es_pending s src then adjlist s ! src else [])"
    by blast+
  obtain b where b: "merge_updates (adjlist s0 ! src) us 0 = (b, length b)"
    "odd_set b = sym_diff (odd_set (adjlist s0 ! src)) (odd_set us)" "set b \<subseteq> set (adjlist s0 ! src) \<union> set us"
    using merge_updates_spec [of 0 us "adjlist s0 ! src"] assms(3) by auto
  define s1 where "s1 = s0\<lparr>adjlist := (adjlist s0)[src := b], es_num_edges := es_num_edges s0 + (of_nat (length b) - of_nat (length (adjlist s0 ! src)))\<rparr>"
  have "insert_locked src (cur_subgraph s) us s = Inr (ret, cur_subgraph s, s1)"
    using c0 unfolding insert_locked_def
    by (simp add: Let_def skip_lower_0 [OF assms(3,4)] b(1) s1_def c_def es_defs split: if_splits)
  moreover have bt: "cur_subgraph s0 \<le> subgraph u" if "u \<in> set b" for u
    using that b(3) assms(4) by (auto simp: s0(2,9))
  have "length (vertex_contracted s0) = es_n s0" using s0(5) by (simp add: es_shape_def)
  then have sh1: "es_shape s1"
    by (intro es_shape_update [OF s0(5), of src s1 b]) (simp_all add: s1_def s0(1) assms(2) bt)
  have len: "length (adjlist s0) = es_n s" "length (adjlist s) = es_n s" using s0(1,5) sh by (auto simp: es_shape_def)
  have pend: "es_pending s1 w = (es_pending s w \<and> w \<noteq> src)" for w
    using s0 by (cases "w = src") (auto simp: s1_def es_defs)
  have cont: "es_content s1 w = (if w = src then odd_set b else es_content s w)" for w
    using s0(7) len assms(2) by (auto simp: s1_def es_content_def nth_list_update)
  have "es_inv s1"
    using sh1 nc s0 pend by (auto simp: es_inv_def es_defs s1_def)
  moreover have "es_moves src us \<lparr>tub_src = src, min_subgraph = pred32 (cur_subgraph s), first_es_subgraph = cur_subgraph s, dsts_data = ret\<rparr> s s1"
    unfolding store_moves_def pend cont
    using s0(1,2,9,10) b(2) assms(2) by (auto simp: s1_def es_content_def odd_set_filter)
  moreover have "ret \<noteq> [] \<longrightarrow> contract_in_progress s" using s0(10) by (simp add: es_pending_def)
  ultimately show ?thesis using s0 by (auto simp: s1_def contract_in_progress_def)
qed

lemma es_insert:
  assumes "es_inv s" "src < es_n s" "\<And>u. u \<in> set us \<Longrightarrow> cur_subgraph s \<le> subgraph u"
  shows "\<exists>b s'. insert_adj_edges src (cur_subgraph s) us s = Inr (b, s') \<and> es_inv s' \<and> es_moves src us b s s'"
proof (cases "us = []")
  case True
  then show ?thesis
    using assms(1) by (simp add: insert_adj_edges_def store_moves_def)
next
  case False
  let ?b = "\<lambda>ret. \<lparr>tub_src = src, min_subgraph = pred32 (cur_subgraph s), first_es_subgraph = cur_subgraph s, dsts_data = ret\<rparr>"
  have srt: "sort us \<noteq> []" "\<And>u. u \<in> set (sort us) \<Longrightarrow> cur_subgraph s \<le> subgraph u" "odd_set (sort us) = odd_set us"
    using False assms(3) odd_set_mset [of "sort us" us] by (auto dest: arg_cong [of _ _ set])
  obtain ret s1 where i: "insert_locked src (cur_subgraph s) (sort us) s = Inr (ret, cur_subgraph s, s1)" "es_inv s1"
      "cur_subgraph s1 = cur_subgraph s" "contract_in_progress s1 = contract_in_progress s" "ret \<noteq> [] \<longrightarrow> contract_in_progress s"
      "es_moves src (sort us) (?b ret) s s1"
    using es_insert_locked [OF assms(1,2) srt(1,2)] by blast
  have m: "es_moves src us (?b ret) s s1" using i(6) by (simp add: store_moves_def srt(3))
  show ?thesis
  proof (cases "ret = [] \<and> contract_in_progress s1")
    case True
    obtain b s' where a: "vertex_advance_subgraph (cur_subgraph s1) s1 = (b, s')" by fastforce
    have e: "insert_adj_edges src (cur_subgraph s) us s = Inr (b, s')"
      using False assms(2) i(1,3) True a by (simp add: insert_adj_edges_def contract_in_progress_def)
    note adv = es_advance [OF i(2) _ a]
    have "es_moves src us b s s'"
      by (rule store_moves_trans [OF m _ i(3)]) (use adv True i(3) in auto)
    with e adv True show ?thesis by blast
  next
    case no: False
    have e: "insert_adj_edges src (cur_subgraph s) us s = Inr (?b ret, check_if_too_big s1)"
      using False assms(2) i(1,3) no by (auto simp: insert_adj_edges_def contract_in_progress_def)
    have "es_moves src us (?b ret) s (check_if_too_big s1)"
    proof (cases "check_if_too_big s1 = s1")
      case True
      then show ?thesis using m by simp
    next
      case False
      then have up: "\<not> contract_in_progress s1" "cur_subgraph (check_if_too_big s1) = Suc (cur_subgraph s1)"
        "es_n (check_if_too_big s1) = es_n s1" "adjlist (check_if_too_big s1) = adjlist s1"
        "\<And>v. v < es_n s1 \<Longrightarrow> es_pending (check_if_too_big s1) v"
        using es_check(1) [OF i(2)] by auto
      have n: "es_n s1 = es_n s" using m by (simp add: store_moves_def)
      have "\<not> es_pending s v" for v using up(1) i(4) by (simp add: es_pending_def)
      then show ?thesis
        using up n i(3,4,5) by (intro store_moves_up [OF m i(3)]) (auto simp: es_content_def)
    qed
    with e es_check(2) [OF i(2)] show ?thesis by blast
  qed
qed

interpretation es: level_store es_inv es_n cur_subgraph es_pending es_content insert_adj_edges vertex_advance_subgraph
proof
  fix s v u assume "es_inv s" "v < es_n s" "u \<in> es_content s v"
  then show "(if es_pending s v then cur_subgraph s - 1 else cur_subgraph s) \<le> subgraph u"
    using es_tags [of s v u] odd_set_subset by (fastforce simp: es_inv_def es_content_def)
next
  fix s v assume "es_inv s" "v < es_n s" "es_pending s v"
  then show "0 < cur_subgraph s" by (simp add: es_defs)
next
  fix s src us assume "es_inv s" "src < es_n s" "\<And>u. u \<in> set us \<Longrightarrow> cur_subgraph s \<le> subgraph u"
  then show "\<exists>b s'. insert_adj_edges src (cur_subgraph s) us s = Inr (b, s') \<and> es_inv s' \<and> es_moves src us b s s'"
    by (rule es_insert)
next
  fix s v b s' assume "es_inv s" "es_pending s v" "vertex_advance_subgraph (cur_subgraph s) s = (b, s')"
  then show "es_inv s' \<and> es_moves 0 [] b s s'" using es_advance [of s b s'] unfolding es_pending_def by blast
qed

end
