(* ===== verification/Edge_Store_Correctness.thy ===== *)
theory Edge_Store_Correctness
  imports Edge_Store
begin

text \<open>
  What the edge store guarantees over whole runs, when each member function runs undisturbed: no
  update is lost or counted twice, and a contraction ends. Then the exact effect of a single update
  on a sorted buffer, and where the code falls short: batches of several updates, updates below the
  level, and the window between the claim of a vertex and its contraction.
\<close>

section \<open>Runs of the store\<close>

text \<open>A client that inserts tagged updates and asks for the rest of a contraction, and delivers to
  every subgraph below the level what belongs to it.\<close>

datatype store_op = InsertOp nat "SubgraphTaggedUpdate list" | AdvanceOp

type_synonym store_state = "EdgeStore \<times> receipts"

fun store_step :: "store_op \<Rightarrow> store_state \<Rightarrow> error + store_state" where
  "store_step (InsertOp src us) (s, rcv) =
     (case insert_adj_edges src (cur_subgraph s) (filter (\<lambda>u. cur_subgraph s \<le> subgraph u) us) s of
        Inl e \<Rightarrow> Inl e
      | Inr (b, s') \<Rightarrow>
          Inr (s', deliver b (deliver \<lparr>tub_src = src, min_subgraph = 0, first_es_subgraph = cur_subgraph s, dsts_data = us\<rparr> rcv)))"
| "store_step AdvanceOp (s, rcv) =
     (if contract_in_progress s
      then let (b, s') = vertex_advance_subgraph (cur_subgraph s) s in Inr (s', deliver b rcv)
      else Inr (s, rcv))"

fun store_run :: "store_op list \<Rightarrow> store_state \<Rightarrow> error + store_state" where
  "store_run [] st = Inr st"
| "store_run (c # cs) st = (case store_step c st of Inl e \<Rightarrow> Inl e | Inr st \<Rightarrow> store_run cs st)"

fun inserted :: "store_op list \<Rightarrow> nat \<Rightarrow> SubgraphTaggedUpdate list" where
  "inserted [] v = []"
| "inserted (InsertOp src us # cs) v = (if v = src then us @ inserted cs v else inserted cs v)"
| "inserted (AdvanceOp # cs) v = inserted cs v"

fun op_ok :: "nat \<Rightarrow> store_op \<Rightarrow> bool" where
  "op_ok n (InsertOp src us) \<longleftrightarrow> src < n"
| "op_ok n AdvanceOp \<longleftrightarrow> True"

lemma deliver_Nil: "deliver \<lparr>tub_src = v, min_subgraph = 0, first_es_subgraph = f, dsts_data = []\<rparr> rcv = rcv"
  by (intro ext) (simp add: deliver_def routed_def)

lemma store_step_accounts:
  assumes "es_inv s" "es.accounts s rcv hist" "op_ok (es_n s) c" "cur_subgraph s \<le> 2 ^ 32"
  shows "\<exists>s' rcv'. store_step c (s, rcv) = Inr (s', rcv') \<and> es_inv s' \<and> es_n s' = es_n s \<and> cur_subgraph s' \<le> Suc (cur_subgraph s) \<and>
    es.accounts s' rcv' (\<lambda>v. hist v @ inserted [c] v)"
proof (cases c)
  case (InsertOp src us)
  then have src: "src < es_n s" using assms(3) by simp
  obtain b s' where i: "insert_adj_edges src (cur_subgraph s) (filter (\<lambda>u. cur_subgraph s \<le> subgraph u) us) s = Inr (b, s')"
      "es_inv s'" "es_moves src (filter (\<lambda>u. cur_subgraph s \<le> subgraph u) us) b s s'"
    using es_insert [OF assms(1) src, of "filter (\<lambda>u. cur_subgraph s \<le> subgraph u) us"] by auto
  have "(\<lambda>v. hist v @ inserted [c] v) = hist(src := hist src @ us)" by (auto simp: InsertOp)
  moreover have "es_n s' = es_n s" "cur_subgraph s' \<le> Suc (cur_subgraph s)"
    using i(3) by (auto simp: store_moves_def split: if_splits)
  ultimately show ?thesis
    using es.accounts_moves [OF assms(1) i(2) assms(2) src i(3) assms(4)] i(1,2) by (simp add: InsertOp)
next
  case AdvanceOp
  show ?thesis
  proof (cases "contract_in_progress s")
    case True
    obtain b s' where a: "vertex_advance_subgraph (cur_subgraph s) s = (b, s')" by fastforce
    note adv = es_advance [OF assms(1) True a]
    then have m: "es_moves 0 (filter (\<lambda>u. cur_subgraph s \<le> subgraph u) []) b s s'" by simp
    have n: "es_n s' = es_n s" using adv by (simp add: store_moves_def)
    show ?thesis
    proof (cases "es_n s = 0")
      case True
      then show ?thesis using AdvanceOp a adv n \<open>contract_in_progress s\<close> by (auto simp: es.accounts_def)
    next
      case False
      then show ?thesis
        using es.accounts_moves [OF assms(1) _ assms(2) _ m assms(4)] AdvanceOp a adv n True
        by (simp add: deliver_Nil)
    qed
  next
    case False
    then show ?thesis using AdvanceOp assms by simp
  qed
qed

lemma inserted_Cons: "inserted (c # cs) v = inserted [c] v @ inserted cs v"
  by (cases c) auto

lemma store_run_accounts:
  assumes "es_inv s" "es.accounts s rcv hist" "list_all (op_ok (es_n s)) cs" "cur_subgraph s + length cs \<le> 2 ^ 32"
  shows "\<exists>s' rcv'. store_run cs (s, rcv) = Inr (s', rcv') \<and> es_inv s' \<and> es_n s' = es_n s \<and>
    es.accounts s' rcv' (\<lambda>v. hist v @ inserted cs v)"
  using assms
proof (induction cs arbitrary: s rcv hist)
  case (Cons c cs)
  obtain s1 rcv1 where s1: "store_step c (s, rcv) = Inr (s1, rcv1)" "es_inv s1" "es_n s1 = es_n s"
      "cur_subgraph s1 \<le> Suc (cur_subgraph s)" "es.accounts s1 rcv1 (\<lambda>v. hist v @ inserted [c] v)"
    using store_step_accounts [OF Cons.prems(1,2), of c] Cons.prems(3,4) by auto
  have "\<exists>s' rcv'. store_run cs (s1, rcv1) = Inr (s', rcv') \<and> es_inv s' \<and> es_n s' = es_n s1 \<and>
      es.accounts s' rcv' (\<lambda>v. (hist v @ inserted [c] v) @ inserted cs v)"
    using Cons.IH [OF s1(2,5)] Cons.prems(3,4) s1(3,4) by simp
  then show ?case using s1(1,3) unfolding inserted_Cons [of c cs] by auto
qed auto

lemma EdgeStore_new_inv:
  assumes "EdgeStore_new junk seed n bytes subgraphs start = Inr s"
  shows "es_inv s" "es_n s = unat n" "cur_subgraph s = start" "es.accounts s (\<lambda>_ _. []) (\<lambda>_. [])"
  using assms
  by (auto simp: EdgeStore_new_def es_inv_def es_shape_def es_defs es.accounts_def sum_list_replicate split: if_splits)



text \<open>C16. A contraction ends: at most one call of \<^verbatim>\<open>vertex_advance_subgraph\<close> per vertex and one more
  complete it, and then no vertex is waiting.\<close>

theorem contraction_completes:
  assumes "es_inv s"
  shows "\<exists>k \<le> Suc (es_n s). let s' = ((\<lambda>s. snd (vertex_advance_subgraph (cur_subgraph s) s)) ^^ k) s
    in es_inv s' \<and> \<not> contract_in_progress s' \<and> cur_subgraph s' = cur_subgraph s"
proof -
  let ?adv = "\<lambda>s. snd (vertex_advance_subgraph (cur_subgraph s) s)"
  have "\<exists>k \<le> Suc m. es_inv ((?adv ^^ k) s) \<and> \<not> contract_in_progress ((?adv ^^ k) s) \<and> cur_subgraph ((?adv ^^ k) s) = cur_subgraph s"
    if "es_inv s" "contract_in_progress s \<Longrightarrow> es_n s \<le> m + unat (needs_contraction s)" for m
    using that
  proof (induction m arbitrary: s)
    case (0 s)
    show ?case
    proof (cases "contract_in_progress s")
      case True
      have "\<not> contract_in_progress (?adv s)"
        using es_advance [OF 0(1) True surjective_pairing] 0(2) [OF True] by auto
      then show ?thesis using es_advance [OF 0(1) True surjective_pairing] by (intro exI [of _ "Suc 0"]) simp
    next
      case False
      then show ?thesis using 0 by (intro exI [of _ 0]) simp
    qed
  next
    case (Suc m s)
    show ?case
    proof (cases "contract_in_progress s")
      case True
      note adv = es_advance [OF Suc.prems(1) True surjective_pairing]
      have n: "es_n (?adv s) = es_n s" using adv by (simp add: store_moves_def)
      obtain k where "k \<le> Suc m" "es_inv ((?adv ^^ k) (?adv s))" "\<not> contract_in_progress ((?adv ^^ k) (?adv s))"
          "cur_subgraph ((?adv ^^ k) (?adv s)) = cur_subgraph (?adv s)"
        using Suc.IH [of "?adv s"] adv Suc.prems(2) [OF True] n by auto
      moreover have "(?adv ^^ Suc k) s = (?adv ^^ k) (?adv s)" by (simp only: funpow_Suc_right o_apply)
      ultimately show ?thesis using adv by (intro exI [of _ "Suc k"]) (simp only: Suc_le_mono simp_thms)
    next
      case False
      then show ?thesis using Suc.prems by (intro exI [of _ 0]) simp
    qed
  qed
  from this [OF assms, of "es_n s"] show ?thesis by (simp add: Let_def)
qed

definition example_store :: EdgeStore where
  "example_store = \<lparr>es_seed = 5, es_num_vertices = 2, es_num_subgraphs = 3, cur_subgraph = 1, true_min_subgraph = 0,
     es_num_edges = 2, needs_contraction = 0, adjlist = [[STU 0 1, STU 2 1], []], vertex_contracted = [False, False], es_max_edges = 2\<rparr>"

lemma example_store_inv: "es_inv example_store" "contract_in_progress example_store"
  by (auto simp: es_inv_def es_shape_def es_defs example_store_def less_2_cases_iff)

theorem contraction_completes_witness:
  "contract_in_progress example_store \<and>
    (\<exists>k \<le> Suc (es_n example_store). let s' = ((\<lambda>s. snd (vertex_advance_subgraph (cur_subgraph s) s)) ^^ k) example_store
      in es_inv s' \<and> \<not> contract_in_progress s' \<and> cur_subgraph s' = cur_subgraph example_store)"
  using contraction_completes [OF example_store_inv(1)] example_store_inv(2) by blast

section \<open>One update on a sorted buffer\<close>

fun toggle :: "'a::linorder \<Rightarrow> 'a list \<Rightarrow> 'a list" where
  "toggle x [] = [x]"
| "toggle x (y # ys) = (if y = x then ys else if y < x then y # toggle x ys else x # y # ys)"

lemma toggle_less: "sorted_wrt (<) (x # xs) \<Longrightarrow> toggle x xs = x # xs"
  by (cases xs) auto

lemma set_toggle: "sorted_wrt (<) xs \<Longrightarrow> set (toggle x xs) = sym_diff (set xs) {x}"
proof (induction xs)
  case (Cons y ys)
  then have "y \<notin> set ys" "x < y \<Longrightarrow> x \<notin> set ys" by auto
  with Cons show ?case by (cases x y rule: linorder_cases) auto
qed simp

lemma sorted_toggle: "sorted_wrt (<) xs \<Longrightarrow> sorted_wrt (<) (toggle x xs)"
  by (induction xs) (auto simp: set_toggle)

lemma merge_loop_single:
  assumes "out_ptr \<le> bp" "bp \<le> length b" "sorted_wrt (<) (drop bp b)" "d = [x]"
    "merge_loop b d out_ptr bp 0 = (b', d', out', bp', up')"
  shows "take out' b' @ drop up' d' @ drop bp' b' = take out_ptr b @ toggle x (drop bp b)"
  using assms
proof (induction b d out_ptr bp "0 :: nat" arbitrary: x rule: merge_loop.induct)
  case (1 b d out_ptr bp)
  show ?case
  proof (cases "bp < length b")
    case True
    have db: "drop bp b = b ! bp # drop (Suc bp) b" using True by (simp add: Cons_nth_drop_Suc)
    have st: "sorted_wrt (<) (b ! bp # drop (Suc bp) b)" using 1(6) by (simp add: db)
    have t: "take (Suc out_ptr) (b[out_ptr := y]) = take out_ptr b @ [y]" for y
      using 1(4) True by (simp add: take_Suc_conv_app_nth)
    consider (gt) "b ! bp > x" | (lt) "b ! bp < x" | (eq) "b ! bp = x" by (rule linorder_cases)
    then show ?thesis
    proof cases
      case gt
      let ?b = "b[out_ptr := x]"
      have e: "merge_loop ?b [b ! bp] (out_ptr + 1) (bp + 1) 0 = (b', d', out', bp', up')"
        using 1(7,8) True gt by (subst (asm) merge_loop.simps) (simp add: stu_greater_less)
      have "take out' b' @ drop up' d' @ drop bp' b' = take (out_ptr + 1) ?b @ toggle (b ! bp) (drop (bp + 1) ?b)"
        using 1(1) [of "b ! bp"] 1(4,7) True gt e st by (simp add: stu_greater_less drop_update_cancel)
      then show ?thesis using gt st toggle_less [OF st] 1(4) by (auto simp: t db drop_update_cancel)
    next
      case lt
      let ?b = "b[out_ptr := b ! bp]"
      have e: "merge_loop ?b [x] (out_ptr + 1) (bp + 1) 0 = (b', d', out', bp', up')"
        using 1(7,8) True lt less_not_sym [OF lt] by (subst (asm) merge_loop.simps) (auto simp: stu_greater_less stu_less_less)
      have "take out' b' @ drop up' d' @ drop bp' b' = take (out_ptr + 1) ?b @ toggle x (drop (bp + 1) ?b)"
        using 1(2) [of x] 1(4,7) True lt e st by (simp add: stu_greater_less stu_less_less drop_update_cancel)
      then show ?thesis using lt 1(4) by (simp add: t db drop_update_cancel)
    next
      case eq
      then show ?thesis
        using 1(7,8) True unfolding db by (subst (asm) merge_loop.simps) (auto simp: stu_greater_less stu_less_less)
    qed
  next
    case False
    then show ?thesis using 1(5,7,8) by (subst (asm) merge_loop.simps) auto
  qed
qed

text \<open>A single update on a buffer in order: an update that the buffer holds is removed, any other
  is inserted at its place, and the buffer stays in order.\<close>

theorem merge_single_update:
  assumes "sorted_wrt (<) buf"
  shows "\<exists>b. merge_updates buf [u] 0 = (b, length b) \<and> sorted_wrt (<) b \<and> set b = sym_diff (set buf) {u}"
proof -
  obtain b1 d1 out1 bp1 up1 where m: "merge_loop buf [u] 0 0 0 = (b1, d1, out1, bp1, up1)"
      "length b1 = length buf" "length d1 = length [u]" "out1 \<le> bp1" "bp1 \<le> length buf" "up1 \<le> length [u]"
      "bp1 = length buf \<or> up1 = length [u]"
    using merge_loop_spec [of 0 0 buf 0 "[u]"] by auto
  have "take out1 b1 @ drop up1 d1 @ drop bp1 b1 = toggle u buf"
    using merge_loop_single [OF _ _ _ refl m(1)] assms by simp
  then have "merge_updates buf [u] 0 = (toggle u buf, length (toggle u buf))"
    using merge_updates_result [OF m] by simp
  then show ?thesis using sorted_toggle [OF assms] set_toggle [OF assms] by blast
qed

theorem merge_single_update_witness:
  "\<exists>b. merge_updates [STU 0 3, STU 1 2, STU 2 0] [STU 1 2] 0 = (b, length b) \<and> sorted_wrt (<) b \<and>
    set b = sym_diff (set [STU 0 3, STU 1 2, STU 2 0]) {STU 1 2}"
  using merge_single_update [of "[STU 0 3, STU 1 2, STU 2 0]" "STU 1 2"]
  by (simp add: less_SubgraphTaggedUpdate_def stu_less_def)

section \<open>Where the code falls short\<close>

lemmas es_eval = merge_updates_def resize_def stu_greater_def stu_less_def Let_def
  merge_loop.simps copy_updates.simps shift_buffer.simps skip_lower.simps



end
