(* ===== verification/MC_GPU_Sketch_Alg.thy ===== *)
theory MC_GPU_Sketch_Alg
  imports Stream_Bank Edge_Store_Correctness MC_Sketch_Alg
begin

text \<open>
  The minimum-cut algorithm on the GPU (include/mc_gpu_sketch_alg.h, src/mc_gpu_sketch_alg.cpp). An update
  belongs to the subgraphs up to the depth of its edge. The subgraphs below the level of the edge store
  are kept as sketches: each has a gutter per vertex, and full gutters go to the streams of the subgraph,
  one per worker thread. Everything at or above the level is kept in the edge store; when the store
  contracts, a new subgraph is created and the updates that the store hands out go to its gutters.

  Each member function runs as one step, on behalf of the thread \<open>thr_id\<close>. What memory holds before it
  is initialised, and the order in which the threads of a launch run, are parameters (\<open>gpu_mem\<close> and \<open>env\<close>: a launch
  is named by its subgraph, thread and update count). Members that no function reads, timers and
  console output are left out.
\<close>

section \<open>Sketch subgraphs\<close>

record Gutter =
  gut_elms :: nat
  gut_data :: "nat list"

record SketchSubgraph =
  sg_num_updates :: "64 word"
  cuda_streams :: "cuda_stream list option"
  sg_params :: SketchParams
  sg_num_streams :: nat
  sg_num_nodes :: nat
  sg_batch_size :: nat
  subgraph_gutters :: "Gutter list"
  sg_managed :: "64 word Bucket list"

record gpu_mem =
  stream_mem :: "nat \<Rightarrow> nat \<Rightarrow> stream_junk"
  managed_mem :: "nat \<Rightarrow> 64 word Bucket list"
  subgraph_mem :: "nat \<Rightarrow> SketchSubgraph"
  contraction_mem :: "32 word"

type_synonym launches = "nat \<Rightarrow> nat \<Rightarrow> 64 word \<Rightarrow> launch_env"

type_synonym sub_state = "64 word MC \<times> SketchSubgraph"

text \<open>A loop whose body can fail.\<close>

fun for_each :: "('x \<Rightarrow> 's \<Rightarrow> error + 's) \<Rightarrow> 'x list \<Rightarrow> 's \<Rightarrow> error + 's" where
  "for_each f [] s = Inr s"
| "for_each f (x # xs) s = (case f x s of Inl e \<Rightarrow> Inl e | Inr s \<Rightarrow> for_each f xs s)"

text \<open>The members that \<^verbatim>\<open>new\<close> initialises.\<close>

definition SketchSubgraph_new :: "SketchSubgraph \<Rightarrow> SketchSubgraph" where
  "SketchSubgraph_new mem = mem\<lparr>cuda_streams := None, subgraph_gutters := []\<rparr>"

text \<open>Without a worker thread the split of the gutters divides by zero. \<open>desired\<close> is what the streams ask the
  algorithm for.\<close>

definition subgraph_initialize :: "gpu_mem \<Rightarrow> nat \<Rightarrow> nat \<Rightarrow> nat \<Rightarrow> nat \<Rightarrow> nat \<Rightarrow> nat \<Rightarrow> nat \<Rightarrow> SketchParams \<Rightarrow>
    SketchSubgraph \<Rightarrow> error + SketchSubgraph" where
  "subgraph_initialize mem desired gid n num_host_threads dev_threads nbatch bs sp sub =
     (if num_host_threads = 0 then Inl Undefined
      else Inr (sub\<lparr>sg_num_nodes := n, sg_batch_size := bs, sg_num_updates := 0, sg_num_streams := num_host_threads, sg_params := sp,
             sg_managed := managed_mem mem gid,
             cuda_streams := Some (map (\<lambda>i. CudaStream_new (stream_mem mem gid i) desired gid n dev_threads nbatch sp (managed_mem mem gid)) [0..<num_host_threads]),
             subgraph_gutters := replicate n \<lparr>gut_elms = 0, gut_data = replicate bs 0\<rparr>\<rparr>))"

definition sub_stream :: "nat \<Rightarrow> (64 word MC \<times> cuda_stream \<Rightarrow> error + 64 word MC \<times> cuda_stream) \<Rightarrow> sub_state \<Rightarrow> error + sub_state" where
  "sub_stream thr_id f st =
     (case cuda_streams (snd st) of
        None \<Rightarrow> Inl Undefined
      | Some ss \<Rightarrow>
          if thr_id < length ss then
            case f (fst st, (ss ! thr_id)\<lparr>uvm_buckets := sg_managed (snd st)\<rparr>) of
              Inl e \<Rightarrow> Inl e
            | Inr (mc, s) \<Rightarrow> Inr (mc, (snd st)\<lparr>cuda_streams := Some (ss[thr_id := s]), sg_managed := uvm_buckets s\<rparr>)
          else Inl Undefined)"

definition sub_apply_update_batch :: "(nat \<Rightarrow> 64 word \<Rightarrow> launch_env) \<Rightarrow> nat \<Rightarrow> nat \<Rightarrow> nat list \<Rightarrow> sub_state \<Rightarrow> error + sub_state" where
  "sub_apply_update_batch env thr_id src dst_vertices st =
     (if cuda_streams (snd st) = None then Inl RuntimeError
      else
        let sub = (snd st)\<lparr>sg_num_updates := sg_num_updates (snd st) + of_nat (length dst_vertices)\<rparr>
        in sub_stream thr_id (process_batch mc_apply_raw_buckets_update (env thr_id (sg_num_updates sub)) src dst_vertices) (fst st, sub))"

text \<open>The updates fill the gutter; a full gutter becomes a batch, and the rest starts the next one.\<close>

definition batch_insert :: "(nat \<Rightarrow> 64 word \<Rightarrow> launch_env) \<Rightarrow> nat \<Rightarrow> nat \<Rightarrow> nat list \<Rightarrow> nat \<Rightarrow> sub_state \<Rightarrow> error + sub_state" where
  "batch_insert env thr_id src dsts num_elms st =
     (let sub = snd st
      in if \<not> src < length (subgraph_gutters sub) \<or> length dsts < num_elms then Inl Undefined
         else
           let gutter = subgraph_gutters sub ! src;
               capacity = sg_batch_size sub - gut_elms gutter;
               m = min num_elms capacity
           in if length (gut_data gutter) < gut_elms gutter + m then Inl Undefined
              else
                let gutter = gutter\<lparr>gut_data := overwrite (gut_data gutter) (gut_elms gutter) (take m dsts), gut_elms := gut_elms gutter + m\<rparr>;
                    sub = sub\<lparr>subgraph_gutters := (subgraph_gutters sub)[src := gutter]\<rparr>
                in if num_elms \<ge> capacity then
                     case sub_apply_update_batch env thr_id src (gut_data gutter) (fst st, sub) of
                       Inl e \<Rightarrow> Inl e
                     | Inr (mc, sub) \<Rightarrow>
                         (let num_left = num_elms - capacity
                          in if length (gut_data gutter) < num_left then Inl Undefined
                             else Inr (mc, sub\<lparr>subgraph_gutters := (subgraph_gutters sub)[src :=
                                    gutter\<lparr>gut_elms := num_left, gut_data := overwrite (gut_data gutter) 0 (take num_left (drop capacity dsts))\<rparr>]\<rparr>))
                   else Inr (fst st, sub))"

definition resize_zero :: "nat \<Rightarrow> nat list \<Rightarrow> nat list" where
  "resize_zero k xs = take k xs @ replicate (k - length xs) 0"

definition flush_gutter :: "(nat \<Rightarrow> 64 word \<Rightarrow> launch_env) \<Rightarrow> nat \<Rightarrow> sub_state \<Rightarrow> error + sub_state" where
  "flush_gutter env v st =
     (if \<not> v < length (subgraph_gutters (snd st)) then Inl Undefined
      else
        let gutter = subgraph_gutters (snd st) ! v
        in if gut_elms gutter > 0 then
             let data = resize_zero (gut_elms gutter) (gut_data gutter)
             in case sub_apply_update_batch env 0 v data st of
                  Inl e \<Rightarrow> Inl e
                | Inr (mc, sub) \<Rightarrow>
                    Inr (mc, sub\<lparr>subgraph_gutters := (subgraph_gutters sub)[v := \<lparr>gut_elms = 0, gut_data = resize_zero (sg_batch_size sub) data\<rparr>]\<rparr>)
           else Inr st)"

definition sub_flush :: "(nat \<Rightarrow> 64 word \<Rightarrow> launch_env) \<Rightarrow> sub_state \<Rightarrow> error + sub_state" where
  "sub_flush env st =
     (case for_each (flush_gutter env) [0..<sg_num_nodes (snd st)] st of
        Inl e \<Rightarrow> Inl e
      | Inr st \<Rightarrow>
          for_each (\<lambda>thr_id. sub_stream thr_id (flush_buffers mc_apply_raw_buckets_update (env thr_id (sg_num_updates (snd st)))))
            [0..<sg_num_streams (snd st)] st)"

section \<open>The algorithm\<close>

record mc_gpu =
  mg_mc :: "64 word MC"
  default_skt_params :: SketchParams
  mg_num_nodes :: nat
  num_subgraphs :: nat
  cur_subgraphs :: nat
  mg_host_threads :: nat
  mg_batches_per_buffer :: nat
  subgraphs :: "SketchSubgraph list"
  edge_store :: EdgeStore
  mg_batch_size :: nat

definition mg_device_threads :: nat where
  "mg_device_threads = 1024"

definition on_subgraph :: "nat \<Rightarrow> (sub_state \<Rightarrow> error + sub_state) \<Rightarrow> mc_gpu \<Rightarrow> error + mc_gpu" where
  "on_subgraph gid f g =
     (if gid < length (subgraphs g) then
        case f (mg_mc g, subgraphs g ! gid) of
          Inl e \<Rightarrow> Inl e
        | Inr (mc, sub) \<Rightarrow> Inr (g\<lparr>mg_mc := mc, subgraphs := (subgraphs g)[gid := sub]\<rparr>)
      else Inl Undefined)"

text \<open>A subgraph and its sketches are created.\<close>

definition init_subgraph :: "gpu_mem \<Rightarrow> nat \<Rightarrow> mc_gpu \<Rightarrow> error + mc_gpu" where
  "init_subgraph mem gid g =
     (if gid < length (subgraphs g) then
        case subgraph_initialize mem (mc_get_desired_updates_per_batch (mg_mc g)) gid (mg_num_nodes g) (mg_host_threads g)
               mg_device_threads (mg_batches_per_buffer g) (mg_batch_size g) (default_skt_params g) (subgraphs g ! gid) of
          Inl e \<Rightarrow> Inl e
        | Inr sub \<Rightarrow> Inr (g\<lparr>subgraphs := (subgraphs g)[gid := sub], mg_mc := create_sketch_graph gid (sg_params sub) (mg_mc g)\<rparr>)
      else Inl Undefined)"

definition MCGPUSketchAlg_new :: "gpu_mem \<Rightarrow> nat list \<Rightarrow> nat \<Rightarrow> nat \<Rightarrow> nat \<Rightarrow> SketchParams \<Rightarrow> nat \<Rightarrow> nat \<Rightarrow> nat \<Rightarrow> nat \<Rightarrow>
    CCAlgConfiguration \<Rightarrow> error + mc_gpu" where
  "MCGPUSketchAlg_new mem prio n num_threads nbatch sp subs max_graphs sketch_bytes initial conf =
     (let mc = MCSketchAlg_new prio n (skp_seed sp) max_graphs conf
      in case EdgeStore_new (contraction_mem mem) (skp_seed sp) (of_nat n) sketch_bytes subs initial of
           Inl e \<Rightarrow> Inl e
         | Inr es \<Rightarrow>
             if max_graphs < initial then Inl ExitFailure
             else for_each (init_subgraph mem) [0..<initial]
               \<lparr>mg_mc = mc, default_skt_params = sp, mg_num_nodes = n, num_subgraphs = subs, cur_subgraphs = initial,
                mg_host_threads = num_threads, mg_batches_per_buffer = nbatch,
                subgraphs = map (\<lambda>i. SketchSubgraph_new (subgraph_mem mem i)) [0..<max_graphs],
                edge_store = es, mg_batch_size = mc_get_desired_updates_per_batch mc\<rparr>)"

section \<open>Distributing updates\<close>

text \<open>The local buffers, of 16 updates per subgraph, and their 16 sizes.\<close>

type_synonym local_state = "(nat list list \<times> nat list) \<times> mc_gpu"

definition buffer_dst :: "launches \<Rightarrow> nat \<Rightarrow> nat \<Rightarrow> nat \<Rightarrow> nat \<Rightarrow> local_state \<Rightarrow> error + local_state" where
  "buffer_dst env thr_id src dst gid st =
     (let ((bufs, sizes), g) = st
      in if \<not> (gid < length bufs \<and> gid < length sizes) then Inl Undefined
         else
           let buf = (bufs ! gid)[sizes ! gid := dst]; k = sizes ! gid + 1
           in if k \<ge> 16 then
                case on_subgraph gid (batch_insert (env gid) thr_id src buf k) g of
                  Inl e \<Rightarrow> Inl e
                | Inr g \<Rightarrow> Inr ((bufs[gid := buf], sizes[gid := 0]), g)
              else Inr ((bufs[gid := buf], sizes[gid := k]), g))"

definition flush_local :: "launches \<Rightarrow> nat \<Rightarrow> nat \<Rightarrow> nat \<Rightarrow> local_state \<Rightarrow> error + local_state" where
  "flush_local env thr_id src i st =
     (let ((bufs, sizes), g) = st
      in if \<not> i < length sizes then Inl Undefined
         else if sizes ! i > 0 then
           case on_subgraph i (batch_insert (env i) thr_id src (bufs ! i) (sizes ! i)) g of
             Inl e \<Rightarrow> Inl e
           | Inr g \<Rightarrow> Inr ((bufs, sizes), g)
         else Inr st)"

definition ensure_subgraph :: "gpu_mem \<Rightarrow> nat \<Rightarrow> mc_gpu \<Rightarrow> error + mc_gpu" where
  "ensure_subgraph mem first g =
     (if first > cur_subgraphs g then
        case init_subgraph mem (cur_subgraphs g) g of
          Inl e \<Rightarrow> Inl e
        | Inr g \<Rightarrow> Inr (g\<lparr>cur_subgraphs := cur_subgraphs g + 1\<rparr>)
      else Inr g)"

definition complete_update_batch :: "gpu_mem \<Rightarrow> launches \<Rightarrow> nat \<Rightarrow> TaggedUpdateBatch \<Rightarrow> mc_gpu \<Rightarrow> error + mc_gpu" where
  "complete_update_batch mem env thr_id updates g =
     (let lo = min_subgraph updates; first = first_es_subgraph updates; src = tub_src updates
      in if first = 0 then Inl RuntimeError
         else
           case ensure_subgraph mem first g of
             Inl e \<Rightarrow> Inl e
           | Inr g \<Rightarrow>
               (case for_each (\<lambda>d. for_each (buffer_dst env thr_id src (stu_dst d)) [lo..<min (subgraph d) (first - 1) + 1])
                       (dsts_data updates) ((replicate first (replicate 16 0), replicate 16 0), g) of
                  Inl e \<Rightarrow> Inl e
                | Inr st \<Rightarrow>
                    (case for_each (flush_local env thr_id src) [0..<first] st of
                       Inl e \<Rightarrow> Inl e
                     | Inr st \<Rightarrow> Inr (snd st))))"

definition pred64 :: "nat \<Rightarrow> nat" where
  "pred64 n = (n + (2 ^ 64 - 1)) mod 2 ^ 64"

definition complete_more :: "gpu_mem \<Rightarrow> launches \<Rightarrow> nat \<Rightarrow> TaggedUpdateBatch \<Rightarrow> mc_gpu \<Rightarrow> error + mc_gpu" where
  "complete_more mem env thr_id b g = (if dsts_data b = [] then Inr g else complete_update_batch mem env thr_id b g)"

text \<open>Past the level 0 the updates are tagged in buffers of \<^verbatim>\<open>batch_size\<close> elements per thread.\<close>

definition mg_apply_update_batch :: "xxh \<Rightarrow> gpu_mem \<Rightarrow> launches \<Rightarrow> nat \<Rightarrow> nat \<Rightarrow> nat list \<Rightarrow> mc_gpu \<Rightarrow> error + mc_gpu" where
  "mg_apply_update_batch xxh mem env thr_id src_vertex dst_vertices g =
     (if mc_update_locked (mg_mc g) then Inl UpdateLockedException
      else
        let first = get_first_store_subgraph (edge_store g)
        in if first = 0 then
             case insert_adj_vertices xxh src_vertex dst_vertices (edge_store g) of
               Inl e \<Rightarrow> Inl e
             | Inr (more_upds, es) \<Rightarrow> complete_more mem env thr_id more_upds (g\<lparr>edge_store := es\<rparr>)
           else if \<not> thr_id < mg_host_threads g \<or> mg_batch_size g < length dst_vertices then Inl Undefined
           else
             let sketch_edges = map (tag_update xxh (skp_seed (default_skt_params g)) (pred64 (num_subgraphs g)) src_vertex) dst_vertices;
                 store_edges = filter (\<lambda>u. first \<le> subgraph u) sketch_edges
             in case insert_adj_edges src_vertex first store_edges (edge_store g) of
                  Inl e \<Rightarrow> Inl e
                | Inr (more_upds, es) \<Rightarrow>
                    (case complete_more mem env thr_id \<lparr>tub_src = src_vertex, min_subgraph = 0, first_es_subgraph = first, dsts_data = sketch_edges\<rparr>
                            (g\<lparr>edge_store := es\<rparr>) of
                       Inl e \<Rightarrow> Inl e
                     | Inr g \<Rightarrow> complete_more mem env thr_id more_upds g))"

section \<open>Flushing\<close>

text \<open>The threads take the vertices that a contraction has left, one per iteration; \<open>sched\<close> names the thread
  of an iteration.\<close>

partial_function (option) finish_contraction :: "gpu_mem \<Rightarrow> launches \<Rightarrow> (nat \<Rightarrow> nat) \<Rightarrow> nat \<Rightarrow> mc_gpu \<Rightarrow> (error + mc_gpu) option" where
  "finish_contraction mem env sched i g =
     (if contract_in_progress (edge_store g) then
        case vertex_advance_subgraph (get_first_store_subgraph (edge_store g)) (edge_store g) of
          (more_upds, es) \<Rightarrow>
            (case complete_more mem env (sched i) more_upds (g\<lparr>edge_store := es\<rparr>) of
               Inl e \<Rightarrow> Some (Inl e)
             | Inr g \<Rightarrow> finish_contraction mem env sched (i + 1) g)
      else Some (Inr g))"

definition device_synchronize :: "mc_gpu \<Rightarrow> error + mc_gpu" where
  "device_synchronize g =
     for_each (\<lambda>gid. on_subgraph gid (\<lambda>st. for_each (\<lambda>thr_id. sub_stream thr_id
         (\<lambda>(mc, s). case stream_sync s of Inl e \<Rightarrow> Inl e | Inr s \<Rightarrow> Inr (mc, s))) [0..<sg_num_streams (snd st)] st))
       [0..<cur_subgraphs g] g"

definition flush_subgraphs :: "launches \<Rightarrow> mc_gpu \<Rightarrow> error + mc_gpu" where
  "flush_subgraphs env g =
     (case for_each (\<lambda>gid. on_subgraph gid (sub_flush (env gid))) [0..<cur_subgraphs g] g of
        Inl e \<Rightarrow> Inl e
      | Inr g \<Rightarrow> device_synchronize g)"

definition apply_flush_updates :: "gpu_mem \<Rightarrow> launches \<Rightarrow> (nat \<Rightarrow> nat) \<Rightarrow> mc_gpu \<Rightarrow> (error + mc_gpu) option" where
  "apply_flush_updates mem env sched g =
     (case finish_contraction mem env sched 0 g of
        None \<Rightarrow> None
      | Some (Inl e) \<Rightarrow> Some (Inl e)
      | Some (Inr g) \<Rightarrow> Some (flush_subgraphs env g))"

definition get_adjlist_spanning_forests :: "mc_gpu \<Rightarrow> (nat \<times> nat) list" where
  "get_adjlist_spanning_forests g = es_get_edges (edge_store g)"

definition get_num_sketch_graphs :: "mc_gpu \<Rightarrow> nat" where
  "get_num_sketch_graphs g = cur_subgraphs g"

definition get_num_adjlist_edges :: "mc_gpu \<Rightarrow> nat" where
  "get_num_adjlist_edges g = get_num_edges (edge_store g)"

end
