(* ===== verification/CC_Correctness.thy ===== *)
theory CC_Correctness
  imports CC_Sketch_Alg
begin

text \<open>
  The results on the connected-components algorithm: streams of updates, the queries, the
  failure of a query, and the file format.
\<close>

section \<open>Streams\<close>

lemma CCSketchAlg_new_inv:
  assumes "n \<le> 2 ^ 31" "n \<le> length prio"
  shows "cc_inv xxh {} (CCSketchAlg_new prio n seed conf :: 'h::len word CC)"
proof -
  let ?cc = "CCSketchAlg_new prio n seed conf :: 'h word CC" and ?ref = "new_sketch n seed (cfg_sketches_factor conf) :: 'h word Sketch"
  have wf: "sketch_wf ?ref" by (rule new_sketch_wf [OF assms(1)])
  have r: "sketch_repr xxh (in_bucket xxh) {..<num_buckets ?ref} ?ref {}"
    unfolding new_sketch_def by (rule Sketch_new_repr)
  have d: "dsu_inv (DSU_new n prio)" "dsu_n (DSU_new n prio) = n" "\<And>u. u < n \<Longrightarrow> dsu_root (DSU_new n prio) u = u"
    using DSU_new_inv [OF assms(2)] by blast+
  have "cc_wf ?cc"
    using wf d assms(1) by (simp add: cc_wf_def CCSketchAlg_new_def sketches_shape_def dsu_shape_def)
  moreover have "cache_ok {} ?cc"
    using d by (simp add: cache_ok_def CCSketchAlg_new_def uf_represents_def spanning_forest_of_def edges_of_def)
  ultimately show ?thesis
    using wf r by (simp add: cc_inv_def cc_holds_def CCSketchAlg_new_def graph_ids_def sketches_hold_def
        sketches_shape_def incident_def)
qed

lemma stream_inv:
  assumes "cc_inv xxh E cc" "\<And>u v. (u, v) \<in> set es \<Longrightarrow> u \<noteq> v \<and> u < num_vertices cc \<and> v < num_vertices cc"
  shows "\<exists>cc'. update_edges xxh ty es cc = Some cc' \<and> same_params cc' cc \<and>
    cc_inv xxh (sym_diff E (odd_set (map (\<lambda>(u, v). edge_id u v) es))) cc'"
  using assms
proof (induction es arbitrary: E cc)
  case Nil
  then show ?case by (simp add: same_params_def)
next
  case (Cons e es)
  obtain u v where e: "e = (u, v)" by fastforce
  have uv: "u \<noteq> v" "u < num_vertices cc" "v < num_vertices cc" using Cons.prems(2) e by auto
  obtain cc1 where c: "cc_update xxh (e, ty) cc = Some cc1" "cc_inv xxh (sym_diff E {edge_id u v}) cc1" "same_params cc1 cc"
    using cc_update_correct [OF Cons.prems(1) uv(2,3,1), of ty] e by (auto simp: same_params_def)
  have "sym_diff (sym_diff E {edge_id u v}) (odd_set (map (\<lambda>(u, v). edge_id u v) es)) =
      sym_diff E (odd_set (map (\<lambda>(u, v). edge_id u v) (e # es)))"
    by (auto simp: e odd_set_Cons)
  then show ?case
    using Cons.IH [OF c(2)] Cons.prems(2) c(1,3) by (auto simp: same_params_def)
qed

text \<open>The graph of a stream: the edges that were toggled an odd number of times.\<close>

definition stream_graph :: "(nat \<times> nat) list \<Rightarrow> vec_t set" where
  "stream_graph es = odd_set (map (\<lambda>(u, v). edge_id u v) es)"

definition stream_ok :: "nat \<Rightarrow> (nat \<times> nat) list \<Rightarrow> bool" where
  "stream_ok n es \<longleftrightarrow> list_all (\<lambda>(u, v). u \<noteq> v \<and> u < n \<and> v < n) es"

lemma stream_from_new:
  assumes "n \<le> 2 ^ 31" "n \<le> length prio" "stream_ok n es"
  shows "\<exists>cc. update_edges xxh ty es (CCSketchAlg_new prio n seed conf :: 'h::len word CC) = Some cc \<and>
    same_params cc (CCSketchAlg_new prio n seed conf) \<and> cc_inv xxh (stream_graph es) cc"
proof -
  let ?cc = "CCSketchAlg_new prio n seed conf :: 'h word CC"
  have n: "num_vertices ?cc = n" by (simp add: CCSketchAlg_new_def)
  have "u \<noteq> v \<and> u < num_vertices ?cc \<and> v < num_vertices ?cc" if "(u, v) \<in> set es" for u v
    using assms(3) that by (auto simp: n stream_ok_def list_all_iff)
  from stream_inv [OF CCSketchAlg_new_inv [OF assms(1,2)] this, where ty = ty and xxh = xxh]
  show ?thesis by (simp add: stream_graph_def)
qed

lemma cc_conf_params: "same_params cc' cc \<Longrightarrow> cc_conf env cc' = cc_conf env cc"
  by (simp add: cc_conf_def same_params_def)

text \<open>C1. From construction to answer: after any stream of edge updates (an edge that occurs an
  even number of times cancels out) \<^verbatim>\<open>connected_components\<close> returns, for every number of
  threads that divides the vertices correctly and every interleaving of them. If the hash is sound
  on the cuts that the query asked for, the answer lists exactly the connected components of the
  graph of the stream and the state still holds that graph, or the samples ran out and
  \<^verbatim>\<open>OutOfSamplesException\<close> was thrown with the sketches intact.\<close>

theorem stream_connected_components:
  assumes "n \<le> 2 ^ 31" "n \<le> length prio" "stream_ok n es"
    and "omp_ok (cc_conf env (CCSketchAlg_new prio n seed conf :: 'h::len word CC))"
  shows "\<exists>cc res cc'. update_edges xxh ty es (CCSketchAlg_new prio n seed conf :: 'h word CC) = Some cc \<and>
    connected_components xxh env cc = Some (res, cc') \<and>
    (asked_sound xxh (stream_graph es) cc cc' \<longrightarrow>
      query_post xxh (stream_graph es)
        (\<lambda>ret cc'. dsu_valid cc' \<and> components_of (edges_of (stream_graph es)) n ret) res cc')"
proof -
  obtain cc where cc: "update_edges xxh ty es (CCSketchAlg_new prio n seed conf :: 'h word CC) = Some cc"
    "same_params cc (CCSketchAlg_new prio n seed conf)" "cc_inv xxh (stream_graph es) cc"
    using stream_from_new [OF assms(1-3), where ty = ty and xxh = xxh] by blast
  have n: "num_vertices cc = n" using cc(2) by (simp add: same_params_def CCSketchAlg_new_def)
  have "omp_ok (cc_conf env cc)" using assms(4) cc_conf_params [OF cc(2)] by simp
  from connected_components_spec [OF cc(3) this] show ?thesis using cc(1) n by auto
qed

section \<open>A concrete run\<close>

definition seq_env :: "nat \<Rightarrow> omp_env" where
  "seq_env n = \<lparr>max_threads = 1, zero_order = [0..<n], round_sched = (\<lambda>_. []), capture_sched = (\<lambda>_. []),
     map_order = (\<lambda>_ _ xs. xs)\<rparr>"

lemma seq_env_ok:
  assumes "bc_part bc = get_ith_partition" "bc_env bc = seq_env (bc_n bc)" "0 < bc_n bc" "bc_n bc \<le> 2 ^ 31"
  shows "omp_ok bc"
  using partition_pow2 [of "bc_n bc" 0] assms by (simp add: omp_ok_def seq_env_def size_max_def)

text \<open>A hash that is sound on every subset of the graph is sound on every cut.\<close>

lemma asked_sound_subsets:
  fixes cc cc' :: "'h::len word CC"
  assumes "\<And>s. hash_sound TYPE('h) xxh s E"
  shows "asked_sound xxh E cc cc'"
proof -
  have "edge_cut E A \<subseteq> E" for A by (auto simp: edge_cut_def)
  then have "hash_sound TYPE('h) xxh s (edge_cut E A)" for s A
    using assms [of s] unfolding hash_sound_def by (meson order_trans)
  then show ?thesis by (simp add: asked_sound_def hist_sound_def cuts_sound_def hash_sound_sample)
qed

definition example_hash :: xxh where
  "example_hash = (\<lambda>x s. x + 1)"

definition example_stream :: "(nat \<times> nat) list" where
  "example_stream = [(0, 1), (1, 0), (1, 0), (2, 0)]"

definition example_cc :: "64 word CC" where
  "example_cc = CCSketchAlg_new [5, 6, 7, 8] 4 3 CCAlgConfiguration_new"

lemma example_stream_ok: "stream_ok 4 example_stream" "stream_graph example_stream = {1, 2}"
proof -
  have "edge_id 0 1 = 1" "edge_id 1 0 = 1" "edge_id 2 0 = 2" by code_simp+
  then show "stream_graph example_stream = {1, 2}" by (auto simp: stream_graph_def odd_set_def example_stream_def)
qed (simp add: stream_ok_def example_stream_def)

lemma example_omp: "same_params cc example_cc \<Longrightarrow> omp_ok (cc_conf (seq_env 4) cc)"
  by (rule seq_env_ok) (simp_all add: example_cc_def CCSketchAlg_new_def same_params_def)

lemma example_sound: "asked_sound example_hash {1, 2} cc (cc' :: 64 word CC)"
  unfolding example_hash_def by (rule asked_sound_subsets [OF hash_sound_example])

lemma example_run:
  "\<exists>cc. update_edges example_hash () example_stream example_cc = Some cc \<and> same_params cc example_cc \<and>
     num_vertices cc = 4 \<and> omp_ok (cc_conf (seq_env 4) cc) \<and> cc_inv example_hash {1, 2} cc"
proof -
  obtain cc where cc: "update_edges example_hash () example_stream example_cc = Some cc" "same_params cc example_cc"
    "cc_inv example_hash {1, 2} cc"
    using stream_from_new [OF _ _ example_stream_ok(1), where prio = "[5, 6, 7, 8]" and seed = 3 and ty = "()"
        and conf = CCAlgConfiguration_new and xxh = example_hash]
    by (auto simp: example_cc_def example_stream_ok)
  then have "num_vertices cc = 4" by (simp add: same_params_def example_cc_def CCSketchAlg_new_def)
  then show ?thesis using cc example_omp by blast
qed

lemma stream_connected_components_witness:
  "\<exists>cc res cc'. update_edges example_hash () example_stream
      (CCSketchAlg_new [5, 6, 7, 8] 4 3 CCAlgConfiguration_new :: 64 word CC) = Some cc \<and>
    connected_components example_hash (seq_env 4) cc = Some (res, cc') \<and>
    query_post example_hash {1, 2} (\<lambda>ret cc'. dsu_valid cc' \<and> components_of (edges_of {1, 2}) 4 ret) res cc'"
  using stream_connected_components [OF _ _ example_stream_ok(1), where ty = "()" and xxh = example_hash
      and prio = "[5, 6, 7, 8]" and seed = 3 and conf = CCAlgConfiguration_new and 'h = 64]
    example_omp [of example_cc] example_sound
  by (simp add: example_cc_def example_stream_ok same_params_def)

section \<open>The other queries\<close>





section \<open>Disjoint forests\<close>

lemma calc_disjoint_spec:
  assumes inv: "cc_inv xxh E cc" and omp: "\<And>i. omp_ok (cc_conf (env i) cc)" and ord: "iter_order ord"
    and sound: "forests_sound xxh env ord (snd types) k 0 E cc"
  shows "\<exists>res cc'. calc_disjoint_spanning_forests xxh env ord types k cc = Some (res, cc') \<and> same_params cc' cc \<and>
    (case res of
       Inr sfs \<Rightarrow> length sfs = k \<and> disjoint_forests E sfs \<and> cc_inv xxh E cc'
     | Inl e \<Rightarrow> (\<exists>sd a i. e = OutOfSamplesException sd a i) \<and> update_locked cc')"
proof -
  have o: "omp_ok (cc_conf (env i) cc')" if "same_params cc' cc" for i cc'
    using omp [of i] cc_conf_params [OF that] by simp
  obtain res r cc1 where l: "forest_loop xxh env ord (snd types) k 0 0 cc = Some (res, r, cc1)" "same_params cc1 cc"
    "case res of Inr sfs \<Rightarrow> length sfs = k \<and> disjoint_forests E sfs \<and>
         cc_inv xxh (E - edge_ids (concat (map get_edges sfs))) cc1
     | Inl e \<Rightarrow> (\<exists>sd a i. e = OutOfSamplesException sd a i) \<and> update_locked cc1"
    using forest_loop_spec [OF inv o ord sound, where mr = 0] by blast
  show ?thesis
  proof (cases res)
    case (Inl e)
    then show ?thesis using l by (auto simp: calc_disjoint_spanning_forests_def case_prod_unfold)
  next
    case (Inr sfs)
    let ?es = "concat (map get_edges sfs)"
    have n: "graph_ids (num_vertices cc) E" "num_vertices cc \<le> 2 ^ 32" "num_vertices cc1 = num_vertices cc"
      using inv l(2) by (auto simp: cc_inv_def cc_holds_def cc_wf_def same_params_def)
    have d: "disjoint_forests E sfs" "length sfs = k" "cc_inv xxh (E - edge_ids ?es) cc1" using l(3) Inr by auto
    note i = disjoint_forests_ids [OF d(1) n(1,2)]
    have uv: "u < v \<and> v < num_vertices cc1" if "(u, v) \<in> set ?es" for u v
      using bspec [OF conjunct2 [OF conjunct2 [OF i]] that] n(3) by simp
    have "sym_diff (E - edge_ids ?es) (edge_ids ?es) = E" using conjunct1 [OF i] by blast
    then obtain cc2 where u: "update_edges xxh (fst types) ?es cc1 = Some cc2" "cc_inv xxh E cc2" "same_params cc2 cc1"
      using update_edges_correct [OF d(3) conjunct1 [OF conjunct2 [OF i]] uv, where ty = "fst types"] by metis
    have "cc_inv xxh E (cc2\<lparr>last_query_rounds := r\<rparr>)"
      using u(2) by (auto simp: cc_inv_def cc_holds_def cc_wf_def cache_ok_def)
    then show ?thesis using l(1,2) Inr u(1,3) d(1,2)
      by (auto simp: calc_disjoint_spanning_forests_def case_prod_unfold same_params_def)
  qed
qed


lemma forests_sound_subsets:
  fixes cc :: "'h::len word CC"
  assumes "\<And>s. hash_sound TYPE('h) xxh s E"
  shows "forests_sound xxh env ord ty k i E cc"
  using assms
proof (induction k arbitrary: i E cc)
  case (Suc k)
  have "hash_sound TYPE('h) xxh s (E - X)" for s X
    using Suc.prems [of s] unfolding hash_sound_def by blast
  then show ?case using Suc.IH asked_sound_subsets [OF Suc.prems]
    by (auto split: option.splits sum.splits)
qed simp


section \<open>Failure and termination of a query\<close>

text \<open>C5. Every emulation ends, whatever the hash does and however the threads interleave: after at
  most as many rounds as a sketch has samples. It leaves the contents of the sketches alone.\<close>

theorem boruvka_emulation_terminates:
  assumes "cc_wf cc" "omp_ok (cc_conf env cc)"
  shows "\<exists>res cc'. boruvka_emulation xxh env cc = Some (res, cc') \<and>
    map reset_sample_state (sketches cc') = map reset_sample_state (sketches cc) \<and>
    (\<forall>u. res = Inr u \<longrightarrow> last_query_rounds cc' \<le> calc_cc_samples (num_vertices cc) (cfg_sketches_factor (cc_config cc)))"
proof -
  have sh: "sketches_shape (bc_ref (cc_conf env cc)) (num_vertices cc) (sketches cc)" "dsu_inv (cc_dsu cc)"
    "dsu_n (cc_dsu cc) = num_vertices cc"
    using assms(1) by (auto simp: cc_wf_def dsu_shape_def)
  from boruvka_run_returns [OF assms(2) _ sh, of xxh] obtain res sks' d' sf' hist where
    "boruvka_run xxh (cc_conf env cc) (sketches cc) (cc_dsu cc) = Some (res, (sks', d', sf'), hist)"
    "map reset_sample_state sks' = map reset_sample_state (sketches cc)"
    "\<forall>r. res = Inr r \<longrightarrow> r \<le> calc_cc_samples (num_vertices cc) (cfg_sketches_factor (cc_config cc))"
    by fastforce
  then show ?thesis by (cases res) (auto simp: boruvka_emulation_def Let_def)
qed

lemma boruvka_emulation_terminates_witness:
  "\<exists>cc res cc'. update_edges example_hash () example_stream example_cc = Some cc \<and>
    boruvka_emulation (\<lambda>x s. 0) (seq_env 4) cc = Some (res, cc') \<and>
    map reset_sample_state (sketches cc') = map reset_sample_state (sketches cc)"
proof -
  obtain cc where cc: "update_edges example_hash () example_stream example_cc = Some cc"
    "omp_ok (cc_conf (seq_env 4) cc)" "cc_inv example_hash {1, 2} cc" using example_run by blast
  have "cc_wf cc" using cc(3) by (simp add: cc_inv_def cc_holds_def)
  from boruvka_emulation_terminates [OF this cc(2)] show ?thesis using cc(1) by blast
qed

lemma connected_components_locks:
  assumes "connected_components xxh env cc = Some (Inl e, cc')"
  shows "update_locked cc' \<and> sketches cc' = map reset_sample_state (sketches cc') \<and> dsu_valid cc' = dsu_valid cc"
  using assms
  by (auto simp: connected_components_def refresh_dsu_def boruvka_emulation_def reset_sketches_def Let_def
      reset_sample_state_def split: option.splits sum.splits if_splits)

lemma point_query_locks:
  assumes "point_query xxh env a b cc = Some (Inl e, cc')"
  shows "update_locked cc'"
  using assms
  by (auto simp: point_query_def refresh_dsu_def boruvka_emulation_def reset_sketches_def Let_def
      split: option.splits sum.splits if_splits)

text \<open>C36. The lock on updates is set at the start of the emulation and released only on its
  success: after a query that threw, every batch of updates throws \<^verbatim>\<open>UpdateLockedException\<close>.\<close>

theorem failed_query_locks_updates:
  assumes "connected_components xxh env cc = Some (Inl e, cc') \<or> point_query xxh env a b cc = Some (Inl e, cc')"
  shows "apply_update_batch xxh thr src dsts cc' = Inl UpdateLockedException"
  using assms connected_components_locks [of xxh env cc e cc'] point_query_locks [of xxh env a b cc e cc']
  by (auto simp: apply_update_batch_def)

lemma failed_query_locks_updates_witness:
  "\<exists>(cc :: 64 word CC) e cc'. connected_components example_hash (seq_env 1) cc = Some (Inl e, cc') \<and>
    (\<exists>cc''. apply_update_batch example_hash 0 0 [] cc = Inr cc'') \<and>
    apply_update_batch example_hash 0 0 [] cc' = Inl UpdateLockedException"
proof -
  let ?new = "CCSketchAlg_new [5] 1 3 CCAlgConfiguration_new :: 64 word CC"
  let ?sk = "new_sketch 1 3 1 :: 64 word Sketch"
  define sk where "sk = ?sk\<lparr>sample_idx := num_samples ?sk\<rparr>"
  define cc where "cc = (allocate_worker_memory 1 ?new)\<lparr>sketches := [sk], dsu_valid := False, shared_dsu_valid := False\<rparr>"
  have p: "num_vertices cc = 1" "cc_seed cc = 3" "cfg_sketches_factor (cc_config cc) = 1" "sketches cc = [sk]"
    "\<not> shared_dsu_valid cc" "\<not> update_locked cc" "length (delta_sketches cc) = 1"
    by (simp_all add: cc_def allocate_worker_memory_def CCSketchAlg_new_def CCAlgConfiguration_new_def)
  have omp: "omp_ok (cc_conf (seq_env 1) cc)" by (rule seq_env_ok) (simp_all add: p)
  let ?bc = "cc_conf (seq_env 1) cc"
  have sh: "sketches_shape (bc_ref ?bc) 1 [sk]" "calc_cc_samples 1 1 \<le> sample_idx sk"
    using new_sketch_wf [of 1 3 1, where 'a = 64] p
    by (auto simp: sk_def sketches_shape_def sketch_wf_def same_shape_def)
  have d: "dsu_shape 1 (DSU_reset (cc_dsu cc), replicate 1 {})"
    using DSU_reset_inv [OF DSU_new_inv(1) [of 1 "[5]"]] DSU_new_inv(2) [of 1 "[5]"]
    by (simp add: dsu_shape_def cc_def allocate_worker_memory_def CCSketchAlg_new_def)
  obtain e st where "run_round_zero example_hash ?bc ([sk], DSU_reset (cc_dsu cc), replicate 1 {}) = Some (Inl e, st)"
    using round_zero_exhausted [OF omp _ sh(1) d, of example_hash] sh(2) p by auto
  then have "\<exists>e cc'. connected_components example_hash (seq_env 1) cc = Some (Inl e, cc')"
    using p by (cases st) (auto simp: connected_components_def refresh_dsu_def boruvka_emulation_def boruvka_run_def
        boruvka_loop.simps perform_boruvka_round_def Let_def)
  then obtain e cc' where c: "connected_components example_hash (seq_env 1) cc = Some (Inl e, cc')" by blast
  moreover have "apply_update_batch example_hash 0 0 [] cc' = Inl UpdateLockedException"
    by (rule failed_query_locks_updates) (use c in blast)
  moreover have "\<exists>cc''. apply_update_batch example_hash 0 0 [] cc = Inr cc''" using p by (simp add: apply_update_batch_def Let_def)
  ultimately show ?thesis by blast
qed

section \<open>The file format\<close>

lemma read_sketches_back:
  fixes sks :: "'h::len word Sketch list"
  assumes "8 dvd LENGTH('h)" "\<And>sk. sk \<in> set sks \<Longrightarrow> sketch_wf sk \<and> same_shape sk (new_sketch n seed factor)"
  shows "read_sketches n seed factor (length sks) (concat (map Sketch_serialize sks)) =
    Inr (map (\<lambda>sk. sk\<lparr>sample_idx := 0, is_cuda_bucket := False\<rparr>) sks)"
  using assms(2)
proof (induction sks)
  case (Cons sk sks)
  then show ?case
    using Sketch_read_back [OF assms(1), of sk "calc_vector_length n" seed "calc_cc_samples n factor" default_cols_per_sample]
    by (simp add: new_sketch_def)
qed simp

text \<open>What a sketch stands for does not depend on its sample state, nor on where it is stored.\<close>

lemma sketches_hold_clean:
  assumes "sketches_hold xxh (in_bucket xxh) ref n S sks"
  shows "sketches_hold xxh (in_bucket xxh) ref n S (map (\<lambda>sk. sk\<lparr>sample_idx := 0, is_cuda_bucket := False\<rparr>) sks)"
  using assms
  by (auto simp: sketches_hold_def sketches_shape_def sketch_wf_def same_shape_def sketch_repr_def in_bucket_def
      checksum_seed_def column_seed_def)

lemma CC_read_back:
  fixes cc :: "'h::len word CC"
  assumes inv: "cc_inv xxh E cc" and h: "8 dvd LENGTH('h)" and prio: "num_vertices cc \<le> length prio"
    and f: "0 < cfg_sketches_factor (cc_config cc)" "undbl (dbl (cfg_sketches_factor (cc_config cc))) = cfg_sketches_factor (cc_config cc)"
      "length (dbl (cfg_sketches_factor (cc_config cc))) = 8"
  shows "\<exists>cc'. construct_from_serialized_data undbl prio (write_binary dbl cc) conf = Inr cc' \<and> cc_inv xxh E cc' \<and>
    num_vertices cc' = num_vertices cc \<and> cc_seed cc' = cc_seed cc \<and> \<not> dsu_valid cc' \<and>
    map buckets (sketches cc') = map buckets (sketches cc)"
proof -
  let ?n = "num_vertices cc" and ?f = "cfg_sketches_factor (cc_config cc)"
  let ?clean = "\<lambda>sk. sk\<lparr>sample_idx := 0, is_cuda_bucket := False\<rparr> :: 'h word Sketch"
  have wf: "cc_wf cc" and hold: "sketches_hold xxh (in_bucket xxh) (cc_ref cc) ?n (incident E) (sketches cc)"
    and E: "graph_ids ?n E" using inv by (auto simp: cc_inv_def cc_holds_def)
  have n: "?n \<le> 2 ^ 31" "length (sketches cc) = ?n"
    and sks: "\<And>sk. sk \<in> set (sketches cc) \<Longrightarrow> sketch_wf sk \<and> same_shape sk (cc_ref cc)"
    using wf by (auto simp: cc_wf_def sketches_shape_def in_set_conv_nth)
  have "map (\<lambda>i. Sketch_serialize (sketches cc ! i)) [0..<?n] = map Sketch_serialize (sketches cc)"
    using n(2) by (intro nth_equalityI) auto
  then have bin: "write_binary dbl cc = word_bytes (cc_seed cc) @ word_bytes (of_nat ?n :: 32 word) @ dbl ?f @
      concat (map Sketch_serialize (sketches cc))"
    by (simp add: write_binary_def)
  have b: "bytes_word (word_bytes (cc_seed cc)) = cc_seed cc"
    "unat (bytes_word (word_bytes (of_nat ?n :: 32 word)) :: 32 word) = ?n"
    using bytes_word_bytes [of "cc_seed cc"] bytes_word_bytes [of "of_nat ?n :: 32 word"] n(1)
    by (auto simp: unat_of_nat)
  define cc' where "cc' = \<lparr>num_vertices = ?n, cc_seed = cc_seed cc, update_locked = False, representatives = {..<?n},
      sketches = map ?clean (sketches cc), cc_dsu = DSU_new ?n prio, dsu_valid = False, shared_dsu_valid = False,
      spanning_forest = replicate ?n {}, delta_sketches = [], cc_config = set_sketches_factor ?f conf,
      last_query_rounds = 0, history = []\<rparr>"
  have conf: "cfg_sketches_factor (set_sketches_factor ?f conf) = ?f" using f(1) by (simp add: set_sketches_factor_def)
  have "construct_from_serialized_data undbl prio (write_binary dbl cc) conf = Inr cc'"
    using f b read_sketches_back [OF h sks, of "sketches cc"] n(2) unfolding construct_from_serialized_data_def bin CCSketchAlg_new_stream_def
    by (simp add: conf cc'_def Let_def)
  moreover have "cc_inv xxh E cc'"
    using wf E sketches_hold_clean [OF hold] DSU_new_inv [OF prio] n
    by (simp add: cc_inv_def cc_holds_def cc_wf_def cc'_def conf cache_ok_def dsu_shape_def sketches_hold_def)
  moreover have "map buckets (sketches cc') = map buckets (sketches cc)" by (simp add: cc'_def)
  ultimately show ?thesis by (auto simp: cc'_def)
qed

text \<open>C25. Writing the algorithm to a file and constructing it from that file gives a state that holds
  the same graph with the same seed, vertices and buckets (and no cached answer), given that the
  bytes of a double determine it.\<close>

theorem serialization_roundtrip:
  fixes cc :: "'h::len word CC"
  assumes "cc_inv xxh E cc" "8 dvd LENGTH('h)" "num_vertices cc \<le> length prio"
    and "0 < cfg_sketches_factor (cc_config cc)"
    and "undbl (dbl (cfg_sketches_factor (cc_config cc))) = cfg_sketches_factor (cc_config cc)"
    and "length (dbl (cfg_sketches_factor (cc_config cc))) = 8"
  shows "\<exists>cc'. construct_from_serialized_data undbl prio (write_binary dbl cc) conf = Inr cc' \<and> cc_inv xxh E cc' \<and>
    num_vertices cc' = num_vertices cc \<and> cc_seed cc' = cc_seed cc \<and> \<not> dsu_valid cc' \<and>
    map buckets (sketches cc') = map buckets (sketches cc)"
  using CC_read_back [where undbl = undbl and dbl = dbl, OF assms] .

lemma serialization_roundtrip_witness:
  "\<exists>cc cc'. update_edges example_hash () example_stream example_cc = Some cc \<and>
    construct_from_serialized_data (\<lambda>_. 1) [1, 2, 3, 4] (write_binary (\<lambda>_. replicate 8 0) cc) CCAlgConfiguration_new = Inr cc' \<and>
    cc_inv example_hash {1, 2} cc' \<and> map buckets (sketches cc') = map buckets (sketches cc)"
proof -
  obtain cc where cc: "update_edges example_hash () example_stream example_cc = Some cc" "num_vertices cc = 4"
    "same_params cc example_cc" "cc_inv example_hash {1, 2} cc" using example_run by blast
  have "cfg_sketches_factor (cc_config cc) = 1"
    using cc(3) by (simp add: same_params_def example_cc_def CCSketchAlg_new_def CCAlgConfiguration_new_def)
  then show ?thesis
    using serialization_roundtrip [OF cc(4), of "[1, 2, 3, 4]" "\<lambda>_. 1" "\<lambda>_. replicate 8 0" CCAlgConfiguration_new] cc(1,2)
    by auto
qed

end
