(* ===== verification/MC_Correctness.thy ===== *)
theory MC_Correctness
  imports MC_Sketch_Alg CC_Correctness
begin

text \<open>
  The results on the minimum-cut algorithm: what its operations do to the sketch graphs, its
  spanning forests, the deletion of forest edges, and why the forests keep the minimum cut.
\<close>

abbreviation mc_ref :: "'h::len word MC \<Rightarrow> 'h word Sketch" where
  "mc_ref mc \<equiv> new_sketch (mc_num_vertices mc) (mc_seed mc) (cfg_sketches_factor (mc_config mc))"

text \<open>The type invariant: the array does not wrap around, and every graph that was created has
  all its sketches.\<close>

definition mc_wf :: "'h::len word MC \<Rightarrow> bool" where
  "mc_wf mc \<longleftrightarrow> mc_num_vertices mc \<le> 2 ^ 31 \<and> mc_num_vertices mc * max_sketch_graphs mc < 2 ^ 32 \<and>
     length (mc_sketches mc) = mc_num_vertices mc * max_sketch_graphs mc \<and>
     num_sketch_graphs mc \<le> max_sketch_graphs mc \<and>
     dsu_shape (mc_num_vertices mc) (mc_dsu mc, mc_spanning_forest mc) \<and>
     (\<forall>sk\<in>set (mc_delta_sketches mc). sketch_wf sk \<and> same_shape sk (mc_ref mc)) \<and>
     (\<forall>g < num_sketch_graphs mc. \<exists>sl. graph_sketches (mc_num_vertices mc) g (mc_sketches mc) = Some sl \<and>
       sketches_shape (mc_ref mc) (mc_num_vertices mc) sl)"

text \<open>Sketch \<open>v\<close> of graph \<open>g\<close> stands for the set \<open>S v\<close>, with \<open>z\<close> samples used.\<close>

definition mc_holds :: "xxh \<Rightarrow> 'h::len word MC \<Rightarrow> nat \<Rightarrow> (nat \<Rightarrow> vec_t set) \<Rightarrow> nat \<Rightarrow> bool" where
  "mc_holds xxh mc g S z \<longleftrightarrow> (\<exists>sl. graph_sketches (mc_num_vertices mc) g (mc_sketches mc) = Some sl \<and>
     sketches_hold xxh (in_bucket xxh) (mc_ref mc) (mc_num_vertices mc) S sl \<and>
     (\<forall>v < mc_num_vertices mc. sample_idx (sl ! v) = z))"

definition mc_same_params :: "'g MC \<Rightarrow> 'g MC \<Rightarrow> bool" where
  "mc_same_params mc' mc \<longleftrightarrow> mc_num_vertices mc' = mc_num_vertices mc \<and> mc_seed mc' = mc_seed mc \<and>
     mc_config mc' = mc_config mc \<and> max_sketch_graphs mc' = max_sketch_graphs mc \<and>
     num_sketch_graphs mc' = num_sketch_graphs mc \<and> length (mc_delta_sketches mc') = length (mc_delta_sketches mc)"

text \<open>Every graph but \<open>g\<close> keeps its sketches.\<close>

definition other_graphs_kept :: "nat \<Rightarrow> 'g MC \<Rightarrow> 'g MC \<Rightarrow> bool" where
  "other_graphs_kept g mc' mc \<longleftrightarrow> (\<forall>g' < max_sketch_graphs mc. g' \<noteq> g \<longrightarrow>
     graph_sketches (mc_num_vertices mc) g' (mc_sketches mc') = graph_sketches (mc_num_vertices mc) g' (mc_sketches mc))"

lemma mc_slot_bounds:
  assumes "mc_wf mc" "g < max_sketch_graphs mc"
  shows "(g + 1) * mc_num_vertices mc \<le> 2 ^ 32"
    and "v < mc_num_vertices mc \<Longrightarrow> mc_slot (mc_num_vertices mc) g v = g * mc_num_vertices mc + v"
    and "v < mc_num_vertices mc \<Longrightarrow> mc_slot (mc_num_vertices mc) g v < length (mc_sketches mc)"
proof -
  let ?n = "mc_num_vertices mc"
  have "(g + 1) * ?n \<le> max_sketch_graphs mc * ?n" using assms(2) by (intro mult_right_mono) auto
  moreover have "max_sketch_graphs mc * ?n < 2 ^ 32" "length (mc_sketches mc) = max_sketch_graphs mc * ?n"
    using assms(1) by (simp_all add: mc_wf_def mult.commute)
  ultimately show "(g + 1) * ?n \<le> 2 ^ 32" "v < ?n \<Longrightarrow> mc_slot ?n g v = g * ?n + v"
    "v < ?n \<Longrightarrow> mc_slot ?n g v < length (mc_sketches mc)"
    by (auto simp: mc_slot_def algebra_simps)
qed

text \<open>Replacing the sketches of one graph.\<close>

lemma put_graph_kept:
  assumes "mc_wf mc" "g < max_sketch_graphs mc" "mc_sketches mc' = put_graph (mc_num_vertices mc) g sl (mc_sketches mc)"
  shows "other_graphs_kept g mc' mc"
  unfolding other_graphs_kept_def assms(3)
  using graph_sketches_put_other mc_slot_bounds(1) [OF assms(1,2)] mc_slot_bounds(1) [OF assms(1)] by metis

lemma put_graph_wf:
  assumes wf: "mc_wf mc" and g: "g < num_sketch_graphs mc" and p: "mc_same_params mc' mc"
    and sks: "mc_sketches mc' = put_graph (mc_num_vertices mc) g sl (mc_sketches mc)"
    and sl: "sketches_shape (mc_ref mc) (mc_num_vertices mc) sl"
    and d: "dsu_shape (mc_num_vertices mc) (mc_dsu mc', mc_spanning_forest mc')"
    and delta: "\<And>sk. sk \<in> set (mc_delta_sketches mc') \<Longrightarrow> sketch_wf sk \<and> same_shape sk (mc_ref mc)"
  shows "mc_wf mc'" "graph_sketches (mc_num_vertices mc) g (mc_sketches mc') = Some sl"
proof -
  let ?n = "mc_num_vertices mc"
  have n: "?n \<le> 2 ^ 32" "g < max_sketch_graphs mc" using wf g by (auto simp: mc_wf_def)
  obtain sl0 where sl0: "graph_sketches ?n g (mc_sketches mc) = Some sl0" using wf g by (auto simp: mc_wf_def)
  show new: "graph_sketches ?n g (mc_sketches mc') = Some sl"
    unfolding sks using graph_sketches_put(1) [OF n(1) sl0] sl by (simp add: sketches_shape_def)
  have "\<exists>sl. graph_sketches ?n g' (mc_sketches mc') = Some sl \<and> sketches_shape (mc_ref mc) ?n sl"
    if "g' < num_sketch_graphs mc" for g'
  proof (cases "g' = g")
    case True
    then show ?thesis using new sl by simp
  next
    case False
    have "g' < max_sketch_graphs mc" using that wf by (simp add: mc_wf_def)
    then show ?thesis using put_graph_kept [OF wf n(2) sks] False that wf by (simp add: other_graphs_kept_def mc_wf_def)
  qed
  then show "mc_wf mc'" using wf p d delta sks by (simp add: mc_wf_def mc_same_params_def put_graph_nth)
qed

lemma on_sketch_graph:
  assumes "n \<le> 2 ^ 32" "graph_sketches n g sks = Some sl" "v < n"
  shows "on_sketch (mc_slot n g v) f sks = Inr (put_graph n g (sl[v := f (sl ! v)]) sks)"
proof -
  let ?i = "mc_slot n g v"
  have sl: "length sl = n" "\<And>w. w < n \<Longrightarrow> mc_slot n g w < length sks \<and> sks ! mc_slot n g w = Some (sl ! w)"
    using assms(2) by (auto simp: graph_sketches_iff)
  have "sks[?i := Some (f (sl ! v))] = put_graph n g (sl[v := f (sl ! v)]) sks"
  proof (rule nth_equalityI)
    fix j assume "j < length (sks[?i := Some (f (sl ! v))])"
    then show "sks[?i := Some (f (sl ! v))] ! j = put_graph n g (sl[v := f (sl ! v)]) sks ! j"
      using sl assms(1,3) mc_slot_inj [OF _ _ _ assms(1), of g v]
      by (cases "j \<in> mc_slot n g ` {..<n}") (auto simp: put_graph_nth nth_list_update)
  qed (simp add: put_graph_nth)
  then show ?thesis using sl assms(3) by (simp add: on_sketch_def)
qed

section \<open>Construction and updates\<close>

lemma MCSketchAlg_new_wf:
  assumes "n \<le> 2 ^ 31" "n * k < 2 ^ 32" "n \<le> length prio"
  shows "mc_wf (MCSketchAlg_new prio n seed k conf :: 'h::len word MC)"
  using assms DSU_new_inv [OF assms(3)] by (simp add: mc_wf_def MCSketchAlg_new_def dsu_shape_def)

lemma create_sketch_graph_put:
  fixes mc :: "'h::len word MC"
  assumes wf: "mc_wf mc" and g: "num_sketch_graphs mc < max_sketch_graphs mc"
  shows "\<exists>sl. create_sketch_graph (num_sketch_graphs mc) params mc =
      mc\<lparr>mc_sketches := put_graph (mc_num_vertices mc) (num_sketch_graphs mc) sl (mc_sketches mc),
         num_sketch_graphs := num_sketch_graphs mc + 1\<rparr> \<and>
    length sl = mc_num_vertices mc \<and> (\<forall>sk\<in>set sl. buckets sk = buckets (mc_ref mc) \<and> sample_idx sk = 0 \<and>
      same_shape sk (mc_ref mc) \<and> sketch_wf sk)"
proof -
  let ?n = "mc_num_vertices mc" and ?g = "num_sketch_graphs mc"
  let ?sk = "if cudaUVM_enabled params
    then Sketch_new_cuda (calc_vector_length ?n) (mc_seed mc) (calc_cc_samples ?n (cfg_sketches_factor (mc_config mc))) default_cols_per_sample
    else Sketch_new (calc_vector_length ?n) (mc_seed mc) (calc_cc_samples ?n (cfg_sketches_factor (mc_config mc))) default_cols_per_sample :: 'h word Sketch"
  have ref: "buckets ?sk = buckets (mc_ref mc) \<and> sample_idx ?sk = 0 \<and> same_shape ?sk (mc_ref mc)"
    by (simp add: new_sketch_def Sketch_new_cuda_def Sketch_new_def Let_def same_shape_def)
  then have "sketch_wf ?sk" using new_sketch_wf [of ?n "mc_seed mc" "cfg_sketches_factor (mc_config mc)", where 'a = 'h] wf
    by (simp add: mc_wf_def sketch_wf_def same_shape_def)
  moreover have "fold (\<lambda>i sks. sks[mc_slot ?n ?g i := Some ?sk]) [0..<?n] (mc_sketches mc) =
      put_graph ?n ?g (replicate ?n ?sk) (mc_sketches mc)"
    unfolding put_graph_def by (rule fold_cong) auto
  then have "create_sketch_graph ?g params mc = mc\<lparr>mc_sketches := put_graph ?n ?g (replicate ?n ?sk) (mc_sketches mc),
      num_sketch_graphs := ?g + 1\<rparr>"
    using g by (simp add: create_sketch_graph_def Let_def)
  ultimately show ?thesis using ref by (intro exI [of _ "replicate ?n ?sk"]) auto
qed

lemma graph_sketches_put_new:
  assumes "n \<le> 2 ^ 32" "\<And>v. v < n \<Longrightarrow> mc_slot n g v < length sks" "length sl = n"
  shows "graph_sketches n g (put_graph n g sl sks) = Some sl"
  unfolding graph_sketches_iff using assms by (simp add: put_graph_nth)

lemma create_sketch_graph_correct:
  fixes mc :: "'h::len word MC"
  assumes wf: "mc_wf mc" and g: "num_sketch_graphs mc < max_sketch_graphs mc"
  shows "mc_wf (create_sketch_graph (num_sketch_graphs mc) params mc)"
    and "mc_holds xxh (create_sketch_graph (num_sketch_graphs mc) params mc) (num_sketch_graphs mc) (\<lambda>_. {}) 0"
    and "other_graphs_kept (num_sketch_graphs mc) (create_sketch_graph (num_sketch_graphs mc) params mc) mc"
proof -
  let ?n = "mc_num_vertices mc" and ?g = "num_sketch_graphs mc" and ?mc = "create_sketch_graph (num_sketch_graphs mc) params mc"
  obtain sl where sl: "?mc = mc\<lparr>mc_sketches := put_graph ?n ?g sl (mc_sketches mc), num_sketch_graphs := ?g + 1\<rparr>"
    "length sl = ?n" "\<And>sk. sk \<in> set sl \<Longrightarrow> buckets sk = buckets (mc_ref mc) \<and> sample_idx sk = 0 \<and> same_shape sk (mc_ref mc) \<and> sketch_wf sk"
    using create_sketch_graph_put [OF wf g, of params] by blast
  have n: "?n \<le> 2 ^ 32" using wf by (simp add: mc_wf_def)
  have new: "graph_sketches ?n ?g (mc_sketches ?mc) = Some sl"
    unfolding sl(1) using graph_sketches_put_new [OF n mc_slot_bounds(3) [OF wf g] sl(2)] by simp
  have sh: "sketches_shape (mc_ref mc) ?n sl" using sl(2,3) by (simp add: sketches_shape_def)
  show other: "other_graphs_kept ?g ?mc mc" by (rule put_graph_kept [OF wf g]) (simp add: sl(1))
  have "\<exists>sl. graph_sketches ?n g' (mc_sketches ?mc) = Some sl \<and> sketches_shape (mc_ref mc) ?n sl" if "g' < ?g + 1" for g'
  proof (cases "g' = ?g")
    case True
    then show ?thesis using new sh by simp
  next
    case False
    then show ?thesis using other that g wf by (simp add: other_graphs_kept_def mc_wf_def)
  qed
  then show "mc_wf ?mc" using wf g unfolding sl(1) by (simp add: mc_wf_def put_graph_nth)
  have "sketch_repr xxh (in_bucket xxh) {..<num_buckets (mc_ref mc)} (sl ! v) {}" if "v < ?n" for v
  proof -
    have "sketch_repr xxh (in_bucket xxh) {..<num_buckets (mc_ref mc)} (mc_ref mc) {}"
      unfolding new_sketch_def by (rule Sketch_new_repr)
    then show ?thesis using sl(3) [of "sl ! v"] sl(2) that by (simp add: sketch_repr_def)
  qed
  then show "mc_holds xxh ?mc ?g (\<lambda>_. {}) 0"
    using new sh sl(2,3) unfolding sl(1) by (simp add: mc_holds_def sketches_hold_def)
qed

lemma mc_pre_insert_shape:
  assumes wf: "mc_wf mc" and uv: "u < mc_num_vertices mc" "v < mc_num_vertices mc"
  shows "\<exists>mc'. mc_pre_insert ((u, v), ty) mc = Some mc' \<and> mc_sketches mc' = mc_sketches mc \<and> mc_same_params mc' mc \<and>
    mc_delta_sketches mc' = mc_delta_sketches mc \<and> mc_wf mc'"
proof -
  have d: "dsu_inv (mc_dsu mc)" "dsu_n (mc_dsu mc) = mc_num_vertices mc" "length (mc_spanning_forest mc) = mc_num_vertices mc"
    using wf by (auto simp: mc_wf_def dsu_shape_def)
  have "min u v < mc_num_vertices mc" "max u v < mc_num_vertices mc" using uv by auto
  then obtain r d' where "DSU_MT_merge [] (mc_dsu mc) (min u v) (max u v) = Some (r, d')" "dsu_inv d'" "dsu_n d' = mc_num_vertices mc"
    using dsu_mt.merge_ok [of "mc_dsu mc" "min u v" "max u v" "[]"] d by auto
  then show ?thesis using wf d by (auto simp: mc_pre_insert_def Let_def mc_same_params_def mc_wf_def dsu_shape_def)
qed

text \<open>Replacing one sketch of a graph by one that stands for the set \<open>A\<close>.\<close>

lemma mc_holds_replace:
  assumes wf: "mc_wf mc" and g: "g < num_sketch_graphs mc" and h: "mc_holds xxh mc g S z" and v: "v < mc_num_vertices mc"
    and p: "mc_same_params mc' mc" and dl: "\<And>sk. sk \<in> set (mc_delta_sketches mc') \<Longrightarrow> sketch_wf sk \<and> same_shape sk (mc_ref mc)"
    and d: "dsu_shape (mc_num_vertices mc) (mc_dsu mc', mc_spanning_forest mc')"
    and sks: "on_sketch (mc_slot (mc_num_vertices mc) g v) f (mc_sketches mc) = Inr (mc_sketches mc')"
    and f: "\<And>sk. sketch_wf sk \<Longrightarrow> same_shape sk (mc_ref mc) \<Longrightarrow> sketch_repr xxh (in_bucket xxh) {..<num_buckets (mc_ref mc)} sk (S v) \<Longrightarrow>
      sketch_wf (f sk) \<and> same_shape (f sk) (mc_ref mc) \<and> sample_idx (f sk) = sample_idx sk \<and>
      sketch_repr xxh (in_bucket xxh) {..<num_buckets (mc_ref mc)} (f sk) A"
  shows "mc_wf mc'" "mc_holds xxh mc' g (S(v := A)) z" "other_graphs_kept g mc' mc"
proof -
  let ?n = "mc_num_vertices mc"
  obtain sl where sl: "graph_sketches ?n g (mc_sketches mc) = Some sl"
    "sketches_hold xxh (in_bucket xxh) (mc_ref mc) ?n S sl" "\<And>v. v < ?n \<Longrightarrow> sample_idx (sl ! v) = z"
    using h by (auto simp: mc_holds_def)
  have n: "?n \<le> 2 ^ 32" "g < max_sketch_graphs mc" using wf g by (auto simp: mc_wf_def)
  have put: "mc_sketches mc' = put_graph ?n g (sl[v := f (sl ! v)]) (mc_sketches mc)"
    using on_sketch_graph [OF n(1) sl(1) v, of f] sks by simp
  note old = sketches_hold_vertex [OF sl(2) v]
  have new: "sketch_wf (f (sl ! v))" "same_shape (f (sl ! v)) (mc_ref mc)" "sample_idx (f (sl ! v)) = z"
    "sketch_repr xxh (in_bucket xxh) {..<num_buckets (mc_ref mc)} (f (sl ! v)) A"
    using f [of "sl ! v"] old sl(3) [OF v] by auto
  have hold: "sketches_hold xxh (in_bucket xxh) (mc_ref mc) ?n (S(v := A)) (sl[v := f (sl ! v)])"
    by (rule sketches_hold_replace [OF sl(2) v new(1,2,4)])
  then have "sketches_shape (mc_ref mc) ?n (sl[v := f (sl ! v)])" by (simp add: sketches_hold_def)
  note w = put_graph_wf [OF wf g p put this d dl]
  then show "mc_wf mc'" by blast
  show "mc_holds xxh mc' g (S(v := A)) z"
    using w(2) hold p sl(3) new(3) old(1) by (auto simp: mc_holds_def mc_same_params_def nth_list_update)
  show "other_graphs_kept g mc' mc" by (rule put_graph_kept [OF wf n(2) put])
qed

lemma Sketch_update_step:
  fixes ref :: "'h::len word Sketch"
  assumes "sketch_wf sk" "same_shape sk ref" "sketch_repr xxh (in_bucket xxh) {..<num_buckets ref} sk A"
  shows "sketch_wf (Sketch_update xxh sk x) \<and> same_shape (Sketch_update xxh sk x) ref \<and>
    sample_idx (Sketch_update xxh sk x) = sample_idx sk \<and>
    sketch_repr xxh (in_bucket xxh) {..<num_buckets ref} (Sketch_update xxh sk x) (sym_diff A {x})"
proof -
  have "sample_idx (Sketch_update xxh sk x) = sample_idx sk" by (subst cameo.upd_frame) simp
  moreover have "num_buckets sk = num_buckets ref" using assms(2) by (simp add: same_shape_def)
  moreover have "num_buckets (Sketch_update xxh sk x) = num_buckets ref"
    using same_shape_trans [OF cameo.upd_shape assms(2)] by (simp add: same_shape_def)
  ultimately show ?thesis
    using cameo.upd_wf [OF assms(1)] same_shape_trans [OF cameo.upd_shape assms(2)] cameo.repr_upd [OF assms(1), of xxh A x] assms(3)
    by simp
qed

lemma update_subgraph_correct:
  assumes wf: "mc_wf mc" and g: "g < num_sketch_graphs mc" and h: "mc_holds xxh mc g S z"
    and uv: "u < mc_num_vertices mc" "v < mc_num_vertices mc" "u \<noteq> v"
  shows "\<exists>mc'. update_subgraph xxh g ((u, v), ty) mc = Some (Inr mc') \<and> mc_wf mc' \<and> mc_same_params mc' mc \<and>
    mc_holds xxh mc' g (S(u := sym_diff (S u) {edge_id u v}, v := sym_diff (S v) {edge_id u v})) z \<and> other_graphs_kept g mc' mc"
proof -
  let ?n = "mc_num_vertices mc" and ?f = "\<lambda>sk. Sketch_update xxh sk (edge_id u v)"
  obtain mc0 where mc0: "mc_pre_insert ((u, v), ty) mc = Some mc0" "mc_sketches mc0 = mc_sketches mc" "mc_same_params mc0 mc"
    "mc_delta_sketches mc0 = mc_delta_sketches mc" "mc_wf mc0"
    using mc_pre_insert_shape [OF wf uv(1,2), of ty] by blast
  have p0: "mc_num_vertices mc0 = ?n" "mc_ref mc0 = mc_ref mc" "max_sketch_graphs mc0 = max_sketch_graphs mc"
    "num_sketch_graphs mc0 = num_sketch_graphs mc" using mc0(3) by (auto simp: mc_same_params_def)
  have h0: "mc_holds xxh mc0 g S z" using h p0 mc0(2) by (simp add: mc_holds_def)
  have dl: "\<And>sk. sk \<in> set (mc_delta_sketches mc0) \<Longrightarrow> sketch_wf sk \<and> same_shape sk (mc_ref mc)"
    and d: "dsu_shape ?n (mc_dsu mc0, mc_spanning_forest mc0)"
    using mc0(5) p0 by (auto simp: mc_wf_def)
  have n: "?n \<le> 2 ^ 32" using wf by (simp add: mc_wf_def)
  obtain sks1 where s1: "on_sketch (mc_slot ?n g u) ?f (mc_sketches mc0) = Inr sks1"
    using on_sketch_graph [OF n _ uv(1), of g "mc_sketches mc0" _ ?f] h0 p0 by (auto simp: mc_holds_def)
  define mc1 where "mc1 = mc0\<lparr>mc_sketches := sks1\<rparr>"
  have p1: "mc_num_vertices mc1 = ?n" "mc_ref mc1 = mc_ref mc" "num_sketch_graphs mc1 = num_sketch_graphs mc"
    "mc_same_params mc1 mc0" "max_sketch_graphs mc1 = max_sketch_graphs mc"
    using p0 by (auto simp: mc1_def mc_same_params_def)
  have 1: "mc_wf mc1" "mc_holds xxh mc1 g (S(u := sym_diff (S u) {edge_id u v})) z" "other_graphs_kept g mc1 mc0"
    using mc_holds_replace [OF mc0(5) _ h0, of u mc1 ?f "sym_diff (S u) {edge_id u v}"] g uv p0 p1 dl d s1
      Sketch_update_step [of _ "mc_ref mc" xxh "S u" "edge_id u v"] by (auto simp: mc1_def)
  obtain sks2 where s2: "on_sketch (mc_slot ?n g v) ?f (mc_sketches mc1) = Inr sks2"
    using on_sketch_graph [OF n _ uv(2), of g "mc_sketches mc1" _ ?f] 1(2) p1 by (auto simp: mc_holds_def)
  define mc2 where "mc2 = mc1\<lparr>mc_sketches := sks2\<rparr>"
  let ?S = "S(u := sym_diff (S u) {edge_id u v})"
  have 2: "mc_wf mc2" "mc_holds xxh mc2 g (?S(v := sym_diff (?S v) {edge_id u v})) z" "other_graphs_kept g mc2 mc1"
    using mc_holds_replace [OF 1(1) _ 1(2), of v mc2 ?f "sym_diff (?S v) {edge_id u v}"] g uv p1 dl d s2
      Sketch_update_step [of _ "mc_ref mc" xxh "?S v" "edge_id u v"]
    by (auto simp: mc2_def mc1_def mc_same_params_def)
  have "update_subgraph xxh g ((u, v), ty) mc = Some (Inr mc2)"
    using mc0(1) s1 s2 p0 by (simp add: update_subgraph_def Let_def mc2_def mc1_def)
  moreover have "mc_same_params mc2 mc" using mc0(3) by (auto simp: mc2_def mc1_def mc_same_params_def)
  moreover have "other_graphs_kept g mc2 mc"
    using 1(3) 2(3) mc0(2) p0 p1 by (simp add: other_graphs_kept_def)
  ultimately show ?thesis using 2(1,2) uv(3) by auto
qed

lemma batch_delta:
  fixes ref :: "'h::len word Sketch" and xxh :: xxh and xs :: "vec_t list"
  assumes dl: "sketch_wf dl" "same_shape dl ref"
  defines "d \<equiv> fold (\<lambda>x sk. Sketch_update xxh sk x) xs (zero_contents dl)"
  shows "sketch_wf d" "same_shape d ref"
    and "\<And>sk A. sketch_wf sk \<Longrightarrow> same_shape sk ref \<Longrightarrow> sketch_repr xxh (in_bucket xxh) {..<num_buckets ref} sk A \<Longrightarrow>
      sketch_wf (Sketch_merge sk d) \<and> same_shape (Sketch_merge sk d) ref \<and> sample_idx (Sketch_merge sk d) = sample_idx sk \<and>
      sketch_repr xxh (in_bucket xxh) {..<num_buckets ref} (Sketch_merge sk d) (sym_diff A (odd_set xs))"
proof -
  define z where "z = zero_contents dl"
  have z: "sketch_wf z" "same_shape z ref" "sketch_repr xxh (in_bucket xxh) {..<num_buckets z} z {}"
    using dl cameo.repr_zero [of "{..<num_buckets z}" dl xxh] same_shape_trans [OF zero_contents_shape dl(2)]
    by (auto simp: z_def zero_contents_wf) (auto simp: zero_contents_def reset_sample_state_def sketch_wf_def)
  have d_alt: "d = fold (\<lambda>x sk. Sketch_update xxh sk x) xs z" by (simp add: d_def z_def)
  show d: "sketch_wf d" "same_shape d ref"
    using cameo.upds_wf [OF z(1)] same_shape_trans [OF cameo.upds_shape z(2)] by (auto simp: d_alt)
  have r: "sketch_repr xxh (in_bucket xxh) {..<num_buckets d} d (odd_set xs)"
    using cameo.repr_upds [OF z(1,3)] by (simp add: d_alt)
  fix sk A assume sk: "sketch_wf sk" "same_shape sk ref" "sketch_repr xxh (in_bucket xxh) {..<num_buckets ref} sk A"
  have nb: "num_buckets d = num_buckets sk" "same_shape sk d" "num_buckets sk = num_buckets ref"
    using d(2) sk(2) by (auto simp: same_shape_def)
  have "sketch_repr xxh (in_bucket xxh) {..<num_buckets ref} (Sketch_merge sk d) (sym_diff A (odd_set xs))"
    using cameo.repr_merge [OF sk(1) nb(2) order_refl, of xxh A "odd_set xs"] r sk(3) nb(1,3) by simp
  then show "sketch_wf (Sketch_merge sk d) \<and> same_shape (Sketch_merge sk d) ref \<and> sample_idx (Sketch_merge sk d) = sample_idx sk \<and>
      sketch_repr xxh (in_bucket xxh) {..<num_buckets ref} (Sketch_merge sk d) (sym_diff A (odd_set xs))"
    using Sketch_merge_wf [OF sk(1)] same_shape_trans [OF Sketch_merge_shape sk(2)] by (simp add: Sketch_merge_def)
qed

lemma apply_update_batch_single_graph_correct:
  assumes wf: "mc_wf mc" and g: "g < num_sketch_graphs mc" and h: "mc_holds xxh mc g S z"
    and nl: "\<not> mc_update_locked mc" and src: "src < mc_num_vertices mc" and thr: "thr < length (mc_delta_sketches mc)"
  shows "\<exists>mc'. apply_update_batch_single_graph xxh thr g src dsts mc = Inr mc' \<and> mc_wf mc' \<and> mc_same_params mc' mc \<and>
    mc_holds xxh mc' g (S(src := sym_diff (S src) (odd_set (map (edge_id src) dsts)))) z \<and> other_graphs_kept g mc' mc \<and>
    (g = 0 \<longrightarrow> mc_apply_update_batch xxh thr src dsts mc = Inr mc')"
proof -
  let ?n = "mc_num_vertices mc" and ?B = "odd_set (map (edge_id src) dsts)"
  define d where "d = fold (\<lambda>x sk. Sketch_update xxh sk x) (map (edge_id src) dsts) (zero_contents (mc_delta_sketches mc ! thr))"
  have dl: "sketch_wf (mc_delta_sketches mc ! thr)" "same_shape (mc_delta_sketches mc ! thr) (mc_ref mc)"
    using wf thr by (auto simp: mc_wf_def)
  note b = batch_delta [OF dl, where xxh = xxh and xs = "map (edge_id src) dsts", folded d_def]
  have n: "?n \<le> 2 ^ 32" using wf by (simp add: mc_wf_def)
  obtain sks where s: "on_sketch (mc_slot ?n g src) (\<lambda>sk. Sketch_merge sk d) (mc_sketches mc) = Inr sks"
    using on_sketch_graph [OF n _ src, of g "mc_sketches mc" _ "\<lambda>sk. Sketch_merge sk d"] h by (auto simp: mc_holds_def)
  define mc' where "mc' = mc\<lparr>mc_delta_sketches := (mc_delta_sketches mc)[thr := d], mc_sketches := sks\<rparr>"
  have p: "mc_same_params mc' mc" by (simp add: mc'_def mc_same_params_def)
  have dl': "sketch_wf sk \<and> same_shape sk (mc_ref mc)" if "sk \<in> set (mc_delta_sketches mc')" for sk
    using that wf b(1,2) unfolding mc_wf_def
    by (auto simp: mc'_def dest!: set_update_subset_insert [THEN subsetD])
  have ds: "dsu_shape ?n (mc_dsu mc', mc_spanning_forest mc')" using wf by (simp add: mc_wf_def mc'_def)
  have s': "on_sketch (mc_slot ?n g src) (\<lambda>sk. Sketch_merge sk d) (mc_sketches mc) = Inr (mc_sketches mc')"
    using s by (simp add: mc'_def)
  note r = mc_holds_replace [OF wf g h src p dl' ds s' b(3) [of _ "S src"]]
  have "mc_slot ?n 0 src = src" using src n by (simp add: mc_slot_def)
  then show ?thesis using r p s nl thr
    by (auto simp: apply_update_batch_single_graph_def mc_apply_update_batch_def mc'_def d_def fold_map comp_def Let_def)
qed

section \<open>Spanning forests\<close>

text \<open>The hash is sound on the cuts that the last emulation asked for.\<close>

definition mc_asked_sound :: "xxh \<Rightarrow> vec_t set \<Rightarrow> nat \<Rightarrow> 'h::len word MC \<Rightarrow> bool" where
  "mc_asked_sound xxh E z mc' \<longleftrightarrow>
     hist_sound xxh (in_bucket xxh) (mc_ref mc') (mc_num_vertices mc') E z (last (mc_history mc'))"

lemma mc_calc_spanning_forest_spec:
  fixes mc :: "'h::len word MC"
  assumes wf: "mc_wf mc" and g: "g < num_sketch_graphs mc" and E: "graph_ids (mc_num_vertices mc) E"
    and h: "mc_holds xxh mc g (incident E) z" and omp: "omp_ok (mc_conf env mc)" and ord: "iter_order ord"
  shows "\<exists>res mc'. k_boruvka_emulation xxh env g mc = Some (res, mc') \<and> mc_wf mc' \<and> mc_same_params mc' mc \<and>
    other_graphs_kept g mc' mc \<and> mc_dsu_valid mc' = mc_dsu_valid mc \<and> mc_shared_dsu_valid mc' = mc_shared_dsu_valid mc \<and>
    (case res of
       Inl e \<Rightarrow> mc_update_locked mc' \<and> (mc_asked_sound xxh E z mc' \<longrightarrow> (\<exists>sd a i. e = OutOfSamplesException sd a i))
     | Inr _ \<Rightarrow> \<not> mc_update_locked mc' \<and> mc_holds xxh mc' g (incident E) (z + 1) \<and>
         (mc_asked_sound xxh E z mc' \<longrightarrow> forest_inv (mc_num_vertices mc) E (mc_dsu mc', mc_spanning_forest mc') \<and>
           spanning_forest_of (edges_of E) (sf_edges (mc_spanning_forest mc'))))"
proof -
  let ?n = "mc_num_vertices mc" and ?bc = "mc_conf env mc"
  obtain sl where sl: "graph_sketches ?n g (mc_sketches mc) = Some sl"
    "sketches_hold xxh (in_bucket xxh) (mc_ref mc) ?n (incident E) sl" "\<And>v. v < ?n \<Longrightarrow> sample_idx (sl ! v) = z"
    using h by (auto simp: mc_holds_def)
  have bc: "bc_n ?bc = ?n" "bc_seed ?bc = mc_seed mc" "bc_factor ?bc = cfg_sketches_factor (mc_config mc)"
    by (simp_all add: mc_conf_def)
  have n: "?n \<le> 2 ^ 32" "g < max_sketch_graphs mc" and d: "dsu_inv (mc_dsu mc)" "dsu_n (mc_dsu mc) = ?n"
    using wf g by (auto simp: mc_wf_def dsu_shape_def)
  have sh: "sketches_shape (mc_ref mc) ?n sl" using sl(2) by (simp add: sketches_hold_def)
  obtain res sl' d' sf' hist where run: "boruvka_run xxh ?bc sl (mc_dsu mc) = Some (res, (sl', d', sf'), hist)"
    "sketches_shape (mc_ref mc) ?n sl'" "dsu_shape ?n (d', sf')" "map reset_sample_state sl' = map reset_sample_state sl"
    using boruvka_run_returns [OF omp, of ?n sl "mc_dsu mc" xxh] bc sh d by fastforce
  define mc1 where "mc1 = mc\<lparr>mc_update_locked := True, mc_sketches := put_graph ?n g sl' (mc_sketches mc),
       mc_dsu := d', mc_spanning_forest := sf', mc_history := mc_history mc @ [hist]\<rparr>"
  define mc2 where "mc2 = (case res of Inl e \<Rightarrow> mc1 | Inr r \<Rightarrow> mc1\<lparr>mc_last_query_rounds := r, mc_update_locked := False\<rparr>)"
  have em: "k_boruvka_emulation xxh env g mc = Some (map_sum id (\<lambda>_. ()) res, mc2)"
    using k_boruvka_emulation_run(1) [OF n(1) sl(1) run(1)] by (simp add: Let_def mc1_def mc2_def split: sum.splits)
  have p: "mc_same_params mc2 mc" "mc_sketches mc2 = put_graph ?n g sl' (mc_sketches mc)" "mc_dsu mc2 = d'"
    "mc_spanning_forest mc2 = sf'" "mc_history mc2 = mc_history mc @ [hist]" "mc_delta_sketches mc2 = mc_delta_sketches mc"
    "mc_dsu_valid mc2 = mc_dsu_valid mc" "mc_shared_dsu_valid mc2 = mc_shared_dsu_valid mc"
    by (auto simp: mc2_def mc1_def mc_same_params_def split: sum.splits)
  have w: "mc_wf mc2" "graph_sketches ?n g (mc_sketches mc2) = Some sl'"
    by (rule put_graph_wf [OF wf g p(1,2) run(2)]; use wf run(3) p in \<open>simp add: mc_wf_def\<close>)+
  have post: "boruvka_post ?n E res (d', sf')" if "mc_asked_sound xxh E z mc2"
  proof (rule cameo.boruvka_run_correct [OF omp _ E _ _ d run(1)])
    show "hist_sound xxh (in_bucket xxh) (bc_ref ?bc :: 'h word Sketch) ?n E z hist"
      using that p(1,5) bc by (simp add: mc_asked_sound_def mc_same_params_def)
  qed (use bc sl in auto)
  have hold: "mc_holds xxh mc2 g (incident E) (z + 1)" if r: "res = Inr r" for r
  proof -
    have "sketches_hold xxh (in_bucket xxh) (mc_ref mc) ?n (incident E) sl'"
      by (rule sketches_hold_sample_idx [OF sl(2) run(2,4)]) (rule cameo.holds_shape)
    moreover have "sample_idx (sl' ! v) = z + 1" if "v < ?n" for v
      using boruvka_run_incr [OF run(1) [unfolded r] omp, of v] bc that sh sl(3) [OF that] by (simp add: sketches_shape_def)
    ultimately show ?thesis using w(2) p(1) by (simp add: mc_holds_def mc_same_params_def)
  qed
  show ?thesis
    using em w(1) p put_graph_kept [OF wf n(2) p(2)] hold post
    by (cases res) (auto simp: boruvka_post_def mc2_def mc1_def)
qed

section \<open>Exhausted sketches\<close>

lemma sample_all_exhausted_same:
  assumes "\<And>q. q \<in> set qs \<Longrightarrow> num_samples q \<le> sample_idx q" "qs \<noteq> []"
  shows "\<exists>sd a i. sample_all xxh qs s = Some (False, Some (OutOfSamplesException sd a i), qs, s)"
  using assms
proof (induction qs)
  case (Cons q qs)
  obtain d sf where s: "s = (d, sf)" by (cases s) blast
  have 1: "sample_supernode xxh q s = Some (Inl (OutOfSamplesException (sketch_seed q) (num_samples q) (sample_idx q)), s)"
    using Cons.prems(1) [of q] s by (simp add: sample_supernode_def Sketch_sample_frame)
  show ?case
  proof (cases "qs = []")
    case True
    then show ?thesis using 1 by simp
  next
    case False
    then obtain sd a i where "sample_all xxh qs s = Some (False, Some (OutOfSamplesException sd a i), qs, s)"
      using Cons by auto
    then show ?thesis using 1 by simp
  qed
qed simp

lemma fold_zip_same:
  assumes "set is \<subseteq> {..<length xs}"
  shows "fold (\<lambda>(i, x) xs. xs[i := x]) (zip is (map (\<lambda>i. xs ! i) is)) xs = xs"
proof -
  have "fold (\<lambda>i ys. ys[i := xs ! i]) is xs = xs" if "set is \<subseteq> {..<length xs}" for "is"
    using that by (induction "is") auto
  then show ?thesis using assms by (simp add: fold_zip_map)
qed

lemma exhausted_emulation:
  fixes mc :: "'h::len word MC"
  assumes wf: "mc_wf mc" and g: "g < num_sketch_graphs mc" and h: "mc_holds xxh mc g S z"
    and z: "num_samples (mc_ref mc) \<le> z" and omp: "omp_ok (mc_conf env mc)"
  shows "\<exists>sd a i mc'. k_boruvka_emulation xxh env g mc = Some (Inl (OutOfSamplesException sd a i), mc') \<and>
    mc_update_locked mc' \<and> mc_spanning_forest mc' = replicate (mc_num_vertices mc) {} \<and>
    mc_num_vertices mc' = mc_num_vertices mc \<and> mc_sketches mc' = mc_sketches mc"
proof -
  let ?n = "mc_num_vertices mc" and ?bc = "mc_conf env mc" and ?s = "(DSU_reset (mc_dsu mc), replicate (mc_num_vertices mc) {})"
  obtain sl where sl: "graph_sketches ?n g (mc_sketches mc) = Some sl" "\<And>v. v < ?n \<Longrightarrow> sample_idx (sl ! v) = z"
    "sketches_shape (mc_ref mc) ?n sl"
    using h by (auto simp: mc_holds_def sketches_hold_def)
  have n: "?n \<le> 2 ^ 32" using wf by (simp add: mc_wf_def)
  have bc: "bc_n ?bc = ?n" by (simp add: mc_conf_def)
  let ?o = "zero_order (bc_env ?bc)" and ?qs = "map (\<lambda>i. sl ! i) (zero_order (bc_env ?bc))"
  note o = omp_okD(6,7) [OF omp, unfolded bc]
  have "num_samples q \<le> sample_idx q" if "q \<in> set ?qs" for q
    using that sl(2,3) o(1) z by (auto simp: sketches_shape_def same_shape_def)
  moreover have "?qs \<noteq> []" using o by force
  ultimately obtain sd a i where sa: "sample_all xxh ?qs ?s = Some (False, Some (OutOfSamplesException sd a i), ?qs, ?s)"
    using sample_all_exhausted_same by metis
  have "set ?o \<subseteq> {..<length sl}" using o(1) sl(3) by (simp add: sketches_shape_def)
  then have r0: "run_round_zero xxh ?bc (sl, ?s) = Some (Inl (OutOfSamplesException sd a i), sl, ?s)"
    using sa fold_zip_same [of ?o sl] by (simp add: run_round_zero_def round_result_def)
  have "boruvka_run xxh ?bc sl (mc_dsu mc) = Some (Inl (OutOfSamplesException sd a i), (sl, ?s), [DSU_reset (mc_dsu mc)])"
    unfolding boruvka_run_loop by (subst boruvka_loop.simps) (use r0 bc in \<open>simp add: perform_boruvka_round_def\<close>)
  from k_boruvka_emulation_run(1) [OF n sl(1) this] show ?thesis
    using put_graph_self [OF n sl(1)] by (simp add: Let_def)
qed

text \<open>C37. The sample state of a sketch graph is never reset: a graph whose samples are used up (one
  per spanning forest that was computed on it) answers every further query with an empty forest.
  No error is reported, and the updates stay locked.\<close>

theorem exhausted_spanning_forest_empty:
  fixes mc :: "'h::len word MC"
  assumes "mc_wf mc" "g < num_sketch_graphs mc" "mc_holds xxh mc g S z" "num_samples (mc_ref mc) \<le> z"
    and "omp_ok (mc_conf env mc)" "iter_order ord"
  shows "\<exists>sf mc'. mc_calc_spanning_forest xxh env ord g mc = Some (Inr sf, mc') \<and> get_edges sf = [] \<and>
    mc_update_locked mc' \<and> mc_sketches mc' = mc_sketches mc"
proof -
  obtain e mc' where m: "k_boruvka_emulation xxh env g mc = Some (Inl e, mc')" "e \<noteq> Undefined" "mc_update_locked mc'"
    "mc_spanning_forest mc' = replicate (mc_num_vertices mc) {}" "mc_num_vertices mc' = mc_num_vertices mc"
    "mc_sketches mc' = mc_sketches mc"
    using exhausted_emulation [OF assms(1-5)] by blast
  have "ord {} = []" using assms(6) unfolding iter_order_def by (metis finite.emptyI set_empty)
  then have "get_edges (SpanningForest_new ord (mc_num_vertices mc) (mc_spanning_forest mc')) = []"
    using m(4) by (simp add: SpanningForest_new_def get_edges_def)
  then show ?thesis using m by (simp add: mc_calc_spanning_forest_def)
qed

section \<open>Connectivity queries\<close>

text \<open>The emulation for connectivity is the one on graph 0, and it validates the cache.\<close>

lemma mc_boruvka_emulation_graph0:
  "mc_boruvka_emulation xxh env mc =
     (case k_boruvka_emulation xxh env 0 mc of
        None \<Rightarrow> None
      | Some (Inl e, mc) \<Rightarrow> Some (Inl e, mc)
      | Some (Inr u, mc) \<Rightarrow> Some (Inr u, mc\<lparr>mc_dsu_valid := True, mc_shared_dsu_valid := True\<rparr>))"
  unfolding mc_boruvka_emulation_def k_boruvka_emulation_def perform_k_on_graph
  by (auto simp: Let_def split: option.splits sum.splits)

lemma mc_components:
  assumes d: "dsu_shape n (d, sf)" and inv: "forest_inv n E (d, sf)" "spanning_forest_of (edges_of E) (sf_edges sf)"
  shows "\<exists>ret d'. ConnectedComponents_new n d = Some (ret, d') \<and> components_of (edges_of E) n ret \<and> dsu_shape n (d', sf)"
proof -
  have "econn (sf_edges sf) = econn (edges_of E)" using inv(2) by (simp add: spanning_forest_of_def)
  then have r: "dsu_repr d (edges_of E)" using inv(1) by (simp add: forest_inv_def uf_represents_def)
  have n: "dsu_n d = n" using d by (simp add: dsu_shape_def)
  obtain ret d' where "ConnectedComponents_new n d = Some (ret, d')" "dsu_repr d' (edges_of E)" "dsu_n d' = n"
    using ConnectedComponents_new_correct [OF r n] by blast
  then show ?thesis using components_sound [OF r n] d by (auto simp: dsu_shape_def uf_represents_def)
qed


text \<open>Computing a spanning forest of one sketch graph overwrites the union-find without
  invalidating the cache: a connectivity query that follows answers for that graph, although it is
  meant to answer for graph 0.\<close>

theorem spanning_forest_stale_cache:
  fixes mc :: "'h::len word MC"
  assumes "mc_wf mc" "g < num_sketch_graphs mc" "graph_ids (mc_num_vertices mc) E"
    and "mc_holds xxh mc g (incident E) z" "omp_ok (mc_conf env mc)" "mc_shared_dsu_valid mc"
    and "k_boruvka_emulation xxh env g mc = Some (Inr u, mc')" "mc_asked_sound xxh E z mc'"
  shows "\<exists>ret mc''. mc_connected_components xxh env' mc' = Some (Inr ret, mc'') \<and>
    components_of (edges_of E) (mc_num_vertices mc) ret"
proof -
  have ord: "iter_order sorted_list_of_set" by (simp add: iter_order_def)
  have m: "mc_wf mc'" "mc_same_params mc' mc" "mc_shared_dsu_valid mc'"
    "forest_inv (mc_num_vertices mc) E (mc_dsu mc', mc_spanning_forest mc')"
    "spanning_forest_of (edges_of E) (sf_edges (mc_spanning_forest mc'))"
    using mc_calc_spanning_forest_spec [OF assms(1-5) ord] assms(6-8) by auto
  have p: "mc_num_vertices mc' = mc_num_vertices mc" using m(2) by (simp add: mc_same_params_def)
  then have d: "dsu_shape (mc_num_vertices mc) (mc_dsu mc', mc_spanning_forest mc')" using m(1) by (simp add: mc_wf_def)
  then show ?thesis using mc_components [OF d m(4,5)] m(3) p
    by (auto simp: mc_connected_components_def mc_refresh_dsu_def)
qed

section \<open>An empty graph\<close>

lemma sample_all_zero:
  assumes "\<And>q. q \<in> set qs \<Longrightarrow> sample_idx q < num_samples q \<and> buckets q ! (num_buckets q - 1) = zero_bucket"
  shows "\<exists>qs'. sample_all xxh qs s = Some (False, None, qs', s)"
  using assms
proof (induction qs)
  case (Cons q qs)
  obtain d sf where s: "s = (d, sf)" by (cases s) blast
  have q: "sample_idx q < num_samples q" "buckets q ! (num_buckets q - 1) = zero_bucket" using Cons.prems by auto
  obtain u v where e: "edge_of 0 = (u, v)" by (cases "edge_of 0") blast
  have "sample_supernode xxh q s = Some (Inr (False, q\<lparr>sample_idx := sample_idx q + 1\<rparr>), s)"
    using q s e by (simp add: sample_supernode_def Sketch_sample_def zero_bucket_def)
  moreover obtain qs' where "sample_all xxh qs s = Some (False, None, qs', s)" using Cons by auto
  ultimately show ?case by simp
qed simp

lemma empty_graph_emulation:
  fixes mc :: "'h::len word MC"
  assumes wf: "mc_wf mc" and g: "g < num_sketch_graphs mc" and h: "mc_holds xxh mc g (\<lambda>_. {}) z"
    and z: "z < num_samples (mc_ref mc)" and omp: "omp_ok (mc_conf env mc)"
  shows "\<exists>mc'. k_boruvka_emulation xxh env g mc = Some (Inr (), mc')"
proof -
  let ?n = "mc_num_vertices mc" and ?bc = "mc_conf env mc" and ?s = "(DSU_reset (mc_dsu mc), replicate (mc_num_vertices mc) {})"
  obtain sl where sl: "graph_sketches ?n g (mc_sketches mc) = Some sl" "\<And>v. v < ?n \<Longrightarrow> sample_idx (sl ! v) = z"
    "sketches_hold xxh (in_bucket xxh) (mc_ref mc) ?n (\<lambda>_. {}) sl"
    using h by (auto simp: mc_holds_def)
  have n: "?n \<le> 2 ^ 32" using wf by (simp add: mc_wf_def)
  have bc: "bc_n ?bc = ?n" by (simp add: mc_conf_def)
  let ?o = "zero_order (bc_env ?bc)"
  note o = omp_okD(6) [OF omp, unfolded bc]
  have "sample_idx q < num_samples q \<and> buckets q ! (num_buckets q - 1) = zero_bucket" if mem: "q \<in> set (map (\<lambda>i. sl ! i) ?o)" for q
  proof -
    obtain v where v: "v < ?n" "q = sl ! v" using mem o by auto
    note q = sketches_hold_vertex [OF sl(3) v(1), folded v(2)]
    have "num_buckets q - 1 < num_buckets q" using q(2) by (simp add: sketch_wf_def)
    then show ?thesis using q(3,5) z sl(2) [OF v(1)] v(2) by (auto simp: sketch_repr_def same_shape_def)
  qed
  then obtain qs' where "sample_all xxh (map (\<lambda>i. sl ! i) ?o) ?s = Some (False, None, qs', ?s)"
    using sample_all_zero by metis
  then have r0: "run_round_zero xxh ?bc (sl, ?s) = Some (Inr False, fold (\<lambda>(i, sk) sks. sks[i := sk]) (zip ?o qs') sl, ?s)"
    by (simp add: run_round_zero_def round_result_def)
  have "\<exists>sl'. boruvka_run xxh ?bc sl (mc_dsu mc) = Some (Inr 0, (sl', ?s), [DSU_reset (mc_dsu mc)])"
    unfolding boruvka_run_loop by (subst boruvka_loop.simps) (use r0 bc in \<open>simp add: perform_boruvka_round_def\<close>)
  then obtain sl' where "boruvka_run xxh ?bc sl (mc_dsu mc) = Some (Inr 0, (sl', ?s), [DSU_reset (mc_dsu mc)])" by blast
  from k_boruvka_emulation_run(1) [OF n sl(1) this] show ?thesis by (simp add: Let_def)
qed

section \<open>A concrete run\<close>

definition example_params :: "bool \<Rightarrow> SketchParams" where
  "example_params uvm = \<lparr>skp_num_samples = 18, skp_num_buckets = 55, skp_num_columns = 18, skp_bkt_per_col = 3,
     skp_seed = 0, cudaUVM_enabled = uvm\<rparr>"

definition example_mc :: "64 word MC" where
  "example_mc = create_sketch_graph 1 (example_params True) (create_sketch_graph 0 (example_params False)
     (MCSketchAlg_new [5, 6, 7, 8] 4 3 2 CCAlgConfiguration_new))"

lemma create_sketch_graph_params:
  "mc_num_vertices (create_sketch_graph g p mc) = mc_num_vertices mc" "mc_seed (create_sketch_graph g p mc) = mc_seed mc"
  "mc_config (create_sketch_graph g p mc) = mc_config mc" "mc_delta_sketches (create_sketch_graph g p mc) = mc_delta_sketches mc"
  "max_sketch_graphs (create_sketch_graph g p mc) = max_sketch_graphs mc" "mc_dsu_valid (create_sketch_graph g p mc) = mc_dsu_valid mc"
  "mc_shared_dsu_valid (create_sketch_graph g p mc) = mc_shared_dsu_valid mc"
  "num_sketch_graphs (create_sketch_graph (num_sketch_graphs mc) p mc) =
     (if num_sketch_graphs mc < max_sketch_graphs mc then num_sketch_graphs mc + 1 else num_sketch_graphs mc)"
  by (simp_all add: create_sketch_graph_def Let_def)

lemma mc_holds_other:
  assumes "mc_holds xxh mc g' S z" "other_graphs_kept g mc' mc" "mc_same_params mc' mc \<or> mc_num_vertices mc' = mc_num_vertices mc \<and> mc_ref mc' = mc_ref mc"
    "g' \<noteq> g" "g' < max_sketch_graphs mc"
  shows "mc_holds xxh mc' g' S z"
  using assms by (auto simp: mc_holds_def other_graphs_kept_def mc_same_params_def)

lemma example_mc_facts:
  "mc_wf example_mc" "num_sketch_graphs example_mc = 2" "max_sketch_graphs example_mc = 2" "mc_num_vertices example_mc = 4"
  "mc_holds xxh example_mc 0 (\<lambda>_. {}) 0" "mc_holds xxh example_mc 1 (\<lambda>_. {}) 0"
  "\<not> mc_dsu_valid example_mc" "\<not> mc_shared_dsu_valid example_mc"
proof -
  let ?m0 = "MCSketchAlg_new [5, 6, 7, 8] 4 3 2 CCAlgConfiguration_new :: 64 word MC"
  define m1 where "m1 = create_sketch_graph 0 (example_params False) ?m0"
  have m2: "example_mc = create_sketch_graph 1 (example_params True) m1" by (simp add: example_mc_def m1_def)
  have p0: "num_sketch_graphs ?m0 = 0" "max_sketch_graphs ?m0 = 2" "mc_num_vertices ?m0 = 4" "\<not> mc_dsu_valid ?m0" "\<not> mc_shared_dsu_valid ?m0"
    by (simp_all add: MCSketchAlg_new_def)
  have wf0: "mc_wf ?m0" by (rule MCSketchAlg_new_wf) simp_all
  have g0: "num_sketch_graphs ?m0 < max_sketch_graphs ?m0" using p0 by simp
  note c1 = create_sketch_graph_correct [OF wf0 g0, where params = "example_params False", unfolded p0, folded m1_def]
  have p1: "num_sketch_graphs m1 = 1" "max_sketch_graphs m1 = 2" "mc_num_vertices m1 = 4"
    using create_sketch_graph_params(8) [of ?m0] p0 by (simp_all add: m1_def create_sketch_graph_params)
  have g1: "num_sketch_graphs m1 < max_sketch_graphs m1" using p1 by simp
  note c2 = create_sketch_graph_correct [OF c1(1) g1, where params = "example_params True", unfolded p1, folded m2]
  show "mc_wf example_mc" "mc_holds xxh example_mc 1 (\<lambda>_. {}) 0" using c2 by blast+
  show "num_sketch_graphs example_mc = 2" "max_sketch_graphs example_mc = 2" "mc_num_vertices example_mc = 4"
    "\<not> mc_dsu_valid example_mc" "\<not> mc_shared_dsu_valid example_mc"
    using create_sketch_graph_params(8) [of m1] p1 p0 by (simp_all add: m2 create_sketch_graph_params) (simp_all add: m1_def create_sketch_graph_params)
  show "mc_holds xxh example_mc 0 (\<lambda>_. {}) 0"
    by (rule mc_holds_other [OF c1(2) c2(3)]) (simp_all add: m2 create_sketch_graph_params p1)
qed

lemma seq_env_mc_ok:
  assumes "0 < mc_num_vertices mc" "mc_num_vertices mc \<le> 2 ^ 31"
  shows "omp_ok (mc_conf (seq_env (mc_num_vertices mc)) mc)"
  using partition_pow2 [of "mc_num_vertices mc" 0] mc_partition_ok_pow2 [of "mc_num_vertices mc" 0] assms
  by (simp add: omp_ok_def seq_env_def size_max_def mc_conf_def)

lemma update_subgraph_uncached:
  assumes "update_subgraph xxh g upd mc = Some (Inr mc')" "\<not> mc_dsu_valid mc"
  shows "mc' = mc\<lparr>mc_sketches := mc_sketches mc'\<rparr>"
  using assms by (auto simp: update_subgraph_def mc_pre_insert_def Let_def split: sum.splits prod.splits)

lemma example_mc_edges:
  "\<exists>mc. mc_wf mc \<and> num_sketch_graphs mc = 2 \<and> mc_num_vertices mc = 4 \<and> mc_holds example_hash mc 0 (incident {1, 2}) 0 \<and>
     mc_holds example_hash mc 1 (incident {}) 0 \<and> \<not> mc_shared_dsu_valid mc \<and>
     (\<exists>mc1. update_subgraph example_hash 0 ((0, 1), ()) example_mc = Some (Inr mc1) \<and>
       update_subgraph example_hash 0 ((2, 0), ()) mc1 = Some (Inr mc))"
proof -
  note e = example_mc_facts(1-4) example_mc_facts(5,6) [of example_hash] example_mc_facts(7,8)
  have inc: "incident {} = (\<lambda>_. {})" by (auto simp: incident_def)
  obtain mc1 where m1: "update_subgraph example_hash 0 ((0, 1), ()) example_mc = Some (Inr mc1)" "mc_wf mc1" "mc_same_params mc1 example_mc"
    "mc_holds example_hash mc1 0 ((incident {})(0 := sym_diff (incident {} 0) {edge_id 0 1}, 1 := sym_diff (incident {} 1) {edge_id 0 1})) 0"
    "other_graphs_kept 0 mc1 example_mc"
    using update_subgraph_correct [OF e(1) _ e(5), of 0 1 "()"] e inc by auto
  have id: "edge_id 0 1 = 1" "edge_id 2 0 = 2" by code_simp+
  have E1: "(incident {})(0 := sym_diff (incident {} 0) {edge_id 0 1}, 1 := sym_diff (incident {} 1) {edge_id 0 1}) = incident {1}"
    using incident_toggle [of 0 1 "incident {}" "{}"] id by (auto simp: fun_eq_iff)
  have p1: "num_sketch_graphs mc1 = 2" "mc_num_vertices mc1 = 4" "max_sketch_graphs mc1 = 2" using m1(3) e by (auto simp: mc_same_params_def)
  have h1: "mc_holds example_hash mc1 0 (incident {1}) 0" "mc_holds example_hash mc1 1 (incident {}) 0"
    using m1(4) E1 mc_holds_other [OF e(6) m1(5) disjI1 [OF m1(3)]] e(3) inc by simp_all
  obtain mc2 where m2: "update_subgraph example_hash 0 ((2, 0), ()) mc1 = Some (Inr mc2)" "mc_wf mc2" "mc_same_params mc2 mc1"
    "mc_holds example_hash mc2 0 ((incident {1})(2 := sym_diff (incident {1} 2) {edge_id 2 0}, 0 := sym_diff (incident {1} 0) {edge_id 2 0})) 0"
    "other_graphs_kept 0 mc2 mc1"
    using update_subgraph_correct [OF m1(2) _ h1(1), of 2 0 "()"] p1 by auto
  have "sym_diff {1} {edge_id 2 0} = {1, 2 :: vec_t}" using id by auto
  then have E2: "(incident {1})(2 := sym_diff (incident {1} 2) {edge_id 2 0}, 0 := sym_diff (incident {1} 0) {edge_id 2 0}) = incident {1, 2}"
    using incident_toggle [of 2 0 "incident {1}" "{1}"] by (auto simp: fun_eq_iff)
  have p2: "num_sketch_graphs mc2 = 2" "mc_num_vertices mc2 = 4" using m2(3) p1 by (auto simp: mc_same_params_def)
  have f: "\<not> mc_dsu_valid mc1" "\<not> mc_shared_dsu_valid mc1"
    using update_subgraph_uncached [OF m1(1) e(7)] e(7,8) by (metis MC.ext_inject MC.surjective MC.update_convs(7))+
  have "\<not> mc_shared_dsu_valid mc2"
    using update_subgraph_uncached [OF m2(1) f(1)] f(2) by (metis MC.ext_inject MC.surjective MC.update_convs(7))
  moreover have "mc_holds example_hash mc2 1 (incident {}) 0"
    using mc_holds_other [OF h1(2) m2(5) disjI1 [OF m2(3)]] p1 by simp
  ultimately show ?thesis using m1(1) m2(1,2,4) E2 p2 by auto
qed

lemma mc_sound: "mc_asked_sound example_hash {1, 2} z (mc :: 64 word MC)" "mc_asked_sound example_hash {} z (mc :: 64 word MC)"
proof -
  have "hash_sound TYPE(64) example_hash s (edge_cut E A)" if "E \<subseteq> {1, 2}" for s E A
    using hash_sound_example [of s] that unfolding example_hash_def hash_sound_def edge_cut_def by blast
  then show "mc_asked_sound example_hash {1, 2} z mc" "mc_asked_sound example_hash {} z mc"
    by (simp_all add: mc_asked_sound_def hist_sound_def cuts_sound_def hash_sound_sample)
qed

lemma example_graph_ids: "graph_ids 4 {1, 2}"
proof -
  have id: "edge_id 0 1 = 1" "edge_id 0 2 = 2" by code_simp+
  have "\<exists>u v. x = edge_id u v \<and> u < v \<and> v < 4" if "x \<in> {1, 2}" for x
    using that id by (metis insertE singletonD zero_less_one zero_less_numeral one_less_numeral_iff numeral_less_iff semiring_norm(76,77,78))
  then show ?thesis by (simp add: graph_ids_def)
qed


lemma exhausted_spanning_forest_empty_witness:
  "\<exists>(mc :: 64 word MC) sf mc'. \<not> mc_update_locked mc \<and>
    mc_calc_spanning_forest example_hash (seq_env 1) sorted_list_of_set 0 mc = Some (Inr sf, mc') \<and> get_edges sf = [] \<and>
    mc_update_locked mc'"
proof -
  let ?m0 = "MCSketchAlg_new [5] 1 3 1 CCAlgConfiguration_new :: 64 word MC"
  let ?m1 = "create_sketch_graph 0 (example_params False) ?m0"
  define sk where "sk = (new_sketch 1 3 1 :: 64 word Sketch)"
  define mc where "mc = ?m1\<lparr>mc_sketches := [Some (sk\<lparr>sample_idx := num_samples sk\<rparr>)]\<rparr>"
  have wf0: "mc_wf ?m0" by (rule MCSketchAlg_new_wf) simp_all
  have g0: "num_sketch_graphs ?m0 = 0" "max_sketch_graphs ?m0 = 1" by (simp_all add: MCSketchAlg_new_def)
  note c = create_sketch_graph_correct(1) [OF wf0, where params = "example_params False", unfolded g0]
  have p: "mc_num_vertices mc = 1" "mc_seed mc = 3" "cfg_sketches_factor (mc_config mc) = 1" "num_sketch_graphs mc = 1"
    "\<not> mc_update_locked mc" "max_sketch_graphs mc = 1" "mc_delta_sketches mc = []"
    by (simp_all add: mc_def create_sketch_graph_def MCSketchAlg_new_def CCAlgConfiguration_new_def Let_def)
  have sk: "sketch_wf sk" "sketch_repr example_hash (in_bucket example_hash) {..<num_buckets sk} sk {}"
    using new_sketch_wf [of 1 3 1, where 'a = 64] unfolding sk_def by (simp, simp add: new_sketch_def Sketch_new_repr)
  have gs: "graph_sketches 1 0 (mc_sketches mc) = Some [sk\<lparr>sample_idx := num_samples sk\<rparr>]"
    by (simp add: graph_sketches_iff mc_slot_def mc_def)
  have ref: "mc_ref mc = sk" using p by (simp add: sk_def)
  have hold: "sketches_hold example_hash (in_bucket example_hash) (mc_ref mc) 1 (\<lambda>_. {}) [sk\<lparr>sample_idx := num_samples sk\<rparr>]"
    unfolding ref using sk by (simp add: sketches_hold_def sketches_shape_def sketch_wf_def same_shape_def sketch_repr_def)
  then have "sketches_shape (mc_ref mc) 1 [sk\<lparr>sample_idx := num_samples sk\<rparr>]" by (simp add: sketches_hold_def)
  moreover have "dsu_shape (mc_num_vertices mc) (mc_dsu mc, mc_spanning_forest mc)" "length (mc_sketches mc) = 1"
    using c by (auto simp: mc_wf_def mc_def)
  ultimately have "mc_wf mc" using gs p by (auto simp: mc_wf_def)
  moreover have "mc_holds example_hash mc 0 (\<lambda>_. {}) (num_samples sk)"
    using gs hold p by (auto simp: mc_holds_def)
  moreover have "iter_order sorted_list_of_set" by (simp add: iter_order_def)
  moreover have "omp_ok (mc_conf (seq_env 1) mc)" using seq_env_mc_ok [of mc] p(1) by simp
  ultimately show ?thesis
    using exhausted_spanning_forest_empty [of mc 0 example_hash "\<lambda>_. {}" "num_samples sk" "seq_env 1" sorted_list_of_set] p
    by (auto simp: sk_def)
qed

lemma spanning_forest_stale_cache_witness:
  "\<exists>(mc :: 64 word MC) u mc' ret mc''. mc_holds example_hash mc 0 (incident {1, 2}) 0 \<and> mc_shared_dsu_valid mc \<and>
    k_boruvka_emulation example_hash (seq_env 4) 1 mc = Some (Inr u, mc') \<and>
    mc_connected_components example_hash (seq_env 4) mc' = Some (Inr ret, mc'') \<and> components_of (edges_of {}) 4 ret"
proof -
  obtain mc0 :: "64 word MC" where m0: "mc_wf mc0" "num_sketch_graphs mc0 = 2" "mc_num_vertices mc0 = 4" "mc_holds example_hash mc0 0 (incident {1, 2}) 0"
    "mc_holds example_hash mc0 1 (incident {}) 0" using example_mc_edges by blast
  define mc where "mc = mc0\<lparr>mc_dsu_valid := True, mc_shared_dsu_valid := True\<rparr>"
  have m: "mc_wf mc" "num_sketch_graphs mc = 2" "mc_num_vertices mc = 4" "mc_holds example_hash mc 0 (incident {1, 2}) 0"
    "mc_holds example_hash mc 1 (incident {}) 0" "mc_shared_dsu_valid mc"
    using m0 by (auto simp: mc_def mc_wf_def mc_holds_def)
  have omp: "omp_ok (mc_conf (seq_env 4) mc)" using seq_env_mc_ok [of mc] m(3) by simp
  have inc: "incident {} = (\<lambda>_. {})" by (auto simp: incident_def)
  have z: "0 < num_samples (mc_ref mc :: 64 word Sketch)"
    by (simp add: calc_cc_samples_def)
  obtain mc' where r: "k_boruvka_emulation example_hash (seq_env 4) 1 mc = Some (Inr (), mc')"
    using empty_graph_emulation [OF m(1) _ m(5) [unfolded inc] z omp] m(2) by auto
  have g: "graph_ids (mc_num_vertices mc) {}" by (simp add: graph_ids_def)
  from spanning_forest_stale_cache [OF m(1) _ g m(5) omp m(6) r mc_sound(2)] show ?thesis using m r by auto
qed

text \<open>C30. A batch of updates on one sketch graph toggles exactly the edges of the batch at the source
  vertex, and leaves every other vertex, the sample state and every other sketch graph alone. On
  graph 0 both batch functions agree.\<close>

theorem graph_batch_correct:
  assumes "mc_wf mc" "g < num_sketch_graphs mc" "mc_holds xxh mc g S z"
    and "\<not> mc_update_locked mc" "src < mc_num_vertices mc" "thr < length (mc_delta_sketches mc)"
  shows "\<exists>mc'. apply_update_batch_single_graph xxh thr g src dsts mc = Inr mc' \<and> mc_wf mc' \<and> mc_same_params mc' mc \<and>
    mc_holds xxh mc' g (S(src := sym_diff (S src) (odd_set (map (edge_id src) dsts)))) z \<and> other_graphs_kept g mc' mc \<and>
    (g = 0 \<longrightarrow> mc_apply_update_batch xxh thr src dsts mc = Inr mc')"
  by (rule apply_update_batch_single_graph_correct [OF assms])

lemma graph_batch_correct_witness:
  "\<exists>mc'. apply_update_batch_single_graph example_hash 0 1 2 [3, 1, 3] (mc_allocate_worker_memory 1 example_mc) = Inr mc' \<and>
    mc_holds example_hash mc' 1 ((\<lambda>_. {})(2 := sym_diff {} (odd_set (map (edge_id 2) [3, 1, 3])))) 0"
proof -
  let ?mc = "mc_allocate_worker_memory 1 example_mc"
  have w: "sketch_wf (mc_ref example_mc :: 64 word Sketch)" by (rule new_sketch_wf) (simp add: example_mc_facts)
  have m: "mc_wf ?mc" "mc_holds example_hash ?mc 1 (\<lambda>_. {}) 0"
    using example_mc_facts w by (auto simp: mc_allocate_worker_memory_def mc_wf_def mc_holds_def)
  have "\<not> mc_update_locked ?mc"
    by (simp add: mc_allocate_worker_memory_def example_mc_def create_sketch_graph_def MCSketchAlg_new_def Let_def)
  then show ?thesis
    using graph_batch_correct [OF m(1) _ m(2), of 2 0 "[3, 1, 3]"] example_mc_facts(2,4)
    by (auto simp: mc_allocate_worker_memory_def)
qed

end
