(* ===== verification/MC_GPU_Delivery.thy ===== *)
theory MC_GPU_Delivery
  imports MC_GPU_Sketch_Alg MC_Correctness
begin

text \<open>
  How the GPU algorithm for minimum cuts delivers updates to the subgraphs: the streams of all subgraphs
  are a bank on the sketches of \<open>MCSketchAlg\<close>, and the gutters and local buffers keep what is not full yet.
  \<open>mg_receives\<close> says what each subgraph has received, wherever it is at the moment; inserting a buffer,
  creating a subgraph and distributing a batch are shown to keep it.
\<close>

section \<open>The sketches as target of the streams\<close>

definition mc_add :: "(nat \<times> vec_t list) list \<Rightarrow> 64 word MC \<Rightarrow> 64 word MC" where
  "mc_add bt mc = mc\<lparr>mc_sketches := map (\<lambda>i. map_option (add_ids (slot_ids bt i)) (mc_sketches mc ! i)) [0..<length (mc_sketches mc)]\<rparr>"

definition mc_good :: "64 word Sketch \<Rightarrow> 64 word MC \<Rightarrow> bool" where
  "mc_good sk mc \<longleftrightarrow> (\<exists>sp. params_match sp sk) \<and>
     (\<forall>i<length (mc_sketches mc). \<forall>s. mc_sketches mc ! i = Some s \<longrightarrow> sketch_wf s \<and> same_shape s sk)"

definition mc_has :: "64 word MC \<Rightarrow> nat \<Rightarrow> bool" where
  "mc_has mc i \<longleftrightarrow> i < length (mc_sketches mc) \<and> mc_sketches mc ! i \<noteq> None"

lemma mc_add_fields [simp]:
  "mc_num_vertices (mc_add bt mc) = mc_num_vertices mc" "mc_seed (mc_add bt mc) = mc_seed mc" "mc_config (mc_add bt mc) = mc_config mc"
  "max_sketch_graphs (mc_add bt mc) = max_sketch_graphs mc" "num_sketch_graphs (mc_add bt mc) = num_sketch_graphs mc"
  "mc_update_locked (mc_add bt mc) = mc_update_locked mc" "length (mc_sketches (mc_add bt mc)) = length (mc_sketches mc)"
  by (simp_all add: mc_add_def)

lemma nth_mc_add:
  "i < length (mc_sketches mc) \<Longrightarrow> mc_sketches (mc_add bt mc) ! i = map_option (add_ids (slot_ids bt i)) (mc_sketches mc ! i)"
  by (simp add: mc_add_def)

lemma mc_eqI: "mc\<lparr>mc_sketches := xs\<rparr> = mc\<lparr>mc_sketches := ys\<rparr>" if "xs = ys" for mc :: "'g MC"
  using that by simp

interpretation mcb: raw_target mc_apply_raw_buckets_update sk "mc_good sk" mc_has mc_add for sk
proof
  fix a :: "64 word MC" and i src dsts assume a: "mc_good sk a" "mc_has a i"
  then obtain s where s: "i < length (mc_sketches a)" "mc_sketches a ! i = Some s" "sketch_wf s" "same_shape s sk" and p: "\<exists>sp. params_match sp sk"
    by (auto simp: mc_good_def mc_has_def)
  have "(mc_sketches a)[i := Some (add_ids (map (edge_id src) dsts) s)] =
      map (\<lambda>v. map_option (add_ids (slot_ids [(i, map (edge_id src) dsts)] v)) (mc_sketches a ! v)) [0..<length (mc_sketches a)]"
    using s by (intro nth_equalityI) (auto simp: nth_list_update option.map_id)
  then show "mc_apply_raw_buckets_update i (delta_buckets sk src dsts) a = Inr (mc_add [(i, map (edge_id src) dsts)] a)"
    using s p merge_raw_delta [of _ sk s] by (auto simp: mc_apply_raw_buckets_update_def on_sketch_def mc_add_def)
next
  fix a :: "64 word MC" and bt :: "(nat \<times> vec_t list) list" assume "mc_good sk a"
  then show "mc_good sk (mc_add bt a)"
    by (auto simp: mc_good_def nth_mc_add intro: cameo.upds_wf same_shape_trans [OF cameo.upds_shape])
next
  fix a :: "64 word MC" and bt bt' :: "(nat \<times> vec_t list) list" assume a: "mc_good sk a" and m: "mset bt = mset bt'"
  have "map_option (add_ids (slot_ids bt i)) (mc_sketches a ! i) = map_option (add_ids (slot_ids bt' i)) (mc_sketches a ! i)"
    if "i < length (mc_sketches a)" for i
    using that a add_ids_mset [OF _ mset_slot_ids [OF m]] by (cases "mc_sketches a ! i") (auto simp: mc_good_def)
  then show "mc_add bt a = mc_add bt' a" unfolding mc_add_def by (intro mc_eqI) simp
next
  fix a :: "64 word MC" and bt bt' :: "(nat \<times> vec_t list) list"
  show "mc_add (bt @ bt') a = mc_add bt' (mc_add bt a)"
    by (simp add: mc_add_def option.map_comp o_def)
next
  fix a :: "64 word MC"
  show "mc_add [] a = a" by (simp add: mc_add_def option.map_id map_nth)
qed (auto simp: mc_has_def nth_mc_add)

section \<open>The bank of all subgraphs\<close>

definition slot_mset :: "(nat \<times> vec_t list) multiset \<Rightarrow> nat \<Rightarrow> vec_t multiset" where
  "slot_mset D i = (\<Sum>(j, ids)\<in>#D. if j = i then mset ids else {#})"

lemma slot_mset_simps [simp]: "slot_mset {#} i = {#}" "slot_mset (add_mset (j, ids) D) i = (if j = i then mset ids else {#}) + slot_mset D i"
  by (simp_all add: slot_mset_def)

lemma slot_mset_mset: "slot_mset (mset bt) i = mset (slot_ids bt i)"
  by (induction bt) auto

text \<open>The parameters of the algorithm: the shape of the sketches, the number of nodes, the batch size, batches
  per buffer, host threads and subgraphs.\<close>

record gpu_conf =
  gc_sk :: "64 word Sketch"
  gc_n :: nat
  gc_bs :: nat
  gc_nb :: nat
  gc_threads :: nat
  gc_sp :: SketchParams
  gc_max :: nat
  gc_conf :: CCAlgConfiguration

definition conf_ok :: "gpu_conf \<Rightarrow> bool" where
  "conf_ok c \<longleftrightarrow> gc_sk c = new_sketch (gc_n c) (skp_seed (gc_sp c)) (cfg_sketches_factor (gc_conf c)) \<and>
     params_match (gc_sp c) (gc_sk c) \<and> \<not> cudaUVM_enabled (gc_sp c) \<and>
     (0 < gc_n c \<and> gc_n c \<le> 2 ^ 31 \<and> gc_n c * gc_max c < 2 ^ 32) \<and> 0 < gc_threads c \<and> 0 < gc_nb c \<and>
     16 \<le> gc_bs c \<and> gc_bs c = nat \<lfloor>real (num_buckets (gc_sk c) * bucket_size TYPE(64) div 4) * cfg_batch_factor (gc_conf c)\<rfloor> \<and>
     int_loop_ok (num_buckets (gc_sk c)) mg_device_threads \<and> int_loop_ok (gc_bs c * num_columns (gc_sk c)) mg_device_threads \<and>
     gc_nb c * gc_bs c < 2 ^ 31"

definition stream_of :: "mc_gpu \<Rightarrow> nat \<times> nat \<Rightarrow> cuda_stream" where
  "stream_of g j = the (cuda_streams (subgraphs g ! fst j)) ! snd j"

definition sub_shape :: "gpu_conf \<Rightarrow> SketchSubgraph \<Rightarrow> bool" where
  "sub_shape c sub \<longleftrightarrow> sg_num_nodes sub = gc_n c \<and> sg_batch_size sub = gc_bs c \<and> sg_num_streams sub = gc_threads c \<and>
     (\<exists>ss. cuda_streams sub = Some ss \<and> length ss = gc_threads c)"

text \<open>The sketches before any update: those of the graphs that exist are fresh.\<close>

definition mc_fresh :: "gpu_conf \<Rightarrow> nat \<Rightarrow> 64 word MC \<Rightarrow> bool" where
  "mc_fresh c cur a0 \<longleftrightarrow> mc_num_vertices a0 = gc_n c \<and> max_sketch_graphs a0 = gc_max c \<and> num_sketch_graphs a0 = cur \<and>
     mc_seed a0 = skp_seed (gc_sp c) \<and> mc_config a0 = gc_conf c \<and> \<not> mc_update_locked a0 \<and>
     dsu_shape (gc_n c) (mc_dsu a0, mc_spanning_forest a0) \<and> mc_delta_sketches a0 = [] \<and>
     length (mc_sketches a0) = gc_n c * gc_max c \<and> (0 < gc_max c \<longrightarrow> mc_sketches a0 ! 0 \<noteq> None) \<and>
     (\<forall>i<cur * gc_n c. mc_sketches a0 ! i = Some (gc_sk c))"

definition mg_fields :: "gpu_conf \<Rightarrow> mc_gpu \<Rightarrow> bool" where
  "mg_fields c g \<longleftrightarrow> mg_num_nodes g = gc_n c \<and> mg_host_threads g = gc_threads c \<and> mg_batches_per_buffer g = gc_nb c \<and>
     mg_batch_size g = gc_bs c \<and> default_skt_params g = gc_sp c \<and> length (subgraphs g) = gc_max c \<and> cur_subgraphs g \<le> gc_max c"

definition mg_bank :: "gpu_conf \<Rightarrow> (nat \<times> nat) set \<Rightarrow> 64 word MC \<Rightarrow> (nat \<times> nat \<Rightarrow> (nat \<times> nat list) list) \<Rightarrow> (nat \<times> vec_t list) multiset \<Rightarrow> mc_gpu \<Rightarrow> bool" where
  "mg_bank c J a0 H D g \<longleftrightarrow> conf_ok c \<and> mg_fields c g \<and> mc_fresh c (cur_subgraphs g) a0 \<and> J \<subseteq> {..<cur_subgraphs g} \<times> {..<gc_threads c} \<and>
     (\<forall>gid<cur_subgraphs g. sub_shape c (subgraphs g ! gid)) \<and>
     (\<forall>j\<in>J. statics (stream_of g j) = (fst j, gc_n c, gc_bs c, gc_nb c, gc_sp c)) \<and>
     (\<forall>j\<in>{..<cur_subgraphs g} \<times> {..<gc_threads c} - J. pending (stream_of g j) = []) \<and>
     mcb.bank_inv (gc_sk c) a0 J (stream_of g) (mg_mc g) H D \<and> (\<forall>b\<in>#D. fst b < cur_subgraphs g * gc_n c)"

lemma slot_bound:
  assumes "gid < cur" "v < (n :: nat)"
  shows "gid * n + v < cur * n"
proof -
  have "gid * n + v < (gid + 1) * n" using assms(2) by simp
  also have "\<dots> \<le> cur * n" using assms(1) by (intro mult_right_mono) auto
  finally show ?thesis .
qed

text \<open>A step of stream \<open>(gid, t)\<close>.\<close>

lemma mg_bank_step:
  assumes bank: "mg_bank c J a0 H D g" and gid: "gid < cur_subgraphs g" and t: "t < gc_threads c"
    and sub: "cuda_streams sub = Some ((the (cuda_streams (subgraphs g ! gid)))[t := s])" "sg_num_nodes sub = gc_n c" "sg_batch_size sub = gc_bs c" "sg_num_streams sub = gc_threads c"
    and J': "J' \<subseteq> J" "J - {(gid, t)} \<subseteq> J'" "(gid, t) \<in> J' \<Longrightarrow> statics s = statics (stream_of g (gid, t))" "(gid, t) \<notin> J' \<Longrightarrow> pending s = []"
    and inv: "mcb.bank_inv (gc_sk c) a0 J' ((stream_of g)((gid, t) := s)) mc' H' D'" and D: "\<forall>b\<in>#D'. fst b < cur_subgraphs g * gc_n c"
  shows "mg_bank c J' a0 H' D' (g\<lparr>mg_mc := mc', subgraphs := (subgraphs g)[gid := sub]\<rparr>)"
proof -
  let ?g = "g\<lparr>mg_mc := mc', subgraphs := (subgraphs g)[gid := sub]\<rparr>"
  have b: "mg_fields c g" "J \<subseteq> {..<cur_subgraphs g} \<times> {..<gc_threads c}" "\<forall>gid<cur_subgraphs g. sub_shape c (subgraphs g ! gid)"
    "\<forall>j\<in>J. statics (stream_of g j) = (fst j, gc_n c, gc_bs c, gc_nb c, gc_sp c)"
    "\<forall>j\<in>{..<cur_subgraphs g} \<times> {..<gc_threads c} - J. pending (stream_of g j) = []"
    using bank by (simp_all add: mg_bank_def)
  obtain ss where ss: "cuda_streams (subgraphs g ! gid) = Some ss" "length ss = gc_threads c" using b(3) gid by (auto simp: sub_shape_def)
  have l: "gid < length (subgraphs g)" using gid b(1) by (simp add: mg_fields_def)
  have st: "stream_of ?g j = ((stream_of g)((gid, t) := s)) j" for j
    using l t ss sub(1) by (cases j) (auto simp: stream_of_def nth_list_update)
  have "mcb.bank_inv (gc_sk c) a0 J' (stream_of ?g) mc' H' D'" by (rule mcb.bank_inv_cong [OF inv]) (simp_all add: st)
  moreover have "\<forall>j\<in>{..<cur_subgraphs g} \<times> {..<gc_threads c} - J'. pending (stream_of ?g j) = []"
    unfolding st using b(5) J' by auto
  moreover have "\<forall>j\<in>J'. statics (stream_of ?g j) = (fst j, gc_n c, gc_bs c, gc_nb c, gc_sp c)"
    unfolding st using b(4) J' by auto
  moreover have "\<forall>i<cur_subgraphs g. sub_shape c (subgraphs ?g ! i)"
    using b(3) l ss sub by (auto simp: nth_list_update sub_shape_def)
  ultimately show ?thesis using bank J'(1) D by (auto simp: mg_bank_def mg_fields_def)
qed

lemma mg_bank_reach:
  assumes bank: "mg_bank c J a0 H D g" and gid: "gid < cur_subgraphs g" and src: "src < gc_n c" and j: "(gid, t) \<in> J"
  shows "mcb.reach a0 (stream_first (stream_of g (gid, t))) {(src, dsts)}" "stream_first (stream_of g (gid, t)) = gid * gc_n c"
    "cs_batch_size (stream_of g (gid, t)) = gc_bs c" "gid * gc_n c + src < cur_subgraphs g * gc_n c"
proof -
  have st: "statics (stream_of g (gid, t)) = (gid, gc_n c, gc_bs c, gc_nb c, gc_sp c)" using bank j by (auto simp: mg_bank_def)
  then show f: "stream_first (stream_of g (gid, t)) = gid * gc_n c" "cs_batch_size (stream_of g (gid, t)) = gc_bs c"
    by (simp_all add: stream_first_def statics_def)
  show s: "gid * gc_n c + src < cur_subgraphs g * gc_n c" by (rule slot_bound [OF gid src])
  have "cur_subgraphs g * gc_n c \<le> gc_n c * gc_max c" using bank by (simp add: mg_bank_def mg_fields_def mult.commute)
  moreover have "mc_fresh c (cur_subgraphs g) a0" "gc_n c * gc_max c < 2 ^ 32" using bank by (simp_all add: mg_bank_def conf_ok_def)
  moreover have "gid * gc_n c + src < gc_n c * gc_max c" "gid * gc_n c + src < 2 ^ 32"
    using s calculation by linarith+
  ultimately show "mcb.reach a0 (stream_first (stream_of g (gid, t))) {(src, dsts)}"
    using s by (simp add: mcb.reach_def f mc_has_def mc_fresh_def)
qed

text \<open>A batch of a subgraph: it is recorded in \<open>D\<close>; the gutters may change at the same time.\<close>

definition launched :: "(nat \<times> nat) set \<Rightarrow> mc_gpu \<Rightarrow> bool" where
  "launched J g \<longleftrightarrow> (\<forall>j\<in>J. \<not> first_buffer (stream_of g j))"

lemma sub_apply_bank:
  assumes bank: "mg_bank c J a0 H D g" and j: "(gid, t) \<in> J" and src: "src < gc_n c" and l: "length dsts \<le> gc_bs c"
    and sub: "sub = (subgraphs g ! gid)\<lparr>subgraph_gutters := gs\<rparr>"
  shows "\<exists>mc' sub'. sub_apply_update_batch env t src dsts (mg_mc g, sub) = Inr (mc', sub') \<and> subgraph_gutters sub' = gs \<and> sg_batch_size sub' = gc_bs c \<and>
    (\<forall>gs'. let g' = g\<lparr>mg_mc := mc', subgraphs := (subgraphs g)[gid := sub'\<lparr>subgraph_gutters := gs'\<rparr>]\<rparr>
       in (\<exists>H'. mg_bank c J a0 H' (add_mset (gid * gc_n c + src, map (edge_id src) dsts) D) g') \<and> (launched J g \<longrightarrow> launched J g'))"
proof -
  have gid: "gid < cur_subgraphs g" and t: "t < gc_threads c" using bank j by (auto simp: mg_bank_def)
  note r = mg_bank_reach [OF bank gid src j]
  have fl: "gid < length (subgraphs g)" using bank gid by (simp add: mg_bank_def mg_fields_def)
  obtain ss where ss: "cuda_streams (subgraphs g ! gid) = Some ss" "length ss = gc_threads c"
    and sh: "sub_shape c (subgraphs g ! gid)" using bank gid by (auto simp: mg_bank_def sub_shape_def)
  have so: "stream_of g (gid, t) = ss ! t" by (simp add: stream_of_def ss)
  define sub1 where "sub1 = sub\<lparr>sg_num_updates := sg_num_updates sub + of_nat (length dsts)\<rparr>"
  define e where "e = env t (sg_num_updates sub1)"
  obtain mc' s' where p: "process_batch mc_apply_raw_buckets_update e src dsts (mg_mc g, (ss ! t)\<lparr>uvm_buckets := sg_managed sub1\<rparr>) = Inr (mc', s')"
      "statics s' = statics (ss ! t)" "first_buffer s' \<longrightarrow> first_buffer (ss ! t)"
      "mcb.bank_inv (gc_sk c) a0 J ((stream_of g)((gid, t) := s')) mc' (H((gid, t) := H (gid, t) @ [(src, dsts)])) (add_mset (gid * gc_n c + src, map (edge_id src) dsts) D)"
    using mcb.bank_process [of "gc_sk c" a0 J "stream_of g" "mg_mc g" H D "(gid, t)" dsts src e "sg_managed sub1"] bank j l r
    by (auto simp: mg_bank_def so batch_ids_def)
  let ?sub = "sub1\<lparr>cuda_streams := Some (ss[t := s']), sg_managed := uvm_buckets s'\<rparr>"
  have "sub_apply_update_batch env t src dsts (mg_mc g, sub) = Inr (mc', ?sub)"
    using p(1) t ss by (simp add: sub_apply_update_batch_def sub_stream_def sub Let_def sub1_def e_def)
  moreover have "mg_bank c J a0 (H((gid, t) := H (gid, t) @ [(src, dsts)])) (add_mset (gid * gc_n c + src, map (edge_id src) dsts) D)
      (g\<lparr>mg_mc := mc', subgraphs := (subgraphs g)[gid := ?sub\<lparr>subgraph_gutters := gs'\<rparr>]\<rparr>)" for gs'
    by (rule mg_bank_step [OF bank gid t _ _ _ _ _ _ _ _ p(4)])
      (use sh ss p(2) j r(4) bank in \<open>auto simp: sub1_def sub so sub_shape_def mg_bank_def\<close>)
  moreover have "stream_of (g\<lparr>mg_mc := mc', subgraphs := (subgraphs g)[gid := ?sub\<lparr>subgraph_gutters := gs'\<rparr>]\<rparr>) i = ((stream_of g)((gid, t) := s')) i" for gs' i
    using fl t ss by (cases i) (auto simp: stream_of_def nth_list_update)
  then have "launched J g \<longrightarrow> launched J (g\<lparr>mg_mc := mc', subgraphs := (subgraphs g)[gid := ?sub\<lparr>subgraph_gutters := gs'\<rparr>]\<rparr>)" for gs'
    using p(3) j by (auto simp: launched_def so)
  moreover have "subgraph_gutters ?sub = gs" "sg_batch_size ?sub = gc_bs c" using sh by (simp_all add: sub1_def sub sub_shape_def)
  ultimately show ?thesis unfolding Let_def by (intro exI [of _ mc'] exI [of _ ?sub] conjI allI exI) blast+
qed

section \<open>Gutters\<close>

definition gut_list :: "Gutter \<Rightarrow> nat list" where
  "gut_list gut = take (gut_elms gut) (gut_data gut)"

definition gutters_ok :: "gpu_conf \<Rightarrow> SketchSubgraph \<Rightarrow> bool" where
  "gutters_ok c sub \<longleftrightarrow> length (subgraph_gutters sub) = gc_n c \<and>
     (\<forall>v<gc_n c. gut_elms (subgraph_gutters sub ! v) < gc_bs c \<and> length (gut_data (subgraph_gutters sub ! v)) = gc_bs c)"

text \<open>Subgraph \<open>gid\<close> has received the destinations \<open>R gid v\<close> at vertex \<open>v\<close>: they are in the gutter, in a stream or
  in the sketch.\<close>

type_synonym received = "nat \<Rightarrow> nat \<Rightarrow> nat multiset"

definition mg_content :: "gpu_conf \<Rightarrow> (nat \<times> vec_t list) multiset \<Rightarrow> SketchSubgraph \<Rightarrow> nat \<Rightarrow> nat \<Rightarrow> vec_t multiset" where
  "mg_content c D sub gid v = slot_mset D (gid * gc_n c + v) + mset (map (edge_id v) (gut_list (subgraph_gutters sub ! v)))"

definition mg_receives :: "gpu_conf \<Rightarrow> (nat \<times> nat) set \<Rightarrow> received \<Rightarrow> mc_gpu \<Rightarrow> bool" where
  "mg_receives c J R g \<longleftrightarrow> (\<exists>a0 H D. mg_bank c J a0 H D g \<and> (\<forall>gid<cur_subgraphs g. gutters_ok c (subgraphs g ! gid) \<and>
     (\<forall>v<gc_n c. mg_content c D (subgraphs g ! gid) gid v = image_mset (edge_id v) (R gid v))))"

definition receive :: "nat \<Rightarrow> nat \<Rightarrow> nat list \<Rightarrow> received \<Rightarrow> received" where
  "receive gid src dsts R = (\<lambda>i v. if i = gid \<and> v = src then R i v + mset dsts else R i v)"

definition same_rest :: "mc_gpu \<Rightarrow> mc_gpu \<Rightarrow> bool" where
  "same_rest g' g \<longleftrightarrow> g' = g\<lparr>mg_mc := mg_mc g', subgraphs := subgraphs g'\<rparr>"

lemma same_rest_fields:
  assumes "same_rest g' g"
  shows "edge_store g' = edge_store g" "cur_subgraphs g' = cur_subgraphs g" "num_subgraphs g' = num_subgraphs g"
    "default_skt_params g' = default_skt_params g" "mg_host_threads g' = mg_host_threads g"
  using arg_cong [OF assms [unfolded same_rest_def], of edge_store] arg_cong [OF assms [unfolded same_rest_def], of cur_subgraphs]
    arg_cong [OF assms [unfolded same_rest_def], of num_subgraphs] arg_cong [OF assms [unfolded same_rest_def], of default_skt_params]
    arg_cong [OF assms [unfolded same_rest_def], of mg_host_threads] by simp_all

lemma same_rest_refl [simp]: "same_rest g g"
  by (simp add: same_rest_def)

lemma same_rest_trans: "same_rest g2 g1 \<Longrightarrow> same_rest g1 g \<Longrightarrow> same_rest g2 g"
  unfolding same_rest_def by (cases g, cases g1, cases g2) simp

lemma slot_inj:
  assumes "v < n" "w < (n :: nat)" "a * n + v = b * n + w"
  shows "a = b \<and> v = w"
proof -
  have "(a * n + v) div n = (b * n + w) div n" "(a * n + v) mod n = (b * n + w) mod n" using assms(3) by simp_all
  then show ?thesis using assms(1,2) by simp
qed

lemma mg_bank_gutters:
  assumes bank: "mg_bank c J a0 H D g" and "gid < cur_subgraphs g"
  shows "mg_bank c J a0 H D (g\<lparr>subgraphs := (subgraphs g)[gid := (subgraphs g ! gid)\<lparr>subgraph_gutters := gs\<rparr>]\<rparr>)"
proof -
  let ?g = "g\<lparr>subgraphs := (subgraphs g)[gid := (subgraphs g ! gid)\<lparr>subgraph_gutters := gs\<rparr>]\<rparr>"
  have "stream_of ?g = stream_of g"
    using assms by (intro ext) (auto simp: stream_of_def nth_list_update mg_bank_def mg_fields_def)
  moreover have "\<forall>i<cur_subgraphs g. sub_shape c (subgraphs ?g ! i)"
    using assms by (auto simp: nth_list_update sub_shape_def mg_bank_def mg_fields_def)
  ultimately show ?thesis using bank by (simp add: mg_bank_def mg_fields_def)
qed

text \<open>The contents after a step of subgraph \<open>gid\<close> at vertex \<open>src\<close>.\<close>

lemma mg_receives_step:
  assumes old: "\<forall>i<cur_subgraphs g. gutters_ok c (subgraphs g ! i) \<and> (\<forall>v<gc_n c. mg_content c D (subgraphs g ! i) i v = image_mset (edge_id v) (R i v))"
    and gid: "gid < cur_subgraphs g" "gid < length (subgraphs g)" and src: "src < gc_n c"
    and bank: "mg_bank c J' a0 H D' (g\<lparr>mg_mc := mc', subgraphs := (subgraphs g)[gid := sub]\<rparr>)"
    and sub: "subgraph_gutters sub = (subgraph_gutters (subgraphs g ! gid))[src := gut]" "gut_elms gut < gc_bs c" "length (gut_data gut) = gc_bs c"
    and D': "D' = D \<or> D' = add_mset (gid * gc_n c + src, ids) D"
    and new: "slot_mset D' (gid * gc_n c + src) + mset (map (edge_id src) (gut_list gut)) =
      mg_content c D (subgraphs g ! gid) gid src + image_mset (edge_id src) (mset dsts)"
  shows "mg_receives c J' (receive gid src dsts R) (g\<lparr>mg_mc := mc', subgraphs := (subgraphs g)[gid := sub]\<rparr>)"
proof -
  let ?g = "g\<lparr>mg_mc := mc', subgraphs := (subgraphs g)[gid := sub]\<rparr>"
  have other: "slot_mset D' (i * gc_n c + v) = slot_mset D (i * gc_n c + v)" if "v < gc_n c" "i \<noteq> gid \<or> v \<noteq> src" for i v
    using D' slot_inj [of src "gc_n c" v gid i] that src by auto
  have len: "length (subgraph_gutters (subgraphs g ! gid)) = gc_n c" using old gid by (simp add: gutters_ok_def)
  have "gutters_ok c sub"
    using old gid(1) sub len src by (auto simp: gutters_ok_def nth_list_update [of src])
  then have "gutters_ok c (subgraphs ?g ! i)" if "i < cur_subgraphs g" for i
    using that old gid(2) by (simp add: nth_list_update)
  moreover have "mg_content c D' (subgraphs ?g ! i) i v = image_mset (edge_id v) (receive gid src dsts R i v)"
    if "i < cur_subgraphs g" "v < gc_n c" for i v
  proof (cases "i = gid \<and> v = src")
    case True
    then have "mg_content c D' (subgraphs ?g ! i) i v = slot_mset D' (gid * gc_n c + src) + mset (map (edge_id src) (gut_list gut))"
      using gid(2) src len by (simp add: mg_content_def sub(1))
    then show ?thesis using True old that unfolding new by (simp add: receive_def)
  next
    case False
    then have "mg_content c D' (subgraphs ?g ! i) i v = mg_content c D (subgraphs g ! i) i v"
      using other [OF that(2), of i] gid(2) by (cases "i = gid") (auto simp: mg_content_def sub(1))
    moreover have "receive gid src dsts R i v = R i v" using False by (auto simp: receive_def)
    ultimately show ?thesis using old that by simp
  qed
  ultimately show ?thesis using bank unfolding mg_receives_def by fastforce
qed

lemma take_overwrite: "i \<le> length xs \<Longrightarrow> take (i + length ys) (overwrite xs i ys) = take i xs @ ys"
  by (simp add: overwrite_def)

lemma batch_insert_receives:
  assumes rcv: "mg_receives c J R g" and j: "(gid, t) \<in> J" and src: "src < gc_n c" and num: "num \<le> length dsts" "num \<le> 16"
  shows "\<exists>g'. on_subgraph gid (batch_insert env t src dsts num) g = Inr g' \<and> mg_receives c J (receive gid src (take num dsts) R) g' \<and>
    same_rest g' g \<and> (launched J g \<longrightarrow> launched J g')"
proof -
  obtain a0 H D where bank: "mg_bank c J a0 H D g"
    and old: "\<forall>i<cur_subgraphs g. gutters_ok c (subgraphs g ! i) \<and> (\<forall>v<gc_n c. mg_content c D (subgraphs g ! i) i v = image_mset (edge_id v) (R i v))"
    using rcv by (auto simp: mg_receives_def)
  have gid: "gid < cur_subgraphs g" "gid < length (subgraphs g)" and bs: "16 \<le> gc_bs c" and sh: "sub_shape c (subgraphs g ! gid)"
    using bank j by (auto simp: mg_bank_def mg_fields_def conf_ok_def)
  let ?sub = "subgraphs g ! gid"
  let ?gs = "subgraph_gutters ?sub"
  define gut where "gut = ?gs ! src"
  have gut: "gut_elms gut < gc_bs c" "length (gut_data gut) = gc_bs c" "length ?gs = gc_n c" using old gid src by (auto simp: gut_def gutters_ok_def)
  define cap where "cap = gc_bs c - gut_elms gut"
  define gut1 where "gut1 = gut\<lparr>gut_data := overwrite (gut_data gut) (gut_elms gut) (take (min num cap) dsts), gut_elms := gut_elms gut + min num cap\<rparr>"
  have lm: "length (take (min num cap) dsts) = min num cap" using num by simp
  have l1: "length (gut_data gut1) = gc_bs c" using gut lm by (simp add: gut1_def cap_def)
  have c1: "take (gut_elms gut + min num cap) (gut_data gut1) = gut_list gut @ take (min num cap) dsts"
    using take_overwrite [of "gut_elms gut" "gut_data gut" "take (min num cap) dsts"] gut(1,2) unfolding lm by (simp add: gut1_def gut_list_def)
  have bsz: "sg_batch_size ?sub = gc_bs c" using sh by (simp add: sub_shape_def)
  show ?thesis
  proof (cases "cap \<le> num")
    case False
    let ?g = "g\<lparr>mg_mc := mg_mc g, subgraphs := (subgraphs g)[gid := ?sub\<lparr>subgraph_gutters := ?gs[src := gut1]\<rparr>]\<rparr>"
    have e: "on_subgraph gid (batch_insert env t src dsts num) g = Inr ?g"
      using False gid(2) gut src num
      by (simp add: on_subgraph_def batch_insert_def Let_def gut_def [symmetric] bsz cap_def [symmetric] gut1_def) (simp add: cap_def)
    have "stream_of ?g = stream_of g" by (intro ext) (auto simp: stream_of_def nth_list_update gid(2))
    moreover have "mg_receives c J (receive gid src (take num dsts) R) ?g"
      by (rule mg_receives_step [OF old gid src _ _ _ l1, where D' = D and ids = "[]"])
        (use mg_bank_gutters [OF bank gid(1)] False gut c1 in \<open>auto simp: gut1_def mg_content_def gut_list_def gut_def cap_def\<close>)
    ultimately show ?thesis using e by (intro exI [of _ ?g]) (simp add: launched_def same_rest_def)
  next
    case True
    have mn: "min num cap = cap" "gut_elms gut + cap = gc_bs c" "num - cap \<le> gc_bs c" using True gut num bs by (auto simp: cap_def)
    have d1: "gut_data gut1 = gut_list gut @ take cap dsts" using c1 l1 mn by simp
    obtain mc' sub' where a: "sub_apply_update_batch env t src (gut_data gut1) (mg_mc g, ?sub\<lparr>subgraph_gutters := ?gs[src := gut1]\<rparr>) = Inr (mc', sub')"
        "subgraph_gutters sub' = ?gs[src := gut1]"
        "\<And>gs'. (\<exists>H'. mg_bank c J a0 H' (add_mset (gid * gc_n c + src, map (edge_id src) (gut_data gut1)) D)
             (g\<lparr>mg_mc := mc', subgraphs := (subgraphs g)[gid := sub'\<lparr>subgraph_gutters := gs'\<rparr>]\<rparr>)) \<and>
           (launched J g \<longrightarrow> launched J (g\<lparr>mg_mc := mc', subgraphs := (subgraphs g)[gid := sub'\<lparr>subgraph_gutters := gs'\<rparr>]\<rparr>))"
      using sub_apply_bank [OF bank j src _ refl, where dsts = "gut_data gut1" and gs = "?gs[src := gut1]" and env = env] l1 unfolding Let_def by auto
    define gut2 where "gut2 = gut1\<lparr>gut_elms := num - cap, gut_data := overwrite (gut_data gut1) 0 (take (num - cap) (drop cap dsts))\<rparr>"
    let ?g = "g\<lparr>mg_mc := mc', subgraphs := (subgraphs g)[gid := sub'\<lparr>subgraph_gutters := ?gs[src := gut2]\<rparr>]\<rparr>"
    have lt: "length (take (num - cap) (drop cap dsts)) = num - cap" using num by simp
    have l2: "length (gut_data gut2) = gc_bs c" using l1 lt mn by (simp add: gut2_def)
    have c2: "gut_list gut2 = take (num - cap) (drop cap dsts)"
      using take_overwrite [of 0 "gut_data gut1" "take (num - cap) (drop cap dsts)"] unfolding lt by (simp add: gut2_def gut_list_def)
    have el: "num - cap < gc_bs c" using mn num bs gut True by (auto simp: cap_def)
    have e: "on_subgraph gid (batch_insert env t src dsts num) g = Inr ?g"
      using True gid(2) gut src num a(1,2) l1 mn
      by (simp add: on_subgraph_def batch_insert_def Let_def gut_def [symmetric] bsz cap_def [symmetric] gut1_def gut2_def)
    have "take num dsts = take cap dsts @ take (num - cap) (drop cap dsts)" using True by (metis le_add_diff_inverse take_add)
    then have new: "slot_mset (add_mset (gid * gc_n c + src, map (edge_id src) (gut_data gut1)) D) (gid * gc_n c + src) + mset (map (edge_id src) (gut_list gut2)) =
        mg_content c D ?sub gid src + image_mset (edge_id src) (mset (take num dsts))"
      unfolding c2 d1 by (simp add: mg_content_def gut_def)
    obtain H' where b': "mg_bank c J a0 H' (add_mset (gid * gc_n c + src, map (edge_id src) (gut_data gut1)) D) ?g" using a(3) by blast
    have "mg_receives c J (receive gid src (take num dsts) R) ?g"
      by (rule mg_receives_step [OF old gid src b' _ _ l2 disjI2 [OF refl] new]) (use el in \<open>simp_all add: gut2_def\<close>)
    then show ?thesis using e a(3) by (intro exI [of _ ?g]) (simp add: same_rest_def)
  qed
qed

section \<open>New subgraphs\<close>

abbreviation all_streams :: "gpu_conf \<Rightarrow> mc_gpu \<Rightarrow> (nat \<times> nat) set" where
  "all_streams c g \<equiv> {..<cur_subgraphs g} \<times> {..<gc_threads c}"

lemma create_fresh_nth:
  fixes a :: "64 word MC"
  assumes "\<not> cudaUVM_enabled sp" "num_sketch_graphs a = cur" "cur < max_sketch_graphs a" "mc_num_vertices a = n"
    "length (mc_sketches a) = n * max_sketch_graphs a" "n * max_sketch_graphs a < 2 ^ 32"
  shows "create_sketch_graph cur sp a = a\<lparr>mc_sketches := mc_sketches (create_sketch_graph cur sp a), num_sketch_graphs := cur + 1\<rparr>"
    "length (mc_sketches (create_sketch_graph cur sp a)) = length (mc_sketches a)"
    "i < length (mc_sketches a) \<Longrightarrow> mc_sketches (create_sketch_graph cur sp a) ! i =
       (if cur * n \<le> i \<and> i < (cur + 1) * n then Some (new_sketch n (mc_seed a) (cfg_sketches_factor (mc_config a))) else mc_sketches a ! i)"
proof -
  let ?sk = "new_sketch n (mc_seed a) (cfg_sketches_factor (mc_config a)) :: 64 word Sketch"
  have "fold (\<lambda>i sks. sks[mc_slot n cur i := Some ?sk]) [0..<n] (mc_sketches a) = put_graph n cur (replicate n ?sk) (mc_sketches a)"
    unfolding put_graph_def by (rule fold_cong) auto
  then have e: "create_sketch_graph cur sp a = a\<lparr>mc_sketches := put_graph n cur (replicate n ?sk) (mc_sketches a), num_sketch_graphs := cur + 1\<rparr>"
    using assms(1-4) by (simp add: create_sketch_graph_def Let_def new_sketch_def)
  then show "create_sketch_graph cur sp a = a\<lparr>mc_sketches := mc_sketches (create_sketch_graph cur sp a), num_sketch_graphs := cur + 1\<rparr>"
    "length (mc_sketches (create_sketch_graph cur sp a)) = length (mc_sketches a)" by (simp_all add: put_graph_nth)
  have n32: "n \<le> 2 ^ 32" using assms(3,6) by (cases "max_sketch_graphs a") auto
  have b: "cur * n + v < n * max_sketch_graphs a" if "v < n" for v
    using slot_bound [OF assms(3) that] by (simp add: mult.commute)
  have slot: "mc_slot n cur v = cur * n + v" "mc_slot n cur v < length (mc_sketches a)" if "v < n" for v
    using b [OF that] assms(5,6) by (simp_all add: mc_slot_def)
  assume i: "i < length (mc_sketches a)"
  show "mc_sketches (create_sketch_graph cur sp a) ! i =
      (if cur * n \<le> i \<and> i < (cur + 1) * n then Some ?sk else mc_sketches a ! i)"
  proof (cases "cur * n \<le> i \<and> i < (cur + 1) * n")
    case True
    then obtain v where v: "i = cur * n + v" "v < n" by (metis add.commute add_less_cancel_left le_add_diff_inverse mult_Suc Suc_eq_plus1)
    show ?thesis
      using True put_graph_nth(3) [OF n32 v(2) slot(2) [OF v(2)], of "replicate n ?sk"] v unfolding slot(1) [OF v(2)] by (simp add: e)
  next
    case False
    have "i \<notin> mc_slot n cur ` {..<n}"
    proof
      assume "i \<in> mc_slot n cur ` {..<n}"
      then show False using False slot(1) by auto
    qed
    then show ?thesis unfolding if_not_P [OF False] e by (simp add: put_graph_nth(2))
  qed
qed

lemma create_fresh:
  assumes ok: "conf_ok c" and a0: "mc_fresh c cur a0" "mc_good (gc_sk c) a0" and cur: "cur < gc_max c"
  defines "a1 \<equiv> create_sketch_graph cur (gc_sp c) a0"
  shows "mc_fresh c (cur + 1) a1" "mc_good (gc_sk c) a1" "mc_has a0 i \<Longrightarrow> mc_has a1 i"
    "(\<forall>b\<in>set bt. fst b < cur * gc_n c) \<Longrightarrow> create_sketch_graph cur (gc_sp c) (mc_add bt a0) = mc_add bt a1"
proof -
  let ?n = "gc_n c"
  have c: "\<not> cudaUVM_enabled (gc_sp c)" "?n * gc_max c < 2 ^ 32" "gc_sk c = new_sketch ?n (skp_seed (gc_sp c)) (cfg_sketches_factor (gc_conf c))"
      and p: "params_match (gc_sp c) (gc_sk c)" using ok unfolding conf_ok_def by blast+
  have wf: "sketch_wf (gc_sk c)" using p by (simp add: params_match_def)
  have f: "mc_num_vertices a0 = ?n" "max_sketch_graphs a0 = gc_max c" "num_sketch_graphs a0 = cur" "mc_seed a0 = skp_seed (gc_sp c)"
      "mc_config a0 = gc_conf c" "\<not> mc_update_locked a0" "length (mc_sketches a0) = ?n * gc_max c"
      "dsu_shape ?n (mc_dsu a0, mc_spanning_forest a0)" "mc_delta_sketches a0 = []"
    using a0(1) by (auto simp: mc_fresh_def)
  note cr = create_fresh_nth [OF c(1) f(3) _ f(1), unfolded f, OF cur refl c(2), folded a1_def]
  have s: "mc_sketches a1 ! i = (if cur * ?n \<le> i \<and> i < (cur + 1) * ?n then Some (gc_sk c) else mc_sketches a0 ! i)"
    if "i < ?n * gc_max c" for i using cr(3) [OF that] by (simp add: c(3))
  have up: "(cur + 1) * ?n \<le> ?n * gc_max c" using cur by (simp add: mult.commute [of _ ?n] del: mult_Suc_right mult_Suc)
  have fl: "mc_num_vertices a1 = ?n" "max_sketch_graphs a1 = gc_max c" "num_sketch_graphs a1 = cur + 1" "mc_seed a1 = skp_seed (gc_sp c)"
    "mc_config a1 = gc_conf c" "\<not> mc_update_locked a1" "length (mc_sketches a1) = ?n * gc_max c"
    "dsu_shape ?n (mc_dsu a1, mc_spanning_forest a1)" "mc_delta_sketches a1 = []"
    using f cr(2) by (subst cr(1), simp)+
  have "mc_sketches a1 ! i = Some (gc_sk c)" if "i < (cur + 1) * ?n" for i
    using that s [of i] up a0(1) by (cases "cur * ?n \<le> i") (auto simp: mc_fresh_def)
  moreover have "mc_sketches a1 ! 0 \<noteq> None" if "0 < gc_max c"
    using s [of 0] that ok a0(1) by (auto simp: conf_ok_def mc_fresh_def)
  ultimately show "mc_fresh c (cur + 1) a1" using fl by (simp add: mc_fresh_def)
  show "mc_good (gc_sk c) a1" using a0(2) p s fl(7) f(7) wf by (auto simp: mc_good_def split: if_splits)
  show "mc_has a0 i \<Longrightarrow> mc_has a1 i" using s fl(7) f(7) by (auto simp: mc_has_def)
  assume bt: "\<forall>b\<in>set bt. fst b < cur * ?n"
  let ?m = "mc_add bt a0"
  have len: "length (mc_sketches ?m) = ?n * gc_max c" by (simp add: f)
  note crm = create_fresh_nth [OF c(1), of ?m cur ?n, simplified f mc_add_fields, OF refl cur refl refl c(2)]
  have "slot_ids bt i = []" if "cur * ?n \<le> i" for i
    using bt that by (induction bt) auto
  then have "mc_sketches (create_sketch_graph cur (gc_sp c) ?m) ! i = mc_sketches (mc_add bt a1) ! i" if "i < ?n * gc_max c" for i
    using that crm(3) [of i] by (auto simp: nth_mc_add fl(7) f(7) s c(3) [symmetric])
  then have sk: "mc_sketches (create_sketch_graph cur (gc_sp c) ?m) = mc_sketches (mc_add bt a1)"
    using crm(2) by (intro nth_equalityI) (simp_all add: fl(7))
  show "create_sketch_graph cur (gc_sp c) ?m = mc_add bt a1"
    using sk unfolding mc_add_def [of bt a1] by (subst crm(1)) (subst (3) cr(1), simp add: mc_add_def)
qed

lemma desired_bs:
  assumes ok: "conf_ok c" and a0: "mc_fresh c cur a0" "mc_good (gc_sk c) a0" and "0 < gc_max c"
  shows "mc_get_desired_updates_per_batch (mc_add bt a0) = gc_bs c"
proof -
  have l: "0 < length (mc_sketches a0)" using assms by (simp add: mc_fresh_def conf_ok_def)
  obtain s0 where s0: "mc_sketches a0 ! 0 = Some s0" using assms by (auto simp: mc_fresh_def)
  have "same_shape s0 (gc_sk c)" using a0(2) l s0 by (auto simp: mc_good_def)
  then have "same_shape (add_ids (slot_ids bt 0) s0) (gc_sk c)" by (rule same_shape_trans [OF cameo.upds_shape])
  then have "num_buckets (the (mc_sketches (mc_add bt a0) ! 0)) = num_buckets (gc_sk c)"
    using nth_mc_add [OF l, of bt] s0 by (simp add: same_shape_def)
  moreover have "gc_bs c = nat \<lfloor>real (num_buckets (gc_sk c) * bucket_size TYPE(64) div 4) * cfg_batch_factor (gc_conf c)\<rfloor>"
    using ok unfolding conf_ok_def by blast
  ultimately show ?thesis using a0(1) by (simp add: mc_get_desired_updates_per_batch_def mc_fresh_def)
qed

text \<open>One more subgraph, with its streams, its gutters and its sketches.\<close>

lemma init_subgraph_receives:
  assumes rcv: "mg_receives c (all_streams c g) R g" and cur: "cur_subgraphs g < gc_max c" and R: "\<And>v. R (cur_subgraphs g) v = {#}"
  shows "\<exists>g1. init_subgraph mem (cur_subgraphs g) g = Inr g1 \<and> same_rest g1 g \<and>
    mg_receives c (all_streams c (g1\<lparr>cur_subgraphs := cur_subgraphs g + 1\<rparr>)) R (g1\<lparr>cur_subgraphs := cur_subgraphs g + 1\<rparr>)"
proof -
  let ?cur = "cur_subgraphs g" and ?n = "gc_n c"
  obtain a0 H D where bank: "mg_bank c (all_streams c g) a0 H D g"
    and old: "\<forall>i<?cur. gutters_ok c (subgraphs g ! i) \<and> (\<forall>v<?n. mg_content c D (subgraphs g ! i) i v = image_mset (edge_id v) (R i v))"
    using rcv by (auto simp: mg_receives_def)
  have b: "conf_ok c" "mg_fields c g" "mc_fresh c ?cur a0" "\<forall>i<?cur. sub_shape c (subgraphs g ! i)"
      "\<forall>j\<in>all_streams c g. statics (stream_of g j) = (fst j, ?n, gc_bs c, gc_nb c, gc_sp c)"
      "mcb.bank_inv (gc_sk c) a0 (all_streams c g) (stream_of g) (mg_mc g) H D" "\<forall>b\<in>#D. fst b < ?cur * ?n"
    using bank by (simp_all add: mg_bank_def)
  have f: "mg_num_nodes g = ?n" "mg_host_threads g = gc_threads c" "mg_batches_per_buffer g = gc_nb c" "mg_batch_size g = gc_bs c"
      "default_skt_params g = gc_sp c" "length (subgraphs g) = gc_max c"
    using b(2) by (simp_all add: mg_fields_def)
  obtain applied where a: "mg_mc g = mc_add applied a0" and g0: "mc_good (gc_sk c) a0" using b(6) unfolding mcb.bank_inv_def by blast
  have th: "0 < gc_threads c" using b(1) by (simp add: conf_ok_def)
  define st where "st = (\<lambda>i. CudaStream_new (stream_mem mem ?cur i) (gc_bs c) ?cur ?n mg_device_threads (gc_nb c) (gc_sp c) (managed_mem mem ?cur))"
  define sub where "sub = (subgraphs g ! ?cur)\<lparr>sg_num_nodes := ?n, sg_batch_size := gc_bs c, sg_num_updates := 0, sg_num_streams := gc_threads c, sg_params := gc_sp c,
    sg_managed := managed_mem mem ?cur, cuda_streams := Some (map st [0..<gc_threads c]),
    subgraph_gutters := replicate ?n \<lparr>gut_elms = 0, gut_data = replicate (gc_bs c) 0\<rparr>\<rparr>"
  define g1 where "g1 = g\<lparr>subgraphs := (subgraphs g)[?cur := sub], mg_mc := create_sketch_graph ?cur (gc_sp c) (mg_mc g)\<rparr>"
  define g2 where "g2 = g1\<lparr>cur_subgraphs := ?cur + 1\<rparr>"
  have "mc_get_desired_updates_per_batch (mg_mc g) = gc_bs c" unfolding a by (rule desired_bs [OF b(1,3) g0]) (use cur in simp)
  then have init: "init_subgraph mem ?cur g = Inr g1"
    using cur th by (simp add: init_subgraph_def subgraph_initialize_def f g1_def sub_def st_def)
  note cr = create_fresh [OF b(1,3) g0 cur]
  have sof: "stream_of g2 j = (if fst j = ?cur then map st [0..<gc_threads c] ! snd j else stream_of g j)" for j
    using cur by (cases j) (auto simp: stream_of_def g2_def g1_def f nth_list_update sub_def)
  have sinv: "stream_inv (gc_sk c) (st t) [] []" "statics (st t) = (?cur, ?n, gc_bs c, gc_nb c, gc_sp c)" for t
  proof -
    have c: "params_match (gc_sp c) (gc_sk c)" "\<not> cudaUVM_enabled (gc_sp c)" "0 < gc_nb c" "0 < mg_device_threads"
        "int_loop_ok (num_buckets (gc_sk c)) mg_device_threads" "int_loop_ok (gc_bs c * num_columns (gc_sk c)) mg_device_threads" "gc_nb c * gc_bs c < 2 ^ 31"
      using b(1) unfolding conf_ok_def by (blast, blast, blast, simp add: mg_device_threads_def, blast+)
    show "stream_inv (gc_sk c) (st t) [] []" unfolding st_def by (rule CudaStream_new_inv [OF c])
    show "statics (st t) = (?cur, ?n, gc_bs c, gc_nb c, gc_sp c)" by (simp add: statics_def st_def CudaStream_new_def Let_def)
  qed
  let ?K = "{?cur} \<times> {..<gc_threads c}" and ?H = "\<lambda>j. if fst j < ?cur then H j else []"
  have "mcb.bank_inv (gc_sk c) a0 (all_streams c g) (stream_of g2) (mg_mc g) ?H D"
    by (rule mcb.bank_inv_cong [OF b(6)]) (auto simp: sof)
  then have "mcb.bank_inv (gc_sk c) (create_sketch_graph ?cur (gc_sp c) a0) (all_streams c g \<union> ?K) (stream_of g2) (mg_mc g2) ?H D"
  proof (rule mcb.bank_extend)
    fix bt assume "mset bt \<subseteq># D" "mg_mc g = mc_add bt a0"
    moreover from this have "\<forall>b\<in>set bt. fst b < ?cur * ?n" using b(7) by (metis mset_subset_eqD set_mset_mset)
    ultimately show "mg_mc g2 = mc_add bt (create_sketch_graph ?cur (gc_sp c) a0)" using cr(4) by (simp add: g2_def g1_def)
  qed (use cr sinv in \<open>auto simp: sof\<close>)
  moreover have "all_streams c g \<union> ?K = all_streams c g2" by (auto simp: g2_def)
  ultimately have bi: "mcb.bank_inv (gc_sk c) (create_sketch_graph ?cur (gc_sp c) a0) (all_streams c g2) (stream_of g2) (mg_mc g2) ?H D" by simp
  have "sub_shape c (subgraphs g2 ! i)" if "i < ?cur + 1" for i
    using that b(4) cur by (auto simp: g2_def g1_def nth_list_update f less_Suc_eq sub_shape_def sub_def)
  moreover have "statics (stream_of g2 j) = (fst j, ?n, gc_bs c, gc_nb c, gc_sp c)" if "j \<in> all_streams c g2" for j
  proof -
    have "fst j < ?cur \<and> j \<in> all_streams c g \<or> fst j = ?cur \<and> snd j < gc_threads c" using that by (auto simp: g2_def less_Suc_eq)
    then show ?thesis using b(5) sinv(2) by (auto simp: sof)
  qed
  moreover have "mg_fields c g2" using b(2) cur by (simp add: mg_fields_def g2_def g1_def)
  moreover have "\<forall>b\<in>#D. fst b < (?cur + 1) * ?n" using b(7) by auto
  ultimately have bank2: "mg_bank c (all_streams c g2) (create_sketch_graph ?cur (gc_sp c) a0) ?H D g2"
    using b(1) cr(1) bi by (simp add: mg_bank_def) (simp add: g2_def)
  have "16 \<le> gc_bs c" using b(1) unfolding conf_ok_def by blast
  then have "gutters_ok c sub" by (simp add: gutters_ok_def sub_def)
  moreover have "mg_content c D sub ?cur v = image_mset (edge_id v) (R ?cur v)" if "v < ?n" for v
  proof -
    have "slot_mset D (?cur * ?n + v) = {#}" using b(7) by (induction D) auto
    then show ?thesis using that R by (simp add: mg_content_def sub_def gut_list_def)
  qed
  ultimately have "gutters_ok c (subgraphs g2 ! i) \<and> (\<forall>v<?n. mg_content c D (subgraphs g2 ! i) i v = image_mset (edge_id v) (R i v))" if "i < ?cur + 1" for i
    using that old cur by (cases "i = ?cur") (simp_all add: g2_def g1_def f)
  moreover have "cur_subgraphs g2 = ?cur + 1" by (simp add: g2_def)
  ultimately have "mg_receives c (all_streams c g2) R g2"
    unfolding mg_receives_def by (intro exI [of _ "create_sketch_graph ?cur (gc_sp c) a0"] exI [of _ ?H] exI [of _ D] conjI bank2) simp
  then show ?thesis using init by (intro exI [of _ g1]) (simp add: g2_def same_rest_def g1_def)
qed

definition grown :: "mc_gpu \<Rightarrow> mc_gpu \<Rightarrow> bool" where
  "grown g' g \<longleftrightarrow> edge_store g' = edge_store g \<and> num_subgraphs g' = num_subgraphs g \<and> default_skt_params g' = default_skt_params g"

lemma ensure_subgraph_receives:
  assumes rcv: "mg_receives c (all_streams c g) R g" and first: "first \<le> cur_subgraphs g + 1" "first \<le> gc_max c"
    and R: "\<And>i v. cur_subgraphs g \<le> i \<Longrightarrow> R i v = {#}"
  shows "\<exists>g1. ensure_subgraph mem first g = Inr g1 \<and> grown g1 g \<and> cur_subgraphs g1 = max (cur_subgraphs g) first \<and>
    mg_receives c (all_streams c g1) R g1"
proof (cases "cur_subgraphs g < first")
  case True
  then have f: "first = cur_subgraphs g + 1" using first by simp
  obtain g1 where "init_subgraph mem (cur_subgraphs g) g = Inr g1" "same_rest g1 g"
      "mg_receives c (all_streams c (g1\<lparr>cur_subgraphs := first\<rparr>)) R (g1\<lparr>cur_subgraphs := first\<rparr>)"
    using init_subgraph_receives [OF rcv, of mem] first R True unfolding f by auto
  then show ?thesis using f same_rest_fields [of g1 g] by (auto simp: ensure_subgraph_def grown_def)
qed (use rcv in \<open>auto simp: ensure_subgraph_def grown_def max_def\<close>)

section \<open>Distributing a batch\<close>

text \<open>The updates in the local buffers from \<open>k\<close> on have been counted in \<open>T\<close> and wait to be inserted.\<close>

definition waiting :: "nat \<Rightarrow> nat \<Rightarrow> nat \<Rightarrow> nat list list \<Rightarrow> nat list \<Rightarrow> received" where
  "waiting k first src bufs sizes = (\<lambda>i v. if k \<le> i \<and> i < first \<and> v = src then mset (take (sizes ! i) (bufs ! i)) else {#})"

definition local_inv :: "gpu_conf \<Rightarrow> mc_gpu \<Rightarrow> nat \<Rightarrow> nat \<Rightarrow> nat \<Rightarrow> received \<Rightarrow> local_state \<Rightarrow> bool" where
  "local_inv c g0 k first src T st \<longleftrightarrow>
     (case st of ((bufs, sizes), g) \<Rightarrow> length bufs = first \<and> length sizes = 16 \<and> (\<forall>i<first. length (bufs ! i) = 16 \<and> sizes ! i < 16) \<and>
        same_rest g g0 \<and> (\<exists>R. mg_receives c (all_streams c g0) R g \<and> T = (\<lambda>i v. R i v + waiting k first src bufs sizes i v)))"

lemma buffer_dst_inv:
  assumes inv: "local_inv c g0 0 first src T st" and first: "first \<le> 16" "first \<le> cur_subgraphs g0" and gid: "gid < first"
    and t: "t < gc_threads c" and src: "src < gc_n c"
  shows "\<exists>st'. buffer_dst env t src dst gid st = Inr st' \<and> local_inv c g0 0 first src (receive gid src [dst] T) st'"
proof -
  obtain bufs sizes g where st: "st = ((bufs, sizes), g)" by (metis prod.collapse)
  obtain R where l: "length bufs = first" "length sizes = 16" "\<forall>i<first. length (bufs ! i) = 16 \<and> sizes ! i < 16" "same_rest g g0"
      and R: "mg_receives c (all_streams c g0) R g" "T = (\<lambda>i v. R i v + waiting 0 first src bufs sizes i v)"
    using inv by (auto simp: local_inv_def st)
  let ?buf = "(bufs ! gid)[sizes ! gid := dst]" and ?k = "sizes ! gid + 1"
  have g: "gid < length bufs" "gid < length sizes" "length (bufs ! gid) = 16" "sizes ! gid < 16" using l gid first by auto
  have tk: "take ?k ?buf = take (sizes ! gid) (bufs ! gid) @ [dst]" using g by (simp add: take_Suc_conv_app_nth)
  show ?thesis
  proof (cases "16 \<le> ?k")
    case True
    then have k: "?k = 16" using g by simp
    have j: "(gid, t) \<in> all_streams c g0" using gid first t by simp
    obtain g' where g': "on_subgraph gid (batch_insert (env gid) t src ?buf 16) g = Inr g'"
        "mg_receives c (all_streams c g0) (receive gid src (take 16 ?buf) R) g'" "same_rest g' g"
      using batch_insert_receives [OF R(1) j src, of 16 ?buf "env gid"] g by auto
    have "receive gid src [dst] T = (\<lambda>i v. receive gid src (take 16 ?buf) R i v + waiting 0 first src (bufs[gid := ?buf]) (sizes[gid := 0]) i v)"
      using tk g gid unfolding k R(2) by (auto simp: fun_eq_iff receive_def waiting_def nth_list_update)
    then show ?thesis
      using g g' k l same_rest_trans [OF g'(3) l(4)]
      by (intro exI [of _ "((bufs[gid := ?buf], sizes[gid := 0]), g')"]) (auto simp: st buffer_dst_def Let_def local_inv_def nth_list_update)
  next
    case False
    have "receive gid src [dst] T = (\<lambda>i v. R i v + waiting 0 first src (bufs[gid := ?buf]) (sizes[gid := ?k]) i v)"
      using tk g gid unfolding R(2) by (auto simp: fun_eq_iff receive_def waiting_def nth_list_update)
    then show ?thesis
      using g False l R(1)
      by (intro exI [of _ "((bufs[gid := ?buf], sizes[gid := ?k]), g)"]) (auto simp: st buffer_dst_def Let_def local_inv_def nth_list_update)
  qed
qed

lemma buffer_graphs_inv:
  assumes "local_inv c g0 0 first src T st" "first \<le> 16" "first \<le> cur_subgraphs g0" "t < gc_threads c" "src < gc_n c"
    and "\<forall>gid\<in>set gids. gid < first" "distinct gids"
  shows "\<exists>st'. for_each (buffer_dst env t src dst) gids st = Inr st' \<and>
    local_inv c g0 0 first src (\<lambda>i v. if v = src \<and> i \<in> set gids then add_mset dst (T i v) else T i v) st'"
  using assms(1,6,7)
proof (induction gids arbitrary: st T)
  case (Cons gid gids)
  obtain st1 where s1: "buffer_dst env t src dst gid st = Inr st1" "local_inv c g0 0 first src (receive gid src [dst] T) st1"
    using buffer_dst_inv [OF Cons.prems(1) assms(2,3) _ assms(4,5), of gid env dst] Cons.prems(2) by auto
  have "(\<lambda>i v. if v = src \<and> i \<in> set gids then add_mset dst (receive gid src [dst] T i v) else receive gid src [dst] T i v) =
      (\<lambda>i v. if v = src \<and> i \<in> set (gid # gids) then add_mset dst (T i v) else T i v)"
    using Cons.prems(3) by (auto simp: fun_eq_iff receive_def)
  then show ?case using Cons.IH [OF s1(2)] Cons.prems(2,3) s1(1) by auto
qed auto

lemma buffer_updates_inv:
  assumes "local_inv c g0 0 first src T st" "0 < first" "first \<le> 16" "first \<le> cur_subgraphs g0" "t < gc_threads c" "src < gc_n c"
  shows "\<exists>st'. for_each (\<lambda>d. for_each (buffer_dst env t src (stu_dst d)) [lo..<min (subgraph d) (first - 1) + 1]) us st = Inr st' \<and>
    local_inv c g0 0 first src (\<lambda>i v. if v = src then T i v + mset (map stu_dst (filter (\<lambda>u. lo \<le> i \<and> i < first \<and> i \<le> subgraph u) us)) else T i v) st'"
  using assms(1)
proof (induction us arbitrary: st T)
  case Nil
  moreover have "(\<lambda>i v. if v = src then T i v else T i v) = T" by (simp add: fun_eq_iff)
  ultimately show ?case by (simp cong: if_cong)
next
  case (Cons u us)
  define gids where "gids = [lo..<min (subgraph u) (first - 1) + 1]"
  have i: "i \<in> set gids \<longleftrightarrow> lo \<le> i \<and> i < first \<and> i \<le> subgraph u" for i using assms(2) by (auto simp: gids_def)
  let ?T = "\<lambda>i v. if v = src \<and> i \<in> set gids then add_mset (stu_dst u) (T i v) else T i v"
  have "distinct gids" unfolding gids_def by (rule distinct_upt)
  then obtain st1 where s1: "for_each (buffer_dst env t src (stu_dst u)) gids st = Inr st1" "local_inv c g0 0 first src ?T st1"
    using buffer_graphs_inv [OF Cons.prems assms(3-6), of gids env "stu_dst u"] i by blast
  have "(\<lambda>i v. if v = src then ?T i v + mset (map stu_dst (filter (\<lambda>u. lo \<le> i \<and> i < first \<and> i \<le> subgraph u) us)) else ?T i v) =
      (\<lambda>i v. if v = src then T i v + mset (map stu_dst (filter (\<lambda>u. lo \<le> i \<and> i < first \<and> i \<le> subgraph u) (u # us))) else T i v)"
    unfolding i by (auto simp: fun_eq_iff)
  then show ?case using Cons.IH [OF s1(2)] s1(1) unfolding for_each.simps gids_def [symmetric] by simp
qed

lemma flush_local_inv:
  assumes inv: "local_inv c g0 k first src T st" and k: "k < first" "first \<le> 16" "first \<le> cur_subgraphs g0" "t < gc_threads c" "src < gc_n c"
  shows "\<exists>st'. flush_local env t src k st = Inr st' \<and> local_inv c g0 (k + 1) first src T st'"
proof -
  obtain bufs sizes g where st: "st = ((bufs, sizes), g)" by (metis prod.collapse)
  obtain R where l: "length bufs = first" "length sizes = 16" "\<forall>i<first. length (bufs ! i) = 16 \<and> sizes ! i < 16" "same_rest g g0"
      and R: "mg_receives c (all_streams c g0) R g" "T = (\<lambda>i v. R i v + waiting k first src bufs sizes i v)"
    using inv by (auto simp: local_inv_def st)
  have j: "(k, t) \<in> all_streams c g0" using k by simp
  obtain g' where g': "on_subgraph k (batch_insert (env k) t src (bufs ! k) (sizes ! k)) g = Inr g'"
      "mg_receives c (all_streams c g0) (receive k src (take (sizes ! k) (bufs ! k)) R) g'" "same_rest g' g"
    using batch_insert_receives [OF R(1) j k(5), of "sizes ! k" "bufs ! k" "env k"] l(3) k(1) by (auto simp: less_imp_le)
  have T: "T = (\<lambda>i v. receive k src (take (sizes ! k) (bufs ! k)) R i v + waiting (k + 1) first src bufs sizes i v)"
    using k(1) unfolding R(2) by (auto simp: fun_eq_iff receive_def waiting_def)
  show ?thesis
  proof (cases "sizes ! k = 0")
    case True
    then have "receive k src (take (sizes ! k) (bufs ! k)) R = R" by (auto simp: receive_def fun_eq_iff)
    then show ?thesis using True l k R(1) T by (auto simp: st flush_local_def local_inv_def)
  next
    case False
    then show ?thesis
      using g' l k T same_rest_trans [OF g'(3) l(4)] by (auto simp: st flush_local_def local_inv_def)
  qed
qed

lemma flush_locals_inv:
  assumes "local_inv c g0 k first src T st" "k \<le> first" "first \<le> 16" "first \<le> cur_subgraphs g0" "t < gc_threads c" "src < gc_n c"
  shows "\<exists>st'. for_each (flush_local env t src) [k..<first] st = Inr st' \<and> local_inv c g0 first first src T st'"
  using assms(1,2)
proof (induction "first - k" arbitrary: k st)
  case (Suc m)
  then have k: "k < first" "[k..<first] = k # [k + 1..<first]" by (simp_all add: upt_conv_Cons)
  obtain st1 where "flush_local env t src k st = Inr st1" "local_inv c g0 (k + 1) first src T st1"
    using flush_local_inv [OF Suc.prems(1) k(1) assms(3-6), of env] by blast
  then show ?case using Suc.hyps(1) [of "k + 1" st1] Suc.hyps(2) k by simp
qed simp

text \<open>A batch reaches the subgraphs that it belongs to.\<close>

definition receive_batch :: "TaggedUpdateBatch \<Rightarrow> received \<Rightarrow> received" where
  "receive_batch b R = (\<lambda>i v. if v = tub_src b then R i v + mset (map stu_dst (routed i b)) else R i v)"

lemma complete_receives:
  assumes rcv: "mg_receives c (all_streams c g) R g" and t: "t < gc_threads c" and src: "tub_src b < gc_n c"
    and first: "0 < first_es_subgraph b" "first_es_subgraph b \<le> cur_subgraphs g + 1" "first_es_subgraph b \<le> gc_max c" "first_es_subgraph b \<le> 16"
    and R: "\<And>i v. cur_subgraphs g \<le> i \<Longrightarrow> R i v = {#}"
  shows "\<exists>g'. complete_update_batch mem env t b g = Inr g' \<and> grown g' g \<and> cur_subgraphs g' = max (cur_subgraphs g) (first_es_subgraph b) \<and>
    mg_receives c (all_streams c g') (receive_batch b R) g'"
proof -
  let ?first = "first_es_subgraph b" and ?lo = "min_subgraph b" and ?src = "tub_src b"
  obtain g1 where g1: "ensure_subgraph mem ?first g = Inr g1" "grown g1 g" "cur_subgraphs g1 = max (cur_subgraphs g) ?first"
      "mg_receives c (all_streams c g1) R g1"
    using ensure_subgraph_receives [OF rcv first(2,3) R, of mem] by blast
  let ?st = "((replicate ?first (replicate 16 0), replicate 16 0), g1)"
  have "R = (\<lambda>i v. R i v + waiting 0 ?first ?src (replicate ?first (replicate 16 0)) (replicate 16 0) i v)"
    using first(4) by (auto simp: fun_eq_iff waiting_def)
  then have "local_inv c g1 0 ?first ?src R ?st" using g1(4) first(4) by (auto simp: local_inv_def)
  moreover have cur: "?first \<le> cur_subgraphs g1" using g1(3) by simp
  ultimately obtain st1 where s1: "for_each (\<lambda>d. for_each (buffer_dst env t ?src (stu_dst d)) [?lo..<min (subgraph d) (?first - 1) + 1]) (dsts_data b) ?st = Inr st1"
      "local_inv c g1 0 ?first ?src (receive_batch b R) st1"
    using buffer_updates_inv [of c g1 ?first ?src R ?st t env ?lo "dsts_data b"] first t src unfolding receive_batch_def routed_def by blast
  obtain st2 where s2: "for_each (flush_local env t ?src) [0..<?first] st1 = Inr st2" "local_inv c g1 ?first ?first ?src (receive_batch b R) st2"
    using flush_locals_inv [OF s1(2) _ first(4) cur t src, of env] by auto
  obtain bufs sizes g' where g': "st2 = ((bufs, sizes), g')" by (metis prod.collapse)
  have "waiting ?first ?first ?src bufs sizes = (\<lambda>_ _. {#})" by (auto simp: waiting_def fun_eq_iff)
  then have r: "same_rest g' g1" "mg_receives c (all_streams c g1) (receive_batch b R) g'"
    using s2(2) by (auto simp: g' local_inv_def)
  have "complete_update_batch mem env t b g = Inr g'"
    using g1(1) s1(1) s2(1) first(1) by (simp add: complete_update_batch_def Let_def g')
  then show ?thesis using r g1(2,3) same_rest_fields [OF r(1)] by (auto simp: grown_def)
qed

end
