(* ===== verification/CC_GPU_Sketch_Alg.thy ===== *)
theory CC_GPU_Sketch_Alg
  imports Stream_Bank CC_Sketch_Alg
begin

text \<open>
  The connected components algorithm on the GPU (include/cc_gpu_sketch_alg.h, src/cc_gpu_sketch_alg.cpp):
  each worker thread hands its batches to a stream of its own, and the streams bring the sketches of
  the batches back into the sketches of \<open>CCSketchAlg\<close>. Managed memory (UVM mode) is shared by the
  streams: \<open>on_stream\<close> gives a stream the current contents and takes them back. Each member function of
  a stream runs as one step; the steps of different threads come in any order.
\<close>

record cc_gpu =
  gpu_cc :: "64 word CC"
  cudaStreams :: "cuda_stream list"
  managed_buckets :: "64 word Bucket list"
  gpu_host_threads :: nat
  small_batch_size :: nat

definition gpu_num_device_threads :: nat where
  "gpu_num_device_threads = 1024"

definition small_batch_perc :: real where
  "small_batch_perc = 0"

definition CCGPUSketchAlg_new :: "(nat \<Rightarrow> stream_junk) \<Rightarrow> nat list \<Rightarrow> nat \<Rightarrow> nat \<Rightarrow> nat \<Rightarrow> SketchParams \<Rightarrow>
    64 word Bucket list \<Rightarrow> CCAlgConfiguration \<Rightarrow> cc_gpu" where
  "CCGPUSketchAlg_new junk prio n num_threads nbatch sp managed conf =
     (let cc = CCSketchAlg_new_uvm prio n (cudaUVM_enabled sp) (skp_seed sp) conf;
          batch_size = get_desired_updates_per_batch cc
      in \<lparr>gpu_cc = cc,
          cudaStreams = map (\<lambda>thr_id. CudaStream_new (junk thr_id) batch_size 0 n gpu_num_device_threads nbatch sp managed) [0..<num_threads],
          managed_buckets = managed, gpu_host_threads = num_threads,
          small_batch_size = nat \<lfloor>real batch_size * small_batch_perc\<rfloor>\<rparr>)"

definition cc_raw :: "nat \<Rightarrow> 64 word Bucket list \<Rightarrow> 64 word CC \<Rightarrow> error + 64 word CC" where
  "cc_raw v bs cc = (if v < length (sketches cc) then Inr (apply_raw_buckets_update v bs cc) else Inl Undefined)"

text \<open>A step of one stream.\<close>

definition on_stream :: "nat \<Rightarrow> (64 word CC \<times> cuda_stream \<Rightarrow> error + 64 word CC \<times> cuda_stream) \<Rightarrow> cc_gpu \<Rightarrow> error + cc_gpu" where
  "on_stream thr_id f g =
     (if thr_id < length (cudaStreams g) then
        case f (gpu_cc g, (cudaStreams g ! thr_id)\<lparr>uvm_buckets := managed_buckets g\<rparr>) of
          Inl e \<Rightarrow> Inl e
        | Inr (cc, s) \<Rightarrow> Inr (g\<lparr>gpu_cc := cc, cudaStreams := (cudaStreams g)[thr_id := s], managed_buckets := uvm_buckets s\<rparr>)
      else Inl Undefined)"

definition gpu_apply_update_batch :: "xxh \<Rightarrow> launch_env \<Rightarrow> nat \<Rightarrow> nat \<Rightarrow> nat list \<Rightarrow> cc_gpu \<Rightarrow> error + cc_gpu" where
  "gpu_apply_update_batch xxh env thr_id src_vertex dst_vertices g =
     (if update_locked (gpu_cc g) then Inl UpdateLockedException
      else if length dst_vertices \<le> small_batch_size g then
        case apply_update_batch xxh thr_id src_vertex dst_vertices (gpu_cc g) of
          Inl e \<Rightarrow> Inl e
        | Inr cc \<Rightarrow> Inr (g\<lparr>gpu_cc := cc\<rparr>)
      else on_stream thr_id (process_batch cc_raw env src_vertex dst_vertices) g)"

text \<open>The device makes progress on the operations of a stream.\<close>

definition gpu_progress :: "nat \<Rightarrow> nat \<Rightarrow> cc_gpu \<Rightarrow> error + cc_gpu" where
  "gpu_progress thr_id k = on_stream thr_id (\<lambda>(cc, s). case stream_advance k s of Inl e \<Rightarrow> Inl e | Inr s \<Rightarrow> Inr (cc, s))"

text \<open>\<^verbatim>\<open>flush_buffers\<close>: the threads flush their streams, in the order \<open>ord\<close>; then all streams are waited for.\<close>

fun flush_streams :: "launch_env \<Rightarrow> nat list \<Rightarrow> cc_gpu \<Rightarrow> error + cc_gpu" where
  "flush_streams env [] g = Inr g"
| "flush_streams env (t # ts) g =
     (case on_stream t (flush_buffers cc_raw env) g of Inl e \<Rightarrow> Inl e | Inr g \<Rightarrow> flush_streams env ts g)"

fun sync_streams :: "nat list \<Rightarrow> cc_gpu \<Rightarrow> error + cc_gpu" where
  "sync_streams [] g = Inr g"
| "sync_streams (t # ts) g =
     (case on_stream t (\<lambda>(cc, s). case stream_sync s of Inl e \<Rightarrow> Inl e | Inr s \<Rightarrow> Inr (cc, s)) g of
        Inl e \<Rightarrow> Inl e | Inr g \<Rightarrow> sync_streams ts g)"

definition gpu_flush_buffers :: "launch_env \<Rightarrow> nat list \<Rightarrow> cc_gpu \<Rightarrow> error + cc_gpu" where
  "gpu_flush_buffers env ord g =
     (if mset ord = mset [0..<gpu_host_threads g] then
        case flush_streams env ord g of Inl e \<Rightarrow> Inl e | Inr g \<Rightarrow> sync_streams [0..<gpu_host_threads g] g
      else Inl Undefined)"

section \<open>The sketches as target of the streams\<close>

definition cc_add :: "(nat \<times> vec_t list) list \<Rightarrow> 64 word CC \<Rightarrow> 64 word CC" where
  "cc_add bt cc = cc\<lparr>sketches := map (\<lambda>i. add_ids (slot_ids bt i) (sketches cc ! i)) [0..<length (sketches cc)]\<rparr>"

definition cc_ok :: "64 word Sketch \<Rightarrow> nat \<Rightarrow> 64 word CC \<Rightarrow> bool" where
  "cc_ok sk n cc \<longleftrightarrow> sketches_shape sk n (sketches cc) \<and> (\<exists>sp. params_match sp sk)"

interpretation ccb: raw_target cc_raw sk "cc_ok sk n" "\<lambda>cc i. i < length (sketches cc)" cc_add for sk n
proof
  fix a :: "64 word CC" and i src dsts assume "cc_ok sk n a" "i < length (sketches a)"
  moreover have "(sketches a)[i := x] = map (\<lambda>v. if v = i then x else sketches a ! v) [0..<length (sketches a)]" for x
    by (rule nth_equalityI) (auto simp: nth_list_update)
  ultimately show "cc_raw i (delta_buckets sk src dsts) a = Inr (cc_add [(i, map (edge_id src) dsts)] a)"
    using merge_raw_delta [of _ sk "sketches a ! i"]
    by (auto simp: cc_raw_def apply_raw_buckets_update_def cc_add_def cc_ok_def sketches_shape_def)
next
  fix a :: "64 word CC" and bt :: "(nat \<times> vec_t list) list" assume "cc_ok sk n a"
  then show "cc_ok sk n (cc_add bt a)"
    by (auto simp: cc_ok_def sketches_shape_def cc_add_def intro: cameo.upds_wf same_shape_trans [OF cameo.upds_shape])
next
  fix a :: "64 word CC" and bt bt' :: "(nat \<times> vec_t list) list" assume "cc_ok sk n a" and m: "mset bt = mset bt'"
  then have "add_ids (slot_ids bt i) (sketches a ! i) = add_ids (slot_ids bt' i) (sketches a ! i)" if "i < length (sketches a)" for i
    using that by (intro add_ids_mset mset_slot_ids [OF m]) (simp add: cc_ok_def sketches_shape_def)
  then show "cc_add bt a = cc_add bt' a" by (simp add: cc_add_def)
qed (simp_all add: cc_add_def map_nth)

section \<open>Runs\<close>

datatype gpu_event = GBatch launch_env nat nat "nat list" | GProgress nat nat

fun gpu_step :: "xxh \<Rightarrow> gpu_event \<Rightarrow> cc_gpu \<Rightarrow> error + cc_gpu" where
  "gpu_step xxh (GBatch env thr_id src dsts) g = gpu_apply_update_batch xxh env thr_id src dsts g"
| "gpu_step xxh (GProgress thr_id k) g = gpu_progress thr_id k g"

fun gpu_run :: "xxh \<Rightarrow> gpu_event list \<Rightarrow> cc_gpu \<Rightarrow> error + cc_gpu" where
  "gpu_run xxh [] g = Inr g"
| "gpu_run xxh (e # es) g = (case gpu_step xxh e g of Inl err \<Rightarrow> Inl err | Inr g \<Rightarrow> gpu_run xxh es g)"

fun event_ok :: "nat \<Rightarrow> nat \<Rightarrow> nat \<Rightarrow> gpu_event \<Rightarrow> bool" where
  "event_ok threads n bs (GBatch env t src dsts) \<longleftrightarrow> t < threads \<and> src < n \<and> dsts \<noteq> [] \<and> length dsts \<le> bs"
| "event_ok threads n bs (GProgress t k) \<longleftrightarrow> t < threads"

fun thread_batches :: "nat \<Rightarrow> gpu_event list \<Rightarrow> (nat \<times> nat list) list" where
  "thread_batches t [] = []"
| "thread_batches t (GBatch env t' src dsts # es) = (if t' = t then (src, dsts) # thread_batches t es else thread_batches t es)"
| "thread_batches t (GProgress t' k # es) = thread_batches t es"

fun gpu_batches :: "gpu_event list \<Rightarrow> (nat \<times> nat list) list" where
  "gpu_batches [] = []"
| "gpu_batches (GBatch env t src dsts # es) = (src, dsts) # gpu_batches es"
| "gpu_batches (GProgress t k # es) = gpu_batches es"

lemma thread_batches_append: "thread_batches t (es @ es') = thread_batches t es @ thread_batches t es'"
  by (induction t es rule: thread_batches.induct) simp_all

lemma gpu_batches_append: "gpu_batches (es @ es') = gpu_batches es @ gpu_batches es'"
  by (induction es rule: gpu_batches.induct) simp_all

lemma slot_ids_vertex: "slot_ids (map (batch_ids 0) bt) v = vertex_ids bt v"
  by (induction bt) (auto simp: batch_ids_def)

text \<open>The state of a run: the streams of the threads are a bank on the sketches.\<close>

definition gpu_inv :: "64 word Sketch \<Rightarrow> nat \<Rightarrow> nat \<Rightarrow> nat \<Rightarrow> nat \<Rightarrow> 64 word CC \<Rightarrow> gpu_event list \<Rightarrow> cc_gpu \<Rightarrow> bool" where
  "gpu_inv sk n bs N threads cc0 es g \<longleftrightarrow> small_batch_size g = 0 \<and> length (cudaStreams g) = threads \<and> gpu_host_threads g = threads \<and>
     (\<forall>t<threads. \<exists>sp. statics (cudaStreams g ! t) = (0, n, bs, N, sp)) \<and> \<not> update_locked (gpu_cc g) \<and> length (sketches cc0) = n \<and>
     ccb.bank_inv sk n cc0 {..<threads} (\<lambda>t. cudaStreams g ! t) (gpu_cc g) (\<lambda>t. thread_batches t es) (mset (map (batch_ids 0) (gpu_batches es)))"

lemma bank_unlocked:
  assumes "ccb.bank_inv sk n cc0 J ss cc H D" "ccb.bank_inv sk n cc0 J' ss' cc' H' D'"
  shows "update_locked cc' = update_locked cc"
  using assms by (auto simp: ccb.bank_inv_def cc_add_def)

lemma gpu_step_inv:
  assumes inv: "gpu_inv sk n bs N threads cc0 es g" and ok: "event_ok threads n bs e" and n: "n \<le> 2 ^ 32"
  shows "\<exists>g'. gpu_step xxh e g = Inr g' \<and> gpu_inv sk n bs N threads cc0 (es @ [e]) g'"
proof -
  have g: "small_batch_size g = 0" "length (cudaStreams g) = threads" "gpu_host_threads g = threads" "\<not> update_locked (gpu_cc g)"
    and st: "\<forall>t<threads. \<exists>sp. statics (cudaStreams g ! t) = (0, n, bs, N, sp)" and n0: "length (sketches cc0) = n"
    and bank: "ccb.bank_inv sk n cc0 {..<threads} (\<lambda>t. cudaStreams g ! t) (gpu_cc g) (\<lambda>t. thread_batches t es) (mset (map (batch_ids 0) (gpu_batches es)))"
    using inv by (simp_all add: gpu_inv_def)
  have step: "gpu_inv sk n bs N threads cc0 (es @ [e]) (g\<lparr>gpu_cc := cc', cudaStreams := (cudaStreams g)[t := s'], managed_buckets := m\<rparr>)"
    if "t < threads" "statics s' = statics (cudaStreams g ! t)"
      "ccb.bank_inv sk n cc0 {..<threads} ((\<lambda>t. cudaStreams g ! t)(t := s')) cc' H (mset (map (batch_ids 0) (gpu_batches (es @ [e]))))"
      "\<And>u. H u = thread_batches u (es @ [e])" for t s' cc' H m
    using that g st n0 bank_unlocked [OF bank that(3)]
    by (auto simp: gpu_inv_def nth_list_update intro: ccb.bank_inv_cong)
  show ?thesis
  proof (cases e)
    case (GProgress t k)
    have t: "t \<in> {..<threads}" using ok by (simp add: GProgress)
    obtain s' where s': "stream_advance k ((cudaStreams g ! t)\<lparr>uvm_buckets := managed_buckets g\<rparr>) = Inr s'" "statics s' = statics (cudaStreams g ! t)"
      "ccb.bank_inv sk n cc0 {..<threads} ((\<lambda>t. cudaStreams g ! t)(t := s')) (gpu_cc g) (\<lambda>t. thread_batches t es) (mset (map (batch_ids 0) (gpu_batches es)))"
      using ccb.bank_progress [OF bank t] by blast
    have "gpu_step xxh e g = Inr (g\<lparr>gpu_cc := gpu_cc g, cudaStreams := (cudaStreams g)[t := s'], managed_buckets := uvm_buckets s'\<rparr>)"
      using t g(2) s'(1) by (simp add: GProgress gpu_progress_def on_stream_def)
    moreover have "gpu_inv sk n bs N threads cc0 (es @ [e]) (g\<lparr>gpu_cc := gpu_cc g, cudaStreams := (cudaStreams g)[t := s'], managed_buckets := uvm_buckets s'\<rparr>)"
      by (rule step [OF _ s'(2)]) (use s'(3) t in \<open>simp_all add: GProgress thread_batches_append gpu_batches_append\<close>)
    ultimately show ?thesis by blast
  next
    case (GBatch env t src dsts)
    have t: "t \<in> {..<threads}" and d: "dsts \<noteq> []" "length dsts \<le> bs" "src < n" using ok by (simp_all add: GBatch)
    have f: "stream_first (cudaStreams g ! t) = 0" "cs_batch_size (cudaStreams g ! t) = bs"
      using st t by (auto simp: stream_first_def statics_def)
    have "ccb.reach cc0 0 {(src, dsts)}" using d(3) n n0 by (simp add: ccb.reach_def)
    then obtain cc' s' where s': "process_batch cc_raw env src dsts (gpu_cc g, (cudaStreams g ! t)\<lparr>uvm_buckets := managed_buckets g\<rparr>) = Inr (cc', s')"
      "statics s' = statics (cudaStreams g ! t)"
      "ccb.bank_inv sk n cc0 {..<threads} ((\<lambda>t. cudaStreams g ! t)(t := s')) cc' ((\<lambda>t. thread_batches t es)(t := thread_batches t es @ [(src, dsts)]))
         (mset (map (batch_ids 0) (gpu_batches es)) + {#batch_ids 0 (src, dsts)#})"
      using ccb.bank_process [OF bank t, of dsts src env "managed_buckets g"] d(2) f by auto
    have "gpu_step xxh e g = Inr (g\<lparr>gpu_cc := cc', cudaStreams := (cudaStreams g)[t := s'], managed_buckets := uvm_buckets s'\<rparr>)"
      using t g d(1) s'(1) by (simp add: GBatch gpu_apply_update_batch_def on_stream_def)
    moreover have "gpu_inv sk n bs N threads cc0 (es @ [e]) (g\<lparr>gpu_cc := cc', cudaStreams := (cudaStreams g)[t := s'], managed_buckets := uvm_buckets s'\<rparr>)"
      by (rule step [OF _ s'(2), where H = "(\<lambda>t. thread_batches t es)(t := thread_batches t es @ [(src, dsts)])"])
        (use s'(3) t in \<open>simp_all add: GBatch thread_batches_append gpu_batches_append\<close>)
    ultimately show ?thesis by blast
  qed
qed

lemma gpu_run_inv:
  assumes "gpu_inv sk n bs N threads cc0 es0 g" "list_all (event_ok threads n bs) es" "n \<le> 2 ^ 32"
  shows "\<exists>g'. gpu_run xxh es g = Inr g' \<and> gpu_inv sk n bs N threads cc0 (es0 @ es) g'"
  using assms
proof (induction es arbitrary: es0 g)
  case (Cons e es)
  obtain g1 where g1: "gpu_step xxh e g = Inr g1" "gpu_inv sk n bs N threads cc0 (es0 @ [e]) g1"
    using gpu_step_inv [OF Cons.prems(1) _ Cons.prems(3), of e xxh] Cons.prems(2) by auto
  then show ?case using Cons.IH [OF g1(2)] Cons.prems(2,3) by simp
qed auto

text \<open>Flushing the streams in any order.\<close>

lemma flush_streams_inv:
  assumes "distinct ts" "set ts \<subseteq> {..<length (cudaStreams g)}"
    and "ccb.bank_inv sk n cc0 (set ts) (\<lambda>t. cudaStreams g ! t) (gpu_cc g) H D" "\<forall>t\<in>set ts. \<not> first_buffer (cudaStreams g ! t)"
    and "\<forall>t<length (cudaStreams g). t \<notin> set ts \<longrightarrow> pending (cudaStreams g ! t) = []"
  shows "\<exists>g' ss. flush_streams env ts g = Inr g' \<and> ccb.bank_inv sk n cc0 {} ss (gpu_cc g') H D \<and>
    length (cudaStreams g') = length (cudaStreams g) \<and> gpu_host_threads g' = gpu_host_threads g \<and>
    (\<forall>t<length (cudaStreams g). pending (cudaStreams g' ! t) = [])"
  using assms
proof (induction ts arbitrary: g)
  case (Cons t ts)
  have t: "t < length (cudaStreams g)" "t \<notin> set ts" using Cons.prems(1,2) by auto
  obtain cc' s' where s': "flush_buffers cc_raw env (gpu_cc g, (cudaStreams g ! t)\<lparr>uvm_buckets := managed_buckets g\<rparr>) = Inr (cc', s')" "pending s' = []"
    "ccb.bank_inv sk n cc0 (set (t # ts) - {t}) (\<lambda>t. cudaStreams g ! t) cc' H D"
    using ccb.bank_flush [OF Cons.prems(3), of t env "managed_buckets g"] Cons.prems(4) by auto
  let ?g = "g\<lparr>gpu_cc := cc', cudaStreams := (cudaStreams g)[t := s'], managed_buckets := uvm_buckets s'\<rparr>"
  have "on_stream t (flush_buffers cc_raw env) g = Inr ?g" using t s'(1) by (simp add: on_stream_def)
  moreover have "\<exists>g' ss. flush_streams env ts ?g = Inr g' \<and> ccb.bank_inv sk n cc0 {} ss (gpu_cc g') H D \<and>
      length (cudaStreams g') = length (cudaStreams ?g) \<and> gpu_host_threads g' = gpu_host_threads ?g \<and>
      (\<forall>t<length (cudaStreams ?g). pending (cudaStreams g' ! t) = [])"
  proof (rule Cons.IH)
    have "set (t # ts) - {t} = set ts" using t(2) by auto
    then have "ccb.bank_inv sk n cc0 (set ts) (\<lambda>t. cudaStreams g ! t) cc' H D" using s'(3) by simp
    moreover have "cudaStreams ?g ! u = cudaStreams g ! u" if "u \<in> set ts" for u
      using that t(2) by (cases "u = t") simp_all
    ultimately have "ccb.bank_inv sk n cc0 (set ts) (\<lambda>u. cudaStreams ?g ! u) cc' H D" by (rule ccb.bank_inv_cong) auto
    then show "ccb.bank_inv sk n cc0 (set ts) (\<lambda>u. cudaStreams ?g ! u) (gpu_cc ?g) H D" by simp
    show "\<forall>u\<in>set ts. \<not> first_buffer (cudaStreams ?g ! u)" "\<forall>u<length (cudaStreams ?g). u \<notin> set ts \<longrightarrow> pending (cudaStreams ?g ! u) = []"
      using Cons.prems(4,5) t s'(2) by (auto simp: nth_list_update)
  qed (use Cons.prems in auto)
  ultimately show ?case by simp
qed auto

lemma sync_streams_idle:
  assumes "\<forall>t\<in>set ts. t < length (cudaStreams g)" "\<forall>t<length (cudaStreams g). pending (cudaStreams g ! t) = []"
  shows "\<exists>g'. sync_streams ts g = Inr g' \<and> gpu_cc g' = gpu_cc g"
  using assms
proof (induction ts arbitrary: g)
  case (Cons t ts)
  let ?g = "g\<lparr>cudaStreams := (cudaStreams g)[t := (cudaStreams g ! t)\<lparr>uvm_buckets := managed_buckets g, pending := []\<rparr>]\<rparr>"
  have "on_stream t (\<lambda>(cc, s). case stream_sync s of Inl e \<Rightarrow> Inl e | Inr s \<Rightarrow> Inr (cc, s)) g = Inr ?g"
    using Cons.prems by (simp add: on_stream_def stream_sync_def)
  moreover have "\<exists>g'. sync_streams ts ?g = Inr g' \<and> gpu_cc g' = gpu_cc ?g"
    using Cons.prems by (intro Cons.IH) (auto simp: nth_list_update)
  ultimately show ?case by auto
qed simp

lemma gpu_flush_inv:
  assumes inv: "gpu_inv sk n bs N threads cc0 es g"
    and filled: "\<forall>t<threads. N \<le> length (thread_batches t es)" and ord: "mset ord = mset [0..<threads]"
  shows "\<exists>g'. gpu_flush_buffers env ord g = Inr g' \<and> gpu_cc g' = cc_add (map (batch_ids 0) (gpu_batches es)) cc0"
proof -
  have g: "length (cudaStreams g) = threads" "gpu_host_threads g = threads"
    and st: "\<forall>t<threads. \<exists>sp. statics (cudaStreams g ! t) = (0, n, bs, N, sp)"
    and bank: "ccb.bank_inv sk n cc0 {..<threads} (\<lambda>t. cudaStreams g ! t) (gpu_cc g) (\<lambda>t. thread_batches t es) (mset (map (batch_ids 0) (gpu_batches es)))"
    using inv by (simp_all add: gpu_inv_def)
  have d: "distinct ord" "set ord = {..<threads}" using ord by (metis distinct_upt mset_eq_imp_distinct_iff, metis atLeast_upt mset_eq_setD)
  have "\<not> first_buffer (cudaStreams g ! t)" if "t < threads" for t
    using ccb.bank_launched [OF bank, of t] that filled st by (auto simp: statics_def)
  then obtain g1 ss where g1: "flush_streams env ord g = Inr g1" "ccb.bank_inv sk n cc0 {} ss (gpu_cc g1) (\<lambda>t. thread_batches t es) (mset (map (batch_ids 0) (gpu_batches es)))"
    "length (cudaStreams g1) = threads" "gpu_host_threads g1 = threads" "\<forall>t<threads. pending (cudaStreams g1 ! t) = []"
    using flush_streams_inv [OF d(1), of g sk n cc0 "\<lambda>t. thread_batches t es" "mset (map (batch_ids 0) (gpu_batches es))" env] bank d(2) g by auto
  obtain g2 where g2: "sync_streams [0..<threads] g1 = Inr g2" "gpu_cc g2 = gpu_cc g1"
    using sync_streams_idle [of "[0..<threads]" g1] g1(3,5) by auto
  show ?thesis using g1(1,4) g2 ord g(2) ccb.bank_done [OF g1(2) refl] by (simp add: gpu_flush_buffers_def)
qed

section \<open>The algorithm\<close>

lemma CCGPU_new_ok:
  assumes "n \<le> 2 ^ 31" "g = CCGPUSketchAlg_new junk prio n threads N sp managed conf" "\<not> cudaUVM_enabled sp"
    "params_match sp (new_sketch n (skp_seed sp) (cfg_sketches_factor conf))"
  shows "cc_ok (new_sketch n (skp_seed sp) (cfg_sketches_factor conf)) n (gpu_cc g)" "\<not> update_locked (gpu_cc g)" "small_batch_size g = 0"
    "gpu_host_threads g = threads" "sketches (gpu_cc g) = replicate n (new_sketch n (skp_seed sp) (cfg_sketches_factor conf))"
    "cudaStreams g = map (\<lambda>t. CudaStream_new (junk t) (get_desired_updates_per_batch (gpu_cc g)) 0 n gpu_num_device_threads N sp managed) [0..<threads]"
proof -
  have "calc_vector_length n \<le> 2 ^ 62" by (rule calc_vector_length_le) (use assms(1) in simp)
  then have "sketch_wf (new_sketch n (skp_seed sp) (cfg_sketches_factor conf) :: 64 word Sketch)" by (simp add: new_sketch_def Sketch_new_wf)
  then show "cc_ok (new_sketch n (skp_seed sp) (cfg_sketches_factor conf)) n (gpu_cc g)"
    using assms(3,4) by (auto simp: assms(2) cc_ok_def sketches_shape_def CCGPUSketchAlg_new_def CCSketchAlg_new_uvm_def Let_def new_sketch_def)
  show "\<not> update_locked (gpu_cc g)" "small_batch_size g = 0" "gpu_host_threads g = threads"
    "sketches (gpu_cc g) = replicate n (new_sketch n (skp_seed sp) (cfg_sketches_factor conf))"
    "cudaStreams g = map (\<lambda>t. CudaStream_new (junk t) (get_desired_updates_per_batch (gpu_cc g)) 0 n gpu_num_device_threads N sp managed) [0..<threads]"
    using assms(3) by (simp_all add: assms(2) CCGPUSketchAlg_new_def CCSketchAlg_new_uvm_def Let_def new_sketch_def small_batch_perc_def map_replicate_const)
qed


definition gpu_example_params :: SketchParams where
  "gpu_example_params = \<lparr>skp_num_samples = 18, skp_num_buckets = 19, skp_num_columns = 18, skp_bkt_per_col = 1, skp_seed = 7, cudaUVM_enabled = False\<rparr>"

definition gpu_example :: cc_gpu where
  "gpu_example = CCGPUSketchAlg_new (\<lambda>t. example_junk) [3, 4] 2 1 1 gpu_example_params [] CCAlgConfiguration_new"

definition gpu_example_events :: "gpu_event list" where
  "gpu_example_events = [GBatch example_env 0 0 [1], GProgress 0 2, GBatch example_env 0 1 [0]]"

lemma new_sketch_two: "new_sketch 2 seed 1 = (\<lparr>sketch_seed = seed, num_samples = 18, cols_per_sample = 1, num_columns = 18, bkt_per_col = 1,
    num_buckets = 19, sample_idx = 0, buckets = replicate 19 zero_bucket, is_cuda_bucket = False\<rparr> :: 64 word Sketch)"
proof -
  have "calc_vector_length 2 = 1" by (simp add: calc_vector_length_exact)
  moreover have "calc_bkt_per_col 1 = 1" by (simp add: calc_bkt_per_col_def Let_def)
  moreover have "log 2 2 / num_samples_div \<le> 2" by (simp add: num_samples_div_def)
  then have "calc_cc_samples 2 1 = 18" unfolding calc_cc_samples_def by (simp add: max_def) linarith?
  moreover have "zero_bucket # replicate 18 zero_bucket = replicate 19 (zero_bucket :: 64 word Bucket)" by (simp add: numeral_eq_Suc)
  ultimately show ?thesis by (simp add: new_sketch_def Sketch_new_def Let_def default_cols_per_sample_def)
qed


end
