(* ===== verification/MC_GPU_Correctness.thy ===== *)
theory MC_GPU_Correctness
  imports MC_GPU_Delivery CC_GPU_Sketch_Alg
begin

text \<open>
  Whole runs of the GPU algorithm for minimum cuts: the accounts of the edge store say which updates each
  subgraph has to receive, and after a flush the sketches of every subgraph hold exactly the edges that
  belong to it, the edge store the rest.
\<close>

section \<open>What the edge store keeps\<close>

definition es_params :: "EdgeStore \<Rightarrow> seed_t \<times> nat" where
  "es_params s = (es_seed s, es_num_subgraphs s)"

lemma es_params_contract: "vertex_contract v s = (ret, s') \<Longrightarrow> es_params s' = es_params s"
  by (auto simp: vertex_contract_def es_params_def Let_def split: if_splits prod.splits)

lemma es_params_search: "advance_search s = (r, s') \<Longrightarrow> es_params s' = es_params s"
proof (induction s arbitrary: r s' rule: advance_search.induct)
  case (1 s)
  obtain x s1 where c: "advance_claim s = (x, s1)" by fastforce
  then have p: "es_params s1 = es_params s" by (auto simp: advance_claim_def es_params_def Let_def split: if_splits)
  show ?case
  proof (cases "x = Inl True")
    case True
    then have "advance_search s1 = (r, s')" using 1(2) c by (subst (asm) advance_search.simps) simp
    then show ?thesis using 1(1) [OF c [symmetric], of True] True p by simp
  next
    case False
    then show ?thesis using 1(2) c p by (subst (asm) advance_search.simps) (auto split: sum.splits bool.splits)
  qed
qed

lemma es_params_advance:
  assumes "vertex_advance_subgraph k s = (b, s')"
  shows "es_params s' = es_params s"
proof -
  obtain r s1 where a: "advance_search s = (r, s1)" by fastforce
  then show ?thesis
    using assms es_params_search [OF a] es_params_contract [of _ s1]
    by (auto simp: vertex_advance_subgraph_def split: option.splits prod.splits)
qed

lemma es_params_insert:
  assumes "insert_adj_edges src k us s = Inr (b, s')"
  shows "es_params s' = es_params s"
proof (cases "us = []")
  case False
  then obtain ret l s1 where i: "insert_locked src k (sort us) s = Inr (ret, l, s1)"
    using assms by (auto simp: insert_adj_edges_def split: if_splits sum.splits)
  obtain ret0 s0 where c: "(if true_min_subgraph s < cur_subgraph s \<and> \<not> vertex_contracted s ! src then vertex_contract src s else ([], s)) = (ret0, s0)"
    by fastforce
  then have "es_params s0 = es_params s" using es_params_contract [of src s ret0 s0] by (auto split: if_splits)
  moreover have "es_params s1 = es_params s0"
    using i c by (auto simp: insert_locked_def es_params_def Let_def split: sum.splits prod.splits)
  ultimately have s1: "es_params s1 = es_params s" by simp
  show ?thesis
    using assms False i s1 es_params_advance [of _ s1 b s']
    by (auto simp: insert_adj_edges_def check_if_too_big_def es_params_def split: if_splits)
qed (use assms in \<open>simp add: insert_adj_edges_def\<close>)

section \<open>Tags\<close>

text \<open>The edge store caps the depth of an edge at the number of subgraphs, the algorithm one below it; both agree on
  which subgraphs an edge belongs to.\<close>

lemma le_depth:
  assumes "m < 64"
  shows "k \<le> get_index_depth xxh x s m \<longleftrightarrow> k \<le> m \<and> (\<forall>i<k. \<not> bit (xxh x s) i)"
proof -
  define d where "d = get_index_depth xxh x s m"
  have d: "d = (LEAST k. k = m \<or> bit (xxh x s) k)" unfolding d_def by (rule get_index_depth_alt [OF assms])
  have at: "d = m \<or> bit (xxh x s) d" unfolding d by (rule LeastI [of _ m]) simp
  have le: "d \<le> m" unfolding d by (rule Least_le) simp
  have below: "\<not> bit (xxh x s) i" if "i < d" for i
    using not_less_Least [of i "\<lambda>k. k = m \<or> bit (xxh x s) k"] that unfolding d by blast
  have "k \<le> d" if "k \<le> m" "\<forall>i<k. \<not> bit (xxh x s) i" using at that by (cases "d < k") auto
  then show ?thesis unfolding d_def [symmetric] using le below by (auto dest: order.trans less_le_trans)
qed

definition edge_depth :: "xxh \<Rightarrow> seed_t \<Rightarrow> nat \<Rightarrow> vec_t \<Rightarrow> nat" where
  "edge_depth xxh seed subs x = get_index_depth xxh x seed (subs - 1)"

definition tags_ok :: "xxh \<Rightarrow> seed_t \<Rightarrow> nat \<Rightarrow> nat \<Rightarrow> SubgraphTaggedUpdate list \<Rightarrow> bool" where
  "tags_ok xxh seed subs v us \<longleftrightarrow> (\<forall>u\<in>set us. \<forall>i < subs. i \<le> subgraph u \<longleftrightarrow> i \<le> edge_depth xxh seed subs (edge_id v (stu_dst u)))"

lemma tag_updates_ok:
  assumes "0 < subs" "subs < 64" "m = subs \<or> m = subs - 1"
  shows "tags_ok xxh seed subs v (map (tag_update xxh seed m v) dsts)"
proof -
  have m: "m < 64" "subs - 1 < 64" using assms by auto
  have "i \<le> get_index_depth xxh x seed m \<longleftrightarrow> i \<le> get_index_depth xxh x seed (subs - 1)" if "i < subs" for i x
    unfolding le_depth [OF m(1)] le_depth [OF m(2)] using that assms(3) by auto
  then show ?thesis by (auto simp: tags_ok_def tag_update_def edge_depth_def)
qed

lemma odd_set_map_empty: "odd_set xs = {} \<Longrightarrow> odd_set (map f xs) = {}"
proof (induction xs rule: length_induct)
  case (1 xs)
  show ?case
  proof (cases xs)
    case (Cons x ys)
    then have "x \<in> odd_set ys" using 1(2) by (auto simp: odd_set_Cons)
    then have "count_list ys x \<noteq> 0" by (simp add: odd_set_def odd_pos)
    then have "x \<in> set ys" using count_notin by metis
    then obtain a b where ys: "ys = a @ x # b" by (metis split_list)
    have "odd_set (a @ b) = odd_set xs" unfolding Cons ys by (auto simp: odd_set_Cons odd_set_append)
    then have "odd_set (map f (a @ b)) = {}" using 1(1) [rule_format, of "a @ b"] 1(2) by (simp add: Cons ys)
    moreover have "odd_set (map f xs) = odd_set (map f (a @ b))" unfolding Cons ys by (auto simp: odd_set_Cons odd_set_append)
    ultimately show ?thesis by simp
  qed simp
qed

lemma odd_set_map_cong:
  assumes "odd_set xs = odd_set ys"
  shows "odd_set (map f xs) = odd_set (map f ys)"
proof -
  have "odd_set (map f (xs @ ys)) = {}" by (rule odd_set_map_empty) (use assms in \<open>auto simp: odd_set_append\<close>)
  then show ?thesis by (auto simp: odd_set_append)
qed

lemma odd_ids:
  assumes "tags_ok xxh seed subs v us" "i < subs" "odd_set xs = {u \<in> odd_set us. i \<le> subgraph u}"
  shows "odd_set (map (\<lambda>u. edge_id v (stu_dst u)) xs) =
    {x \<in> odd_set (map (\<lambda>u. edge_id v (stu_dst u)) us). i \<le> edge_depth xxh seed subs x}"
proof -
  have "odd_set (map (\<lambda>u. edge_id v (stu_dst u)) xs) = odd_set (map (\<lambda>u. edge_id v (stu_dst u)) (filter (\<lambda>u. i \<le> subgraph u) us))"
    by (rule odd_set_map_cong) (simp add: assms(3) odd_set_filter)
  also have "map (\<lambda>u. edge_id v (stu_dst u)) (filter (\<lambda>u. i \<le> subgraph u) us) =
      filter (\<lambda>x. i \<le> edge_depth xxh seed subs x) (map (\<lambda>u. edge_id v (stu_dst u)) us)"
    using assms(1,2) by (induction us) (auto simp: tags_ok_def)
  finally show ?thesis by (simp add: odd_set_filter)
qed

section \<open>Updates\<close>

abbreviation rcv_dsts :: "receipts \<Rightarrow> received" where
  "rcv_dsts rcv \<equiv> \<lambda>i v. mset (map stu_dst (rcv i v))"

lemma receive_deliver: "receive_batch b (rcv_dsts rcv) = rcv_dsts (deliver b rcv)"
  by (auto simp: receive_batch_def deliver_def fun_eq_iff)

definition mg_state :: "gpu_conf \<Rightarrow> nat \<Rightarrow> receipts \<Rightarrow> (nat \<Rightarrow> SubgraphTaggedUpdate list) \<Rightarrow> mc_gpu \<Rightarrow> bool" where
  "mg_state c subs rcv hist g \<longleftrightarrow> mg_receives c (all_streams c g) (rcv_dsts rcv) g \<and> num_subgraphs g = subs \<and>
     es_inv (edge_store g) \<and> es_n (edge_store g) = gc_n c \<and> es_params (edge_store g) = (skp_seed (gc_sp c), subs) \<and>
     es.accounts (edge_store g) rcv hist \<and> cur_subgraphs g \<le> cur_subgraph (edge_store g) \<and> cur_subgraph (edge_store g) \<le> cur_subgraphs g + 1 \<and>
     (\<forall>i\<ge>cur_subgraphs g. \<forall>v. rcv i v = [])"

lemma mg_receives_facts:
  assumes "mg_receives c J R g"
  shows "\<not> mc_update_locked (mg_mc g)" "mg_host_threads g = gc_threads c" "mg_batch_size g = gc_bs c" "default_skt_params g = gc_sp c"
    "cur_subgraphs g \<le> gc_max c" "mc_num_vertices (mg_mc g) = gc_n c"
proof -
  obtain a0 H D where b: "mg_bank c J a0 H D g" using assms by (auto simp: mg_receives_def)
  then obtain applied where "mg_mc g = mc_add applied a0" unfolding mg_bank_def mcb.bank_inv_def by blast
  then show "\<not> mc_update_locked (mg_mc g)" "mc_num_vertices (mg_mc g) = gc_n c" using b by (simp_all add: mg_bank_def mc_fresh_def)
  show "mg_host_threads g = gc_threads c" "mg_batch_size g = gc_bs c" "default_skt_params g = gc_sp c" "cur_subgraphs g \<le> gc_max c"
    using b by (simp_all add: mg_bank_def mg_fields_def)
qed

lemma mg_receives_store [simp]: "mg_receives c J R (g\<lparr>edge_store := es\<rparr>) = mg_receives c J R g"
proof -
  have "stream_of (g\<lparr>edge_store := es\<rparr>) = stream_of g" by (simp add: stream_of_def fun_eq_iff)
  then show ?thesis by (simp add: mg_receives_def mg_bank_def mg_fields_def)
qed

lemma complete_more_receives:
  assumes rcv: "mg_receives c (all_streams c g) (rcv_dsts rcv) g" and t: "t < gc_threads c"
    and b: "dsts_data b \<noteq> [] \<Longrightarrow> tub_src b < gc_n c \<and> 0 < first_es_subgraph b \<and> first_es_subgraph b \<le> cur_subgraphs g + 1 \<and>
      first_es_subgraph b \<le> gc_max c \<and> first_es_subgraph b \<le> 16"
    and R: "\<And>i v. cur_subgraphs g \<le> i \<Longrightarrow> rcv i v = []"
  defines "cur' \<equiv> (if dsts_data b = [] then cur_subgraphs g else max (cur_subgraphs g) (first_es_subgraph b))"
  shows "\<exists>g'. complete_more mem env t b g = Inr g' \<and> grown g' g \<and> cur_subgraphs g' = cur' \<and>
    mg_receives c (all_streams c g') (rcv_dsts (deliver b rcv)) g' \<and> (\<forall>i\<ge>cur'. \<forall>v. deliver b rcv i v = [])"
proof (cases "dsts_data b = []")
  case True
  then have "deliver b rcv = rcv" by (auto simp: deliver_def routed_def fun_eq_iff)
  then show ?thesis using True rcv R by (auto simp: complete_more_def grown_def cur'_def)
next
  case False
  have "deliver b rcv i v = []" if "cur' \<le> i" for i v
    using that R False by (auto simp: deliver_def routed_def cur'_def)
  moreover obtain g' where "complete_update_batch mem env t b g = Inr g'" "grown g' g"
      "cur_subgraphs g' = max (cur_subgraphs g) (first_es_subgraph b)" "mg_receives c (all_streams c g') (receive_batch b (rcv_dsts rcv)) g'"
    using complete_receives [OF rcv t, of b mem env] b [OF False] R by auto
  ultimately show ?thesis using False unfolding receive_deliver by (simp add: complete_more_def cur'_def)
qed

text \<open>The insertion of tagged updates, the distribution of the batch and of what the store hands out.\<close>

lemma mg_insert_state:
  assumes st: "mg_state c subs rcv hist g" and t: "t < gc_threads c" and src: "src < gc_n c"
    and lim: "cur_subgraph (edge_store g) \<le> 16" "cur_subgraph (edge_store g) \<le> gc_max c"
  defines "L \<equiv> cur_subgraph (edge_store g)"
  shows "\<exists>b es g1 g2 rcv2. insert_adj_edges src L (filter (\<lambda>u. L \<le> subgraph u) us) (edge_store g) = Inr (b, es) \<and>
    (L = 0 \<longrightarrow> dsts_data b = []) \<and>
    (if L = 0 then g1 = g\<lparr>edge_store := es\<rparr>
     else complete_more mem env t \<lparr>tub_src = src, min_subgraph = 0, first_es_subgraph = L, dsts_data = us\<rparr> (g\<lparr>edge_store := es\<rparr>) = Inr g1) \<and>
    complete_more mem env t b g1 = Inr g2 \<and> mg_state c subs rcv2 (hist(src := hist src @ us)) g2 \<and>
    (cur_subgraph (edge_store g2) = L \<or> cur_subgraph (edge_store g2) = Suc L \<and> (\<exists>u\<in>set us. L \<le> subgraph u))"
proof -
  let ?s = "edge_store g" and ?us = "filter (\<lambda>u. L \<le> subgraph u) us"
  define b0 where "b0 = \<lparr>tub_src = src, min_subgraph = 0, first_es_subgraph = L, dsts_data = us\<rparr>"
  have S: "mg_receives c (all_streams c g) (rcv_dsts rcv) g" "num_subgraphs g = subs" "es_inv ?s" "es_n ?s = gc_n c" "es_params ?s = (skp_seed (gc_sp c), subs)"
      "es.accounts ?s rcv hist" "cur_subgraphs g \<le> L" "L \<le> cur_subgraphs g + 1" and z: "\<And>i v. cur_subgraphs g \<le> i \<Longrightarrow> rcv i v = []"
    using st by (auto simp: mg_state_def L_def)
  obtain b es where i: "insert_adj_edges src L ?us ?s = Inr (b, es)" "es_inv es" "es_moves src ?us b ?s es"
    using es_insert [OF S(3), of src ?us] src S(4) unfolding L_def by auto
  have acc: "es.accounts es (deliver b (deliver b0 rcv)) (hist(src := hist src @ us))"
    using es.accounts_moves [OF S(3) i(2) S(6) _ i(3) [unfolded L_def]] src S(4) lim(1) unfolding b0_def L_def by simp
  have lev: "cur_subgraph es = L \<or> cur_subgraph es = Suc L" "es_n es = gc_n c"
    using i(3) S(4) unfolding store_moves_def L_def by (auto split: if_splits)
  have bb: "tub_src b < gc_n c \<and> es_pending ?s (tub_src b) \<and> first_es_subgraph b = L" if "dsts_data b \<noteq> []"
    using that i(3) S(4) unfolding store_moves_def L_def by auto
  have b_pos: "0 < L" if "dsts_data b \<noteq> []" using bb [OF that] es.pending_level [OF S(3)] S(4) by (auto simp: L_def)
  let ?g = "g\<lparr>edge_store := es\<rparr>"
  have R0: "mg_receives c (all_streams c ?g) (rcv_dsts rcv) ?g" using S(1) by simp
  define c1 where "c1 = (if L = 0 \<or> us = [] then cur_subgraphs g else max (cur_subgraphs g) L)"
  obtain g1 where g1: "if L = 0 then g1 = ?g else complete_more mem env t b0 ?g = Inr g1" "grown g1 ?g" "cur_subgraphs g1 = c1"
      "mg_receives c (all_streams c g1) (rcv_dsts (deliver b0 rcv)) g1" "\<And>i v. c1 \<le> i \<Longrightarrow> deliver b0 rcv i v = []"
  proof (cases "L = 0")
    case True
    then have "deliver b0 rcv = rcv" by (auto simp: deliver_def routed_def b0_def fun_eq_iff)
    then show thesis using that [of ?g] True R0 z by (simp add: grown_def c1_def)
  next
    case False
    have b0: "tub_src b0 = src" "first_es_subgraph b0 = L" "dsts_data b0 = us" by (simp_all add: b0_def)
    have "\<exists>g'. complete_more mem env t b0 ?g = Inr g' \<and> grown g' ?g \<and> cur_subgraphs g' = c1 \<and>
        mg_receives c (all_streams c g') (rcv_dsts (deliver b0 rcv)) g' \<and> (\<forall>i\<ge>c1. \<forall>v. deliver b0 rcv i v = [])"
      using complete_more_receives [OF R0 t, of b0 mem env] False S(8) lim src z unfolding b0
      by (cases "us = []") (simp_all add: L_def c1_def)
    then show thesis using that False by auto
  qed
  have c1: "c1 \<le> L" "L \<le> c1 + 1" using S(7,8) by (auto simp: c1_def)
  define c2 where "c2 = (if dsts_data b = [] then c1 else max c1 L)"
  obtain g2 where g2: "complete_more mem env t b g1 = Inr g2" "grown g2 g1" "cur_subgraphs g2 = c2"
      "mg_receives c (all_streams c g2) (rcv_dsts (deliver b (deliver b0 rcv))) g2" "\<And>i v. c2 \<le> i \<Longrightarrow> deliver b (deliver b0 rcv) i v = []"
    using complete_more_receives [OF g1(4) t, of b mem env] bb b_pos lim c1 g1(3,5) unfolding L_def c2_def
    by (cases "dsts_data b = []") auto
  have "cur_subgraph es = L" if "dsts_data b \<noteq> []" using that i(3) unfolding store_moves_def L_def by auto
  moreover have "cur_subgraph es \<le> c2 + 1"
  proof (cases "us = [] \<or> L = 0")
    case True
    then have "us = [] \<Longrightarrow> es = ?s" using i(1) by (simp add: insert_adj_edges_def)
    then show ?thesis using lev(1) True c1 by (auto simp: c2_def L_def)
  next
    case False
    then show ?thesis using lev(1) S(7) by (auto simp: c2_def c1_def)
  qed
  moreover have "c2 \<le> cur_subgraph es" using c1 lev(1) by (auto simp: c2_def)
  moreover have "es_params es = (skp_seed (gc_sp c), subs)" using es_params_insert [OF i(1)] S(5) by simp
  moreover have "edge_store g2 = es" "num_subgraphs g2 = subs" using g1(2) g2(2) S(2) by (simp_all add: grown_def)
  ultimately have "mg_state c subs (deliver b (deliver b0 rcv)) (hist(src := hist src @ us)) g2" "edge_store g2 = es"
    using g2(3-5) i(2) lev(2) acc by (simp_all add: mg_state_def)
  moreover have "cur_subgraph es = L" if "\<not> (\<exists>u\<in>set us. L \<le> subgraph u)"
  proof -
    have "?us = []" using that by (simp add: filter_empty_conv)
    then show ?thesis using i(1) by (simp add: insert_adj_edges_def L_def)
  qed
  ultimately have "mg_state c subs (deliver b (deliver b0 rcv)) (hist(src := hist src @ us)) g2"
      "cur_subgraph (edge_store g2) = L \<or> cur_subgraph (edge_store g2) = Suc L \<and> (\<exists>u\<in>set us. L \<le> subgraph u)"
    using lev(1) by (blast, metis)
  then show ?thesis using i(1) g1(1) g2(1) b_pos unfolding b0_def
    by (intro exI [of _ b] exI [of _ es] exI [of _ g1] exI [of _ g2] exI conjI) blast+
qed

lemma mg_apply_update_batch_state:
  assumes st: "mg_state c subs rcv hist g" and t: "t < gc_threads c" and src: "src < gc_n c" and l: "length dsts \<le> gc_bs c"
    and lim: "cur_subgraph (edge_store g) \<le> 16" "cur_subgraph (edge_store g) \<le> gc_max c" and subs: "0 < subs" "subs < 64"
  shows "\<exists>g' rcv' m. mg_apply_update_batch xxh mem env t src dsts g = Inr g' \<and> (m = subs \<or> m = subs - 1) \<and>
    mg_state c subs rcv' (hist(src := hist src @ map (tag_update xxh (skp_seed (gc_sp c)) m src) dsts)) g' \<and>
    cur_subgraph (edge_store g') \<le> max subs (cur_subgraph (edge_store g))"
proof -
  let ?s = "edge_store g" and ?L = "cur_subgraph (edge_store g)"
  have rcv: "mg_receives c (all_streams c g) (rcv_dsts rcv) g" and n: "num_subgraphs g = subs" and p: "es_params ?s = (skp_seed (gc_sp c), subs)"
    using st by (simp_all add: mg_state_def)
  note f = mg_receives_facts [OF rcv]
  define m where "m = (if ?L = 0 then subs else subs - 1)"
  define us where "us = map (tag_update xxh (skp_seed (gc_sp c)) m src) dsts"
  have p64: "pred64 subs = subs - 1" using subs by (cases subs) (auto simp: pred64_def)
  obtain b es g1 g2 rcv2 where i: "insert_adj_edges src ?L (filter (\<lambda>u. ?L \<le> subgraph u) us) ?s = Inr (b, es)"
    "if ?L = 0 then g1 = g\<lparr>edge_store := es\<rparr>
     else complete_more mem env t \<lparr>tub_src = src, min_subgraph = 0, first_es_subgraph = ?L, dsts_data = us\<rparr> (g\<lparr>edge_store := es\<rparr>) = Inr g1"
    "complete_more mem env t b g1 = Inr g2" "mg_state c subs rcv2 (hist(src := hist src @ us)) g2"
    "cur_subgraph (edge_store g2) = ?L \<or> cur_subgraph (edge_store g2) = Suc ?L \<and> (\<exists>u\<in>set us. ?L \<le> subgraph u)"
    using mg_insert_state [OF st t src lim, of us mem env] by blast
  have "mg_apply_update_batch xxh mem env t src dsts g = Inr g2"
  proof (cases "?L = 0")
    case True
    then have "insert_adj_vertices xxh src dsts ?s = Inr (b, es)"
      using i(1) p by (simp add: insert_adj_vertices_def us_def m_def es_params_def)
    then show ?thesis using True i(2,3) f(1) by (simp add: mg_apply_update_batch_def get_first_store_subgraph_def)
  next
    case False
    then show ?thesis
      using i f t l p64 n by (simp add: mg_apply_update_batch_def get_first_store_subgraph_def Let_def us_def m_def)
  qed
  moreover have "m < 64" using subs by (auto simp: m_def)
  then have tag: "subgraph u \<le> m" if "u \<in> set us" for u
    using that get_index_depth_le by (auto simp: us_def tag_update_def)
  have "cur_subgraph (edge_store g2) \<le> max subs ?L"
  proof (cases "cur_subgraph (edge_store g2) = ?L")
    case False
    then obtain u where "u \<in> set us" "?L \<le> subgraph u" "cur_subgraph (edge_store g2) = Suc ?L" using i(5) by blast
    then show ?thesis using tag [of u] subs(1) by (cases "?L = 0") (auto simp: m_def)
  qed simp
  ultimately show ?thesis using i(4) unfolding us_def m_def by (intro exI [of _ g2] exI [of _ rcv2] exI [of _ m]) (auto simp: m_def)
qed

section \<open>Runs\<close>

text \<open>Worker threads hand in batches, and the device makes progress on the streams that exist.\<close>

datatype mg_event = MBatch nat nat "nat list" | MProgress nat nat nat

definition mg_progress :: "nat \<Rightarrow> nat \<Rightarrow> nat \<Rightarrow> mc_gpu \<Rightarrow> error + mc_gpu" where
  "mg_progress gid t k g =
     (if gid < cur_subgraphs g \<and> t < mg_host_threads g
      then on_subgraph gid (sub_stream t (\<lambda>(mc, s). case stream_advance k s of Inl e \<Rightarrow> Inl e | Inr s \<Rightarrow> Inr (mc, s))) g
      else Inr g)"

fun mg_step :: "xxh \<Rightarrow> gpu_mem \<Rightarrow> launches \<Rightarrow> mg_event \<Rightarrow> mc_gpu \<Rightarrow> error + mc_gpu" where
  "mg_step xxh mem env (MBatch t src dsts) g = mg_apply_update_batch xxh mem env t src dsts g"
| "mg_step xxh mem env (MProgress gid t k) g = mg_progress gid t k g"

definition mg_run :: "xxh \<Rightarrow> gpu_mem \<Rightarrow> launches \<Rightarrow> mg_event list \<Rightarrow> mc_gpu \<Rightarrow> error + mc_gpu" where
  "mg_run xxh mem env es g = for_each (mg_step xxh mem env) es g"

fun mg_event_ok :: "gpu_conf \<Rightarrow> mg_event \<Rightarrow> bool" where
  "mg_event_ok c (MBatch t src dsts) \<longleftrightarrow> t < gc_threads c \<and> src < gc_n c \<and> length dsts \<le> gc_bs c"
| "mg_event_ok c (MProgress gid t k) \<longleftrightarrow> True"

fun mg_batches :: "mg_event list \<Rightarrow> (nat \<times> nat list) list" where
  "mg_batches [] = []"
| "mg_batches (MBatch t src dsts # es) = (src, dsts) # mg_batches es"
| "mg_batches (MProgress gid t k # es) = mg_batches es"

lemma for_each_append:
  "for_each f (xs @ ys) s = (case for_each f xs s of Inl e \<Rightarrow> Inl e | Inr s \<Rightarrow> for_each f ys s)"
  by (induction xs arbitrary: s) (simp_all split: sum.split)

lemma mg_batches_append: "mg_batches (es @ es') = mg_batches es @ mg_batches es'"
  by (induction es rule: mg_batches.induct) simp_all

lemma vertex_ids_append: "vertex_ids (bt @ bt') v = vertex_ids bt v @ vertex_ids bt' v"
  by (simp add: vertex_ids_def)

lemma mg_progress_receives:
  assumes rcv: "mg_receives c (all_streams c g) R g"
  shows "\<exists>g'. mg_progress gid t k g = Inr g' \<and> same_rest g' g \<and> mg_receives c (all_streams c g') R g'"
proof (cases "gid < cur_subgraphs g \<and> t < gc_threads c")
  case True
  obtain a0 H D where bank: "mg_bank c (all_streams c g) a0 H D g"
    and old: "\<forall>i<cur_subgraphs g. gutters_ok c (subgraphs g ! i) \<and> (\<forall>v<gc_n c. mg_content c D (subgraphs g ! i) i v = image_mset (edge_id v) (R i v))"
    using rcv by (auto simp: mg_receives_def)
  have inv: "mcb.bank_inv (gc_sk c) a0 (all_streams c g) (stream_of g) (mg_mc g) H D" and sh: "sub_shape c (subgraphs g ! gid)"
      and l: "gid < length (subgraphs g)" and D: "\<forall>b\<in>#D. fst b < cur_subgraphs g * gc_n c"
    using bank True by (auto simp: mg_bank_def mg_fields_def)
  obtain ss where ss: "cuda_streams (subgraphs g ! gid) = Some ss" "length ss = gc_threads c" using sh by (auto simp: sub_shape_def)
  have so: "stream_of g (gid, t) = ss ! t" by (simp add: stream_of_def ss)
  obtain s' where s': "stream_advance k ((ss ! t)\<lparr>uvm_buckets := sg_managed (subgraphs g ! gid)\<rparr>) = Inr s'" "statics s' = statics (ss ! t)"
      "mcb.bank_inv (gc_sk c) a0 (all_streams c g) ((stream_of g)((gid, t) := s')) (mg_mc g) H D"
    using mcb.bank_progress [OF inv, of "(gid, t)" k "sg_managed (subgraphs g ! gid)"] True unfolding so by auto
  let ?sub = "(subgraphs g ! gid)\<lparr>cuda_streams := Some (ss[t := s']), sg_managed := uvm_buckets s'\<rparr>"
  let ?g = "g\<lparr>mg_mc := mg_mc g, subgraphs := (subgraphs g)[gid := ?sub]\<rparr>"
  have e: "mg_progress gid t k g = Inr ?g"
    using True s'(1) ss l mg_receives_facts(2) [OF rcv] by (simp add: mg_progress_def on_subgraph_def sub_stream_def)
  have "mg_bank c (all_streams c g) a0 H D ?g"
    by (rule mg_bank_step [OF bank _ _ _ _ _ _ _ _ _ _ s'(3)]) (use True sh ss s'(2) D so in \<open>auto simp: sub_shape_def\<close>)
  moreover have "gutters_ok c (subgraphs ?g ! i) \<and> (\<forall>v<gc_n c. mg_content c D (subgraphs ?g ! i) i v = image_mset (edge_id v) (R i v))"
    if "i < cur_subgraphs g" for i
    using that old l by (cases "i = gid") (simp_all add: gutters_ok_def mg_content_def)
  ultimately have "mg_receives c (all_streams c g) R ?g" unfolding mg_receives_def by fastforce
  then show ?thesis using e by (simp add: same_rest_def)
next
  case False
  then show ?thesis using rcv mg_receives_facts(2) [OF rcv] by (auto simp: mg_progress_def)
qed

text \<open>The tags that the updates of a run have been given.\<close>

definition mg_history :: "xxh \<Rightarrow> gpu_conf \<Rightarrow> nat \<Rightarrow> mg_event list \<Rightarrow> (nat \<Rightarrow> SubgraphTaggedUpdate list) \<Rightarrow> bool" where
  "mg_history xxh c subs es hist \<longleftrightarrow> (\<forall>v. tags_ok xxh (skp_seed (gc_sp c)) subs v (hist v) \<and>
     map (\<lambda>u. edge_id v (stu_dst u)) (hist v) = vertex_ids (mg_batches es) v)"

lemma mg_step_state:
  assumes st: "mg_state c subs rcv hist g" and h: "mg_history xxh c subs es hist" and ok: "mg_event_ok c e" and subs: "0 < subs" "subs < 64"
    and lim: "cur_subgraph (edge_store g) \<le> 16" "cur_subgraph (edge_store g) \<le> gc_max c"
  shows "\<exists>g' rcv' hist'. mg_step xxh mem env e g = Inr g' \<and> mg_state c subs rcv' hist' g' \<and> mg_history xxh c subs (es @ [e]) hist' \<and>
    cur_subgraph (edge_store g') \<le> max subs (cur_subgraph (edge_store g))"
proof (cases e)
  case (MBatch t src dsts)
  obtain g' rcv' m where g': "mg_apply_update_batch xxh mem env t src dsts g = Inr g'" "m = subs \<or> m = subs - 1"
      "mg_state c subs rcv' (hist(src := hist src @ map (tag_update xxh (skp_seed (gc_sp c)) m src) dsts)) g'"
      "cur_subgraph (edge_store g') \<le> max subs (cur_subgraph (edge_store g))"
    using mg_apply_update_batch_state [OF st _ _ _ lim subs, of t src dsts xxh mem env] ok by (auto simp: MBatch)
  have tg: "tags_ok xxh (skp_seed (gc_sp c)) subs src (map (tag_update xxh (skp_seed (gc_sp c)) m src) dsts)"
    by (rule tag_updates_ok [OF subs g'(2)])
  have "tags_ok xxh (skp_seed (gc_sp c)) subs v (hist v)" "map (\<lambda>u. edge_id v (stu_dst u)) (hist v) = vertex_ids (mg_batches es) v" for v
    using h by (simp_all add: mg_history_def)
  then have "mg_history xxh c subs (es @ [e]) (hist(src := hist src @ map (tag_update xxh (skp_seed (gc_sp c)) m src) dsts))"
    using tg by (auto simp: mg_history_def MBatch mg_batches_append vertex_ids_append tags_ok_def tag_update_def)
  then show ?thesis using g'(1,3,4) by (auto simp: MBatch)
next
  case (MProgress gid t k)
  obtain g' where g': "mg_progress gid t k g = Inr g'" "same_rest g' g" "mg_receives c (all_streams c g') (rcv_dsts rcv) g'"
    using mg_progress_receives [of c g "rcv_dsts rcv" gid t k] st by (auto simp: mg_state_def)
  have "mg_state c subs rcv hist g'" using st g'(3) same_rest_fields [OF g'(2)] by (simp add: mg_state_def)
  moreover have "mg_history xxh c subs (es @ [e]) hist" using h by (simp add: mg_history_def MProgress mg_batches_append)
  ultimately show ?thesis using g'(1) same_rest_fields(1) [OF g'(2)] by (auto simp: MProgress)
qed

text \<open>A run goes on as long as the level of the store stays within the subgraphs that there is room for.\<close>

definition level_bounded :: "xxh \<Rightarrow> gpu_mem \<Rightarrow> launches \<Rightarrow> gpu_conf \<Rightarrow> mg_event list \<Rightarrow> mc_gpu \<Rightarrow> bool" where
  "level_bounded xxh mem env c es g \<longleftrightarrow>
     (\<forall>k\<le>length es. case mg_run xxh mem env (take k es) g of Inl e \<Rightarrow> True | Inr g1 \<Rightarrow> cur_subgraph (edge_store g1) \<le> min 16 (gc_max c))"

lemma mg_run_state:
  assumes st: "mg_state c subs (\<lambda>_ _. []) (\<lambda>_. []) g" and ok: "list_all (mg_event_ok c) es" and subs: "0 < subs" "subs < 64"
    and lim: "level_bounded xxh mem env c es g"
  shows "\<exists>g' rcv hist. mg_run xxh mem env es g = Inr g' \<and> mg_state c subs rcv hist g' \<and> mg_history xxh c subs es hist"
proof -
  have "\<exists>g' rcv hist. mg_run xxh mem env (take k es) g = Inr g' \<and> mg_state c subs rcv hist g' \<and> mg_history xxh c subs (take k es) hist"
    if "k \<le> length es" for k
    using that
  proof (induction k)
    case 0
    have "mg_history xxh c subs [] (\<lambda>_. [])" by (simp add: mg_history_def tags_ok_def)
    then show ?case using st by (auto simp: mg_run_def)
  next
    case (Suc k)
    then obtain g1 rcv hist where g1: "mg_run xxh mem env (take k es) g = Inr g1" "mg_state c subs rcv hist g1" "mg_history xxh c subs (take k es) hist" by auto
    have e: "take (Suc k) es = take k es @ [es ! k]" using Suc.prems by (simp add: take_Suc_conv_app_nth)
    have "cur_subgraph (edge_store g1) \<le> min 16 (gc_max c)" using lim Suc.prems g1(1) unfolding level_bounded_def by (auto dest: spec [of _ k])
    moreover have "mg_event_ok c (es ! k)" using ok Suc.prems by (simp add: list_all_length)
    ultimately obtain g' rcv' hist' where "mg_step xxh mem env (es ! k) g1 = Inr g'" "mg_state c subs rcv' hist' g'" "mg_history xxh c subs (take (Suc k) es) hist'"
      using mg_step_state [OF g1(2,3) _ subs, of "es ! k" mem env] unfolding e by auto
    then show ?case using g1(1) unfolding e by (auto simp: mg_run_def for_each_append)
  qed
  from this [of "length es"] show ?thesis by simp
qed

text \<open>With room for all the subgraphs that tags can name, the level is always bounded.\<close>

lemma level_bounded_subs:
  assumes st: "mg_state c subs (\<lambda>_ _. []) (\<lambda>_. []) g" and ok: "list_all (mg_event_ok c) es" and subs: "0 < subs" "subs \<le> 16" "subs \<le> gc_max c"
    and l: "cur_subgraph (edge_store g) \<le> subs"
  shows "level_bounded xxh mem env c es g"
proof -
  have "\<exists>g' rcv hist. mg_run xxh mem env (take k es) g = Inr g' \<and> mg_state c subs rcv hist g' \<and> mg_history xxh c subs (take k es) hist \<and>
      cur_subgraph (edge_store g') \<le> subs" if "k \<le> length es" for k
    using that
  proof (induction k)
    case 0
    have "mg_history xxh c subs [] (\<lambda>_. [])" by (simp add: mg_history_def tags_ok_def)
    then show ?case using st l by (auto simp: mg_run_def)
  next
    case (Suc k)
    then obtain g1 rcv hist where g1: "mg_run xxh mem env (take k es) g = Inr g1" "mg_state c subs rcv hist g1"
        "mg_history xxh c subs (take k es) hist" "cur_subgraph (edge_store g1) \<le> subs" by auto
    have e: "take (Suc k) es = take k es @ [es ! k]" using Suc.prems by (simp add: take_Suc_conv_app_nth)
    have "mg_event_ok c (es ! k)" "subs < 64" using ok Suc.prems subs by (simp_all add: list_all_length)
    then obtain g' rcv' hist' where "mg_step xxh mem env (es ! k) g1 = Inr g'" "mg_state c subs rcv' hist' g'"
        "mg_history xxh c subs (take (Suc k) es) hist'" "cur_subgraph (edge_store g') \<le> max subs (cur_subgraph (edge_store g1))"
      using mg_step_state [OF g1(2,3) _ subs(1), of "es ! k" mem env] g1(4) subs(2,3) unfolding e by auto
    then show ?case using g1(1,4) unfolding e by (auto simp: mg_run_def for_each_append max_def)
  qed
  then show ?thesis using subs(2,3) unfolding level_bounded_def by (fastforce split: sum.split)
qed

text \<open>The contraction that a run leaves behind is finished.\<close>

lemma finish_contraction_state:
  assumes "mg_state c subs rcv hist g" "\<And>i. sched i < gc_threads c" "cur_subgraph (edge_store g) \<le> 16" "cur_subgraph (edge_store g) \<le> gc_max c"
  shows "\<exists>g' rcv'. finish_contraction mem env sched i g = Some (Inr g') \<and> mg_state c subs rcv' hist g' \<and>
    \<not> contract_in_progress (edge_store g') \<and> cur_subgraph (edge_store g') = cur_subgraph (edge_store g)"
  using assms(1,3,4)
proof (induction "gc_n c + 1 - unat (needs_contraction (edge_store g))" arbitrary: i g rcv rule: less_induct)
  case less
  let ?s = "edge_store g" and ?L = "cur_subgraph (edge_store g)"
  show ?case
  proof (cases "contract_in_progress ?s")
    case False
    then show ?thesis using less.prems by (subst finish_contraction.simps) auto
  next
    case True
    have S: "mg_receives c (all_streams c g) (rcv_dsts rcv) g" "num_subgraphs g = subs" "es_inv ?s" "es_n ?s = gc_n c" "es_params ?s = (skp_seed (gc_sp c), subs)"
        "es.accounts ?s rcv hist" "cur_subgraphs g \<le> ?L" "?L \<le> cur_subgraphs g + 1" and z: "\<And>i v. cur_subgraphs g \<le> i \<Longrightarrow> rcv i v = []"
      using less.prems(1) by (auto simp: mg_state_def)
    have n: "0 < gc_n c" using S(1) unfolding mg_receives_def mg_bank_def conf_ok_def by blast
    obtain b es where a: "vertex_advance_subgraph ?L ?s = (b, es)" by fastforce
    note adv = es_advance [OF S(3) True a]
    have m: "es_moves 0 (filter (\<lambda>u. ?L \<le> subgraph u) []) b ?s es" using adv by simp
    have acc: "es.accounts es (deliver b rcv) hist"
      using es.accounts_moves [OF S(3) _ S(6) _ m] adv less.prems(2) n S(4) by (simp add: deliver_Nil)
    have L0: "0 < ?L" using True by (simp add: contract_in_progress_def)
    have bb: "tub_src b < gc_n c \<and> first_es_subgraph b = ?L" if "dsts_data b \<noteq> []"
      using that adv S(4) by (auto simp: store_moves_def)
    let ?g = "g\<lparr>edge_store := es\<rparr>"
    define c1 where "c1 = (if dsts_data b = [] then cur_subgraphs g else max (cur_subgraphs g) ?L)"
    have R0: "mg_receives c (all_streams c ?g) (rcv_dsts rcv) ?g" using S(1) by simp
    obtain g1 where g1: "complete_more mem env (sched i) b ?g = Inr g1" "grown g1 ?g" "cur_subgraphs g1 = c1"
        "mg_receives c (all_streams c g1) (rcv_dsts (deliver b rcv)) g1" "\<forall>i\<ge>c1. \<forall>v. deliver b rcv i v = []"
      using complete_more_receives [OF R0 assms(2), of b mem env i] bb L0 less.prems(2,3) S(8) z
      by (cases "dsts_data b = []") (auto simp: c1_def)
    have c1: "c1 \<le> ?L" "?L \<le> c1 + 1" using S(7,8) by (auto simp: c1_def)
    have e1: "edge_store g1 = es" "num_subgraphs g1 = subs" using g1(2) S(2) by (simp_all add: grown_def)
    have "es_n es = gc_n c" using adv S(4) by (simp add: store_moves_def)
    then have st1: "mg_state c subs (deliver b rcv) hist g1"
      using g1(3-5) e1 adv acc c1 es_params_advance [OF a] S(5) by (simp add: mg_state_def)
    have step: "finish_contraction mem env sched i g = finish_contraction mem env sched (i + 1) g1"
      using True a g1(1) by (subst finish_contraction.simps) (simp add: get_first_store_subgraph_def)
    show ?thesis
    proof (cases "contract_in_progress es")
      case False
      then have "finish_contraction mem env sched (i + 1) g1 = Some (Inr g1)" by (subst finish_contraction.simps) (simp add: e1)
      then show ?thesis using step st1 False adv e1 by auto
    next
      case True
      then have "gc_n c + 1 - unat (needs_contraction (edge_store g1)) < gc_n c + 1 - unat (needs_contraction ?s)"
        using adv S(4) e1 by auto
      from less.hyps [OF this st1, of "i + 1"] show ?thesis using step adv e1 less.prems(2,3) by auto
    qed
  qed
qed

section \<open>Flushing\<close>

abbreviation put_sub :: "nat \<Rightarrow> sub_state \<Rightarrow> mc_gpu \<Rightarrow> mc_gpu" where
  "put_sub gid st g \<equiv> g\<lparr>mg_mc := fst st, subgraphs := (subgraphs g)[gid := snd st]\<rparr>"

lemma put_sub_self: "put_sub gid (mg_mc g, subgraphs g ! gid) g = g"
  by simp

definition gutter_empty :: "mc_gpu \<Rightarrow> nat \<Rightarrow> nat \<Rightarrow> bool" where
  "gutter_empty g gid v \<longleftrightarrow> gut_elms (subgraph_gutters (subgraphs g ! gid) ! v) = 0"

lemma receive_Nil [simp]: "receive gid src [] R = R"
  by (auto simp: receive_def fun_eq_iff)

lemma flush_gutter_receives:
  assumes rcv: "mg_receives c J R g" and j: "(gid, 0) \<in> J" and v: "v < gc_n c"
  shows "\<exists>st. flush_gutter env v (mg_mc g, subgraphs g ! gid) = Inr st \<and> mg_receives c J R (put_sub gid st g) \<and>
    (launched J g \<longrightarrow> launched J (put_sub gid st g)) \<and> gutter_empty (put_sub gid st g) gid v \<and>
    (\<forall>i w. gutter_empty g i w \<longrightarrow> gutter_empty (put_sub gid st g) i w)"
proof -
  obtain a0 H D where bank: "mg_bank c J a0 H D g"
    and old: "\<forall>i<cur_subgraphs g. gutters_ok c (subgraphs g ! i) \<and> (\<forall>v<gc_n c. mg_content c D (subgraphs g ! i) i v = image_mset (edge_id v) (R i v))"
    using rcv by (auto simp: mg_receives_def)
  have gid: "gid < cur_subgraphs g" "gid < length (subgraphs g)" and bs: "16 \<le> gc_bs c"
    using bank j unfolding mg_bank_def mg_fields_def conf_ok_def by auto
  let ?sub = "subgraphs g ! gid"
  let ?gs = "subgraph_gutters ?sub"
  have gut: "gut_elms (?gs ! v) < gc_bs c" "length (gut_data (?gs ! v)) = gc_bs c" "length ?gs = gc_n c" using old gid v by (auto simp: gutters_ok_def)
  show ?thesis
  proof (cases "gut_elms (?gs ! v) = 0")
    case True
    then show ?thesis using rcv gut v by (intro exI [of _ "(mg_mc g, ?sub)"]) (simp add: flush_gutter_def gutter_empty_def)
  next
    case False
    have data: "resize_zero (gut_elms (?gs ! v)) (gut_data (?gs ! v)) = gut_list (?gs ! v)" using gut by (simp add: resize_zero_def gut_list_def)
    define d where "d = gut_list (?gs ! v)"
    have ld: "length d \<le> gc_bs c" using gut by (simp add: d_def gut_list_def)
    obtain mc' sub' where a: "sub_apply_update_batch env 0 v d (mg_mc g, ?sub) = Inr (mc', sub')" "subgraph_gutters sub' = ?gs" "sg_batch_size sub' = gc_bs c"
        "\<And>gs'. (\<exists>H'. mg_bank c J a0 H' (add_mset (gid * gc_n c + v, map (edge_id v) d) D) (put_sub gid (mc', sub'\<lparr>subgraph_gutters := gs'\<rparr>) g)) \<and>
           (launched J g \<longrightarrow> launched J (put_sub gid (mc', sub'\<lparr>subgraph_gutters := gs'\<rparr>) g))"
      using sub_apply_bank [OF bank j v ld, of ?sub ?gs env] unfolding Let_def by auto
    define gut2 where "gut2 = \<lparr>gut_elms = 0, gut_data = resize_zero (gc_bs c) d\<rparr>"
    let ?st = "(mc', sub'\<lparr>subgraph_gutters := ?gs[v := gut2]\<rparr>)"
    have e: "flush_gutter env v (mg_mc g, ?sub) = Inr ?st"
      using False a(1-3) gut v by (simp add: flush_gutter_def data d_def [symmetric] gut2_def)
    obtain H' where b': "mg_bank c J a0 H' (add_mset (gid * gc_n c + v, map (edge_id v) d) D) (put_sub gid ?st g)" using a(4) by blast
    have "mg_receives c J (receive gid v [] R) (put_sub gid ?st g)"
      unfolding fst_conv snd_conv
      by (rule mg_receives_step [OF old gid v b' [unfolded fst_conv snd_conv] _ _ _ disjI2 [OF refl]])
        (use ld bs in \<open>auto simp: gut2_def gut_list_def mg_content_def d_def resize_zero_def\<close>)
    moreover have "gutter_empty (put_sub gid ?st g) gid v" "gutter_empty g i w \<longrightarrow> gutter_empty (put_sub gid ?st g) i w" for i w
      using gid(2) gut(3) v by (auto simp: gutter_empty_def gut2_def nth_list_update)
    ultimately show ?thesis using e a(4) by (intro exI [of _ ?st]) simp
  qed
qed

lemma put_sub_put:
  assumes "gid < length (subgraphs g)"
  shows "put_sub gid st' (put_sub gid st g) = put_sub gid st' g" "(mg_mc (put_sub gid st g), subgraphs (put_sub gid st g) ! gid) = st"
  using assms by simp_all

lemma flush_gutters_receives:
  assumes rcv: "mg_receives c J R g" and j: "(gid, 0) \<in> J" and gid: "gid < length (subgraphs g)"
    and vs: "\<forall>v\<in>set vs. v < gc_n c" and "launched J g"
  shows "\<exists>st. for_each (flush_gutter env) vs (mg_mc g, subgraphs g ! gid) = Inr st \<and> mg_receives c J R (put_sub gid st g) \<and>
    launched J (put_sub gid st g) \<and> (\<forall>v\<in>set vs. gutter_empty (put_sub gid st g) gid v) \<and>
    (\<forall>i w. gutter_empty g i w \<longrightarrow> gutter_empty (put_sub gid st g) i w)"
  using assms
proof (induction vs arbitrary: g)
  case Nil
  then show ?case by (intro exI [of _ "(mg_mc g, subgraphs g ! gid)"]) simp
next
  case (Cons v vs)
  obtain st where st: "flush_gutter env v (mg_mc g, subgraphs g ! gid) = Inr st" "mg_receives c J R (put_sub gid st g)"
      "launched J (put_sub gid st g)" "gutter_empty (put_sub gid st g) gid v" "\<forall>i w. gutter_empty g i w \<longrightarrow> gutter_empty (put_sub gid st g) i w"
    using flush_gutter_receives [OF Cons.prems(1,2), of v env] Cons.prems(4,5) by auto
  note put = put_sub_put [OF Cons.prems(3)]
  have "gid < length (subgraphs (put_sub gid st g))" using Cons.prems(3) by simp
  from Cons.IH [OF st(2) Cons.prems(2) this _ st(3), unfolded put] Cons.prems(4)
  obtain st' where st': "for_each (flush_gutter env) vs st = Inr st'" "mg_receives c J R (put_sub gid st' g)" "launched J (put_sub gid st' g)"
      "\<forall>v\<in>set vs. gutter_empty (put_sub gid st' g) gid v" "\<forall>i w. gutter_empty (put_sub gid st g) i w \<longrightarrow> gutter_empty (put_sub gid st' g) i w"
    by auto
  then show ?case using st by (intro exI [of _ st']) auto
qed

lemma flush_stream_receives:
  assumes rcv: "mg_receives c J R g" and j: "(gid, t) \<in> J" and la: "launched J g"
  shows "\<exists>st. sub_stream t (flush_buffers mc_apply_raw_buckets_update e) (mg_mc g, subgraphs g ! gid) = Inr st \<and>
    mg_receives c (J - {(gid, t)}) R (put_sub gid st g) \<and> launched (J - {(gid, t)}) (put_sub gid st g) \<and>
    (\<forall>i w. gutter_empty (put_sub gid st g) i w = gutter_empty g i w)"
proof -
  obtain a0 H D where bank: "mg_bank c J a0 H D g"
    and old: "\<forall>i<cur_subgraphs g. gutters_ok c (subgraphs g ! i) \<and> (\<forall>v<gc_n c. mg_content c D (subgraphs g ! i) i v = image_mset (edge_id v) (R i v))"
    using rcv by (auto simp: mg_receives_def)
  have gid: "gid < cur_subgraphs g" "gid < length (subgraphs g)" and t: "t < gc_threads c" and sh: "sub_shape c (subgraphs g ! gid)"
      and inv: "mcb.bank_inv (gc_sk c) a0 J (stream_of g) (mg_mc g) H D" and D: "\<forall>b\<in>#D. fst b < cur_subgraphs g * gc_n c"
    using bank j by (auto simp: mg_bank_def mg_fields_def)
  obtain ss where ss: "cuda_streams (subgraphs g ! gid) = Some ss" "length ss = gc_threads c" using sh by (auto simp: sub_shape_def)
  have so: "stream_of g (gid, t) = ss ! t" by (simp add: stream_of_def ss)
  have "\<not> first_buffer (stream_of g (gid, t))" using la j by (auto simp: launched_def)
  then obtain mc' s' where s': "flush_buffers mc_apply_raw_buckets_update e (mg_mc g, (ss ! t)\<lparr>uvm_buckets := sg_managed (subgraphs g ! gid)\<rparr>) = Inr (mc', s')"
      "pending s' = []" "mcb.bank_inv (gc_sk c) a0 (J - {(gid, t)}) (stream_of g) mc' H D"
    using mcb.bank_flush [OF inv j, of e "sg_managed (subgraphs g ! gid)"] unfolding so by auto
  have inv': "mcb.bank_inv (gc_sk c) a0 (J - {(gid, t)}) ((stream_of g)((gid, t) := s')) mc' H D"
    by (rule mcb.bank_inv_cong [OF s'(3)]) auto
  let ?sub = "(subgraphs g ! gid)\<lparr>cuda_streams := Some (ss[t := s']), sg_managed := uvm_buckets s'\<rparr>"
  let ?g = "put_sub gid (mc', ?sub) g"
  have "mg_bank c (J - {(gid, t)}) a0 H D ?g"
    unfolding fst_conv snd_conv
    by (rule mg_bank_step [OF bank gid(1) t _ _ _ _ _ _ _ _ inv']) (use sh ss s'(2) D so in \<open>auto simp: sub_shape_def\<close>)
  moreover have "gutters_ok c (subgraphs ?g ! i) \<and> (\<forall>v<gc_n c. mg_content c D (subgraphs ?g ! i) i v = image_mset (edge_id v) (R i v))"
    if "i < cur_subgraphs g" for i
    using that old gid by (cases "i = gid") (simp_all add: gutters_ok_def mg_content_def)
  ultimately have "mg_receives c (J - {(gid, t)}) R ?g" unfolding mg_receives_def by fastforce
  moreover have "launched (J - {(gid, t)}) ?g"
  proof -
    have "stream_of ?g i = stream_of g i" if "i \<noteq> (gid, t)" for i
      using that gid(2) ss by (cases i) (auto simp: stream_of_def nth_list_update)
    then show ?thesis using la by (simp add: launched_def)
  qed
  moreover have "gutter_empty ?g i w = gutter_empty g i w" for i w using gid(2) by (auto simp: gutter_empty_def nth_list_update)
  ultimately show ?thesis using s'(1) ss t by (intro exI [of _ "(mc', ?sub)"]) (simp add: sub_stream_def)
qed

lemma flush_streams_receives:
  assumes "mg_receives c J R g" "launched J g" "gid < length (subgraphs g)" "{gid} \<times> set ts \<subseteq> J" "distinct ts"
  shows "\<exists>st. for_each (\<lambda>t. sub_stream t (flush_buffers mc_apply_raw_buckets_update (e t))) ts (mg_mc g, subgraphs g ! gid) = Inr st \<and>
    mg_receives c (J - {gid} \<times> set ts) R (put_sub gid st g) \<and> launched (J - {gid} \<times> set ts) (put_sub gid st g) \<and>
    (\<forall>i w. gutter_empty (put_sub gid st g) i w = gutter_empty g i w)"
  using assms
proof (induction ts arbitrary: g J)
  case Nil
  then show ?case by (intro exI [of _ "(mg_mc g, subgraphs g ! gid)"]) simp
next
  case (Cons t ts)
  obtain st where st: "sub_stream t (flush_buffers mc_apply_raw_buckets_update (e t)) (mg_mc g, subgraphs g ! gid) = Inr st"
      "mg_receives c (J - {(gid, t)}) R (put_sub gid st g)" "launched (J - {(gid, t)}) (put_sub gid st g)"
      "\<forall>i w. gutter_empty (put_sub gid st g) i w = gutter_empty g i w"
    using flush_stream_receives [OF Cons.prems(1) _ Cons.prems(2), of gid t "e t"] Cons.prems(4) by auto
  note put = put_sub_put [OF Cons.prems(3)]
  have "gid < length (subgraphs (put_sub gid st g))" "{gid} \<times> set ts \<subseteq> J - {(gid, t)}" "distinct ts" using Cons.prems(3-5) by auto
  from Cons.IH [OF st(2,3) this, unfolded put]
  obtain st' where st': "for_each (\<lambda>t. sub_stream t (flush_buffers mc_apply_raw_buckets_update (e t))) ts st = Inr st'"
      "mg_receives c (J - {(gid, t)} - {gid} \<times> set ts) R (put_sub gid st' g)" "launched (J - {(gid, t)} - {gid} \<times> set ts) (put_sub gid st' g)"
      "\<forall>i w. gutter_empty (put_sub gid st' g) i w = gutter_empty (put_sub gid st g) i w"
    by blast
  moreover have "J - {(gid, t)} - {gid} \<times> set ts = J - {gid} \<times> set (t # ts)" by auto
  ultimately show ?case using st(1,4) by (intro exI [of _ st']) simp
qed

lemma sub_flush_receives:
  assumes rcv: "mg_receives c J R g" and la: "launched J g" and gid: "gid < cur_subgraphs g" and J: "{gid} \<times> {..<gc_threads c} \<subseteq> J"
  shows "\<exists>g'. on_subgraph gid (sub_flush env) g = Inr g' \<and> same_rest g' g \<and> mg_receives c (J - {gid} \<times> {..<gc_threads c}) R g' \<and>
    launched (J - {gid} \<times> {..<gc_threads c}) g' \<and> (\<forall>v<gc_n c. gutter_empty g' gid v) \<and> (\<forall>i w. gutter_empty g i w \<longrightarrow> gutter_empty g' i w)"
proof -
  have shape: "sub_shape c (subgraphs g' ! gid)" "gid < length (subgraphs g')" "0 < gc_threads c" if "mg_receives c J R g'" "cur_subgraphs g' = cur_subgraphs g" for g'
    using that gid unfolding mg_receives_def mg_bank_def mg_fields_def conf_ok_def by (fastforce, fastforce, blast)
  note sh = shape [OF rcv refl]
  have j: "(gid, 0) \<in> J" using J sh(3) by auto
  obtain st where st: "for_each (flush_gutter env) [0..<gc_n c] (mg_mc g, subgraphs g ! gid) = Inr st" "mg_receives c J R (put_sub gid st g)"
      "launched J (put_sub gid st g)" "\<forall>v\<in>set [0..<gc_n c]. gutter_empty (put_sub gid st g) gid v"
      "\<forall>i w. gutter_empty g i w \<longrightarrow> gutter_empty (put_sub gid st g) i w"
    using flush_gutters_receives [OF rcv j sh(2) _ la, of "[0..<gc_n c]" env] by auto
  note put = put_sub_put [OF sh(2)]
  have n: "sg_num_nodes (subgraphs g ! gid) = gc_n c" "sg_num_streams (snd st) = gc_threads c"
    using sh(1) shape(1) [OF st(2)] sh(2) by (simp_all add: sub_shape_def)
  let ?e = "\<lambda>t. env t (sg_num_updates (snd st))"
  have "gid < length (subgraphs (put_sub gid st g))" "{gid} \<times> set [0..<gc_threads c] \<subseteq> J" "distinct [0..<gc_threads c]" using sh(2) J by auto
  from flush_streams_receives [OF st(2,3) this, of ?e, unfolded put]
  obtain st' where st': "for_each (\<lambda>t. sub_stream t (flush_buffers mc_apply_raw_buckets_update (?e t))) [0..<gc_threads c] st = Inr st'"
      "mg_receives c (J - {gid} \<times> set [0..<gc_threads c]) R (put_sub gid st' g)" "launched (J - {gid} \<times> set [0..<gc_threads c]) (put_sub gid st' g)"
      "\<forall>i w. gutter_empty (put_sub gid st' g) i w = gutter_empty (put_sub gid st g) i w"
    by blast
  have "on_subgraph gid (sub_flush env) g = Inr (put_sub gid st' g)"
    using sh(2) st(1) st'(1) n by (cases st') (simp add: on_subgraph_def sub_flush_def)
  moreover have "set [0..<gc_threads c] = {..<gc_threads c}" by auto
  ultimately show ?thesis using st(4,5) st'(2-4) by (intro exI [of _ "put_sub gid st' g"]) (simp add: same_rest_def)
qed

lemma flush_all_receives:
  assumes "mg_receives c ({k..<cur_subgraphs g} \<times> {..<gc_threads c}) R g" "launched ({k..<cur_subgraphs g} \<times> {..<gc_threads c}) g"
    and "k \<le> cur_subgraphs g" "\<forall>i<k. \<forall>v<gc_n c. gutter_empty g i v"
  shows "\<exists>g'. for_each (\<lambda>gid. on_subgraph gid (sub_flush (env gid))) [k..<cur_subgraphs g] g = Inr g' \<and> same_rest g' g \<and>
    mg_receives c {} R g' \<and> (\<forall>i<cur_subgraphs g. \<forall>v<gc_n c. gutter_empty g' i v)"
  using assms
proof (induction "cur_subgraphs g - k" arbitrary: k g)
  case (Suc m)
  let ?cur = "cur_subgraphs g"
  have k: "k < ?cur" "[k..<?cur] = k # [k + 1..<?cur]" using Suc.hyps(2) by (simp_all add: upt_conv_Cons)
  have J: "{k} \<times> {..<gc_threads c} \<subseteq> {k..<?cur} \<times> {..<gc_threads c}"
    "{k..<?cur} \<times> {..<gc_threads c} - {k} \<times> {..<gc_threads c} = {k + 1..<?cur} \<times> {..<gc_threads c}" using k by auto
  obtain g1 where g1: "on_subgraph k (sub_flush (env k)) g = Inr g1" "same_rest g1 g" "mg_receives c ({k + 1..<?cur} \<times> {..<gc_threads c}) R g1"
      "launched ({k + 1..<?cur} \<times> {..<gc_threads c}) g1" "\<forall>v<gc_n c. gutter_empty g1 k v" "\<forall>i w. gutter_empty g i w \<longrightarrow> gutter_empty g1 i w"
    using sub_flush_receives [OF Suc.prems(1,2) k(1) J(1), of "env k", unfolded J(2)] by blast
  note f = same_rest_fields [OF g1(2)]
  have m: "m = ?cur - (k + 1)" using Suc.hyps(2) by simp
  have "\<forall>i<k + 1. \<forall>v<gc_n c. gutter_empty g1 i v" using Suc.prems(4) g1(5,6) by (auto simp: less_Suc_eq)
  then obtain g' where "for_each (\<lambda>gid. on_subgraph gid (sub_flush (env gid))) [k + 1..<?cur] g1 = Inr g'" "same_rest g' g1"
      "mg_receives c {} R g'" "\<forall>i<?cur. \<forall>v<gc_n c. gutter_empty g' i v"
    using Suc.hyps(1) [of g1 "k + 1"] m k(1) g1(3,4) unfolding f by auto
  then show ?case using g1(1,2) same_rest_trans unfolding k(2) by auto
qed auto

text \<open>With nothing pending, the synchronisation of the device changes no sketch.\<close>

lemma sync_streams_sub:
  assumes "cuda_streams sub = Some ss" "\<forall>t\<in>set ts. t < length ss" "\<forall>t<length ss. pending (ss ! t) = []"
  shows "\<exists>sub' ss'. for_each (\<lambda>t. sub_stream t (\<lambda>(mc, s). case stream_sync s of Inl e \<Rightarrow> Inl e | Inr s \<Rightarrow> Inr (mc, s))) ts (mc, sub) = Inr (mc, sub') \<and>
    cuda_streams sub' = Some ss' \<and> length ss' = length ss \<and> (\<forall>t<length ss. pending (ss' ! t) = [])"
  using assms
proof (induction ts arbitrary: sub ss)
  case (Cons t ts)
  let ?s = "(ss ! t)\<lparr>uvm_buckets := sg_managed sub\<rparr>"
  let ?sub = "sub\<lparr>cuda_streams := Some (ss[t := ?s]), sg_managed := sg_managed sub\<rparr>"
  have p: "pending ?s = []" "t < length ss" using Cons.prems(2,3) by simp_all
  then have "stream_sync ?s = Inr ?s" by (cases "ss ! t") (simp add: stream_sync_def)
  then have e: "sub_stream t (\<lambda>(mc, s). case stream_sync s of Inl e \<Rightarrow> Inl e | Inr s \<Rightarrow> Inr (mc, s)) (mc, sub) = Inr (mc, ?sub)"
    using p(2) Cons.prems(1) by (simp add: sub_stream_def)
  have "\<forall>u<length (ss[t := ?s]). pending (ss[t := ?s] ! u) = []" using Cons.prems(3) p by (auto simp: nth_list_update)
  then show ?case using Cons.IH [of ?sub "ss[t := ?s]"] Cons.prems(2) e by simp
qed auto

lemma device_synchronize_idle:
  assumes "mg_receives c {} R g"
  shows "\<exists>g'. device_synchronize g = Inr g' \<and> mg_mc g' = mg_mc g \<and> edge_store g' = edge_store g \<and> cur_subgraphs g' = cur_subgraphs g"
proof -
  let ?sync = "\<lambda>gid. on_subgraph gid (\<lambda>st. for_each (\<lambda>thr_id. sub_stream thr_id
      (\<lambda>(mc, s). case stream_sync s of Inl e \<Rightarrow> Inl e | Inr s \<Rightarrow> Inr (mc, s))) [0..<sg_num_streams (snd st)] st)"
  define idle where "idle = (\<lambda>gid (h :: mc_gpu). gid < length (subgraphs h) \<and> (\<exists>ss. cuda_streams (subgraphs h ! gid) = Some ss \<and>
     sg_num_streams (subgraphs h ! gid) = length ss \<and> (\<forall>t<length ss. pending (ss ! t) = [])))"
  have "\<exists>g'. for_each ?sync gids h = Inr g' \<and> mg_mc g' = mg_mc h \<and> edge_store g' = edge_store h \<and> cur_subgraphs g' = cur_subgraphs h"
    if "\<forall>gid\<in>set gids. idle gid h" "distinct gids" for gids h
    using that
  proof (induction gids arbitrary: h)
    case (Cons gid gids)
    obtain ss where ss: "gid < length (subgraphs h)" "cuda_streams (subgraphs h ! gid) = Some ss" "sg_num_streams (subgraphs h ! gid) = length ss"
        "\<forall>t<length ss. pending (ss ! t) = []" using Cons.prems(1) by (auto simp: idle_def)
    obtain sub' where "for_each (\<lambda>t. sub_stream t (\<lambda>(mc, s). case stream_sync s of Inl e \<Rightarrow> Inl e | Inr s \<Rightarrow> Inr (mc, s))) [0..<length ss]
        (mg_mc h, subgraphs h ! gid) = Inr (mg_mc h, sub')"
      using sync_streams_sub [OF ss(2) _ ss(4), of "[0..<length ss]" "mg_mc h"] by auto
    then have e: "?sync gid h = Inr (h\<lparr>subgraphs := (subgraphs h)[gid := sub']\<rparr>)" using ss by (simp add: on_subgraph_def)
    have "idle i (h\<lparr>subgraphs := (subgraphs h)[gid := sub']\<rparr>)" if "i \<in> set gids" for i
      using that Cons.prems by (cases "i = gid") (auto simp: idle_def)
    then show ?case using Cons.IH [of "h\<lparr>subgraphs := (subgraphs h)[gid := sub']\<rparr>"] Cons.prems(2) e by simp
  qed simp
  moreover have "idle gid g" if gid: "gid < cur_subgraphs g" for gid
  proof -
    obtain a0 H D where b: "mg_bank c {} a0 H D g" using assms by (auto simp: mg_receives_def)
    obtain ss where "cuda_streams (subgraphs g ! gid) = Some ss" "length ss = gc_threads c" "sg_num_streams (subgraphs g ! gid) = gc_threads c"
      using b gid unfolding mg_bank_def sub_shape_def by blast
    moreover have "pending (stream_of g (gid, t)) = []" if "t < gc_threads c" for t
      using b gid that by (auto simp: mg_bank_def)
    ultimately show ?thesis using b gid by (simp add: idle_def stream_of_def mg_bank_def mg_fields_def)
  qed
  ultimately show ?thesis unfolding device_synchronize_def by simp
qed

text \<open>What the sketches hold when everything has been flushed.\<close>

lemma flushed_holds:
  assumes rcv: "mg_receives c {} R g" and e: "\<forall>i<cur_subgraphs g. \<forall>v<gc_n c. gutter_empty g i v" and gid: "gid < cur_subgraphs g"
    and ids: "\<And>v. mset (ids v) = image_mset (edge_id v) (R gid v)"
  shows "mc_holds cuda_xxh (mg_mc g) gid (\<lambda>v. odd_set (ids v)) 0"
proof -
  let ?n = "gc_n c" and ?sk = "gc_sk c"
  obtain a0 H D where bank: "mg_bank c {} a0 H D g"
    and cont: "\<forall>v<?n. mg_content c D (subgraphs g ! gid) gid v = image_mset (edge_id v) (R gid v)"
    using rcv gid by (auto simp: mg_receives_def)
  have ok: "conf_ok c" and fr: "mc_fresh c (cur_subgraphs g) a0" and inv: "mcb.bank_inv ?sk a0 {} (stream_of g) (mg_mc g) H D"
      and cur: "cur_subgraphs g \<le> gc_max c" using bank by (simp_all add: mg_bank_def mg_fields_def)
  obtain bt where bt: "mset bt = D" using ex_mset by blast
  have mc: "mg_mc g = mc_add bt a0" by (rule mcb.bank_done [OF inv bt])
  have sk: "?sk = new_sketch ?n (skp_seed (gc_sp c)) (cfg_sketches_factor (gc_conf c))" "sketch_wf ?sk" "?n * gc_max c < 2 ^ 32"
    using ok unfolding conf_ok_def params_match_def by blast+
  have ref: "mc_ref (mg_mc g) = ?sk" "mc_num_vertices (mg_mc g) = ?n" using fr sk(1) by (simp_all add: mc mc_fresh_def)
  have slot: "mc_slot ?n gid v = gid * ?n + v" "gid * ?n + v < length (mc_sketches a0)" "mc_sketches a0 ! (gid * ?n + v) = Some ?sk" if "v < ?n" for v
  proof -
    have "gid * ?n + v < cur_subgraphs g * ?n" by (rule slot_bound [OF gid that])
    moreover have "cur_subgraphs g * ?n \<le> ?n * gc_max c" using cur by (simp add: mult.commute)
    ultimately have "gid * ?n + v < ?n * gc_max c" "gid * ?n + v < 2 ^ 32" "gid * ?n + v < cur_subgraphs g * ?n" using sk(3) by linarith+
    then show "mc_slot ?n gid v = gid * ?n + v" "gid * ?n + v < length (mc_sketches a0)" "mc_sketches a0 ! (gid * ?n + v) = Some ?sk"
      using fr by (simp_all add: mc_slot_def mc_fresh_def)
  qed
  define sl where "sl = map (\<lambda>v. add_ids (slot_ids bt (gid * ?n + v)) ?sk) [0..<?n]"
  have "graph_sketches ?n gid (mc_sketches (mg_mc g)) = Some sl"
    unfolding graph_sketches_iff using slot by (simp add: mc sl_def nth_mc_add)
  moreover have "sketches_shape ?sk ?n sl"
    using sk(2) by (auto simp: sketches_shape_def sl_def intro: cameo.upds_wf cameo.upds_shape)
  moreover have "sketch_repr cuda_xxh (in_bucket cuda_xxh) {..<num_buckets ?sk} (sl ! v) (odd_set (ids v))" if "v < ?n" for v
  proof -
    have "gut_list (subgraph_gutters (subgraphs g ! gid) ! v) = []" using e gid that by (simp add: gutter_empty_def gut_list_def)
    then have "mset (slot_ids bt (gid * ?n + v)) = mset (ids v)"
      using cont [rule_format, OF that] by (simp add: mg_content_def ids slot_mset_mset [symmetric] bt)
    then have "odd_set (slot_ids bt (gid * ?n + v)) = odd_set (ids v)" by (rule odd_set_mset)
    moreover have "sketch_repr cuda_xxh (in_bucket cuda_xxh) {..<num_buckets ?sk} ?sk {}" unfolding sk(1) new_sketch_def by (rule Sketch_new_repr)
    moreover have "num_buckets (add_ids (slot_ids bt (gid * ?n + v)) ?sk) = num_buckets ?sk" using cameo.upds_shape [of cuda_xxh _ ?sk] by (simp add: same_shape_def)
    ultimately show ?thesis
      using cameo.repr_upds [OF sk(2), of cuda_xxh "{}" "slot_ids bt (gid * ?n + v)"] that by (simp add: sl_def)
  qed
  moreover have "sample_idx (sl ! v) = 0" if "v < ?n" for v
  proof -
    have "sample_idx (sl ! v) = sample_idx ?sk"
      using that arg_cong [OF cameo.upds_frame [of cuda_xxh "slot_ids bt (gid * ?n + v)" ?sk], of sample_idx] by (simp add: sl_def)
    then show ?thesis by (simp add: sk(1) new_sketch_def Sketch_new_def Let_def)
  qed
  ultimately show ?thesis by (auto simp: mc_holds_def sketches_hold_def ref(2) ref(1) [unfolded ref(2)])
qed

lemma flushed_wf:
  assumes rcv: "mg_receives c {} R g" and e: "\<forall>i<cur_subgraphs g. \<forall>v<gc_n c. gutter_empty g i v"
  shows "mc_wf (mg_mc g)" "num_sketch_graphs (mg_mc g) = cur_subgraphs g" "mc_seed (mg_mc g) = skp_seed (gc_sp c)"
proof -
  obtain a0 H D where bank: "mg_bank c {} a0 H D g" using rcv by (auto simp: mg_receives_def)
  have ok: "gc_n c \<le> 2 ^ 31" "gc_n c * gc_max c < 2 ^ 32" using bank unfolding mg_bank_def conf_ok_def by blast+
  have fr: "mc_fresh c (cur_subgraphs g) a0" "cur_subgraphs g \<le> gc_max c" using bank by (simp_all add: mg_bank_def mg_fields_def)
  obtain bt where mc: "mg_mc g = mc_add bt a0" using bank unfolding mg_bank_def mcb.bank_inv_def by blast
  show "num_sketch_graphs (mg_mc g) = cur_subgraphs g" "mc_seed (mg_mc g) = skp_seed (gc_sp c)" using fr by (simp_all add: mc mc_fresh_def)
  have "\<exists>sl. graph_sketches (mc_num_vertices (mg_mc g)) gid (mc_sketches (mg_mc g)) = Some sl \<and>
      sketches_shape (mc_ref (mg_mc g)) (mc_num_vertices (mg_mc g)) sl" if "gid < cur_subgraphs g" for gid
  proof -
    have "\<forall>v. \<exists>xs. mset xs = image_mset (edge_id v) (R gid v)" using ex_mset by blast
    then obtain ids where "\<forall>v. mset (ids v) = image_mset (edge_id v) (R gid v)" by metis
    from flushed_holds [OF rcv e that spec [OF this]] show ?thesis by (auto simp: mc_holds_def sketches_hold_def)
  qed
  moreover have "mc_dsu (mg_mc g) = mc_dsu a0" "mc_spanning_forest (mg_mc g) = mc_spanning_forest a0" "mc_delta_sketches (mg_mc g) = mc_delta_sketches a0"
    by (simp_all add: mc mc_add_def)
  ultimately show "mc_wf (mg_mc g)" using fr ok by (simp add: mc_wf_def mc mc_fresh_def)
qed

section \<open>Construction\<close>

lemma init_subgraph_cur:
  "init_subgraph mem gid (g\<lparr>cur_subgraphs := k\<rparr>) = on_inr (\<lambda>g. g\<lparr>cur_subgraphs := k\<rparr>) (init_subgraph mem gid g)"
  by (simp add: init_subgraph_def split: sum.split)

lemma init_subgraphs_receives:
  assumes "mg_receives c (all_streams c (g\<lparr>cur_subgraphs := k\<rparr>)) (\<lambda>_ _. {#}) (g\<lparr>cur_subgraphs := k\<rparr>)" "k \<le> initial" "initial \<le> gc_max c"
    "cur_subgraphs g = initial"
  shows "\<exists>g'. for_each (init_subgraph mem) [k..<initial] g = Inr g' \<and> same_rest g' g \<and> mg_receives c (all_streams c g') (\<lambda>_ _. {#}) g'"
  using assms
proof (induction "initial - k" arbitrary: k g)
  case 0
  then show ?case by (cases g) simp
next
  case (Suc m)
  let ?g = "g\<lparr>cur_subgraphs := k\<rparr>"
  have k: "k < initial" "[k..<initial] = k # [k + 1..<initial]" "m = initial - (k + 1)" using Suc.hyps(2) by (simp_all add: upt_conv_Cons)
  obtain g1 where g1: "init_subgraph mem k ?g = Inr g1" "same_rest g1 ?g"
      "mg_receives c (all_streams c (g1\<lparr>cur_subgraphs := k + 1\<rparr>)) (\<lambda>_ _. {#}) (g1\<lparr>cur_subgraphs := k + 1\<rparr>)"
    using init_subgraph_receives [OF Suc.prems(1), of mem] k(1) Suc.prems(3) by auto
  let ?g1 = "g1\<lparr>cur_subgraphs := initial\<rparr>"
  have "g = ?g\<lparr>cur_subgraphs := initial\<rparr>" using Suc.prems(4) by (cases g) simp
  then have e: "init_subgraph mem k g = Inr ?g1" using init_subgraph_cur [where g = ?g and k = initial and gid = k and mem = mem] g1(1) by simp
  have s1: "same_rest ?g1 g"
    using g1(2) Suc.prems(4) unfolding same_rest_def by (cases g, cases g1) simp
  have "mg_receives c (all_streams c (?g1\<lparr>cur_subgraphs := k + 1\<rparr>)) (\<lambda>_ _. {#}) (?g1\<lparr>cur_subgraphs := k + 1\<rparr>)" using g1(3) by simp
  then obtain g' where "for_each (init_subgraph mem) [k + 1..<initial] ?g1 = Inr g'" "same_rest g' ?g1" "mg_receives c (all_streams c g') (\<lambda>_ _. {#}) g'"
    using Suc.hyps(1) [OF k(3), of ?g1] k(1) Suc.prems(3) by auto
  then show ?case using e s1 same_rest_trans unfolding k(2) by auto
qed

definition mg_new :: "gpu_mem \<Rightarrow> nat list \<Rightarrow> gpu_conf \<Rightarrow> nat \<Rightarrow> nat \<Rightarrow> nat \<Rightarrow> error + mc_gpu" where
  "mg_new mem prio c subs bytes initial =
     MCGPUSketchAlg_new mem prio (gc_n c) (gc_threads c) (gc_nb c) (gc_sp c) subs (gc_max c) bytes initial (gc_conf c)"

lemma mg_new_state:
  assumes ok: "conf_ok c" and i: "initial \<le> gc_max c" and pos: "0 < gc_max c" and prio: "gc_n c \<le> length prio"
  shows "\<exists>g. mg_new mem prio c subs bytes initial = Inr g \<and> mg_state c subs (\<lambda>_ _. []) (\<lambda>_. []) g \<and>
    cur_subgraph (edge_store g) = initial \<and> cur_subgraphs g = initial"
proof -
  let ?n = "gc_n c" and ?sk = "gc_sk c"
  have c: "?sk = new_sketch ?n (skp_seed (gc_sp c)) (cfg_sketches_factor (gc_conf c))" "params_match (gc_sp c) ?sk" "0 < ?n" "?n \<le> 2 ^ 31" "?n * gc_max c < 2 ^ 32"
      "gc_bs c = nat \<lfloor>real (num_buckets ?sk * bucket_size TYPE(64) div 4) * cfg_batch_factor (gc_conf c)\<rfloor>"
    using ok unfolding conf_ok_def by blast+
  have un: "unat (of_nat ?n :: 32 word) = ?n" using c(4) by (simp add: unat_of_nat)
  then have "(of_nat ?n :: 32 word) \<noteq> 0" using c(3) by (metis less_irrefl unsigned_0)
  then obtain es where es: "EdgeStore_new (contraction_mem mem) (skp_seed (gc_sp c)) (of_nat ?n) bytes subs initial = Inr es"
    by (simp add: EdgeStore_new_def)
  note en = EdgeStore_new_inv [OF es, unfolded un]
  have ep: "es_params es = (skp_seed (gc_sp c), subs)" using es by (auto simp: EdgeStore_new_def es_params_def split: if_splits)
  define mc where "mc = (MCSketchAlg_new prio ?n (skp_seed (gc_sp c)) (gc_max c) (gc_conf c) :: 64 word MC)"
  have len: "length (mc_sketches mc) = ?n * gc_max c" using c(5) by (simp add: mc_def MCSketchAlg_new_def)
  have s: "mc_sketches mc ! k = (if k = 0 then Some ?sk else None)" if "k < ?n * gc_max c" for k
    using that c(1,5) by (cases "k = 0") (simp_all add: mc_def MCSketchAlg_new_def)
  have wf: "sketch_wf ?sk" using c(2) by (simp add: params_match_def)
  have good: "mc_good ?sk mc" using c(2) wf s len by (auto simp: mc_good_def split: if_splits)
  have fresh: "mc_fresh c 0 mc"
    using s [of 0] c(3) len DSU_new_inv [OF prio] by (auto simp: mc_fresh_def mc_def MCSketchAlg_new_def dsu_shape_def)
  define g where "g = \<lparr>mg_mc = mc, default_skt_params = gc_sp c, mg_num_nodes = ?n, num_subgraphs = subs, cur_subgraphs = initial,
    mg_host_threads = gc_threads c, mg_batches_per_buffer = gc_nb c, subgraphs = map (\<lambda>i. SketchSubgraph_new (subgraph_mem mem i)) [0..<gc_max c],
    edge_store = es, mg_batch_size = mc_get_desired_updates_per_batch mc\<rparr>"
  have bs: "mc_get_desired_updates_per_batch mc = gc_bs c"
    using desired_bs [OF ok fresh good pos, of "[]"] by (simp add: mcb.add_Nil [OF good])
  have new: "mg_new mem prio c subs bytes initial = for_each (init_subgraph mem) [0..<initial] g"
    using es i by (simp add: mg_new_def MCGPUSketchAlg_new_def g_def mc_def Let_def)
  have "mcb.bank_inv ?sk mc {} (stream_of (g\<lparr>cur_subgraphs := 0\<rparr>)) mc (\<lambda>_. []) {#}" by (rule mcb.bank_new [OF good]) auto
  then have "mg_bank c {} mc (\<lambda>_. []) {#} (g\<lparr>cur_subgraphs := 0\<rparr>)"
    using ok fresh bs by (simp add: mg_bank_def mg_fields_def g_def)
  then have "mg_receives c {} (\<lambda>_ _. {#}) (g\<lparr>cur_subgraphs := 0\<rparr>)" by (auto simp: mg_receives_def)
  then have "mg_receives c (all_streams c (g\<lparr>cur_subgraphs := 0\<rparr>)) (\<lambda>_ _. {#}) (g\<lparr>cur_subgraphs := 0\<rparr>)" by simp
  then obtain g' where g': "for_each (init_subgraph mem) [0..<initial] g = Inr g'" "same_rest g' g" "mg_receives c (all_streams c g') (\<lambda>_ _. {#}) g'"
    using init_subgraphs_receives [where c = c and g = g and k = 0 and initial = initial and mem = mem] i by (auto simp: g_def)
  note f = same_rest_fields [OF g'(2)]
  have "mg_state c subs (\<lambda>_ _. []) (\<lambda>_. []) g'"
    using g'(3) en ep unfolding mg_state_def f by (simp add: g_def)
  then show ?thesis using new g'(1) f en(3) by (auto simp: g_def)
qed

section \<open>The sketches of the subgraphs\<close>

lemma mg_flushed:
  assumes "conf_ok c" "0 < gc_max c" "initial \<le> gc_max c" "0 < subs" "subs < 64" "\<forall>i. sched i < gc_threads c"
    and new: "mg_new mem prio c subs bytes initial = Inr g0" and prio: "gc_n c \<le> length prio"
    and "list_all (mg_event_ok c) es" "level_bounded xxh mem env c es g0"
  shows "\<exists>g1 g2. mg_run xxh mem env es g0 = Inr g1 \<and> finish_contraction mem env sched 0 g1 = Some (Inr g2) \<and>
    (launched (all_streams c g2) g2 \<longrightarrow>
      (\<exists>g3. apply_flush_updates mem env sched g1 = Some (Inr g3) \<and> get_num_sketch_graphs g3 = get_num_sketch_graphs g2 \<and>
        mc_wf (mg_mc g3) \<and> num_sketch_graphs (mg_mc g3) = get_num_sketch_graphs g3 \<and> mc_seed (mg_mc g3) = skp_seed (gc_sp c) \<and> mc_num_vertices (mg_mc g3) = gc_n c \<and> es_n (edge_store g3) = gc_n c \<and>
        (\<forall>i < min subs (get_num_sketch_graphs g3). mc_holds cuda_xxh (mg_mc g3) i
           (\<lambda>v. {x \<in> odd_set (vertex_ids (mg_batches es) v). i \<le> edge_depth xxh (skp_seed (gc_sp c)) subs x}) 0) \<and>
        (get_num_sketch_graphs g3 < subs \<longrightarrow> (\<forall>v < gc_n c. odd_set (map (\<lambda>u. edge_id v (stu_dst u)) (adjlist (edge_store g3) ! v)) =
           {x \<in> odd_set (vertex_ids (mg_batches es) v). get_num_sketch_graphs g3 \<le> edge_depth xxh (skp_seed (gc_sp c)) subs x}))))"
proof -
  let ?d = "edge_depth xxh (skp_seed (gc_sp c)) subs"
  obtain g1 rcv0 hist where g1: "mg_run xxh mem env es g0 = Inr g1" "mg_state c subs rcv0 hist g1" and h: "mg_history xxh c subs es hist"
    using mg_new_state [OF assms(1,3,2) prio, of mem subs bytes] new mg_run_state [OF _ assms(9,4,5,10)] by auto
  have "cur_subgraph (edge_store g1) \<le> min 16 (gc_max c)"
    using assms(10) g1(1) unfolding level_bounded_def by (auto dest: spec [of _ "length es"])
  then obtain g2 rcv where g2: "finish_contraction mem env sched 0 g1 = Some (Inr g2)" "mg_state c subs rcv hist g2" "\<not> contract_in_progress (edge_store g2)"
    using finish_contraction_state [OF g1(2), of sched mem env 0] assms(6) by auto
  let ?s = "edge_store g2" and ?cur = "cur_subgraphs g2"
  have S: "mg_receives c (all_streams c g2) (rcv_dsts rcv) g2" "es_inv ?s" "es_n ?s = gc_n c" "es.accounts ?s rcv hist"
      "?cur \<le> cur_subgraph ?s" "cur_subgraph ?s \<le> ?cur + 1" "\<forall>i\<ge>?cur. \<forall>v. rcv i v = []"
    using g2(2) by (simp_all add: mg_state_def)
  have tg: "tags_ok xxh (skp_seed (gc_sp c)) subs v (hist v)" and hv: "map (\<lambda>u. edge_id v (stu_dst u)) (hist v) = vertex_ids (mg_batches es) v" for v
    using h by (simp_all add: mg_history_def)
  have set: "odd_set (adjlist ?s ! v) = {u \<in> odd_set (hist v). cur_subgraph ?s \<le> subgraph u}"
      "i < cur_subgraph ?s \<Longrightarrow> odd_set (rcv i v) = {u \<in> odd_set (hist v). i \<le> subgraph u}" if "v < gc_n c" for v i
    using es.accounts_settled(1) [OF S(2,4), of v] es.accounts_settled(2) [OF S(2,4), of v i] that S(3) g2(3)
    by (simp_all add: es_pending_def es_content_def)
  have store: "odd_set (adjlist ?s ! v) = {u \<in> odd_set (hist v). ?cur \<le> subgraph u}" if "v < gc_n c" for v
  proof (cases "cur_subgraph ?s = ?cur")
    case False
    then have "{u \<in> odd_set (hist v). ?cur \<le> subgraph u} = {}" using set(2) [OF that, of ?cur] S(5-7) by auto
    then show ?thesis using set(1) [OF that] S(5) by auto
  qed (use set(1) [OF that] in simp)
  have flush: "\<exists>g3. apply_flush_updates mem env sched g1 = Some (Inr g3) \<and> edge_store g3 = ?s \<and> cur_subgraphs g3 = ?cur \<and> mc_num_vertices (mg_mc g3) = gc_n c \<and>
      mc_wf (mg_mc g3) \<and> num_sketch_graphs (mg_mc g3) = ?cur \<and> mc_seed (mg_mc g3) = skp_seed (gc_sp c) \<and> (\<forall>i<?cur. mc_holds cuda_xxh (mg_mc g3) i (\<lambda>v. odd_set (map (\<lambda>u. edge_id v (stu_dst u)) (rcv i v))) 0)"
    if la: "launched (all_streams c g2) g2"
  proof -
    obtain g where g: "for_each (\<lambda>gid. on_subgraph gid (sub_flush (env gid))) [0..<?cur] g2 = Inr g" "same_rest g g2"
        "mg_receives c {} (rcv_dsts rcv) g" "\<forall>i<?cur. \<forall>v<gc_n c. gutter_empty g i v"
      using flush_all_receives [of c 0 g2 "rcv_dsts rcv" env] S(1) la by (auto simp: atLeast0LessThan)
    note f = same_rest_fields [OF g(2)]
    obtain g3 where g3: "device_synchronize g = Inr g3" "mg_mc g3 = mg_mc g" "edge_store g3 = edge_store g" "cur_subgraphs g3 = cur_subgraphs g"
      using device_synchronize_idle [OF g(3)] by blast
    have "mc_holds cuda_xxh (mg_mc g3) i (\<lambda>v. odd_set (map (\<lambda>u. edge_id v (stu_dst u)) (rcv i v))) 0" if "i < ?cur" for i
      unfolding g3(2) by (rule flushed_holds [OF g(3)]) (use g(4) that f in \<open>auto simp: image_mset.compositionality o_def\<close>)
    then show ?thesis using g(1) g2(1) g3 f mg_receives_facts(6) [OF g(3)] flushed_wf [OF g(3)] g(4) by (simp add: apply_flush_updates_def flush_subgraphs_def)
  qed
  have holds: "(\<forall>i < min subs ?cur. mc_holds cuda_xxh mc i (\<lambda>v. {x \<in> odd_set (vertex_ids (mg_batches es) v). i \<le> ?d x}) 0)"
    if mc: "\<forall>i<?cur. mc_holds cuda_xxh mc i (\<lambda>v. odd_set (map (\<lambda>u. edge_id v (stu_dst u)) (rcv i v))) 0" "mc_num_vertices mc = gc_n c" for mc
  proof (intro allI impI)
    fix i assume i: "i < min subs ?cur"
    have "odd_set (map (\<lambda>u. edge_id v (stu_dst u)) (rcv i v)) = {x \<in> odd_set (vertex_ids (mg_batches es) v). i \<le> ?d x}" if "v < gc_n c" for v
      unfolding hv [symmetric] by (rule odd_ids [OF tg]) (use i that set(2) [of v i] S(5) in auto)
    then show "mc_holds cuda_xxh mc i (\<lambda>v. {x \<in> odd_set (vertex_ids (mg_batches es) v). i \<le> ?d x}) 0"
      using mc i by (auto simp: mc_holds_def sketches_hold_def)
  qed
  have stored: "odd_set (map (\<lambda>u. edge_id v (stu_dst u)) (adjlist ?s ! v)) = {x \<in> odd_set (vertex_ids (mg_batches es) v). ?cur \<le> ?d x}"
    if "v < gc_n c" "?cur < subs" for v
    unfolding hv [symmetric] by (rule odd_ids [OF tg that(2) store [OF that(1)]])
  have "\<exists>g3. apply_flush_updates mem env sched g1 = Some (Inr g3) \<and> cur_subgraphs g3 = ?cur \<and>
      mc_wf (mg_mc g3) \<and> num_sketch_graphs (mg_mc g3) = cur_subgraphs g3 \<and> mc_seed (mg_mc g3) = skp_seed (gc_sp c) \<and> mc_num_vertices (mg_mc g3) = gc_n c \<and> es_n (edge_store g3) = gc_n c \<and>
      (\<forall>i < min subs (cur_subgraphs g3). mc_holds cuda_xxh (mg_mc g3) i (\<lambda>v. {x \<in> odd_set (vertex_ids (mg_batches es) v). i \<le> ?d x}) 0) \<and>
      (cur_subgraphs g3 < subs \<longrightarrow> (\<forall>v < gc_n c. odd_set (map (\<lambda>u. edge_id v (stu_dst u)) (adjlist (edge_store g3) ! v)) =
         {x \<in> odd_set (vertex_ids (mg_batches es) v). cur_subgraphs g3 \<le> ?d x}))" if la: "launched (all_streams c g2) g2"
  proof -
    obtain g3 where g3: "apply_flush_updates mem env sched g1 = Some (Inr g3)" "edge_store g3 = ?s" "cur_subgraphs g3 = ?cur" "mc_num_vertices (mg_mc g3) = gc_n c"
        "mc_wf (mg_mc g3)" "num_sketch_graphs (mg_mc g3) = ?cur" "mc_seed (mg_mc g3) = skp_seed (gc_sp c)" "\<forall>i<?cur. mc_holds cuda_xxh (mg_mc g3) i (\<lambda>v. odd_set (map (\<lambda>u. edge_id v (stu_dst u)) (rcv i v))) 0"
      using flush [OF la] by blast
    show ?thesis using g3(1,4-7) S(3) holds [OF g3(8,4)] stored unfolding g3(2,3) [symmetric] by blast
  qed
  then show ?thesis using g1(1) g2(1) unfolding get_num_sketch_graphs_def by blast
qed


section \<open>An example\<close>

lemma process_batch_launches:
  assumes "process_batch ap e src dsts (a, s) = Inr (a', s')" "\<not> cudaUVM_enabled (sketchParams s)" "batch_count s + 1 = batch_limit s"
  shows "\<not> first_buffer s'"
proof -
  obtain s1 where s1: "fill_batch src dsts s = Inr s1" "batch_count s1 = batch_count s + 1" "batch_limit s1 = batch_limit s"
    using assms by (auto simp: process_batch_def process_batch_default_def fill_batch_def Let_def split: sum.splits if_splits)
  then show ?thesis using assms by (auto simp: process_batch_def process_batch_default_def split: sum.splits)
qed

lemma batch_insert_launches:
  assumes "batch_insert env t src dsts num (mc, sub) = Inr (mc', sub')" "cuda_streams sub = Some ss"
    "sg_batch_size sub - gut_elms (subgraph_gutters sub ! src) \<le> num"
    "\<not> cudaUVM_enabled (sketchParams (ss ! t))" "batch_count (ss ! t) + 1 = batch_limit (ss ! t)"
  shows "\<not> first_buffer (the (cuda_streams sub') ! t)"
  using assms
  by (auto simp: batch_insert_def sub_apply_update_batch_def sub_stream_def Let_def
      split: if_splits sum.splits prod.splits dest!: process_batch_launches)

definition mc_gpu_example_conf :: "nat \<Rightarrow> gpu_conf" where
  "mc_gpu_example_conf b = \<lparr>gc_sk = new_sketch 2 7 1, gc_n = 2, gc_bs = b, gc_nb = 1, gc_threads = 1, gc_sp = gpu_example_params, gc_max = 1,
     gc_conf = CCAlgConfiguration_new\<lparr>cfg_batch_factor := real b / 76\<rparr>\<rparr>"

definition mc_gpu_example_mem :: gpu_mem where
  "mc_gpu_example_mem = \<lparr>stream_mem = (\<lambda>gid t. example_junk), managed_mem = (\<lambda>gid. []),
     subgraph_mem = (\<lambda>gid. \<lparr>sg_num_updates = 99, cuda_streams = None, sg_params = gpu_example_params, sg_num_streams = 99, sg_num_nodes = 99,
       sg_batch_size = 99, subgraph_gutters = [], sg_managed = []\<rparr>), contraction_mem = 99\<rparr>"

lemma mc_gpu_example_ok:
  assumes "16 < b" "b < 32"
  shows "conf_ok (mc_gpu_example_conf b)"
  unfolding conf_ok_def using assms
  by (simp add: mc_gpu_example_conf_def gpu_example_params_def new_sketch_two params_match_def sketch_wf_def int_loop_ok_def
      mg_device_threads_def bucket_size_def CCAlgConfiguration_new_def)

lemma for_each_single: "for_each f [x] s = f x s"
  by (simp split: sum.split)

lemma local_buffer_fills:
  assumes "length buf = 16" "k + length us < 16"
  shows "\<exists>buf'. length buf' = 16 \<and> for_each (\<lambda>d. buffer_dst env t src (stu_dst d) 0) us (([buf], k # ks), g) = Inr (([buf'], (k + length us) # ks), g)"
  using assms
proof (induction us arbitrary: buf k)
  case (Cons u us)
  then have "length (buf[k := stu_dst u]) = 16" "(k + 1) + length us < 16" by simp_all
  from Cons.IH [OF this] show ?case using Cons.prems by (simp add: buffer_dst_def)
qed simp

text \<open>The updates of one batch fill a gutter of that size: sixteen by the local buffer, the others by its flush.\<close>

lemma complete_launches:
  assumes run: "complete_update_batch mem env 0 \<lparr>tub_src = 0, min_subgraph = 0, first_es_subgraph = 1, dsts_data = replicate b (STU 0 1)\<rparr> g = Inr g1"
    and g: "cur_subgraphs g = 1" "subgraphs g = [sub]" "cuda_streams sub = Some ss" "sg_batch_size sub = b" "0 < length (subgraph_gutters sub)"
      "gut_elms (subgraph_gutters sub ! 0) = 0" "\<not> cudaUVM_enabled (sketchParams (ss ! 0))" "batch_count (ss ! 0) + 1 = batch_limit (ss ! 0)"
    and b: "16 < b" "b < 32"
  shows "\<not> first_buffer (stream_of g1 (0, 0)) \<and> edge_store g1 = edge_store g \<and> cur_subgraphs g1 = 1"
proof -
  let ?u = "STU 0 1" and ?step = "\<lambda>d. buffer_dst env 0 0 (stu_dst d) 0" and ?j = "b - 16"
  have "b = 15 + Suc ?j" and j: "?j < 16" using b by simp_all
  then have r: "replicate b ?u = replicate 15 ?u @ ?u # replicate ?j ?u" by (metis replicate_add replicate_Suc)
  have z: "replicate 16 (0 :: nat) = 0 # replicate 15 0" by (simp add: numeral_eq_Suc)
  obtain buf where buf: "length buf = 16" "for_each ?step (replicate 15 ?u) (([replicate 16 0], replicate 16 0), g) = Inr (([buf], 15 # replicate 15 0), g)"
    using local_buffer_fills [of "replicate 16 0" 0 "replicate 15 ?u" env 0 0 "replicate 15 0" g] unfolding z by auto
  define b1 where "b1 = buf[15 := 1]"
  obtain st where st: "for_each ?step (replicate 15 ?u @ ?u # replicate ?j ?u) (([replicate 16 0], replicate 16 0), g) = Inr st" "\<exists>l. flush_local env 0 0 0 st = Inr (l, g1)"
    using run g(1) unfolding complete_update_batch_def r [symmetric]
    by (auto simp: ensure_subgraph_def for_each_single [abs_def] Let_def split: sum.splits)
  obtain g' where g': "on_subgraph 0 (batch_insert (env 0) 0 0 b1 16) g = Inr g'" "for_each ?step (replicate ?j ?u) (([b1], 0 # replicate 15 0), g') = Inr st"
    using st(1) unfolding for_each_append buf(2) by (auto simp: buffer_dst_def b1_def Let_def split: sum.splits)
  obtain b2 where b2: "length b2 = 16" "st = (([b2], ?j # replicate 15 0), g')"
    using local_buffer_fills [of b1 0 "replicate ?j ?u" env 0 0 "replicate 15 0" g'] g'(2) j buf(1) by (auto simp: b1_def)
  have g1: "on_subgraph 0 (batch_insert (env 0) 0 0 b2 ?j) g' = Inr g1"
    using st(2) b unfolding b2(2) by (auto simp: flush_local_def Let_def split: sum.splits)
  obtain sub' where sub': "subgraphs g' = [sub']" "cuda_streams sub' = Some ss" "sg_batch_size sub' = b" "gut_elms (subgraph_gutters sub' ! 0) = 16"
      "edge_store g' = edge_store g" "cur_subgraphs g' = 1"
    using g'(1) g b by (auto simp: on_subgraph_def batch_insert_def Let_def split: if_splits)
  obtain mc'' sub'' where "batch_insert (env 0) 0 0 b2 ?j (mg_mc g', sub') = Inr (mc'', sub'')" "subgraphs g1 = [sub'']" "edge_store g1 = edge_store g" "cur_subgraphs g1 = 1"
    using g1 sub'(1,5,6) by (auto simp: on_subgraph_def split: sum.splits)
  then show ?thesis using batch_insert_launches [OF _ sub'(2), of "env 0" 0 0 b2 ?j "mg_mc g'" mc'' sub''] sub' g(7,8) by (simp add: stream_of_def)
qed

abbreviation mc_gpu_example_env :: launches where
  "mc_gpu_example_env \<equiv> \<lambda>gid t k. example_env"

lemma mc_gpu_example_start:
  assumes "mg_new mc_gpu_example_mem [3, 4] (mc_gpu_example_conf b) 1 bytes 1 = Inr g"
  obtains sub ss where "subgraphs g = [sub]" "cuda_streams sub = Some ss" "sg_batch_size sub = b" "0 < length (subgraph_gutters sub)"
    "gut_elms (subgraph_gutters sub ! 0) = 0" "\<not> cudaUVM_enabled (sketchParams (ss ! 0))" "batch_count (ss ! 0) + 1 = batch_limit (ss ! 0)"
proof -
  have bs: "mc_get_desired_updates_per_batch (MCSketchAlg_new [3, 4] 2 7 1 (CCAlgConfiguration_new\<lparr>cfg_batch_factor := real b / 76\<rparr>) :: 64 word MC) = b"
    by (simp add: mc_get_desired_updates_per_batch_def MCSketchAlg_new_def Let_def new_sketch_two bucket_size_def CCAlgConfiguration_new_def)
  show thesis
    by (rule that)
      (use assms bs in \<open>auto simp: mg_new_def MCGPUSketchAlg_new_def mc_gpu_example_conf_def Let_def init_subgraph_def subgraph_initialize_def
         gpu_example_params_def CudaStream_new_def split: sum.splits if_splits\<close>)
qed

lemma mc_gpu_example_new:
  assumes b: "16 < b" "b < 32"
  obtains g0 where "mg_new mc_gpu_example_mem [3, 4] (mc_gpu_example_conf b) 1 1000 1 = Inr g0" "mg_state (mc_gpu_example_conf b) 1 (\<lambda>_ _. []) (\<lambda>_. []) g0"
    "cur_subgraph (edge_store g0) = 1" "cur_subgraphs g0 = 1"
    "level_bounded cuda_xxh mc_gpu_example_mem mc_gpu_example_env (mc_gpu_example_conf b) [MBatch 0 0 (replicate b 1)] g0"
proof -
  let ?c = "mc_gpu_example_conf b" and ?mem = mc_gpu_example_mem
  have c: "gc_max ?c = 1" "gc_threads ?c = 1" "gc_n ?c = 2" "gc_bs ?c = b" by (simp_all add: mc_gpu_example_conf_def)
  obtain g0 where g0: "mg_new ?mem [3, 4] ?c 1 1000 1 = Inr g0" "mg_state ?c 1 (\<lambda>_ _. []) (\<lambda>_. []) g0"
      "cur_subgraph (edge_store g0) = 1" "cur_subgraphs g0 = 1"
    using mg_new_state [OF mc_gpu_example_ok [OF b], of 1 "[3, 4]" ?mem 1 1000] c by auto
  have "level_bounded cuda_xxh ?mem mc_gpu_example_env ?c [MBatch 0 0 (replicate b 1)] g0"
    by (rule level_bounded_subs [OF g0(2)]) (use g0(3) c in simp_all)
  then show thesis using that g0 by blast
qed

text \<open>After the batch every stream has been launched, and no contraction is left.\<close>

lemma mc_gpu_example_run:
  assumes b: "16 < b" "b < 32"
    and g0: "mg_new mc_gpu_example_mem [3, 4] (mc_gpu_example_conf b) 1 1000 1 = Inr g0" "mg_state (mc_gpu_example_conf b) 1 (\<lambda>_ _. []) (\<lambda>_. []) g0"
      "cur_subgraph (edge_store g0) = 1" "cur_subgraphs g0 = 1"
    and g: "mg_run cuda_xxh mc_gpu_example_mem mc_gpu_example_env [MBatch 0 0 (replicate b 1)] g0 = Inr g1"
      "finish_contraction mc_gpu_example_mem mc_gpu_example_env (\<lambda>i. 0) 0 g1 = Some (Inr g2)"
  shows "g2 = g1" "get_num_sketch_graphs g2 = 1" "launched (all_streams (mc_gpu_example_conf b) g2) g2"
proof -
  let ?c = "mc_gpu_example_conf b"
  have c: "gc_threads ?c = 1" "gc_bs ?c = b" by (simp_all add: mc_gpu_example_conf_def)
  obtain sub ss where s: "subgraphs g0 = [sub]" "cuda_streams sub = Some ss" "sg_batch_size sub = b" "0 < length (subgraph_gutters sub)"
    "gut_elms (subgraph_gutters sub ! 0) = 0" "\<not> cudaUVM_enabled (sketchParams (ss ! 0))" "batch_count (ss ! 0) + 1 = batch_limit (ss ! 0)"
    by (rule mc_gpu_example_start [OF g0(1)])
  have f: "\<not> mc_update_locked (mg_mc g0)" "mg_host_threads g0 = 1" "mg_batch_size g0 = b" "default_skt_params g0 = gc_sp ?c" "num_subgraphs g0 = 1"
    using mg_receives_facts [of ?c] g0(2) c unfolding mg_state_def by auto
  have tags: "map (tag_update cuda_xxh (skp_seed (gc_sp ?c)) (pred64 1) 0) (replicate b 1) = replicate b (STU 0 1)"
    using get_index_depth_le [of 0] by (simp add: tag_update_def pred64_def)
  have "complete_update_batch mc_gpu_example_mem mc_gpu_example_env 0 \<lparr>tub_src = 0, min_subgraph = 0, first_es_subgraph = 1, dsts_data = replicate b (STU 0 1)\<rparr> g0 = Inr g1"
    using g(1) f g0(3) tags b
    by (auto simp: mg_run_def mg_apply_update_batch_def get_first_store_subgraph_def Let_def insert_adj_edges_def complete_more_def split: sum.splits)
  then have e: "\<not> first_buffer (stream_of g1 (0, 0))" "edge_store g1 = edge_store g0" "cur_subgraphs g1 = 1"
    using complete_launches [OF _ g0(4) s b] by blast+
  have "\<not> contract_in_progress (edge_store g0)"
    using g0(1) by (auto simp: mg_new_def MCGPUSketchAlg_new_def EdgeStore_new_def mc_gpu_example_conf_def Let_def init_subgraph_def contract_in_progress_def
        split: sum.splits if_splits)
  then show "g2 = g1" using g(2) e(2) by (subst (asm) finish_contraction.simps) simp
  then show "get_num_sketch_graphs g2 = 1" "launched (all_streams ?c g2) g2" using e c by (auto simp: launched_def get_num_sketch_graphs_def)
qed


end
