(* ===== verification/MC_Min_Cut.thy ===== *)
theory MC_Min_Cut
  imports MC_Correctness
begin

text \<open>
  Why the minimum cut can be read off \<open>k\<close> disjoint spanning forests, and the deletion of forest
  edges from the sketches (\<^verbatim>\<open>filter_sf_edges\<close>, \<^verbatim>\<open>calc_disjoint_spanning_forests\<close> and
  \<^verbatim>\<open>calc_minimum_cut\<close> of src/mc_sketch_alg.cpp).
\<close>

section \<open>Forests keep small cuts\<close>

lemma edge_cut_mono: "E \<subseteq> E' \<Longrightarrow> edge_cut E A \<subseteq> edge_cut E' A"
  by (auto simp: edge_cut_def)

lemma edge_cut_diff: "edge_cut (E - F) A = edge_cut E A - edge_cut F A"
  by (auto simp: edge_cut_def)

lemma edge_cut_Un: "edge_cut (E \<union> F) A = edge_cut E A \<union> edge_cut F A"
  by (auto simp: edge_cut_def)

text \<open>A spanning forest crosses every cut that the graph crosses.\<close>

lemma forest_crosses:
  assumes "spanning_forest_of (edges_of E) (set es)" "graph_ids n E" "n \<le> 2 ^ 32" "edge_cut E A \<noteq> {}"
  shows "edge_cut (edge_ids es) A \<noteq> {}"
proof
  assume none: "edge_cut (edge_ids es) A = {}"
  have sub: "set es \<subseteq> edges_of E" "econn (set es) = econn (edges_of E)" using assms(1) by (auto simp: spanning_forest_of_def)
  note i = edge_ids_forest [OF assms(2,3) sub(1)]
  have side: "u \<in> A \<longleftrightarrow> v \<in> A" if "(u, v) \<in> set es" for u v
  proof -
    have "u < v \<and> v < n" using i(2) that by blast
    then have "edge_of (edge_id u v) = (u, v)" using edge_of_ordered [of u v] assms(3) by simp
    moreover have "edge_id u v \<in> edge_ids es" using that by (auto simp: edge_ids_def)
    ultimately show ?thesis using none by (force simp: edge_cut_def)
  qed
  obtain x where x: "x \<in> E" "fst (edge_of x) \<in> A \<longleftrightarrow> snd (edge_of x) \<notin> A" using assms(4) by (auto simp: edge_cut_def)
  have "(fst (edge_of x), snd (edge_of x)) \<in> edges_of E" using x(1) by (simp add: edges_of_def)
  then have c: "econn (set es) (fst (edge_of x)) (snd (edge_of x))" using sub(2) econn_edge by simp
  then have "fst (edge_of x) \<in> A \<Longrightarrow> snd (edge_of x) \<in> A" "fst (edge_of x) \<in> - A \<Longrightarrow> snd (edge_of x) \<in> - A"
    using econn_closed [OF c, of A] econn_closed [OF c, of "- A"] side by blast+
  then show False using x(2) by blast
qed

lemma disjoint_forests_cut:
  assumes "disjoint_forests E sfs" "graph_ids n E" "n \<le> 2 ^ 32"
  shows "min (length sfs) (card (edge_cut E A)) \<le> card (edge_cut (edge_ids (concat (map get_edges sfs))) A)"
  using assms
proof (induction sfs arbitrary: E)
  case (Cons sf sfs)
  let ?F = "edge_ids (get_edges sf)" and ?R = "edge_ids (concat (map get_edges sfs))"
  have f: "spanning_forest_of (edges_of E) (set (get_edges sf))" "disjoint_forests (E - ?F) sfs" using Cons.prems(1) by auto
  then have sub: "set (get_edges sf) \<subseteq> edges_of E" by (simp add: spanning_forest_of_def)
  have FE: "?F \<subseteq> E" by (rule edge_ids_forest(1) [OF Cons.prems(2,3) sub])
  have g: "graph_ids n (E - ?F)" using Cons.prems(2) by (auto simp: graph_ids_def)
  have fin: "finite E" using Cons.prems(2) by (simp add: graph_ids_def)
  have RE: "?R \<subseteq> E - ?F" using disjoint_forests_ids [OF f(2) g Cons.prems(3)] by blast
  have finc: "finite (edge_cut X A)" if "X \<subseteq> E" for X using that fin finite_subset by (auto simp: edge_cut_def)
  have "edge_ids (concat (map get_edges (sf # sfs))) = ?F \<union> ?R" by (auto simp: edge_ids_def)
  moreover have "edge_cut ?F A \<inter> edge_cut ?R A = {}" using RE by (auto simp: edge_cut_def)
  ultimately have sum: "card (edge_cut (edge_ids (concat (map get_edges (sf # sfs)))) A) = card (edge_cut ?F A) + card (edge_cut ?R A)"
    using finc FE RE by (simp add: edge_cut_Un card_Un_disjoint)
  have IH: "min (length sfs) (card (edge_cut (E - ?F) A)) \<le> card (edge_cut ?R A)" by (rule Cons.IH [OF f(2) g Cons.prems(3)])
  have "card (edge_cut (E - ?F) A) = card (edge_cut E A) - card (edge_cut ?F A)"
    unfolding edge_cut_diff using finc FE edge_cut_mono [OF FE] by (simp add: card_Diff_subset)
  moreover have "card (edge_cut ?F A) \<le> card (edge_cut E A)" using edge_cut_mono [OF FE] finc by (simp add: card_mono)
  moreover have "0 < card (edge_cut ?F A)" if "0 < card (edge_cut E A)"
    using forest_crosses [OF f(1) Cons.prems(2,3)] that finc FE by (auto simp: card_gt_0_iff)
  ultimately show ?case using IH sum by (cases "card (edge_cut E A)") (auto simp: min_def split: if_splits)
qed simp


definition example_forest :: SpanningForest where
  "example_forest = SpanningForest_new sorted_list_of_set 4 [{1, 2}, {}, {}, {}]"

lemma example_forest_facts: "get_edges example_forest = [(0, 1), (0, 2)]" "disjoint_forests {1, 2} [example_forest]"
proof -
  show g: "get_edges example_forest = [(0, 1), (0, 2)]"
    by (simp add: example_forest_def get_edges_def SpanningForest_new_def upt_rec)
  have e: "edges_of {1, 2} = {(0, 1), (0, 2)}" unfolding edges_of_def by code_simp
  have "acyclic_edges {(0, 1), (0, 2)}"
    using acyclic_insert [OF acyclic_insert [OF acyclic_empty, of 0 2], of 0 1] by (simp add: econn_insert)
  then have "spanning_forest_of (edges_of {1, 2}) (set [(0, 1), (0, 2)])" unfolding e by (simp add: spanning_forest_of_def)
  then show "disjoint_forests {1, 2} [example_forest]" by (simp add: g)
qed


section \<open>The minimum cut\<close>

definition proper_cut :: "nat \<Rightarrow> nat set \<Rightarrow> bool" where
  "proper_cut n A \<longleftrightarrow> A \<noteq> {} \<and> A \<subset> {..<n}"

definition crossing :: "nat set \<Rightarrow> (nat \<times> nat) list \<Rightarrow> nat" where
  "crossing A es = length (filter (\<lambda>(u, v). u \<in> A \<longleftrightarrow> v \<notin> A) es)"

text \<open>What VieCut returns: a proper cut and the number of edges that cross it. \<open>viecut_minimal\<close>
  says in addition that no proper cut is smaller.\<close>

definition viecut_cut :: "(nat \<Rightarrow> (nat \<times> nat) list \<Rightarrow> nat \<times> (nat \<Rightarrow> bool)) \<Rightarrow> nat \<Rightarrow> (nat \<times> nat) list \<Rightarrow> bool" where
  "viecut_cut viecut n es \<longleftrightarrow> (let A = {i. i < n \<and> snd (viecut n es) i} in proper_cut n A \<and> fst (viecut n es) = crossing A es)"

definition viecut_minimal :: "(nat \<Rightarrow> (nat \<times> nat) list \<Rightarrow> nat \<times> (nat \<Rightarrow> bool)) \<Rightarrow> nat \<Rightarrow> (nat \<times> nat) list \<Rightarrow> bool" where
  "viecut_minimal viecut n es \<longleftrightarrow> (\<forall>A. proper_cut n A \<longrightarrow> fst (viecut n es) \<le> crossing A es)"

lemma crossing_card:
  assumes "distinct es" "\<And>u v. (u, v) \<in> set es \<Longrightarrow> u < v \<and> v < n" "n \<le> 2 ^ 32"
  shows "crossing A es = card (edge_cut (edge_ids es) A)"
proof -
  let ?f = "\<lambda>(u, v). edge_id u v" and ?P = "\<lambda>(u, v). u \<in> A \<longleftrightarrow> v \<notin> A"
  have e: "edge_of (?f e) = e" if "e \<in> set es" for e
    using assms(2) [of "fst e" "snd e"] edge_of_ordered [of "fst e" "snd e"] that assms(3) by (cases e) auto
  have inj: "inj_on ?f (set es)" by (rule inj_on_inverseI [where g = edge_of]) (rule e)
  have "edge_cut (edge_ids es) A = ?f ` set (filter ?P es)"
    using e unfolding edge_cut_def edge_ids_def by (auto simp: image_iff) (metis case_prod_conv)+
  moreover have "inj_on ?f (set (filter ?P es))" using inj by (rule inj_on_subset) auto
  ultimately show ?thesis using assms(1) by (simp add: crossing_def card_image distinct_card [symmetric])
qed

lemma calc_minimum_cut_forests:
  assumes "disjoint_forests E sfs" "graph_ids (mc_num_vertices mc) E" "mc_num_vertices mc \<le> 2 ^ 32"
    and "viecut_cut viecut (mc_num_vertices mc) (concat (map get_edges sfs))"
    and "mincut = calc_minimum_cut viecut (concat (map get_edges sfs)) mc" "cut_value mincut < length sfs"
  shows "left_vertices mincut \<union> right_vertices mincut = {..<mc_num_vertices mc} \<and>
    left_vertices mincut \<inter> right_vertices mincut = {} \<and> proper_cut (mc_num_vertices mc) (left_vertices mincut) \<and>
    card (edge_cut E (left_vertices mincut)) = cut_value mincut \<and>
    (viecut_minimal viecut (mc_num_vertices mc) (concat (map get_edges sfs)) \<longrightarrow>
      (\<forall>A. proper_cut (mc_num_vertices mc) A \<longrightarrow> cut_value mincut \<le> card (edge_cut E A)))"
proof -
  let ?n = "mc_num_vertices mc" and ?es = "concat (map get_edges sfs)"
  note i = disjoint_forests_ids [OF assms(1-3)]
  have cr: "crossing A ?es = card (edge_cut (edge_ids ?es) A)" for A
    by (rule crossing_card [OF _ _ assms(3)]) (use i in blast)+
  have le: "card (edge_cut (edge_ids ?es) A) \<le> card (edge_cut E A)"
    "min (length sfs) (card (edge_cut E A)) \<le> card (edge_cut (edge_ids ?es) A)" for A
    using edge_cut_mono [of "edge_ids ?es" E A] i assms(2) disjoint_forests_cut [OF assms(1-3)]
    by (auto simp: graph_ids_def edge_cut_def intro!: card_mono)
  have m: "left_vertices mincut = {i. i < ?n \<and> snd (viecut ?n ?es) i}" "right_vertices mincut = {i. i < ?n \<and> \<not> snd (viecut ?n ?es) i}"
    "cut_value mincut = fst (viecut ?n ?es)"
    using assms(5) by (auto simp: calc_minimum_cut_def Let_def split: prod.splits)
  have v: "proper_cut ?n (left_vertices mincut)" "cut_value mincut = card (edge_cut (edge_ids ?es) (left_vertices mincut))"
    using assms(4) by (auto simp: viecut_cut_def Let_def m cr)
  have "card (edge_cut E (left_vertices mincut)) = cut_value mincut"
    using v(2) le [of "left_vertices mincut"] assms(6) by (auto simp: min_def split: if_splits)
  moreover have "cut_value mincut \<le> card (edge_cut E A)" if "viecut_minimal viecut ?n ?es" "proper_cut ?n A" for A
    using that le(1) [of A] cr [of A] m(3) unfolding viecut_minimal_def by (metis order_trans)
  ultimately show ?thesis using m(1,2) v(1) by auto
qed

lemma calc_minimum_cut_large:
  assumes "disjoint_forests E sfs" "graph_ids (mc_num_vertices mc) E" "mc_num_vertices mc \<le> 2 ^ 32"
    and "viecut_minimal viecut (mc_num_vertices mc) (concat (map get_edges sfs))"
    and "k \<le> cut_value (calc_minimum_cut viecut (concat (map get_edges sfs)) mc)" "proper_cut (mc_num_vertices mc) A"
  shows "k \<le> card (edge_cut E A)"
proof -
  let ?n = "mc_num_vertices mc" and ?es = "concat (map get_edges sfs)"
  note i = disjoint_forests_ids [OF assms(1-3)]
  have "crossing A ?es = card (edge_cut (edge_ids ?es) A)" by (rule crossing_card [OF _ _ assms(3)]) (use i in blast)+
  also have "\<dots> \<le> card (edge_cut E A)"
    using edge_cut_mono [of "edge_ids ?es" E A] i assms(2) by (auto simp: graph_ids_def edge_cut_def intro!: card_mono)
  finally have "fst (viecut ?n ?es) \<le> card (edge_cut E A)" using assms(4,6) by (auto simp: viecut_minimal_def dest: order_trans)
  then show ?thesis using assms(5) by (simp add: calc_minimum_cut_def Let_def split: prod.splits)
qed

text \<open>C19. The two sides of \<^verbatim>\<open>calc_minimum_cut\<close> split the vertices. Run on the edges of \<open>k\<close> disjoint
  spanning forests of a graph, a reported value below \<open>k\<close> is the number of edges of the graph
  itself between the two sides, and if VieCut found a minimum cut of the forests, it is the minimum
  cut of the graph.\<close>

theorem calc_minimum_cut_correct:
  assumes "disjoint_forests E sfs" "graph_ids (mc_num_vertices mc) E" "mc_num_vertices mc \<le> 2 ^ 32"
    and "viecut_cut viecut (mc_num_vertices mc) (concat (map get_edges sfs))"
    and "mincut = calc_minimum_cut viecut (concat (map get_edges sfs)) mc" "cut_value mincut < length sfs"
  shows "left_vertices mincut \<union> right_vertices mincut = {..<mc_num_vertices mc} \<and>
    left_vertices mincut \<inter> right_vertices mincut = {} \<and> proper_cut (mc_num_vertices mc) (left_vertices mincut) \<and>
    card (edge_cut E (left_vertices mincut)) = cut_value mincut \<and>
    (viecut_minimal viecut (mc_num_vertices mc) (concat (map get_edges sfs)) \<longrightarrow>
      (\<forall>A. proper_cut (mc_num_vertices mc) A \<longrightarrow> cut_value mincut \<le> card (edge_cut E A)))"
  using assms by (rule calc_minimum_cut_forests)

lemma calc_minimum_cut_correct_witness:
  "card (edge_cut {1, 2} (left_vertices (calc_minimum_cut (\<lambda>n es. (0, \<lambda>i. i = 3)) (concat (map get_edges [example_forest])) example_mc))) =
    cut_value (calc_minimum_cut (\<lambda>n es. (0, \<lambda>i. i = 3)) (concat (map get_edges [example_forest])) example_mc)"
proof -
  let ?v = "\<lambda>n es. (0, \<lambda>i. i = 3) :: nat \<times> (nat \<Rightarrow> bool)"
  have n: "mc_num_vertices example_mc = 4" by (rule example_mc_facts(4))
  have v: "viecut_cut ?v (mc_num_vertices example_mc) (concat (map get_edges [example_forest]))"
  proof -
    have A: "{i. i < 4 \<and> i = 3} = {3 :: nat}" by auto
    have "3 \<in> {..<4 :: nat}" "0 \<in> {..<4 :: nat} - {3}" by simp_all
    then have "proper_cut 4 {3}" unfolding proper_cut_def by blast
    then show ?thesis unfolding n viecut_cut_def Let_def snd_conv fst_conv A
      by (simp add: crossing_def example_forest_facts(1))
  qed
  have g: "graph_ids (mc_num_vertices example_mc) {1, 2}" "mc_num_vertices example_mc \<le> 2 ^ 32"
    unfolding n using example_graph_ids by simp_all
  have "cut_value (calc_minimum_cut ?v (concat (map get_edges [example_forest])) example_mc) < length [example_forest]"
    by (simp add: calc_minimum_cut_def Let_def)
  from calc_minimum_cut_correct [OF example_forest_facts(2) g v refl this] show ?thesis by blast
qed

section \<open>Deleting the edges of a forest\<close>

lemma run_right_run:
  assumes "i \<le> r" "r < length edges" "\<And>j. i \<le> j \<Longrightarrow> j < r \<Longrightarrow> fst (edges ! j) = src" "fst (edges ! r) \<noteq> src"
  shows "run_right edges src i = Inr (map (\<lambda>j. edges ! j) [i..<r], r)"
  using assms
proof (induction "r - i" arbitrary: i)
  case 0
  then show ?case by (simp add: run_right.simps)
next
  case (Suc d)
  then have "run_right edges src (i + 1) = Inr (map (\<lambda>j. edges ! j) [i + 1..<r], r)" by simp
  moreover have "fst (edges ! i) = src" "i < length edges" "[i..<r] = i # [i + 1..<r]" using Suc.prems Suc.hyps(2) by (auto simp: upt_rec)
  ultimately show ?case by (simp add: run_right.simps [of edges src i])
qed

lemma run_left_run:
  assumes "0 < l" "l \<le> e" "e \<le> length edges" "\<And>j. l \<le> j \<Longrightarrow> j < e \<Longrightarrow> fst (edges ! j) = src" "fst (edges ! (l - 1)) \<noteq> src"
  shows "run_left edges src e = Inr (rev (map (\<lambda>j. edges ! j) [l..<e]), l)"
  using assms
proof (induction e)
  case (Suc e)
  show ?case
  proof (cases "l = Suc e")
    case True
    then show ?thesis using Suc.prems by simp
  next
    case False
    then have "run_left edges src e = Inr (rev (map (\<lambda>j. edges ! j) [l..<e]), l)" using Suc by simp
    then show ?thesis using Suc.prems False by simp
  qed
qed simp

text \<open>A segment on which the two border loops end inside it: no run crosses its borders, or its two
  ends have different sources.\<close>

definition clean_segment :: "(nat \<times> nat) list \<Rightarrow> nat \<Rightarrow> nat \<Rightarrow> bool" where
  "clean_segment edges start stop \<longleftrightarrow> start < stop \<and> stop \<le> length edges \<and>
     ((start = 0 \<or> fst (edges ! start) \<noteq> fst (edges ! (start - 1))) \<and>
      (stop = length edges \<or> fst (edges ! (stop - 1)) \<noteq> fst (edges ! stop)) \<or>
      fst (edges ! start) \<noteq> fst (edges ! (stop - 1)))"

lemma clean_left:
  assumes "start < stop" "stop \<le> length edges" "fst (edges ! start) \<noteq> fst (edges ! (stop - 1))"
  shows "\<exists>r. filter_left edges start = Inr (map (\<lambda>j. edges ! j) [start..<r], r) \<and> start \<le> r \<and> r < stop \<and>
    (\<forall>j. start \<le> j \<and> j < r \<longrightarrow> fst (edges ! j) = fst (edges ! start))"
proof (cases "start > 0 \<and> fst (edges ! start) = fst (edges ! (start - 1))")
  case True
  let ?P = "\<lambda>r. start \<le> r \<and> fst (edges ! r) \<noteq> fst (edges ! start)"
  define r where "r = (LEAST r. ?P r)"
  have ex: "?P (stop - 1)" using assms by auto
  have r: "?P r" unfolding r_def by (rule LeastI [of ?P, OF ex])
  have "r \<le> stop - 1" unfolding r_def by (rule Least_le [of ?P, OF ex])
  then have le: "r < stop" "r < length edges" using assms(1,2) by simp_all
  have before: "fst (edges ! j) = fst (edges ! start)" if "start \<le> j" "j < r" for j
    using not_less_Least [of j ?P] that unfolding r_def by blast
  have "run_right edges (fst (edges ! start)) start = Inr (map (\<lambda>j. edges ! j) [start..<r], r)"
    by (rule run_right_run [OF _ le(2) before]) (use r in blast)+
  then have "filter_left edges start = Inr (map (\<lambda>j. edges ! j) [start..<r], r)"
    using True assms(1,2) by (simp add: filter_left_def)
  then show ?thesis using r le before by blast
qed (use assms in \<open>auto simp: filter_left_def intro!: exI [of _ start]\<close>)

lemma clean_right:
  assumes "start < stop" "stop \<le> length edges" "fst (edges ! start) \<noteq> fst (edges ! (stop - 1))"
  shows "\<exists>l. filter_right edges stop = Inr (rev (map (\<lambda>j. edges ! j) [l..<stop]), l) \<and> start < l \<and> l \<le> stop \<and>
    (\<forall>j. l \<le> j \<and> j < stop \<longrightarrow> fst (edges ! j) = fst (edges ! (stop - 1)))"
proof (cases "stop < length edges \<and> fst (edges ! (stop - 1)) = fst (edges ! stop)")
  case True
  let ?P = "\<lambda>l. l < stop \<and> fst (edges ! l) \<noteq> fst (edges ! (stop - 1))"
  define m where "m = (GREATEST l. ?P l)"
  have ex: "?P start" using assms by simp
  have m: "?P m" unfolding m_def by (rule GreatestI_nat [where P = ?P and b = stop, OF ex]) simp
  have ge: "start \<le> m" unfolding m_def by (rule Greatest_le_nat [where P = ?P and b = stop, OF ex]) simp
  have after: "fst (edges ! j) = fst (edges ! (stop - 1))" if "Suc m \<le> j" "j < stop" for j
    using Greatest_le_nat [of ?P j stop] that unfolding m_def by fastforce
  have "run_left edges (fst (edges ! (stop - 1))) stop = Inr (rev (map (\<lambda>j. edges ! j) [Suc m..<stop]), Suc m)"
    by (rule run_left_run [OF _ _ assms(2) after]) (use m in simp_all)
  then have "filter_right edges stop = Inr (rev (map (\<lambda>j. edges ! j) [Suc m..<stop]), Suc m)"
    using True assms(1) by (simp add: filter_right_def)
  moreover have "start < Suc m" "Suc m \<le> stop" using m ge by simp_all
  ultimately show ?thesis using after by blast
qed (use assms in \<open>auto simp: filter_right_def intro!: exI [of _ stop]\<close>)

lemma filter_thread_clean:
  assumes "clean_segment edges start stop"
  shows "\<exists>es. filter_thread edges (start, stop) = Inr es \<and> mset es = mset (map (\<lambda>j. edges ! j) [start..<stop])"
proof (cases "fst (edges ! start) = fst (edges ! (stop - 1))")
  case True
  have "filter_left edges start = Inr ([], start)" "filter_right edges stop = Inr ([], stop)"
    using assms True by (simp_all add: filter_left_def filter_right_def clean_segment_def) auto
  then show ?thesis by (simp add: filter_thread_def)
next
  case False
  have b: "start < stop" "stop \<le> length edges" using assms by (auto simp: clean_segment_def)
  obtain r where r: "filter_left edges start = Inr (map (\<lambda>j. edges ! j) [start..<r], r)" "start \<le> r" "r < stop"
    "\<And>j. start \<le> j \<Longrightarrow> j < r \<Longrightarrow> fst (edges ! j) = fst (edges ! start)"
    using clean_left [OF b False] by blast
  obtain l where l: "filter_right edges stop = Inr (rev (map (\<lambda>j. edges ! j) [l..<stop]), l)" "start < l" "l \<le> stop"
    "\<And>j. l \<le> j \<Longrightarrow> j < stop \<Longrightarrow> fst (edges ! j) = fst (edges ! (stop - 1))"
    using clean_right [OF b False] by blast
  have rl: "r \<le> l"
  proof (rule ccontr)
    assume "\<not> r \<le> l"
    then have "fst (edges ! l) = fst (edges ! start)" "fst (edges ! l) = fst (edges ! (stop - 1))"
      using r(4) [of l] l(4) [of l] l(2) r(3) by simp_all
    then show False using False by simp
  qed
  have "[start..<stop] = [start..<r] @ [r..<l] @ [l..<stop]"
    using r(2) rl l(3) by (metis upt_add_eq_append le_add_diff_inverse le_trans)
  then show ?thesis using r(1) l(1) by (simp add: filter_thread_def)
qed

lemma filter_threads_clean:
  assumes "\<And>t. t \<in> set ts \<Longrightarrow> clean_segment edges (fst (mc_get_ith_partition (length edges) t T)) (snd (mc_get_ith_partition (length edges) t T))"
  shows "\<exists>es. filter_threads edges T ts = Inr es \<and>
    mset es = (\<Sum>t\<in>#mset ts. mset (map (\<lambda>j. edges ! j) [fst (mc_get_ith_partition (length edges) t T)..<snd (mc_get_ith_partition (length edges) t T)]))"
  using assms
proof (induction ts)
  case (Cons t ts)
  obtain es where "filter_thread edges (mc_get_ith_partition (length edges) t T) = Inr es"
    "mset es = mset (map (\<lambda>j. edges ! j) [fst (mc_get_ith_partition (length edges) t T)..<snd (mc_get_ith_partition (length edges) t T)])"
    using filter_thread_clean [OF Cons.prems [of t]] by auto
  moreover obtain es' where "filter_threads edges T ts = Inr es'"
    "mset es' = (\<Sum>t\<in>#mset ts. mset (map (\<lambda>j. edges ! j) [fst (mc_get_ith_partition (length edges) t T)..<snd (mc_get_ith_partition (length edges) t T)]))"
    using Cons by auto
  ultimately show ?case by simp
qed simp

lemma segments_concat:
  assumes "partition_ok part n T" "t \<le> T"
  shows "concat (map (\<lambda>t. [fst (part n t T)..<snd (part n t T)]) [0..<t]) = [0..<if t = 0 then 0 else snd (part n (t - 1) T)]"
  using assms(2)
proof (induction t)
  case (Suc t)
  let ?e = "if t = 0 then 0 else snd (part n (t - 1) T)"
  have "fst (part n t T) = ?e \<and> ?e \<le> snd (part n t T)"
    using seg_facts(2) [OF assms(1)] seg_facts(4) [OF assms(1), of t] seg_facts(5) [OF assms(1), of "t - 1"] Suc.prems
    by (cases t) (auto simp: seg_start_def seg_end_def)
  moreover have "[0..<?e] @ [?e..<snd (part n t T)] = [0..<snd (part n t T)]" if "?e \<le> snd (part n t T)"
    using upt_add_eq_append [of 0 ?e "snd (part n t T) - ?e"] that by (simp only: le_add_diff_inverse le0)
  ultimately show ?case using Suc by simp
qed simp

text \<open>The conditions under which the deletion is exact.\<close>

definition filter_ok :: "(nat \<times> nat) list \<Rightarrow> nat \<Rightarrow> bool" where
  "filter_ok edges T \<longleftrightarrow> partition_ok mc_get_ith_partition (length edges) T \<and>
     (\<forall>t<T. clean_segment edges (fst (mc_get_ith_partition (length edges) t T)) (snd (mc_get_ith_partition (length edges) t T)))"

lemma filter_threads_exact:
  assumes "filter_ok edges T" "mset ts = mset [0..<T]"
  shows "\<exists>es. filter_threads edges T ts = Inr es \<and> mset es = mset edges"
proof -
  let ?s = "\<lambda>t. [fst (mc_get_ith_partition (length edges) t T)..<snd (mc_get_ith_partition (length edges) t T)]"
  have ok: "partition_ok mc_get_ith_partition (length edges) T" using assms(1) by (simp add: filter_ok_def)
  have T: "0 < T" "snd (mc_get_ith_partition (length edges) (T - 1) T) = length edges"
    using seg_facts(1,3) [OF ok] by (simp_all add: seg_end_def)
  have "set ts = {..<T}" using assms(2) by (metis atLeast0LessThan atLeastLessThan_upt mset_eq_setD set_upt)
  then obtain es where es: "filter_threads edges T ts = Inr es" "mset es = (\<Sum>t\<in>#mset ts. mset (map (\<lambda>j. edges ! j) (?s t)))"
    using filter_threads_clean [of ts edges T] assms(1) by (auto simp: filter_ok_def)
  have "(\<Sum>t\<in>#mset [0..<T]. mset (map (\<lambda>j. edges ! j) (?s t))) = mset (map (\<lambda>j. edges ! j) (concat (map ?s [0..<T])))"
    unfolding map_concat mset_concat by (simp add: comp_def sum_mset_sum_list mset_map [symmetric] del: mset_map mset_upt)
  also have "concat (map ?s [0..<T]) = [0..<length edges]"
    using segments_concat [OF ok order_refl] T by simp
  finally show ?thesis using es assms(2) by (simp add: map_nth)
qed

lemma odd_set_distinct: "distinct xs \<Longrightarrow> odd_set xs = set xs"
  by (induction xs) (auto simp: odd_set_Cons)

lemma odd_set_snoc_filter:
  "odd_set (map f (filter P (x # xs))) = (if P x then sym_diff {f x} (odd_set (map f (filter P xs))) else odd_set (map f (filter P xs)))"
  by (simp add: odd_set_Cons)

lemma apply_edges_correct:
  assumes "mc_wf mc" "g < num_sketch_graphs mc" "mc_holds xxh mc g S z" "fst ` set es \<subseteq> {..<mc_num_vertices mc}"
  shows "\<exists>sks. apply_edges xxh (mc_num_vertices mc) g es (mc_sketches mc) = Inr sks \<and> mc_wf (mc\<lparr>mc_sketches := sks\<rparr>) \<and>
    mc_holds xxh (mc\<lparr>mc_sketches := sks\<rparr>) g (\<lambda>v. sym_diff (S v) (odd_set (map (\<lambda>(u, v). edge_id u v) (filter (\<lambda>e. fst e = v) es)))) z \<and>
    other_graphs_kept g (mc\<lparr>mc_sketches := sks\<rparr>) mc"
  using assms
proof (induction es arbitrary: S mc)
  case Nil
  then show ?case by (simp add: other_graphs_kept_def)
next
  case (Cons e es)
  obtain u v where e: "e = (u, v)" by (cases e)
  let ?n = "mc_num_vertices mc" and ?f = "\<lambda>sk. Sketch_update xxh sk (edge_id u v)"
  have u: "u < ?n" "?n \<le> 2 ^ 32" "g < max_sketch_graphs mc" using Cons.prems(1,2,4) e by (auto simp: mc_wf_def)
  obtain sl where sl: "graph_sketches ?n g (mc_sketches mc) = Some sl" using Cons.prems(3) by (auto simp: mc_holds_def)
  have slot: "mc_slot ?n g u = g * ?n + u" by (rule mc_slot_bounds(2) [OF Cons.prems(1) u(3,1)])
  obtain sks1 where s1: "on_sketch (mc_slot ?n g u) ?f (mc_sketches mc) = Inr sks1" using on_sketch_graph [OF u(2) sl u(1), of ?f] by blast
  let ?mc1 = "mc\<lparr>mc_sketches := sks1\<rparr>" and ?A = "sym_diff (S u) {edge_id u v}"
  have d: "dsu_shape ?n (mc_dsu ?mc1, mc_spanning_forest ?mc1)" "mc_same_params ?mc1 mc"
    "\<And>sk. sk \<in> set (mc_delta_sketches ?mc1) \<Longrightarrow> sketch_wf sk \<and> same_shape sk (mc_ref mc)"
    using Cons.prems(1) by (auto simp: mc_wf_def mc_same_params_def)
  have s1': "on_sketch (mc_slot ?n g u) ?f (mc_sketches mc) = Inr (mc_sketches ?mc1)" using s1 by simp
  note r = mc_holds_replace [OF Cons.prems(1-3) u(1) d(2,3,1) s1' Sketch_update_step [of _ "mc_ref mc" xxh "S u" "edge_id u v"]]
  obtain sks where k: "apply_edges xxh (mc_num_vertices ?mc1) g es (mc_sketches ?mc1) = Inr sks" "mc_wf (?mc1\<lparr>mc_sketches := sks\<rparr>)"
    "mc_holds xxh (?mc1\<lparr>mc_sketches := sks\<rparr>) g
       (\<lambda>w. sym_diff ((S(u := ?A)) w) (odd_set (map (\<lambda>(u, v). edge_id u v) (filter (\<lambda>e. fst e = w) es)))) z"
    "other_graphs_kept g (?mc1\<lparr>mc_sketches := sks\<rparr>) ?mc1"
    using Cons.IH [OF r(1) _ r(2)] Cons.prems(2,4) by auto
  have "(\<lambda>w. sym_diff ((S(u := ?A)) w) (odd_set (map (\<lambda>(u, v). edge_id u v) (filter (\<lambda>e. fst e = w) es)))) =
      (\<lambda>w. sym_diff (S w) (odd_set (map (\<lambda>(u, v). edge_id u v) (filter (\<lambda>e. fst e = w) (e # es)))))"
    unfolding odd_set_snoc_filter by (auto simp: fun_eq_iff e)
  then show ?case using k r(3) s1 slot by (auto simp: e other_graphs_kept_def)
qed

text \<open>The sorted adjacency holds every forest edge in both directions, so applying it toggles the
  forest edges at both ends.\<close>

lemma adjacency_incident:
  assumes adj: "mset adj = mset es + image_mset (\<lambda>(u, v). (v, u)) (mset es)"
    and es: "distinct es" "\<And>u v. (u, v) \<in> set es \<Longrightarrow> u < v \<and> v < n" and n: "n \<le> 2 ^ 32"
  shows "odd_set (map (\<lambda>(u, v). edge_id u v) (filter (\<lambda>e. fst e = w) adj)) = incident (edge_ids es) w"
proof -
  let ?f = "\<lambda>(u, v). edge_id u v" and ?sw = "\<lambda>(u, v). (v, u)"
  have set: "set adj = set es \<union> ?sw ` set es" using arg_cong [OF adj, of set_mset] by simp
  have "inj_on ?sw (set es)" by (auto simp: inj_on_def)
  moreover have "\<not> ((a, b) \<in> set es \<and> (b, a) \<in> set es)" for a b using es(2) [of a b] es(2) [of b a] by auto
  ultimately have "distinct (es @ map ?sw es)" using es(1) by (auto simp: distinct_map)
  moreover have "mset adj = mset (es @ map ?sw es)" using adj by simp
  ultimately have dist: "distinct adj" using mset_eq_imp_distinct_iff by blast
  have bd: "u < n \<and> v < n \<and> u \<noteq> v" if "(u, v) \<in> set adj" for u v using that set es(2) by fastforce
  have e: "edge_of (edge_id u v) = (min u v, max u v)" if "(u, v) \<in> set adj" for u v
    using edge_of_edge_id [of u v] bd [OF that] n by simp
  have "inj_on ?f (set (filter (\<lambda>e. fst e = w) adj))"
  proof (rule inj_onI)
    fix x y assume x: "x \<in> set (filter (\<lambda>e. fst e = w) adj)" and y: "y \<in> set (filter (\<lambda>e. fst e = w) adj)" and eq: "?f x = ?f y"
    define a b where "a = snd x" and "b = snd y"
    have xy: "x = (w, a)" "y = (w, b)" using x y by (auto simp: a_def b_def prod_eq_iff)
    have ab: "(w, a) \<in> set adj" "(w, b) \<in> set adj" using x y xy by simp_all
    then have "(min w a, max w a) = (min w b, max w b)" using eq e [OF ab(1)] e [OF ab(2)] xy by simp
    then show "x = y" using xy by (auto simp: min_def max_def split: if_splits)
  qed
  then have "distinct (map ?f (filter (\<lambda>e. fst e = w) adj))" using dist by (simp add: distinct_map)
  then have "odd_set (map ?f (filter (\<lambda>e. fst e = w) adj)) = ?f ` {e \<in> set adj. fst e = w}"
    using odd_set_distinct by fastforce
  also have "\<dots> = incident (edge_ids es) w"
  proof (intro equalityI subsetI)
    fix x assume "x \<in> ?f ` {e \<in> set adj. fst e = w}"
    then obtain b where b: "(w, b) \<in> set adj" "x = edge_id w b" by auto
    then have "(w, b) \<in> set es \<or> (b, w) \<in> set es" using set by auto
    then have "x \<in> edge_ids es" using b(2) edge_id_commute [of w b] by (force simp: edge_ids_def)
    then show "x \<in> incident (edge_ids es) w" using e [OF b(1)] b(2) by (auto simp: incident_def min_def max_def)
  next
    fix x assume x: "x \<in> incident (edge_ids es) w"
    then obtain a b where ab: "(a, b) \<in> set es" "x = edge_id a b" by (auto simp: incident_def edge_ids_def)
    have in_adj: "(a, b) \<in> set adj" "(b, a) \<in> set adj" using ab(1) set by force+
    have "a = w \<or> b = w" using x e [OF in_adj(1)] ab(2) es(2) [OF ab(1)] by (auto simp: incident_def min_def max_def)
    then show "x \<in> ?f ` {e \<in> set adj. fst e = w}"
      using in_adj ab(2) edge_id_commute [of a b] by (force simp: image_iff)
  qed
  finally show ?thesis .
qed

definition swapped :: "(nat \<times> nat) list \<Rightarrow> (nat \<times> nat) multiset" where
  "swapped es = image_mset (\<lambda>(u, v). (v, u)) (mset es)"

text \<open>A forest whose adjacency is complete and can be deleted exactly by \<open>T\<close> threads.\<close>

definition deletable :: "(nat \<times> nat \<Rightarrow> 'k::linorder) \<Rightarrow> nat \<Rightarrow> nat \<Rightarrow> SpanningForest \<Rightarrow> bool" where
  "deletable key T n sf \<longleftrightarrow> (let adj = fst (get_sorted_adjacency key sf) in
     mset adj = mset (get_edges sf) + swapped (get_edges sf) \<and> (adj = [] \<or> filter_ok adj T) \<and>
     distinct (get_edges sf) \<and> (\<forall>(u, v)\<in>set (get_edges sf). u < v \<and> v < n))"

lemma mc_partition_empty: "mc_get_ith_partition 0 i T = (0, 0)"
  by (simp add: mc_get_ith_partition_def double_div_def double_mul_def double_of_def Let_def)

lemma filter_threads_empty: "filter_threads [] T ts = Inr []"
  by (induction ts) (simp_all add: mc_partition_empty filter_thread_def filter_left_def filter_right_def)

lemma filter_sf_edges_correct:
  assumes wf: "mc_wf mc" "g < num_sketch_graphs mc" and h: "mc_holds xxh mc g (incident E) z"
    and ok: "deletable key (length ts) (mc_num_vertices mc) sf" and ts: "mset ts = mset [0..<length ts]"
  shows "\<exists>mc'. filter_sf_edges xxh key ts sf g mc = Inr (snd (get_sorted_adjacency key sf), mc') \<and> mc_wf mc' \<and>
    mc_same_params mc' mc \<and> mc_holds xxh mc' g (incident (sym_diff E (edge_ids (get_edges sf)))) z \<and>
    other_graphs_kept g mc' mc \<and> mc_last_query_rounds mc' = mc_last_query_rounds mc"
proof -
  let ?n = "mc_num_vertices mc" and ?mc = "mc\<lparr>mc_dsu_valid := False, mc_shared_dsu_valid := False\<rparr>"
  obtain adj sf' where a: "get_sorted_adjacency key sf = (adj, sf')" by (cases "get_sorted_adjacency key sf")
  have o: "mset adj = mset (get_edges sf) + swapped (get_edges sf)" "adj = [] \<or> filter_ok adj (length ts)"
    "distinct (get_edges sf)" "\<And>u v. (u, v) \<in> set (get_edges sf) \<Longrightarrow> u < v \<and> v < ?n"
    using ok a by (auto simp: deletable_def Let_def)
  obtain es where es: "filter_threads adj (length ts) ts = Inr es" "mset es = mset adj"
    using filter_threads_exact [OF _ ts, of adj] filter_threads_empty o(2) by fastforce
  have n: "?n \<le> 2 ^ 32" using wf(1) by (simp add: mc_wf_def)
  have m: "mc_wf ?mc" "mc_holds xxh ?mc g (incident E) z" using wf(1) h by (auto simp: mc_wf_def mc_holds_def)
  have bd: "u < mc_num_vertices ?mc" if "(u, v) \<in> set es" for u v
  proof -
    have "(u, v) \<in> set (get_edges sf) \<union> (\<lambda>(u, v). (v, u)) ` set (get_edges sf)"
      using that arg_cong [OF es(2), of set_mset] arg_cong [OF o(1), of set_mset] by (simp add: swapped_def)
    then show ?thesis using o(4) by fastforce
  qed
  obtain sks where k: "apply_edges xxh ?n g es (mc_sketches mc) = Inr sks" "mc_wf (?mc\<lparr>mc_sketches := sks\<rparr>)"
    "mc_holds xxh (?mc\<lparr>mc_sketches := sks\<rparr>) g (\<lambda>v. sym_diff (incident E v) (odd_set (map (\<lambda>(u, v). edge_id u v) (filter (\<lambda>e. fst e = v) es)))) z"
    "other_graphs_kept g (?mc\<lparr>mc_sketches := sks\<rparr>) ?mc"
    using apply_edges_correct [OF m(1) _ m(2), of es] bd wf(2) by fastforce
  have "mset es = mset (get_edges sf) + image_mset (\<lambda>(u, v). (v, u)) (mset (get_edges sf))" using es(2) o(1) by (simp add: swapped_def)
  note inc = adjacency_incident [OF this o(3,4) n]
  have "(\<lambda>v. sym_diff (incident E v) (odd_set (map (\<lambda>(u, v). edge_id u v) (filter (\<lambda>e. fst e = v) es)))) =
      incident (sym_diff E (edge_ids (get_edges sf)))"
    by (rule ext) (simp only: inc incident_sym_diff)
  then show ?thesis using k a es(1) unfolding filter_sf_edges_def
    by (auto simp: other_graphs_kept_def mc_same_params_def intro!: exI [of _ "?mc\<lparr>mc_sketches := sks\<rparr>"])
qed

lemma sorted_adjacency_cached:
  "get_sorted_adjacency key (snd (get_sorted_adjacency key sf)) = get_sorted_adjacency key sf"
  "get_edges (snd (get_sorted_adjacency key sf)) = get_edges sf"
  by (auto simp: get_sorted_adjacency_def get_edges_def Let_def)

lemma deletable_cached: "deletable key T n (snd (get_sorted_adjacency key sf)) = deletable key T n sf"
  by (simp add: deletable_def sorted_adjacency_cached)

lemma revert_loop_correct:
  assumes "mc_wf mc" "g < num_sketch_graphs mc" "mc_holds xxh mc g (incident E) z"
    and "\<And>sf. sf \<in> set sfs \<Longrightarrow> deletable (sf_key env) (length (sf_thr_order env)) (mc_num_vertices mc) sf"
    and ts: "mset (sf_thr_order env) = mset [0..<length (sf_thr_order env)]"
  shows "\<exists>mc'. revert_loop xxh env g sfs mc = Inr mc' \<and> mc_wf mc' \<and> mc_same_params mc' mc \<and>
    mc_holds xxh mc' g (incident (fold (\<lambda>sf E. sym_diff E (edge_ids (get_edges sf))) sfs E)) z \<and> other_graphs_kept g mc' mc"
  using assms(1-4)
proof (induction sfs arbitrary: E mc)
  case Nil
  then show ?case by (simp add: mc_same_params_def other_graphs_kept_def)
next
  case (Cons sf sfs)
  obtain mc1 where m: "filter_sf_edges xxh (sf_key env) (sf_thr_order env) sf g mc = Inr (snd (get_sorted_adjacency (sf_key env) sf), mc1)"
    "mc_wf mc1" "mc_same_params mc1 mc" "mc_holds xxh mc1 g (incident (sym_diff E (edge_ids (get_edges sf)))) z" "other_graphs_kept g mc1 mc"
    using filter_sf_edges_correct [OF Cons.prems(1-3) Cons.prems(4) ts, of sf] by auto
  have p: "num_sketch_graphs mc1 = num_sketch_graphs mc" "mc_num_vertices mc1 = mc_num_vertices mc" "max_sketch_graphs mc1 = max_sketch_graphs mc"
    using m(3) by (auto simp: mc_same_params_def)
  obtain mc2 where "revert_loop xxh env g sfs mc1 = Inr mc2" "mc_wf mc2" "mc_same_params mc2 mc1"
    "mc_holds xxh mc2 g (incident (fold (\<lambda>sf E. sym_diff E (edge_ids (get_edges sf))) sfs (sym_diff E (edge_ids (get_edges sf))))) z"
    "other_graphs_kept g mc2 mc1"
    using Cons.IH [OF m(2) _ m(4)] Cons.prems(2,4) p by auto
  then show ?case using m p by (auto simp: mc_same_params_def other_graphs_kept_def)
qed

lemma fold_toggle_swap:
  "fold (\<lambda>sf E. sym_diff E (f sf)) sfs (sym_diff A B) = sym_diff (fold (\<lambda>sf E. sym_diff E (f sf)) sfs A) B"
proof (induction sfs arbitrary: A)
  case (Cons sf sfs)
  have "sym_diff (sym_diff A B) (f sf) = sym_diff (sym_diff A (f sf)) B" by blast
  then show ?case using Cons.IH [of "sym_diff A (f sf)"] by simp
qed simp

lemma forests_put_back:
  assumes "disjoint_forests E sfs" "graph_ids n E" "n \<le> 2 ^ 32"
  shows "fold (\<lambda>sf E. sym_diff E (edge_ids (get_edges sf))) sfs (E - edge_ids (concat (map get_edges sfs))) = E"
  using assms
proof (induction sfs arbitrary: E)
  case (Cons sf sfs)
  let ?F = "edge_ids (get_edges sf)" and ?R = "edge_ids (concat (map get_edges sfs))"
  have f: "set (get_edges sf) \<subseteq> edges_of E" "disjoint_forests (E - ?F) sfs" using Cons.prems(1) by (auto simp: spanning_forest_of_def)
  have FE: "?F \<subseteq> E" by (rule edge_ids_forest(1) [OF Cons.prems(2,3) f(1)])
  have g: "graph_ids n (E - ?F)" using Cons.prems(2) by (auto simp: graph_ids_def)
  have RE: "?R \<subseteq> E - ?F" using disjoint_forests_ids [OF f(2) g Cons.prems(3)] by blast
  have u: "edge_ids (concat (map get_edges (sf # sfs))) = ?F \<union> ?R" by (auto simp: edge_ids_def)
  have "sym_diff (E - (?F \<union> ?R)) ?F = sym_diff (E - ?F - ?R) ?F" by blast
  then show ?case unfolding u using Cons.IH [OF f(2) g Cons.prems(3)] fold_toggle_swap [of _ sfs "E - ?F - ?R" ?F] FE
    by (simp del: concat.simps) blast
qed (simp add: edge_ids_def)

section \<open>Disjoint forests\<close>

text \<open>What the query for disjoint forests relies on: no emulation runs out of samples, the hash is
  sound on the cuts that they ask for, and every forest can be deleted exactly.\<close>

fun mc_forests_ok :: "xxh \<Rightarrow> 'k::linorder sf_env \<Rightarrow> nat \<Rightarrow> nat \<Rightarrow> nat \<Rightarrow> vec_t set \<Rightarrow> nat \<Rightarrow> 'h::len word MC \<Rightarrow> bool" where
  "mc_forests_ok xxh env g 0 i E z mc \<longleftrightarrow> True"
| "mc_forests_ok xxh env g (Suc k) i E z mc \<longleftrightarrow>
     (case mc_calc_spanning_forest xxh (sf_omp env i) (sf_ord env) g mc of
        Some (Inr sf, mc') \<Rightarrow> \<not> mc_update_locked mc' \<and> mc_asked_sound xxh E z mc' \<and>
          deletable (sf_key env) (length (sf_thr_order env)) (mc_num_vertices mc) sf \<and>
          (case filter_sf_edges xxh (sf_key env) (sf_thr_order env) sf g mc' of
             Inl _ \<Rightarrow> True
           | Inr (_, mc'') \<Rightarrow> mc_forests_ok xxh env g k (Suc i) (E - edge_ids (get_edges sf)) (z + 1) mc'')
      | _ \<Rightarrow> False)"

lemma mc_forest_step:
  fixes mc :: "'h::len word MC"
  assumes wf: "mc_wf mc" "g < num_sketch_graphs mc" and E: "graph_ids (mc_num_vertices mc) E" and h: "mc_holds xxh mc g (incident E) z"
    and omp: "omp_ok (mc_conf env mc)" and ord: "iter_order ord"
    and run: "mc_calc_spanning_forest xxh env ord g mc = Some (Inr sf, mc')" "\<not> mc_update_locked mc'" "mc_asked_sound xxh E z mc'"
  shows "mc_wf mc' \<and> mc_same_params mc' mc \<and> mc_holds xxh mc' g (incident E) (z + 1) \<and> other_graphs_kept g mc' mc \<and>
    spanning_forest_of (edges_of E) (set (get_edges sf)) \<and> distinct (get_edges sf)"
proof -
  obtain res mc1 where k: "k_boruvka_emulation xxh env g mc = Some (res, mc1)" "mc_wf mc1" "mc_same_params mc1 mc" "other_graphs_kept g mc1 mc"
    "case res of
       Inl e \<Rightarrow> mc_update_locked mc1 \<and> (mc_asked_sound xxh E z mc1 \<longrightarrow> (\<exists>sd a i. e = OutOfSamplesException sd a i))
     | Inr _ \<Rightarrow> \<not> mc_update_locked mc1 \<and> mc_holds xxh mc1 g (incident E) (z + 1) \<and>
         (mc_asked_sound xxh E z mc1 \<longrightarrow> forest_inv (mc_num_vertices mc) E (mc_dsu mc1, mc_spanning_forest mc1) \<and>
           spanning_forest_of (edges_of E) (sf_edges (mc_spanning_forest mc1)))"
    using mc_calc_spanning_forest_spec [OF wf E h omp ord] by blast
  have s: "mc1 = mc'" "sf = SpanningForest_new ord (mc_num_vertices mc1) (mc_spanning_forest mc1)"
    using run(1) k(1) by (auto simp: mc_calc_spanning_forest_def split: if_splits)
  have res: "\<exists>u. res = Inr u" using run(2) k(5) s(1) by (cases res) auto
  then have f: "forest_inv (mc_num_vertices mc) E (mc_dsu mc', mc_spanning_forest mc')"
    "spanning_forest_of (edges_of E) (sf_edges (mc_spanning_forest mc'))" "mc_holds xxh mc' g (incident E) (z + 1)"
    using k(5) run(3) s(1) by auto
  have n: "mc_num_vertices mc' = mc_num_vertices mc" "length (mc_spanning_forest mc') = mc_num_vertices mc"
    using k(3) s(1) f(1) by (auto simp: mc_same_params_def forest_inv_def)
  have "finite x" if "x \<in> set (mc_spanning_forest mc')" for x by (rule finite_forest_sets [OF f(2) E that])
  note g = set_get_edges [OF ord n(2) this]
  then show ?thesis using k(2-4) s n f by (simp add: sf_edges_def)
qed

lemma mc_conf_params: "mc_same_params mc' mc \<Longrightarrow> mc_conf env mc' = mc_conf env mc"
  by (simp add: mc_conf_def mc_same_params_def)

lemma mc_forest_loop_spec:
  fixes mc :: "'h::len word MC"
  assumes "mc_wf mc" "g < num_sketch_graphs mc" "graph_ids (mc_num_vertices mc) E" "mc_holds xxh mc g (incident E) z"
    and "\<And>i. omp_ok (mc_conf (sf_omp env i) mc)" and ord: "iter_order (sf_ord env)"
    and ts: "mset (sf_thr_order env) = mset [0..<length (sf_thr_order env)]"
    and "mc_forests_ok xxh env g k i E z mc"
  shows "\<exists>sfs r mc'. mc_forest_loop xxh env g k i mr mc = Some (Inr sfs, r, mc') \<and> length sfs = k \<and> disjoint_forests E sfs \<and>
    (\<forall>sf\<in>set sfs. deletable (sf_key env) (length (sf_thr_order env)) (mc_num_vertices mc) sf) \<and>
    mc_wf mc' \<and> mc_same_params mc' mc \<and> other_graphs_kept g mc' mc \<and>
    mc_holds xxh mc' g (incident (E - edge_ids (concat (map get_edges sfs)))) (z + k)"
  using assms(1-5,8)
proof (induction k arbitrary: i E z mr mc)
  case 0
  then show ?case by (simp add: edge_ids_def mc_same_params_def other_graphs_kept_def)
next
  case (Suc k)
  obtain res mc1 where r0: "mc_calc_spanning_forest xxh (sf_omp env i) (sf_ord env) g mc = Some (res, mc1)"
    using Suc.prems(6) by (auto split: option.splits)
  obtain sf where res: "res = Inr sf" using Suc.prems(6) r0 by (cases res) auto
  have c: "mc_calc_spanning_forest xxh (sf_omp env i) (sf_ord env) g mc = Some (Inr sf, mc1)" "\<not> mc_update_locked mc1"
    "mc_asked_sound xxh E z mc1" "deletable (sf_key env) (length (sf_thr_order env)) (mc_num_vertices mc) sf"
    using Suc.prems(6) r0 res by simp_all
  let ?ids = "edge_ids (get_edges sf)" and ?sf = "snd (get_sorted_adjacency (sf_key env) sf)"
  have st: "mc_wf mc1" "mc_same_params mc1 mc" "mc_holds xxh mc1 g (incident E) (z + 1)" "other_graphs_kept g mc1 mc"
    "spanning_forest_of (edges_of E) (set (get_edges sf))" "distinct (get_edges sf)"
    using mc_forest_step [OF Suc.prems(1-5) ord c(1-3)] by blast+
  have p: "num_sketch_graphs mc1 = num_sketch_graphs mc" "mc_num_vertices mc1 = mc_num_vertices mc" "max_sketch_graphs mc1 = max_sketch_graphs mc"
    using st(2) by (auto simp: mc_same_params_def)
  have n: "mc_num_vertices mc \<le> 2 ^ 32" using Suc.prems(1) by (simp add: mc_wf_def)
  have "set (get_edges sf) \<subseteq> edges_of E" using st(5) by (simp add: spanning_forest_of_def)
  then have sub: "?ids \<subseteq> E" by (rule edge_ids_forest(1) [OF Suc.prems(3) n])
  obtain mc2 where f: "filter_sf_edges xxh (sf_key env) (sf_thr_order env) sf g mc1 = Inr (?sf, mc2)" "mc_wf mc2" "mc_same_params mc2 mc1"
    "mc_holds xxh mc2 g (incident (sym_diff E ?ids)) (z + 1)" "other_graphs_kept g mc2 mc1"
    using filter_sf_edges_correct [OF st(1) _ st(3) _ ts] Suc.prems(2) c(4) p by auto
  have "sym_diff E ?ids = E - ?ids" using sub by blast
  then have h2: "mc_holds xxh mc2 g (incident (E - ?ids)) (z + 1)" using f(4) by simp
  have ok2: "mc_forests_ok xxh env g k (Suc i) (E - ?ids) (z + 1) mc2" using Suc.prems(6) c(1) f(1) by simp
  have p2: "num_sketch_graphs mc2 = num_sketch_graphs mc" "mc_num_vertices mc2 = mc_num_vertices mc" "max_sketch_graphs mc2 = max_sketch_graphs mc"
    "mc_same_params mc2 mc" using f(3) st(2) p by (auto simp: mc_same_params_def)
  have g2: "graph_ids (mc_num_vertices mc2) (E - ?ids)" using Suc.prems(3) p2(2) by (auto simp: graph_ids_def)
  have omp2: "omp_ok (mc_conf (sf_omp env i) mc2)" for i using Suc.prems(5) [of i] mc_conf_params [OF p2(4)] by simp
  obtain sfs r mc3 where l: "mc_forest_loop xxh env g k (Suc i) (max (mc_last_query_rounds mc1) mr) mc2 = Some (Inr sfs, r, mc3)"
    "length sfs = k" "disjoint_forests (E - ?ids) sfs"
    "\<forall>sf\<in>set sfs. deletable (sf_key env) (length (sf_thr_order env)) (mc_num_vertices mc) sf" "mc_wf mc3" "mc_same_params mc3 mc2"
    "other_graphs_kept g mc3 mc2" "mc_holds xxh mc3 g (incident (E - ?ids - edge_ids (concat (map get_edges sfs)))) (z + 1 + k)"
    using Suc.IH [OF f(2) _ g2 h2 omp2 ok2, of "max (mc_last_query_rounds mc1) mr"] Suc.prems(2) p2(1,2) by auto
  have e: "get_edges ?sf = get_edges sf" "E - ?ids - edge_ids (concat (map get_edges sfs)) = E - edge_ids (concat (map get_edges (?sf # sfs)))"
    by (auto simp: edge_ids_def sorted_adjacency_cached)
  show ?case
  proof (intro exI conjI)
    show "mc_forest_loop xxh env g (Suc k) i mr mc = Some (Inr (?sf # sfs), r, mc3)" using c(1) f(1) l(1) by simp
    show "disjoint_forests E (?sf # sfs)" using st(5,6) l(3) e(1) by simp
    show "\<forall>sf\<in>set (?sf # sfs). deletable (sf_key env) (length (sf_thr_order env)) (mc_num_vertices mc) sf"
      using l(4) c(4) by (simp add: deletable_cached)
    show "mc_holds xxh mc3 g (incident (E - edge_ids (concat (map get_edges (?sf # sfs))))) (z + Suc k)" using l(8) e(2) by simp
    show "other_graphs_kept g mc3 mc" using l(7) f(5) st(4) p p2 by (simp add: other_graphs_kept_def)
    show "mc_same_params mc3 mc" using l(6) p2(4) by (auto simp: mc_same_params_def)
  qed (use l in simp_all)
qed

lemma mc_disjoint_forests_spec:
  fixes mc :: "'h::len word MC"
  assumes "mc_wf mc" "g < num_sketch_graphs mc" "graph_ids (mc_num_vertices mc) E" "mc_holds xxh mc g (incident E) z"
    and "\<And>i. omp_ok (mc_conf (sf_omp env i) mc)" "iter_order (sf_ord env)"
    and "mset (sf_thr_order env) = mset [0..<length (sf_thr_order env)]" "mc_forests_ok xxh env g k 0 E z mc"
  shows "\<exists>sfs mc'. mc_calc_disjoint_spanning_forests xxh env g k mc = Some (Inr sfs, mc') \<and> length sfs = k \<and>
    disjoint_forests E sfs \<and> mc_wf mc' \<and> mc_holds xxh mc' g (incident E) (z + k) \<and> other_graphs_kept g mc' mc \<and>
    mc_same_params mc' mc"
proof -
  obtain sfs r mc1 where l: "mc_forest_loop xxh env g k 0 0 mc = Some (Inr sfs, r, mc1)" "length sfs = k" "disjoint_forests E sfs"
    "\<forall>sf\<in>set sfs. deletable (sf_key env) (length (sf_thr_order env)) (mc_num_vertices mc) sf"
    "mc_wf mc1" "mc_same_params mc1 mc" "other_graphs_kept g mc1 mc"
    "mc_holds xxh mc1 g (incident (E - edge_ids (concat (map get_edges sfs)))) (z + k)"
    using mc_forest_loop_spec [OF assms, of 0] by blast
  have p: "num_sketch_graphs mc1 = num_sketch_graphs mc" "mc_num_vertices mc1 = mc_num_vertices mc" "max_sketch_graphs mc1 = max_sketch_graphs mc"
    using l(6) by (auto simp: mc_same_params_def)
  have n: "mc_num_vertices mc \<le> 2 ^ 32" using assms(1) by (simp add: mc_wf_def)
  obtain mc2 where r: "revert_loop xxh env g sfs mc1 = Inr mc2" "mc_wf mc2" "mc_holds xxh mc2 g (incident E) (z + k)" "other_graphs_kept g mc2 mc1"
      "mc_same_params mc2 mc1"
    using revert_loop_correct [OF l(5) _ l(8) _ assms(7), of sfs] forests_put_back [OF l(3) assms(3) n] assms(2) l(4) p by auto
  have "mc_wf (mc2\<lparr>mc_last_query_rounds := r\<rparr>)" "mc_holds xxh (mc2\<lparr>mc_last_query_rounds := r\<rparr>) g (incident E) (z + k)"
    using r(2,3) by (auto simp: mc_wf_def mc_holds_def)
  moreover have "other_graphs_kept g (mc2\<lparr>mc_last_query_rounds := r\<rparr>) mc" "mc_same_params (mc2\<lparr>mc_last_query_rounds := r\<rparr>) mc"
    using r(4,5) l(6,7) p by (simp_all add: other_graphs_kept_def mc_same_params_def)
  ultimately show ?thesis using l(1-3) r(1) by (auto simp: mc_calc_disjoint_spanning_forests_def)
qed


lemma deletable_empty:
  assumes "\<not> has_adjacency sf" "get_edges sf = []"
  shows "deletable key T n sf"
  using assms by (simp add: deletable_def get_sorted_adjacency_def Let_def swapped_def get_edges_def)

lemma empty_forests_ok:
  fixes mc :: "'h::len word MC"
  assumes "mc_wf mc" "g < num_sketch_graphs mc" "mc_holds xxh mc g (incident {}) z" "z + k \<le> num_samples (mc_ref mc)"
    and "\<And>i. omp_ok (mc_conf (sf_omp env i) mc)" and ord: "iter_order (sf_ord env)"
    and ts: "mset (sf_thr_order env) = mset [0..<length (sf_thr_order env)]"
    and sound: "\<And>z mc'. mc_same_params mc' mc \<Longrightarrow> mc_asked_sound xxh {} z mc'"
  shows "mc_forests_ok xxh env g k i {} z mc"
  using assms(1-5) sound
proof (induction k arbitrary: i z mc)
  case (Suc k)
  have inc: "incident {} = (\<lambda>_. {})" by (auto simp: incident_def)
  have E: "graph_ids (mc_num_vertices mc) {}" by (simp add: graph_ids_def)
  obtain mc1 where m: "k_boruvka_emulation xxh (sf_omp env i) g mc = Some (Inr (), mc1)"
    using empty_graph_emulation [OF Suc.prems(1,2) Suc.prems(3) [unfolded inc] _ Suc.prems(5)] Suc.prems(4) by auto
  have nl: "\<not> mc_update_locked mc1"
    using mc_calc_spanning_forest_spec [OF Suc.prems(1,2) E Suc.prems(3) Suc.prems(5) [of i] ord] m by auto
  let ?sf = "SpanningForest_new (sf_ord env) (mc_num_vertices mc1) (mc_spanning_forest mc1)"
  have c: "mc_calc_spanning_forest xxh (sf_omp env i) (sf_ord env) g mc = Some (Inr ?sf, mc1)"
    using m by (simp add: mc_calc_spanning_forest_def)
  have p1: "mc_same_params mc1 mc"
    using mc_calc_spanning_forest_spec [OF Suc.prems(1,2) E Suc.prems(3) Suc.prems(5) [of i] ord] m by auto
  note sound1 = Suc.prems(6) [OF p1]
  have st: "mc_wf mc1" "mc_same_params mc1 mc" "mc_holds xxh mc1 g (incident {}) (z + 1)" "spanning_forest_of (edges_of {}) (set (get_edges ?sf))"
    using mc_forest_step [OF Suc.prems(1,2) E Suc.prems(3) Suc.prems(5) ord c nl sound1] by blast+
  have ge: "get_edges ?sf = []" using st(4) by (simp add: spanning_forest_of_def edges_of_def)
  have del: "deletable (sf_key env) (length (sf_thr_order env)) n ?sf" for n
    by (rule deletable_empty [OF _ ge]) (simp add: SpanningForest_new_def)
  obtain mc2 where f: "filter_sf_edges xxh (sf_key env) (sf_thr_order env) ?sf g mc1 = Inr (snd (get_sorted_adjacency (sf_key env) ?sf), mc2)"
    "mc_wf mc2" "mc_same_params mc2 mc1" "mc_holds xxh mc2 g (incident (sym_diff {} (edge_ids (get_edges ?sf)))) (z + 1)"
    using filter_sf_edges_correct [OF st(1) _ st(3) del ts] Suc.prems(2) st(2) by (auto simp: mc_same_params_def)
  have p: "mc_same_params mc2 mc" "num_sketch_graphs mc2 = num_sketch_graphs mc" "mc_ref mc2 = mc_ref mc"
    using f(3) st(2) by (auto simp: mc_same_params_def)
  have h2: "mc_holds xxh mc2 g (incident {}) (z + 1)" using f(4) ge by (simp add: edge_ids_def)
  have "mc_forests_ok xxh env g k (Suc i) {} (z + 1) mc2"
  proof (rule Suc.IH [OF f(2) _ h2])
    show "mc_asked_sound xxh {} z mc'" if "mc_same_params mc' mc2" for z mc'
      by (rule Suc.prems(6)) (use that p(1) in \<open>simp add: mc_same_params_def\<close>)
  qed (use p Suc.prems(2,4,5) mc_conf_params [OF p(1)] in simp_all)
  then show ?case using c nl sound1 del f(1) ge by simp
qed simp

definition example_sf_env :: "(nat \<times> nat) sf_env" where
  "example_sf_env = \<lparr>sf_omp = (\<lambda>_. seq_env 4), sf_ord = sorted_list_of_set, sf_key = (\<lambda>e. e), sf_thr_order = [0]\<rparr>"


text \<open>C28. When every thread's segment of the sorted adjacency either shares no run of equal sources
  with its neighbours or has different sources at its two ends, the threads together apply every
  edge exactly once, in any order of the threads.\<close>

theorem filter_sf_edges_exact:
  assumes "filter_ok edges T" "mset ts = mset [0..<T]"
  shows "\<exists>es. filter_threads edges T ts = Inr es \<and> mset es = mset edges"
  by (rule filter_threads_exact [OF assms])

lemma filter_sf_edges_exact_witness:
  "\<exists>es. filter_threads [(0, 1), (0, 2), (1, 0), (2, 0)] 2 [1, 0] = Inr es \<and> mset es = mset [(0, 1), (0, 2), (1, 0), (2, 0)]"
proof -
  have p: "mc_get_ith_partition 4 0 2 = (0, 2)" "mc_get_ith_partition 4 1 2 = (2, 4)" by code_simp+
  have "partition_ok mc_get_ith_partition 4 2" using mc_partition_ok_pow2 [of 4 1] partition_pow2 [of 4 1] by simp
  moreover have "clean_segment [(0, 1), (0, 2), (1, 0), (2, 0)] (fst (mc_get_ith_partition 4 t 2)) (snd (mc_get_ith_partition 4 t 2))"
    if "t < 2" for t
  proof -
    have "t = 0 \<or> t = 1" using that by auto
    then show ?thesis using p by (auto simp: clean_segment_def)
  qed
  moreover have len: "length [(0, 1), (0, 2), (1, 0), (2, 0 :: nat) :: nat \<times> nat] = 4" by simp
  ultimately have "filter_ok [(0, 1), (0, 2), (1, 0), (2, 0)] 2" unfolding filter_ok_def len by blast
  moreover have "mset [1, 0] = mset [0..<2 :: nat]" by (simp add: upt_rec del: mset_upt)
  ultimately show ?thesis by (rule filter_sf_edges_exact)
qed


end
