(* ===== verification/Min_Cut_Tool.thy ===== *)
theory Min_Cut_Tool
  imports MC_GPU_Correctness MC_Min_Cut
begin

text \<open>
  The program for approximate minimum cuts (tools/min_cut.cu): the parameters that it computes from the
  number of vertices, and the query after the stream. The query takes the sketch subgraphs in order, asks
  each for \<open>k\<close> disjoint spanning forests and VieCut for a minimum cut of them, and stops at the first
  value below \<open>k\<close>; past the sketch subgraphs it takes the edges of the edge store.

  Doubles are reals and \<^verbatim>\<open>log2\<close> is exact. Argument parsing, timers and console output are left out.
\<close>

section \<open>Parameters\<close>

definition mincut_epsilon :: real where
  "mincut_epsilon = 3 / 4"

definition mincut_k :: "nat \<Rightarrow> nat" where
  "mincut_k n = nat \<lceil>log 2 (real n) / (mincut_epsilon * mincut_epsilon)\<rceil>"

definition mincut_reduced_k :: "nat \<Rightarrow> real" where
  "mincut_reduced_k n = (real (mincut_k n) / log 2 (real n)) * (3 / 2)"

definition mincut_num_graphs :: "nat \<Rightarrow> nat" where
  "mincut_num_graphs n = 1 + nat \<lfloor>2 * log 2 (real n)\<rfloor>"

definition mincut_sketch_params :: "nat \<Rightarrow> seed_t \<Rightarrow> bool \<Rightarrow> SketchParams" where
  "mincut_sketch_params n seed uvm =
     (let samples = calc_cc_samples n (mincut_reduced_k n); columns = samples * default_cols_per_sample;
          bkts = calc_bkt_per_col (calc_vector_length n)
      in \<lparr>skp_num_samples = samples, skp_num_buckets = columns * bkts + 1, skp_num_columns = columns, skp_bkt_per_col = bkts,
          skp_seed = seed, cudaUVM_enabled = uvm\<rparr>)"

text \<open>The product \<^verbatim>\<open>4 * w * num_nodes\<close> is computed in 32 bits.\<close>

definition mincut_sketch_bytes :: "nat \<Rightarrow> real" where
  "mincut_sketch_bytes n =
     real (16 * n mod 2 ^ 32) * ((2 * log 2 (real n)) + 2) * ((mincut_reduced_k n * log 2 (real n)) / (1 - log 2 (6 / 5)))"

text \<open>The loop that counts the subgraphs for which sketches are smaller. The \<^verbatim>\<open>int\<close> \<^verbatim>\<open>1 << i\<close> is converted to
  \<^verbatim>\<open>size_t\<close>: for 31 it is negative and becomes \<open>2 ^ 64 - 2 ^ 31\<close>. Larger shifts are undefined.\<close>

definition shifted_one :: "nat \<Rightarrow> nat" where
  "shifted_one i = (if i = 31 then 2 ^ 64 - 2 ^ 31 else 2 ^ i)"

definition count_sketch_graph :: "nat \<Rightarrow> nat \<Rightarrow> nat \<Rightarrow> error + nat" where
  "count_sketch_graph n i m =
     (if 32 \<le> i then Inl Undefined
      else
        let num_edges_complete = (n * (n - 1)) div 2; num_est_edges = num_edges_complete div shifted_one i
        in Inr (if mincut_sketch_bytes n \<le> 8 * real num_est_edges then m + 1 else m))"

definition mincut_max_sketch_graphs :: "nat \<Rightarrow> error + nat" where
  "mincut_max_sketch_graphs n = for_each (count_sketch_graph n) [0..<mincut_num_graphs n] 0"

definition mincut_config :: "nat \<Rightarrow> CCAlgConfiguration" where
  "mincut_config n = set_sketches_factor (mincut_reduced_k n) (set_batch_factor 1 CCAlgConfiguration_new)"

text \<open>The algorithm that the program creates. Below two vertices the parameters are not numbers.\<close>

definition mincut_new :: "gpu_mem \<Rightarrow> nat list \<Rightarrow> bool \<Rightarrow> seed_t \<Rightarrow> nat \<Rightarrow> nat \<Rightarrow> nat \<Rightarrow> nat \<Rightarrow> error + mc_gpu" where
  "mincut_new mem prio uvm seed num_threads nbatch initial n =
     (if n < 2 then Inl Undefined
      else
        case mincut_max_sketch_graphs n of
          Inl e \<Rightarrow> Inl e
        | Inr max_graphs \<Rightarrow>
            MCGPUSketchAlg_new mem prio n num_threads nbatch (mincut_sketch_params n seed uvm) (mincut_num_graphs n) max_graphs
              (nat \<lfloor>mincut_sketch_bytes n\<rfloor>) initial (mincut_config n))"

section \<open>The query\<close>

text \<open>The edges that are handed to VieCut for one subgraph.\<close>

definition cert_edges :: "xxh \<Rightarrow> 'k::linorder sf_env \<Rightarrow> nat \<Rightarrow> nat \<Rightarrow> nat \<Rightarrow> mc_gpu \<Rightarrow> ((error + (nat \<times> nat) list) \<times> mc_gpu) option" where
  "cert_edges xxh env k num_sk gid g =
     (if num_sk \<le> gid then Some (Inr (get_adjlist_spanning_forests g), g)
      else
        case mc_calc_disjoint_spanning_forests xxh env gid k (mg_mc g) of
          None \<Rightarrow> None
        | Some (Inl e, mc) \<Rightarrow> Some (Inl e, g\<lparr>mg_mc := mc\<rparr>)
        | Some (Inr sfs, mc) \<Rightarrow> Some (Inr (concat (map get_edges sfs)), g\<lparr>mg_mc := mc\<rparr>))"

fun cert_loop :: "xxh \<Rightarrow> (nat \<Rightarrow> 'k::linorder sf_env) \<Rightarrow> (nat \<Rightarrow> (nat \<times> nat) list \<Rightarrow> nat \<times> (nat \<Rightarrow> bool)) \<Rightarrow> nat \<Rightarrow> nat \<Rightarrow> nat list \<Rightarrow>
    mc_gpu \<Rightarrow> ((error + (nat \<times> MinCut) option) \<times> mc_gpu) option" where
  "cert_loop xxh env viecut k num_sk [] g = Some (Inr None, g)"
| "cert_loop xxh env viecut k num_sk (gid # gids) g =
     (case cert_edges xxh (env gid) k num_sk gid g of
        None \<Rightarrow> None
      | Some (Inl e, g) \<Rightarrow> Some (Inl e, g)
      | Some (Inr es, g) \<Rightarrow>
          (let mc = calc_minimum_cut viecut es (mg_mc g)
           in if num_sk \<le> gid \<or> cut_value mc < k then Some (Inr (Some (gid, mc)), g)
              else cert_loop xxh env viecut k num_sk gids g))"

definition mincut_query :: "xxh \<Rightarrow> (nat \<Rightarrow> 'k::linorder sf_env) \<Rightarrow> (nat \<Rightarrow> (nat \<times> nat) list \<Rightarrow> nat \<times> (nat \<Rightarrow> bool)) \<Rightarrow> nat \<Rightarrow> nat \<Rightarrow>
    mc_gpu \<Rightarrow> ((error + (nat \<times> MinCut) option) \<times> mc_gpu) option" where
  "mincut_query xxh env viecut k num_graphs g = cert_loop xxh env viecut k (get_num_sketch_graphs g) [0..<num_graphs] g"

section \<open>What the query finds\<close>

text \<open>What the queries rely on: the forests of a subgraph can be found (see \<open>mc_forests_ok\<close>), as long as
  the loop goes on.\<close>

fun cert_ok :: "xxh \<Rightarrow> (nat \<Rightarrow> 'k::linorder sf_env) \<Rightarrow> (nat \<Rightarrow> (nat \<times> nat) list \<Rightarrow> nat \<times> (nat \<Rightarrow> bool)) \<Rightarrow> nat \<Rightarrow> nat \<Rightarrow> (nat \<Rightarrow> vec_t set) \<Rightarrow>
    nat list \<Rightarrow> 64 word MC \<Rightarrow> bool" where
  "cert_ok xxh env viecut k num_sk E [] mc \<longleftrightarrow> True"
| "cert_ok xxh env viecut k num_sk E (i # is) mc \<longleftrightarrow> num_sk \<le> i \<or> mc_forests_ok xxh (env i) i k 0 (E i) 0 mc \<and>
     (case mc_calc_disjoint_spanning_forests xxh (env i) i k mc of
        Some (Inr sfs, mc') \<Rightarrow> cut_value (calc_minimum_cut viecut (concat (map get_edges sfs)) mc') < k \<or> cert_ok xxh env viecut k num_sk E is mc'
      | _ \<Rightarrow> True)"

definition sf_env_ok :: "'k::linorder sf_env \<Rightarrow> 'h::len word MC \<Rightarrow> bool" where
  "sf_env_ok env mc \<longleftrightarrow> (\<forall>i. omp_ok (mc_conf (sf_omp env i) mc)) \<and> iter_order (sf_ord env) \<and>
     mset (sf_thr_order env) = mset [0..<length (sf_thr_order env)]"

lemma sf_env_ok_params: "mc_same_params mc' mc \<Longrightarrow> sf_env_ok env mc' = sf_env_ok env mc"
  by (simp add: sf_env_ok_def mc_conf_params)

text \<open>A result of the query for the graphs \<open>E\<close>: the subgraphs before it have no cut below \<open>k\<close>.\<close>

definition cut_found :: "(nat \<Rightarrow> (nat \<times> nat) list \<Rightarrow> nat \<times> (nat \<Rightarrow> bool)) \<Rightarrow> nat \<Rightarrow> nat \<Rightarrow> vec_t set \<Rightarrow> MinCut \<Rightarrow> bool" where
  "cut_found viecut n k E mc \<longleftrightarrow> cut_value mc < k \<and> proper_cut n (left_vertices mc) \<and> left_vertices mc \<union> right_vertices mc = {..<n} \<and>
     left_vertices mc \<inter> right_vertices mc = {} \<and> card (edge_cut E (left_vertices mc)) = cut_value mc \<and>
     ((\<forall>es. viecut_minimal viecut n es) \<longrightarrow> (\<forall>A. proper_cut n A \<longrightarrow> cut_value mc \<le> card (edge_cut E A)))"

definition no_small_cut :: "nat \<Rightarrow> nat \<Rightarrow> vec_t set \<Rightarrow> bool" where
  "no_small_cut n k E \<longleftrightarrow> (\<forall>A. proper_cut n A \<longrightarrow> k \<le> card (edge_cut E A))"

lemma cert_edges_sketch:
  assumes "mc_wf (mg_mc g)" "i < num_sketch_graphs (mg_mc g)" "graph_ids (mc_num_vertices (mg_mc g)) E" "mc_holds xxh (mg_mc g) i (incident E) 0"
    and "sf_env_ok env (mg_mc g)" "mc_forests_ok xxh env i k 0 E 0 (mg_mc g)" "i < num_sk"
  shows "\<exists>sfs mc'. mc_calc_disjoint_spanning_forests xxh env i k (mg_mc g) = Some (Inr sfs, mc') \<and>
    cert_edges xxh env k num_sk i g = Some (Inr (concat (map get_edges sfs)), g\<lparr>mg_mc := mc'\<rparr>) \<and> length sfs = k \<and> disjoint_forests E sfs \<and>
    mc_wf mc' \<and> mc_holds xxh mc' i (incident E) k \<and> other_graphs_kept i mc' (mg_mc g) \<and> mc_same_params mc' (mg_mc g)"
proof -
  have e: "\<And>j. omp_ok (mc_conf (sf_omp env j) (mg_mc g))" "iter_order (sf_ord env)"
      "mset (sf_thr_order env) = mset [0..<length (sf_thr_order env)]"
    using assms(5) by (simp_all add: sf_env_ok_def)
  from mc_disjoint_forests_spec [OF assms(1-4) e assms(6)] show ?thesis using assms(7) by (auto simp: cert_edges_def)
qed

text \<open>The outcome of the loop from subgraph \<open>a\<close> on.\<close>

definition query_result :: "xxh \<Rightarrow> (nat \<Rightarrow> (nat \<times> nat) list \<Rightarrow> nat \<times> (nat \<Rightarrow> bool)) \<Rightarrow> nat \<Rightarrow> nat \<Rightarrow> nat \<Rightarrow> nat \<Rightarrow> (nat \<Rightarrow> vec_t set) \<Rightarrow> nat \<Rightarrow>
    mc_gpu \<Rightarrow> (nat \<times> MinCut) option \<Rightarrow> mc_gpu \<Rightarrow> bool" where
  "query_result xxh viecut n k num_graphs num_sk E a g r g' \<longleftrightarrow>
     (case r of None \<Rightarrow> num_graphs \<le> num_sk
      | Some (i, mc) \<Rightarrow> i < num_graphs \<and> i \<le> num_sk \<and> (i < num_sk \<longrightarrow> cut_found viecut n k (E i) mc) \<and>
          (i = num_sk \<longrightarrow> mc = calc_minimum_cut viecut (get_adjlist_spanning_forests g) (mg_mc g))) \<and>
     ((\<forall>es. viecut_minimal viecut n es) \<longrightarrow> (\<forall>j\<ge>a. j < (case r of None \<Rightarrow> num_graphs | Some (i, mc) \<Rightarrow> i) \<longrightarrow> no_small_cut n k (E j))) \<and>
     mc_wf (mg_mc g') \<and> edge_store g' = edge_store g \<and> (\<forall>i < min num_graphs num_sk. \<exists>z. mc_holds xxh (mg_mc g') i (incident (E i)) z)"

lemma cert_loop_correct:
  assumes "mc_wf (mg_mc g)" "num_sketch_graphs (mg_mc g) = num_sk" "mc_num_vertices (mg_mc g) = n"
    and E: "\<And>i. i < min num_graphs num_sk \<Longrightarrow> graph_ids n (E i)"
    and "\<And>i. i < min num_graphs num_sk \<Longrightarrow> \<exists>z. mc_holds xxh (mg_mc g) i (incident (E i)) z"
    and "\<And>i. a \<le> i \<Longrightarrow> i < min num_graphs num_sk \<Longrightarrow> mc_holds xxh (mg_mc g) i (incident (E i)) 0"
    and "\<And>i. sf_env_ok (env i) (mg_mc g)" and vc: "\<And>es. viecut_cut viecut n es" and "cert_ok xxh env viecut k num_sk E [a..<num_graphs] (mg_mc g)"
    and "a \<le> num_sk"
  shows "\<exists>r g'. cert_loop xxh env viecut k num_sk [a..<num_graphs] g = Some (Inr r, g') \<and> query_result xxh viecut n k num_graphs num_sk E a g r g'"
  using assms
proof (induction "num_graphs - a" arbitrary: a g)
  case 0
  then show ?case by (intro exI [of _ None] exI [of _ g]) (auto simp: query_result_def)
next
  case (Suc m)
  have a: "[a..<num_graphs] = a # [Suc a..<num_graphs]" "a < num_graphs" "m = num_graphs - Suc a" using Suc.hyps(2) by (simp_all add: upt_conv_Cons)
  have n: "n \<le> 2 ^ 32" "num_sk \<le> max_sketch_graphs (mg_mc g)" using Suc.prems(1-3) by (auto simp: mc_wf_def)
  show ?case
  proof (cases "num_sk \<le> a")
    case True
    then show ?thesis using Suc.prems a by (auto simp: cert_edges_def query_result_def)
  next
    case False
    then have am: "a < min num_graphs num_sk" using a by simp
    have ok: "mc_forests_ok xxh (env a) a k 0 (E a) 0 (mg_mc g)" using Suc.prems(9) False unfolding a(1) by simp
    obtain sfs mc' where f: "mc_calc_disjoint_spanning_forests xxh (env a) a k (mg_mc g) = Some (Inr sfs, mc')"
        "cert_edges xxh (env a) k num_sk a g = Some (Inr (concat (map get_edges sfs)), g\<lparr>mg_mc := mc'\<rparr>)" "length sfs = k" "disjoint_forests (E a) sfs"
        "mc_wf mc'" "mc_holds xxh mc' a (incident (E a)) k" "other_graphs_kept a mc' (mg_mc g)" "mc_same_params mc' (mg_mc g)"
      using cert_edges_sketch [of g a "E a" xxh "env a" k num_sk] Suc.prems(1-3,7) Suc.prems(6) [of a] E [OF am] ok False am by auto
    have p: "num_sketch_graphs mc' = num_sk" "mc_num_vertices mc' = n" using f(8) Suc.prems(2,3) by (simp_all add: mc_same_params_def)
    let ?cut = "calc_minimum_cut viecut (concat (map get_edges sfs)) mc'" and ?g = "g\<lparr>mg_mc := mc'\<rparr>"
    have keep: "mc_holds xxh mc' i S z" if "mc_holds xxh (mg_mc g) i S z" "i \<noteq> a" "i < num_sk" for i S z
      using mc_holds_other [OF that(1) f(7) disjI1 [OF f(8)] that(2)] that(3) n(2) by simp
    have holds: "\<exists>z. mc_holds xxh mc' i (incident (E i)) z" if "i < min num_graphs num_sk" for i
      using keep [of i] Suc.prems(5) [OF that] f(6) that by (cases "i = a") auto
    show ?thesis
    proof (cases "cut_value ?cut < k")
      case True
      have "cut_found viecut n k (E a) ?cut"
        using calc_minimum_cut_forests [OF f(4), of mc' viecut ?cut] E [OF am] n(1) vc True f(3) by (auto simp: p cut_found_def)
      then show ?thesis using f(2,5) a True False holds by (auto simp: query_result_def)
    next
      case big: False
      have "cert_ok xxh env viecut k num_sk E [Suc a..<num_graphs] mc'" using Suc.prems(9) False f(1) big unfolding a(1) by simp
      moreover have se: "sf_env_ok (env i) mc'" for i using Suc.prems(7) sf_env_ok_params [OF f(8)] by blast
      ultimately have "\<exists>r g'. cert_loop xxh env viecut k num_sk [Suc a..<num_graphs] ?g = Some (Inr r, g') \<and>
          query_result xxh viecut n k num_graphs num_sk E (Suc a) ?g r g'"
        by (intro Suc.hyps(1) [OF a(3)]) (use f(5) p E holds keep Suc.prems(6) se vc False in auto)
      then obtain r g' where r: "cert_loop xxh env viecut k num_sk [Suc a..<num_graphs] ?g = Some (Inr r, g')"
        "query_result xxh viecut n k num_graphs num_sk E (Suc a) ?g r g'" by blast
      have small: "no_small_cut n k (E a)" if "\<forall>es. viecut_minimal viecut n es"
        using calc_minimum_cut_large [OF f(4), of mc' viecut k] E [OF am] n(1) that big by (auto simp: p no_small_cut_def)
      have cut: "calc_minimum_cut viecut (get_adjlist_spanning_forests ?g) (mg_mc ?g) = calc_minimum_cut viecut (get_adjlist_spanning_forests g) (mg_mc g)"
        using p Suc.prems(3) by (simp add: calc_minimum_cut_def get_adjlist_spanning_forests_def)
      have "no_small_cut n k (E j)" if "\<forall>es. viecut_minimal viecut n es" "a \<le> j" "j < (case r of None \<Rightarrow> num_graphs | Some (i, mc) \<Rightarrow> i)" for j
        using r(2) small [OF that(1)] that unfolding query_result_def by (cases "j = a") (auto simp: Suc_le_eq)
      then have "query_result xxh viecut n k num_graphs num_sk E a g r g'" using r(2) unfolding query_result_def cut by simp
      then show ?thesis using r(1) f(2) big False unfolding a(1) by (intro exI [of _ r] exI [of _ g']) (simp add: Let_def)
    qed
  qed
qed


definition example_mc_gpu :: mc_gpu where
  "example_mc_gpu = \<lparr>mg_mc = example_mc, default_skt_params = example_params False, mg_num_nodes = 4, num_subgraphs = 3, cur_subgraphs = 2,
     mg_host_threads = 1, mg_batches_per_buffer = 1, subgraphs = [],
     edge_store = \<lparr>es_seed = 3, es_num_vertices = 4, es_num_subgraphs = 3, cur_subgraph = 2, true_min_subgraph = 2, es_num_edges = 0,
       needs_contraction = 0, adjlist = replicate 4 [], vertex_contracted = replicate 4 True, es_max_edges = 100\<rparr>, mg_batch_size = 16\<rparr>"

definition cut_zero :: "nat \<Rightarrow> (nat \<times> nat) list \<Rightarrow> nat \<times> (nat \<Rightarrow> bool)" where
  "cut_zero n es = (crossing {0} es, \<lambda>i. i = 0)"

lemma cut_zero_cut:
  assumes "2 \<le> n"
  shows "viecut_cut cut_zero n es"
proof -
  have "{i. i < n \<and> i = 0} = {0 :: nat}" using assms by auto
  moreover have "0 \<in> {..<n}" "1 \<in> {..<n} - {0}" using assms by simp_all
  then have "proper_cut n {0}" unfolding proper_cut_def by blast
  ultimately show ?thesis by (simp add: viecut_cut_def cut_zero_def Let_def)
qed


section \<open>The parameters fit\<close>

lemma for_each_total:
  assumes "\<And>x s. x \<in> set xs \<Longrightarrow> \<exists>s'. f x s = Inr s'"
  shows "\<exists>s'. for_each f xs s = Inr s'"
  using assms
proof (induction xs arbitrary: s)
  case (Cons x xs)
  obtain s1 where "f x s = Inr s1" using Cons.prems by fastforce
  moreover obtain s2 where "for_each f xs s1 = Inr s2" using Cons by fastforce
  ultimately show ?case by simp
qed simp

lemma for_each_error:
  assumes "x \<in> set xs" "\<And>s. \<exists>e. f x s = Inl e"
  shows "\<exists>e. for_each f xs s = Inl e"
proof -
  obtain ys zs where xs: "xs = ys @ x # zs" using assms(1) by (meson split_list)
  show ?thesis
  proof (cases "for_each f ys s")
    case (Inr s1)
    obtain e where "f x s1 = Inl e" using assms(2) by blast
    then show ?thesis using Inr by (simp add: xs for_each_append)
  qed (simp add: xs for_each_append)
qed

lemma num_graphs_bound:
  assumes "2 \<le> n"
  shows "mincut_num_graphs n \<le> 32 \<longleftrightarrow> n * n < 2 ^ 32"
proof -
  have pos: "0 \<le> 2 * log 2 (real n)" using assms by simp
  have "2 * log 2 (real n) = log 2 (real (n * n))" using assms by (simp add: log_mult)
  moreover have "log 2 (real (n * n)) < 32 \<longleftrightarrow> real (n * n) < 2 powr 32" using assms by (subst log_less_iff) auto
  moreover have "(2 :: real) powr 32 = real (2 ^ 32)" by (simp add: powr_numeral)
  ultimately have "2 * log 2 (real n) < 32 \<longleftrightarrow> n * n < 2 ^ 32" by (simp only: of_nat_less_iff)
  moreover have "mincut_num_graphs n \<le> 32 \<longleftrightarrow> \<lfloor>2 * log 2 (real n)\<rfloor> \<le> 31" using pos by (simp add: mincut_num_graphs_def) linarith
  moreover have "\<lfloor>2 * log 2 (real n)\<rfloor> \<le> 31 \<longleftrightarrow> 2 * log 2 (real n) < 32" by (simp add: floor_le_iff)
  ultimately show ?thesis by simp
qed

lemma max_sketch_graphs_defined:
  assumes "2 \<le> n"
  shows "(\<exists>m. mincut_max_sketch_graphs n = Inr m) \<longleftrightarrow> n * n < 2 ^ 32"
proof (cases "mincut_num_graphs n \<le> 32")
  case True
  have "\<exists>m'. count_sketch_graph n i m = Inr m'" if "i \<in> set [0..<mincut_num_graphs n]" for i m
    using that True by (simp add: count_sketch_graph_def Let_def)
  then have "\<exists>m. mincut_max_sketch_graphs n = Inr m" unfolding mincut_max_sketch_graphs_def by (rule for_each_total)
  then show ?thesis using True num_graphs_bound [OF assms] by simp
next
  case False
  have "\<exists>e. mincut_max_sketch_graphs n = Inl e"
    unfolding mincut_max_sketch_graphs_def using False by (intro for_each_error [of 32]) (auto simp: count_sketch_graph_def)
  then show ?thesis using False num_graphs_bound [OF assms] by auto
qed

lemma reduced_k_bounds:
  assumes "2 \<le> n"
  shows "8 / 3 \<le> mincut_reduced_k n"
proof -
  have l: "0 < log 2 (real n)" using assms by simp
  have "log 2 (real n) / (9 / 16) \<le> real (mincut_k n)" using l by (simp add: mincut_k_def mincut_epsilon_def)
  then have "16 / 9 \<le> real (mincut_k n) / log 2 (real n)" using l by (simp add: pos_le_divide_eq)
  from mult_right_mono [OF this, of "3 / 2"] show ?thesis by (simp add: mincut_reduced_k_def)
qed

text \<open>C27. For two vertices or more, the parameters that the program computes are those of the sketches that the
  algorithm creates with its configuration. The number of subgraphs for which there is room is defined
  exactly for fewer than \<open>2 ^ 16\<close> vertices: beyond that the shift of the loop is undefined.\<close>

theorem mincut_parameters:
  assumes "2 \<le> n" "n \<le> 2 ^ 31"
  shows "params_match (mincut_sketch_params n seed uvm) (new_sketch n seed (cfg_sketches_factor (mincut_config n))) \<and>
    ((\<exists>m. mincut_max_sketch_graphs n = Inr m) \<longleftrightarrow> n < 2 ^ 16)"
proof -
  have sq: "n * n < 2 ^ 32 \<longleftrightarrow> n < 2 ^ 16" using power2_less_imp_less [of n "2 ^ 16"] mult_strict_mono [of n "2 ^ 16" n "2 ^ 16"] by (auto simp: power2_eq_square)
  have f: "cfg_sketches_factor (mincut_config n) = mincut_reduced_k n"
    using reduced_k_bounds [OF assms(1)] by (simp add: mincut_config_def set_sketches_factor_def)
  have "sketch_wf (new_sketch n seed (mincut_reduced_k n) :: 64 word Sketch)" by (rule new_sketch_wf [OF assms(2)])
  moreover have "18 \<le> calc_cc_samples n (mincut_reduced_k n)" by (simp add: calc_cc_samples_def)
  ultimately show ?thesis
    using max_sketch_graphs_defined [OF assms(1)] unfolding sq
    by (simp add: f params_match_def mincut_sketch_params_def new_sketch_def Sketch_new_def Let_def default_cols_per_sample_def)
qed

theorem mincut_parameters_witness:
  "params_match (mincut_sketch_params 1024 7 True) (new_sketch 1024 7 (cfg_sketches_factor (mincut_config 1024))) \<and>
   (\<exists>m. mincut_max_sketch_graphs 1024 = Inr m)"
  using mincut_parameters [of 1024 7 True] by simp

section \<open>From the stream to the cut\<close>

lemma incident_filter: "incident {x \<in> E. P x} v = {x \<in> incident E v. P x}"
  by (auto simp: incident_def)

lemma graph_ids_filter: "graph_ids n E \<Longrightarrow> graph_ids n {x \<in> E. P x}"
  by (simp add: graph_ids_def)

lemma mc_holds_cong:
  assumes "mc_holds xxh mc i S z" "\<And>v. v < mc_num_vertices mc \<Longrightarrow> S v = T v"
  shows "mc_holds xxh mc i T z"
  using assms by (auto simp: mc_holds_def sketches_hold_def)

lemma filter_flat: "v < n \<Longrightarrow> filter (\<lambda>e. fst e = v) (concat (map (\<lambda>u. map (Pair u) (f u)) [0..<n])) = map (Pair v) (f v)"
proof (induction n)
  case (Suc n)
  have out: "filter (\<lambda>e. fst e = v) (concat (map (\<lambda>u. map (Pair u) (f u)) us)) = []" if "v \<notin> set us" for us
    using that by (induction us) (auto simp: filter_empty_conv)
  show ?case
  proof (cases "v = n")
    case True
    then show ?thesis using out [of "[0..<n]"] by (simp add: filter_True)
  next
    case False
    then show ?thesis using Suc out [of "[n]"] by simp
  qed
qed simp

lemma adjlist_edges_of:
  assumes "v < es_n (edge_store g)"
  shows "filter (\<lambda>e. fst e = v) (get_adjlist_spanning_forests g) = map (\<lambda>d. (v, stu_dst d)) (adjlist (edge_store g) ! v)"
  using filter_flat [OF assms, of "\<lambda>u. map stu_dst (adjlist (edge_store g) ! u)"]
  by (simp add: get_adjlist_spanning_forests_def es_get_edges_def o_def)

text \<open>The subgraph \<open>i\<close> of a graph: the edges whose depth is at least \<open>i\<close>.\<close>

definition sub_graph :: "xxh \<Rightarrow> seed_t \<Rightarrow> nat \<Rightarrow> vec_t set \<Rightarrow> nat \<Rightarrow> vec_t set" where
  "sub_graph xxh seed subs E i = {x \<in> E. i \<le> edge_depth xxh seed subs x}"

text \<open>The answer for the subgraphs \<open>E\<close> of a graph: a cut below \<open>k\<close> of a sketch subgraph, or what VieCut says on the
  edges that the store keeps of the first subgraph in it. The subgraphs before it have no cut below \<open>k\<close> if VieCut
  is exact. There is no answer if all the subgraphs are sketched.\<close>

definition query_answer :: "(nat \<Rightarrow> (nat \<times> nat) list \<Rightarrow> nat \<times> (nat \<Rightarrow> bool)) \<Rightarrow> nat \<Rightarrow> nat \<Rightarrow> nat \<Rightarrow> (nat \<Rightarrow> vec_t set) \<Rightarrow> mc_gpu \<Rightarrow>
    (nat \<times> MinCut) option \<Rightarrow> bool" where
  "query_answer viecut n k num_graphs E g r \<longleftrightarrow>
     (case r of
        None \<Rightarrow> num_graphs \<le> get_num_sketch_graphs g
      | Some (i, mc) \<Rightarrow>
          (if i < get_num_sketch_graphs g then cut_found viecut n k (E i) mc
           else i = get_num_sketch_graphs g \<and> (\<exists>edges. mc = calc_minimum_cut viecut edges (mg_mc g) \<and>
             (\<forall>v < n. odd_set (map (\<lambda>(u, w). edge_id u w) (filter (\<lambda>e. fst e = v) edges)) = incident (E i) v))) \<and>
          ((\<forall>es. viecut_minimal viecut n es) \<longrightarrow> (\<forall>j < i. no_small_cut n k (E j))))"

lemma query_result_answer:
  assumes "query_result xxh viecut n k num_graphs (get_num_sketch_graphs g) E 0 g r g'"
    and "get_num_sketch_graphs g < num_graphs \<Longrightarrow> \<forall>v < n. odd_set (map (\<lambda>(u, w). edge_id u w) (filter (\<lambda>e. fst e = v) (get_adjlist_spanning_forests g))) =
      incident (E (get_num_sketch_graphs g)) v"
  shows "query_answer viecut n k num_graphs E g r"
  using assms by (auto simp: query_result_def query_answer_def split: option.splits)


text \<open>On the empty graph the hash is sound when it does not map 0 to 0.\<close>

lemma empty_asked_sound:
  fixes mc :: "64 word MC"
  assumes "xxh 0 (mc_seed mc) \<noteq> 0"
  shows "mc_asked_sound xxh {} z mc"
proof -
  have "edge_cut {} A = {}" for A by (simp add: edge_cut_def)
  moreover have "bucket_sound TYPE(64) xxh (mc_seed mc) {}"
    using assms by (simp add: bucket_sound_def is_good_def get_index_hash_def bucket_sum_def)
  ultimately show ?thesis
    by (simp add: mc_asked_sound_def hist_sound_def cuts_sound_def sample_sound_def checksum_seed_def new_sketch_def Sketch_new_def Let_def)
qed

definition two_sf_env :: "(nat \<times> nat) sf_env" where
  "two_sf_env = example_sf_env\<lparr>sf_omp := (\<lambda>_. seq_env 2)\<rparr>"

lemma two_sf_env_ok:
  assumes "mc_num_vertices mc = 2"
  shows "sf_env_ok two_sf_env mc"
  using seq_env_mc_ok [of mc] assms by (simp add: sf_env_ok_def two_sf_env_def example_sf_env_def iter_order_def)

lemma cuda_xxh_zero: "cuda_xxh 0 7 \<noteq> 0"
  by code_simp

lemma even_batch_ids: "odd_set (vertex_ids [(0, replicate 18 1)] v) = {}"
proof -
  have "odd_set (replicate (2 * k) x) = {}" for k and x :: vec_t by (induction k) (simp_all add: odd_set_Cons)
  from this [of 9] show ?thesis by (simp add: vertex_ids_def)
qed


end
