(* ===== verification/Driver.thy ===== *)
theory Driver
  imports CC_Correctness
begin

text \<open>
  The driver and its worker threads (include/graph_sketch_driver.h, include/worker_thread_group.h).

  The guttering system and the stream are other repositories: their operations are arguments
  (\<open>gts\<close>, \<open>stream\<close>), and \<open>gts_ok\<close> names what the driver relies on. \<open>None\<close> as the result of an
  operation of the guttering system means that the call blocks in this state.

  A worker is a state machine over the calls of \<^verbatim>\<open>do_work\<close>; the flags that the threads share without
  a lock are read and written in separate steps, the sections under \<^verbatim>\<open>flush_lock\<close> are one step each.
  A schedule is a list of labels: which worker moves, or which step the main thread takes.
\<close>

type_synonym batch = "nat \<times> nat list"

record 'q gts =
  gts_insert :: "nat \<times> nat \<Rightarrow> nat \<Rightarrow> 'q \<Rightarrow> 'q option"
  force_flush :: "'q \<Rightarrow> 'q"
  get_data :: "'q \<Rightarrow> (bool \<times> batch list \<times> 'q) option"
  get_data_callback :: "batch list \<Rightarrow> 'q \<Rightarrow> 'q"
  set_non_block :: "bool \<Rightarrow> 'q \<Rightarrow> 'q"

datatype worker_pc = Fetch | Busy "batch list" "batch list" | GotNone | Waiting | Exited

record worker =
  pc :: worker_pc
  shutdown :: bool
  do_pause :: bool
  paused :: bool

record ('q, 'a) sys =
  gq :: 'q
  workers :: "worker list"
  sketching_alg :: 'a
  total_updates :: nat
  aborted :: bool
  applied :: "(nat \<times> batch) list"

text \<open>The algorithm as the driver sees it: \<^verbatim>\<open>apply_update_batch\<close>, which may throw.\<close>

type_synonym 'a batch_op = "nat \<Rightarrow> nat \<Rightarrow> nat list \<Rightarrow> 'a \<Rightarrow> error + 'a"

section \<open>Workers\<close>

definition WorkerThread_new :: worker where
  "WorkerThread_new = \<lparr>pc = Fetch, shutdown = False, do_pause = False, paused = False\<rparr>"

definition WorkerThreadGroup_new :: "nat \<Rightarrow> worker list" where
  "WorkerThreadGroup_new num_workers = replicate num_workers WorkerThread_new"

definition wt_pause :: "worker \<Rightarrow> worker" where
  "wt_pause w = w\<lparr>do_pause := True\<rparr>"

definition wt_unpause :: "worker \<Rightarrow> worker" where
  "wt_unpause w = w\<lparr>do_pause := False, paused := False\<rparr>"

definition wt_stop :: "worker \<Rightarrow> worker" where
  "wt_stop w = w\<lparr>shutdown := True\<rparr>"

text \<open>An exception in a worker thread ends the process: \<open>aborted\<close>. \<open>applied\<close> is a ghost log.\<close>

definition batch_callback :: "'a batch_op \<Rightarrow> nat \<Rightarrow> nat \<Rightarrow> nat list \<Rightarrow> ('q, 'a) sys \<Rightarrow> ('q, 'a) sys" where
  "batch_callback apply_batch thr_id src_vertex dst_vertices s =
     (let s = s\<lparr>total_updates := total_updates s + length dst_vertices\<rparr>
      in case apply_batch thr_id src_vertex dst_vertices (sketching_alg s) of
           Inl e \<Rightarrow> s\<lparr>aborted := True\<rparr>
         | Inr a \<Rightarrow> s\<lparr>sketching_alg := a, applied := applied s @ [(thr_id, src_vertex, dst_vertices)]\<rparr>)"

text \<open>One step of worker \<open>i\<close> in \<^verbatim>\<open>do_work\<close>; \<open>None\<close> when it blocks or has exited.\<close>

definition do_work_step :: "'q gts \<Rightarrow> 'a batch_op \<Rightarrow> nat \<Rightarrow> ('q, 'a) sys \<Rightarrow> ('q, 'a) sys option" where
  "do_work_step gts apply_batch i s =
     (if aborted s \<or> \<not> i < length (workers s) then None
      else
        let w = workers s ! i; put = (\<lambda>w s. s\<lparr>workers := (workers s)[i := w]\<rparr>)
        in case pc w of
             Fetch \<Rightarrow>
               (case get_data gts (gq s) of
                  None \<Rightarrow> None
                | Some (valid, data, q) \<Rightarrow>
                    Some (put (w\<lparr>pc := if valid then Busy data data else GotNone\<rparr>) (s\<lparr>gq := q\<rparr>)))
           | Busy data (b # bs) \<Rightarrow>
               Some (put (w\<lparr>pc := Busy data bs\<rparr>)
                 (if length (snd b) > 0 then batch_callback apply_batch i (fst b) (snd b) s else s))
           | Busy data [] \<Rightarrow> Some (put (w\<lparr>pc := Fetch\<rparr>) (s\<lparr>gq := get_data_callback gts data (gq s)\<rparr>))
           | GotNone \<Rightarrow>
               Some (put (if shutdown w then w\<lparr>pc := Exited\<rparr>
                          else if do_pause w then w\<lparr>pc := Waiting, paused := True\<rparr>
                          else w\<lparr>pc := Fetch\<rparr>) s)
           | Waiting \<Rightarrow>
               (if \<not> do_pause w \<or> shutdown w then Some (put (w\<lparr>pc := Fetch, paused := False\<rparr>) s) else None)
           | Exited \<Rightarrow> None)"

section \<open>The main thread\<close>

text \<open>The steps of \<^verbatim>\<open>prep_query\<close>, \<^verbatim>\<open>flush_workers\<close>, \<^verbatim>\<open>resume_workers\<close>, of an insertion by a stream
  thread and of the destructor. \<open>CheckPaused\<close> is the exit of the waiting loop.\<close>

datatype main_step = ForceFlush | SetNonBlock bool | Pause nat | Unpause nat | CheckPaused | Insert "nat \<times> nat" nat | Stop nat | Join nat

definition all_paused :: "worker list \<Rightarrow> bool" where
  "all_paused ws \<longleftrightarrow> list_all paused ws"

fun main_do :: "'q gts \<Rightarrow> main_step \<Rightarrow> ('q, 'a) sys \<Rightarrow> ('q, 'a) sys option" where
  "main_do gts ForceFlush s = Some (s\<lparr>gq := force_flush gts (gq s)\<rparr>)"
| "main_do gts (SetNonBlock b) s = Some (s\<lparr>gq := set_non_block gts b (gq s)\<rparr>)"
| "main_do gts (Pause i) s = Some (s\<lparr>workers := (workers s)[i := wt_pause (workers s ! i)]\<rparr>)"
| "main_do gts (Unpause i) s = Some (s\<lparr>workers := (workers s)[i := wt_unpause (workers s ! i)]\<rparr>)"
| "main_do gts CheckPaused s = (if all_paused (workers s) then Some s else None)"
| "main_do gts (Insert e thr_id) s = (case gts_insert gts e thr_id (gq s) of None \<Rightarrow> None | Some q \<Rightarrow> Some (s\<lparr>gq := q\<rparr>))"
| "main_do gts (Stop i) s = Some (s\<lparr>workers := (workers s)[i := wt_stop (workers s ! i)]\<rparr>)"
| "main_do gts (Join i) s = (if pc (workers s ! i) = Exited then Some s else None)"

definition flush_workers :: "nat \<Rightarrow> main_step list" where
  "flush_workers num_workers = SetNonBlock True # map Pause [0..<num_workers] @ [CheckPaused]"

definition resume_workers :: "nat \<Rightarrow> main_step list" where
  "resume_workers num_workers = map Unpause [0..<num_workers] @ [SetNonBlock False]"

definition prep_query :: "bool \<Rightarrow> nat \<Rightarrow> main_step list" where
  "prep_query cached num_workers = (if cached then [] else ForceFlush # flush_workers num_workers)"

definition WorkerThreadGroup_delete :: "nat \<Rightarrow> main_step list" where
  "WorkerThreadGroup_delete num_workers = SetNonBlock True # map Stop [0..<num_workers] @ map Join [0..<num_workers]"

datatype label = W nat | M main_step

fun main_steps :: "label list \<Rightarrow> main_step list" where
  "main_steps [] = []"
| "main_steps (W i # ls) = main_steps ls"
| "main_steps (M m # ls) = m # main_steps ls"

fun exec :: "'q gts \<Rightarrow> 'a batch_op \<Rightarrow> label list \<Rightarrow> ('q, 'a) sys \<Rightarrow> ('q, 'a) sys option" where
  "exec gts ap [] s = Some s"
| "exec gts ap (W i # ls) s = (case do_work_step gts ap i s of None \<Rightarrow> None | Some s \<Rightarrow> exec gts ap ls s)"
| "exec gts ap (M m # ls) s = (case main_do gts m s of None \<Rightarrow> None | Some s \<Rightarrow> exec gts ap ls s)"

section \<open>The stream\<close>

datatype UpdateType = INSERT | DELETE | BREAKPOINT

record 'st graph_stream =
  set_break_point :: "nat \<Rightarrow> 'st \<Rightarrow> bool \<times> 'st"
  get_update_buffer :: "nat \<Rightarrow> 'st \<Rightarrow> ((nat \<times> nat) \<times> UpdateType) list \<times> 'st"
  get_update_is_thread_safe :: bool

definition update_array_size :: nat where
  "update_array_size = 4000"

text \<open>The loop over one buffer: the calls that the thread makes, up to a breakpoint, and whether it
  found one. \<open>Inl\<close> is a call of \<^verbatim>\<open>pre_insert\<close>, \<open>Inr\<close> one of \<^verbatim>\<open>gts->insert\<close>.\<close>

fun buffer_calls :: "((nat \<times> nat) \<times> UpdateType) list \<Rightarrow> bool \<times> (((nat \<times> nat) \<times> UpdateType) + (nat \<times> nat)) list" where
  "buffer_calls [] = (False, [])"
| "buffer_calls ((e, ty) # us) =
     (if ty = BREAKPOINT then (True, [])
      else
        let (found, calls) = buffer_calls us
        in (found, Inl (e, ty) # Inr (fst e, snd e) # Inr (snd e, fst e) # calls))"

partial_function (option) stream_task :: "'st graph_stream \<Rightarrow> 'st \<Rightarrow>
    ((((nat \<times> nat) \<times> UpdateType) + (nat \<times> nat)) list \<times> 'st) option" where
  "stream_task stream st =
     (let (buf, st) = get_update_buffer stream update_array_size st; (found, calls) = buffer_calls buf
      in if found then Some (calls, st)
         else Option.bind (stream_task stream st) (\<lambda>(calls', st). Some (calls @ calls', st)))"

text \<open>The constructor's fallback to one stream thread assigns the parameter, not the member: the
  member keeps its value.\<close>

definition driver_stream_threads :: "'st graph_stream \<Rightarrow> nat \<Rightarrow> nat" where
  "driver_stream_threads stream num_stream_threads =
     (let member = num_stream_threads;
          num_stream_threads = (if num_stream_threads > 1 \<and> \<not> get_update_is_thread_safe stream then 1 else num_stream_threads)
      in member)"

text \<open>The stream threads share the stream; here they run one after the other. \<open>Inl\<close>: the
  breakpoint was refused and the process exits.\<close>

fun stream_tasks :: "'st graph_stream \<Rightarrow> nat \<Rightarrow> 'st \<Rightarrow>
    ((((nat \<times> nat) \<times> UpdateType) + (nat \<times> nat)) list list \<times> 'st) option" where
  "stream_tasks stream 0 st = Some ([], st)"
| "stream_tasks stream (Suc k) st =
     Option.bind (stream_task stream st) (\<lambda>(calls, st).
       Option.bind (stream_tasks stream k st) (\<lambda>(callss, st). Some (calls # callss, st)))"

definition process_stream_until :: "'st graph_stream \<Rightarrow> nat \<Rightarrow> nat \<Rightarrow> nat \<Rightarrow> 'st \<Rightarrow>
    (unit + main_step list \<times> (((nat \<times> nat) \<times> UpdateType) + (nat \<times> nat)) list list \<times> 'st) option" where
  "process_stream_until stream break_edge_idx num_workers num_stream_threads st =
     (let (ok, st) = set_break_point stream break_edge_idx st
      in if \<not> ok then Some (Inl ())
         else Option.bind (stream_tasks stream num_stream_threads st)
           (\<lambda>(callss, st). Some (Inr (resume_workers num_workers, callss, st))))"

section \<open>What the driver relies on\<close>

definition updates :: "batch list \<Rightarrow> (nat \<times> nat) multiset" where
  "updates bs = mset (concat (map (\<lambda>(src, dsts). map (Pair src) dsts) bs))"

lemma updates_simps [simp]:
  "updates [] = {#}" "updates (b # bs) = mset (map (Pair (fst b)) (snd b)) + updates bs" "updates (bs @ bs') = updates bs + updates bs'"
  by (auto simp: updates_def split: prod.splits)

text \<open>\<open>content q\<close> are the updates that the guttering system holds, \<open>flushed q\<close> says that all of them
  are in its work queue, \<open>nonblock q\<close> that \<^verbatim>\<open>get_data\<close> does not wait on an empty queue.\<close>

definition gts_ok :: "'q gts \<Rightarrow> ('q \<Rightarrow> (nat \<times> nat) multiset) \<Rightarrow> ('q \<Rightarrow> bool) \<Rightarrow> ('q \<Rightarrow> bool) \<Rightarrow> bool" where
  "gts_ok gts content flushed nonblock \<longleftrightarrow>
     (\<forall>q e t q'. gts_insert gts e t q = Some q' \<longrightarrow> content q' = content q + {#e#} \<and> nonblock q' = nonblock q) \<and>
     (\<forall>q. content (force_flush gts q) = content q \<and> flushed (force_flush gts q) \<and> nonblock (force_flush gts q) = nonblock q) \<and>
     (\<forall>q data q'. get_data gts q = Some (True, data, q') \<longrightarrow>
        content q = content q' + updates data \<and> (flushed q \<longrightarrow> flushed q') \<and> nonblock q' = nonblock q) \<and>
     (\<forall>q data q'. get_data gts q = Some (False, data, q') \<longrightarrow> q' = q \<and> nonblock q \<and> (flushed q \<longrightarrow> content q = {#})) \<and>
     (\<forall>q. nonblock q \<longrightarrow> get_data gts q \<noteq> None) \<and>
     (\<forall>data q. content (get_data_callback gts data q) = content q \<and>
        (flushed q \<longrightarrow> flushed (get_data_callback gts data q)) \<and> nonblock (get_data_callback gts data q) = nonblock q) \<and>
     (\<forall>b q. content (set_non_block gts b q) = content q \<and> (flushed q \<longrightarrow> flushed (set_non_block gts b q)) \<and>
        nonblock (set_non_block gts b q) = b)"

lemma gts_okD:
  assumes "gts_ok gts content flushed nonblock"
  shows "gts_insert gts e t q = Some q' \<Longrightarrow> content q' = content q + {#e#}"
    "content (force_flush gts q) = content q" "flushed (force_flush gts q)" "nonblock (force_flush gts q) = nonblock q"
    "get_data gts q = Some (True, data, q') \<Longrightarrow> content q = content q' + updates data"
    "get_data gts q = Some (True, data, q') \<Longrightarrow> flushed q \<Longrightarrow> flushed q'"
    "get_data gts q = Some (True, data, q') \<Longrightarrow> nonblock q' = nonblock q"
    "get_data gts q = Some (False, data, q') \<Longrightarrow> q' = q"
    "get_data gts q = Some (False, data, q') \<Longrightarrow> nonblock q"
    "get_data gts q = Some (False, data, q') \<Longrightarrow> flushed q \<Longrightarrow> content q = {#}"
    "nonblock q \<Longrightarrow> get_data gts q \<noteq> None"
    "content (get_data_callback gts data q) = content q" "flushed q \<Longrightarrow> flushed (get_data_callback gts data q)"
    "nonblock (get_data_callback gts data q) = nonblock q"
    "content (set_non_block gts b q) = content q" "flushed q \<Longrightarrow> flushed (set_non_block gts b q)"
    "nonblock (set_non_block gts b q) = b"
  using assms unfolding gts_ok_def by (elim conjE; metis)+

section \<open>Nothing is lost while the workers run\<close>

definition held_by :: "worker \<Rightarrow> (nat \<times> nat) multiset" where
  "held_by w = (case pc w of Busy data rest \<Rightarrow> updates rest | _ \<Rightarrow> {#})"

definition held :: "worker list \<Rightarrow> (nat \<times> nat) multiset" where
  "held ws = sum_list (map held_by ws)"

lemma held_update:
  assumes "i < length ws"
  shows "held (ws[i := w]) + held_by (ws ! i) = held ws + held_by w"
  using assms
proof (induction ws arbitrary: i)
  case (Cons x xs)
  then show ?case by (cases i) (auto simp: held_def ac_simps)
qed simp

fun replay :: "'a batch_op \<Rightarrow> (nat \<times> batch) list \<Rightarrow> 'a \<Rightarrow> error + 'a" where
  "replay ap [] a = Inr a"
| "replay ap ((t, src, dsts) # bs) a = (case ap t src dsts a of Inl e \<Rightarrow> Inl e | Inr a \<Rightarrow> replay ap bs a)"

lemma replay_snoc:
  "replay ap (bs @ [(t, src, dsts)]) a = (case replay ap bs a of Inl e \<Rightarrow> Inl e | Inr a \<Rightarrow> ap t src dsts a)"
  by (induction ap bs a rule: replay.induct) (auto split: sum.splits)

text \<open>The log explains the state of the algorithm, and log, workers and guttering system together
  hold the updates \<open>U\<close>.\<close>

definition accounted :: "('q \<Rightarrow> (nat \<times> nat) multiset) \<Rightarrow> 'a batch_op \<Rightarrow> 'a \<Rightarrow> (nat \<times> nat) multiset \<Rightarrow> ('q, 'a) sys \<Rightarrow> bool" where
  "accounted content ap a0 U s \<longleftrightarrow> aborted s \<or>
     replay ap (applied s) a0 = Inr (sketching_alg s) \<and> list_all (\<lambda>b. fst b < length (workers s) \<and> snd (snd b) \<noteq> []) (applied s) \<and>
     updates (map snd (applied s)) + held (workers s) + content (gq s) = U"

lemma do_work_step_accounted:
  assumes ok: "gts_ok gts content flushed nonblock" and s: "accounted content ap a0 U s" and step: "do_work_step gts ap i s = Some s'"
  shows "accounted content ap a0 U s'"
proof -
  let ?w = "workers s ! i"
  have i: "i < length (workers s)" "\<not> aborted s" using step by (auto simp: do_work_step_def split: if_splits)
  have a: "replay ap (applied s) a0 = Inr (sketching_alg s)" "list_all (\<lambda>b. fst b < length (workers s) \<and> snd (snd b) \<noteq> []) (applied s)"
    "updates (map snd (applied s)) + held (workers s) + content (gq s) = U"
    using s i(2) by (auto simp: accounted_def)
  note h = held_update [OF i(1)]
  show ?thesis
  proof (cases "pc ?w")
    case Fetch
    obtain valid data q where g: "get_data gts (gq s) = Some (valid, data, q)"
      using step i Fetch by (auto simp: do_work_step_def split: option.splits)
    have s': "s' = s\<lparr>gq := q, workers := (workers s)[i := ?w\<lparr>pc := if valid then Busy data data else GotNone\<rparr>]\<rparr>"
      using step i Fetch g by (simp add: do_work_step_def)
    have c: "content (gq s) = content q + (if valid then updates data else {#})"
      using gts_okD(5) [OF ok, of "gq s" data q] gts_okD(8) [OF ok, of "gq s" data q] g by (cases valid) auto
    have "held ((workers s)[i := ?w\<lparr>pc := if valid then Busy data data else GotNone\<rparr>]) = held (workers s) + (if valid then updates data else {#})"
      using h [of "?w\<lparr>pc := if valid then Busy data data else GotNone\<rparr>"] Fetch by (simp add: held_by_def split: if_splits)
    then show ?thesis using a c i(2) by (simp add: accounted_def s' ac_simps)
  next
    case (Busy data rest)
    show ?thesis
    proof (cases rest)
      case Nil
      have s': "s' = s\<lparr>gq := get_data_callback gts data (gq s), workers := (workers s)[i := ?w\<lparr>pc := Fetch\<rparr>]\<rparr>"
        using step i Busy Nil by (simp add: do_work_step_def)
      have "held ((workers s)[i := ?w\<lparr>pc := Fetch\<rparr>]) = held (workers s)"
        using h [of "?w\<lparr>pc := Fetch\<rparr>"] Busy Nil by (simp add: held_by_def)
      then show ?thesis using a i(2) gts_okD(12) [OF ok] by (simp add: accounted_def s')
    next
      case (Cons b bs)
      have hb: "held ((workers s)[i := ?w\<lparr>pc := Busy data bs\<rparr>]) + mset (map (Pair (fst b)) (snd b)) = held (workers s)"
        using h [of "?w\<lparr>pc := Busy data bs\<rparr>"] Busy Cons by (simp add: held_by_def)
      obtain src dsts where b: "b = (src, dsts)" by (cases b)
      show ?thesis
      proof (cases "dsts = []")
        case True
        then show ?thesis using step i Busy Cons b a hb by (auto simp: do_work_step_def accounted_def)
      next
        case False
        then show ?thesis using step i Busy Cons b a hb
          by (cases "ap i src dsts (sketching_alg s)")
            (auto simp: do_work_step_def accounted_def batch_callback_def replay_snoc ac_simps Let_def)
      qed
    qed
  next
    case GotNone
    let ?w' = "if shutdown ?w then ?w\<lparr>pc := Exited\<rparr> else if do_pause ?w then ?w\<lparr>pc := Waiting, paused := True\<rparr> else ?w\<lparr>pc := Fetch\<rparr>"
    have "s' = s\<lparr>workers := (workers s)[i := ?w']\<rparr>" "held_by ?w' = {#}"
      using GotNone step i by (auto simp: do_work_step_def held_by_def Let_def)
    then obtain w where w: "s' = s\<lparr>workers := (workers s)[i := w]\<rparr>" "held_by w = {#}" by blast
    then show ?thesis using a i(2) h [of w] GotNone by (simp add: accounted_def held_by_def)
  next
    case Waiting
    have "s' = s\<lparr>workers := (workers s)[i := ?w\<lparr>pc := Fetch, paused := False\<rparr>]\<rparr>" "held_by (?w\<lparr>pc := Fetch, paused := False\<rparr>) = {#}"
      using Waiting step i by (auto simp: do_work_step_def held_by_def Let_def split: if_splits)
    then obtain w where w: "s' = s\<lparr>workers := (workers s)[i := w]\<rparr>" "held_by w = {#}" by blast
    then show ?thesis using a i(2) h [of w] Waiting by (simp add: accounted_def held_by_def)
  next
    case Exited
    then show ?thesis using step i by (simp add: do_work_step_def)
  qed
qed

section \<open>Flushing\<close>

text \<open>A worker that got no data while the guttering system was flushed proves that the queue is
  empty. This is an invariant of the flush, provided that it holds when the flush starts.\<close>

definition awake :: "('q \<Rightarrow> (nat \<times> nat) multiset) \<Rightarrow> ('q \<Rightarrow> bool) \<Rightarrow> ('q \<Rightarrow> bool) \<Rightarrow> ('q, 'a) sys \<Rightarrow> bool" where
  "awake content flushed nonblock s \<longleftrightarrow>
     (\<forall>w\<in>set (workers s). \<not> shutdown w \<and> pc w \<noteq> Exited \<and> (paused w \<longleftrightarrow> pc w = Waiting) \<and>
        (pc w = GotNone \<or> pc w = Waiting \<longrightarrow> flushed (gq s) \<and> content (gq s) = {#})) \<and>
     (nonblock (gq s) \<longrightarrow> flushed (gq s))"

lemma awake_put:
  assumes "awake content flushed nonblock s" "flushed (gq s) \<Longrightarrow> flushed q" "content (gq s) = {#} \<Longrightarrow> content q = {#}"
    "nonblock q \<Longrightarrow> flushed q"
    "\<not> shutdown w" "pc w \<noteq> Exited" "paused w \<longleftrightarrow> pc w = Waiting" "pc w = GotNone \<or> pc w = Waiting \<Longrightarrow> flushed q \<and> content q = {#}"
    "gq s' = q" "workers s' = (workers s)[i := w]"
  shows "awake content flushed nonblock s'"
  using assms unfolding awake_def by (auto dest!: set_update_subset_insert [THEN subsetD])

lemma do_work_step_awake:
  assumes ok: "gts_ok gts content flushed nonblock" and s: "awake content flushed nonblock s" and step: "do_work_step gts ap i s = Some s'"
  shows "awake content flushed nonblock s'"
proof -
  let ?w = "workers s ! i"
  have i: "i < length (workers s)" "\<not> aborted s" using step by (auto simp: do_work_step_def split: if_splits)
  then have w: "\<not> shutdown ?w" "pc ?w \<noteq> Exited" "paused ?w \<longleftrightarrow> pc ?w = Waiting"
    "pc ?w = GotNone \<or> pc ?w = Waiting \<longrightarrow> flushed (gq s) \<and> content (gq s) = {#}" and nb: "nonblock (gq s) \<Longrightarrow> flushed (gq s)"
    using s by (auto simp: awake_def)
  show ?thesis
  proof (cases "pc ?w")
    case Fetch
    obtain valid data q where g: "get_data gts (gq s) = Some (valid, data, q)"
      using step i Fetch by (auto simp: do_work_step_def split: option.splits)
    have s': "s' = s\<lparr>gq := q, workers := (workers s)[i := ?w\<lparr>pc := if valid then Busy data data else GotNone\<rparr>]\<rparr>"
      using step i Fetch g by (simp add: do_work_step_def)
    show ?thesis
    proof (cases valid)
      case True
      have "content (gq s) = content q + updates data" "flushed (gq s) \<longrightarrow> flushed q" "nonblock q = nonblock (gq s)"
        using gts_okD(5-7) [OF ok, of "gq s" data q] g True by simp_all
      then show ?thesis using True w nb Fetch by (intro awake_put [OF s, where i = i and q = q]) (auto simp: s')
    next
      case False
      have "q = gq s" "nonblock q" "flushed q \<longrightarrow> content q = {#}"
        using gts_okD(8-10) [OF ok, of "gq s" data q] g False by simp_all
      then show ?thesis using False w nb Fetch by (intro awake_put [OF s, where i = i and q = q]) (auto simp: s')
    qed
  next
    case (Busy data rest)
    show ?thesis
    proof (cases rest)
      case Nil
      have s': "s' = s\<lparr>gq := get_data_callback gts data (gq s), workers := (workers s)[i := ?w\<lparr>pc := Fetch\<rparr>]\<rparr>"
        using step i Busy Nil by (simp add: do_work_step_def)
      show ?thesis using w nb Busy gts_okD(12-14) [OF ok, where data = data and q = "gq s"] unfolding s'
        by (intro awake_put [OF s, where i = i]) auto
    next
      case (Cons b bs)
      have "gq s' = gq s" "workers s' = (workers s)[i := ?w\<lparr>pc := Busy data bs\<rparr>]"
        using step i Busy Cons by (auto simp: do_work_step_def batch_callback_def Let_def split: sum.splits)
      then show ?thesis using w nb Busy by (intro awake_put [OF s, where i = i]) auto
    qed
  next
    case GotNone
    then have "s' = s\<lparr>workers := (workers s)[i := if do_pause ?w then ?w\<lparr>pc := Waiting, paused := True\<rparr> else ?w\<lparr>pc := Fetch\<rparr>]\<rparr>"
      using step i w(1) by (simp add: do_work_step_def Let_def)
    then show ?thesis using w nb GotNone by (intro awake_put [OF s, where i = i]) auto
  next
    case Waiting
    then have "s' = s\<lparr>workers := (workers s)[i := ?w\<lparr>pc := Fetch, paused := False\<rparr>]\<rparr>"
      using step i w(1) by (auto simp: do_work_step_def Let_def split: if_splits)
    then show ?thesis using w nb Waiting by (intro awake_put [OF s, where i = i]) auto
  qed (use w in simp)
qed

text \<open>The steps that a flush takes before its check.\<close>

definition flush_prefix :: "('q \<Rightarrow> bool) \<Rightarrow> main_step list \<Rightarrow> ('q, 'a) sys \<Rightarrow> bool" where
  "flush_prefix flushed ms s \<longleftrightarrow> set ms \<subseteq> {ForceFlush, SetNonBlock True} \<union> range Pause \<and>
     (SetNonBlock True \<in> set ms \<longrightarrow> flushed (gq s) \<or> (\<exists>ms'. ms = ForceFlush # ms'))"

lemma do_work_step_frame:
  assumes "gts_ok gts content flushed nonblock" "do_work_step gts ap i s = Some s'"
  shows "length (workers s') = length (workers s)" "flushed (gq s) \<Longrightarrow> flushed (gq s')"
proof -
  have gd: "flushed (gq s) \<Longrightarrow> get_data gts (gq s) = Some (v, data, q) \<Longrightarrow> flushed q" for v data q
    using gts_okD(6) [OF assms(1), of "gq s" data q] gts_okD(8) [OF assms(1), of "gq s" data q] by (cases v) auto
  show "length (workers s') = length (workers s)"
    using assms(2) by (auto simp: do_work_step_def batch_callback_def Let_def
        split: if_splits worker_pc.splits option.splits list.splits sum.splits)
  show "flushed (gq s) \<Longrightarrow> flushed (gq s')"
    using assms(2) gd gts_okD(13) [OF assms(1)] by (auto simp: do_work_step_def batch_callback_def Let_def
        split: if_splits worker_pc.splits option.splits list.splits sum.splits)
qed

lemma held_pause [simp]: "held_by (wt_pause w) = held_by w"
  by (simp add: held_by_def wt_pause_def)

lemma held_pause_list: "held (ws[i := wt_pause (ws ! i)]) = held ws"
proof (cases "i < length ws")
  case True
  then show ?thesis using held_update [of i ws "wt_pause (ws ! i)"] by simp
qed (simp add: not_less list_update_beyond)

lemma main_do_flush:
  assumes ok: "gts_ok gts content flushed nonblock" and s: "awake content flushed nonblock s" "accounted content ap a0 U s"
    and pre: "flush_prefix flushed (m # ms) s" and step: "main_do gts m s = Some s'"
  shows "awake content flushed nonblock s' \<and> accounted content ap a0 U s' \<and> flush_prefix flushed ms s' \<and>
    length (workers s') = length (workers s)"
proof -
  consider "m = ForceFlush" | "m = SetNonBlock True" "flushed (gq s)" | i where "m = Pause i"
    using pre by (auto simp: flush_prefix_def)
  then show ?thesis
  proof cases
    case 1
    then have "s' = s\<lparr>gq := force_flush gts (gq s)\<rparr>" using step by simp
    then show ?thesis using s pre gts_okD(2-4) [OF ok, of "gq s"] by (auto simp: awake_def accounted_def flush_prefix_def)
  next
    case 2
    then have "s' = s\<lparr>gq := set_non_block gts True (gq s)\<rparr>" using step by simp
    then show ?thesis using s pre 2 gts_okD(15-17) [OF ok, where q = "gq s" and b = True]
      by (auto simp: awake_def accounted_def flush_prefix_def)
  next
    case (3 i)
    then have s': "s' = s\<lparr>workers := (workers s)[i := wt_pause (workers s ! i)]\<rparr>" using step by simp
    have "awake content flushed nonblock s'"
    proof (cases "i < length (workers s)")
      case True
      then have "workers s ! i \<in> set (workers s)" by simp
      then show ?thesis using s(1)
        by (intro awake_put [OF s(1), where i = i and q = "gq s" and w = "wt_pause (workers s ! i)"])
          (auto simp: s' wt_pause_def awake_def)
    qed (use s(1) in \<open>simp add: s' awake_def not_less list_update_beyond\<close>)
    then show ?thesis using s(2) pre 3 by (auto simp: s' accounted_def held_pause_list flush_prefix_def)
  qed
qed

lemma exec_flush:
  assumes ok: "gts_ok gts content flushed nonblock"
  shows "exec gts ap ls s = Some s' \<Longrightarrow> flush_prefix flushed (main_steps ls) s \<Longrightarrow> awake content flushed nonblock s \<Longrightarrow>
    accounted content ap a0 U s \<Longrightarrow>
    awake content flushed nonblock s' \<and> accounted content ap a0 U s' \<and> length (workers s') = length (workers s)"
proof (induction ls arbitrary: s)
  case (Cons l ls)
  show ?case
  proof (cases l)
    case (W i)
    then obtain s1 where s1: "do_work_step gts ap i s = Some s1" "exec gts ap ls s1 = Some s'"
      using Cons.prems(1) by (auto split: option.splits)
    have "flush_prefix flushed (main_steps ls) s1"
      using Cons.prems(2) W do_work_step_frame(2) [OF ok s1(1)] by (auto simp: flush_prefix_def)
    then show ?thesis
      using Cons.IH [OF s1(2)] do_work_step_awake [OF ok Cons.prems(3) s1(1)]
        do_work_step_accounted [OF ok Cons.prems(4) s1(1)] do_work_step_frame(1) [OF ok s1(1)] by simp
  next
    case (M m)
    then obtain s1 where s1: "main_do gts m s = Some s1" "exec gts ap ls s1 = Some s'"
      using Cons.prems(1) by (auto split: option.splits)
    show ?thesis using Cons.IH [OF s1(2)] main_do_flush [OF ok Cons.prems(3,4) _ s1(1)] Cons.prems(2) M by auto
  qed
qed simp

lemma exec_append: "exec gts ap (ls @ ls') s = Option.bind (exec gts ap ls s) (exec gts ap ls')"
proof (induction ls arbitrary: s)
  case (Cons l ls)
  then show ?case by (cases l) (auto split: option.splits)
qed simp

lemma flush_delivers:
  assumes ok: "gts_ok gts content flushed nonblock" and s: "awake content flushed nonblock s" "workers s \<noteq> []" "applied s = []"
    and ls: "main_steps ls @ [CheckPaused] = prep_query False (length (workers s))"
    and run: "exec gts ap (ls @ [M CheckPaused]) s = Some s'" "\<not> aborted s'"
  shows "content (gq s') = {#} \<and> held (workers s') = {#} \<and> updates (map snd (applied s')) = held (workers s) + content (gq s) \<and>
    replay ap (applied s') (sketching_alg s) = Inr (sketching_alg s') \<and> list_all (\<lambda>b. fst b < length (workers s) \<and> snd (snd b) \<noteq> []) (applied s')"
proof -
  have r: "exec gts ap ls s = Some s'" "all_paused (workers s')"
    using run(1) by (auto simp: exec_append bind_eq_Some_conv split: if_splits)
  have ms: "main_steps ls = ForceFlush # SetNonBlock True # map Pause [0..<length (workers s)]"
    using ls by (simp add: prep_query_def flush_workers_def)
  have acc: "accounted content ap (sketching_alg s) (held (workers s) + content (gq s)) s"
    using s(3) by (simp add: accounted_def)
  have f: "awake content flushed nonblock s'" "accounted content ap (sketching_alg s) (held (workers s) + content (gq s)) s'"
    "length (workers s') = length (workers s)"
    using exec_flush [OF ok r(1) _ s(1) acc] by (auto simp: ms flush_prefix_def)
  have wt: "pc w = Waiting" if "w \<in> set (workers s')" for w
    using r(2) f(1) that by (auto simp: all_paused_def awake_def list_all_iff)
  have "workers s' \<noteq> []" using f(3) s(2) by auto
  then have c: "content (gq s') = {#}" using wt f(1) hd_in_set unfolding awake_def by blast
  have "held ws = {#}" if "\<And>w. w \<in> set ws \<Longrightarrow> pc w = Waiting" for ws
    using that by (induction ws) (auto simp: held_def held_by_def)
  then have "held (workers s') = {#}" using wt by blast
  then show ?thesis using c f(2,3) run(2) by (auto simp: accounted_def)
qed


section \<open>A concrete guttering system, and the races\<close>

text \<open>A small guttering system: a gutter of single updates, a work queue and the blocking mode.\<close>

type_synonym gutters = "(nat \<times> nat) list \<times> batch list list \<times> bool"

definition list_gts :: "gutters gts" where
  "list_gts = \<lparr>gts_insert = (\<lambda>e t (g, q, b). Some (g @ [e], q, b)),
     force_flush = (\<lambda>(g, q, b). ([], q @ map (\<lambda>(src, dst). [(src, [dst])]) g, b)),
     get_data = (\<lambda>(g, q, b). case q of [] \<Rightarrow> if b then Some (False, [], (g, q, b)) else None | d # ds \<Rightarrow> Some (True, d, (g, ds, b))),
     get_data_callback = (\<lambda>d q. q), set_non_block = (\<lambda>b (g, q, _). (g, q, b))\<rparr>"

definition gutter_content :: "gutters \<Rightarrow> (nat \<times> nat) multiset" where
  "gutter_content q = mset (fst q) + updates (concat (fst (snd q)))"

lemma gutter_flush_content: "updates (concat (map (\<lambda>(src, dst). [(src, [dst])]) g)) = mset g"
  by (induction g) auto

lemma list_gts_ok: "gts_ok list_gts gutter_content (\<lambda>q. fst q = []) (\<lambda>q. snd (snd q))"
  unfolding gts_ok_def
  by (auto simp: list_gts_def gutter_content_def gutter_flush_content split: list.splits if_splits)

definition count_alg :: "nat batch_op" where
  "count_alg t src dsts a = Inr (a + length dsts)"

definition example_sys :: "(gutters, nat) sys" where
  "example_sys = \<lparr>gq = ([(0, 1), (1, 0)], [], False), workers = WorkerThreadGroup_new 2, sketching_alg = 0, total_updates = 0,
     aborted = False, applied = []\<rparr>"

definition example_schedule :: "label list" where
  "example_schedule = [M ForceFlush, W 1, M (SetNonBlock True), W 0, M (Pause 0), W 1, W 0, W 0, M (Pause 1), W 1, W 0, W 1, W 1, W 0]"


text \<open>One worker, paused by a first flush.\<close>

definition paused_sys :: "(gutters, nat) sys" where
  "paused_sys = \<lparr>gq = ([], [], True), workers = [\<lparr>pc = Waiting, shutdown = False, do_pause = True, paused = True\<rparr>],
     sketching_alg = 0, total_updates = 0, aborted = False, applied = []\<rparr>"

lemma paused_sys_reachable:
  "exec list_gts count_alg [M ForceFlush, M (SetNonBlock True), M (Pause 0), W 0, W 0, M CheckPaused]
     (paused_sys\<lparr>gq := ([], [], False), workers := WorkerThreadGroup_new 1\<rparr>) = Some paused_sys"
  by code_simp

text \<open>C38. Lost updates: \<^verbatim>\<open>resume_workers\<close> clears the pause flag before it makes the queue block, so a
  worker can wake up, find the queue empty, and be suspended between its unsuccessful \<^verbatim>\<open>get_data\<close>
  and the test of the pause flag. The next flush then pauses it without letting it drain the queue:
  \<^verbatim>\<open>prep_query\<close> returns although the work queue holds updates.\<close>

theorem flush_race_loses_updates:
  "\<exists>ls s'. main_steps ls = resume_workers 1 @ [Insert (0, 1) 0, Insert (1, 0) 0] @ prep_query False 1 \<and>
     exec list_gts count_alg ls paused_sys = Some s' \<and> gutter_content (gq s') = {#(0, 1), (1, 0)#} \<and> applied s' = []"
proof -
  let ?ls = "[M (Unpause 0), W 0, W 0, M (SetNonBlock False), M (Insert (0, 1) 0), M (Insert (1, 0) 0),
    M ForceFlush, M (SetNonBlock True), M (Pause 0), W 0, M CheckPaused]"
  let ?s = "paused_sys\<lparr>gq := ([], [[(0, [1])], [(1, [0])]], True)\<rparr>"
  have "main_steps ?ls = resume_workers 1 @ [Insert (0, 1) 0, Insert (1, 0) 0] @ prep_query False 1" by code_simp
  moreover have "exec list_gts count_alg ?ls paused_sys = Some ?s" by code_simp
  moreover have "gutter_content (gq ?s) = {#(0, 1), (1, 0)#}" "applied ?s = []"
    by (simp_all add: gutter_content_def paused_sys_def)
  ultimately show ?thesis by blast
qed

text \<open>C39. Deadlock: when a flush follows \<^verbatim>\<open>resume_workers\<close> before a waiting worker was scheduled, the
  worker's wait condition is false again but its flag \<^verbatim>\<open>paused\<close> is cleared: the worker cannot move and
  the waiting loop of \<^verbatim>\<open>flush_workers\<close> never ends, whatever is scheduled.\<close>

theorem flush_race_deadlock:
  "\<exists>ls s'. main_steps ls @ [CheckPaused] = resume_workers 1 @ prep_query False 1 \<and>
     exec list_gts count_alg ls paused_sys = Some s' \<and>
     (\<forall>i. do_work_step list_gts count_alg i s' = None) \<and> main_do list_gts CheckPaused s' = None"
proof -
  let ?ls = "[M (Unpause 0), M (SetNonBlock False), M ForceFlush, M (SetNonBlock True), M (Pause 0)]"
  let ?s = "paused_sys\<lparr>workers := [\<lparr>pc = Waiting, shutdown = False, do_pause = True, paused = False\<rparr>]\<rparr>"
  have "main_steps ?ls @ [CheckPaused] = resume_workers 1 @ prep_query False 1" by code_simp
  moreover have "exec list_gts count_alg ?ls paused_sys = Some ?s" by code_simp
  moreover have "do_work_step list_gts count_alg i ?s = None" for i
    by (cases i) (simp_all add: do_work_step_def paused_sys_def)
  moreover have "main_do list_gts CheckPaused ?s = None" by code_simp
  ultimately show ?thesis by blast
qed

section \<open>The flush ends\<close>

text \<open>All workers were asked to pause and none to stop.\<close>

definition flushing :: "('q, 'a) sys \<Rightarrow> bool" where
  "flushing s \<longleftrightarrow> list_all (\<lambda>w. do_pause w \<and> \<not> shutdown w) (workers s)"

definition worker_rank :: "worker \<Rightarrow> nat" where
  "worker_rank w = (case pc w of Busy data rest \<Rightarrow> length rest + 4 | Fetch \<Rightarrow> 3 | GotNone \<Rightarrow> 2 | _ \<Rightarrow> 0)"

lemma sum_rank_update:
  assumes "i < length ws" "worker_rank w < worker_rank (ws ! i)"
  shows "sum_list (map worker_rank (ws[i := w])) < sum_list (map worker_rank ws)"
  using assms
proof (induction ws arbitrary: i)
  case (Cons x xs)
  then show ?case by (cases i) auto
qed simp

lemma do_work_step_rank:
  assumes "\<And>q data q'. get_data gts q = Some (True, data, q') \<Longrightarrow> pending q' < pending q"
    and "\<And>q data q'. get_data gts q = Some (False, data, q') \<Longrightarrow> q' = q"
    and "\<And>data q. pending (get_data_callback gts data q) \<le> (pending q :: nat)"
    and "flushing s" "do_work_step gts ap i s = Some s'"
  shows "pending (gq s') < pending (gq s) \<or> pending (gq s') \<le> pending (gq s) \<and>
    sum_list (map worker_rank (workers s')) < sum_list (map worker_rank (workers s))"
proof -
  let ?w = "workers s ! i"
  have i: "i < length (workers s)" "\<not> aborted s" using assms(5) by (auto simp: do_work_step_def split: if_splits)
  have w: "do_pause ?w" "\<not> shutdown ?w" using assms(4) i(1) by (auto simp: flushing_def list_all_length)
  have less: "sum_list (map worker_rank (workers s')) < sum_list (map worker_rank (workers s))"
    if "workers s' = (workers s)[i := w']" "worker_rank w' < worker_rank ?w" for w'
    using sum_rank_update [OF i(1) that(2)] that(1) by simp
  show ?thesis
  proof (cases "pc ?w")
    case Fetch
    obtain valid data q where g: "get_data gts (gq s) = Some (valid, data, q)"
      using assms(5) i Fetch by (auto simp: do_work_step_def split: option.splits)
    have s': "s' = s\<lparr>gq := q, workers := (workers s)[i := ?w\<lparr>pc := if valid then Busy data data else GotNone\<rparr>]\<rparr>"
      using assms(5) i Fetch g by (simp add: do_work_step_def)
    show ?thesis
    proof (cases valid)
      case True
      then show ?thesis using assms(1) [of "gq s" data q] g by (simp add: s')
    next
      case False
      then show ?thesis using less [of "?w\<lparr>pc := GotNone\<rparr>"] assms(2) [of "gq s" data q] g Fetch
        by (simp add: s' worker_rank_def)
    qed
  next
    case (Busy data rest)
    show ?thesis
    proof (cases rest)
      case Nil
      have s': "s' = s\<lparr>gq := get_data_callback gts data (gq s), workers := (workers s)[i := ?w\<lparr>pc := Fetch\<rparr>]\<rparr>"
        using assms(5) i Busy Nil by (simp add: do_work_step_def)
      show ?thesis using less [of "?w\<lparr>pc := Fetch\<rparr>"] assms(3) [of data "gq s"] Busy Nil by (simp add: s' worker_rank_def)
    next
      case (Cons b bs)
      have "gq s' = gq s" "workers s' = (workers s)[i := ?w\<lparr>pc := Busy data bs\<rparr>]"
        using assms(5) i Busy Cons by (auto simp: do_work_step_def batch_callback_def Let_def split: sum.splits)
      then show ?thesis using less [of "?w\<lparr>pc := Busy data bs\<rparr>"] Busy Cons by (simp add: worker_rank_def)
    qed
  next
    case GotNone
    then have "s' = s\<lparr>workers := (workers s)[i := ?w\<lparr>pc := Waiting, paused := True\<rparr>]\<rparr>"
      using assms(5) i w by (simp add: do_work_step_def Let_def)
    then show ?thesis using less [of "?w\<lparr>pc := Waiting, paused := True\<rparr>"] GotNone by (simp add: worker_rank_def)
  next
    case Waiting
    then show ?thesis using assms(5) i w by (simp add: do_work_step_def)
  next
    case Exited
    then show ?thesis using assms(5) i by (simp add: do_work_step_def)
  qed
qed



section \<open>The driver and the connected-components algorithm\<close>

text \<open>The edge ids that the updates \<open>U\<close> toggle at vertex \<open>v\<close>.\<close>

definition odd_ids :: "(nat \<times> nat) multiset \<Rightarrow> nat \<Rightarrow> vec_t set" where
  "odd_ids U v = {x. odd (size (filter_mset (\<lambda>e. fst e = v \<and> edge_id v (snd e) = x) U))}"

lemma odd_ids_empty [simp]: "odd_ids {#} v = {}"
  by (simp add: odd_ids_def)

lemma odd_ids_union: "odd_ids (U + U') v = sym_diff (odd_ids U v) (odd_ids U' v)"
  by (auto simp: odd_ids_def)

lemma odd_ids_batch: "odd_ids (mset (map (Pair src) dsts)) v = (if v = src then odd_set (map (edge_id src) dsts) else {})"
proof -
  have "size (filter_mset (\<lambda>e. fst e = v \<and> edge_id v (snd e) = x) (mset (map (Pair src) dsts))) =
      (if v = src then count_list (map (edge_id src) dsts) x else 0)" for x
    by (induction dsts) auto
  then show ?thesis by (auto simp: odd_ids_def odd_set_def)
qed

lemma replay_cc:
  assumes "cc_holds xxh S cc" "replay (apply_update_batch xxh) bs cc = Inr cc'"
    and "list_all (\<lambda>(t, src, dsts). t < length (delta_sketches cc) \<and> src < num_vertices cc) bs"
  shows "cc_holds xxh (\<lambda>v. sym_diff (S v) (odd_ids (updates (map snd bs)) v)) cc' \<and> num_vertices cc' = num_vertices cc"
  using assms
proof (induction bs arbitrary: S cc)
  case Nil
  then show ?case by simp
next
  case (Cons b bs)
  obtain t src dsts where b: "b = (t, src, dsts)" by (cases b)
  have ts: "t < length (delta_sketches cc)" "src < num_vertices cc" using Cons.prems(3) b by auto
  let ?S = "S(src := sym_diff (S src) (odd_set (map (edge_id src) dsts)))"
  obtain cc1 where c: "apply_update_batch xxh t src dsts cc = Inr cc1" "cc_holds xxh ?S cc1"
    "cc1 = cc\<lparr>delta_sketches := delta_sketches cc1, sketches := sketches cc1\<rparr>" "length (delta_sketches cc1) = length (delta_sketches cc)"
    using apply_update_batch_correct [OF Cons.prems(1) ts(2,1), of dsts] by blast
  have n: "num_vertices cc1 = num_vertices cc" by (subst c(3)) simp
  have "cc_holds xxh (\<lambda>v. sym_diff (?S v) (odd_ids (updates (map snd bs)) v)) cc' \<and> num_vertices cc' = num_vertices cc1"
    using Cons.IH [OF c(2)] Cons.prems(2,3) c(1,4) n b by (simp add: list_all_iff)
  moreover have "(\<lambda>v. sym_diff (?S v) (odd_ids (updates (map snd bs)) v)) = (\<lambda>v. sym_diff (S v) (odd_ids (updates (map snd (b # bs))) v))"
  proof (rule ext)
    fix v
    have u: "updates (map snd (b # bs)) = mset (map (Pair src) dsts) + updates (map snd bs)" by (simp add: b)
    show "sym_diff (?S v) (odd_ids (updates (map snd bs)) v) = sym_diff (S v) (odd_ids (updates (map snd (b # bs))) v)"
      unfolding u odd_ids_union odd_ids_batch by auto
  qed
  ultimately show ?case using n by simp
qed

text \<open>An update of the stream enters the guttering system in both directions.\<close>

lemma odd_ids_edge:
  assumes "u \<noteq> v" "u < 2 ^ 32" "v < 2 ^ 32"
  shows "odd_ids {#(u, v), (v, u)#} w = incident {edge_id u v} w"
proof -
  have "edge_id v u = edge_id u v" by (rule edge_id_commute)
  then show ?thesis using assms(1) edge_of_edge_id [OF assms(2,3)]
    by (auto simp: odd_ids_def incident_singleton min_def max_def split: if_splits)
qed

definition stream_updates :: "(nat \<times> nat) list \<Rightarrow> (nat \<times> nat) multiset" where
  "stream_updates es = mset (concat (map (\<lambda>(u, v). [(u, v), (v, u)]) es))"

lemma odd_ids_stream:
  assumes "stream_ok n es" "n \<le> 2 ^ 32"
  shows "odd_ids (stream_updates es) w = incident (stream_graph es) w"
  using assms(1)
proof (induction es)
  case Nil
  then show ?case by (simp add: stream_updates_def stream_graph_def incident_def)
next
  case (Cons e es)
  obtain u v where e: "e = (u, v)" by (cases e)
  have uv: "u \<noteq> v" "u < 2 ^ 32" "v < 2 ^ 32" "stream_ok n es" using Cons.prems assms(2) e by (auto simp: stream_ok_def)
  have "stream_updates (e # es) = {#(u, v), (v, u)#} + stream_updates es" by (simp add: stream_updates_def e)
  moreover have "stream_graph (e # es) = sym_diff {edge_id u v} (stream_graph es)" by (simp add: stream_graph_def e odd_set_Cons)
  ultimately show ?case using Cons.IH [OF uv(4)] odd_ids_edge [OF uv(1-3)]
    by (simp only: odd_ids_union incident_sym_diff)
qed

lemma cc_holds_cong:
  assumes "cc_holds xxh S cc" "\<And>v. v < num_vertices cc \<Longrightarrow> S v = S' v"
  shows "cc_holds xxh S' cc"
  using assms sketches_hold_cong [OF _ assms(2), of xxh "in_bucket xxh"] by (auto simp: cc_holds_def)



section \<open>The stream threads\<close>

definition update_calls :: "((nat \<times> nat) \<times> UpdateType) list \<Rightarrow> (((nat \<times> nat) \<times> UpdateType) + (nat \<times> nat)) list" where
  "update_calls us = concat (map (\<lambda>(e, ty). [Inl (e, ty), Inr (fst e, snd e), Inr (snd e, fst e)]) us)"

lemma buffer_calls_spec:
  "buffer_calls us = (list_ex (\<lambda>u. snd u = BREAKPOINT) us, update_calls (takeWhile (\<lambda>u. snd u \<noteq> BREAKPOINT) us))"
  by (induction us rule: buffer_calls.induct) (auto simp: update_calls_def)

fun read_buffers :: "'st graph_stream \<Rightarrow> nat \<Rightarrow> 'st \<Rightarrow> ((nat \<times> nat) \<times> UpdateType) list \<times> 'st" where
  "read_buffers stream 0 st = ([], st)"
| "read_buffers stream (Suc k) st =
     (let (buf, st) = get_update_buffer stream update_array_size st; (us, st) = read_buffers stream k st in (buf @ us, st))"

text \<open>A stream thread ends once a buffer holds a breakpoint, and then it has made exactly the calls
  for the updates before that breakpoint, in order: the eager union-find first, then both
  directions of the edge into the guttering system.\<close>

theorem stream_task_calls:
  assumes "read_buffers stream k st = (us, st1)" "list_all (\<lambda>u. snd u \<noteq> BREAKPOINT) us"
    and "get_update_buffer stream update_array_size st1 = (buf, st2)" "list_ex (\<lambda>u. snd u = BREAKPOINT) buf"
  shows "stream_task stream st = Some (update_calls (us @ takeWhile (\<lambda>u. snd u \<noteq> BREAKPOINT) buf), st2)"
  using assms(1,2)
proof (induction k arbitrary: st us)
  case 0
  then show ?case using assms(3,4) by (subst stream_task.simps) (simp add: buffer_calls_spec)
next
  case (Suc k)
  obtain b st' us' where b: "get_update_buffer stream update_array_size st = (b, st')" "read_buffers stream k st' = (us', st1)" "us = b @ us'"
    using Suc.prems(1) by (auto simp: Let_def split: prod.splits)
  have nb: "list_all (\<lambda>u. snd u \<noteq> BREAKPOINT) b" "list_all (\<lambda>u. snd u \<noteq> BREAKPOINT) us'" using Suc.prems(2) b(3) by auto
  have "takeWhile (\<lambda>u. snd u \<noteq> BREAKPOINT) b = b" "\<not> list_ex (\<lambda>u. snd u = BREAKPOINT) b"
    using nb(1) by (auto simp: takeWhile_eq_all_conv list_all_iff list_ex_iff)
  then have "buffer_calls b = (False, update_calls b)" by (simp only: buffer_calls_spec)
  then show ?case using Suc.IH [OF b(2) nb(2)] b(1,3)
    by (subst stream_task.simps) (simp add: update_calls_def)
qed

lemma stream_task_calls_witness:
  "stream_task \<lparr>set_break_point = (\<lambda>i st. (True, st)),
      get_update_buffer = (\<lambda>k st. (map (\<lambda>i. if i < 2 then ((i, i + 1), INSERT) else ((0, 0), BREAKPOINT)) [st], Suc st)),
      get_update_is_thread_safe = False\<rparr> 0 = Some (update_calls [((0, 1), INSERT), ((1, 2), INSERT)], 3)"
  by (subst stream_task_calls [where k = 2]) (auto simp: numeral_2_eq_2)

end
