(* ===== verification/DSU_Concurrent.thy ===== *)
theory DSU_Concurrent
  imports DSU
begin

text \<open>
  \<^verbatim>\<open>DisjointSetUnion_MT\<close> (include/dsu.h) under concurrent \<^verbatim>\<open>merge\<close> calls. Each access to the atomic
  parent array is one step of one thread; the accesses are sequentially consistent (the
  default memory order), so an execution is an interleaving of these steps. A
  thread's local state records where in \<^verbatim>\<open>merge\<close> and \<^verbatim>\<open>find_root\<close> it is and the values it has
  loaded, which other threads may have made stale.
\<close>

text \<open>
  The accesses of one \<^verbatim>\<open>find_root\<close>: \<open>L1\<close>--\<open>L3\<close> evaluate the loop test
  \<^verbatim>\<open>parent[parent[u]] != parent[u]\<close>, \<open>B1\<close>--\<open>B3\<close> perform \<^verbatim>\<open>parent[u] = parent[parent[u]].load()\<close>, \<open>B4\<close>
  performs \<^verbatim>\<open>u = parent[u]\<close> and \<open>Ret\<close> \<^verbatim>\<open>return parent[u]\<close>.
\<close>

datatype fstage = L1 | L2 nat | L3 nat nat | B1 | B2 nat | B3 nat | B4 | Ret

datatype operand = OpA | OpB

datatype pc = Idle | Find operand nat fstage | Cas

record mthread =
  req :: "nat \<times> nat"
  ra :: nat
  rb :: nat
  mpc :: pc

fun find_step :: "nat list \<Rightarrow> nat \<Rightarrow> fstage \<Rightarrow> nat list \<times> nat \<times> fstage" where
  "find_step p u L1 = (p, u, L2 (p ! u))"
| "find_step p u (L2 x) = (p, u, L3 x (p ! x))"
| "find_step p u (L3 x y) = (p, u, if y \<noteq> p ! u then B1 else Ret)"
| "find_step p u B1 = (p, u, B2 (p ! u))"
| "find_step p u (B2 x) = (p, u, B3 (p ! x))"
| "find_step p u (B3 y) = (p[u := y], u, B4)"
| "find_step p u B4 = (p, p ! u, L1)"
| "find_step p u Ret = (p, u, Ret)"

definition merge_start :: "nat \<Rightarrow> nat \<Rightarrow> mthread" where
  "merge_start u v = \<lparr>req = (u, v), ra = u, rb = v, mpc = Find OpA u L1\<rparr>"

text \<open>One step of a thread in \<^verbatim>\<open>merge\<close>; \<open>spurious\<close> says whether a compare-and-swap fails for no
  reason. The last component is the value returned, if the call returns.\<close>

fun thread_step :: "nat list \<Rightarrow> bool \<Rightarrow> nat list \<Rightarrow> mthread \<Rightarrow>
    nat list \<times> mthread \<times> DSUMergeRet option" where
  "thread_step prio spurious p t =
     (case mpc t of
        Idle \<Rightarrow> (p, t, None)
      | Find OpA u Ret \<Rightarrow> (p, t\<lparr>ra := p ! u, mpc := Find OpB (rb t) L1\<rparr>, None)
      | Find OpB u Ret \<Rightarrow>
          (let b = p ! u
           in if ra t = b
              then (p, t\<lparr>rb := b, mpc := Idle\<rparr>, Some \<lparr>merged = False, ret_root = 0, ret_child = 0\<rparr>)
              else let (a, b) = order_edge prio (ra t) b
                   in (p, t\<lparr>ra := a, rb := b, mpc := Cas\<rparr>, None))
      | Find opr u st \<Rightarrow>
          (let (p', u', st') = find_step p u st in (p', t\<lparr>mpc := Find opr u' st'\<rparr>, None))
      | Cas \<Rightarrow>
          if p ! rb t = rb t \<and> \<not> spurious
          then (p[rb t := ra t], t\<lparr>mpc := Idle\<rparr>,
                Some \<lparr>merged = True, ret_root = ra t, ret_child = rb t\<rparr>)
          else (p, t\<lparr>rb := p ! rb t, mpc := Find OpA (ra t) L1\<rparr>, None))"

record mt_state =
  shared :: "nat list"
  threads :: "nat \<Rightarrow> mthread"
  mlog :: "((nat \<times> nat) \<times> DSUMergeRet) list"

text \<open>Any thread may start a merge when it is idle, or take its next step.\<close>

inductive mt_step :: "nat list \<Rightarrow> mt_state \<Rightarrow> mt_state \<Rightarrow> bool" for prio where
  Start: "\<lbrakk>mpc (threads s i) = Idle; u < length (shared s); v < length (shared s)\<rbrakk> \<Longrightarrow>
    mt_step prio s (s\<lparr>threads := (threads s)(i := merge_start u v)\<rparr>)"
| Run: "\<lbrakk>mpc (threads s i) \<noteq> Idle; thread_step prio spurious (shared s) (threads s i) = (p', t', r)\<rbrakk> \<Longrightarrow>
    mt_step prio s (s\<lparr>shared := p', threads := (threads s)(i := t'),
      mlog := (case r of None \<Rightarrow> mlog s | Some ret \<Rightarrow> (req (threads s i), ret) # mlog s)\<rparr>)"

inductive mt_reachable :: "nat list \<Rightarrow> nat \<Rightarrow> mt_state \<Rightarrow> bool" for prio n where
  Init: "(\<And>i. mpc (ts i) = Idle) \<Longrightarrow>
    mt_reachable prio n \<lparr>shared = [0..<n], threads = ts, mlog = []\<rparr>"
| Step: "mt_reachable prio n s \<Longrightarrow> mt_step prio s s' \<Longrightarrow> mt_reachable prio n s'"

text \<open>The execution of a given schedule.\<close>

datatype mt_action = AStart nat nat nat | ARun nat bool

fun mt_apply :: "nat list \<Rightarrow> mt_action \<Rightarrow> mt_state \<Rightarrow> mt_state" where
  "mt_apply prio (AStart i u v) s =
     (if mpc (threads s i) = Idle \<and> u < length (shared s) \<and> v < length (shared s)
      then s\<lparr>threads := (threads s)(i := merge_start u v)\<rparr> else s)"
| "mt_apply prio (ARun i spurious) s =
     (if mpc (threads s i) = Idle then s
      else let (p', t', r) = thread_step prio spurious (shared s) (threads s i)
           in s\<lparr>shared := p', threads := (threads s)(i := t'),
                mlog := (case r of None \<Rightarrow> mlog s | Some ret \<Rightarrow> (req (threads s i), ret) # mlog s)\<rparr>)"

definition mt_init :: "nat \<Rightarrow> mt_state" where
  "mt_init n = \<lparr>shared = [0..<n], threads = (\<lambda>_. \<lparr>req = (0, 0), ra = 0, rb = 0, mpc = Idle\<rparr>), mlog = []\<rparr>"

definition mt_exec :: "nat list \<Rightarrow> nat \<Rightarrow> mt_action list \<Rightarrow> mt_state" where
  "mt_exec prio n acts = fold (mt_apply prio) acts (mt_init n)"

definition requested :: "mt_state \<Rightarrow> edges" where
  "requested s = fst ` set (mlog s)"

definition joined :: "mt_state \<Rightarrow> edges" where
  "joined s = fst ` set (filter (\<lambda>e. merged (snd e)) (mlog s))"

section \<open>Invariant of a thread\<close>

definition same :: "nat list \<Rightarrow> nat \<Rightarrow> nat \<Rightarrow> bool" where
  "same p x y \<longleftrightarrow> x < length p \<and> y < length p \<and> root_of p x = root_of p y"

lemma same_sym: "same p x y \<Longrightarrow> same p y x"
  by (simp add: same_def)

lemma same_trans: "same p x y \<Longrightarrow> same p y z \<Longrightarrow> same p x z"
  by (simp add: same_def)

lemma same_parent: "forest prio p \<Longrightarrow> u < length p \<Longrightarrow> same p (p ! u) u"
  by (simp add: same_def root_of_step)

text \<open>What a thread knows about the values it has loaded, whatever the others do.\<close>

fun find_inv :: "nat list \<Rightarrow> nat list \<Rightarrow> nat \<Rightarrow> fstage \<Rightarrow> bool" where
  "find_inv prio p u (L2 x) \<longleftrightarrow> same p x u \<and> (p ! u = u \<longrightarrow> x = u)"
| "find_inv prio p u (L3 x y) \<longleftrightarrow> same p y u \<and> (p ! u = u \<longrightarrow> y = u)"
| "find_inv prio p u B1 \<longleftrightarrow> p ! u \<noteq> u"
| "find_inv prio p u (B2 x) \<longleftrightarrow> p ! u \<noteq> u \<and> same p x u \<and> beaten prio u x"
| "find_inv prio p u (B3 y) \<longleftrightarrow> p ! u \<noteq> u \<and> same p y u \<and> beaten prio u y"
| "find_inv prio p u _ \<longleftrightarrow> True"

definition ends_inv :: "nat list \<Rightarrow> mthread \<Rightarrow> bool" where
  "ends_inv p t \<longleftrightarrow> same p (ra t) (fst (req t)) \<and> same p (rb t) (snd (req t)) \<or>
     same p (ra t) (snd (req t)) \<and> same p (rb t) (fst (req t))"

definition thread_inv :: "nat list \<Rightarrow> nat list \<Rightarrow> mthread \<Rightarrow> bool" where
  "thread_inv prio p t \<longleftrightarrow>
     (case mpc t of
        Idle \<Rightarrow> True
      | Find opr u st \<Rightarrow> ends_inv p t \<and> find_inv prio p u st \<and>
          same p u (case opr of OpA \<Rightarrow> ra t | OpB \<Rightarrow> rb t)
      | Cas \<Rightarrow> ends_inv p t \<and> beaten prio (rb t) (ra t))"

text \<open>How the shared array may change: trees only grow together and roots never come back.\<close>

definition evolves :: "nat list \<Rightarrow> nat list \<Rightarrow> bool" where
  "evolves p p' \<longleftrightarrow> length p' = length p \<and> (\<forall>x y. same p x y \<longrightarrow> same p' x y) \<and>
     (\<forall>u. p ! u \<noteq> u \<longrightarrow> p' ! u \<noteq> u)"

lemma evolves_refl [simp]: "evolves p p"
  by (simp add: evolves_def)

lemma find_inv_stable: "find_inv prio p u st \<Longrightarrow> evolves p p' \<Longrightarrow> find_inv prio p' u st"
  by (cases st) (auto simp: evolves_def)

lemma thread_inv_stable: "thread_inv prio p t \<Longrightarrow> evolves p p' \<Longrightarrow> thread_inv prio p' t"
  using find_inv_stable
  by (fastforce simp: thread_inv_def ends_inv_def evolves_def split: pc.splits)

lemma evolves_halve:
  assumes "forest prio p" "p ! u \<noteq> u" "same p y u" "beaten prio u y"
  shows "forest prio (p[u := y])" "evolves p (p[u := y])"
    "x < length p \<Longrightarrow> root_of (p[u := y]) x = root_of p x"
proof -
  have u: "u < length p" "y < length p" "root_of p y = root_of p u" using assms by (auto simp: same_def)
  note c = compress [OF assms(1) u(1) assms(2) u(2) assms(4) u(3)]
  show "forest prio (p[u := y])" by (rule c)
  show "x < length p \<Longrightarrow> root_of (p[u := y]) x = root_of p x" by (rule c)
  have "y \<noteq> u" using assms(4) by auto
  then show "evolves p (p[u := y])"
    using c(2) u(1) assms(2) by (auto simp: evolves_def same_def nth_list_update)
qed

lemma evolves_link:
  assumes "forest prio p" "p ! b = b" "a < length p" "b < length p" "beaten prio b a"
  shows "forest prio (p[b := a])" "evolves p (p[b := a])" "\<not> same p a b"
    "same (p[b := a]) x y \<longleftrightarrow> same p x y \<or> same p x a \<and> same p b y \<or> same p x b \<and> same p a y"
proof -
  note l = link [OF assms(1,4,2,3,5)]
  have rb: "root_of p b = b" by (rule root_of_self [OF assms(2)])
  show "forest prio (p[b := a])" by (rule l)
  have "a \<noteq> b" using assms(5) by auto
  then show "evolves p (p[b := a])"
    using l(3) assms(4) by (auto simp: evolves_def same_def nth_list_update)
  show "\<not> same p a b" using l(2) rb by (simp add: same_def)
  show "same (p[b := a]) x y \<longleftrightarrow> same p x y \<or> same p x a \<and> same p b y \<or> same p x b \<and> same p a y"
    using l rb assms(3,4) by (auto simp: same_def split: if_splits)
qed

lemma find_step_inv:
  assumes "forest prio p" "u < length p" "find_inv prio p u st" "find_step p u st = (p', u', st')"
  shows "forest prio p' \<and> evolves p p' \<and> same p' u' u \<and> find_inv prio p' u' st' \<and>
    (\<forall>x < length p. root_of p' x = root_of p x)"
proof (cases st)
  case (L2 x)
  then show ?thesis using assms same_parent [OF assms(1), of x]
    by (auto simp: same_def)
next
  case (B2 x)
  then have "x < length p" "beaten prio u x" using assms(3) by (auto simp: same_def)
  then have "beaten prio u (p ! x)"
    using forest_beaten [OF assms(1), of x] beaten_trans by (cases "p ! x = x") auto
  then show ?thesis using assms B2 same_parent [OF assms(1), of x] by (auto simp: same_def)
next
  case (B3 y)
  then have y: "p ! u \<noteq> u" "same p y u" "beaten prio u y" using assms(3) by auto
  note h = evolves_halve [OF assms(1) y]
  show ?thesis using h assms B3 by (auto simp: same_def)
qed (use assms same_parent [OF assms(1), of u] forest_beaten [OF assms(1), of u] in
      \<open>auto simp: same_def split: if_splits\<close>)

text \<open>A step of a thread: the array evolves, the thread keeps its knowledge, and a return value
  tells whether the two ends were apart and have been joined.\<close>

definition step_post :: "nat list \<Rightarrow> nat list \<Rightarrow> nat \<times> nat \<Rightarrow> DSUMergeRet option \<Rightarrow> bool" where
  "step_post p p' e r \<longleftrightarrow>
     (if \<exists>ret. r = Some ret \<and> merged ret
      then \<not> same p (fst e) (snd e) \<and>
        (\<forall>x y. same p' x y \<longleftrightarrow> same p x y \<or> same p x (fst e) \<and> same p (snd e) y \<or>
           same p x (snd e) \<and> same p (fst e) y)
      else (\<forall>x y. same p' x y \<longleftrightarrow> same p x y) \<and> (r \<noteq> None \<longrightarrow> same p (fst e) (snd e)))"

lemma same_roots:
  "length p' = length p \<Longrightarrow> \<forall>x < length p. root_of p' x = root_of p x \<Longrightarrow> same p' x y \<longleftrightarrow> same p x y"
  by (auto simp: same_def)

lemma step_find:
  assumes "forest prio p" "thread_inv prio p t" "mpc t = Find opr u st" "st \<noteq> Ret"
    and "find_step p u st = (p', u', st')"
  shows "forest prio p' \<and> evolves p p' \<and> thread_inv prio p' (t\<lparr>mpc := Find opr u' st'\<rparr>) \<and>
    step_post p p' (req t) None"
proof -
  have t: "ends_inv p t" "find_inv prio p u st" "same p u (case opr of OpA \<Rightarrow> ra t | OpB \<Rightarrow> rb t)"
    using assms(2,3) by (auto simp: thread_inv_def)
  then have "u < length p" by (simp add: same_def)
  from find_step_inv [OF assms(1) this t(2) assms(5)]
  have f: "forest prio p'" "evolves p p'" "same p' u' u" "find_inv prio p' u' st'"
    "\<forall>x < length p. root_of p' x = root_of p x" by auto
  have same: "same p' x y \<longleftrightarrow> same p x y" for x y
    using f(2,5) by (intro same_roots) (auto simp: evolves_def)
  show ?thesis
    using t f(1,2,4) same_trans [OF f(3)]
    by (cases opr) (auto simp: thread_inv_def ends_inv_def step_post_def same)
qed

lemma step_ret_A:
  assumes "forest prio p" "thread_inv prio p t" "mpc t = Find OpA u Ret"
  shows "thread_inv prio p (t\<lparr>ra := p ! u, mpc := Find OpB (rb t) L1\<rparr>)"
proof -
  have t: "ends_inv p t" "same p u (ra t)" using assms(2,3) by (auto simp: thread_inv_def)
  then have "same p (p ! u) (ra t)"
    using same_parent [OF assms(1), of u] same_trans by (metis same_def)
  with t show ?thesis unfolding thread_inv_def ends_inv_def by (auto simp: same_def)
qed

lemma step_ret_B:
  assumes "forest prio p" "thread_inv prio p t" "mpc t = Find OpB u Ret"
  shows "ra t = p ! u \<Longrightarrow> same p (fst (req t)) (snd (req t))"
    and "ra t \<noteq> p ! u \<Longrightarrow> order_edge prio (ra t) (p ! u) = (a, b) \<Longrightarrow>
      thread_inv prio p (t\<lparr>ra := a, rb := b, mpc := Cas\<rparr>)"
proof -
  have t: "ends_inv p t" "same p u (rb t)" using assms(2,3) by (auto simp: thread_inv_def)
  then have b: "same p (p ! u) (rb t)"
    using same_parent [OF assms(1), of u] same_trans by (metis same_def)
  show "ra t = p ! u \<Longrightarrow> same p (fst (req t)) (snd (req t))"
    using t b by (auto simp: ends_inv_def same_def)
  show "thread_inv prio p (t\<lparr>ra := a, rb := b, mpc := Cas\<rparr>)"
    if "ra t \<noteq> p ! u" "order_edge prio (ra t) (p ! u) = (a, b)"
    using order_edge_cases [OF that(1), of prio] that(2) t b
    by (auto simp: thread_inv_def ends_inv_def same_def)
qed

lemma step_cas:
  assumes "forest prio p" "thread_inv prio p t" "mpc t = Cas"
  shows "p ! rb t = rb t \<Longrightarrow> forest prio (p[rb t := ra t]) \<and> evolves p (p[rb t := ra t]) \<and>
      step_post p (p[rb t := ra t]) (req t) (Some \<lparr>merged = True, ret_root = ra t, ret_child = rb t\<rparr>)"
    and "thread_inv prio p (t\<lparr>rb := p ! rb t, mpc := Find OpA (ra t) L1\<rparr>)"
proof -
  have t: "ends_inv p t" "beaten prio (rb t) (ra t)" using assms(2,3) by (auto simp: thread_inv_def)
  then have lt: "ra t < length p" "rb t < length p" by (auto simp: ends_inv_def same_def)
  have "same p (p ! rb t) (rb t)" by (rule same_parent [OF assms(1) lt(2)])
  then show "thread_inv prio p (t\<lparr>rb := p ! rb t, mpc := Find OpA (ra t) L1\<rparr>)"
    using t by (auto simp: thread_inv_def ends_inv_def same_def)
  assume r: "p ! rb t = rb t"
  note l = evolves_link [OF assms(1) r lt t(2)]
  have "\<not> same p (fst (req t)) (snd (req t))"
    using l(3) t(1) by (auto simp: ends_inv_def same_def)
  moreover have "same (p[rb t := ra t]) x y \<longleftrightarrow> same p x y \<or>
      same p x (fst (req t)) \<and> same p (snd (req t)) y \<or>
      same p x (snd (req t)) \<and> same p (fst (req t)) y" for x y
    unfolding l(4) using t(1) unfolding ends_inv_def same_def by auto
  ultimately show "forest prio (p[rb t := ra t]) \<and> evolves p (p[rb t := ra t]) \<and>
      step_post p (p[rb t := ra t]) (req t) (Some \<lparr>merged = True, ret_root = ra t, ret_child = rb t\<rparr>)"
    using l(1,2) by (simp add: step_post_def)
qed

lemma thread_step_inv:
  assumes "forest prio p" "thread_inv prio p t" "mpc t \<noteq> Idle"
    and "thread_step prio spurious p t = (p', t', r)"
  shows "forest prio p' \<and> evolves p p' \<and> thread_inv prio p' t' \<and> req t' = req t \<and>
    step_post p p' (req t) r"
proof (cases "mpc t")
  case Cas
  then show ?thesis
    using step_cas [OF assms(1,2) Cas] assms by (auto simp: thread_inv_def step_post_def split: if_splits)
next
  case (Find opr u st)
  show ?thesis
  proof (cases "st = Ret")
    case False
    obtain p1 u1 st1 where f: "find_step p u st = (p1, u1, st1)" by (metis prod_cases3)
    have "(p', t', r) = (p1, t\<lparr>mpc := Find opr u1 st1\<rparr>, None)"
      using assms(4) Find False f by (cases opr; cases st) auto
    then show ?thesis using step_find [OF assms(1,2) Find False f] by simp
  next
    case True
    show ?thesis
    proof (cases opr)
      case OpA
      then show ?thesis
        using step_ret_A [OF assms(1,2)] Find True assms by (auto simp: step_post_def)
    next
      case OpB
      obtain a b where ab: "order_edge prio (ra t) (p ! u) = (a, b)" by fastforce
      show ?thesis
        using step_ret_B [OF assms(1,2)] Find True OpB assms ab
        by (cases "ra t = p ! u") (auto simp: step_post_def thread_inv_def)
    qed
  qed
qed (use assms in simp)

section \<open>Invariant of an execution\<close>

definition mt_inv :: "nat list \<Rightarrow> nat \<Rightarrow> mt_state \<Rightarrow> bool" where
  "mt_inv prio n s \<longleftrightarrow> length (shared s) = n \<and> forest prio (shared s) \<and>
     (\<forall>i. thread_inv prio (shared s) (threads s i)) \<and>
     spanning_forest_of (requested s) (joined s) \<and>
     (\<forall>x < n. \<forall>y < n. same (shared s) x y \<longleftrightarrow> econn (requested s) x y)"

lemma mt_inv_init:
  assumes "\<And>i. mpc (ts i) = Idle"
  shows "mt_inv prio n \<lparr>shared = [0..<n], threads = ts, mlog = []\<rparr>"
  using assms
  by (auto simp: mt_inv_def forest_def thread_inv_def requested_def joined_def spanning_forest_of_def
    same_def root_of_self)

lemma mt_inv_run:
  assumes inv: "mt_inv prio n s" and idle: "mpc (threads s i) \<noteq> Idle"
    and st: "thread_step prio spurious (shared s) (threads s i) = (p', t', r)"
    and s': "s' = s\<lparr>shared := p', threads := (threads s)(i := t'),
      mlog := (case r of None \<Rightarrow> mlog s | Some ret \<Rightarrow> (req (threads s i), ret) # mlog s)\<rparr>"
  shows "mt_inv prio n s'"
proof -
  let ?p = "shared s" and ?t = "threads s i"
  obtain u v where e: "req ?t = (u, v)" by fastforce
  have f: "forest prio ?p" "thread_inv prio ?p ?t" "length ?p = n"
    and sp: "spanning_forest_of (requested s) (joined s)"
    and E: "\<And>x y. x < n \<Longrightarrow> y < n \<Longrightarrow> same ?p x y \<longleftrightarrow> econn (requested s) x y"
    using inv by (auto simp: mt_inv_def)
  have post: "forest prio p'" "evolves ?p p'" "thread_inv prio p' t'" "step_post ?p p' (u, v) r"
    using thread_step_inv [OF f(1,2) idle st] by (auto simp: e)
  have len: "length p' = n" using post(2) f(3) by (simp add: evolves_def)
  have th: "thread_inv prio p' (((threads s)(i := t')) j)" for j
    using inv post(3) thread_inv_stable [OF _ post(2)] by (auto simp: mt_inv_def)
  have uv: "u < n" "v < n" if "r \<noteq> None"
    using f(2,3) idle e that st by (auto simp: thread_inv_def ends_inv_def same_def split: pc.splits)
  consider "r = None" | ret where "r = Some ret" "\<not> merged ret" | ret where "r = Some ret" "merged ret"
    by (cases r) auto
  then have "spanning_forest_of (requested s') (joined s') \<and>
      (\<forall>x < n. \<forall>y < n. same p' x y \<longleftrightarrow> econn (requested s') x y)"
  proof cases
    case 1
    then show ?thesis using post(4) sp E s' by (simp add: step_post_def requested_def joined_def)
  next
    case 2
    then have rj: "requested s' = insert (u, v) (requested s)" "joined s' = joined s"
      using s' e by (auto simp: requested_def joined_def)
    have "econn (requested s) u v" using post(4) E uv 2 by (simp add: step_post_def)
    then show ?thesis
      using 2 post(4) E spanning_forest_insert(2) [OF sp] unfolding rj
      by (simp add: step_post_def econn_redundant)
  next
    case 3
    then have rj: "requested s' = insert (u, v) (requested s)" "joined s' = insert (u, v) (joined s)"
      using s' e by (auto simp: requested_def joined_def)
    have "\<not> econn (requested s) u v" using post(4) E uv 3 by (simp add: step_post_def)
    then show ?thesis
      using 3 post(4) E uv spanning_forest_insert(1) [OF sp] unfolding rj
      by (simp add: step_post_def econn_insert)
  qed
  then show ?thesis using post(1) len th s' by (simp add: mt_inv_def)
qed

lemma mt_step_inv:
  assumes "mt_step prio s s'" "mt_inv prio n s"
  shows "mt_inv prio n s'"
  using assms
proof cases
  case (Start i u v)
  then have "thread_inv prio (shared s) (merge_start u v)"
    by (simp add: thread_inv_def merge_start_def ends_inv_def same_def)
  with Start assms(2) show ?thesis
    by (auto simp: mt_inv_def requested_def joined_def)
next
  case (Run i spurious p' t' r)
  then show ?thesis using mt_inv_run [OF assms(2)] by blast
qed

lemma mt_reachable_inv: "mt_reachable prio n s \<Longrightarrow> mt_inv prio n s"
  by (induction rule: mt_reachable.induct) (auto intro: mt_inv_init mt_step_inv)

text \<open>C7. Concurrent merges are linearizable: in every state reachable by any interleaving of any
  number of threads, with any spurious failures of the atomic exchange, the parent array is a
  forest, its trees are exactly the components of the edges whose merges have returned, and
  the edges whose merge returned \<open>merged\<close> are a spanning forest of them.\<close>

theorem mt_merges_linearizable:
  assumes "mt_reachable prio n s"
  shows "forest prio (shared s) \<and> spanning_forest_of (requested s) (joined s) \<and>
    (\<forall>x < n. \<forall>y < n. root_of (shared s) x = root_of (shared s) y \<longleftrightarrow> econn (requested s) x y)"
  using mt_reachable_inv [OF assms] by (auto simp: mt_inv_def same_def)

lemma mt_apply_reachable: "mt_reachable prio n s \<Longrightarrow> mt_reachable prio n (mt_apply prio a s)"
proof (cases a)
  case (AStart i u v)
  assume "mt_reachable prio n s"
  then show ?thesis using mt_reachable.Step mt_step.Start AStart by simp
next
  case (ARun i spurious)
  assume s: "mt_reachable prio n s"
  show ?thesis
  proof (cases "mpc (threads s i) = Idle")
    case False
    obtain p' t' r where "thread_step prio spurious (shared s) (threads s i) = (p', t', r)"
      by (metis prod_cases3)
    with mt_step.Run [OF False this] s show ?thesis using mt_reachable.Step ARun False by simp
  qed (use s ARun in simp)
qed

lemma mt_exec_reachable: "mt_reachable prio n (mt_exec prio n acts)"
proof -
  have "mt_reachable prio n (mt_init n)"
    unfolding mt_init_def by (rule mt_reachable.Init) simp
  moreover have "mt_reachable prio n s \<Longrightarrow> mt_reachable prio n (fold (mt_apply prio) acts s)" for s
    by (induction acts arbitrary: s) (auto simp: mt_apply_reachable simp del: mt_apply.simps)
  ultimately show ?thesis by (simp add: mt_exec_def)
qed

theorem mt_merges_linearizable_witness:
  "\<exists>s :: mt_state. mlog s = [((1, 0), \<lparr>merged = False, ret_root = 0, ret_child = 0\<rparr>),
                ((0, 1), \<lparr>merged = True, ret_root = 1, ret_child = 0\<rparr>)] \<and>
     spanning_forest_of {(0, 1), (1, 0)} {(0, 1)} \<and> root_of (shared s) 0 = root_of (shared s) 1"
proof -
  let ?acts = "[AStart 0 0 1, AStart 1 1 0] @ concat (replicate 9 [ARun 0 False, ARun 1 False]) @
    replicate 8 (ARun 1 False)"
  let ?s = "mt_exec [4, 7, 1] 3 ?acts"
  have l: "mlog ?s = [((1, 0), \<lparr>merged = False, ret_root = 0, ret_child = 0\<rparr>),
      ((0, 1), \<lparr>merged = True, ret_root = 1, ret_child = 0\<rparr>)]"
    by code_simp
  have rj: "requested ?s = {(0, 1), (1, 0)}" "joined ?s = {(0, 1)}"
    unfolding requested_def joined_def l by auto
  note post = mt_merges_linearizable [OF mt_exec_reachable [of "[4, 7, 1]" 3 ?acts], unfolded rj]
  have "econn {(0, 1), (1, 0)} 0 1" by (rule econn_edge) simp
  with post have "root_of (shared ?s) 0 = root_of (shared ?s) 1" by simp
  with l post show ?thesis by (intro exI [of _ ?s]) blast
qed

end
