(* ===== verification/Xxhash64_Correctness.thy ===== *)
theory Xxhash64_Correctness
  imports Xxhash64
begin

text \<open>
  Properties of the hash function of the GPU code. The 64-bit multiplication of 32-bit halves computes
  the full 128-bit product, the byte accessors are inverse to each other, and on the eight bytes of an
  edge id the hash is injective for every seed: it mixes by invertible steps (rotations that are undone
  by iterating them, multiplications by an odd constant, shifts that keep the upper bits).
\<close>

section \<open>The 128-bit product\<close>

lemma mask32: "(0xFFFFFFFF :: 64 word) = mask 32"
  by (simp add: mask_eq_exp_minus_1)

lemma unat_and_mask32: "unat (x AND 0xFFFFFFFF :: 64 word) = unat x mod 2 ^ 32"
  unfolding mask32 take_bit_eq_mask [symmetric] by (simp add: take_bit_eq_mod unat_mod)

lemma unat_drop32: "unat (drop_bit 32 x :: 64 word) = unat x div 2 ^ 32"
  by (simp add: drop_bit_eq_div unat_div)

lemma unat_mult32to64:
  "unat (CUDA_XXH_mult32to64 x y) = (unat x mod 2 ^ 32) * (unat y mod 2 ^ 32)"
proof -
  have u: "unat (ucast (ucast z :: 32 word) :: 64 word) = unat z mod 2 ^ 32" for z :: "64 word"
    by (simp add: unsigned_ucast_eq take_bit_eq_mod unat_mod)
  have "(unat x mod 2 ^ 32) * (unat y mod 2 ^ 32) \<le> (2 ^ 32 - 1) * (2 ^ 32 - 1)"
    by (intro mult_le_mono) (simp_all add: less_Suc_eq_le [symmetric])
  then have "(unat x mod 2 ^ 32) * (unat y mod 2 ^ 32) < 2 ^ 64" by simp
  then show ?thesis
    by (simp add: CUDA_XXH_mult32to64_def unat_word_ariths u)
qed

lemma unat_push_or:
  "unat (push_bit 32 c OR (l AND 0xFFFFFFFF) :: 64 word) = (unat c mod 2 ^ 32) * 2 ^ 32 + unat l mod 2 ^ 32"
proof -
  have "push_bit 32 c AND (l AND 0xFFFFFFFF) = (0 :: 64 word)"
    unfolding mask32 by (rule bit_word_eqI) (auto simp: bit_simps)
  then have "push_bit 32 c OR (l AND 0xFFFFFFFF) = push_bit 32 c + (l AND 0xFFFFFFFF)"
    by (simp add: disjunctive_add_eq_or)
  moreover have p: "unat (push_bit 32 c) = (unat c mod 2 ^ 32) * 2 ^ 32"
    by (simp add: push_bit_eq_mult unat_word_ariths mult_mod_left)
  moreover have "unat (push_bit 32 c) + unat (l AND 0xFFFFFFFF) < 2 ^ 64"
  proof -
    have "unat c mod 2 ^ 32 \<le> 2 ^ 32 - 1" "unat l mod 2 ^ 32 < 2 ^ 32" by (simp_all add: less_Suc_eq_le [symmetric])
    then show ?thesis unfolding p unat_and_mask32 by (simp add: algebra_simps)
  qed
  ultimately show ?thesis by (simp add: unat_word_ariths unat_and_mask32)
qed

lemma split_mult:
  fixes a1 a0 b1 b0 B :: nat
  assumes "cross = (a0 * b0) div B + (a1 * b0) mod B + a0 * b1"
  shows "(cross mod B) * B + (a0 * b0) mod B + B * B * ((a1 * b0) div B + cross div B + a1 * b1) = (a1 * B + a0) * (b1 * B + b0)"
proof -
  have c: "cross mod B + B * (cross div B) = cross" by simp
  have l: "a0 * b0 = B * (a0 * b0 div B) + a0 * b0 mod B" and h: "a1 * b0 = B * (a1 * b0 div B) + a1 * b0 mod B" by simp_all
  have "(cross mod B) * B + (a0 * b0) mod B + B * B * ((a1 * b0) div B + cross div B + a1 * b1) =
      B * (cross mod B + B * (cross div B)) + (a0 * b0) mod B + B * B * ((a1 * b0) div B + a1 * b1)"
    by (simp only: distrib_left distrib_right ac_simps)
  also have "\<dots> = B * cross + (a0 * b0) mod B + B * B * ((a1 * b0) div B + a1 * b1)" unfolding c ..
  also have "\<dots> = B * ((a0 * b0) div B + (a1 * b0) mod B + a0 * b1) + (a0 * b0) mod B + B * B * ((a1 * b0) div B + a1 * b1)"
    unfolding assms ..
  also have "\<dots> = (B * (a0 * b0 div B) + a0 * b0 mod B) + B * (B * (a1 * b0 div B) + a1 * b0 mod B) + B * (a0 * b1) + B * B * (a1 * b1)"
    by (simp only: distrib_left distrib_right ac_simps)
  also have "\<dots> = a0 * b0 + B * (a1 * b0) + B * (a0 * b1) + B * B * (a1 * b1)"
    unfolding l [symmetric] h [symmetric] ..
  finally show ?thesis by (simp add: algebra_simps)
qed

text \<open>Two halves and a product of halves add up without a carry out of the word.\<close>

lemma mult_half_le: "x < 2 ^ 32 \<Longrightarrow> y < 2 ^ 32 \<Longrightarrow> x * y \<le> (2 ^ 32 - 1) * (2 ^ 32 - 1)" for x y :: nat
  by (intro mult_le_mono) auto

lemma unat_drop32_less: "unat (drop_bit 32 w :: 64 word) < 2 ^ 32"
  using unsigned_less [of w, where ?'a = nat] by (simp add: unat_drop32 less_mult_imp_div_less)

lemma unat_sum3:
  "unat x < 2 ^ 32 \<Longrightarrow> unat y < 2 ^ 32 \<Longrightarrow> unat z \<le> (2 ^ 32 - 1) * (2 ^ 32 - 1) \<Longrightarrow> unat (x + y + z) = unat x + unat y + unat z"
  for x y z :: "64 word"
  by (simp add: unat_word_ariths)

text \<open>C32. The two words of \<^verbatim>\<open>CUDA_XXH_mult64to128\<close> are the exact product of its arguments: no carry
  between the four partial products is lost.\<close>

theorem mult64to128_exact:
  "unat (low64 (CUDA_XXH_mult64to128 a b)) + 2 ^ 64 * unat (high64 (CUDA_XXH_mult64to128 a b)) = unat a * unat b"
proof -
  define B :: nat where "B = 2 ^ 32"
  define a1 a0 b1 b0 where "a1 = unat a div B" "a0 = unat a mod B" "b1 = unat b div B" "b0 = unat b mod B"
  have lt: "a1 < B" "a0 < B" "b1 < B" "b0 < B"
    using unsigned_less [of a, where ?'a = nat] unsigned_less [of b, where ?'a = nat]
    by (auto simp: a1_a0_b1_b0_def B_def less_mult_imp_div_less)
  define lo_lo hi_lo lo_hi hi_hi where "lo_lo = CUDA_XXH_mult32to64 (a AND 0xFFFFFFFF) (b AND 0xFFFFFFFF)"
    "hi_lo = CUDA_XXH_mult32to64 (drop_bit 32 a) (b AND 0xFFFFFFFF)" "lo_hi = CUDA_XXH_mult32to64 (a AND 0xFFFFFFFF) (drop_bit 32 b)"
    "hi_hi = CUDA_XXH_mult32to64 (drop_bit 32 a) (drop_bit 32 b)"
  define cross where "cross = drop_bit 32 lo_lo + (hi_lo AND 0xFFFFFFFF) + lo_hi"
  define upper where "upper = drop_bit 32 hi_lo + drop_bit 32 cross + hi_hi"
  have u: "unat lo_lo = a0 * b0" "unat hi_lo = a1 * b0" "unat lo_hi = a0 * b1" "unat hi_hi = a1 * b1"
    using lt unfolding lo_lo_hi_lo_lo_hi_hi_hi_def unat_mult32to64 unat_and_mask32 unat_drop32
    by (simp_all add: a1_a0_b1_b0_def B_def)
  have c: "unat cross = a0 * b0 div B + a1 * b0 mod B + a0 * b1"
    using unat_sum3 [of "drop_bit 32 lo_lo" "hi_lo AND 0xFFFFFFFF" lo_hi] mult_half_le [OF lt(2,3) [unfolded B_def]] unat_drop32_less [of lo_lo]
    by (simp add: cross_def u unat_drop32 unat_and_mask32 B_def)
  have up: "unat upper = a1 * b0 div B + unat cross div B + a1 * b1"
    using unat_sum3 [of "drop_bit 32 hi_lo" "drop_bit 32 cross" hi_hi] mult_half_le [OF lt(1,3) [unfolded B_def]] unat_drop32_less [of hi_lo] unat_drop32_less [of cross]
    by (simp add: upper_def u unat_drop32 B_def)
  have "CUDA_XXH_mult64to128 a b = \<lparr>low64 = push_bit 32 cross OR (lo_lo AND 0xFFFFFFFF), high64 = upper\<rparr>"
    by (simp add: CUDA_XXH_mult64to128_def Let_def cross_def upper_def lo_lo_hi_lo_lo_hi_hi_hi_def)
  then have "unat (low64 (CUDA_XXH_mult64to128 a b)) + 2 ^ 64 * unat (high64 (CUDA_XXH_mult64to128 a b)) =
      (unat cross mod B) * B + (a0 * b0) mod B + B * B * unat upper"
    by (simp add: unat_push_or u B_def)
  also have "\<dots> = (a1 * B + a0) * (b1 * B + b0)" unfolding up by (rule split_mult [OF c])
  also have "\<dots> = unat a * unat b" by (simp add: a1_a0_b1_b0_def)
  finally show ?thesis .
qed


section \<open>Bytes\<close>

lemma bytes_of_list:
  "bytes_of x = [ucast x, ucast (drop_bit 8 x), ucast (drop_bit 16 x), ucast (drop_bit 24 x), ucast (drop_bit 32 x),
     ucast (drop_bit 40 x), ucast (drop_bit 48 x), ucast (drop_bit 56 x)]"
  by (simp add: bytes_of_def upt_rec)

lemma bit_byte: "bit (ucast (ucast (drop_bit j x) :: 8 word) :: 'a::len word) n \<longleftrightarrow>
    n < 8 \<and> n < LENGTH('a) \<and> bit x (j + n)"
  for x :: "64 word"
  by (auto simp: bit_simps)

lemma bit_byte_at: "bit (push_bit k (ucast (ucast (drop_bit j x) :: 8 word)) :: 'a::len word) n \<longleftrightarrow>
    k \<le> n \<and> n - k < 8 \<and> n < LENGTH('a) \<and> bit x (j + (n - k))"
  for x :: "64 word"
  by (auto simp: bit_simps)

lemma byte_range: "k \<le> n \<and> n - k < 8 \<and> n < 64 \<and> bit x (k + (n - k)) \<longleftrightarrow> k \<le> n \<and> n < k + 8 \<and> n < 64 \<and> bit x n"
  for k n :: nat and x :: "64 word"
  by (cases "k \<le> n") auto

lemma read64_bytes_of: "CUDA_XXH_read64 (bytes_of x) = x"
proof (rule bit_word_eqI)
  fix n assume "n < LENGTH(64)"
  then have n: "n < 64" by simp
  have "bit (CUDA_XXH_read64 (bytes_of x)) n \<longleftrightarrow> (\<exists>k\<in>{0, 8, 16, 24, 32, 40, 48, 56}. k \<le> n \<and> n < k + 8 \<and> n < 64 \<and> bit x n)"
    using bit_byte_at [of 0 0 x n, where ?'a = 64] unfolding CUDA_XXH_read64_def bytes_of_list bit_or_iff
    by (simp add: bit_byte_at byte_range)
  moreover have "\<exists>k\<in>{0, 8, 16, 24, 32, 40, 48, 56}. k \<le> n \<and> n < k + 8" using n by simp arith
  ultimately show "bit (CUDA_XXH_read64 (bytes_of x)) n \<longleftrightarrow> bit x n" using n by blast
qed
lemma byte_range32:
  "k \<le> n \<and> n - k < 8 \<and> n < 32 \<and> bit x (j + k + (n - k)) \<longleftrightarrow> k \<le> n \<and> n < k + 8 \<and> n < 32 \<and> bit x (j + n)"
  for j k n :: nat and x :: "64 word"
  by (cases "k \<le> n") auto

lemma read32_bytes_of_at:
  fixes x :: "64 word"
  assumes "p ! 0 = ucast (drop_bit j x)" "p ! 1 = ucast (drop_bit (j + 8) x)"
    "p ! 2 = ucast (drop_bit (j + 16) x)" "p ! 3 = ucast (drop_bit (j + 24) x)"
  shows "CUDA_XXH_read32 p = ucast (drop_bit j x)"
proof (rule bit_word_eqI)
  fix n assume "n < LENGTH(32)"
  then have n: "n < 32" by simp
  have "bit (CUDA_XXH_read32 p) n \<longleftrightarrow> (\<exists>k\<in>{0, 8, 16, 24}. k \<le> n \<and> n < k + 8 \<and> n < 32 \<and> bit x (j + n))"
    using bit_byte [of j x n, where ?'a = 32] unfolding CUDA_XXH_read32_def assms bit_or_iff bit_byte_at
    by (simp add: byte_range32)
  moreover have "\<exists>k\<in>{0, 8, 16, 24}. k \<le> n \<and> n < k + 8" using n by simp arith
  moreover have "bit (ucast (drop_bit j x) :: 32 word) n \<longleftrightarrow> bit x (j + n)"
    using n by (simp add: bit_ucast_iff bit_drop_bit_eq)
  ultimately show "bit (CUDA_XXH_read32 p) n \<longleftrightarrow> bit (ucast (drop_bit j x) :: 32 word) n" using n by blast
qed

lemma read32_bytes_of: "CUDA_XXH_read32 (bytes_of x) = ucast x"
  using read32_bytes_of_at [of "bytes_of x" 0 x] by (simp add: bytes_of_list)

lemma read32_bytes_of_4: "CUDA_XXH_read32 (drop 4 (bytes_of x)) = ucast (drop_bit 32 x)"
  by (rule read32_bytes_of_at) (simp_all add: bytes_of_list)

section \<open>The hash of an edge id is injective\<close>

definition rot :: "int \<Rightarrow> 64 word \<Rightarrow> 64 word" where
  "rot k x = word_roti k x"

lemma rot_add: "rot (j + k) x = rot j (rot k x)"
  unfolding rot_def by (rule word_roti_add)

lemma rot_xor: "rot k (x XOR y) = rot k x XOR rot k y"
  unfolding rot_def by (rule bit_word_eqI) (simp only: bit_word_roti_iff bit_xor_iff, blast)

lemma rot_64: "rot (64 * k) x = x"
  unfolding rot_def by (rule bit_word_eqI) (simp add: bit_word_roti_iff del: word_roti_eq_word_rotr_word_rotl)

lemma rotl64_rot: "0 < r \<Longrightarrow> r < 64 \<Longrightarrow> CUDA_XXH_rotl64 x r = rot (- int r) x"
proof (rule bit_word_eqI)
  fix n assume r: "0 < r" "r < 64" and "n < LENGTH(64)"
  then have n: "n < 64" by simp
  have "bit (rot (- int r) x) n \<longleftrightarrow> bit x (nat ((int n - int r) mod 64))"
    unfolding rot_def bit_word_roti_iff using n by simp
  moreover have "bit (CUDA_XXH_rotl64 x r) n \<longleftrightarrow> (if r \<le> n then bit x (n - r) else bit x (64 - r + n))"
    using r n bit_imp_le_length [of x "64 - r + n"]
    by (auto simp: CUDA_XXH_rotl64_def bit_or_iff bit_push_bit_iff bit_drop_bit_eq)
  moreover have "nat ((int n - int r) mod 64) = (if r \<le> n then n - r else 64 - r + n)"
  proof (cases "r \<le> n")
    case True
    then show ?thesis using n by (simp add: mod_pos_pos_trivial)
  next
    case False
    have "(int n - int r) mod 64 = (int n - int r + 64) mod 64" by simp
    also have "\<dots> = int n - int r + 64" using False r by (intro mod_pos_pos_trivial) simp_all
    finally show ?thesis using False r by simp
  qed
  ultimately show "bit (CUDA_XXH_rotl64 x r) n \<longleftrightarrow> bit (rot (- int r) x) n" by simp
qed

definition mix_rot :: "int \<Rightarrow> int \<Rightarrow> 64 word \<Rightarrow> 64 word" where
  "mix_rot j k x = x XOR (rot j x XOR rot k x)"

lemma mix_rot_twice: "mix_rot j k (mix_rot j k x) = mix_rot (2 * j) (2 * k) x"
proof -
  have c: "rot k (rot j x) = rot j (rot k x)" by (metis add.commute rot_add)
  show ?thesis unfolding mix_rot_def mult_2 rot_add rot_xor c by (simp add: xor.assoc xor.left_commute xor.commute)
qed

lemma inj_mix_rot_half: "inj (mix_rot (2 * j) (2 * k)) \<Longrightarrow> inj (mix_rot j k)"
  unfolding inj_def by (metis mix_rot_twice)

lemma inj_mix_rot: "inj (mix_rot j k)"
proof -
  have "mix_rot (64 * j) (64 * k) x = x" for x by (simp add: mix_rot_def rot_64)
  then have "inj (mix_rot (64 * j) (64 * k))" by (simp add: inj_def)
  then have "inj (mix_rot (2 * (2 * (2 * (2 * (2 * (2 * j)))))) (2 * (2 * (2 * (2 * (2 * (2 * k)))))))" by simp
  then show ?thesis
    by (rule inj_mix_rot_half [THEN inj_mix_rot_half, THEN inj_mix_rot_half, THEN inj_mix_rot_half,
      THEN inj_mix_rot_half, THEN inj_mix_rot_half])
qed

lemma mult_rrmxmx_cancel: "x * 0x9FB21C651E98DF25 = y * 0x9FB21C651E98DF25 \<Longrightarrow> x = y" for x y :: "64 word"
proof -
  assume e: "x * 0x9FB21C651E98DF25 = y * 0x9FB21C651E98DF25"
  have i: "(0x9FB21C651E98DF25 :: 64 word) * 0x2ab9c720d1024ad = 1" by simp
  have z: "z * 0x9FB21C651E98DF25 * 0x2ab9c720d1024ad = z" for z :: "64 word" unfolding mult.assoc i by (rule mult_1_right)
  show ?thesis using arg_cong [OF e, of "\<lambda>w. w * 0x2ab9c720d1024ad"] unfolding z .
qed

lemma xorshift28_inverse:
  "CUDA_XXH_xorshift64 x 28 XOR drop_bit 28 (CUDA_XXH_xorshift64 x 28) XOR drop_bit 56 (CUDA_XXH_xorshift64 x 28) = x"
  by (rule bit_word_eqI) (auto simp: CUDA_XXH_xorshift64_def bit_xor_iff bit_drop_bit_eq dest: bit_imp_le_length)

lemma xor_cancel_right: "x XOR z = y XOR z \<Longrightarrow> x = y" for x y z :: "64 word"
proof -
  assume "x XOR z = y XOR z"
  then have "(x XOR z) XOR z = (y XOR z) XOR z" by (simp only:)
  then show ?thesis by (simp only: xor.assoc xor_self_eq xor.right_neutral)
qed

lemma bit_unat_small: "unat w < 2 ^ m \<Longrightarrow> m \<le> n \<Longrightarrow> \<not> bit w n" for w :: "64 word"
proof -
  assume w: "unat w < 2 ^ m" and m: "m \<le> n"
  have "(2 :: nat) ^ m \<le> 2 ^ n" using m by (intro power_increasing) simp_all
  then have "unat w < 2 ^ n" using w by linarith
  then have "\<not> bit (unat w) n" by (simp add: bit_iff_odd)
  then show ?thesis by (simp add: bit_unsigned_iff)
qed

lemma shift_add_cancel:
  fixes x y :: "64 word"
  assumes "x XOR (drop_bit 35 x + 8) = y XOR (drop_bit 35 y + 8)"
  shows "x = y"
proof -
  have small: "\<not> bit (drop_bit 35 z + 8) n" if "35 \<le> n" for z :: "64 word" and n
  proof -
    have "unat (drop_bit 35 z) < 2 ^ 29"
      using unsigned_less [of z, where ?'a = nat] by (simp add: drop_bit_eq_div unat_div less_mult_imp_div_less)
    then have "unat (drop_bit 35 z + 8) < 2 ^ 35" by (simp add: unat_word_ariths)
    then show ?thesis using that
      using bit_unat_small [of "drop_bit 35 z + 8" 35] by blast
  qed
  have "bit x n = bit y n" if "35 \<le> n" for n
    using arg_cong [OF assms, of "\<lambda>w. bit w n"] small [OF that] by (simp add: bit_xor_iff)
  then have "drop_bit 35 x = drop_bit 35 y" by (intro bit_eqI) (simp add: bit_drop_bit_eq)
  then have "x XOR (drop_bit 35 y + 8) = y XOR (drop_bit 35 y + 8)" using assms by (simp only:)
  then show ?thesis by (rule xor_cancel_right)
qed

lemma rrmxmx_inj:
  assumes "CUDA_XXH3_rrmxmx x 8 = CUDA_XXH3_rrmxmx y 8"
  shows "x = y"
proof -
  let ?c = "0x9FB21C651E98DF25 :: 64 word"
  let ?m = "\<lambda>x. mix_rot (-49) (-24) x * ?c"
  have r: "CUDA_XXH3_rrmxmx x 8 = CUDA_XXH_xorshift64 ((?m x XOR (drop_bit 35 (?m x) + 8)) * ?c) 28" for x
    by (simp add: CUDA_XXH3_rrmxmx_def Let_def mix_rot_def rotl64_rot)
  have "(?m x XOR (drop_bit 35 (?m x) + 8)) * ?c = (?m y XOR (drop_bit 35 (?m y) + 8)) * ?c"
    using assms unfolding r by (metis xorshift28_inverse)
  then have "?m x = ?m y" using mult_rrmxmx_cancel shift_add_cancel by blast
  then show ?thesis using mult_rrmxmx_cancel inj_mix_rot [THEN injD] by blast
qed

lemma halves_inj:
  fixes x y :: "64 word"
  assumes "ucast (ucast (drop_bit 32 x) :: 32 word) + push_bit 32 (ucast (ucast x :: 32 word)) =
    ucast (ucast (drop_bit 32 y) :: 32 word) + (push_bit 32 (ucast (ucast y :: 32 word)) :: 64 word)"
  shows "x = y"
proof -
  let ?h = "\<lambda>x :: 64 word. ucast (ucast (drop_bit 32 x) :: 32 word) + (push_bit 32 (ucast (ucast x :: 32 word)) :: 64 word)"
  have h: "?h z = ucast (ucast (drop_bit 32 z) :: 32 word) OR (push_bit 32 (ucast (ucast z :: 32 word)) :: 64 word)" for z :: "64 word"
    by (rule disjunctive_add) (simp add: bit_simps)
  have lo: "bit (?h z) n \<longleftrightarrow> bit z (n + 32)" if "n < 32" for z :: "64 word" and n
    unfolding h using that by (simp add: bit_or_iff bit_push_bit_iff bit_ucast_iff bit_drop_bit_eq add.commute)
  have hi: "bit (?h z) (n + 32) \<longleftrightarrow> bit z n" if "n < 32" for z :: "64 word" and n
    unfolding h using that by (simp add: bit_or_iff bit_push_bit_iff bit_ucast_iff)
  show ?thesis
  proof (rule bit_word_eqI)
    fix n assume "n < LENGTH(64)"
    then have "n < 32 \<or> (\<exists>m < 32. n = m + 32)" by (cases "n < 32") (simp, intro disjI2 exI [of _ "n - 32"], simp)
    then show "bit x n \<longleftrightarrow> bit y n" using assms lo [of _ x] lo [of _ y] hi [of _ x] hi [of _ y] by metis
  qed
qed

lemma cuda_xxh_rrmxmx: "cuda_xxh x seed = CUDA_XXH3_rrmxmx
    ((ucast (ucast (drop_bit 32 x) :: 32 word) + push_bit 32 (ucast (ucast x :: 32 word))) XOR
     ((CUDA_XXH_readLE64 (drop 8 CUDA_XXH3_kSecret) XOR CUDA_XXH_readLE64 (drop 16 CUDA_XXH3_kSecret))
        - (seed XOR push_bit 32 (ucast (CUDA_XXH_swap32 (ucast seed)))))) 8"
  by (simp add: cuda_xxh_def CUDA_XXH64_def CUDA_XXH3_64bits_internal_def CUDA_XXH3_len_0to16_64b_def CUDA_XXH3_len_4to8_64b_def
    CUDA_XXH_readLE32_def CUDA_XXH_CPU_LITTLE_ENDIAN_def read32_bytes_of read32_bytes_of_4)

text \<open>C31. The hash that the kernels use for depths and checksums never maps two edge ids to the same value,
  whatever the seed: a collision of checksums needs at least two edges in a bucket.\<close>

theorem cuda_xxh_injective: "cuda_xxh x seed = cuda_xxh y seed \<longleftrightarrow> x = y"
  unfolding cuda_xxh_rrmxmx using rrmxmx_inj xor_cancel_right halves_inj by blast

text \<open>Reading back the bytes that \<^verbatim>\<open>CUDA_XXH_writeLE64\<close> stores gives the word.\<close>

theorem readLE64_writeLE64: "CUDA_XXH_readLE64 (CUDA_XXH_writeLE64 v) = v"
  by (simp add: CUDA_XXH_readLE64_def CUDA_XXH_writeLE64_def CUDA_XXH_CPU_LITTLE_ENDIAN_def read64_bytes_of)

end
