(* ===== verification/Spec2Isabelle.thy ===== *)
theory Spec2Isabelle
  imports Min_Cut_Tool Driver DSU_Concurrent Xxhash64_Correctness
begin

text \<open>
  A verification development of GraphZeppelin: graph algorithms over a stream of edge insertions and
  deletions that keep, for each vertex, a small linear sketch of its incident edges.

  \<^bold>\<open>The program.\<close> A driver (include/graph_sketch_driver.h) reads the stream, buffers the updates in a
  guttering system and hands batches of updates of one vertex to worker threads
  (include/worker_thread_group.h), which apply them to an algorithm. The connected components algorithm
  (src/cc_sketch_alg.cpp) keeps a sketch per vertex; a query emulates Boruvka rounds: it samples an edge
  from the sketch of every component, joins components in a union-find (include/dsu.h) and merges their
  sketches. The minimum-cut algorithm (src/mc_sketch_alg.cpp) does so for several sampled subgraphs,
  extracts k edge-disjoint spanning forests from each, and computes a minimum cut of their union. The
  edge store (src/edge_store.cpp) keeps the edges of sparse subgraphs explicitly. The GPU variants send
  the batches through streams (include/cuda_stream.h) to kernels (src/cuda_kernel.cu) that compute the
  sketches.

  \<^bold>\<open>Theories\<close>, bottom up. Definitions carry the names of the sources; a class is a record, a member
  function a function on the record, an exception a value of \<open>error\<close> (\<open>Undefined\<close> for accesses outside
  an array and other undefined behaviour).
  \<^item> \<open>Prelude\<close>: machine types, errors, XOR-sums, list and closure lemmas. \<open>Doubles\<close>: rounding of IEEE
    doubles. \<open>Partition\<close>: the division of an array among threads (get_ith_partition,
    get_partition_idx) in floating point, where it is a partition and where it is not.
    \<open>Interleaving\<close>: threads as lists of atomic operations, schedules, and the locale \<open>commuting_ops\<close> under
    which the schedule does not matter.
  \<^item> \<open>Util\<close> (src/util.cpp): the numbering of edges. \<open>Bucket\<close> (include/bucket.h), \<open>Sketch\<close>
    (src/sketch.cpp, include/sketch.h): buckets, updates in both builds, merging, sampling,
    serialization. The locale \<open>linear_sketch\<close> is the contract of the two update functions; both builds
    interpret it. A sketch is a linear function of the stream, and a sample is a member of the set.
  \<^item> \<open>Connectivity\<close>: graphs as sets of edge ids, spanning forests. \<open>DSU\<close> and \<open>DSU_Concurrent\<close>
    (include/dsu.h): both union-find classes, sequentially and as a step relation of threads with
    compare-and-swap; merges are linearizable.
  \<^item> \<open>Round_Exec\<close>, \<open>Segments\<close>, \<open>Boruvka_Round\<close>, \<open>Merge_Instructions\<close>, \<open>Graph_Ids\<close>, \<open>Boruvka\<close>: the
    emulation that both algorithms share: the parallel loops of a round, the merge instructions and
    their division among threads, the queries of the sketches.
  \<^item> \<open>Configurations\<close>, \<open>Return_Types\<close>: the configuration classes and the query results.
  \<^item> \<open>CC_Sketch_Alg\<close>, \<open>CC_Correctness\<close> (src/cc_sketch_alg.cpp): all operations of the connected
    components algorithm. Queries return for every hash function and every interleaving within as many
    rounds as a sketch has samples; with a hash that is sound on the queried sets the answer is that of
    the graph of the stream; otherwise they report the exhausted samples.
  \<^item> \<open>MC_Sketch_Alg\<close>, \<open>MC_Correctness\<close>, \<open>MC_Min_Cut\<close> (src/mc_sketch_alg.cpp): the minimum-cut
    algorithm: disjoint spanning forests, the certificate that they keep all cuts below k, the cut.
    VieCut, which computes the cut of the certificate, is a parameter.
  \<^item> \<open>Driver\<close> (include/graph_sketch_driver.h, include/worker_thread_group.h): worker threads, the work
    queue and the flush before a query as a step relation: what is delivered when prep_query returns,
    that the flush ends, and the two races around resume_workers.
  \<^item> \<open>Edge_Store\<close>, \<open>Edge_Store_Correctness\<close> (src/edge_store.cpp): one definition per critical section;
    the locale \<open>level_store\<close> states how a store that raises its level accounts for every update.
  \<^item> \<open>Xxhash64\<close>, \<open>Xxhash64_Correctness\<close> (include/cuda_xxhash64.cuh): the hash function of the GPU code,
    injective on edge ids.
  \<^item> \<open>Cuda_Kernel\<close>, \<open>Cuda_Kernel_Correctness\<close> (src/cuda_kernel.cu): the kernels with their threads and
    blocks; in every schedule they compute the sketches of the host code.
  \<^item> \<open>Cuda_Stream\<close>, \<open>Cuda_Stream_Correctness\<close> (include/cuda_stream.h): double buffering and the
    asynchronous device; a stream delivers the sketch of each batch once.
  \<^item> \<open>Stream_Bank\<close>: several streams that add the sketches of their batches to the same algorithm. The
    locale \<open>raw_target\<close> states what they need of it; both GPU algorithms interpret it.
  \<^item> \<open>CC_GPU_Sketch_Alg\<close> (src/cc_gpu_sketch_alg.cpp): the connected components algorithm over one stream
    per worker thread; after a flush its sketches stand for the graph of the batches.
  \<^item> \<open>MC_GPU_Sketch_Alg\<close>, \<open>MC_GPU_Delivery\<close>, \<open>MC_GPU_Correctness\<close> (src/mc_gpu_sketch_alg.cpp): the
    minimum-cut algorithm on the GPU: the gutters of each subgraph between the edge store and the streams,
    the creation of subgraphs when the store contracts, and the flush. Every update is accounted for
    between gutters, streams, sketches and store; after a flush the sketches of each subgraph and the store
    hold their part of the stream.
  \<^item> \<open>Min_Cut_Tool\<close> (tools/min_cut.cu): the parameters of the minimum-cut program and its query, and the
    theorem from the stream to the answer.

  \<^bold>\<open>Parameters.\<close> XXH3_64bits_withSeed of the xxhash library is the function \<open>xxh\<close>; theorems about
  answers assume that it is sound on the finitely many sets at hand, all others hold for every function.
  Random priorities, uninitialised memory, thread schedules, the interleaving of parallel loops, the
  guttering system and the stream are arguments too. The width of vec_hash_t is a type variable, 64 in
  the GPU code, which addresses it as a 64-bit word.

  \<^bold>\<open>Bounds.\<close> Graphs have at most \<open>2^31\<close> vertices where vertex ids are compared and shifted as 32-bit
  words; sketch dimensions stay below 64 buckets per column for vectors up to \<open>2^62\<close>. Loops are
  structural, have a termination proof, or are \<open>partial_function (option)\<close> with a proof that they
  return. The GPU kernels count with 32-bit signed integers; a launch that would overflow them is
  \<open>Undefined\<close> in the model, and the theorems assume it away. log2 is the real logarithm.

  \<^bold>\<open>Not modelled\<close>: the single-kernel benchmark algorithm (src/sk_gpu_sketch_alg.cpp); the test build
  VERIFY_SAMPLES_F; timers and printing; the other command-line tools, stream generators, converters
  and the prototype under CUDAtest; include/cuda_xxhash32.cuh, which no file includes. The guttering
  system, the stream readers, VieCut and xxhash are outside the repository. The streams are modelled in
  both modes; the theorems on the GPU algorithms are about the default mode, in which the sketches are in
  host memory, and not about managed memory. Member functions of the minimum-cut algorithm on the GPU run as
  single steps; the races inside the edge store are in \<open>Edge_Store_Correctness\<close>.
\<close>

end
